(* ===== verification/Prelude.thy ===== *)
theory Prelude
  imports Main "HOL-Library.Word"
begin

text \<open>
  Shared vocabulary of the kernel model: the machine integer types of the C sources, the
  flat byte memory that raw pointers address, little-endian loads and stores of wider
  integers, and the generic lemmas about them that the component theories use.

  The named collections \<open>mem_simps\<close> (what a load sees after a store) and \<open>bit_defs\<close>
  (bit patterns of the numeric masks of the sources) carry most component proofs.
\<close>

unbundle bit_operations_syntax

named_theorems mem_simps \<open>loads and stores on byte memories\<close>
named_theorems bit_defs \<open>numeric masks of the sources as bit patterns\<close>

section \<open>Machine integers\<close>

type_synonym u8 = "8 word"
type_synonym u16 = "16 word"
type_synonym u32 = "32 word"
type_synonym u64 = "64 word"

abbreviation NULL :: u64 where
  "NULL \<equiv> 0"

text \<open>The page size shared by the memory managers (VMM.h, PMM.c).\<close>

definition PAGE_SIZE :: u64 where
  "PAGE_SIZE = 0x1000"

lemma unat8_lt: "unat (x :: u8) < 256"
  using unsigned_less [of x, where 'a = nat] by simp

lemma unat32_lt: "unat (x :: u32) < 2 ^ 32"
  using unsigned_less [of x, where 'a = nat] by simp

lemma unat64_lt: "unat (x :: u64) < 2 ^ 64"
  using unsigned_less [of x, where 'a = nat] by simp

lemma unat64_minus1: "unat (- 1 :: u64) = 2 ^ 64 - 1"
  by (simp add: unsigned_minus_1_eq_mask mask_eq_exp_minus_1)

lemma unat64_add: "unat (a :: u64) + unat b < 2 ^ 64 \<Longrightarrow> unat (a + b) = unat a + unat b"
  by (simp only: unat_word_ariths) simp

lemma unat64_mult: "unat (a :: u64) * unat b < 2 ^ 64 \<Longrightarrow> unat (a * b) = unat a * unat b"
  by (simp only: unat_word_ariths) simp

lemma unat64_of_nat: "n < 2 ^ 64 \<Longrightarrow> unat (of_nat n :: u64) = n"
  by (simp add: unat_of_nat)

lemma unat_ucast32: "unat (x :: u64) < 2 ^ 32 \<Longrightarrow> unat (ucast x :: u32) = unat x"
  by (simp add: unsigned_ucast_eq take_bit_nat_eq_self)

lemma unat_ucast64: "unat (ucast (x :: u32) :: u64) = unat x"
  using unat32_lt [of x] by (simp add: unsigned_ucast_eq take_bit_nat_eq_self)

lemma ucast_ucast32: "unat (x :: u64) < 2 ^ 32 \<Longrightarrow> ucast (ucast x :: u32) = x"
  using unat_ucast64 [of "ucast x"] unat_ucast32 [of x] by (metis word_unat_eq_iff)

section \<open>Byte memory\<close>

text \<open>
  A memory maps every 64-bit address to a byte. Addresses wrap modulo \<open>2 ^ 64\<close>, so a range
  of \<open>n\<close> bytes from \<open>a\<close> is described by the distance of an address from \<open>a\<close>.
\<close>

type_synonym memory = "u64 \<Rightarrow> u8"

definition in_range :: "u64 \<Rightarrow> nat \<Rightarrow> u64 \<Rightarrow> bool" where
  "in_range a n b \<longleftrightarrow> unat (b - a) < n"

primrec load_le :: "nat \<Rightarrow> memory \<Rightarrow> u64 \<Rightarrow> nat" where
  "load_le 0 m a = 0"
| "load_le (Suc n) m a = unat (m a) + 256 * load_le n m (a + 1)"

primrec store_le :: "nat \<Rightarrow> memory \<Rightarrow> u64 \<Rightarrow> nat \<Rightarrow> memory" where
  "store_le 0 m a v = m"
| "store_le (Suc n) m a v = (store_le n m (a + 1) (v div 256))(a := word_of_nat v)"

definition load64 :: "memory \<Rightarrow> u64 \<Rightarrow> u64" where
  "load64 m a = word_of_nat (load_le 8 m a)"

definition store64 :: "memory \<Rightarrow> u64 \<Rightarrow> u64 \<Rightarrow> memory" where
  "store64 m a v = store_le 8 m a (unat v)"

definition load32 :: "memory \<Rightarrow> u64 \<Rightarrow> u32" where
  "load32 m a = word_of_nat (load_le 4 m a)"

definition store32 :: "memory \<Rightarrow> u64 \<Rightarrow> u32 \<Rightarrow> memory" where
  "store32 m a v = store_le 4 m a (unat v)"

lemma in_range_shift: "in_range (a + 1) n b \<Longrightarrow> n < 2 ^ 64 \<Longrightarrow> in_range a (Suc n) b"
proof -
  assume h: "in_range (a + 1) n b" "n < 2 ^ 64"
  have "unat ((b - (a + 1)) + 1) = (unat (b - (a + 1)) + 1) mod 2 ^ 64"
    by (simp only: unat_word_ariths) simp
  also have "\<dots> \<le> unat (b - (a + 1)) + 1" by simp
  finally have "unat (b - a) \<le> unat (b - (a + 1)) + 1" by simp
  then show ?thesis using h unfolding in_range_def by simp
qed

lemma in_range_self: "0 < n \<Longrightarrow> in_range a n a"
  by (simp add: in_range_def)

lemma store_le_other:
  "\<not> in_range a n b \<Longrightarrow> n \<le> 2 ^ 64 \<Longrightarrow> store_le n m a v b = m b"
proof (induction n arbitrary: a v)
  case 0
  then show ?case by simp
next
  case (Suc n)
  have "b \<noteq> a" using Suc.prems(1) in_range_self [of "Suc n" a] by auto
  moreover have "\<not> in_range (a + 1) n b" using Suc.prems in_range_shift [of a n b] by auto
  ultimately show ?case using Suc.IH Suc.prems(2) by simp
qed

lemma load_le_bound: "load_le n m a < 256 ^ n"
proof (induction n arbitrary: a)
  case 0
  then show ?case by simp
next
  case (Suc n)
  have "unat (m a) < 256" by (rule unat8_lt)
  moreover have "load_le n m (a + 1) + 1 \<le> 256 ^ n" using Suc.IH [of "a + 1"] by simp
  then have "256 * load_le n m (a + 1) + 256 \<le> 256 * 256 ^ n" by linarith
  ultimately show ?case by simp
qed

lemma load_le_cong:
  "(\<And>b. in_range a n b \<Longrightarrow> m b = m' b) \<Longrightarrow> n \<le> 2 ^ 64 \<Longrightarrow> load_le n m a = load_le n m' a"
proof (induction n arbitrary: a)
  case 0
  then show ?case by simp
next
  case (Suc n)
  have "m a = m' a" using Suc.prems(1) in_range_self by blast
  moreover have "load_le n m (a + 1) = load_le n m' (a + 1)"
  proof (rule Suc.IH)
    show "n \<le> 2 ^ 64" using Suc.prems(2) by simp
    show "m b = m' b" if "in_range (a + 1) n b" for b
      using that Suc.prems in_range_shift [of a n b] by auto
  qed
  ultimately show ?case by simp
qed

lemma not_in_range_before: "n < 2 ^ 64 \<Longrightarrow> \<not> in_range (a + 1) n a"
proof -
  assume n: "n < 2 ^ 64"
  then show ?thesis by (simp add: in_range_def unat64_minus1)
qed

lemma load_store_le_same:
  "n \<le> 2 ^ 64 \<Longrightarrow> load_le n (store_le n m a v) a = v mod 256 ^ n"
proof (induction n arbitrary: a v)
  case 0
  then show ?case by simp
next
  case (Suc n)
  have n: "n < 2 ^ 64" using Suc.prems by simp
  have "load_le n ((store_le n m (a + 1) (v div 256))(a := word_of_nat v)) (a + 1)
      = load_le n (store_le n m (a + 1) (v div 256)) (a + 1)"
  proof (rule load_le_cong)
    show "n \<le> 2 ^ 64" using n by simp
    show "((store_le n m (a + 1) (v div 256))(a := word_of_nat v)) b
        = store_le n m (a + 1) (v div 256) b" if "in_range (a + 1) n b" for b
      using that not_in_range_before [OF n, of a] by auto
  qed
  also have "\<dots> = (v div 256) mod 256 ^ n" using Suc.IH n by simp
  finally have tl: "load_le n (store_le (Suc n) m a v) (a + 1) = (v div 256) mod 256 ^ n"
    by (simp only: store_le.simps)
  have "unat (store_le (Suc n) m a v a) = v mod 256" by (simp add: unat_of_nat)
  then show ?case by (simp only: load_le.simps tl power_Suc mod_mult2_eq)
qed

lemma load64_store64_same [mem_simps, simp]: "load64 (store64 m a v) a = v"
proof -
  have "unat v < 256 ^ 8" using unat64_lt [of v] by simp
  then show ?thesis by (simp add: load64_def store64_def load_store_le_same)
qed

lemma load32_store32_same [mem_simps, simp]: "load32 (store32 m a v) a = v"
proof -
  have "unat v < 256 ^ 4" using unat32_lt [of v] by simp
  then show ?thesis by (simp add: load32_def store32_def load_store_le_same)
qed

text \<open>Two byte ranges are apart when neither start lies within the other range.\<close>

definition apart :: "u64 \<Rightarrow> nat \<Rightarrow> u64 \<Rightarrow> nat \<Rightarrow> bool" where
  "apart a n b k \<longleftrightarrow> n \<le> unat (b - a) \<and> k \<le> unat (a - b)"

lemma apart_disjoint:
  assumes "apart a n b k" and "in_range b k c"
  shows "\<not> in_range a n c"
proof
  assume "in_range a n c"
  then have 1: "unat (c - a) < n" by (simp add: in_range_def)
  have 2: "unat (c - b) < k" using assms(2) by (simp add: in_range_def)
  have 3: "n \<le> unat (b - a)" "k \<le> unat (a - b)" using assms(1) by (auto simp: apart_def)
  have eq: "c - a = (c - b) + (b - a)" by simp
  show False
  proof (cases "unat (c - b) + unat (b - a) < 2 ^ 64")
    case True
    then have "unat ((c - b) + (b - a)) = unat (c - b) + unat (b - a)"
      by (simp only: unat_word_ariths) simp
    then have "unat (c - a) = unat (c - b) + unat (b - a)" by (simp only: eq)
    then show ?thesis using 1 3 by simp
  next
    case False
    have "unat (b - a) \<le> 2 ^ 64 - unat (a - b)"
      using unat_sub_if' [of b a] unat_sub_if' [of a b] unat64_lt [of a] unat64_lt [of b]
      by (auto split: if_splits)
    moreover have "unat (a - b) \<le> 2 ^ 64" using unat64_lt [of "a - b"] by simp
    ultimately have "unat (c - b) + unat (b - a) < 2 ^ 64" using 2 3 by linarith
    then show ?thesis using False by simp
  qed
qed

lemma apart_sym: "apart a n b k \<longleftrightarrow> apart b k a n"
  by (auto simp: apart_def)

lemma load64_store64_apart [mem_simps]:
  "apart a 8 b 8 \<Longrightarrow> load64 (store64 m a v) b = load64 m b"
  unfolding load64_def store64_def
  using store_le_other [of a 8] apart_disjoint [of a 8 b 8]
  by (intro arg_cong [where f = word_of_nat] load_le_cong) auto

lemma load32_store32_apart [mem_simps]:
  "apart a 4 b 4 \<Longrightarrow> load32 (store32 m a v) b = load32 m b"
  unfolding load32_def store32_def
  using store_le_other [of a 4] apart_disjoint [of a 4 b 4]
  by (intro arg_cong [where f = word_of_nat] load_le_cong) auto

section \<open>Page alignment\<close>

text \<open>An address is page aligned when its twelve low bits are clear.\<close>

definition page_aligned :: "u64 \<Rightarrow> bool" where
  "page_aligned a \<longleftrightarrow> a AND 0xfff = 0"

lemma low12_mask [bit_defs]: "(0xfff :: u64) = mask 12"
  by (simp add: mask_eq_exp_minus_1)

lemma page_aligned_iff_dvd: "page_aligned a \<longleftrightarrow> 4096 dvd unat a"
  using and_mask_dvd_nat [of 12 a] by (simp add: page_aligned_def low12_mask)

lemma page_aligned_bit: "page_aligned a \<Longrightarrow> n < 12 \<Longrightarrow> \<not> bit a n"
proof -
  assume "page_aligned a" "n < 12"
  then have "bit (a AND mask 12) n = bit (0 :: u64) n"
    unfolding page_aligned_def low12_mask by simp
  then show ?thesis using \<open>n < 12\<close> by (simp add: bit_and_iff bit_mask_iff)
qed

lemma page_aligned_bit_ge: "page_aligned a \<Longrightarrow> bit a n \<Longrightarrow> 12 \<le> n"
  using page_aligned_bit [of a n] not_le by blast

lemma bit_less_2p:
  fixes a :: u64
  assumes "bit a n" and "unat a < 2 ^ k"
  shows "n < k"
proof (rule ccontr)
  assume "\<not> n < k"
  then have "(2 :: nat) ^ k \<le> 2 ^ n" by simp
  then have "unat a < 2 ^ n" using assms(2) by linarith
  then have "\<not> bit (unat a) n" by (simp add: bit_iff_odd)
  then show False using assms(1) bit_imp_le_length [OF assms(1)] by (simp add: bit_unsigned_iff)
qed

text \<open>Entries of two different page-aligned tables, or two entries of one, never overlap.\<close>

lemma aligned_add:
  assumes "page_aligned t" "unat i < 512"
  shows "unat (t + 8 * i) = unat t + 8 * unat i"
proof -
  have i8: "unat (8 * i) = 8 * unat i" using assms(2) unat64_mult [of 8 i] by simp
  obtain k where k: "unat t = 4096 * k"
    using assms(1) by (auto simp: page_aligned_iff_dvd)
  have "4096 * k < 4096 * 4503599627370496" using unat64_lt [of t] k by simp
  then have "k < 4503599627370496" by simp
  then have "unat t + 8 * unat i < 2 ^ 64" using assms(2) k by simp
  then show ?thesis using unat64_add [of t "8 * i"] i8 by simp
qed

lemma apart_unat:
  assumes "unat a + n \<le> unat b" "unat b + k \<le> 2 ^ 64 + unat a" "0 < n"
  shows "apart a n b k"
proof -
  have "unat (b - a) = unat b - unat a" using assms(1) by (simp add: unat_sub_if')
  moreover have "unat (a - b) = (if unat b \<le> unat a then unat a - unat b else unat a + 2 ^ 64 - unat b)"
    by (simp add: unat_sub_if')
  ultimately show ?thesis using assms by (auto simp: apart_def)
qed

lemma entries_apart:
  assumes "page_aligned t" "page_aligned u" "unat i < 512" "unat j < 512"
    and "t \<noteq> u \<or> i \<noteq> j"
  shows "apart (t + 8 * i) 8 (u + 8 * j) 8"
proof -
  obtain a where a: "unat t = 4096 * a" using assms(1) by (auto simp: page_aligned_iff_dvd)
  obtain b where b: "unat u = 4096 * b" using assms(2) by (auto simp: page_aligned_iff_dvd)
  note ti = aligned_add [OF assms(1,3)] and uj = aligned_add [OF assms(2,4)]
  have "8 * (512 * a + unat i) < 8 * 2 ^ 61" "8 * (512 * b + unat j) < 8 * 2 ^ 61"
    using unat64_lt [of "t + 8 * i"] unat64_lt [of "u + 8 * j"] a b by (simp_all add: ti uj)
  then have "512 * a + unat i + 1 \<le> 2 ^ 61" "512 * b + unat j + 1 \<le> 2 ^ 61"
    unfolding nat_mult_less_cancel_disj by simp_all
  then have bound: "unat t + 8 * unat i + 8 \<le> 2 ^ 64" "unat u + 8 * unat j + 8 \<le> 2 ^ 64"
    using a b by simp_all
  have "a \<noteq> b \<or> unat i \<noteq> unat j"
    using assms(5) a b by (metis word_unat_eq_iff)
  then consider "unat t + 8 * unat i + 8 \<le> unat u + 8 * unat j"
    | "unat u + 8 * unat j + 8 \<le> unat t + 8 * unat i"
    using assms(3,4) a b by (cases a b rule: linorder_cases) (auto simp: nat_neq_iff)
  then show ?thesis
  proof cases
    case 1
    then show ?thesis using bound by (intro apart_unat) (simp_all add: ti uj)
  next
    case 2
    then have "apart (u + 8 * j) 8 (t + 8 * i) 8"
      using bound by (intro apart_unat) (simp_all add: ti uj)
    then show ?thesis by (simp add: apart_sym)
  qed
qed

end
