(* ===== verification/Keyboard.thy ===== *)
theory Keyboard
  imports Prelude
begin

text \<open>
  The keyboard controller (KbController.c): two tables of eight handlers, subscription in the first
  free slot, and the calls of all handlers for a key. Handlers are addresses; what they do is given by
  \<open>call\<close>, a function on the whole kernel state, of which the tables are a part. What the tables need
  of the handlers is the locale \<open>key_handlers\<close>.
\<close>

section \<open>State\<close>

definition MAX_HANDLERS :: nat where "MAX_HANDLERS = 8"

record keyboard =
  pressHandlers :: "u64 list"
  releaseHandlers :: "u64 list"

definition translationTable :: "u8 list" where
  "translationTable = [0, 0] @
     map of_char (''1234567890-='' @ [CHR 0x08, CHR 0x09] @ ''qwertyuiop[]'' @ [CHR 0x0A]) @ [0] @
     map of_char (''asdfghjkl;'' @ [CHR 0x27]) @
     [of_char CHR ''~'', 0, of_char CHR 0x5C] @ map of_char ''zxcvbnm,./'' @ [0, 0, 0, of_char CHR '' '']"

definition scanCodeToChar :: "u8 \<Rightarrow> u8" where
  "scanCodeToChar scancode =
     (if unat scancode < length translationTable then translationTable ! unat scancode else 0)"

section \<open>Subscription\<close>

text \<open>The loop over the slots, from slot \<open>i\<close> with \<open>n\<close> slots left.\<close>

primrec subscribe_loop :: "nat \<Rightarrow> nat \<Rightarrow> u64 \<Rightarrow> u64 list \<Rightarrow> bool \<times> u64 list" where
  "subscribe_loop 0 i h hs = (False, hs)"
| "subscribe_loop (Suc n) i h hs = (if hs ! i = 0 then (True, hs[i := h]) else subscribe_loop n (i + 1) h hs)"

definition subscribePress :: "u64 \<Rightarrow> 'a keyboard_scheme \<Rightarrow> bool \<times> 'a keyboard_scheme" where
  "subscribePress h k =
     (let (ok, hs) = subscribe_loop MAX_HANDLERS 0 h (pressHandlers k) in (ok, k\<lparr>pressHandlers := hs\<rparr>))"

definition subscribeRelease :: "u64 \<Rightarrow> 'a keyboard_scheme \<Rightarrow> bool \<times> 'a keyboard_scheme" where
  "subscribeRelease h k =
     (let (ok, hs) = subscribe_loop MAX_HANDLERS 0 h (releaseHandlers k) in (ok, k\<lparr>releaseHandlers := hs\<rparr>))"

section \<open>Dispatch\<close>

type_synonym 'a handler_call = "u64 \<Rightarrow> u8 \<Rightarrow> u8 \<Rightarrow> 'a keyboard_scheme \<Rightarrow> 'a keyboard_scheme"

text \<open>A handler may change the tables: each slot is read when its turn comes.\<close>

primrec dispatch_loop :: "nat \<Rightarrow> nat \<Rightarrow> ('a keyboard_scheme \<Rightarrow> u64 list) \<Rightarrow> 'a handler_call \<Rightarrow> u8 \<Rightarrow> 'a keyboard_scheme \<Rightarrow> 'a keyboard_scheme" where
  "dispatch_loop 0 i handlers call scancode k = k"
| "dispatch_loop (Suc n) i handlers call scancode k =
     dispatch_loop n (i + 1) handlers call scancode
       (if handlers k ! i \<noteq> 0 then call (handlers k ! i) (scanCodeToChar scancode) scancode k else k)"

definition onKeyPressed :: "'a handler_call \<Rightarrow> u8 \<Rightarrow> 'a keyboard_scheme \<Rightarrow> 'a keyboard_scheme" where
  "onKeyPressed call scancode k = dispatch_loop MAX_HANDLERS 0 pressHandlers call scancode k"

definition onKeyReleased :: "'a handler_call \<Rightarrow> u8 \<Rightarrow> 'a keyboard_scheme \<Rightarrow> 'a keyboard_scheme" where
  "onKeyReleased call scancode k = dispatch_loop MAX_HANDLERS 0 releaseHandlers call scancode k"

section \<open>Correctness\<close>

text \<open>The tables fill from the left: \<open>table_of hs\<close> is the table after the subscriptions \<open>hs\<close>.\<close>

definition table_of :: "u64 list \<Rightarrow> u64 list" where
  "table_of hs = hs @ replicate (MAX_HANDLERS - length hs) 0"

lemma subscribe_loop_skip:
  "0 \<notin> set hs \<Longrightarrow> i + n \<le> length hs \<Longrightarrow> subscribe_loop n i h (hs @ zs) = (False, hs @ zs)"
proof (induction n arbitrary: i)
  case (Suc n)
  then have "hs ! i \<noteq> 0" by (metis add_Suc_right add_lessD1 le_eq_less_or_eq less_add_Suc1 nth_mem order_less_le_trans)
  then show ?case using Suc by (simp add: nth_append)
qed simp

lemma subscribe_loop_free:
  "0 \<notin> set hs \<Longrightarrow> i \<le> length hs \<Longrightarrow> length hs < i + n \<Longrightarrow> subscribe_loop n i h (hs @ 0 # zs) = (True, hs @ h # zs)"
proof (induction n arbitrary: i)
  case (Suc n)
  show ?case
  proof (cases "i = length hs")
    case False
    then have "hs ! i \<noteq> 0" using Suc.prems by (metis le_neq_implies_less nth_mem)
    then show ?thesis using Suc False by (simp add: nth_append)
  qed simp
qed simp

lemma subscribe_table:
  assumes "0 \<notin> set hs" "length hs < MAX_HANDLERS"
  shows "subscribe_loop MAX_HANDLERS 0 h (table_of hs) = (True, table_of (hs @ [h]))"
proof -
  obtain k where k: "MAX_HANDLERS - length hs = Suc k" using assms(2) by (cases "MAX_HANDLERS - length hs") auto
  then have "MAX_HANDLERS - length (hs @ [h]) = k" by simp
  then show ?thesis using subscribe_loop_free [OF assms(1), of 0 MAX_HANDLERS h "replicate k 0"] assms(2)
    by (simp add: table_of_def k)
qed

lemma subscribe_full: "0 \<notin> set hs \<Longrightarrow> length hs = MAX_HANDLERS \<Longrightarrow> subscribe_loop MAX_HANDLERS 0 h (table_of hs) = (False, table_of hs)"
  using subscribe_loop_skip [of hs 0 MAX_HANDLERS h "[]"] by (simp add: table_of_def)

text \<open>A handler that leaves the tables alone.\<close>

locale key_handlers =
  fixes call :: "'a handler_call"
  assumes call_press: "pressHandlers (call h c scancode k) = pressHandlers k"
    and call_release: "releaseHandlers (call h c scancode k) = releaseHandlers k"
begin

lemma dispatch_fold:
  assumes "\<And>h c scancode k. handlers (call h c scancode k) = handlers k" "handlers k = hs @ zs" "length hs = i"
  shows "dispatch_loop (length zs) i handlers call scancode k =
    fold (\<lambda>h. call h (scanCodeToChar scancode) scancode) (filter (\<lambda>h. h \<noteq> 0) zs) k"
  using assms(2,3)
proof (induction zs arbitrary: hs i k)
  case (Cons z zs)
  define k' where "k' = (if z \<noteq> 0 then call z (scanCodeToChar scancode) scancode k else k)"
  have z: "handlers k ! i = z" using Cons.prems by (simp add: nth_append)
  have "handlers k' = (hs @ [z]) @ zs" using Cons.prems(1) assms(1) by (simp add: k'_def)
  from Cons.IH [OF this, of "i + 1"] show ?case using z Cons.prems(2) by (cases "z = 0") (simp_all add: k'_def)
qed simp

lemma press_calls:
  assumes "pressHandlers k = table_of hs" "0 \<notin> set hs" "length hs \<le> MAX_HANDLERS"
  shows "onKeyPressed call scancode k = fold (\<lambda>h. call h (scanCodeToChar scancode) scancode) hs k"
proof -
  have "filter (\<lambda>h. h \<noteq> 0) (table_of hs) = hs" using assms(2) by (auto simp: table_of_def intro!: filter_True)
  moreover have "length (table_of hs) = MAX_HANDLERS" using assms(3) by (simp add: table_of_def)
  ultimately show ?thesis
    using dispatch_fold [of pressHandlers k "[]" "table_of hs" 0 scancode] assms(1) call_press by (simp add: onKeyPressed_def)
qed

lemma release_calls:
  assumes "releaseHandlers k = table_of hs" "0 \<notin> set hs" "length hs \<le> MAX_HANDLERS"
  shows "onKeyReleased call scancode k = fold (\<lambda>h. call h (scanCodeToChar scancode) scancode) hs k"
proof -
  have "filter (\<lambda>h. h \<noteq> 0) (table_of hs) = hs" using assms(2) by (auto simp: table_of_def intro!: filter_True)
  moreover have "length (table_of hs) = MAX_HANDLERS" using assms(3) by (simp add: table_of_def)
  ultimately show ?thesis
    using dispatch_fold [of releaseHandlers k "[]" "table_of hs" 0 scancode] assms(1) call_release by (simp add: onKeyReleased_def)
qed

end

text \<open>All subscriptions one after the other, with their results.\<close>

fun subscribe_all :: "u64 list \<Rightarrow> 'a keyboard_scheme \<Rightarrow> bool list \<times> 'a keyboard_scheme" where
  "subscribe_all [] k = ([], k)"
| "subscribe_all (h # hs) k =
     (let (ok, k) = subscribePress h k; (oks, k) = subscribe_all hs k in (ok # oks, k))"

lemma subscribe_all_table:
  assumes "pressHandlers k = table_of gs" "0 \<notin> set (gs @ hs)" "length gs \<le> MAX_HANDLERS"
  shows "subscribe_all hs k =
    (map (\<lambda>i. length gs + i < MAX_HANDLERS) [0..<length hs], k\<lparr>pressHandlers := table_of (take MAX_HANDLERS (gs @ hs))\<rparr>)"
  using assms
proof (induction hs arbitrary: gs k)
  case Nil
  then have "k\<lparr>pressHandlers := table_of gs\<rparr> = k" by (metis keyboard.surjective keyboard.update_convs(1))
  then show ?case using Nil by simp
next
  case (Cons h hs)
  have upt: "[0..<length (h # hs)] = 0 # map Suc [0..<length hs]" by (simp only: list.size upt_conv_Cons map_Suc_upt) simp
  show ?case
  proof (cases "length gs < MAX_HANDLERS")
    case True
    then have "subscribePress h k = (True, k\<lparr>pressHandlers := table_of (gs @ [h])\<rparr>)"
      using subscribe_table [of gs h] Cons.prems by (simp add: subscribePress_def)
    moreover have "subscribe_all hs (k\<lparr>pressHandlers := table_of (gs @ [h])\<rparr>) =
        (map (\<lambda>i. length (gs @ [h]) + i < MAX_HANDLERS) [0..<length hs],
         (k\<lparr>pressHandlers := table_of (gs @ [h])\<rparr>)\<lparr>pressHandlers := table_of (take MAX_HANDLERS ((gs @ [h]) @ hs))\<rparr>)"
      by (rule Cons.IH) (use Cons.prems True in auto)
    ultimately show ?thesis using True unfolding upt by (simp add: comp_def)
  next
    case False
    then have full: "length gs = MAX_HANDLERS" using Cons.prems(3) by simp
    then have sub: "subscribePress h k = (False, k\<lparr>pressHandlers := table_of gs\<rparr>)"
      using subscribe_full [of gs h] Cons.prems by (simp add: subscribePress_def)
    have "subscribe_all hs (k\<lparr>pressHandlers := table_of gs\<rparr>) =
        (map (\<lambda>i. length gs + i < MAX_HANDLERS) [0..<length hs],
         (k\<lparr>pressHandlers := table_of gs\<rparr>)\<lparr>pressHandlers := table_of (take MAX_HANDLERS (gs @ hs))\<rparr>)"
      by (rule Cons.IH) (use Cons.prems in auto)
    then show ?thesis using sub full unfolding upt by (simp add: comp_def)
  qed
qed

end
