(* ===== verification/Descriptors.thy ===== *)
theory Descriptors
  imports Prelude
begin

text \<open>
  The descriptor tables: interrupt gates (IDT.h) and the task state segment with its descriptor
  (Ring3.c). The theory reads the descriptors the way the processor does, putting the split
  address fields together again, and shows which handlers the initialised table selects and
  which segment the TSS descriptor describes.
\<close>

section \<open>Interrupt descriptor table (IDT.h)\<close>

record IDT_entry =
  offset_1 :: u16
  selector :: u16
  ist :: u8
  type_attr :: u8
  offset_2 :: u16
  offset_3 :: u32
  zero :: u32

record IDT_pointer =
  limit :: u16
  base :: u64

text \<open>
  \<open>table\<close> and \<open>idt_ptr\<close> are the globals of the header; \<open>idtr\<close> is the processor register that
  \<open>load_idt\<close> sets from \<open>idt_ptr\<close>.
\<close>

record idt =
  table :: "IDT_entry list"
  idt_ptr :: IDT_pointer
  idtr :: IDT_pointer

text \<open>The addresses the assembly and the linker provide.\<close>

record symbols =
  isr_stub :: "nat \<Rightarrow> u64"
  irq_stub :: "nat \<Rightarrow> u64"
  GDT64_Code :: u64
  table_address :: u64
  tss_address :: u64
  tss_stack_top :: u64

text \<open>
  The fields that the compound literal does not name are zero. The address is signed, so its
  right shifts are arithmetic; the masks and the field widths cut the copies of the sign off.
\<close>

definition register_with :: "symbols \<Rightarrow> u64 \<Rightarrow> nat \<Rightarrow> u8 \<Rightarrow> idt \<Rightarrow> idt" where
  "register_with Y irq index flags s =
     s\<lparr>table := (table s)[index :=
         \<lparr>offset_1 = ucast (irq AND 0xffff),
          selector = ucast (GDT64_Code Y),
          ist = 0,
          type_attr = flags,
          offset_2 = ucast (signed_drop_bit 16 irq AND 0xfff),
          offset_3 = ucast (signed_drop_bit 32 irq AND 0xffffffff),
          zero = 0\<rparr>]\<rparr>"

definition register_isr :: "symbols \<Rightarrow> u64 \<Rightarrow> nat \<Rightarrow> idt \<Rightarrow> idt" where
  "register_isr Y irq index s = register_with Y irq index 0x8f s"

definition register_irq :: "symbols \<Rightarrow> u64 \<Rightarrow> nat \<Rightarrow> idt \<Rightarrow> idt" where
  "register_irq Y irq index s = register_with Y irq index 0x8e s"

definition load_idt :: "idt \<Rightarrow> idt" where
  "load_idt s = s\<lparr>idtr := idt_ptr s\<rparr>"

definition IDT_init :: "symbols \<Rightarrow> idt \<Rightarrow> idt" where
  "IDT_init Y s =
     (let s = fold (\<lambda>n. register_isr Y (isr_stub Y n) n) [0..<21] s;
          s = fold (\<lambda>n. register_irq Y (irq_stub Y n) (32 + n)) [0..<16] s;
          s = s\<lparr>idt_ptr := \<lparr>limit = 16 * 256 - 1, base = table_address Y\<rparr>\<rparr>
      in load_idt s)"

text \<open>The handler address the processor assembles from a gate.\<close>

definition gate_offset :: "IDT_entry \<Rightarrow> u64" where
  "gate_offset e = ucast (offset_1 e) OR push_bit 16 (ucast (offset_2 e)) OR push_bit 32 (ucast (offset_3 e))"

definition gate :: "symbols \<Rightarrow> u64 \<Rightarrow> u8 \<Rightarrow> IDT_entry" where
  "gate Y irq flags =
     \<lparr>offset_1 = ucast irq, selector = ucast (GDT64_Code Y), ist = 0, type_attr = flags,
      offset_2 = ucast (drop_bit 16 irq AND 0xfff), offset_3 = ucast (drop_bit 32 irq), zero = 0\<rparr>"

lemma mask_hex: "(0xffff :: u64) = mask 16" "(0xfff :: u64) = mask 12" "(0xffffffff :: u64) = mask 32"
  by (simp_all add: mask_eq_exp_minus_1)

lemma register_with_gate:
  "register_with Y irq index flags s = s\<lparr>table := (table s)[index := gate Y irq flags]\<rparr>"
proof -
  have 1: "(ucast (irq AND 0xffff) :: u16) = ucast irq"
    unfolding mask_hex by (rule bit_eqI) (auto simp: bit_simps)
  have 2: "signed_drop_bit 16 irq AND 0xfff = drop_bit 16 irq AND 0xfff"
    unfolding mask_hex by (rule bit_eqI) (auto simp: bit_simps)
  have 3: "(ucast (signed_drop_bit 32 irq AND 0xffffffff) :: u32) = ucast (drop_bit 32 irq)"
    unfolding mask_hex by (rule bit_eqI) (auto simp: bit_simps)
  show ?thesis by (simp only: register_with_def gate_def 1 2 3)
qed

lemma gate_offset_gate:
  "bit (gate_offset (gate Y irq flags)) n \<longleftrightarrow> bit irq n \<and> \<not> (28 \<le> n \<and> n < 32)"
proof -
  have "n < 64" if "bit irq n" using bit_imp_le_length [OF that] by simp
  then show ?thesis
    unfolding gate_offset_def gate_def mask_hex by (auto simp: bit_simps)
qed

lemma gate_offset_low:
  assumes "unat irq < 2 ^ 28"
  shows "gate_offset (gate Y irq flags) = irq"
proof (rule bit_eqI)
  fix n
  show "bit (gate_offset (gate Y irq flags)) n = bit irq n"
    using bit_less_2p [OF _ assms, of n] by (auto simp: gate_offset_gate)
qed

lemma fold_register:
  assumes "\<And>n s. f n s = s\<lparr>table := (table s)[k + n := g n]\<rparr>"
  shows "fold f [0..<m] s = s\<lparr>table := map (\<lambda>i. if k \<le> i \<and> i < k + m then g (i - k) else table s ! i)
      [0..<length (table s)]\<rparr>"
proof (induction m)
  case 0
  have "map (\<lambda>i. if k \<le> i \<and> i < k + 0 then g (i - k) else table s ! i) [0..<length (table s)] = table s"
    by (rule nth_equalityI) auto
  then show ?case by (cases s) simp
next
  case (Suc m)
  have "(map (\<lambda>i. if k \<le> i \<and> i < k + m then g (i - k) else table s ! i) [0..<length (table s)])[k + m := g m]
      = map (\<lambda>i. if k \<le> i \<and> i < k + Suc m then g (i - k) else table s ! i) [0..<length (table s)]"
    by (rule nth_equalityI) (auto simp: nth_list_update less_Suc_eq)
  moreover have "fold f [0..<Suc m] s = f m (fold f [0..<m] s)" by simp
  moreover have "f m (fold f [0..<m] s) = (fold f [0..<m] s)
      \<lparr>table := (table (fold f [0..<m] s))[k + m := g m]\<rparr>" by (rule assms)
  ultimately show ?case unfolding Suc by simp
qed

section \<open>Task state segment (Ring3.c)\<close>

record tss_entry_t =
  tss_length :: u16
  base_low :: u16
  base_mid :: u8
  flags1 :: u8
  flags2 :: u8
  base_high :: u8
  base_upper :: u32
  reserved :: u32

record tss_t =
  reserved0 :: u32
  rsp :: "u64 list"
  reserved1 :: u64
  tss_ist :: "u64 list"
  reserved2 :: u32
  reserved3 :: u32
  reserved4 :: u16
  iopb_offset :: u16

text \<open>Sizes of the packed structures in bytes.\<close>

definition sizeof_tss_entry_t :: nat where
  "sizeof_tss_entry_t = 2 + 2 + 1 + 1 + 1 + 1 + 4 + 4"

definition sizeof_tss_t :: nat where
  "sizeof_tss_t = 4 + 3 * 8 + 8 + 7 * 8 + 4 + 4 + 2 + 2"

text \<open>The descriptor that \<open>setup_tss\<close> stores in the GDT, and the fields of the segment it sets.\<close>

definition tss_descriptor :: "symbols \<Rightarrow> tss_entry_t" where
  "tss_descriptor Y =
     \<lparr>tss_length = of_nat sizeof_tss_entry_t - 1,
      base_low = ucast (tss_address Y AND 0xffff),
      base_mid = ucast (drop_bit 16 (tss_address Y) AND 0xff),
      flags1 = 0x89,
      flags2 = 0x20,
      base_high = ucast (drop_bit 24 (tss_address Y) AND 0xff),
      base_upper = ucast (drop_bit 32 (tss_address Y)),
      reserved = 0\<rparr>"

definition setup_tss_segment :: "symbols \<Rightarrow> tss_t \<Rightarrow> tss_t" where
  "setup_tss_segment Y t = t\<lparr>rsp := (rsp t)[0 := tss_stack_top Y], iopb_offset := of_nat sizeof_tss_t\<rparr>"

text \<open>The base and the limit the processor reads from the descriptor (granularity bit clear).\<close>

definition descriptor_base :: "tss_entry_t \<Rightarrow> u64" where
  "descriptor_base e = ucast (base_low e) OR push_bit 16 (ucast (base_mid e))
     OR push_bit 24 (ucast (base_high e)) OR push_bit 32 (ucast (base_upper e))"

definition descriptor_limit :: "tss_entry_t \<Rightarrow> nat" where
  "descriptor_limit e = unat (tss_length e) + 0x10000 * unat (flags2 e AND 0xf)"

section \<open>Properties\<close>

text \<open>
  C26: after \<open>IDT_init\<close>, for handlers below 256 MiB, the gates 0 to 20 select the exception
  handlers as trap gates, the gates 32 to 47 the sixteen interrupt handlers as interrupt gates,
  every other gate is as before, and the processor's register covers all 256 gates.
\<close>

theorem IDT_init_correct:
  assumes "length (table s) = 256"
    and "\<forall>n < 21. unat (isr_stub Y n) < 2 ^ 28" "\<forall>n < 16. unat (irq_stub Y n) < 2 ^ 28"
  shows "let s' = IDT_init Y s
    in (\<forall>n < 21. gate_offset (table s' ! n) = isr_stub Y n \<and> type_attr (table s' ! n) = 0x8f)
     \<and> (\<forall>n < 16. gate_offset (table s' ! (32 + n)) = irq_stub Y n \<and> type_attr (table s' ! (32 + n)) = 0x8e)
     \<and> (\<forall>n < 256. 21 \<le> n \<and> n < 32 \<or> 48 \<le> n \<longrightarrow> table s' ! n = table s ! n)
     \<and> length (table s') = 256 \<and> unat (limit (idtr s')) = 16 * length (table s') - 1
     \<and> base (idtr s') = table_address Y"
proof -
  define t where "t = map (\<lambda>i. if 0 \<le> i \<and> i < 0 + 21 then gate Y (isr_stub Y (i - 0)) 0x8f else table s ! i)
      [0..<length (table s)]"
  define t' where "t' = map (\<lambda>i. if 32 \<le> i \<and> i < 32 + 16 then gate Y (irq_stub Y (i - 32)) 0x8e else t ! i)
      [0..<length t]"
  have f1: "fold (\<lambda>n. register_isr Y (isr_stub Y n) n) [0..<21] s = s\<lparr>table := t\<rparr>"
    unfolding t_def by (rule fold_register) (simp add: register_isr_def register_with_gate)
  have f2: "fold (\<lambda>n. register_irq Y (irq_stub Y n) (32 + n)) [0..<16] (s\<lparr>table := t\<rparr>) = s\<lparr>table := t'\<rparr>"
    using fold_register [of "\<lambda>n. register_irq Y (irq_stub Y n) (32 + n)" 32
        "\<lambda>n. gate Y (irq_stub Y n) 0x8e" 16 "s\<lparr>table := t\<rparr>"]
    by (simp add: register_irq_def register_with_gate t'_def)
  have l: "length t = 256" "length t' = 256" using assms(1) by (simp_all add: t_def t'_def)
  have n: "t' ! i = (if 32 \<le> i \<and> i < 48 then gate Y (irq_stub Y (i - 32)) 0x8e
      else if i < 21 then gate Y (isr_stub Y i) 0x8f else table s ! i)" if "i < 256" for i
    using that assms(1) l(1) by (simp add: t'_def) (simp add: t_def)
  have i: "IDT_init Y s = s\<lparr>table := t', idt_ptr := \<lparr>limit = 4095, base = table_address Y\<rparr>,
      idtr := \<lparr>limit = 4095, base = table_address Y\<rparr>\<rparr>"
    by (simp add: IDT_init_def f1 f2 load_idt_def Let_def)
  have "type_attr (gate Y a f) = f" for a f by (simp add: gate_def)
  then show ?thesis
    using assms(2,3) by (simp add: i n l gate_offset_low Let_def)
qed

definition sample_symbols :: symbols where
  "sample_symbols = \<lparr>isr_stub = (\<lambda>n. 0xa000 + 16 * of_nat (n mod 32)), irq_stub = (\<lambda>n. 0xa400 + 16 * of_nat (n mod 32)),
     GDT64_Code = 8, table_address = 0x15000, tss_address = 0x12345678, tss_stack_top = 0x19000\<rparr>"

definition blank_idt :: idt where
  "blank_idt = \<lparr>table = replicate 256 (gate sample_symbols 0 0), idt_ptr = \<lparr>limit = 0, base = 0\<rparr>,
     idtr = \<lparr>limit = 0, base = 0\<rparr>\<rparr>"

theorem IDT_init_correct_witness:
  "gate_offset (table (IDT_init sample_symbols blank_idt) ! 14) = 0xa0e0
     \<and> gate_offset (table (IDT_init sample_symbols blank_idt) ! 33) = 0xa410"
proof -
  have b: "unat (0xa000 + 16 * of_nat (n mod 32) :: u64) < 2 ^ 28"
    "unat (0xa400 + 16 * of_nat (n mod 32) :: u64) < 2 ^ 28" for n
  proof -
    have n: "n mod 32 < 32" by simp
    have "unat (of_nat (n mod 32) :: u64) = n mod 32" using n by (intro unat64_of_nat) simp
    then have "unat (16 * of_nat (n mod 32) :: u64) = 16 * (n mod 32)"
      using n unat64_mult [of 16 "of_nat (n mod 32)"] by simp
    then show "unat (0xa000 + 16 * of_nat (n mod 32) :: u64) < 2 ^ 28"
      "unat (0xa400 + 16 * of_nat (n mod 32) :: u64) < 2 ^ 28"
      using n unat64_add [of "0xa000" "16 * of_nat (n mod 32)"]
        unat64_add [of "0xa400" "16 * of_nat (n mod 32)"] by simp_all
  qed
  have "length (table blank_idt) = 256" by (simp add: blank_idt_def)
  moreover have "\<forall>n < 21. unat (isr_stub sample_symbols n) < 2 ^ 28" "\<forall>n < 16. unat (irq_stub sample_symbols n) < 2 ^ 28"
    using b by (simp_all only: sample_symbols_def symbols.simps simp_thms)
  ultimately have *: "\<forall>n < 21. gate_offset (table (IDT_init sample_symbols blank_idt) ! n) = isr_stub sample_symbols n"
    "\<forall>n < 16. gate_offset (table (IDT_init sample_symbols blank_idt) ! (32 + n)) = irq_stub sample_symbols n"
    using IDT_init_correct [of blank_idt sample_symbols] by (simp_all add: Let_def)
  have "gate_offset (table (IDT_init sample_symbols blank_idt) ! 14) = isr_stub sample_symbols 14"
    using *(1) [rule_format, of 14] by simp
  moreover have "gate_offset (table (IDT_init sample_symbols blank_idt) ! 33) = irq_stub sample_symbols 1"
    using *(2) [rule_format, of 1] by simp
  ultimately show ?thesis by (simp add: sample_symbols_def)
qed

text \<open>
  a gate loses bits 28 to 31 of its handler's address, because \<open>register_with\<close> masks the
  second part with \<open>0xfff\<close> instead of \<open>0xffff\<close>: a handler in the second 256 MiB is not reached.
\<close>

theorem register_with_drops_bits:
  assumes "index < length (table s)"
  shows "bit (gate_offset (table (register_with Y irq index flags s) ! index)) n
    \<longleftrightarrow> bit irq n \<and> \<not> (28 \<le> n \<and> n < 32)"
  using assms by (simp add: register_with_gate gate_offset_gate)

text \<open>
  the TSS descriptor describes a present, available 64-bit TSS at the address of \<open>tss\<close>,
  but with a limit of 15: it is the size of the descriptor itself less one, where the processor
  requires the size of the segment less one, 103.
\<close>

theorem tss_descriptor_base_limit:
  "descriptor_base (tss_descriptor Y) = tss_address Y
   \<and> descriptor_limit (tss_descriptor Y) = 15 \<and> sizeof_tss_t - 1 = 103
   \<and> rsp (setup_tss_segment Y t) = (rsp t)[0 := tss_stack_top Y]
   \<and> unat (iopb_offset (setup_tss_segment Y t)) = 104"
proof -
  let ?a = "tss_address Y"
  have "(0xffff :: u64) = mask 16" "(0xff :: u64) = mask 8" by (simp_all add: mask_eq_exp_minus_1)
  then have "descriptor_base (tss_descriptor Y) =
      ucast (ucast (?a AND mask 16) :: u16) OR push_bit 16 (ucast (ucast (drop_bit 16 ?a AND mask 8) :: u8))
      OR push_bit 24 (ucast (ucast (drop_bit 24 ?a AND mask 8) :: u8))
      OR push_bit 32 (ucast (ucast (drop_bit 32 ?a) :: u32))"
    by (simp only: descriptor_base_def tss_descriptor_def tss_entry_t.simps)
  also have "\<dots> = ?a"
  proof (rule bit_eqI)
    fix n assume "possible_bit TYPE(64 word) n"
    then have "n < 64" by simp
    then consider "n < 16" | "16 \<le> n" "n < 24" | "24 \<le> n" "n < 32" | "32 \<le> n" "n < 64" by linarith
    then show "bit ((ucast (ucast (?a AND mask 16) :: u16) :: u64) OR push_bit 16 (ucast (ucast (drop_bit 16 ?a AND mask 8) :: u8))
      OR push_bit 24 (ucast (ucast (drop_bit 24 ?a AND mask 8) :: u8))
      OR push_bit 32 (ucast (ucast (drop_bit 32 ?a) :: u32))) n = bit ?a n"
      by cases (auto simp: bit_simps)
  qed
  finally show ?thesis
    by (simp add: descriptor_limit_def tss_descriptor_def sizeof_tss_entry_t_def sizeof_tss_t_def
        setup_tss_segment_def)
qed

end
