(* ===== verification/Kmemory.thy ===== *)
theory Kmemory
  imports Prelude
begin

text \<open>
  The kernel's raw memory routines (lib/memory/kmemset.c): \<open>kmemset\<close> as the byte loop of
  the source, and what a load sees after it.
\<close>

section \<open>kmemset\<close>

text \<open>
  \<open>kmemset\<close> (lib/memory/kmemset.c) writes \<open>value\<close> to \<open>size\<close> consecutive bytes. The counter
  \<open>i\<close> is the loop variable of the source.
\<close>

function kmemset_loop :: "memory \<Rightarrow> u64 \<Rightarrow> u8 \<Rightarrow> u64 \<Rightarrow> u64 \<Rightarrow> memory" where
  "kmemset_loop m ptr c i n =
     (if i < n then kmemset_loop (m(ptr + i := c)) ptr c (i + 1) n else m)"
  by pat_completeness auto
termination
proof (relation "measure (\<lambda>(m, ptr, c, i, n). unat (n - i))")
  show "((m(ptr + i := c), ptr, c, i + 1, n), m, ptr, c, i, n)
      \<in> measure (\<lambda>(m, ptr, c, i, n). unat (n - i))" if "i < n"
    for m :: memory and ptr c i and n :: u64
  proof -
    have "n - i \<noteq> 0" using that by auto
    then have "unat (n - i - 1) < unat (n - i)" by (rule measure_unat)
    then show ?thesis by (simp add: algebra_simps)
  qed
qed simp

declare kmemset_loop.simps [simp del]

definition kmemset :: "memory \<Rightarrow> u64 \<Rightarrow> u8 \<Rightarrow> u64 \<Rightarrow> memory" where
  "kmemset m ptr c n = kmemset_loop m ptr c 0 n"

lemma kmemset_loop_apply:
  "kmemset_loop m ptr c i n b
   = (if i \<le> b - ptr \<and> b - ptr < n then c else m b)"
proof (induction m ptr c i n rule: kmemset_loop.induct)
  case (1 m ptr c i n)
  show ?case
  proof (cases "i < n")
    case True
    have step: "i + 1 \<le> b - ptr \<longleftrightarrow> i \<le> b - ptr \<and> b \<noteq> ptr + i"
    proof -
      have "i + 1 \<le> b - ptr \<longleftrightarrow> i < b - ptr"
        using True by (auto simp: inc_less_eq_iff)
      also have "\<dots> \<longleftrightarrow> i \<le> b - ptr \<and> b - ptr \<noteq> i" by auto
      also have "b - ptr \<noteq> i \<longleftrightarrow> b \<noteq> ptr + i" by (auto simp: algebra_simps)
      finally show ?thesis .
    qed
    have "kmemset_loop (m(ptr + i := c)) ptr c (i + 1) n b
        = (if i + 1 \<le> b - ptr \<and> b - ptr < n then c else (m(ptr + i := c)) b)"
      by (rule 1 [OF True])
    moreover have "kmemset_loop m ptr c i n = kmemset_loop (m(ptr + i := c)) ptr c (i + 1) n"
      using True by (simp only: kmemset_loop.simps [of m ptr c i n] if_True)
    ultimately show ?thesis
      using True by (simp only: step) (auto simp: algebra_simps)
  next
    case False
    then show ?thesis by (subst kmemset_loop.simps) auto
  qed
qed

lemma kmemset_apply [mem_simps]:
  "kmemset m ptr c n b = (if b - ptr < n then c else m b)"
  by (simp add: kmemset_def kmemset_loop_apply)

text \<open>Loads from a page-aligned table after another page, or the table itself, was cleared.\<close>

lemma load64_kmemset_page:
  assumes "page_aligned t" "page_aligned u" "unat i < 512"
  shows "load64 (kmemset m u 0 PAGE_SIZE) (t + 8 * i) = (if t = u then 0 else load64 m (t + 8 * i))"
proof (cases "t = u")
  case True
  have "load_le 8 (kmemset m u 0 PAGE_SIZE) (t + 8 * i) = load_le 8 (\<lambda>_. 0) (t + 8 * i)"
  proof (rule load_le_cong)
    fix b assume "in_range (t + 8 * i) 8 b"
    then have b: "unat (b - (t + 8 * i)) < 8" by (simp add: in_range_def)
    have i8: "unat (8 * i) = 8 * unat i" using assms(3) unat64_mult [of 8 i] by simp
    have "unat ((b - (t + 8 * i)) + 8 * i) = unat (b - (t + 8 * i)) + unat (8 * i)"
      using b assms(3) i8 by (intro unat64_add) simp
    moreover have "(b - (t + 8 * i)) + 8 * i = b - u" using True by simp
    ultimately have "unat (b - u) < 4096" using b assms(3) i8 by simp
    then show "kmemset m u 0 PAGE_SIZE b = 0"
      by (simp add: kmemset_apply PAGE_SIZE_def word_less_nat_alt)
  qed simp
  moreover have "load_le n (\<lambda>_. 0) a = 0" for n a by (induction n arbitrary: a) simp_all
  ultimately show ?thesis using True by (simp add: load64_def)
next
  case False
  have "load_le 8 (kmemset m u 0 PAGE_SIZE) (t + 8 * i) = load_le 8 m (t + 8 * i)"
  proof (rule load_le_cong)
    fix b assume "in_range (t + 8 * i) 8 b"
    then have b: "unat (b - (t + 8 * i)) < 8" by (simp add: in_range_def)
    obtain k where k: "unat t = 4096 * k" using assms(1) by (auto simp: page_aligned_iff_dvd)
    obtain l where l: "unat u = 4096 * l" using assms(2) by (auto simp: page_aligned_iff_dvd)
    have kl: "k \<noteq> l" using False k l by (metis word_unat_eq_iff)
    have "k < 4503599627370496" using unat64_lt [of t] k by simp
    then have "unat ((b - (t + 8 * i)) + (t + 8 * i)) = unat (b - (t + 8 * i)) + unat (t + 8 * i)"
      using b assms(3) k by (intro unat64_add) (simp add: aligned_add [OF assms(1,3)])
    then have ub: "4096 * k \<le> unat b" "unat b < 4096 * k + 4096"
      using b assms(3) k by (simp_all add: aligned_add [OF assms(1,3)])
    have "\<not> unat (b - u) < 4096"
    proof (cases "k < l")
      case True
      then have "unat b < unat u" using ub l by simp
      then have "unat (b - u) = unat b + 2 ^ 64 - unat u" by (simp add: unat_sub_if')
      moreover have "l < 4503599627370496" using unat64_lt [of u] l by simp
      ultimately show ?thesis using ub k l by simp
    next
      case False
      then have "l < k" using kl by simp
      then have "unat (b - u) = unat b - unat u" using ub l by (simp add: unat_sub_if')
      then show ?thesis using ub l \<open>l < k\<close> by simp
    qed
    then show "kmemset m u 0 PAGE_SIZE b = m b"
      by (simp add: kmemset_apply PAGE_SIZE_def word_less_nat_alt)
  qed simp
  then show ?thesis using False by (simp add: load64_def)
qed

end
