(* ===== verification/Klib.thy ===== *)
theory Klib
  imports Kmemory "HOL-Library.Monad_Syntax"
begin

text \<open>
  The kernel's C library (lib/string, lib/math): string routines over byte memory, integer and
  floating-point conversion, and \<open>vsprintf\<close>. Pointers are 64-bit addresses; a routine that may
  run past the end of a string for ever is a partial function, so that returning is something
  to prove. The theory shows what each routine writes, that printed numbers read back as the
  numbers they were, and that \<open>vsprintf\<close> implements a formatting function on lists.
\<close>

section \<open>Strings in memory\<close>

text \<open>\<open>cstr m p xs\<close>: the bytes \<open>xs\<close>, none of them NUL, and a terminating NUL are stored at \<open>p\<close>.\<close>

primrec cstr :: "memory \<Rightarrow> u64 \<Rightarrow> u8 list \<Rightarrow> bool" where
  "cstr m p [] \<longleftrightarrow> m p = 0"
| "cstr m p (x # xs) \<longleftrightarrow> m p = x \<and> x \<noteq> 0 \<and> cstr m (p + 1) xs"

text \<open>\<open>put m p xs\<close>: the memory after the bytes \<open>xs\<close> have been written from \<open>p\<close> on.\<close>

primrec put :: "memory \<Rightarrow> u64 \<Rightarrow> u8 list \<Rightarrow> memory" where
  "put m p [] = m"
| "put m p (x # xs) = put (m(p := x)) (p + 1) xs"

lemma put_append: "put m p (xs @ ys) = put (put m p xs) (p + of_nat (length xs)) ys"
  by (induction xs arbitrary: m p) (simp_all add: algebra_simps)

lemma not_in_range_start: "n < 2 ^ 64 \<Longrightarrow> \<not> in_range (p + 1) n p"
  by (rule not_in_range_before)

lemma put_other:
  assumes "\<not> in_range p (length xs) b" "length xs < 2 ^ 64"
  shows "put m p xs b = m b"
  using assms
proof (induction xs arbitrary: m p)
  case (Cons x xs)
  have "b \<noteq> p" using Cons.prems(1) by (auto simp: in_range_def)
  moreover have "\<not> in_range (p + 1) (length xs) b"
    using Cons.prems in_range_shift [of p "length xs" b] by auto
  ultimately show ?case using Cons by simp
qed simp

text \<open>A byte written at the end of a string is overwritten by the next write.\<close>

lemma put_overwrite: "put (put m p (xs @ [y])) (p + of_nat (length xs)) (z # zs) = put m p (xs @ z # zs)"
  by (simp add: put_append)

lemma put_same:
  assumes "length xs < 2 ^ 64" "i < length xs"
  shows "put m p xs (p + of_nat i) = xs ! i"
  using assms
proof (induction xs arbitrary: m p i)
  case (Cons x xs)
  show ?case
  proof (cases i)
    case 0
    then show ?thesis
      using put_other [of "p + 1" xs p "m(p := x)"] not_in_range_start [of "length xs" p] Cons.prems by simp
  next
    case (Suc j)
    then show ?thesis using Cons.IH [of j "m(p := x)" "p + 1"] Cons.prems
      by (simp add: algebra_simps del: fun_upd_apply)
  qed
qed simp

lemma cstr_iff_nth:
  "cstr m p xs \<longleftrightarrow> (\<forall>i < length xs. m (p + of_nat i) = xs ! i \<and> xs ! i \<noteq> 0)
     \<and> m (p + of_nat (length xs)) = 0"
proof (induction xs arbitrary: p)
  case (Cons x xs)
  have "(\<forall>i < length (x # xs). m (p + of_nat i) = (x # xs) ! i \<and> (x # xs) ! i \<noteq> 0)
      \<longleftrightarrow> m p = x \<and> x \<noteq> 0 \<and> (\<forall>i < length xs. m (p + 1 + of_nat i) = xs ! i \<and> xs ! i \<noteq> 0)"
    by (simp add: All_less_Suc2 algebra_simps)
  then show ?case by (simp add: Cons algebra_simps)
qed simp

lemma cstr_put:
  assumes "0 \<notin> set xs" "length xs + 1 < 2 ^ 64"
  shows "cstr (put m p (xs @ [0])) p xs"
  using assms put_same [of "xs @ [0]" _ m p]
  by (auto simp: cstr_iff_nth nth_append in_set_conv_nth)

lemma cstr_unchanged:
  assumes "cstr m p xs" "\<And>i. i \<le> length xs \<Longrightarrow> m' (p + of_nat i) = m (p + of_nat i)"
  shows "cstr m' p xs"
  using assms by (auto simp: cstr_iff_nth)

section \<open>strlen, strcpy, strcmp\<close>

partial_function (option) strlen_loop :: "memory \<Rightarrow> u64 \<Rightarrow> u64 option" where
  "strlen_loop m s = (if m s \<noteq> 0 then strlen_loop m (s + 1) else Some s)"

definition strlen :: "memory \<Rightarrow> u64 \<Rightarrow> u64 option" where
  "strlen m str = do { s \<leftarrow> strlen_loop m str; Some (s - str) }"

partial_function (option) strcpy :: "memory \<Rightarrow> u64 \<Rightarrow> u64 \<Rightarrow> (u64 \<times> memory) option" where
  "strcpy m to from =
     (if m from \<noteq> 0 then strcpy (m(to := m from)) (to + 1) (from + 1)
      else Some (to, m(to := 0)))"

text \<open>\<open>char\<close> is signed on this target; the result is the difference of two promoted \<open>char\<close>s.\<close>

partial_function (option) strcmp :: "memory \<Rightarrow> u64 \<Rightarrow> u64 \<Rightarrow> int option" where
  "strcmp m str1 str2 =
     (if m str1 \<noteq> 0 \<and> m str2 \<noteq> 0 \<and> m str1 = m str2 then strcmp m (str1 + 1) (str2 + 1)
      else Some (sint (m str1) - sint (m str2)))"

lemma strlen_loop_cstr: "cstr m p xs \<Longrightarrow> strlen_loop m p = Some (p + of_nat (length xs))"
proof (induction xs arbitrary: p)
  case Nil
  then show ?case by (subst strlen_loop.simps) simp
next
  case (Cons x xs)
  then show ?case by (subst strlen_loop.simps) (simp add: algebra_simps)
qed

lemma strlen_cstr: "cstr m p xs \<Longrightarrow> strlen m p = Some (of_nat (length xs))"
  by (simp add: strlen_def strlen_loop_cstr)

lemma strcpy_put:
  assumes "cstr m from xs" "length xs + 1 < 2 ^ 64"
    and "\<forall>i \<le> length xs. \<not> in_range to (length xs + 1) (from + of_nat i)"
  shows "strcpy m to from = Some (to + of_nat (length xs), put m to (xs @ [0]))"
  using assms
proof (induction xs arbitrary: m to "from")
  case Nil
  then show ?case by (subst strcpy.simps) simp
next
  case (Cons x xs)
  have out: "\<not> in_range to (Suc (length xs + 1)) (from + of_nat i)" if "i \<le> Suc (length xs)" for i
    using Cons.prems(3) that by simp
  have ne: "from + of_nat i \<noteq> to" if "i \<le> Suc (length xs)" for i
    using out [OF that] by (auto simp: in_range_def)
  have c: "cstr (m(to := x)) (from + 1) xs"
  proof (rule cstr_unchanged)
    show "cstr m (from + 1) xs" using Cons.prems(1) by simp
    show "(m(to := x)) (from + 1 + of_nat i) = m (from + 1 + of_nat i)" if "i \<le> length xs" for i
      using ne [of "Suc i"] that by (simp add: algebra_simps)
  qed
  have "\<not> in_range (to + 1) (length xs + 1) (from + 1 + of_nat i)" if "i \<le> length xs" for i
    using out [of "Suc i"] in_range_shift [of to "length xs + 1"] that Cons.prems(2)
    by (auto simp: algebra_simps)
  then have "strcpy (m(to := x)) (to + 1) (from + 1)
      = Some (to + 1 + of_nat (length xs), put (m(to := x)) (to + 1) (xs @ [0]))"
    using Cons.IH [OF c] Cons.prems(2) by (simp del: fun_upd_apply)
  then show ?case using Cons.prems(1) by (subst strcpy.simps) (simp add: algebra_simps del: fun_upd_apply)
qed

text \<open>The comparison decides equality and follows the first difference.\<close>

fun str_diff :: "u8 list \<Rightarrow> u8 list \<Rightarrow> int" where
  "str_diff (x # xs) (y # ys) = (if x = y then str_diff xs ys else sint x - sint y)"
| "str_diff xs ys = sint (hd (xs @ [0])) - sint (hd (ys @ [0]))"

lemma strcmp_cstr:
  "cstr m p xs \<Longrightarrow> cstr m q ys \<Longrightarrow> strcmp m p q = Some (str_diff xs ys)"
proof (induction xs arbitrary: ys p q)
  case Nil
  then show ?case by (subst strcmp.simps, cases ys) auto
next
  case (Cons x xs)
  then show ?case by (subst strcmp.simps, cases ys) auto
qed

lemma str_diff_eq_0: "0 \<notin> set xs \<Longrightarrow> 0 \<notin> set ys \<Longrightarrow> str_diff xs ys = 0 \<longleftrightarrow> xs = ys"
proof -
  have inj: "sint x = sint y \<longleftrightarrow> x = y" "sint x = 0 \<longleftrightarrow> x = 0" "0 = sint x \<longleftrightarrow> x = 0" for x y :: u8
    using word_eq_iff_signed [of x y, where 'a = int] word_eq_iff_signed [of x 0, where 'a = int] by auto
  show "0 \<notin> set xs \<Longrightarrow> 0 \<notin> set ys \<Longrightarrow> ?thesis"
  proof (induction xs arbitrary: ys)
    case Nil
    then show ?case by (cases ys) (auto simp: inj)
  next
    case (Cons x xs)
    then show ?case by (cases ys) (auto simp: inj)
  qed
qed

lemma cstr_nonzero: "cstr m p xs \<Longrightarrow> 0 \<notin> set xs"
  by (induction xs arbitrary: p) auto

section \<open>Numbers\<close>

text \<open>\<open>int\<close> arithmetic wraps at 32 bits; the loop runs \<open>expo - 1\<close> times.\<close>

primrec ipow_loop :: "nat \<Rightarrow> u32 \<Rightarrow> u32 \<Rightarrow> u32" where
  "ipow_loop 0 value ret = ret"
| "ipow_loop (Suc n) value ret = ipow_loop n value (ret * value)"

definition ipow :: "u32 \<Rightarrow> int \<Rightarrow> u32" where
  "ipow value expo = (if expo \<le> 0 then 1 else ipow_loop (nat expo - 1) value value)"

lemma ipow_loop_power: "ipow_loop n value ret = ret * value ^ n"
  by (induction n arbitrary: ret) (simp_all add: algebra_simps)

lemma ipow_power: "ipow value expo = value ^ nat expo"
  by (cases "nat expo") (auto simp: ipow_def ipow_loop_power)

text \<open>
  The processor's double arithmetic is a parameter: the operations that \<open>dpow\<close> and \<open>gcvt\<close> use.
  \<open>d_to_int\<close> and \<open>d_to_long\<close> are the conversions to \<open>int\<close> and \<open>long\<close>.
\<close>

record 'd double_ops =
  d_negative :: "'d \<Rightarrow> bool"
  d_mult :: "'d \<Rightarrow> 'd \<Rightarrow> 'd"
  d_minus :: "'d \<Rightarrow> 'd \<Rightarrow> 'd"
  d_of_int :: "u32 \<Rightarrow> 'd"
  d_to_int :: "'d \<Rightarrow> u32"
  d_to_long :: "'d \<Rightarrow> u64"

primrec dpow_loop :: "'d double_ops \<Rightarrow> nat \<Rightarrow> 'd \<Rightarrow> 'd \<Rightarrow> 'd" where
  "dpow_loop D 0 value ret = ret"
| "dpow_loop D (Suc n) value ret = dpow_loop D n value (d_mult D ret value)"

definition dpow :: "'d double_ops \<Rightarrow> 'd \<Rightarrow> int \<Rightarrow> 'd" where
  "dpow D value expo =
     (if expo \<le> 0 then d_of_int D 1 else dpow_loop D (nat expo - 1) value value)"

text \<open>
  A base of one would recurse for ever and a base of zero would trap; both are \<open>None\<close>. The
  digit is a signed \<open>char\<close>.
\<close>

definition digit_char :: "u8 \<Rightarrow> u8" where
  "digit_char digit = (if sint digit \<le> 9 then 0x30 + digit else 0x61 + (digit - 10))"

partial_function (option) itoa_rec :: "memory \<Rightarrow> u64 \<Rightarrow> u64 \<Rightarrow> u64 \<Rightarrow> (u64 \<times> memory) option" where
  "itoa_rec m num buffer base =
     (if num > 0 then
        (if base = 0 then None
         else do {
           (buffer, m) \<leftarrow> itoa_rec m (num div base) buffer base;
           Some (buffer + 1, m(buffer := digit_char (ucast (num mod base)))) })
      else Some (buffer, m))"

definition itoa :: "memory \<Rightarrow> u64 \<Rightarrow> u64 \<Rightarrow> u64 \<Rightarrow> (u64 \<times> memory) option" where
  "itoa m num buffer base =
     (let (m, buffer, num) =
            (if base = 10 \<and> num <s 0 then (m(buffer := 0x2d), buffer + 1, num * - 1) else (m, buffer, num));
          (m, buffer) =
            (if base = 16 then (m(buffer := 0x30, buffer + 1 := 0x78), buffer + 2) else (m, buffer))
      in do {
        (buffer, m) \<leftarrow> (if num = 0 then Some (buffer + 1, m(buffer := 0x30))
                         else itoa_rec m num buffer base);
        Some (buffer, m(buffer := 0)) })"

text \<open>
  The specification: the digits of a number, most significant first, and reading them back.
\<close>

function digits :: "nat \<Rightarrow> nat \<Rightarrow> u8 list" where
  "digits base n = (if n = 0 \<or> base < 2 then [] else digits base (n div base) @ [digit_char (of_nat (n mod base))])"
  by pat_completeness auto
termination
  by (relation "measure snd") auto

declare digits.simps [simp del]

definition digit_value :: "u8 \<Rightarrow> nat" where
  "digit_value c = (if 0x61 \<le> c then unat c - 0x61 + 10 else unat c - 0x30)"

definition read_digits :: "nat \<Rightarrow> u8 list \<Rightarrow> nat" where
  "read_digits base ds = foldl (\<lambda>v d. v * base + digit_value d) 0 ds"

lemma digit_table:
  "list_all (\<lambda>d. digit_value (digit_char (of_nat d)) = d \<and> digit_char (of_nat d) \<noteq> 0) [0..<16]"
  by code_simp

lemma digit_char_props:
  assumes "d < 16"
  shows "digit_value (digit_char (of_nat d)) = d" "digit_char (of_nat d) \<noteq> 0"
  using digit_table assms unfolding list_all_iff by auto

lemma read_digits_digits:
  assumes "2 \<le> base" "base \<le> 16"
  shows "read_digits base (digits base n) = n"
proof (induction n rule: less_induct)
  case (less n)
  show ?case
  proof (cases "n = 0")
    case True
    then show ?thesis by (simp add: digits.simps [of base 0] read_digits_def)
  next
    case False
    then have "n div base < n" using assms by simp
    moreover have "n mod base < 16" using assms mod_less_divisor [of base n] by linarith
    ultimately show ?thesis
      using less [of "n div base"] False assms digit_char_props(1) [of "n mod base"]
      by (subst digits.simps) (simp add: read_digits_def)
  qed
qed

lemma digits_nonzero: "2 \<le> base \<Longrightarrow> base \<le> 16 \<Longrightarrow> 0 \<notin> set (digits base n)"
proof (induction n rule: less_induct)
  case (less n)
  show ?case
  proof (cases "n = 0")
    case False
    then have "n div base < n" using less.prems by simp
    moreover have "n mod base < 16" using less.prems mod_less_divisor [of base n] by linarith
    ultimately show ?thesis
      using less digit_char_props(2) [of "n mod base"] by (subst digits.simps) auto
  qed (simp add: digits.simps)
qed

lemma digits_length: "2 \<le> base \<Longrightarrow> length (digits base n) \<le> n"
proof (induction n rule: less_induct)
  case (less n)
  show ?case
  proof (cases "n = 0")
    case False
    then have "n div base < n" using less.prems by simp
    then show ?thesis using less.IH [of "n div base"] less.prems
      by (subst digits.simps) (auto intro: order_trans)
  qed (simp add: digits.simps)
qed

lemma itoa_rec_digits:
  assumes "2 \<le> unat base" "unat base \<le> 16"
  shows "itoa_rec m num buffer base
    = Some (buffer + of_nat (length (digits (unat base) (unat num))),
            put m buffer (digits (unat base) (unat num)))"
proof (induction "unat num" arbitrary: num rule: less_induct)
  case less
  show ?case
  proof (cases "num = 0")
    case True
    then show ?thesis by (subst itoa_rec.simps) (simp add: digits.simps)
  next
    case False
    have base: "base \<noteq> 0" using assms(1) by auto
    have q: "unat (num div base) = unat num div unat base" "unat (num mod base) = unat num mod unat base"
      by (simp_all add: unat_div_distrib unat_mod_distrib)
    have "unat num \<noteq> 0" using False by (simp add: unat_eq_0)
    then have lt: "unat (num div base) < unat num" using assms(1) by (simp add: q)
    have d: "digits (unat base) (unat num)
        = digits (unat base) (unat num div unat base) @ [digit_char (of_nat (unat num mod unat base))]"
      using \<open>unat num \<noteq> 0\<close> assms(1) by (subst digits.simps) simp
    have c: "(ucast (num mod base) :: u8) = of_nat (unat num mod unat base)"
      by (simp add: q(2) [symmetric])
    show ?thesis
      using False base
      by (subst itoa_rec.simps) (simp add: less [OF lt] q d c put_append word_gt_0 algebra_simps)
  qed
qed

text \<open>What \<open>itoa\<close> prints in the two bases the kernel uses.\<close>

definition itoa_text :: "u64 \<Rightarrow> u64 \<Rightarrow> u8 list" where
  "itoa_text num base =
     (let neg = (base = 10 \<and> num <s 0); n = (if neg then - num else num)
      in (if neg then [0x2d] else []) @ (if base = 16 then [0x30, 0x78] else [])
         @ (if n = 0 then [0x30] else digits (unat base) (unat n)))"

lemma itoa_put:
  assumes "base = 10 \<or> base = 16"
  shows "itoa m num buffer base
    = Some (buffer + of_nat (length (itoa_text num base)), put m buffer (itoa_text num base @ [0]))"
proof -
  have 10: "itoa_rec m' n b 10 = Some (b + of_nat (length (digits 10 (unat n))), put m' b (digits 10 (unat n)))"
    and 16: "itoa_rec m' n b 16 = Some (b + of_nat (length (digits 16 (unat n))), put m' b (digits 16 (unat n)))"
    for m' n b
    using itoa_rec_digits [of 10 m' n b] itoa_rec_digits [of 16 m' n b] by simp_all
  from assms show ?thesis
  proof
    assume "base = 10"
    then show ?thesis
      by (simp add: itoa_def itoa_text_def Let_def put_append 10 add.assoc)
  next
    assume "base = 16"
    then show ?thesis
      by (simp add: itoa_def itoa_text_def Let_def put_append 16 add.assoc)
  qed
qed

lemma itoa_text_nonzero: "base = 10 \<or> base = 16 \<Longrightarrow> 0 \<notin> set (itoa_text num base)"
  using digits_nonzero [of 10] digits_nonzero [of 16] by (auto simp: itoa_text_def Let_def)

definition read_long :: "u8 list \<Rightarrow> int" where
  "read_long ds = (if ds \<noteq> [] \<and> hd ds = 0x2d then - int (read_digits 10 (tl ds)) else int (read_digits 10 ds))"

definition read_hex :: "u8 list \<Rightarrow> nat" where
  "read_hex ds = read_digits 16 (drop 2 ds)"

lemma sless_0_sint: "(x :: u64) <s 0 \<longleftrightarrow> sint x < 0"
  by (simp add: word_sless_alt)

lemma sint_unat: "int (unat (x :: u64)) = (if sint x < 0 then sint x + 2 ^ 64 else sint x)"
proof -
  have "int (unat x) = uint x" by simp
  moreover have "uint x = sint x mod 2 ^ 64" by (simp add: uint_sint take_bit_eq_mod)
  moreover have "- (2 ^ 63) \<le> sint x" "sint x < 2 ^ 63"
    using sint_range_size [of x] by (auto simp: word_size)
  moreover have "sint x mod 2 ^ 64 = sint x + 2 ^ 64" if "- (2 ^ 63) \<le> sint x" "sint x < 0"
    using that by (subst mod_pos_pos_trivial [of "sint x + 2 ^ 64" "2 ^ 64", symmetric]) auto
  ultimately show ?thesis by (cases "sint x < 0") (simp_all add: mod_pos_pos_trivial)
qed

lemma unat_neg_sint:
  assumes "sint (x :: u64) < 0"
  shows "int (unat (- x)) = - sint x"
proof -
  have "x \<noteq> 0" using assms by auto
  then have "0 < unat x" by (simp add: unat_gt_0)
  have "unat (- x) = 2 ^ 64 - unat x"
    using \<open>x \<noteq> 0\<close> unat_sub_if' [of 0 x] \<open>0 < unat x\<close> by simp
  moreover have "unat x < 2 ^ 64" by (rule unat64_lt)
  ultimately have "int (unat (- x)) = 2 ^ 64 - int (unat x)" by (simp add: of_nat_diff)
  then show ?thesis using sint_unat [of x] assms by simp
qed

lemma hd_digits: "digits 10 n \<noteq> [] \<Longrightarrow> hd (digits 10 n) \<noteq> 0x2d"
proof (induction n rule: less_induct)
  case (less n)
  have "n \<noteq> 0" using less.prems digits.simps [of 10 0] by (cases "n = 0") simp_all
  have d: "digits 10 n = digits 10 (n div 10) @ [digit_char (of_nat (n mod 10))]"
    using \<open>n \<noteq> 0\<close> by (subst digits.simps) simp
  have t: "list_all (\<lambda>d. digit_char (of_nat d) \<noteq> 0x2d) [0..<10]" by code_simp
  show ?case
  proof (cases "digits 10 (n div 10) = []")
    case True
    then show ?thesis using t unfolding d list_all_iff by simp
  next
    case False
    then show ?thesis using less.IH [of "n div 10"] \<open>n \<noteq> 0\<close> unfolding d by simp
  qed
qed

lemma digits_eq_Nil: "2 \<le> base \<Longrightarrow> digits base n = [] \<longleftrightarrow> n = 0"
  by (subst digits.simps) simp

lemma read_long_itoa: "read_long (itoa_text num 10) = sint num"
proof (cases "sint num < 0")
  case True
  then have "num \<noteq> 0" by auto
  then show ?thesis
    using True unat_neg_sint [of num] read_digits_digits [of 10 "unat (- num)"]
    by (simp add: itoa_text_def Let_def sless_0_sint read_long_def)
next
  case False
  have "read_digits 10 [0x30] = 0" by (simp add: read_digits_def digit_value_def)
  then show ?thesis
    using False sint_unat [of num] read_digits_digits [of 10 "unat num"] hd_digits [of "unat num"]
      digits_eq_Nil [of 10 "unat num"]
    by (auto simp: itoa_text_def Let_def sless_0_sint read_long_def unat_eq_0)
qed

lemma read_hex_itoa: "read_hex (itoa_text num 16) = unat num"
proof -
  have "read_digits 16 [0x30] = 0" by (simp add: read_digits_def digit_value_def)
  then show ?thesis
    using read_digits_digits [of 16 "unat num"] by (simp add: itoa_text_def Let_def read_hex_def)
qed

text \<open>
  \<open>gcvt\<close>: sign, integral part, a point, and \<open>ndigits\<close> digits of the fraction, padded with zeros.
  \<open>tmp\<close> is the address of the local array of the source. The count of zeros is an unsigned
  number that wraps around when the fraction has more than \<open>ndigits\<close> digits.
\<close>

primrec put_zeros :: "nat \<Rightarrow> memory \<Rightarrow> u64 \<Rightarrow> u64 \<times> memory" where
  "put_zeros 0 m buf = (buf, m)"
| "put_zeros (Suc n) m buf = put_zeros n (m(buf := 0x30)) (buf + 1)"

definition gcvt :: "'d double_ops \<Rightarrow> u64 \<Rightarrow> memory \<Rightarrow> 'd \<Rightarrow> u32 \<Rightarrow> u64 \<Rightarrow> (u64 \<times> memory) option" where
  "gcvt D tmp m val ndigits buf =
     (let (m, buf, val) =
            (if d_negative D val then (m(buf := 0x2d), buf + 1, d_mult D val (d_of_int D (- 1)))
             else (m, buf, val));
          dec = d_to_int D val
      in do {
        (buf, m) \<leftarrow> itoa m (scast dec) buf 10;
        let m = m(buf := 0x2e);
        let buf = buf + 1;
        let frac = d_minus D val (d_of_int D dec);
        (_, m) \<leftarrow> itoa m (d_to_long D (d_mult D frac (dpow D (d_of_int D 10) (sint ndigits)))) tmp 10;
        len \<leftarrow> strlen m tmp;
        let zeros = ndigits - ucast len;
        let (buf, m) = put_zeros (unat zeros) m buf;
        strcpy m buf tmp })"

section \<open>vsprintf\<close>

text \<open>
  The variable arguments: integers and pointers travel in 64-bit slots, of which \<open>va_arg\<close> reads
  the low bits its type has, doubles in slots of their own. Reading past the last argument is
  undefined in C and \<open>None\<close> here.
\<close>

record 'd va_list =
  gp :: "u64 list"
  fp :: "'d list"

definition va_arg :: "'d va_list \<Rightarrow> (u64 \<times> 'd va_list) option" where
  "va_arg arg = (case gp arg of [] \<Rightarrow> None | x # xs \<Rightarrow> Some (x, arg\<lparr>gp := xs\<rparr>))"

definition va_arg_double :: "'d va_list \<Rightarrow> ('d \<times> 'd va_list) option" where
  "va_arg_double arg = (case fp arg of [] \<Rightarrow> None | x # xs \<Rightarrow> Some (x, arg\<lparr>fp := xs\<rparr>))"

definition int_slot :: "u64 \<Rightarrow> u64" where
  "int_slot x = scast (ucast x :: u32)"

definition unsigned_slot :: "u64 \<Rightarrow> u64" where
  "unsigned_slot x = ucast (ucast x :: u32)"

text \<open>The two switches of the source: \<open>directive\<close> is one conversion after the percent sign.\<close>

datatype directive = Conv_percent | Conv_char | Conv_string | Conv_number "u64 \<Rightarrow> u64" u64 | Conv_double | Conv_none

definition directive_of :: "u8 \<Rightarrow> directive" where
  "directive_of ch =
     (if ch = of_char CHR ''%'' then Conv_percent
      else if ch = of_char CHR ''c'' then Conv_char
      else if ch = of_char CHR ''s'' then Conv_string
      else if ch = of_char CHR ''u'' then Conv_number unsigned_slot 10
      else if ch = of_char CHR ''d'' then Conv_number int_slot 10
      else if ch = of_char CHR ''p'' then Conv_number id 16
      else if ch = of_char CHR ''x'' then Conv_number unsigned_slot 16
      else if ch = of_char CHR ''f'' then Conv_double
      else Conv_none)"

definition long_directive_of :: "u8 \<Rightarrow> directive" where
  "long_directive_of ch =
     (if ch = of_char CHR ''u'' then Conv_number id 10
      else if ch = of_char CHR ''d'' then Conv_number id 10
      else if ch = of_char CHR ''x'' then Conv_number id 16
      else Conv_none)"

definition run_directive ::
    "'d double_ops \<Rightarrow> u64 \<Rightarrow> directive \<Rightarrow> memory \<Rightarrow> u64 \<Rightarrow> 'd va_list \<Rightarrow> (u64 \<times> memory \<times> 'd va_list) option" where
  "run_directive D tmp d m buffer arg =
     (case d of
        Conv_percent \<Rightarrow> Some (buffer + 1, m(buffer := of_char CHR ''%''), arg)
      | Conv_char \<Rightarrow> do { (x, arg) \<leftarrow> va_arg arg; Some (buffer + 1, m(buffer := ucast x), arg) }
      | Conv_string \<Rightarrow> do { (str, arg) \<leftarrow> va_arg arg; (buffer, m) \<leftarrow> strcpy m buffer str; Some (buffer, m, arg) }
      | Conv_number conv base \<Rightarrow> do { (x, arg) \<leftarrow> va_arg arg;
            (buffer, m) \<leftarrow> itoa m (conv x) buffer base; Some (buffer, m, arg) }
      | Conv_double \<Rightarrow> do { (x, arg) \<leftarrow> va_arg_double arg;
            (buffer, m) \<leftarrow> gcvt D tmp m x 5 buffer; Some (buffer, m, arg) }
      | Conv_none \<Rightarrow> Some (buffer, m, arg))"

partial_function (option) vsprintf ::
    "'d double_ops \<Rightarrow> u64 \<Rightarrow> memory \<Rightarrow> u64 \<Rightarrow> u64 \<Rightarrow> 'd va_list \<Rightarrow> memory option" where
  "vsprintf D tmp m buffer fmt arg =
     (let ch = m fmt; fmt = fmt + 1
      in if ch = 0 then Some (m(buffer := 0))
         else if ch = of_char CHR ''%'' then
           (let ch = m fmt; fmt = fmt + 1
            in if ch = of_char CHR ''l'' then
                 (let ch = m fmt; fmt = fmt + 1
                  in do { (buffer, m, arg) \<leftarrow> run_directive D tmp (long_directive_of ch) m buffer arg;
                          vsprintf D tmp m buffer fmt arg })
               else do { (buffer, m, arg) \<leftarrow> run_directive D tmp (directive_of ch) m buffer arg;
                         vsprintf D tmp m buffer fmt arg })
         else vsprintf D tmp (m(buffer := ch)) (buffer + 1) fmt arg)"

text \<open>
  The specification on lists. An argument is a number or a string; a format that ends inside a
  conversion, a conversion without its argument, and a \<open>%f\<close> have no specified result.
\<close>

datatype argument = Num u64 | Str "u8 list"

fun directive_text :: "directive \<Rightarrow> argument list \<Rightarrow> (u8 list \<times> argument list) option" where
  "directive_text Conv_percent as = Some ([of_char CHR ''%''], as)"
| "directive_text Conv_none as = Some ([], as)"
| "directive_text Conv_char (Num x # as) = Some ([ucast x], as)"
| "directive_text Conv_string (Str xs # as) = Some (xs, as)"
| "directive_text (Conv_number conv base) (Num x # as) = Some (itoa_text (conv x) base, as)"
| "directive_text _ _ = None"

fun format_text :: "u8 list \<Rightarrow> argument list \<Rightarrow> u8 list option" where
  "format_text [] as = Some []"
| "format_text (ch # f) as =
     (if ch \<noteq> of_char CHR ''%'' then map_option ((#) ch) (format_text f as)
      else case f of
        [] \<Rightarrow> None
      | c # f' \<Rightarrow>
          if c = of_char CHR ''l'' then
            (case f' of
               [] \<Rightarrow> None
             | c' # f'' \<Rightarrow> do { (t, as') \<leftarrow> directive_text (long_directive_of c') as;
                               u \<leftarrow> format_text f'' as'; Some (t @ u) })
          else do { (t, as') \<leftarrow> directive_text (directive_of c) as; u \<leftarrow> format_text f' as'; Some (t @ u) })"

text \<open>The area of \<open>n\<close> bytes at \<open>base\<close> does not meet the string of length \<open>k\<close> at \<open>p\<close>.\<close>

definition clear_of :: "u64 \<Rightarrow> nat \<Rightarrow> u64 \<Rightarrow> nat \<Rightarrow> bool" where
  "clear_of base n p k \<longleftrightarrow> (\<forall>i \<le> k. \<not> in_range base n (p + of_nat i))"

fun args_stored :: "memory \<Rightarrow> u64 \<Rightarrow> nat \<Rightarrow> u64 list \<Rightarrow> argument list \<Rightarrow> bool" where
  "args_stored m base n xs [] \<longleftrightarrow> True"
| "args_stored m base n (x # xs) (Num y # as) \<longleftrightarrow> x = y \<and> args_stored m base n xs as"
| "args_stored m base n (x # xs) (Str t # as) \<longleftrightarrow>
     cstr m x t \<and> clear_of base n x (length t) \<and> args_stored m base n xs as"
| "args_stored m base n _ _ \<longleftrightarrow> False"

lemma in_range_inner:
  assumes "in_range (base + of_nat k) l b" "k + l \<le> n" "n < 2 ^ 64"
  shows "in_range base n b"
proof -
  have "unat (b - (base + of_nat k)) < l" using assms(1) by (simp add: in_range_def)
  moreover have "b - base = (b - (base + of_nat k)) + of_nat k" by simp
  moreover have "unat (of_nat k :: u64) = k" using assms(2,3) by (intro unat64_of_nat) simp
  ultimately have "unat (b - base) = unat (b - (base + of_nat k)) + k"
    using unat64_add [of "b - (base + of_nat k)" "of_nat k"] assms(2,3) by simp
  then show ?thesis
    using \<open>unat (b - (base + of_nat k)) < l\<close> assms(2) by (simp add: in_range_def)
qed

lemma put_inside:
  assumes "k + length xs \<le> n" "n < 2 ^ 64" "\<not> in_range base n b"
  shows "put m (base + of_nat k) xs b = m b"
proof -
  have "\<not> in_range (base + of_nat k) (length xs) b" using in_range_inner [OF _ assms(1,2)] assms(3) by blast
  then show ?thesis using put_other assms(1,2) by simp
qed

lemma cstr_put_inside:
  assumes "cstr m p t" "clear_of base n p (length t)" "k + length xs \<le> n" "n < 2 ^ 64"
  shows "cstr (put m (base + of_nat k) xs) p t"
  using assms(1)
  by (rule cstr_unchanged) (use assms in \<open>simp add: put_inside clear_of_def\<close>)

lemma args_stored_put:
  "args_stored m base n gs as \<Longrightarrow> k + length xs \<le> n \<Longrightarrow> n < 2 ^ 64 \<Longrightarrow>
     args_stored (put m (base + of_nat k) xs) base n gs as"
  by (induction m base n gs as rule: args_stored.induct) (auto intro: cstr_put_inside)

lemma directive_bases:
  "directive_of ch = Conv_number conv b \<Longrightarrow> b = 10 \<or> b = 16"
  "long_directive_of ch = Conv_number conv b \<Longrightarrow> b = 10 \<or> b = 16"
  by (auto simp: directive_of_def long_directive_of_def split: if_splits)

lemma run_directive_text:
  assumes "directive_text d as = Some (t, as')" "\<And>conv b. d = Conv_number conv b \<Longrightarrow> b = 10 \<or> b = 16"
    and "args_stored m base n (gp arg) as" "k + length t < n" "n < 2 ^ 64"
  obtains z arg' where
    "run_directive D tmp d m (base + of_nat k) arg
       = Some (base + of_nat k + of_nat (length t), put m (base + of_nat k) (t @ z), arg')"
    "z = [] \<or> z = [0]" "args_stored m base n (gp arg') as'"
  using assms(1)
proof (cases rule: directive_text.elims)
  case (3 x as2)
  then obtain xs where "gp arg = x # xs" "args_stored m base n xs as2"
    using assms(3) by (cases "gp arg") auto
  then show thesis using that [of "[]" "arg\<lparr>gp := xs\<rparr>"] 3 by (simp add: run_directive_def va_arg_def)
next
  case (4 u as2)
  then obtain x xs where a: "gp arg = x # xs" "cstr m x u" "clear_of base n x (length u)"
    "args_stored m base n xs as2"
    using assms(3) by (cases "gp arg") auto
  have "\<forall>i \<le> length u. \<not> in_range (base + of_nat k) (length u + 1) (x + of_nat i)"
    using a(3) in_range_inner [of base k "length u + 1" _ n] assms(4,5) 4 by (auto simp: clear_of_def)
  then have "strcpy m (base + of_nat k) x
      = Some (base + of_nat k + of_nat (length u), put m (base + of_nat k) (u @ [0]))"
    using strcpy_put [OF a(2)] assms(4,5) 4 by simp
  then show thesis using that [of "[0]" "arg\<lparr>gp := xs\<rparr>"] a 4 by (simp add: run_directive_def va_arg_def)
next
  case (5 conv b x as2)
  then obtain xs where a: "gp arg = x # xs" "args_stored m base n xs as2"
    using assms(3) by (cases "gp arg") auto
  then show thesis
    using that [of "[0]" "arg\<lparr>gp := xs\<rparr>"] 5 assms(2) [of conv b] itoa_put [of b]
    by (simp add: run_directive_def va_arg_def)
qed (use that [of "[]" arg] assms(3) in \<open>auto simp: run_directive_def\<close>)

lemma put_continue:
  "z = [] \<or> z = [0] \<Longrightarrow> put (put m p (t @ z)) (p + of_nat (length t)) (u @ [0]) = put m p (t @ u @ [0])"
  using put_overwrite [of m p t 0 "hd (u @ [0])" "tl (u @ [0])"] by (auto simp: put_append)

lemma clear_of_tl: "clear_of base n p (Suc k) \<Longrightarrow> clear_of base n (p + 1) k"
  unfolding clear_of_def
proof (intro allI impI)
  fix i assume "\<forall>i \<le> Suc k. \<not> in_range base n (p + of_nat i)" "i \<le> k"
  then have "\<not> in_range base n (p + of_nat (Suc i))" by blast
  then show "\<not> in_range base n (p + 1 + of_nat i)" by (simp add: algebra_simps)
qed

text \<open>The loop of \<open>vsprintf\<close> from any point inside the buffer.\<close>

lemma vsprintf_format_text:
  assumes "format_text F as = Some T" "cstr m fmt F" "clear_of base n fmt (length F)"
    and "args_stored m base n (gp arg) as" "k + length T < n" "n < 2 ^ 64"
  shows "vsprintf D tmp m (base + of_nat k) fmt arg = Some (put m (base + of_nat k) (T @ [0]))"
  using assms
proof (induction F as arbitrary: T m fmt arg k rule: format_text.induct)
  case (1 as)
  then show ?case by (subst vsprintf.simps) (simp add: Let_def)
next
  case (2 ch f as)
  let ?p = "of_char CHR ''%'' :: u8" and ?l = "of_char CHR ''l'' :: u8" and ?b = "base + of_nat k"
  have ch: "m fmt = ch" "ch \<noteq> 0" "cstr m (fmt + 1) f" using "2.prems"(2) by simp_all
  have cl: "clear_of base n (fmt + 1) (length f)" using "2.prems"(3) clear_of_tl by simp
  have continue: "vsprintf D tmp m' (?b + of_nat (length t)) fmt' arg' = Some (put m ?b (T @ [0]))"
    if "m' = put m ?b (t @ z)" "z = [] \<or> z = [0]" "T = t @ u"
      "vsprintf D tmp m' (base + of_nat (k + length t)) fmt' arg'
         = Some (put m' (base + of_nat (k + length t)) (u @ [0]))"
    for m' t z u fmt' arg'
    using that put_continue [of z m ?b t u] by (simp add: algebra_simps)
  show ?case
  proof (cases "ch = ?p")
    case False
    obtain T' where T: "format_text f as = Some T'" "T = ch # T'" using "2.prems"(1) False by auto
    have "cstr (put m ?b [ch]) (fmt + 1) f"
      using ch(3) cl "2.prems"(5,6) by (intro cstr_put_inside) simp_all
    moreover have "args_stored (put m ?b [ch]) base n (gp arg) as"
      using "2.prems"(4-6) by (intro args_stored_put) simp_all
    ultimately have "vsprintf D tmp (put m ?b [ch]) (base + of_nat (k + 1)) (fmt + 1) arg
        = Some (put (put m ?b [ch]) (base + of_nat (k + 1)) (T' @ [0]))"
      by (rule "2.IH"(1) [OF False T(1) _ cl]) (use "2.prems"(5,6) T(2) in simp_all)
    then show ?thesis
      using False ch T(2)
      by (subst vsprintf.simps) (simp add: Let_def algebra_simps del: fun_upd_apply)
  next
    case True
    then obtain c f' where f: "f = c # f'" using "2.prems"(1) by (cases f) auto
    have c: "m (fmt + 1) = c" "cstr m (fmt + 2) f'" using ch(3) f by (simp_all add: algebra_simps)
    have cl': "clear_of base n (fmt + 2) (length f')"
      using clear_of_tl [of base n "fmt + 1" "length f'"] cl f by (simp add: algebra_simps)
    show ?thesis
    proof (cases "c = ?l")
      case False
      obtain t as' u where T: "directive_text (directive_of c) as = Some (t, as')"
        "format_text f' as' = Some u" "T = t @ u"
        using "2.prems"(1) True False f by (auto split: option.splits bind_splits)
      have kl: "k + length t < n" using "2.prems"(5) T(3) by simp
      obtain z arg' where r: "run_directive D tmp (directive_of c) m ?b arg
          = Some (?b + of_nat (length t), put m ?b (t @ z), arg')"
        "z = [] \<or> z = [0]" "args_stored m base n (gp arg') as'"
        by (rule run_directive_text [OF T(1) directive_bases(1) "2.prems"(4) kl "2.prems"(6)])
      have len: "k + length (t @ z) \<le> n" using r(2) "2.prems"(5) T(3) by auto
      have "vsprintf D tmp (put m ?b (t @ z)) (base + of_nat (k + length t)) (fmt + 2) arg'
          = Some (put (put m ?b (t @ z)) (base + of_nat (k + length t)) (u @ [0]))"
        using "2.prems"(5,6) T(3) True False f cl' len
        by (intro "2.IH"(3) [OF _ f False T(1) refl T(2)] cstr_put_inside args_stored_put c(2) cl' r(3) len)
           simp_all
      from continue [OF refl r(2) T(3) this] show ?thesis
        using True False ch c f r(1)
        by (subst vsprintf.simps) (simp add: Let_def algebra_simps)
    next
      case l: True
      then obtain c' f'' where f': "f' = c' # f''" using "2.prems"(1) True f by (cases f') auto
      have c': "m (fmt + 2) = c'" "cstr m (fmt + 3) f''" using c(2) f' by (simp_all add: algebra_simps)
      have cl'': "clear_of base n (fmt + 3) (length f'')"
        using clear_of_tl [of base n "fmt + 2" "length f''"] cl' f' by (simp add: algebra_simps)
      obtain t as' u where T: "directive_text (long_directive_of c') as = Some (t, as')"
        "format_text f'' as' = Some u" "T = t @ u"
        using "2.prems"(1) True l f f' by (auto split: option.splits bind_splits)
      have kl: "k + length t < n" using "2.prems"(5) T(3) by simp
      obtain z arg' where r: "run_directive D tmp (long_directive_of c') m ?b arg
          = Some (?b + of_nat (length t), put m ?b (t @ z), arg')"
        "z = [] \<or> z = [0]" "args_stored m base n (gp arg') as'"
        by (rule run_directive_text [OF T(1) directive_bases(2) "2.prems"(4) kl "2.prems"(6)])
      have len: "k + length (t @ z) \<le> n" using r(2) "2.prems"(5) T(3) by auto
      have "vsprintf D tmp (put m ?b (t @ z)) (base + of_nat (k + length t)) (fmt + 3) arg'
          = Some (put (put m ?b (t @ z)) (base + of_nat (k + length t)) (u @ [0]))"
        using "2.prems"(5,6) T(3) True l f f' cl'' len
        by (intro "2.IH"(2) [OF _ f l f' T(1) refl T(2)] cstr_put_inside args_stored_put c'(2) cl'' r(3) len)
           simp_all
      from continue [OF refl r(2) T(3) this] show ?thesis
        using True l ch c c' f f' r(1)
        by (subst vsprintf.simps) (simp add: Let_def algebra_simps)
    qed
  qed
qed

section \<open>Properties\<close>

lemma digits_length_bound: "2 \<le> base \<Longrightarrow> n < base ^ k \<Longrightarrow> length (digits base n) \<le> k"
proof (induction k arbitrary: n)
  case 0
  then show ?case by (simp add: digits.simps [of base 0])
next
  case (Suc k)
  have "n div base < base ^ k" using Suc.prems by (simp add: less_mult_imp_div_less mult.commute)
  then show ?case using Suc.IH [of "n div base"] Suc.prems by (subst digits.simps) simp
qed

lemma itoa_text_length: "length (itoa_text num 10) \<le> 20"
proof -
  have "length (digits 10 (unat (- num))) \<le> 19" if "sint num < 0"
  proof -
    have "int (unat (- num)) \<le> 2 ^ 63"
      using unat_neg_sint [OF that] sint_range_size [of num] by (simp add: word_size)
    then have "nat (int (unat (- num))) \<le> nat (2 ^ 63)" by (rule nat_mono)
    then have "unat (- num) < 10 ^ 19" by (simp only: nat_int) simp
    then show ?thesis by (intro digits_length_bound) simp_all
  qed
  moreover have "unat num < 10 ^ 20" using unat64_lt [of num] by simp
  then have "length (digits 10 (unat num)) \<le> 20" by (intro digits_length_bound) simp_all
  ultimately show ?thesis by (auto simp: itoa_text_def Let_def sless_0_sint)
qed

text \<open>
  C27: \<open>itoa\<close> in base ten stores a NUL-terminated string of at most twenty characters that reads
  back as the signed number it was given, for every 64-bit number including the smallest, and
  touches nothing but these bytes; the pointer it returns is the position of the NUL. The negation of
  the smallest number wraps around, as the instruction that compilers emit for it does.
\<close>

theorem itoa_roundtrip:
  "\<exists>ds m'. itoa m num buffer 10 = Some (buffer + of_nat (length ds), m') \<and> cstr m' buffer ds
     \<and> read_long ds = sint num \<and> length ds \<le> 20
     \<and> (\<forall>b. in_range buffer (length ds + 1) b \<or> m' b = m b)"
proof -
  let ?ds = "itoa_text num 10"
  have "0 \<notin> set ?ds" "length ?ds \<le> 20" using itoa_text_nonzero itoa_text_length by simp_all
  moreover from this have "cstr (put m buffer (?ds @ [0])) buffer ?ds" by (intro cstr_put) simp_all
  moreover have "in_range buffer (length ?ds + 1) b \<or> put m buffer (?ds @ [0]) b = m b" for b
    using put_other [of buffer "?ds @ [0]" b m] \<open>length ?ds \<le> 20\<close> by auto
  ultimately show ?thesis
    using itoa_put [of 10 m num buffer] read_long_itoa by blast
qed

text \<open>
  C21: \<open>vsprintf\<close> implements the list specification: when the format and the string arguments are
  stored outside the buffer and the expansion fits, it returns, having written exactly the
  expansion and a NUL into the buffer and nothing elsewhere.
\<close>

theorem vsprintf_correct:
  assumes "cstr m fmt F" "format_text F as = Some T" "args_stored m buffer n (gp arg) as"
    and "clear_of buffer n fmt (length F)" "length T < n" "n < 2 ^ 64"
  shows "vsprintf D tmp m buffer fmt arg = Some (put m buffer (T @ [0]))
    \<and> (\<forall>b. \<not> in_range buffer n b \<longrightarrow> put m buffer (T @ [0]) b = m b)"
  using vsprintf_format_text [OF assms(2,1,4,3), of 0] put_inside [of 0 "T @ [0]" n buffer] assms(5,6)
  by simp

text \<open>The format \<open>[%p]\<close> at address 4096, the pointer \<open>0x200000\<close>, and integers as doubles.\<close>

definition sample_format :: memory where
  "sample_format = put (\<lambda>_. 0) 4096 (map of_char ''[%p]'')"

definition integer_ops :: "int double_ops" where
  "integer_ops = \<lparr>d_negative = (\<lambda>x. x < 0), d_mult = (*), d_minus = (-), d_of_int = sint,
     d_to_int = of_int, d_to_long = of_int\<rparr>"

theorem vsprintf_correct_witness:
  "vsprintf integer_ops 0 sample_format 0 4096 \<lparr>gp = [0x200000], fp = []\<rparr>
     = Some (put sample_format 0 (map of_char ''[0x200000]'' @ [0]))"
proof -
  have c: "cstr sample_format 4096 (map of_char ''[%p]'')" by (simp add: sample_format_def)
  have f: "format_text (map of_char ''[%p]'') [Num 0x200000] = Some (map of_char ''[0x200000]'')"
    by (simp add: directive_of_def itoa_text_def digits.simps digit_char_def)
  have "unat (4096 + of_nat i :: u64) = 4096 + i" if "i \<le> 4" for i
    using unat64_add [of 4096 "of_nat i"] unat64_of_nat [of i] that by simp
  then have cl: "clear_of 0 512 4096 (length (map of_char ''[%p]''))"
    by (simp add: clear_of_def in_range_def)
  show ?thesis by (rule vsprintf_correct [THEN conjunct1, OF c f _ cl]) simp_all
qed

text \<open>
  \<open>strcmp\<close> of two strings in memory returns, and the result is zero exactly when the strings
  are equal.
\<close>

theorem strcmp_correct:
  assumes "cstr m p xs" "cstr m q ys"
  shows "\<exists>r. strcmp m p q = Some r \<and> (r = 0 \<longleftrightarrow> xs = ys)"
  using strcmp_cstr [OF assms] str_diff_eq_0 cstr_nonzero assms by blast

text \<open>
  the conversion \<open>%lu\<close> prints an unsigned number of at least \<open>2 ^ 63\<close> as a negative one, because
  \<open>itoa\<close> takes a signed argument.
\<close>

theorem format_lu_signed:
  assumes "2 ^ 63 \<le> unat x"
  shows "\<exists>t. format_text (map of_char ''%lu'') [Num x] = Some t \<and> read_long t = int (unat x) - 2 ^ 64"
proof -
  have "2 ^ 63 \<le> int (unat x)" using assms by (metis of_nat_le_iff of_nat_numeral of_nat_power)
  moreover have "sint x < 2 ^ 63" using sint_range_size [of x] by (simp add: word_size)
  ultimately have "sint x < 0" using sint_unat [of x] by (auto simp only: split: if_splits)
  then have "sint x = int (unat x) - 2 ^ 64" using sint_unat [of x] by simp
  then show ?thesis
    using read_long_itoa [of x] by (simp add: directive_of_def long_directive_of_def)
qed

end
