(* ===== verification/Liballoc.thy ===== *)
theory Liballoc
  imports Klib
begin

text \<open>
  The kernel heap (ports/liballoc/liballoc_1_1.c). Memory obtained from the page allocator is a
  list of major blocks; each begins with a header and holds a list of minors, the allocated
  pieces, in address order. The headers live in typed heaps, one per structure; the bytes of the
  pieces, and the byte in front of each that records its alignment, live in byte memory. The
  operations are parameterised by the page allocator, which may call back into the heap: the
  state is an extensible record, and the hooks act on all of it.
\<close>

section \<open>Structures\<close>

record liballoc_major =
  maj_prev :: u64
  maj_next :: u64
  maj_pages :: u32
  maj_size :: u32
  maj_usage :: u32
  maj_first :: u64

record liballoc_minor =
  min_prev :: u64
  min_next :: u64
  min_block :: u64
  min_magic :: u32
  min_size :: u32
  min_req_size :: u32

record liballoc =
  majors :: "u64 \<Rightarrow> liballoc_major"
  minors :: "u64 \<Rightarrow> liballoc_minor"
  bytes :: memory
  l_memRoot :: u64
  l_bestBet :: u64
  l_allocated :: u64
  l_inuse :: u64
  l_warningCount :: u64
  l_errorCount :: u64
  l_possibleOverruns :: u64

definition LIBALLOC_MAGIC :: u32 where "LIBALLOC_MAGIC = 0xc001c0de"
definition LIBALLOC_DEAD :: u32 where "LIBALLOC_DEAD = 0xdeaddead"
definition ALIGNMENT :: u64 where "ALIGNMENT = 16"
definition ALIGN_INFO :: u64 where "ALIGN_INFO = 1 * 16"
definition l_pageSize :: u32 where "l_pageSize = 4096"
definition l_pageCount :: u32 where "l_pageCount = 16"
definition sizeof_major :: u64 where "sizeof_major = 40"
definition sizeof_minor :: u64 where "sizeof_minor = 40"

definition upd_major :: "u64 \<Rightarrow> (liballoc_major \<Rightarrow> liballoc_major) \<Rightarrow> 'a liballoc_scheme \<Rightarrow> 'a liballoc_scheme" where
  "upd_major p f s = s\<lparr>majors := (majors s)(p := f (majors s p))\<rparr>"

definition upd_minor :: "u64 \<Rightarrow> (liballoc_minor \<Rightarrow> liballoc_minor) \<Rightarrow> 'a liballoc_scheme \<Rightarrow> 'a liballoc_scheme" where
  "upd_minor p f s = s\<lparr>minors := (minors s)(p := f (minors s p))\<rparr>"

section \<open>Alignment\<close>

text \<open>
  \<open>ALIGN\<close> moves a pointer up past sixteen bytes of information to the next multiple of sixteen
  and notes the distance in the byte sixteen below; \<open>UNALIGN\<close> goes back by the noted distance,
  a signed \<open>char\<close> extended to 64 bits.
\<close>

definition ALIGN :: "u64 \<Rightarrow> 'a liballoc_scheme \<Rightarrow> u64 \<times> 'a liballoc_scheme" where
  "ALIGN ptr s =
     (let ptr = ptr + ALIGN_INFO;
          diff = ptr AND (ALIGNMENT - 1);
          (diff, ptr) = (if diff \<noteq> 0 then (ALIGNMENT - diff, ptr + (ALIGNMENT - diff)) else (diff, ptr))
      in (ptr, s\<lparr>bytes := (bytes s)(ptr - ALIGN_INFO := ucast (diff + ALIGN_INFO))\<rparr>))"

definition UNALIGN :: "u64 \<Rightarrow> 'a liballoc_scheme \<Rightarrow> u64" where
  "UNALIGN ptr s =
     (let diff = scast (bytes s (ptr - ALIGN_INFO))
      in if diff < ALIGNMENT + ALIGN_INFO then ptr - diff else ptr)"

section \<open>Helpers\<close>

function liballoc_memset_loop :: "memory \<Rightarrow> u64 \<Rightarrow> u8 \<Rightarrow> u64 \<Rightarrow> u64 \<Rightarrow> memory" where
  "liballoc_memset_loop m s c i n =
     (if i < n then liballoc_memset_loop (m(s + i := c)) s c (i + 1) n else m)"
  by pat_completeness auto
termination
proof (relation "measure (\<lambda>(m, s, c, i, n). unat (n - i))")
  show "((m(s + i := c), s, c, i + 1, n), m, s, c, i, n) \<in> measure (\<lambda>(m, s, c, i, n). unat (n - i))"
    if "i < n" for m :: memory and s c i and n :: u64
  proof -
    have "n - i \<noteq> 0" using that by auto
    then have "unat (n - i - 1) < unat (n - i)" by (rule measure_unat)
    then show ?thesis by (simp add: algebra_simps)
  qed
qed simp

declare liballoc_memset_loop.simps [simp del]

definition liballoc_memset :: "memory \<Rightarrow> u64 \<Rightarrow> u8 \<Rightarrow> u64 \<Rightarrow> memory" where
  "liballoc_memset m s c n = liballoc_memset_loop m s c 0 n"

text \<open>Whole words of four bytes first, then the rest byte by byte.\<close>

primrec memcpy_words :: "nat \<Rightarrow> memory \<Rightarrow> u64 \<Rightarrow> u64 \<Rightarrow> memory" where
  "memcpy_words 0 m d s = m"
| "memcpy_words (Suc k) m d s = memcpy_words k (store32 m d (load32 m s)) (d + 4) (s + 4)"

primrec memcpy_bytes :: "nat \<Rightarrow> memory \<Rightarrow> u64 \<Rightarrow> u64 \<Rightarrow> memory" where
  "memcpy_bytes 0 m d s = m"
| "memcpy_bytes (Suc k) m d s = memcpy_bytes k (m(d := m s)) (d + 1) (s + 1)"

definition liballoc_memcpy :: "memory \<Rightarrow> u64 \<Rightarrow> u64 \<Rightarrow> u64 \<Rightarrow> memory" where
  "liballoc_memcpy m s1 s2 n =
     (let w = unat n div 4
      in memcpy_bytes (unat n mod 4) (memcpy_words w m s1 s2) (s1 + of_nat (4 * w)) (s2 + of_nat (4 * w)))"

section \<open>kmalloc\<close>

text \<open>
  \<open>allocate_new_page\<close> takes its size as a 32-bit number. \<open>alloc\<close> is the hook \<open>liballoc_alloc\<close>,
  which gets the number of pages as an \<open>int\<close>.
\<close>

type_synonym 'a alloc_hook = "u32 \<Rightarrow> 'a liballoc_scheme \<Rightarrow> (u64 \<times> 'a liballoc_scheme) option"
type_synonym 'a free_hook = "u64 \<Rightarrow> u32 \<Rightarrow> 'a liballoc_scheme \<Rightarrow> 'a liballoc_scheme option"

definition new_page_count :: "u32 \<Rightarrow> u32" where
  "new_page_count n =
     (let st = n + ucast sizeof_major;
          st = st + ucast sizeof_minor;
          st = (if st mod l_pageSize = 0 then st div l_pageSize else st div l_pageSize + 1)
      in if st < l_pageCount then l_pageCount else st)"

definition allocate_new_page :: "'a alloc_hook \<Rightarrow> u32 \<Rightarrow> 'a liballoc_scheme \<Rightarrow> (u64 \<times> 'a liballoc_scheme) option" where
  "allocate_new_page alloc n s =
     (let st = new_page_count n
      in do {
        (maj, s) \<leftarrow> alloc st s;
        if maj = 0 then Some (0, s\<lparr>l_warningCount := l_warningCount s + 1\<rparr>)
        else (let s = upd_major maj (\<lambda>_. \<lparr>maj_prev = 0, maj_next = 0, maj_pages = st,
                         maj_size = st * l_pageSize, maj_usage = ucast sizeof_major, maj_first = 0\<rparr>) s
              in Some (maj, s\<lparr>l_allocated := l_allocated s + ucast (maj_size (majors s maj))\<rparr>)) })"

text \<open>The bookkeeping that every successful case repeats for the new minor and its major.\<close>

definition count_usage :: "u64 \<Rightarrow> u64 \<Rightarrow> 'a liballoc_scheme \<Rightarrow> 'a liballoc_scheme" where
  "count_usage maj sz s =
     (let s = upd_major maj (\<lambda>b. b\<lparr>maj_usage := ucast (ucast (maj_usage b) + (sz + sizeof_minor))\<rparr>) s
      in s\<lparr>l_inuse := l_inuse s + sz\<rparr>)"

text \<open>CASE 2: a block without minors; the first minor follows the header.\<close>

definition case2 :: "u64 \<Rightarrow> u64 \<Rightarrow> u64 \<Rightarrow> 'a liballoc_scheme \<Rightarrow> u64 \<times> 'a liballoc_scheme" where
  "case2 maj sz req_size s =
     (let first = maj + sizeof_major;
          s = upd_major maj (\<lambda>b. b\<lparr>maj_first := first\<rparr>) s;
          s = upd_minor first (\<lambda>m. m\<lparr>min_magic := LIBALLOC_MAGIC, min_prev := 0, min_next := 0,
                min_block := maj, min_size := ucast sz, min_req_size := ucast req_size\<rparr>) s;
          s = count_usage maj sz s
      in ALIGN (first + sizeof_minor) s)"

text \<open>CASE 3: room between the header and the first minor.\<close>

definition case3_room :: "u64 \<Rightarrow> 'a liballoc_scheme \<Rightarrow> u64" where
  "case3_room maj s = maj_first (majors s maj) - maj - sizeof_major"

definition case3 :: "u64 \<Rightarrow> u64 \<Rightarrow> u64 \<Rightarrow> 'a liballoc_scheme \<Rightarrow> u64 \<times> 'a liballoc_scheme" where
  "case3 maj sz req_size s =
     (let old = maj_first (majors s maj);
          first = maj + sizeof_major;
          s = upd_minor old (\<lambda>m. m\<lparr>min_prev := first\<rparr>) s;
          s = upd_minor first (\<lambda>m. m\<lparr>min_next := old\<rparr>) s;
          s = upd_major maj (\<lambda>b. b\<lparr>maj_first := first\<rparr>) s;
          s = upd_minor first (\<lambda>m. m\<lparr>min_magic := LIBALLOC_MAGIC, min_prev := 0,
                min_block := maj, min_size := ucast sz, min_req_size := ucast req_size\<rparr>) s;
          s = count_usage maj sz s
      in ALIGN (first + sizeof_minor) s)"

text \<open>The end of a minor: the first address after its bytes.\<close>

definition minor_end :: "u64 \<Rightarrow> 'a liballoc_scheme \<Rightarrow> u64" where
  "minor_end m s = m + sizeof_minor + ucast (min_size (minors s m))"

text \<open>CASE 4.1: the last minor of a block, with room up to the end of the block.\<close>

definition case41_room :: "u64 \<Rightarrow> u64 \<Rightarrow> 'a liballoc_scheme \<Rightarrow> u64" where
  "case41_room maj m s =
     maj + ucast (maj_size (majors s maj)) - m - sizeof_minor - ucast (min_size (minors s m))"

definition case41 :: "u64 \<Rightarrow> u64 \<Rightarrow> u64 \<Rightarrow> u64 \<Rightarrow> 'a liballoc_scheme \<Rightarrow> u64 \<times> 'a liballoc_scheme" where
  "case41 maj m sz req_size s =
     (let new = minor_end m s;
          s = upd_minor m (\<lambda>b. b\<lparr>min_next := new\<rparr>) s;
          s = upd_minor new (\<lambda>b. b\<lparr>min_prev := m\<rparr>) s;
          s = upd_minor new (\<lambda>b. b\<lparr>min_next := 0, min_magic := LIBALLOC_MAGIC, min_block := maj,
                min_size := ucast sz, min_req_size := ucast req_size\<rparr>) s;
          s = count_usage maj sz s
      in ALIGN (new + sizeof_minor) s)"

text \<open>CASE 4.2: room between two minors.\<close>

definition case42_room :: "u64 \<Rightarrow> 'a liballoc_scheme \<Rightarrow> u64" where
  "case42_room m s = min_next (minors s m) - m - sizeof_minor - ucast (min_size (minors s m))"

definition case42 :: "u64 \<Rightarrow> u64 \<Rightarrow> u64 \<Rightarrow> u64 \<Rightarrow> 'a liballoc_scheme \<Rightarrow> u64 \<times> 'a liballoc_scheme" where
  "case42 maj m sz req_size s =
     (let new_min = minor_end m s; next = min_next (minors s m);
          s = upd_minor new_min (\<lambda>b. b\<lparr>min_magic := LIBALLOC_MAGIC, min_next := next, min_prev := m,
                min_size := ucast sz, min_req_size := ucast req_size, min_block := maj\<rparr>) s;
          s = upd_minor (min_next (minors s m)) (\<lambda>b. b\<lparr>min_prev := new_min\<rparr>) s;
          s = upd_minor m (\<lambda>b. b\<lparr>min_next := new_min\<rparr>) s;
          s = count_usage maj sz s
      in ALIGN (new_min + sizeof_minor) s)"

text \<open>
  CASE 4: the walk over the minors of a block. The result is the pointer if there was room.
  The loops run on fuel; \<open>None\<close> means that it ran out.
\<close>

primrec minor_loop :: "nat \<Rightarrow> u64 \<Rightarrow> u64 \<Rightarrow> u64 \<Rightarrow> u64 \<Rightarrow> 'a liballoc_scheme \<Rightarrow> (u64 option \<times> 'a liballoc_scheme) option" where
  "minor_loop 0 maj m sz req_size s = None"
| "minor_loop (Suc fuel) maj m sz req_size s =
     (if m = 0 then Some (None, s)
      else if min_next (minors s m) = 0 \<and> case41_room maj m s \<ge> sz + sizeof_minor
      then (let (p, s) = case41 maj m sz req_size s in Some (Some p, s))
      else if min_next (minors s m) \<noteq> 0 \<and> case42_room m s \<ge> sz + sizeof_minor
      then (let (p, s) = case42 maj m sz req_size s in Some (Some p, s))
      else minor_loop fuel maj (min_next (minors s m)) sz req_size s)"

text \<open>CASES 2 to 4 on one block.\<close>

definition try_block :: "nat \<Rightarrow> u64 \<Rightarrow> u64 \<Rightarrow> u64 \<Rightarrow> 'a liballoc_scheme \<Rightarrow> (u64 option \<times> 'a liballoc_scheme) option" where
  "try_block fuel maj sz req_size s =
     (if maj_first (majors s maj) = 0 then (let (p, s) = case2 maj sz req_size s in Some (Some p, s))
      else if case3_room maj s \<ge> sz + sizeof_minor
      then (let (p, s) = case3 maj sz req_size s in Some (Some p, s))
      else minor_loop fuel maj (maj_first (majors s maj)) sz req_size s)"

text \<open>A new block after the last one; the result is its address, zero when there is no memory.\<close>

definition append_block :: "'a alloc_hook \<Rightarrow> u64 \<Rightarrow> u64 \<Rightarrow> 'a liballoc_scheme \<Rightarrow> (u64 \<times> 'a liballoc_scheme) option" where
  "append_block alloc maj sz s = do {
     (new, s) \<leftarrow> allocate_new_page alloc (ucast sz) s;
     let s = upd_major maj (\<lambda>b. b\<lparr>maj_next := new\<rparr>) s;
     if new = 0 then Some (0, s)
     else Some (new, upd_major new (\<lambda>b. b\<lparr>maj_prev := maj\<rparr>) s) }"

definition block_room :: "u64 \<Rightarrow> 'a liballoc_scheme \<Rightarrow> u64" where
  "block_room maj s = ucast (maj_size (majors s maj) - maj_usage (majors s maj))"

primrec major_loop ::
    "nat \<Rightarrow> 'a alloc_hook \<Rightarrow> u64 \<Rightarrow> bool \<Rightarrow> u64 \<Rightarrow> u64 \<Rightarrow> u64 \<Rightarrow> 'a liballoc_scheme \<Rightarrow> (u64 \<times> 'a liballoc_scheme) option" where
  "major_loop 0 alloc maj startedBet bestSize sz req_size s = None"
| "major_loop (Suc fuel) alloc maj startedBet bestSize sz req_size s =
     (if maj = 0 then Some (0, s)
      else
        (let diff = block_room maj s;
             (bestSize, s) = (if bestSize < diff then (diff, s\<lparr>l_bestBet := maj\<rparr>) else (bestSize, s));
             rest = (\<lambda>maj s. do {
               (r, s) \<leftarrow> try_block fuel maj sz req_size s;
               case r of
                 Some p \<Rightarrow> Some (p, s)
               | None \<Rightarrow>
                   if maj_next (majors s maj) = 0 then
                     (if startedBet then major_loop fuel alloc (l_memRoot s) False bestSize sz req_size s
                      else do {
                        (new, s) \<leftarrow> append_block alloc maj sz s;
                        if new = 0 then Some (0, s)
                        else major_loop fuel alloc new startedBet bestSize sz req_size s })
                   else major_loop fuel alloc (maj_next (majors s maj)) startedBet bestSize sz req_size s })
         in if diff < sz + sizeof_minor then
              (if maj_next (majors s maj) \<noteq> 0
               then major_loop fuel alloc (maj_next (majors s maj)) startedBet bestSize sz req_size s
               else if startedBet
               then major_loop fuel alloc (l_memRoot s) False bestSize sz req_size s
               else do {
                 (new, s) \<leftarrow> append_block alloc maj sz s;
                 if new = 0 then Some (0, s) else rest new s })
            else rest maj s))"

definition start_block :: "u64 \<Rightarrow> 'a liballoc_scheme \<Rightarrow> u64 \<times> bool \<times> u64" where
  "start_block sz s =
     (if l_bestBet s \<noteq> 0
      then (let bestSize = block_room (l_bestBet s) s
            in if bestSize > sz + sizeof_minor then (l_bestBet s, True, bestSize)
               else (l_memRoot s, False, bestSize))
      else (l_memRoot s, False, 0))"

text \<open>
  \<open>req_size + 32\<close> wraps to zero for one request; the code then asks for one byte instead.
\<close>

definition kmalloc_nonzero :: "nat \<Rightarrow> 'a alloc_hook \<Rightarrow> u64 \<Rightarrow> u64 \<Rightarrow> 'a liballoc_scheme \<Rightarrow> (u64 \<times> 'a liballoc_scheme) option" where
  "kmalloc_nonzero fuel alloc req_size sz s = do {
     (ok, s) \<leftarrow> (if l_memRoot s = 0
                then do { (r, s) \<leftarrow> allocate_new_page alloc (ucast sz) s;
                          let s = s\<lparr>l_memRoot := r\<rparr>;
                          Some (r \<noteq> 0, s) }
                else Some (True, s));
     if \<not> ok then Some (0, s)
     else (let (maj, startedBet, bestSize) = start_block sz s
           in major_loop fuel alloc maj startedBet bestSize sz req_size s) }"

definition kmalloc_body :: "nat \<Rightarrow> 'a alloc_hook \<Rightarrow> u64 \<Rightarrow> 'a liballoc_scheme \<Rightarrow> (u64 \<times> 'a liballoc_scheme) option" where
  "kmalloc_body fuel alloc req_size s =
     (let sz = req_size + (ALIGNMENT + ALIGN_INFO)
      in if sz = 0
         then kmalloc_nonzero fuel alloc 1 (1 + (ALIGNMENT + ALIGN_INFO)) (s\<lparr>l_warningCount := l_warningCount s + 1\<rparr>)
         else kmalloc_nonzero fuel alloc req_size sz s)"

section \<open>kfree, kcalloc, krealloc\<close>

definition possible_overrun :: "u32 \<Rightarrow> bool" where
  "possible_overrun magic \<longleftrightarrow>
     magic AND 0xFFFFFF = LIBALLOC_MAGIC AND 0xFFFFFF \<or> magic AND 0xFFFF = LIBALLOC_MAGIC AND 0xFFFF
     \<or> magic AND 0xFF = LIBALLOC_MAGIC AND 0xFF"

text \<open>The common reaction to a pointer whose header has no magic number.\<close>

definition bad_magic :: "u32 \<Rightarrow> 'a liballoc_scheme \<Rightarrow> 'a liballoc_scheme" where
  "bad_magic magic s =
     (let s = s\<lparr>l_errorCount := l_errorCount s + 1\<rparr>
      in if possible_overrun magic then s\<lparr>l_possibleOverruns := l_possibleOverruns s + 1\<rparr> else s)"

text \<open>Unlinking a minor from its block.\<close>

definition unlink_minor :: "u64 \<Rightarrow> 'a liballoc_scheme \<Rightarrow> 'a liballoc_scheme" where
  "unlink_minor m s =
     (let maj = min_block (minors s m);
          s = s\<lparr>l_inuse := l_inuse s - ucast (min_size (minors s m))\<rparr>;
          s = upd_major maj (\<lambda>b. b\<lparr>maj_usage := ucast (ucast (maj_usage b) - (ucast (min_size (minors s m)) + sizeof_minor))\<rparr>) s;
          s = upd_minor m (\<lambda>b. b\<lparr>min_magic := LIBALLOC_DEAD\<rparr>) s;
          s = (if min_next (minors s m) \<noteq> 0
               then upd_minor (min_next (minors s m)) (\<lambda>b. b\<lparr>min_prev := min_prev (minors s m)\<rparr>) s else s);
          s = (if min_prev (minors s m) \<noteq> 0
               then upd_minor (min_prev (minors s m)) (\<lambda>b. b\<lparr>min_next := min_next (minors s m)\<rparr>) s else s)
      in if min_prev (minors s m) = 0
         then upd_major maj (\<lambda>b. b\<lparr>maj_first := min_next (minors s m)\<rparr>) s else s)"

text \<open>Giving an empty block back, or remembering a block with more room.\<close>

definition release_block :: "'a free_hook \<Rightarrow> u64 \<Rightarrow> 'a liballoc_scheme \<Rightarrow> 'a liballoc_scheme option" where
  "release_block free maj s =
     (let s = (if l_memRoot s = maj then s\<lparr>l_memRoot := maj_next (majors s maj)\<rparr> else s);
          s = (if l_bestBet s = maj then s\<lparr>l_bestBet := 0\<rparr> else s);
          s = (if maj_prev (majors s maj) \<noteq> 0
               then upd_major (maj_prev (majors s maj)) (\<lambda>b. b\<lparr>maj_next := maj_next (majors s maj)\<rparr>) s else s);
          s = (if maj_next (majors s maj) \<noteq> 0
               then upd_major (maj_next (majors s maj)) (\<lambda>b. b\<lparr>maj_prev := maj_prev (majors s maj)\<rparr>) s else s);
          s = s\<lparr>l_allocated := l_allocated s - ucast (maj_size (majors s maj))\<rparr>
      in free maj (maj_pages (majors s maj)) s)"

definition note_best_bet :: "u64 \<Rightarrow> 'a liballoc_scheme \<Rightarrow> 'a liballoc_scheme" where
  "note_best_bet maj s =
     (if l_bestBet s \<noteq> 0 then
        (let bestSize = maj_size (majors s (l_bestBet s)) - maj_usage (majors s (l_bestBet s));
             majSize = maj_size (majors s maj) - maj_usage (majors s maj)
         in if bestSize <s majSize then s\<lparr>l_bestBet := maj\<rparr> else s)
      else s)"

definition kfree_body :: "'a free_hook \<Rightarrow> u64 \<Rightarrow> 'a liballoc_scheme \<Rightarrow> 'a liballoc_scheme option" where
  "kfree_body free ptr s =
     (if ptr = 0 then Some (s\<lparr>l_warningCount := l_warningCount s + 1\<rparr>)
      else
        (let m = UNALIGN ptr s - sizeof_minor
         in if min_magic (minors s m) \<noteq> LIBALLOC_MAGIC then Some (bad_magic (min_magic (minors s m)) s)
            else
              (let maj = min_block (minors s m);
                   s = unlink_minor m s
               in if maj_first (majors s maj) = 0 then release_block free maj s
                  else Some (note_best_bet maj s))))"

definition kcalloc_body :: "(u64 \<Rightarrow> 'a liballoc_scheme \<Rightarrow> (u64 \<times> 'a liballoc_scheme) option) \<Rightarrow>
    u64 \<Rightarrow> u64 \<Rightarrow> 'a liballoc_scheme \<Rightarrow> (u64 \<times> 'a liballoc_scheme) option" where
  "kcalloc_body malloc nobj sz s =
     (let real_size = nobj * sz
      in do {
        (p, s) \<leftarrow> malloc real_size s;
        if p = 0 then Some (0, s)
        else Some (p, s\<lparr>bytes := liballoc_memset (bytes s) p 0 real_size\<rparr>) })"

definition krealloc_body :: "(u64 \<Rightarrow> 'a liballoc_scheme \<Rightarrow> (u64 \<times> 'a liballoc_scheme) option) \<Rightarrow>
    (u64 \<Rightarrow> 'a liballoc_scheme \<Rightarrow> 'a liballoc_scheme option) \<Rightarrow>
    u64 \<Rightarrow> u64 \<Rightarrow> 'a liballoc_scheme \<Rightarrow> (u64 \<times> 'a liballoc_scheme) option" where
  "krealloc_body malloc free p sz s =
     (if sz = 0 then do { s \<leftarrow> free p s; Some (0, s) }
      else if p = 0 then malloc sz s
      else
        (let m = UNALIGN p s - sizeof_minor
         in if min_magic (minors s m) \<noteq> LIBALLOC_MAGIC
            then Some (0, bad_magic (min_magic (minors s m)) s)
            else
              (let real_size = min_req_size (minors s m)
               in if ucast real_size \<ge> sz
                  then Some (p, upd_minor m (\<lambda>b. b\<lparr>min_req_size := ucast sz\<rparr>) s)
                  else do {
                    (ptr, s) \<leftarrow> malloc sz s;
                    if ptr = 0 then Some (0, s)
                    else (let s = s\<lparr>bytes := liballoc_memcpy (bytes s) ptr p (ucast real_size)\<rparr>
                          in do { s \<leftarrow> free p s; Some (ptr, s) }) })))"

end
