(* ===== verification/Pmm.thy ===== *)
theory Pmm
  imports Kmemory
begin

text \<open>
  The physical memory manager (memory/PMM.c). A bitmap of 512 words tracks 32768 pages above
  the first page after the kernel image; a set bit is a free page, and the highest bit of a
  word is its lowest page. The theory shows that the bit scan finds the lowest free page at
  or above a start, that every allocation removes exactly that page, and that successive
  allocations never hand out a page twice.
\<close>

section \<open>State and operations\<close>

definition MEM_START :: u64 where
  "MEM_START = 0x200000"

definition PAGES :: nat where
  "PAGES = 128 * 4"

record pmm =
  bitmap :: "u64 list"
  RESERVED_START :: u64

text \<open>The constructor: \<open>first_free\<close> is the address of the linker symbol \<open>_FIRST_FREE_PAGE_\<close>.\<close>

definition pmm_init :: "u64 \<Rightarrow> pmm \<Rightarrow> pmm" where
  "pmm_init first_free s = s\<lparr>RESERVED_START := first_free, bitmap := replicate PAGES (- 1)\<rparr>"

text \<open>The \<open>bsr\<close> instruction: the index of the highest set bit, \<open>None\<close> when the zero flag is set.\<close>

primrec bsr_below :: "nat \<Rightarrow> u64 \<Rightarrow> nat option" where
  "bsr_below 0 w = None"
| "bsr_below (Suc n) w = (if bit w n then Some n else bsr_below n w)"

definition bsr :: "u64 \<Rightarrow> nat option" where
  "bsr w = bsr_below 64 w"

function allocate_loop :: "nat \<Rightarrow> pmm \<Rightarrow> u64 \<times> pmm" where
  "allocate_loop i s =
     (if i < PAGES then
        (case bsr (bitmap s ! i) of
           None \<Rightarrow> allocate_loop (Suc i) s
         | Some first_set \<Rightarrow>
             if first_set \<noteq> 0 then
               (RESERVED_START s + PAGE_SIZE * (64 * of_nat i + (63 - of_nat first_set)),
                s\<lparr>bitmap := (bitmap s)[i := bitmap s ! i AND NOT (push_bit first_set 1)]\<rparr>)
             else
               (RESERVED_START s + PAGE_SIZE * (64 * of_nat i + 63),
                s\<lparr>bitmap := (bitmap s)[i := 0]\<rparr>))
      else (NULL, s))"
  by pat_completeness auto
termination
  by (relation "measure (\<lambda>(i, s). PAGES - i)") auto

declare allocate_loop.simps [simp del]

definition start_word :: "u64 \<Rightarrow> pmm \<Rightarrow> nat" where
  "start_word start s = unat ((start - RESERVED_START s) div PAGE_SIZE div 64)"

definition allocate_page_from :: "u64 \<Rightarrow> pmm \<Rightarrow> u64 \<times> pmm" where
  "allocate_page_from start s = allocate_loop (start_word start s) s"

definition pmm_allocate_page_table :: "pmm \<Rightarrow> u64 \<times> pmm" where
  "pmm_allocate_page_table s = allocate_page_from (RESERVED_START s) s"

definition pmm_allocate_page :: "pmm \<Rightarrow> u64 \<times> pmm" where
  "pmm_allocate_page s = allocate_page_from MEM_START s"

section \<open>The set of free pages\<close>

text \<open>Page \<open>k\<close> counts from the reserved start; word \<open>k div 64\<close> holds it, from the top bit down.\<close>

definition page_free :: "pmm \<Rightarrow> nat \<Rightarrow> bool" where
  "page_free s k \<longleftrightarrow> k < 64 * PAGES \<and> bit (bitmap s ! (k div 64)) (63 - k mod 64)"

definition page_addr :: "pmm \<Rightarrow> nat \<Rightarrow> u64" where
  "page_addr s k = RESERVED_START s + PAGE_SIZE * of_nat k"

definition free_indices :: "pmm \<Rightarrow> nat set" where
  "free_indices s = {k. page_free s k}"

lemma finite_free_indices [simp]: "finite (free_indices s)"
  by (rule finite_subset [of _ "{..<64 * PAGES}"]) (auto simp: free_indices_def page_free_def)

subsection \<open>Bit scan\<close>

lemma bsr_below_None: "bsr_below n w = None \<longleftrightarrow> (\<forall>j < n. \<not> bit w j)"
  by (induction n) (auto simp: less_Suc_eq)

lemma bsr_below_Some:
  "bsr_below n w = Some b \<longleftrightarrow> b < n \<and> bit w b \<and> (\<forall>j. b < j \<and> j < n \<longrightarrow> \<not> bit w j)"
  by (induction n) (auto simp: less_Suc_eq)

lemma bsr_None: "bsr w = None \<longleftrightarrow> w = 0"
proof -
  have "bsr w = None \<longleftrightarrow> (\<forall>j < 64. \<not> bit w j)" by (simp add: bsr_def bsr_below_None)
  also have "\<dots> \<longleftrightarrow> w = 0"
    by (auto simp: bit_eq_iff dest: bit_imp_le_length)
  finally show ?thesis .
qed

lemma bsr_SomeD:
  assumes "bsr w = Some b"
  shows "b < 64" "bit w b" "b < j \<Longrightarrow> \<not> bit w j"
  using assms bit_imp_le_length [of w j] by (auto simp: bsr_def bsr_below_Some)

text \<open>Clearing the lowest bit after a scan that found bit 0 empties the word.\<close>

lemma bsr_zero_bit: "bsr w = Some 0 \<Longrightarrow> w AND NOT (push_bit 0 1) = 0"
  by (rule bit_eqI) (auto simp: bit_simps dest: bsr_SomeD)

lemma bit_clear: "bit (w AND NOT (2 ^ b)) j \<longleftrightarrow> bit (w :: u64) j \<and> j \<noteq> b"
  by (auto simp: bit_simps dest: bit_imp_le_length)

subsection \<open>One step of the search\<close>

definition clear_page :: "nat \<Rightarrow> pmm \<Rightarrow> pmm" where
  "clear_page k s = s\<lparr>bitmap := (bitmap s)[k div 64 := bitmap s ! (k div 64)
     AND NOT (push_bit (63 - k mod 64) 1)]\<rparr>"

lemma allocate_loop_found:
  assumes "i < PAGES" and "bsr (bitmap s ! i) = Some b" and r: "r = 63 - b"
  shows "allocate_loop i s = (page_addr s (64 * i + r), clear_page (64 * i + r) s)"
proof -
  have b: "b < 64" using assms(2) by (rule bsr_SomeD)
  have r': "r < 64" "63 - r = b" using b r by simp_all
  then have idx: "(64 * i + r) div 64 = i" "63 - (64 * i + r) mod 64 = b" by simp_all
  have clear: "clear_page (64 * i + r) s =
      s\<lparr>bitmap := (bitmap s)[i := bitmap s ! i AND NOT (push_bit b 1)]\<rparr>"
    by (simp only: clear_page_def idx)
  have addr: "page_addr s (64 * i + r) = RESERVED_START s + PAGE_SIZE * (64 * of_nat i + of_nat r)"
    by (simp add: page_addr_def)
  have loop: "allocate_loop i s =
     (if b \<noteq> 0 then
        (RESERVED_START s + PAGE_SIZE * (64 * of_nat i + (63 - of_nat b)),
         s\<lparr>bitmap := (bitmap s)[i := bitmap s ! i AND NOT (push_bit b 1)]\<rparr>)
      else (RESERVED_START s + PAGE_SIZE * (64 * of_nat i + 63), s\<lparr>bitmap := (bitmap s)[i := 0]\<rparr>))"
    using assms(1,2) by (subst allocate_loop.simps) simp
  show ?thesis
  proof (cases "b = 0")
    case True
    then have "bitmap s ! i AND NOT (push_bit b 1) = 0" using bsr_zero_bit assms(2) by simp
    moreover have "(of_nat r :: u64) = 63" using True r by simp
    ultimately show ?thesis unfolding loop clear addr using True by simp
  next
    case False
    have "(of_nat r :: u64) = 63 - of_nat b" using b r by (simp add: of_nat_diff)
    then show ?thesis unfolding loop clear addr using False by simp
  qed
qed

lemma allocate_loop_skip:
  "i < PAGES \<Longrightarrow> bitmap s ! i = 0 \<Longrightarrow> allocate_loop i s = allocate_loop (Suc i) s"
  by (subst allocate_loop.simps) (simp add: bsr_None [THEN iffD2])

lemma page_free_word: "i < PAGES \<Longrightarrow> j < 64 \<Longrightarrow> page_free s (64 * i + j) \<longleftrightarrow> bit (bitmap s ! i) (63 - j)"
  by (auto simp: page_free_def)

lemma page_free_clear:
  assumes "length (bitmap s) = PAGES" and "k < 64 * PAGES"
  shows "page_free (clear_page k s) j \<longleftrightarrow> page_free s j \<and> j \<noteq> k"
proof -
  have *: "63 - j mod 64 = 63 - k mod 64 \<longleftrightarrow> j mod 64 = k mod 64"
    using mod_less_divisor [of 64 j] mod_less_divisor [of 64 k] by linarith
  have "k div 64 < PAGES" using assms(2) by (simp add: less_mult_imp_div_less mult.commute)
  moreover have "j div 64 = k div 64 \<and> j mod 64 = k mod 64 \<longleftrightarrow> j = k"
    by (metis div_mod_decomp)
  ultimately show ?thesis
    using assms(1) *
    by (auto simp: page_free_def clear_page_def nth_list_update bit_clear)
qed

lemma free_indices_clear:
  "length (bitmap s) = PAGES \<Longrightarrow> k < 64 * PAGES \<Longrightarrow>
     free_indices (clear_page k s) = free_indices s - {k}"
  by (auto simp: free_indices_def page_free_clear)

lemma clear_page_simps [simp]:
  "RESERVED_START (clear_page k s) = RESERVED_START s"
  "length (bitmap (clear_page k s)) = length (bitmap s)"
  by (simp_all add: clear_page_def)

subsection \<open>The search finds the lowest free page\<close>

text \<open>The abstract allocator: the least free page index at or above \<open>k0\<close>.\<close>

definition lowest_free :: "nat set \<Rightarrow> nat \<Rightarrow> nat option" where
  "lowest_free F k0 = (if \<exists>k\<in>F. k0 \<le> k then Some (Min {k \<in> F. k0 \<le> k}) else None)"

lemma lowest_freeI:
  assumes "k \<in> F" "k0 \<le> k" "finite F" "\<And>j. j \<in> F \<Longrightarrow> k0 \<le> j \<Longrightarrow> k \<le> j"
  shows "lowest_free F k0 = Some k"
  using assms unfolding lowest_free_def by (auto intro!: Min_eqI)

lemma lowest_free_SomeD:
  assumes "lowest_free F k0 = Some k" and "finite F"
  shows "k \<in> F" "k0 \<le> k" "j \<in> F \<Longrightarrow> k0 \<le> j \<Longrightarrow> k \<le> j"
proof -
  let ?A = "{k \<in> F. k0 \<le> k}"
  have A: "?A \<noteq> {}" "finite ?A" and k: "k = Min ?A"
    using assms by (auto simp: lowest_free_def split: if_splits)
  have "k \<in> ?A" using Min_in [OF A(2,1)] k by simp
  then show "k \<in> F" "k0 \<le> k" by auto
  show "k \<le> j" if "j \<in> F" "k0 \<le> j" using that A(2) k by simp
qed

lemma lowest_free_skip:
  assumes "\<And>k. k0 \<le> k \<Longrightarrow> k < k1 \<Longrightarrow> k \<notin> F" and "k0 \<le> k1"
  shows "lowest_free F k0 = lowest_free F k1"
proof -
  have "{k \<in> F. k0 \<le> k} = {k \<in> F. k1 \<le> k}"
    using assms by (auto simp: not_less intro: order_trans) (metis not_less)
  then show ?thesis unfolding lowest_free_def by (auto intro: order_trans [OF assms(2)])
qed

lemma allocate_loop_lowest:
  "allocate_loop i s =
     (case lowest_free (free_indices s) (64 * i) of
        None \<Rightarrow> (NULL, s)
      | Some k \<Rightarrow> (page_addr s k, clear_page k s))"
proof (induction i s rule: allocate_loop.induct)
  case (1 i s)
  show ?case
  proof (cases "i < PAGES")
    case False
    then have "lowest_free (free_indices s) (64 * i) = None"
      by (auto simp: lowest_free_def free_indices_def page_free_def)
    then show ?thesis using False by (subst allocate_loop.simps) simp
  next
    case True
    show ?thesis
    proof (cases "bsr (bitmap s ! i)")
      case None
      then have z: "bitmap s ! i = 0" by (simp add: bsr_None)
      have "lowest_free (free_indices s) (64 * i) = lowest_free (free_indices s) (64 * Suc i)"
      proof (rule lowest_free_skip)
        fix k assume "64 * i \<le> k" "k < 64 * Suc i"
        then have "k div 64 = i" by (auto intro: div_nat_eqI)
        then show "k \<notin> free_indices s" using z by (simp add: free_indices_def page_free_def)
      qed simp
      then show ?thesis
        using 1 [OF True None] allocate_loop_skip [OF True z] by simp
    next
      case (Some b)
      define r where r: "r = 63 - b"
      let ?k = "64 * i + r"
      note b = bsr_SomeD [OF Some]
      have b': "b = 63 - r" "r < 64" using b(1) r by simp_all
      have "lowest_free (free_indices s) (64 * i) = Some ?k"
      proof (rule lowest_freeI)
        show "?k \<in> free_indices s"
          using b(2) b' True by (simp add: free_indices_def page_free_word)
        fix j assume j: "j \<in> free_indices s" "64 * i \<le> j"
        show "?k \<le> j"
        proof (rule ccontr)
          assume "\<not> ?k \<le> j"
          then obtain q where q: "j = 64 * i + q" "q < r"
            using j(2) by (metis le_Suc_ex nat_add_left_cancel_less not_le)
          then have "bit (bitmap s ! i) (63 - q)"
            using j(1) True b'(2) by (simp add: free_indices_def page_free_word)
          then show False using b(3) [of "63 - q"] q b' by simp
        qed
      qed simp_all
      then show ?thesis using allocate_loop_found [OF True Some r] by simp
    qed
  qed
qed

section \<open>The allocator's contract\<close>

text \<open>
  Physical frames as addresses. The invariant says where the managed area lies: the bitmap has
  its full length, the reserved start is a page boundary above address zero, and the whole
  128 MiB stay below \<open>2 ^ 40\<close>, the addresses a page table entry of this kernel can hold.
\<close>

definition pmm_inv :: "pmm \<Rightarrow> bool" where
  "pmm_inv s \<longleftrightarrow> length (bitmap s) = PAGES \<and> page_aligned (RESERVED_START s)
     \<and> 0 < RESERVED_START s \<and> unat (RESERVED_START s) + 4096 * (64 * PAGES) \<le> 2 ^ 40"

definition free_frames :: "pmm \<Rightarrow> u64 set" where
  "free_frames s = page_addr s ` free_indices s"

lemma unat_page_addr:
  assumes "pmm_inv s" and "k < 64 * PAGES"
  shows "unat (page_addr s k) = unat (RESERVED_START s) + 4096 * k"
proof -
  have k: "k < 32768" using assms(2) by (simp add: PAGES_def)
  have r: "unat (RESERVED_START s) + 4096 * 32768 \<le> 2 ^ 40"
    using assms(1) by (simp add: pmm_inv_def PAGES_def)
  have "unat (of_nat k :: u64) = k" using k by (intro unat64_of_nat) simp
  then have m: "unat (PAGE_SIZE * of_nat k) = 4096 * k"
    using k unat64_mult [of PAGE_SIZE "of_nat k"] by (simp add: PAGE_SIZE_def)
  then show ?thesis
    using k r unat64_add [of "RESERVED_START s" "PAGE_SIZE * of_nat k"]
    by (simp add: page_addr_def)
qed

lemma page_addr_inj:
  assumes "pmm_inv s"
  shows "inj_on (page_addr s) {..<64 * PAGES}"
proof (rule inj_onI)
  fix j k assume j: "j \<in> {..<64 * PAGES}" and k: "k \<in> {..<64 * PAGES}"
    and eq: "page_addr s j = page_addr s k"
  have "unat (page_addr s j) = unat (RESERVED_START s) + 4096 * j"
    using j by (intro unat_page_addr [OF assms]) simp
  moreover have "unat (page_addr s k) = unat (RESERVED_START s) + 4096 * k"
    using k by (intro unat_page_addr [OF assms]) simp
  ultimately show "j = k" unfolding eq by linarith
qed

lemma free_frames_props:
  assumes "pmm_inv s" and "a \<in> free_frames s"
  shows "page_aligned a" "a \<noteq> NULL" "unat a < 2 ^ 40" "RESERVED_START s \<le> a"
proof -
  obtain k where k: "a = page_addr s k" "k < 64 * PAGES"
    using assms(2) by (auto simp: free_frames_def free_indices_def page_free_def)
  note u = unat_page_addr [OF assms(1) k(2)]
  have inv: "4096 dvd unat (RESERVED_START s)" "0 < unat (RESERVED_START s)"
    "unat (RESERVED_START s) + 4096 * (64 * PAGES) \<le> 2 ^ 40"
    using assms(1) by (auto simp: pmm_inv_def page_aligned_iff_dvd unat_gt_0)
  show "page_aligned a" using inv(1) u k by (simp add: page_aligned_iff_dvd)
  have "0 < unat a" using inv(2) u k by simp
  then show "a \<noteq> NULL" by auto
  show "unat a < 2 ^ 40" using inv(3) u k by simp
  show "RESERVED_START s \<le> a" using u k by (simp add: word_le_nat_alt)
qed

lemma allocate_page_from_cases:
  assumes "pmm_inv s" and "allocate_page_from start s = (a, s')"
  obtains (none) "a = NULL" "s' = s"
  | (page) k where "lowest_free (free_indices s) (64 * start_word start s) = Some k"
      "k \<in> free_indices s" "a = page_addr s k" "a \<noteq> NULL" "s' = clear_page k s"
proof (cases "lowest_free (free_indices s) (64 * start_word start s)")
  case None
  then show ?thesis
    using assms(2) none by (simp add: allocate_page_from_def allocate_loop_lowest)
next
  case (Some k)
  have k: "k \<in> free_indices s" using Some by (rule lowest_free_SomeD) simp
  then have "page_addr s k \<in> free_frames s" by (simp add: free_frames_def)
  then have "page_addr s k \<noteq> NULL" using free_frames_props(2) [OF assms(1)] by blast
  then show ?thesis
    using assms(2) Some k page by (simp add: allocate_page_from_def allocate_loop_lowest)
qed

lemma free_frames_clear:
  assumes "pmm_inv s" and "k \<in> free_indices s"
  shows "free_frames (clear_page k s) = free_frames s - {page_addr s k}" "pmm_inv (clear_page k s)"
proof -
  have k: "k < 64 * PAGES" using assms(2) by (simp add: free_indices_def page_free_def)
  have len: "length (bitmap s) = PAGES" using assms(1) by (simp add: pmm_inv_def)
  have addr: "page_addr (clear_page k s) = page_addr s" by (rule ext) (simp add: page_addr_def)
  have "inj_on (page_addr s) (free_indices s)"
    using page_addr_inj [OF assms(1)]
    by (rule inj_on_subset) (auto simp: free_indices_def page_free_def)
  then have "page_addr s ` (free_indices s - {k}) = page_addr s ` free_indices s - {page_addr s k}"
    using assms(2) by (simp add: inj_on_image_set_diff)
  then show "free_frames (clear_page k s) = free_frames s - {page_addr s k}"
    using free_indices_clear [OF len k] addr by (simp add: free_frames_def)
  show "pmm_inv (clear_page k s)" using assms(1) by (simp add: pmm_inv_def)
qed

text \<open>
  The interface a client of the physical allocator relies on: an allocation either fails and
  changes nothing or takes one frame out of the free set. A client issues a sequence of
  requests; \<open>alloc_seq\<close> collects the answers.
\<close>

primrec alloc_seq :: "('r \<Rightarrow> 's \<Rightarrow> u64 \<times> 's) \<Rightarrow> 'r list \<Rightarrow> 's \<Rightarrow> u64 list \<times> 's" where
  "alloc_seq alloc [] s = ([], s)"
| "alloc_seq alloc (r # rs) s =
     (let (a, s') = alloc r s; (as, s'') = alloc_seq alloc rs s' in (a # as, s''))"

locale frame_allocator =
  fixes inv :: "'s \<Rightarrow> bool" and frames :: "'s \<Rightarrow> u64 set"
    and alloc :: "'r \<Rightarrow> 's \<Rightarrow> u64 \<times> 's"
  assumes alloc_none: "inv s \<Longrightarrow> alloc r s = (NULL, s') \<Longrightarrow> s' = s"
    and alloc_some: "inv s \<Longrightarrow> alloc r s = (a, s') \<Longrightarrow> a \<noteq> NULL \<Longrightarrow>
      a \<in> frames s \<and> frames s' = frames s - {a} \<and> inv s'"
begin

lemma alloc_inv: "inv s \<Longrightarrow> alloc r s = (a, s') \<Longrightarrow> inv s'"
  using alloc_none alloc_some by (cases "a = NULL") blast+

lemma alloc_frames_subset: "inv s \<Longrightarrow> alloc r s = (a, s') \<Longrightarrow> frames s' \<subseteq> frames s"
  using alloc_none alloc_some by (cases "a = NULL") blast+

lemma alloc_seq_frames:
  "inv s \<Longrightarrow> alloc_seq alloc rs s = (as, s') \<Longrightarrow>
     inv s' \<and> frames s' = frames s - (set as - {NULL}) \<and> set as - {NULL} \<subseteq> frames s
     \<and> distinct (filter (\<lambda>a. a \<noteq> NULL) as)"
proof (induction rs arbitrary: s as s')
  case Nil
  then show ?case by simp
next
  case (Cons r rs)
  obtain a t where a: "alloc r s = (a, t)" by (cases "alloc r s") auto
  obtain bs u where bs: "alloc_seq alloc rs t = (bs, u)" by (cases "alloc_seq alloc rs t") auto
  have as: "as = a # bs" "s' = u" using Cons.prems(2) a bs by auto
  have IH: "inv u \<and> frames u = frames t - (set bs - {NULL}) \<and> set bs - {NULL} \<subseteq> frames t
      \<and> distinct (filter (\<lambda>a. a \<noteq> NULL) bs)"
    using Cons.IH [OF alloc_inv [OF Cons.prems(1) a] bs] .
  show ?case
  proof (cases "a = NULL")
    case True
    then have "t = s" using alloc_none Cons.prems(1) a by simp
    then show ?thesis using IH True as by auto
  next
    case False
    then have "a \<in> frames s" "frames t = frames s - {a}"
      using alloc_some [OF Cons.prems(1) a] by simp_all
    then show ?thesis using IH False as by auto
  qed
qed

end

text \<open>The requests the kernel makes: a page table or a page for data.\<close>

datatype request = PageTable | Page

fun pmm_alloc :: "request \<Rightarrow> pmm \<Rightarrow> u64 \<times> pmm" where
  "pmm_alloc PageTable s = pmm_allocate_page_table s"
| "pmm_alloc Page s = pmm_allocate_page s"

lemma allocate_page_from_alloc:
  assumes "pmm_inv s" and "allocate_page_from start s = (a, s')"
  shows "(a = NULL \<longrightarrow> s' = s) \<and>
    (a \<noteq> NULL \<longrightarrow> a \<in> free_frames s \<and> free_frames s' = free_frames s - {a} \<and> pmm_inv s')"
  using assms
proof (cases rule: allocate_page_from_cases)
  case none
  then show ?thesis by simp
next
  case (page k)
  then show ?thesis using free_frames_clear [OF assms(1) page(2)] by (simp add: free_frames_def)
qed

interpretation pmm: frame_allocator pmm_inv free_frames pmm_alloc
proof
  fix s a s' r assume inv: "pmm_inv s"
  obtain start where start: "pmm_alloc r s = allocate_page_from start s"
    by (cases r) (auto simp: pmm_allocate_page_table_def pmm_allocate_page_def)
  show "s' = s" if "pmm_alloc r s = (NULL, s')"
    using allocate_page_from_alloc [OF inv] that unfolding start by blast
  show "a \<in> free_frames s \<and> free_frames s' = free_frames s - {a} \<and> pmm_inv s'"
    if "pmm_alloc r s = (a, s')" "a \<noteq> NULL"
    using allocate_page_from_alloc [OF inv] that unfolding start by blast
qed

section \<open>Properties\<close>

text \<open>
  C19: an allocation takes the lowest free page at or above the word the start address falls
  into, returns its address and clears exactly that page; when there is none it returns NULL
  and leaves the bitmap alone.
\<close>

theorem allocate_page_from_correct:
  assumes "length (bitmap s) = PAGES"
  shows "case lowest_free (free_indices s) (64 * start_word start s) of
      None \<Rightarrow> allocate_page_from start s = (NULL, s)
    | Some k \<Rightarrow> \<exists>s'. allocate_page_from start s = (page_addr s k, s')
        \<and> free_indices s' = free_indices s - {k}
        \<and> length (bitmap s') = PAGES \<and> RESERVED_START s' = RESERVED_START s"
proof (cases "lowest_free (free_indices s) (64 * start_word start s)")
  case None
  then show ?thesis by (simp add: allocate_page_from_def allocate_loop_lowest)
next
  case (Some k)
  then have "k \<in> free_indices s" by (rule lowest_free_SomeD) simp
  then have "k < 64 * PAGES" by (simp add: free_indices_def page_free_def)
  then show ?thesis
    using Some assms
    by (simp add: allocate_page_from_def allocate_loop_lowest free_indices_clear)
qed

definition pmm_boot :: pmm where
  "pmm_boot = pmm_init 0x100000 \<lparr>bitmap = [], RESERVED_START = 0\<rparr>"

theorem allocate_page_from_correct_witness:
  "case lowest_free (free_indices pmm_boot) (64 * start_word 0x200000 pmm_boot) of
      None \<Rightarrow> allocate_page_from 0x200000 pmm_boot = (NULL, pmm_boot)
    | Some k \<Rightarrow> \<exists>s'. allocate_page_from 0x200000 pmm_boot = (page_addr pmm_boot k, s')
        \<and> free_indices s' = free_indices pmm_boot - {k}
        \<and> length (bitmap s') = PAGES \<and> RESERVED_START s' = RESERVED_START pmm_boot"
  by (rule allocate_page_from_correct) (simp add: pmm_boot_def pmm_init_def)

lemma free_indices_init: "free_indices (pmm_init f s) = {..<64 * PAGES}"
  by (auto simp: free_indices_def page_free_def pmm_init_def less_mult_imp_div_less mult.commute)

lemma start_word_table [simp]: "start_word (RESERVED_START s) s = 0"
  by (simp add: start_word_def)

text \<open>
  C3: no page is handed out twice. Whatever mix of page table and data page requests the
  kernel makes, the answers are, apart from the NULLs of an exhausted area, pairwise distinct
  page-aligned addresses below \<open>2 ^ 40\<close> that were free before, and exactly these leave the set
  of free frames.
\<close>

theorem pmm_allocations_distinct:
  assumes "pmm_inv s" and "alloc_seq pmm_alloc rs s = (as, s')"
  shows "distinct (filter (\<lambda>a. a \<noteq> NULL) as) \<and> set as - {NULL} \<subseteq> free_frames s
    \<and> free_frames s' = free_frames s - (set as - {NULL})
    \<and> (\<forall>a \<in> set as. page_aligned a \<and> unat a < 2 ^ 40) \<and> pmm_inv s'"
proof -
  note seq = pmm.alloc_seq_frames [OF assms]
  have "page_aligned a \<and> unat a < 2 ^ 40" if "a \<in> set as" for a
  proof (cases "a = NULL")
    case True
    then show ?thesis by (simp add: page_aligned_def)
  next
    case False
    then have "a \<in> free_frames s" using seq that by blast
    then show ?thesis using free_frames_props [OF assms(1)] by blast
  qed
  then show ?thesis using seq by blast
qed

lemma pmm_inv_boot: "pmm_inv pmm_boot"
  by (simp add: pmm_inv_def pmm_boot_def pmm_init_def page_aligned_def PAGES_def)

theorem pmm_allocations_distinct_witness:
  "\<exists>as s'. alloc_seq pmm_alloc [PageTable, Page, PageTable] pmm_boot = (as, s')
    \<and> distinct (filter (\<lambda>a. a \<noteq> NULL) as) \<and> set as - {NULL} \<subseteq> free_frames pmm_boot"
  using pmm_allocations_distinct [OF pmm_inv_boot, of "[PageTable, Page, PageTable]"]
  by (metis surj_pair)

lemma start_word_mem:
  assumes "RESERVED_START s \<le> MEM_START"
  shows "start_word MEM_START s = (unat MEM_START - unat (RESERVED_START s)) div 4096 div 64"
proof -
  have "unat (MEM_START - RESERVED_START s) = unat MEM_START - unat (RESERVED_START s)"
    using assms by (rule unat_sub)
  then show ?thesis
    by (simp add: start_word_def PAGE_SIZE_def unat_div_distrib)
qed

text \<open>
  data pages come from above the identity-mapped area only up to the granularity of a
  bitmap word: a page from \<open>pmm_allocate_page\<close> lies less than 64 pages below \<open>MEM_START\<close> at
  worst, and at or above it when the distance is a multiple of 64 pages.
\<close>

theorem pmm_allocate_page_lower_bound:
  assumes "pmm_inv s" and "RESERVED_START s \<le> MEM_START"
    and "pmm_allocate_page s = (a, s')" and "a \<noteq> NULL"
  shows "unat MEM_START < unat a + 64 * 4096
    \<and> (64 * 4096 dvd unat MEM_START - unat (RESERVED_START s) \<longrightarrow> MEM_START \<le> a)"
proof -
  from assms(1) assms(3) [unfolded pmm_allocate_page_def]
  obtain k where k: "lowest_free (free_indices s) (64 * start_word MEM_START s) = Some k"
    "k \<in> free_indices s" "a = page_addr s k"
    using assms(4) by (cases rule: allocate_page_from_cases) auto
  let ?d = "unat MEM_START - unat (RESERVED_START s)"
  have ge: "64 * (?d div 4096 div 64) \<le> k"
    using lowest_free_SomeD(2) [OF k(1)] start_word_mem [OF assms(2)] by simp
  have ua: "unat a = unat (RESERVED_START s) + 4096 * k"
    using k unat_page_addr [OF assms(1), of k] by (simp add: free_indices_def page_free_def)
  have le: "unat (RESERVED_START s) \<le> unat MEM_START"
    using assms(2) by (simp add: word_le_nat_alt)
  have "?d < 64 * 4096 * (?d div 4096 div 64) + 64 * 4096"
    by (simp add: div_mult2_eq [symmetric])
  then have "?d < 4096 * k + 64 * 4096" using ge by linarith
  moreover have "?d \<le> 4096 * k" if "64 * 4096 dvd ?d"
  proof -
    from that obtain q where "?d = 64 * 4096 * q" by (rule dvdE)
    then show ?thesis using ge by simp
  qed
  ultimately show ?thesis using ua le by (auto simp: word_le_nat_alt)
qed

lemma pmm_boot_page: "\<exists>s'. pmm_allocate_page pmm_boot = (0x200000, s')"
proof -
  have "lowest_free (free_indices pmm_boot) 256 = Some 256"
    by (rule lowest_freeI) (auto simp: pmm_boot_def free_indices_init PAGES_def)
  moreover have "start_word MEM_START pmm_boot = 4"
    by (simp add: start_word_def MEM_START_def pmm_boot_def pmm_init_def PAGE_SIZE_def)
  moreover have "page_addr pmm_boot 256 = 0x200000"
    by (simp add: page_addr_def pmm_boot_def pmm_init_def PAGE_SIZE_def)
  ultimately show ?thesis
    by (simp add: pmm_allocate_page_def allocate_page_from_def allocate_loop_lowest)
qed

text \<open>
  when the kernel image reaches beyond \<open>MEM_START\<close>, the unsigned difference wraps around
  and no data page is ever handed out, however much memory is free.
\<close>

theorem pmm_allocate_page_image_too_big:
  assumes "pmm_inv s" and "MEM_START < RESERVED_START s"
  shows "pmm_allocate_page s = (NULL, s)"
proof -
  let ?r = "unat (RESERVED_START s)"
  have lt: "unat MEM_START < ?r" "?r \<le> 2 ^ 40"
    using assms by (simp_all add: word_less_nat_alt pmm_inv_def)
  then have "unat (MEM_START - RESERVED_START s) = unat MEM_START + 2 ^ 64 - ?r"
    by (simp add: unat_sub_if')
  then have "unat (MEM_START - RESERVED_START s) \<ge> 2 ^ 63" using lt by simp
  then have "2 ^ 63 div 4096 div 64 \<le> start_word MEM_START s"
    unfolding start_word_def PAGE_SIZE_def
    by (simp add: unat_div_distrib div_le_mono)
  then have "lowest_free (free_indices s) (64 * start_word MEM_START s) = None"
    by (auto simp: lowest_free_def free_indices_def page_free_def PAGES_def)
  then show ?thesis
    by (simp add: pmm_allocate_page_def allocate_page_from_def allocate_loop_lowest)
qed

end
