(* ===== verification/Paging.thy ===== *)
theory Paging
  imports Pmm
begin

text \<open>
  Page tables (memory/VMM.c, first half): the four-level structure in physical memory, the
  routine that maps one page, and the routine that sets the permissions of one page.
  Tables are reached by paths of indices from the root; the theory shows that mapping a page
  is an update of the partial function from paths to addresses, so that a mapped page
  translates to its frame and every other translation is left alone.
\<close>

section \<open>Constants of VMM.c\<close>

definition NO_EXEC_BIT :: u64 where "NO_EXEC_BIT = push_bit 63 1"
definition ADDRESS_MASK :: u64 where "ADDRESS_MASK = 0xfffffff000"
definition USER_ACCESS_BIT :: u64 where "USER_ACCESS_BIT = 0x4"
definition READ_WRITE_BIT :: u64 where "READ_WRITE_BIT = 0x2"
definition PRESENT_BIT :: u64 where "PRESENT_BIT = 0x1"

definition DIRECTORY_DEFAULTS :: u64 where
  "DIRECTORY_DEFAULTS = READ_WRITE_BIT OR PRESENT_BIT"

section \<open>State\<close>

text \<open>
  \<open>phys\<close> is the physical memory manager, \<open>pt4\<close> the root table read from CR3, \<open>pmem\<close> the
  physical memory that holds the tables, \<open>intr\<close> the interrupt flag, and \<open>invlpg\<close> the addresses
  whose translations have been invalidated, latest first.
\<close>

record paging =
  phys :: pmm
  pt4 :: u64
  pmem :: memory
  intr :: bool
  invlpg :: "u64 list"

definition vmm_init :: "u64 \<Rightarrow> paging \<Rightarrow> paging" where
  "vmm_init cr3 s = s\<lparr>pt4 := cr3\<rparr>"

definition are_interrupts_enabled :: "paging \<Rightarrow> bool" where
  "are_interrupts_enabled s = intr s"

definition disable_interrupts :: "paging \<Rightarrow> paging" where
  "disable_interrupts s = s\<lparr>intr := False\<rparr>"

definition enable_interrupts :: "paging \<Rightarrow> paging" where
  "enable_interrupts s = s\<lparr>intr := True\<rparr>"

definition flush_tlb :: "u64 \<Rightarrow> paging \<Rightarrow> paging" where
  "flush_tlb addr s = s\<lparr>invlpg := addr # invlpg s\<rparr>"

text \<open>The field access \<open>table->entries[i]\<close>: eight bytes per entry.\<close>

definition entry :: "paging \<Rightarrow> u64 \<Rightarrow> u64 \<Rightarrow> u64" where
  "entry s table i = load64 (pmem s) (table + 8 * i)"

definition set_entry :: "u64 \<Rightarrow> u64 \<Rightarrow> u64 \<Rightarrow> paging \<Rightarrow> paging" where
  "set_entry table i v s = s\<lparr>pmem := store64 (pmem s) (table + 8 * i) v\<rparr>"

definition present :: "u64 \<Rightarrow> bool" where
  "present e \<longleftrightarrow> e AND PRESENT_BIT \<noteq> 0"

text \<open>The four table indices of a virtual address.\<close>

definition pt4_index :: "u64 \<Rightarrow> u64" where "pt4_index v = drop_bit 39 v AND 0x1ff"
definition pt3_index :: "u64 \<Rightarrow> u64" where "pt3_index v = drop_bit 30 v AND 0x1ff"
definition pt2_index :: "u64 \<Rightarrow> u64" where "pt2_index v = drop_bit 21 v AND 0x1ff"
definition page_index :: "u64 \<Rightarrow> u64" where "page_index v = drop_bit 12 v AND 0x1ff"

section \<open>Mapping a page\<close>

definition allocate_page_table :: "paging \<Rightarrow> u64 \<times> paging" where
  "allocate_page_table s =
     (let (table, p) = pmm_allocate_page_table (phys s)
      in (table, s\<lparr>phys := p, pmem := kmemset (pmem s) table 0 PAGE_SIZE\<rparr>))"

text \<open>
  The block that \<open>vmm_map_memory\<close> repeats for the P4, P3 and P2 entry: a missing entry gets a
  fresh table, a present one keeps its address bits; both get the new flags.
\<close>

definition check_entry :: "u64 \<Rightarrow> u64 \<Rightarrow> u64 \<Rightarrow> paging \<Rightarrow> paging" where
  "check_entry table i flags s =
     (if \<not> present (entry s table i)
      then (let (new, s') = allocate_page_table s in set_entry table i (new OR flags) s')
      else set_entry table i ((entry s table i AND NOT 0xfff) OR flags) s)"

definition next_table :: "u64 \<Rightarrow> u64 \<Rightarrow> paging \<Rightarrow> u64" where
  "next_table table i s = entry s table i AND ADDRESS_MASK"

text \<open>The block for the P1 entry; the result carries the possibly replaced \<open>physical\<close>.\<close>

definition check_page :: "u64 \<Rightarrow> u64 \<Rightarrow> u64 \<Rightarrow> u64 \<Rightarrow> paging \<Rightarrow> u64 \<times> paging" where
  "check_page page_table i physical flags s =
     (if \<not> present (entry s page_table i)
      then (let (physical', s') =
                  (if physical = 0
                   then (let (a, p) = pmm_allocate_page (phys s) in (a, s\<lparr>phys := p\<rparr>))
                   else (physical, s))
            in (physical', set_entry page_table i (physical' OR flags OR NO_EXEC_BIT) s'))
      else (physical,
            set_entry page_table i
              ((entry s page_table i AND NOT 0xfff) OR flags OR NO_EXEC_BIT) s))"

definition vmm_map_memory :: "u64 \<Rightarrow> u64 \<Rightarrow> u64 \<Rightarrow> paging \<Rightarrow> paging" where
  "vmm_map_memory physical virtual flags s =
     (let i4 = pt4_index virtual; i3 = pt3_index virtual;
          i2 = pt2_index virtual; i1 = page_index virtual;
          interrupts = are_interrupts_enabled s;
          s0 = disable_interrupts s;
          s1 = check_entry (pt4 s0) i4 flags s0;
          pt3 = next_table (pt4 s1) i4 s1;
          s2 = check_entry pt3 i3 flags s1;
          pt2 = next_table pt3 i3 s2;
          s3 = check_entry pt2 i2 flags s2;
          page_table = next_table pt2 i2 s3;
          (physical', s4) = check_page page_table i1 physical flags s3;
          s5 = flush_tlb physical' s4
      in if interrupts then enable_interrupts s5 else s5)"

section \<open>Setting permissions\<close>

text \<open>The macro \<open>SET_FLAGS\<close> on one table entry.\<close>

definition SET_FLAGS :: "u64 \<Rightarrow> u64 \<Rightarrow> bool \<Rightarrow> paging \<Rightarrow> paging" where
  "SET_FLAGS table i is_os s =
     set_entry table i ((entry s table i AND ADDRESS_MASK) OR DIRECTORY_DEFAULTS
       OR (if is_os then USER_ACCESS_BIT else 0)) s"

definition set_page_permission :: "u64 \<Rightarrow> bool \<Rightarrow> bool \<Rightarrow> bool \<Rightarrow> paging \<Rightarrow> paging" where
  "set_page_permission addr is_os is_writable is_executable s =
     (let i4 = pt4_index addr; i3 = pt3_index addr; i2 = pt2_index addr; i1 = page_index addr;
          interrupts = are_interrupts_enabled s;
          s0 = disable_interrupts s;
          s1 = SET_FLAGS (pt4 s0) i4 is_os s0;
          pt3 = next_table (pt4 s1) i4 s1;
          s2 = SET_FLAGS pt3 i3 is_os s1;
          pt2 = next_table pt3 i3 s2;
          s3 = SET_FLAGS pt2 i2 is_os s2;
          page_table = next_table pt2 i2 s3;
          s4 = SET_FLAGS page_table i1 is_os s3;
          s5 = (if \<not> is_executable
                then set_entry page_table i1 (entry s4 page_table i1 OR NO_EXEC_BIT) s4 else s4);
          s6 = (if \<not> is_writable
                then set_entry page_table i1 (entry s5 page_table i1 AND NOT READ_WRITE_BIT) s5
                else s5);
          s7 = flush_tlb (entry s6 page_table i1) s6
      in if interrupts then enable_interrupts s7 else s7)"

section \<open>Address translation as the processor performs it\<close>

text \<open>
  With 4 KiB pages the processor follows four present entries from the root; bits 12 to 51 of
  an entry are the address of the next table or of the frame.
\<close>

definition FRAME_MASK :: u64 where
  "FRAME_MASK = 0xffffffffff000"

definition walk_step :: "memory \<Rightarrow> u64 \<Rightarrow> u64 \<Rightarrow> u64 option" where
  "walk_step m t i = (let e = load64 m (t + 8 * i) in if present e then Some (e AND FRAME_MASK) else None)"

primrec walk :: "memory \<Rightarrow> u64 \<Rightarrow> u64 list \<Rightarrow> u64 option" where
  "walk m t [] = Some t"
| "walk m t (i # is) = (case walk_step m t i of None \<Rightarrow> None | Some t' \<Rightarrow> walk m t' is)"

definition indices :: "u64 \<Rightarrow> u64 list" where
  "indices v = [pt4_index v, pt3_index v, pt2_index v, page_index v]"

definition translate :: "paging \<Rightarrow> u64 \<Rightarrow> u64 option" where
  "translate s v = walk (pmem s) (pt4 s) (indices v)"

lemma walk_append:
  "walk m t (p @ q) = (case walk m t p of None \<Rightarrow> None | Some t' \<Rightarrow> walk m t' q)"
  by (induction p arbitrary: t) (auto split: option.split)

lemma walk_snoc:
  "walk m t (p @ [i]) = (case walk m t p of None \<Rightarrow> None | Some t' \<Rightarrow> walk_step m t' i)"
  by (simp add: walk_append split: option.split)

subsection \<open>Bit patterns of entries\<close>

lemma ADDRESS_MASK_bits [bit_defs]: "ADDRESS_MASK = push_bit 12 (mask 28)"
  by (simp add: ADDRESS_MASK_def mask_eq_exp_minus_1 push_bit_eq_mult)

lemma FRAME_MASK_bits [bit_defs]: "FRAME_MASK = push_bit 12 (mask 40)"
  by (simp add: FRAME_MASK_def mask_eq_exp_minus_1 push_bit_eq_mult)

lemma bit_ADDRESS_MASK: "bit ADDRESS_MASK n \<longleftrightarrow> 12 \<le> n \<and> n < 40"
  by (auto simp: bit_defs bit_simps)

lemma bit_FRAME_MASK: "bit FRAME_MASK n \<longleftrightarrow> 12 \<le> n \<and> n < 52"
  by (auto simp: bit_defs bit_simps)

lemma bit_NO_EXEC: "bit NO_EXEC_BIT n \<longleftrightarrow> n = 63"
  unfolding NO_EXEC_BIT_def by (simp only: bit_push_bit_iff bit_1_iff) auto

lemma present_bit: "present e \<longleftrightarrow> bit e 0"
  by (simp add: present_def PRESENT_BIT_def bit_0 and_one_eq odd_iff_mod_2_eq_one)

text \<open>
  Flag words the kernel passes: they fit the low twelve bits, mark the entry present and do not
  ask for a large page (bit 7).
\<close>

definition good_flags :: "u64 \<Rightarrow> bool" where
  "good_flags f \<longleftrightarrow> unat f < 4096 \<and> present f \<and> \<not> bit f 7"

lemma good_flags_bit: "good_flags f \<Longrightarrow> bit f n \<Longrightarrow> n < 12"
  using bit_less_2p [of f n 12] by (simp add: good_flags_def)

lemma entry_frame:
  assumes "page_aligned a" "unat a < 2 ^ 52" "good_flags f"
  shows "(a OR f OR x AND NO_EXEC_BIT) AND FRAME_MASK = a"
proof (rule bit_eqI)
  fix n assume "possible_bit TYPE(64 word) n"
  show "bit ((a OR f OR x AND NO_EXEC_BIT) AND FRAME_MASK) n = bit a n"
    using page_aligned_bit_ge [OF assms(1), of n] bit_less_2p [OF _ assms(2), of n]
      good_flags_bit [OF assms(3), of n]
    by (auto simp: bit_simps bit_FRAME_MASK bit_NO_EXEC)
qed

lemma entry_frame_simps:
  assumes "page_aligned a" "unat a < 2 ^ 52" "good_flags f"
  shows "(a OR f) AND FRAME_MASK = a" "(a OR f OR NO_EXEC_BIT) AND FRAME_MASK = a"
  using entry_frame [OF assms, of 0] entry_frame [OF assms, of NO_EXEC_BIT] by simp_all

lemma entry_keep_frame:
  assumes "good_flags f"
  shows "((e AND NOT 0xfff) OR f OR x AND NO_EXEC_BIT) AND FRAME_MASK = e AND FRAME_MASK"
proof (rule bit_eqI)
  fix n assume "possible_bit TYPE(64 word) n"
  show "bit (((e AND NOT 0xfff) OR f OR x AND NO_EXEC_BIT) AND FRAME_MASK) n = bit (e AND FRAME_MASK) n"
    using good_flags_bit [OF assms, of n]
    by (auto simp: bit_simps low12_mask bit_FRAME_MASK bit_NO_EXEC)
qed

lemma entry_keep_frame_simps:
  assumes "good_flags f"
  shows "((e AND NOT 0xfff) OR f) AND FRAME_MASK = e AND FRAME_MASK"
    "((e AND NOT 0xfff) OR f OR NO_EXEC_BIT) AND FRAME_MASK = e AND FRAME_MASK"
  using entry_keep_frame [OF assms, of e 0] entry_keep_frame [OF assms, of e NO_EXEC_BIT] by simp_all

lemma present_or [simp]: "good_flags f \<Longrightarrow> present (a OR f)" "good_flags f \<Longrightarrow> present (a OR f OR x)"
  by (simp_all add: good_flags_def present_bit bit_simps)

text \<open>Below \<open>2 ^ 40\<close> the kernel's address mask and the processor's agree.\<close>

lemma masks_agree:
  assumes "unat (e AND FRAME_MASK) < 2 ^ 40"
  shows "e AND ADDRESS_MASK = e AND FRAME_MASK"
proof (rule bit_eqI)
  fix n assume "possible_bit TYPE(64 word) n"
  show "bit (e AND ADDRESS_MASK) n = bit (e AND FRAME_MASK) n"
    using bit_less_2p [OF _ assms, of n]
    by (auto simp: bit_simps bit_FRAME_MASK bit_ADDRESS_MASK)
qed

subsection \<open>Table trees\<close>

text \<open>
  A path is a list of at most four table indices; a prefix of length at most three leads to a
  table. The tables form a tree: every table is page aligned, lies below \<open>2 ^ 40\<close>, is not a
  free frame of the physical manager, and is reached by one path only.
\<close>

definition idx_ok :: "u64 list \<Rightarrow> bool" where
  "idx_ok p \<longleftrightarrow> (\<forall>i \<in> set p. unat i < 512)"

definition table_path :: "u64 list \<Rightarrow> bool" where
  "table_path p \<longleftrightarrow> idx_ok p \<and> length p \<le> 3"

definition tree_inv :: "paging \<Rightarrow> bool" where
  "tree_inv s \<longleftrightarrow>
     pmm_inv (phys s)
   \<and> (\<forall>p t. table_path p \<longrightarrow> walk (pmem s) (pt4 s) p = Some t \<longrightarrow>
         page_aligned t \<and> unat t < 2 ^ 40 \<and> t \<notin> free_frames (phys s))
   \<and> (\<forall>p q t. table_path p \<longrightarrow> table_path q \<longrightarrow> walk (pmem s) (pt4 s) p = Some t \<longrightarrow>
         walk (pmem s) (pt4 s) q = Some t \<longrightarrow> p = q)"

lemma tree_inv_table:
  assumes "tree_inv s" "table_path p" "walk (pmem s) (pt4 s) p = Some t"
  shows "page_aligned t" "unat t < 2 ^ 40" "t \<notin> free_frames (phys s)"
  using assms unfolding tree_inv_def by blast+

lemma tree_inv_inj:
  "tree_inv s \<Longrightarrow> table_path p \<Longrightarrow> table_path q \<Longrightarrow>
     walk (pmem s) (pt4 s) p = Some t \<Longrightarrow> walk (pmem s) (pt4 s) q = Some t \<Longrightarrow> p = q"
  unfolding tree_inv_def by blast

lemma table_path_snoc: "table_path (p @ [i]) \<longleftrightarrow> table_path p \<and> length p \<le> 2 \<and> unat i < 512"
  by (auto simp: table_path_def idx_ok_def)

lemma idx_ok_snoc [simp]: "idx_ok (p @ [i]) \<longleftrightarrow> idx_ok p \<and> unat i < 512"
  by (auto simp: idx_ok_def)

text \<open>If every step from a table is unchanged, so is every walk.\<close>

lemma walk_unchanged:
  assumes "\<And>p t j. table_path p \<Longrightarrow> walk m r p = Some t \<Longrightarrow> unat j < 512 \<Longrightarrow>
      walk_step m' t j = walk_step m t j"
    and "idx_ok q" "length q \<le> 4"
  shows "walk m' r q = walk m r q"
  using assms(2,3)
proof (induction q rule: rev_induct)
  case Nil
  then show ?case by simp
next
  case (snoc j q)
  then have "table_path q" "unat j < 512" and IH: "walk m' r q = walk m r q"
    by (simp_all add: table_path_def)
  then show ?case by (auto simp: walk_snoc assms(1) split: option.split)
qed

text \<open>If one missing step is filled in, exactly one walk appears.\<close>

lemma walk_extended:
  assumes p: "table_path p" "walk m r p = Some t" "unat i < 512"
    and other: "\<And>q u j. table_path q \<Longrightarrow> walk m r q = Some u \<Longrightarrow> unat j < 512 \<Longrightarrow>
      (q, j) \<noteq> (p, i) \<Longrightarrow> walk_step m' u j = walk_step m u j"
    and old: "walk_step m t i = None" and new: "walk_step m' t i = Some n"
    and blank: "\<And>j. length p < 3 \<Longrightarrow> unat j < 512 \<Longrightarrow> walk_step m' n j = None"
    and q: "idx_ok q" "length q \<le> 4"
  shows "walk m' r q = (if q = p @ [i] then Some n else walk m r q)"
  using q
proof (induction q rule: rev_induct)
  case Nil
  then show ?case by simp
next
  case (snoc j q)
  then have tq: "table_path q" and j: "unat j < 512"
    and IH: "walk m' r q = (if q = p @ [i] then Some n else walk m r q)"
    by (simp_all add: table_path_def)
  show ?case
  proof (cases "q = p @ [i]")
    case True
    then have "length p < 3" using snoc.prems by simp
    then have blk: "walk_step m' n j = None" using j by (rule blank)
    have IHq: "walk m' r q = Some n" using IH True by simp
    have "walk m' r (q @ [j]) = None" by (simp only: walk_snoc IHq option.case blk)
    moreover have "walk m r q = None" using True p old by (simp add: walk_snoc)
    then have "walk m r (q @ [j]) = None" by (simp only: walk_snoc option.case)
    ultimately show ?thesis using True by simp
  next
    case False
    show ?thesis
    proof (cases "(q, j) = (p, i)")
      case True
      then show ?thesis using IH False p new by (simp add: walk_snoc)
    next
      case ne: False
      then show ?thesis
        using IH False other [OF tq _ j ne] by (auto simp: walk_snoc split: option.split)
    qed
  qed
qed

subsection \<open>Effect of one level\<close>

text \<open>A store to an entry of a table leaves every other entry of every table alone.\<close>

lemma walk_step_store:
  assumes "page_aligned t" "page_aligned u" "unat i < 512" "unat j < 512" "t \<noteq> u \<or> i \<noteq> j"
  shows "walk_step (store64 m (t + 8 * i) v) u j = walk_step m u j"
  using entries_apart [OF assms] by (simp add: walk_step_def load64_store64_apart)

lemma walk_step_store_same:
  "walk_step (store64 m (t + 8 * i) v) t i = (if present v then Some (v AND FRAME_MASK) else None)"
  by (simp add: walk_step_def)

lemma walk_step_clear:
  assumes "page_aligned t" "page_aligned u" "unat i < 512"
  shows "walk_step (kmemset m u 0 PAGE_SIZE) t i = (if t = u then None else walk_step m t i)"
  using load64_kmemset_page [OF assms, of m] by (simp add: walk_step_def present_def)

lemma store_present_entry:
  assumes inv: "tree_inv s" and p: "table_path p" "walk (pmem s) (pt4 s) p = Some t" "unat i < 512"
    and e: "present (entry s t i)" "present v" "v AND FRAME_MASK = entry s t i AND FRAME_MASK"
    and q: "idx_ok q" "length q \<le> 4"
  shows "walk (store64 (pmem s) (t + 8 * i) v) (pt4 s) q = walk (pmem s) (pt4 s) q"
proof (rule walk_unchanged [OF _ q])
  fix p' u and j :: u64 assume u: "table_path p'" "walk (pmem s) (pt4 s) p' = Some u" "unat j < 512"
  show "walk_step (store64 (pmem s) (t + 8 * i) v) u j = walk_step (pmem s) u j"
  proof (cases "t = u \<and> i = j")
    case True
    then show ?thesis using e by (simp add: walk_step_def entry_def)
  next
    case False
    then show ?thesis
      using tree_inv_table(1) [OF inv] p u by (intro walk_step_store) auto
  qed
qed

lemma store_missing_entry:
  assumes inv: "tree_inv s" and p: "table_path p" "walk (pmem s) (pt4 s) p = Some t" "unat i < 512"
    and e: "\<not> present (entry s t i)" "present v"
    and n: "length p < 3 \<Longrightarrow> page_aligned n \<and> n \<in> free_frames (phys s) \<and> m = kmemset (pmem s) n 0 PAGE_SIZE"
      "length p = 3 \<Longrightarrow> m = pmem s" "v AND FRAME_MASK = n"
    and q: "idx_ok q" "length q \<le> 4"
  shows "walk (store64 m (t + 8 * i) v) (pt4 s) q
    = (if q = p @ [i] then Some n else walk (pmem s) (pt4 s) q)"
proof (rule walk_extended [OF p _ _ _ _ q])
  have len: "length p < 3 \<or> length p = 3" using p(1) by (auto simp: table_path_def)
  note tp = tree_inv_table [OF inv p(1,2)]
  show "walk_step (pmem s) t i = None" using e(1) by (simp add: walk_step_def entry_def)
  show "walk_step (store64 m (t + 8 * i) v) t i = Some n"
    using e(2) n(3) by (simp add: walk_step_store_same)
  show "walk_step (store64 m (t + 8 * i) v) u j = walk_step (pmem s) u j"
    if u: "table_path p'" "walk (pmem s) (pt4 s) p' = Some u" "unat j < 512" "(p', j) \<noteq> (p, i)" for p' u j
  proof -
    note tu = tree_inv_table [OF inv u(1,2)]
    have "t \<noteq> u \<or> i \<noteq> j" using tree_inv_inj [OF inv p(1) u(1)] p(2) u(2,4) by auto
    then have "walk_step (store64 m (t + 8 * i) v) u j = walk_step m u j"
      using tp tu p(3) u(3) by (intro walk_step_store) auto
    also have "\<dots> = walk_step (pmem s) u j"
      using len n(1,2) tu walk_step_clear [OF tu(1) _ u(3)] by auto
    finally show ?thesis .
  qed
  show "walk_step (store64 m (t + 8 * i) v) n j = None" if "length p < 3" "unat j < 512" for j
  proof -
    have "t \<noteq> n" using tp n(1) [OF that(1)] by auto
    then have "walk_step (store64 m (t + 8 * i) v) n j = walk_step m n j"
      using tp n(1) [OF that(1)] p(3) that(2) by (intro walk_step_store) auto
    then show ?thesis using n(1) [OF that(1)] walk_step_clear [of n n j] that(2) by simp
  qed
qed

text \<open>The walks of a state as one partial function on paths.\<close>

definition walks :: "paging \<Rightarrow> u64 list \<rightharpoonup> u64" where
  "walks s q = (if idx_ok q \<and> length q \<le> 4 then walk (pmem s) (pt4 s) q else None)"

lemma walks_table: "table_path p \<Longrightarrow> walks s p = walk (pmem s) (pt4 s) p"
  by (simp add: walks_def table_path_def)

lemma idx_bound: "unat (x AND (0x1ff :: u64)) < 512"
proof -
  have "x AND 0x1ff \<le> (0x1ff :: u64)" by (rule word_and_le1)
  then show ?thesis by (simp add: word_le_nat_alt)
qed

lemma index_bounds [simp]:
  "unat (pt4_index v) < 512" "unat (pt3_index v) < 512"
  "unat (pt2_index v) < 512" "unat (page_index v) < 512"
  unfolding pt4_index_def pt3_index_def pt2_index_def page_index_def by (rule idx_bound)+

lemma translate_walks: "translate s v = walks s (indices v)"
  by (simp add: translate_def walks_def indices_def idx_ok_def)

text \<open>
  The invariant only depends on the walks to tables, the free frames and the manager's own
  invariant; adding one fresh table to the tree keeps it.
\<close>

lemma tree_inv_walks:
  "tree_inv s \<longleftrightarrow> pmm_inv (phys s)
   \<and> (\<forall>p t. table_path p \<longrightarrow> walks s p = Some t \<longrightarrow>
         page_aligned t \<and> unat t < 2 ^ 40 \<and> t \<notin> free_frames (phys s))
   \<and> (\<forall>p q t. table_path p \<longrightarrow> table_path q \<longrightarrow> walks s p = Some t \<longrightarrow> walks s q = Some t \<longrightarrow> p = q)"
  unfolding tree_inv_def by (simp add: walks_table cong: imp_cong)

lemma tree_inv_keep:
  assumes "tree_inv s" "walks s' = walks s" "pmm_inv (phys s')"
    "free_frames (phys s') \<subseteq> free_frames (phys s)"
  shows "tree_inv s'"
  using assms(1,3,4) unfolding tree_inv_walks assms(2) by blast

lemma tree_inv_extend:
  assumes inv: "tree_inv s" and w: "walks s' = (walks s)(p @ [i] \<mapsto> n)"
    and n: "table_path (p @ [i]) \<Longrightarrow> n \<in> free_frames (phys s) \<and> free_frames (phys s') = free_frames (phys s) - {n}"
    and phys: "pmm_inv (phys s')" "free_frames (phys s') \<subseteq> free_frames (phys s)"
  shows "tree_inv s'"
  unfolding tree_inv_walks
proof (intro conjI allI impI)
  show "pmm_inv (phys s')" by (rule phys(1))
next
  fix q t assume q: "table_path q" "walks s' q = Some t"
  have "page_aligned t \<and> unat t < 2 ^ 40 \<and> t \<notin> free_frames (phys s')"
  proof (cases "q = p @ [i]")
    case True
    then have "t = n" "t \<in> free_frames (phys s)" using q w n by auto
    then show ?thesis using inv free_frames_props [of "phys s" t] n q(1) True by (auto simp: tree_inv_def)
  next
    case False
    then have "walks s q = Some t" using q w by simp
    then show ?thesis using inv q(1) phys(2) unfolding tree_inv_walks by blast
  qed
  then show "page_aligned t" "unat t < 2 ^ 40" "t \<notin> free_frames (phys s')" by blast+
next
  fix q r t assume q: "table_path q" "table_path r" "walks s' q = Some t" "walks s' r = Some t"
  have old: "t \<notin> free_frames (phys s)" if "walks s u = Some t" "table_path u" for u
    using inv that unfolding tree_inv_walks by blast
  consider "q = p @ [i]" "r = p @ [i]" | "q = p @ [i]" "r \<noteq> p @ [i]"
    | "q \<noteq> p @ [i]" "r = p @ [i]" | "walks s q = Some t" "walks s r = Some t"
    using q w by (auto split: if_splits)
  then show "q = r"
  proof cases
    case 2
    then have "walks s r = Some t" "t = n" using q w by auto
    then show ?thesis using old [OF _ q(2)] n q(1) 2 by auto
  next
    case 3
    then have "walks s q = Some t" "t = n" using q w by auto
    then show ?thesis using old [OF _ q(1)] n q(2) 3 by auto
  next
    case 4
    then show ?thesis using inv q(1,2) unfolding tree_inv_walks by blast
  qed simp
qed

lemma allocate_table_some:
  assumes "pmm_inv p" "free_frames p \<noteq> {}"
  obtains n p' where "pmm_allocate_page_table p = (n, p')" "n \<noteq> NULL"
    "n \<in> free_frames p" "free_frames p' = free_frames p - {n}" "pmm_inv p'"
proof -
  obtain n p' where a: "pmm_allocate_page_table p = (n, p')" by (cases "pmm_allocate_page_table p")
  have "\<exists>k \<in> free_indices p. 0 \<le> k" using assms(2) by (auto simp: free_frames_def)
  then obtain k where k: "lowest_free (free_indices p) 0 = Some k"
    by (simp only: lowest_free_def if_True)
  then have "n = page_addr p k"
    using a by (simp add: pmm_allocate_page_table_def allocate_page_from_def allocate_loop_lowest)
  moreover have "page_addr p k \<in> free_frames p"
    using lowest_free_SomeD(1) [OF k] by (simp add: free_frames_def)
  ultimately have "n \<noteq> NULL" using free_frames_props(2) [OF assms(1), of n] by simp
  then show ?thesis
    using pmm.alloc_some [OF assms(1), of PageTable n p'] a that by simp
qed

lemma check_entry_spec:
  assumes inv: "tree_inv s" and p: "table_path p" "length p \<le> 2" "walks s p = Some t"
    and i: "unat i < 512" and f: "good_flags f" and free: "free_frames (phys s) \<noteq> {}"
  defines "s' \<equiv> check_entry t i f s"
  shows "tree_inv s' \<and> pt4 s' = pt4 s \<and> walks s' (p @ [i]) = Some (next_table t i s')
    \<and> ((walks s (p @ [i]) = None
         \<and> (\<exists>n \<in> free_frames (phys s). walks s' = (walks s)(p @ [i] \<mapsto> n)
              \<and> free_frames (phys s') = free_frames (phys s) - {n}))
       \<or> (walks s (p @ [i]) \<noteq> None \<and> walks s' = walks s \<and> phys s' = phys s))"
proof (cases "present (entry s t i)")
  case True
  define v where v: "v = (entry s t i AND NOT 0xfff) OR f"
  have w: "walk (pmem s) (pt4 s) p = Some t" using p by (simp add: walks_table)
  have s': "s' = set_entry t i v s" using True by (simp only: s'_def check_entry_def v not_True_eq_False if_False)
  have keep: "v AND FRAME_MASK = entry s t i AND FRAME_MASK"
    unfolding v using f by (rule entry_keep_frame_simps(1))
  have pv: "present v" unfolding v using f by (rule present_or(1))
  have "walks s' = walks s"
    by (rule ext)
       (simp add: walks_def s' set_entry_def store_present_entry [OF inv p(1) w i True pv keep])
  moreover have walk_i: "walks s (p @ [i]) = Some (entry s t i AND FRAME_MASK)"
    using True p w i
    by (simp add: walks_def table_path_def walk_snoc walk_step_def entry_def)
  moreover have "tree_inv s'"
    using inv \<open>walks s' = walks s\<close> by (rule tree_inv_keep) (use inv in \<open>auto simp: s' set_entry_def tree_inv_def\<close>)
  moreover have "next_table t i s' = entry s t i AND FRAME_MASK"
  proof -
    have "unat (entry s t i AND FRAME_MASK) < 2 ^ 40"
      using tree_inv_table(2) [OF inv, of "p @ [i]"] walk_i p i by (simp add: table_path_snoc walks_table)
    moreover have "entry s' t i = v" by (simp add: s' entry_def set_entry_def)
    then have "entry s' t i AND FRAME_MASK = entry s t i AND FRAME_MASK" by (simp only: keep)
    ultimately show ?thesis using masks_agree [of "entry s' t i"] by (simp add: next_table_def)
  qed
  ultimately show ?thesis by (simp add: s' set_entry_def)
next
  case False
  have pinv: "pmm_inv (phys s)" using inv by (simp add: tree_inv_def)
  obtain n ph where n: "pmm_allocate_page_table (phys s) = (n, ph)" "n \<noteq> NULL"
    "n \<in> free_frames (phys s)" "free_frames ph = free_frames (phys s) - {n}" "pmm_inv ph"
    using allocate_table_some [OF pinv free] .
  note nf = free_frames_props [OF pinv n(3)]
  have w: "walk (pmem s) (pt4 s) p = Some t" using p by (simp add: walks_table)
  have s': "s' = s\<lparr>phys := ph, pmem := store64 (kmemset (pmem s) n 0 PAGE_SIZE) (t + 8 * i) (n OR f)\<rparr>"
    using False n(1) by (simp add: s'_def check_entry_def allocate_page_table_def set_entry_def)
  have fr: "(n OR f) AND FRAME_MASK = n" using nf f by (intro entry_frame_simps(1)) simp_all
  have upd: "walks s' = (walks s)(p @ [i] \<mapsto> n)"
  proof (rule ext)
    fix q
    show "walks s' q = ((walks s)(p @ [i] \<mapsto> n)) q"
    proof (cases "idx_ok q \<and> length q \<le> 4")
      case True
      then show ?thesis
        using store_missing_entry [OF inv p(1) w i False, of "n OR f" n _ q] f n nf fr p(2)
        by (simp add: walks_def s')
    next
      case False
      then show ?thesis using p i by (auto simp: walks_def table_path_def)
    qed
  qed
  moreover have "walks s (p @ [i]) = None"
    using False p w i by (simp add: walks_def table_path_def walk_snoc walk_step_def entry_def)
  moreover have "tree_inv s'"
    using inv upd by (rule tree_inv_extend) (use n in \<open>auto simp: s'\<close>)
  moreover have "next_table t i s' = n"
    using fr nf masks_agree [of "n OR f"] by (simp add: next_table_def s' entry_def)
  ultimately show ?thesis using n by (auto simp: s')
qed

text \<open>The page entry: a missing page is entered with the given or a freshly allocated frame.\<close>

lemma check_page_missing:
  assumes inv: "tree_inv s" and p: "table_path p" "length p = 3" "walks s p = Some t"
    and i: "unat i < 512" and f: "good_flags f" and miss: "walks s (p @ [i]) = None"
    and a: "check_page t i physical f s = (a, s')"
    and al: "page_aligned a" "unat a < 2 ^ 52"
  shows "tree_inv s' \<and> pt4 s' = pt4 s \<and> walks s' = (walks s)(p @ [i] \<mapsto> a)
    \<and> (if physical = 0 then pmm_allocate_page (phys s) = (a, phys s')
       else a = physical \<and> phys s' = phys s)"
proof -
  have w: "walk (pmem s) (pt4 s) p = Some t" using p by (simp add: walks_table)
  have np: "\<not> present (entry s t i)"
    using miss p w i by (auto simp: walks_def table_path_def walk_snoc walk_step_def entry_def split: if_splits)
  define v where v: "v = a OR f OR NO_EXEC_BIT"
  have s': "s' = s\<lparr>phys := phys s', pmem := store64 (pmem s) (t + 8 * i) v\<rparr>"
    and alloc: "if physical = 0 then pmm_allocate_page (phys s) = (a, phys s')
       else a = physical \<and> phys s' = phys s"
    using a np by (auto simp: check_page_def set_entry_def v split: if_splits prod.splits)
  have fr: "v AND FRAME_MASK = a" unfolding v using al f by (intro entry_frame_simps(2))
  have pv: "present v" unfolding v using f by (rule present_or(2))
  have upd: "walks s' = (walks s)(p @ [i] \<mapsto> a)"
  proof (rule ext)
    fix q
    show "walks s' q = ((walks s)(p @ [i] \<mapsto> a)) q"
    proof (cases "idx_ok q \<and> length q \<le> 4")
      case True
      then have "walk (store64 (pmem s) (t + 8 * i) v) (pt4 s) q
          = (if q = p @ [i] then Some a else walk (pmem s) (pt4 s) q)"
        using store_missing_entry [OF inv p(1) w i np pv, of a "pmem s" q] p(2) fr by simp
      then show ?thesis using True by (subst s') (simp add: walks_def)
    next
      case False
      then show ?thesis using p i by (auto simp: walks_def table_path_def)
    qed
  qed
  have pinv: "pmm_inv (phys s)" using inv by (simp add: tree_inv_def)
  have "pmm_inv (phys s') \<and> free_frames (phys s') \<subseteq> free_frames (phys s)"
    using alloc pmm.alloc_inv [OF pinv, of Page] pmm.alloc_frames_subset [OF pinv, of Page] pinv
    by (cases "physical = 0") auto
  then have "tree_inv s'"
    using tree_inv_extend [OF inv upd] p(2) by (simp add: table_path_snoc)
  moreover have "pt4 s' = pt4 s" by (subst s') simp
  ultimately show ?thesis using upd alloc by blast
qed

lemma check_page_present:
  assumes inv: "tree_inv s" and p: "table_path p" "length p = 3" "walks s p = Some t"
    and i: "unat i < 512" and f: "good_flags f" and hit: "walks s (p @ [i]) \<noteq> None"
  shows "fst (check_page t i physical f s) = physical \<and>
    (let s' = snd (check_page t i physical f s)
     in tree_inv s' \<and> pt4 s' = pt4 s \<and> walks s' = walks s \<and> phys s' = phys s)"
proof -
  have w: "walk (pmem s) (pt4 s) p = Some t" using p by (simp add: walks_table)
  have pr: "present (entry s t i)"
    using hit p w i
    by (auto simp: walks_def table_path_def walk_snoc walk_step_def entry_def Let_def split: if_splits)
  define v where v: "v = (entry s t i AND NOT 0xfff) OR f OR NO_EXEC_BIT"
  have c: "check_page t i physical f s = (physical, set_entry t i v s)"
    using pr by (simp only: check_page_def v not_True_eq_False if_False)
  have keep: "v AND FRAME_MASK = entry s t i AND FRAME_MASK"
    unfolding v using f by (rule entry_keep_frame_simps(2))
  have pv: "present v" unfolding v using f by (rule present_or(2))
  have "walks (set_entry t i v s) = walks s"
    by (rule ext)
       (simp add: walks_def set_entry_def store_present_entry [OF inv p(1) w i pr pv keep])
  moreover from this have "tree_inv (set_entry t i v s)"
    by (rule tree_inv_keep [OF inv]) (use inv in \<open>auto simp: set_entry_def tree_inv_def\<close>)
  ultimately show ?thesis unfolding c by (simp add: set_entry_def)
qed

subsection \<open>All levels together\<close>

text \<open>
  \<open>grows n s s'\<close>: the tree of tables of \<open>s'\<close> extends that of \<open>s\<close> by at most \<open>n\<close> tables taken
  from the free frames, and no page translation changed.
\<close>

definition grows :: "nat \<Rightarrow> paging \<Rightarrow> paging \<Rightarrow> bool" where
  "grows n s s' \<longleftrightarrow> tree_inv s' \<and> pt4 s' = pt4 s \<and> (\<forall>q. length q = 4 \<longrightarrow> walks s' q = walks s q)
     \<and> walks s \<subseteq>\<^sub>m walks s'
     \<and> (\<exists>N. finite N \<and> card N \<le> n \<and> free_frames (phys s') = free_frames (phys s) - N)
     \<and> RESERVED_START (phys s') = RESERVED_START (phys s)"

lemma finite_free_frames [simp]: "finite (free_frames p)"
  by (simp add: free_frames_def)

lemma grows_trans: "grows n s t \<Longrightarrow> grows k t u \<Longrightarrow> grows (n + k) s u"
proof -
  assume g: "grows n s t" "grows k t u"
  obtain N K where N: "finite N" "card N \<le> n" "free_frames (phys t) = free_frames (phys s) - N"
    and K: "finite K" "card K \<le> k" "free_frames (phys u) = free_frames (phys t) - K"
    using g unfolding grows_def by blast
  have "finite (N \<union> K) \<and> card (N \<union> K) \<le> n + k
      \<and> free_frames (phys u) = free_frames (phys s) - (N \<union> K)"
    using N K card_Un_le [of N K] by auto
  then show ?thesis using g map_le_trans [of "walks s" "walks t" "walks u"] unfolding grows_def by metis
qed

lemma RESERVED_START_alloc:
  "pmm_allocate_page_table p = (a, p') \<Longrightarrow> RESERVED_START p' = RESERVED_START p"
  by (auto simp: pmm_allocate_page_table_def allocate_page_from_def allocate_loop_lowest split: option.splits)

lemma RESERVED_START_check_entry: "RESERVED_START (phys (check_entry t i f s)) = RESERVED_START (phys s)"
  by (auto simp: check_entry_def set_entry_def allocate_page_table_def RESERVED_START_alloc split: prod.splits)

lemma check_entry_grows:
  assumes "tree_inv s" "table_path p" "length p \<le> 2" "walks s p = Some t" "unat i < 512"
    and "good_flags f" "free_frames (phys s) \<noteq> {}"
  defines "s' \<equiv> check_entry t i f s"
  shows "grows 1 s s' \<and> walks s' (p @ [i]) = Some (next_table t i s')"
proof -
  note spec = check_entry_spec [OF assms(1-7), folded s'_def]
  have len: "length q = 4 \<Longrightarrow> q \<noteq> p @ [i]" for q using assms(3) by auto
  from spec consider
      n where "walks s (p @ [i]) = None" "walks s' = (walks s)(p @ [i] \<mapsto> n)"
        "free_frames (phys s') = free_frames (phys s) - {n}"
    | "walks s' = walks s" "phys s' = phys s"
    by blast
  then have "(\<forall>q. length q = 4 \<longrightarrow> walks s' q = walks s q) \<and> walks s \<subseteq>\<^sub>m walks s'
     \<and> (\<exists>N. finite N \<and> card N \<le> 1 \<and> free_frames (phys s') = free_frames (phys s) - N)"
  proof cases
    case (1 n)
    have "walks s \<subseteq>\<^sub>m (walks s)(p @ [i] \<mapsto> n)" using 1(1) by (auto simp: map_le_def)
    then have "walks s \<subseteq>\<^sub>m walks s'" by (simp only: 1(2))
    moreover have "finite {n} \<and> card {n} \<le> 1 \<and> free_frames (phys s') = free_frames (phys s) - {n}"
      using 1 by simp
    moreover have "\<forall>q. length q = 4 \<longrightarrow> walks s' q = walks s q" using len by (simp add: 1(2))
    ultimately show ?thesis by blast
  next
    case 2
    then have "finite {} \<and> card ({} :: u64 set) \<le> 1 \<and> free_frames (phys s') = free_frames (phys s) - {}"
      by simp
    then show ?thesis using 2(1) by (metis map_le_refl)
  qed
  then show ?thesis using spec RESERVED_START_check_entry by (simp add: grows_def s'_def)
qed

lemma grows_walks: "grows n s s' \<Longrightarrow> walks s q = Some t \<Longrightarrow> walks s' q = Some t"
  unfolding grows_def map_le_def by (metis domI)

lemma grows_free: "grows n s s' \<Longrightarrow> n < card (free_frames (phys s)) \<Longrightarrow> free_frames (phys s') \<noteq> {}"
proof -
  assume "grows n s s'" "n < card (free_frames (phys s))"
  then obtain N where N: "finite N" "card N \<le> n" "free_frames (phys s') = free_frames (phys s) - N"
    unfolding grows_def by blast
  have "\<not> free_frames (phys s) \<subseteq> N"
    using card_mono [OF N(1), of "free_frames (phys s)"] N(2) \<open>n < card (free_frames (phys s))\<close>
    by linarith
  then show ?thesis by (simp only: N(3) Diff_eq_empty_iff not_False_eq_True)
qed

text \<open>The states after the P4, P3 and P2 blocks of \<open>vmm_map_memory\<close>, and the page table found.\<close>

definition tables_for :: "u64 \<Rightarrow> u64 \<Rightarrow> paging \<Rightarrow> u64 \<times> paging" where
  "tables_for v f s0 =
     (let s1 = check_entry (pt4 s0) (pt4_index v) f s0;
          pt3 = next_table (pt4 s1) (pt4_index v) s1;
          s2 = check_entry pt3 (pt3_index v) f s1;
          pt2 = next_table pt3 (pt3_index v) s2;
          s3 = check_entry pt2 (pt2_index v) f s2
      in (next_table pt2 (pt2_index v) s3, s3))"

lemma vmm_map_memory_alt:
  "vmm_map_memory physical v f s =
     (let (page_table, s3) = tables_for v f (disable_interrupts s);
          (physical', s4) = check_page page_table (page_index v) physical f s3;
          s5 = flush_tlb physical' s4
      in if intr s then enable_interrupts s5 else s5)"
  by (simp only: vmm_map_memory_def tables_for_def Let_def are_interrupts_enabled_def case_prod_conv)

lemma tables_for_grows:
  assumes "tree_inv s" "good_flags f" "3 \<le> card (free_frames (phys s))"
    and t: "tables_for v f s = (page_table, s')"
  shows "grows 3 s s' \<and> walks s' [pt4_index v, pt3_index v, pt2_index v] = Some page_table"
proof -
  define s1 where "s1 = check_entry (pt4 s) (pt4_index v) f s"
  define pt3 where "pt3 = next_table (pt4 s1) (pt4_index v) s1"
  define s2 where "s2 = check_entry pt3 (pt3_index v) f s1"
  define pt2 where "pt2 = next_table pt3 (pt3_index v) s2"
  have s': "s' = check_entry pt2 (pt2_index v) f s2" "page_table = next_table pt2 (pt2_index v) s'"
    using t unfolding tables_for_def Let_def s1_def [symmetric] pt3_def [symmetric]
      s2_def [symmetric] pt2_def [symmetric] by auto
  have root: "walks s [] = Some (pt4 s)" by (simp add: walks_def idx_ok_def)
  have "free_frames (phys s) \<noteq> {}" using assms(3) by auto
  then have 1: "grows 1 s s1" "walks s1 [pt4_index v] = Some pt3"
    using check_entry_grows [OF assms(1) _ _ root _ assms(2), of "pt4_index v"]
    by (auto simp: table_path_def idx_ok_def s1_def [symmetric] pt3_def grows_def)
  have "tree_inv s1" "free_frames (phys s1) \<noteq> {}"
    using 1(1) grows_free [OF 1(1)] assms(3) by (auto simp: grows_def)
  then have 2: "grows 1 s1 s2" "walks s2 [pt4_index v, pt3_index v] = Some pt2"
    using check_entry_grows [of s1 "[pt4_index v]" pt3 "pt3_index v" f] 1(2) assms(2)
    by (auto simp: table_path_def idx_ok_def s2_def [symmetric] pt2_def)
  have g2: "grows 2 s s2" using grows_trans [OF 1(1) 2(1)] by (simp add: numeral_2_eq_2)
  have "tree_inv s2" "free_frames (phys s2) \<noteq> {}"
    using g2 grows_free [OF g2] assms(3) by (auto simp: grows_def)
  then have 3: "grows 1 s2 s'" "walks s' [pt4_index v, pt3_index v, pt2_index v] = Some page_table"
    using check_entry_grows [of s2 "[pt4_index v, pt3_index v]" pt2 "pt2_index v" f] 2(2) assms(2)
    by (auto simp: table_path_def idx_ok_def s'(1) [symmetric] s'(2))
  show ?thesis using grows_trans [OF g2 3(1)] 3(2) by (simp add: numeral_3_eq_3)
qed

lemma walks_frame [simp]:
  "walks (s\<lparr>intr := b\<rparr>) = walks s" "walks (s\<lparr>invlpg := xs\<rparr>) = walks s"
  by (rule ext, simp add: walks_def)+

lemma tree_inv_frame [simp]:
  "tree_inv (s\<lparr>intr := b\<rparr>) = tree_inv s" "tree_inv (s\<lparr>invlpg := xs\<rparr>) = tree_inv s"
  by (simp_all add: tree_inv_walks)

lemma indices_split: "indices v = [pt4_index v, pt3_index v, pt2_index v] @ [page_index v]"
  by (simp add: indices_def)

lemma table_path_prefix: "table_path [pt4_index v, pt3_index v, pt2_index v]"
  by (simp add: table_path_def idx_ok_def)

lemma intr_check_entry: "intr (check_entry t i f s) = intr s"
  by (auto simp: check_entry_def set_entry_def allocate_page_table_def split: prod.splits)

lemma intr_check_page: "check_page t i a f s = (b, s') \<Longrightarrow> intr s' = intr s"
  by (auto simp: check_page_def set_entry_def split: if_splits prod.splits)

lemma intr_vmm_map_memory: "intr (vmm_map_memory a v f s) = intr s"
  by (auto simp: vmm_map_memory_alt tables_for_def Let_def intr_check_entry flush_tlb_def
      enable_interrupts_def disable_interrupts_def dest: intr_check_page split: prod.splits)

text \<open>What \<open>vmm_map_memory\<close> does to the walks, whichever way the page entry is found.\<close>

lemma vmm_map_memory_walks:
  assumes inv: "tree_inv s" and f: "good_flags f" and free: "3 \<le> card (free_frames (phys s))"
  obtains s3 page_table where "grows 3 s s3"
    "walks s3 [pt4_index v, pt3_index v, pt2_index v] = Some page_table"
    "walks (vmm_map_memory physical v f s) = walks (snd (check_page page_table (page_index v) physical f s3))"
    "tree_inv (vmm_map_memory physical v f s) = tree_inv (snd (check_page page_table (page_index v) physical f s3))"
    "phys (vmm_map_memory physical v f s) = phys (snd (check_page page_table (page_index v) physical f s3))"
proof -
  obtain page_table s3 where t: "tables_for v f (disable_interrupts s) = (page_table, s3)"
    by (cases "tables_for v f (disable_interrupts s)")
  obtain a s4 where c: "check_page page_table (page_index v) physical f s3 = (a, s4)"
    by (cases "check_page page_table (page_index v) physical f s3")
  have "grows 3 (disable_interrupts s) s3 \<and>
      walks s3 [pt4_index v, pt3_index v, pt2_index v] = Some page_table"
    using inv free by (intro tables_for_grows [OF _ f _ t]) (simp_all add: disable_interrupts_def)
  then have "grows 3 s s3" "walks s3 [pt4_index v, pt3_index v, pt2_index v] = Some page_table"
    by (auto simp: grows_def disable_interrupts_def)
  moreover have "vmm_map_memory physical v f s
      = (let s5 = flush_tlb a s4 in if intr s then enable_interrupts s5 else s5)"
    by (simp only: vmm_map_memory_alt t c Let_def case_prod_conv)
  ultimately show ?thesis
    using that [of s3 page_table] c by (simp add: flush_tlb_def enable_interrupts_def Let_def)
qed

text \<open>At most \<open>n\<close> frames leave the free set.\<close>

definition takes :: "nat \<Rightarrow> pmm \<Rightarrow> pmm \<Rightarrow> bool" where
  "takes n p p' \<longleftrightarrow> (\<exists>N. finite N \<and> card N \<le> n \<and> free_frames p' = free_frames p - N)
     \<and> RESERVED_START p' = RESERVED_START p"

lemma takes_mono: "takes n p p' \<Longrightarrow> n \<le> k \<Longrightarrow> takes k p p'"
  unfolding takes_def by (meson order_trans)

lemma takes_trans:
  assumes "takes n p q" "takes k q r"
  shows "takes (n + k) p r"
proof -
  obtain N K where N: "finite N" "card N \<le> n" "free_frames q = free_frames p - N"
    and K: "finite K" "card K \<le> k" "free_frames r = free_frames q - K"
    using assms unfolding takes_def by blast
  have "finite (N \<union> K) \<and> card (N \<union> K) \<le> n + k \<and> free_frames r = free_frames p - (N \<union> K)"
    using N K card_Un_le [of N K] by auto
  then show ?thesis using assms unfolding takes_def by metis
qed

lemma takes_card:
  assumes "takes n p p'"
  shows "card {a \<in> free_frames p. P a} \<le> card {a \<in> free_frames p'. P a} + n"
proof -
  obtain N where N: "finite N" "card N \<le> n" "free_frames p' = free_frames p - N"
    using assms unfolding takes_def by blast
  have "{a \<in> free_frames p. P a} \<subseteq> {a \<in> free_frames p'. P a} \<union> N" using N(3) by auto
  then have "card {a \<in> free_frames p. P a} \<le> card ({a \<in> free_frames p'. P a} \<union> N)"
    using N(1) by (intro card_mono) simp_all
  also have "\<dots> \<le> card {a \<in> free_frames p'. P a} + card N" by (rule card_Un_le)
  finally show ?thesis using N(2) by linarith
qed

lemma grows_takes: "grows n s s' \<Longrightarrow> takes n (phys s) (phys s')"
  by (simp add: grows_def takes_def)

text \<open>A data page can be had as long as a free frame lies at or above \<open>MEM_START\<close>.\<close>

lemma allocate_page_some:
  assumes "pmm_inv p" "RESERVED_START p \<le> MEM_START" "b \<in> free_frames p" "MEM_START \<le> b"
  obtains a p' where "pmm_allocate_page p = (a, p')" "a \<in> free_frames p" "a \<noteq> NULL"
    "free_frames p' = free_frames p - {a}" "pmm_inv p'" "takes 1 p p'"
proof -
  obtain a p' where a: "pmm_allocate_page p = (a, p')" by (cases "pmm_allocate_page p")
  obtain k where k: "b = page_addr p k" "k \<in> free_indices p" "k < 64 * PAGES"
    using assms(3) by (auto simp: free_frames_def free_indices_def page_free_def)
  have "unat MEM_START \<le> unat (RESERVED_START p) + 4096 * k"
    using assms(4) unat_page_addr [OF assms(1) k(3)] k(1) by (simp add: word_le_nat_alt)
  then have "(unat MEM_START - unat (RESERVED_START p)) div 4096 \<le> k"
    using div_le_mono [of "unat MEM_START - unat (RESERVED_START p)" "4096 * k" 4096] by simp
  then have "64 * start_word MEM_START p \<le> k"
    unfolding start_word_mem [OF assms(2)] by (meson div_times_less_eq_dividend mult.commute order_trans times_div_less_eq_dividend)
  then have "\<exists>k \<in> free_indices p. 64 * start_word MEM_START p \<le> k" using k(2) by blast
  then obtain j where j: "lowest_free (free_indices p) (64 * start_word MEM_START p) = Some j"
    by (simp only: lowest_free_def if_True)
  then have aj: "a = page_addr p j" "p' = clear_page j p"
    using a by (simp_all add: pmm_allocate_page_def allocate_page_from_def allocate_loop_lowest)
  moreover have "page_addr p j \<in> free_frames p"
    using lowest_free_SomeD(1) [OF j] by (simp add: free_frames_def)
  ultimately have af: "a \<in> free_frames p" by simp
  have nn: "a \<noteq> NULL" using free_frames_props(2) [OF assms(1) af] .
  have fr: "free_frames p' = free_frames p - {a}" "pmm_inv p'"
    using pmm.alloc_some [OF assms(1), of Page a p'] a nn by simp_all
  have "finite {a} \<and> card {a} \<le> 1 \<and> free_frames p' = free_frames p - {a}" using fr(1) by simp
  then have "takes 1 p p'" unfolding takes_def using aj(2) by (metis clear_page_simps(1))
  then show ?thesis using that a af nn fr by blast
qed

text \<open>
  The frame argument of \<open>vmm_map_memory\<close>: a page-aligned address, or zero when a fresh frame is
  wanted; then one must be available above \<open>MEM_START\<close> beyond the three a table may take.
\<close>

definition frame_request :: "paging \<Rightarrow> u64 \<Rightarrow> bool" where
  "frame_request s physical \<longleftrightarrow>
     (if physical = 0
      then RESERVED_START (phys s) \<le> MEM_START \<and> 4 \<le> card {a \<in> free_frames (phys s). MEM_START \<le> a}
      else page_aligned physical \<and> unat physical < 2 ^ 52)"

lemma vmm_map_memory_new:
  assumes "tree_inv s" "good_flags flags" "3 \<le> card (free_frames (phys s))"
    and "translate s v = None" and req: "frame_request s physical"
  defines "s' \<equiv> vmm_map_memory physical v flags s"
  shows "\<exists>a. (if physical = 0 then a \<in> free_frames (phys s) \<and> a \<notin> free_frames (phys s') else a = physical)
    \<and> (\<forall>w. translate s' w = (if indices w = indices v then Some a else translate s w))
    \<and> tree_inv s' \<and> takes 4 (phys s) (phys s')"
proof -
  obtain s3 t where g: "grows 3 s s3"
    and t: "walks s3 [pt4_index v, pt3_index v, pt2_index v] = Some t"
    and w: "walks s' = walks (snd (check_page t (page_index v) physical flags s3))"
    and i: "tree_inv s' = tree_inv (snd (check_page t (page_index v) physical flags s3))"
    and ph: "phys s' = phys (snd (check_page t (page_index v) physical flags s3))"
    using vmm_map_memory_walks [OF assms(1-3)] unfolding s'_def .
  have inv3: "tree_inv s3" using g by (simp add: grows_def)
  have same: "walks s3 (indices u) = translate s u" for u
    using g by (simp add: grows_def translate_walks indices_def)
  obtain a s4 where c: "check_page t (page_index v) physical flags s3 = (a, s4)"
    by (cases "check_page t (page_index v) physical flags s3")
  have miss: "walks s3 ([pt4_index v, pt3_index v, pt2_index v] @ [page_index v]) = None"
    using same [of v] assms(4) by (simp add: indices_split)
  have np: "\<not> present (entry s3 t (page_index v))"
    using miss t by (auto simp: walks_def idx_ok_def walk_step_def entry_def split: option.splits if_splits)
  have a: "page_aligned a \<and> unat a < 2 ^ 52
      \<and> (if physical = 0 then a \<in> free_frames (phys s) \<and> a \<notin> free_frames (phys s4) else a = physical)
      \<and> takes 1 (phys s3) (phys s4)"
  proof (cases "physical = 0")
    case False
    then have "a = physical" "phys s4 = phys s3"
      using c np by (auto simp: check_page_def set_entry_def split: if_splits)
    moreover have "takes 1 (phys s3) (phys s3)" unfolding takes_def by (intro conjI exI [of _ "{}"]) simp_all
    ultimately show ?thesis using False req by (simp add: frame_request_def)
  next
    case True
    have pinv: "pmm_inv (phys s3)" using inv3 by (simp add: tree_inv_def)
    have "4 \<le> card {a \<in> free_frames (phys s3). MEM_START \<le> a} + 3"
      using takes_card [OF grows_takes [OF g], of "\<lambda>a. MEM_START \<le> a"] req True
      by (simp add: frame_request_def)
    then have "{a \<in> free_frames (phys s3). MEM_START \<le> a} \<noteq> {}" by (intro notI) simp
    then obtain b where b: "b \<in> free_frames (phys s3)" "MEM_START \<le> b" by blast
    have "RESERVED_START (phys s3) \<le> MEM_START"
      using g req True by (simp add: grows_def frame_request_def)
    then obtain a' p' where a': "pmm_allocate_page (phys s3) = (a', p')" "a' \<in> free_frames (phys s3)"
      "free_frames p' = free_frames (phys s3) - {a'}" "takes 1 (phys s3) p'"
      using allocate_page_some [OF pinv _ b] by metis
    have eq: "a = a'" "phys s4 = p'"
      using c np True a'(1) by (auto simp: check_page_def set_entry_def)
    have "free_frames (phys s3) \<subseteq> free_frames (phys s)" using g by (auto simp: grows_def)
    then have "a \<in> free_frames (phys s)" using a'(2) eq by blast
    moreover have "page_aligned a" "unat a < 2 ^ 40"
      using free_frames_props [OF pinv] a'(2) eq by blast+
    ultimately show ?thesis using True eq a' by simp
  qed
  then have "tree_inv s4 \<and> walks s4 = (walks s3)(indices v \<mapsto> a)"
    using check_page_missing [OF inv3 table_path_prefix _ t _ assms(2) miss c]
    by (simp add: indices_split)
  moreover have "takes 4 (phys s) (phys s4)"
    using takes_trans [OF grows_takes [OF g], of 1 "phys s4"] a by simp
  ultimately show ?thesis
    using w i ph c same a by (intro exI [of _ a]) (auto simp: translate_walks [of s'])
qed

lemma vmm_map_memory_old:
  fixes physical :: u64
  assumes "tree_inv s" "good_flags flags" "3 \<le> card (free_frames (phys s))"
    and "translate s v \<noteq> None"
  defines "s' \<equiv> vmm_map_memory physical v flags s"
  shows "(\<forall>w. translate s' w = translate s w) \<and> tree_inv s' \<and> takes 3 (phys s) (phys s')"
proof -
  obtain s3 t where g: "grows 3 s s3"
    and t: "walks s3 [pt4_index v, pt3_index v, pt2_index v] = Some t"
    and w: "walks s' = walks (snd (check_page t (page_index v) physical flags s3))"
    and i: "tree_inv s' = tree_inv (snd (check_page t (page_index v) physical flags s3))"
    and ph: "phys s' = phys (snd (check_page t (page_index v) physical flags s3))"
    using vmm_map_memory_walks [OF assms(1-3)] unfolding s'_def .
  have same: "walks s3 (indices u) = translate s u" for u
    using g by (simp add: grows_def translate_walks indices_def)
  have "walks s3 ([pt4_index v, pt3_index v, pt2_index v] @ [page_index v]) \<noteq> None"
    using same [of v] assms(4) by (simp add: indices_split)
  then show ?thesis
    using check_page_present [OF _ table_path_prefix _ t _ assms(2), of "page_index v" physical] g
      grows_takes [OF g] w i ph same
    by (simp add: grows_def Let_def translate_walks [of s'])
qed

section \<open>An empty address space\<close>

text \<open>
  A concrete state the statements below are instantiated at: an empty root table at
  \<open>0x1000\<close> and the physical manager as it is after start-up with the image ending at 1 MiB.
\<close>

definition blank_paging :: paging where
  "blank_paging = \<lparr>phys = pmm_boot, pt4 = 0x1000, pmem = (\<lambda>_. 0), intr = True, invlpg = []\<rparr>"

lemma load64_blank [simp]: "load64 (\<lambda>_. 0) a = 0"
proof -
  have "load_le n (\<lambda>_. 0) a = 0" for n by (induction n arbitrary: a) simp_all
  then show ?thesis by (simp add: load64_def)
qed

lemma walk_blank: "walk (\<lambda>_. 0) t p = (if p = [] then Some t else None)"
  by (cases p) (simp_all add: walk_step_def present_def)

lemma free_frames_boot: "free_frames pmm_boot = page_addr pmm_boot ` {..<64 * PAGES}"
  by (simp add: free_frames_def pmm_boot_def free_indices_init)

lemma RESERVED_START_boot [simp]: "RESERVED_START pmm_boot = 0x100000"
  by (simp add: pmm_boot_def pmm_init_def)

lemma tree_inv_blank: "tree_inv blank_paging"
proof -
  have "0x1000 \<notin> free_frames pmm_boot"
    using free_frames_props(4) [OF pmm_inv_boot, of "0x1000"] by auto
  then show ?thesis
    by (simp add: tree_inv_def blank_paging_def pmm_inv_boot walk_blank page_aligned_def)
qed

lemma translate_blank [simp]: "translate blank_paging v = None"
  by (simp add: translate_def blank_paging_def walk_blank indices_def)

lemma blank_free_high: "100 \<le> card {a \<in> free_frames (phys blank_paging). MEM_START \<le> a}"
proof -
  let ?K = "{256..<356 :: nat}"
  have sub: "?K \<subseteq> {..<64 * PAGES}" by (auto simp: PAGES_def)
  have "MEM_START \<le> page_addr pmm_boot k" if "k \<in> ?K" for k
    using unat_page_addr [OF pmm_inv_boot, of k] that by (simp add: word_le_nat_alt MEM_START_def PAGES_def)
  then have "page_addr pmm_boot ` ?K \<subseteq> {a \<in> free_frames (phys blank_paging). MEM_START \<le> a}"
    using sub by (auto simp: blank_paging_def free_frames_boot)
  then have "card (page_addr pmm_boot ` ?K) \<le> card {a \<in> free_frames (phys blank_paging). MEM_START \<le> a}"
    by (intro card_mono) auto
  moreover have "card (page_addr pmm_boot ` ?K) = card ?K"
    using inj_on_subset [OF page_addr_inj [OF pmm_inv_boot] sub] by (rule card_image)
  ultimately show ?thesis by simp
qed

lemma blank_free: "100 \<le> card (free_frames (phys blank_paging))"
proof -
  have "card {a \<in> free_frames (phys blank_paging). MEM_START \<le> a} \<le> card (free_frames (phys blank_paging))"
    by (rule card_mono) auto
  then show ?thesis using blank_free_high by linarith
qed

lemma good_flags_small: "good_flags 3" "good_flags 7"
proof -
  show "good_flags 3" by (simp add: good_flags_def present_def PRESENT_BIT_def)
  show "good_flags 7" by (simp add: good_flags_def present_def PRESENT_BIT_def)
qed

text \<open>The same space after the page at 2 MiB has been mapped for the user.\<close>

definition user_page_paging :: paging where
  "user_page_paging = vmm_map_memory 0x300000 0x200000 7 blank_paging"

lemma user_page_paging:
  "tree_inv user_page_paging" "translate user_page_paging 0x200000 = Some 0x300000"
  "96 \<le> card (free_frames (phys user_page_paging))"
proof -
  have "frame_request blank_paging 0x300000" by (simp add: frame_request_def page_aligned_def)
  moreover have "3 \<le> card (free_frames (phys blank_paging))" using blank_free by linarith
  ultimately have *: "translate user_page_paging 0x200000 = Some 0x300000 \<and> tree_inv user_page_paging
      \<and> takes 4 (phys blank_paging) (phys user_page_paging)"
    unfolding user_page_paging_def
    using vmm_map_memory_new [OF tree_inv_blank good_flags_small(2), of "0x200000" "0x300000"] by auto
  then obtain N where N: "finite N" "card N \<le> 4"
    "free_frames (phys user_page_paging) = free_frames (phys blank_paging) - N"
    unfolding takes_def by blast
  have "card (free_frames (phys blank_paging)) - card N \<le> card (free_frames (phys user_page_paging))"
    unfolding N(3) using N(1) by (rule diff_card_le_card_Diff)
  then show "96 \<le> card (free_frames (phys user_page_paging))" using N(2) blank_free by linarith
  show "tree_inv user_page_paging" "translate user_page_paging 0x200000 = Some 0x300000"
    using * by blast+
qed

section \<open>Properties\<close>

text \<open>
  C1: mapping an unmapped virtual page to a given frame makes the processor translate that page
  to that frame, leaves the translation of every other page as it was, and keeps the tables a
  tree (so the next mapping works too); interrupts are restored to their previous state.
\<close>

theorem vmm_map_memory_maps:
  assumes "tree_inv s" "good_flags flags" "3 \<le> card (free_frames (phys s))"
    and "translate s v = None"
    and "page_aligned physical" "physical \<noteq> 0" "unat physical < 2 ^ 52"
  shows "let s' = vmm_map_memory physical v flags s
    in translate s' v = Some physical
     \<and> (\<forall>w. indices w \<noteq> indices v \<longrightarrow> translate s' w = translate s w)
     \<and> tree_inv s' \<and> intr s' = intr s"
  using vmm_map_memory_new [OF assms(1-4), of physical] assms(5-7)
  by (auto simp: Let_def intr_vmm_map_memory frame_request_def split: if_splits)

theorem vmm_map_memory_maps_witness:
  "translate (vmm_map_memory 0xfd000000 0x200000 3 blank_paging) 0x200000 = Some 0xfd000000"
proof -
  have "3 \<le> card (free_frames (phys blank_paging))" using blank_free by linarith
  then show ?thesis
    using vmm_map_memory_maps [OF tree_inv_blank good_flags_small(1) _ translate_blank,
        of "0xfd000000" "0x200000"]
    by (simp add: page_aligned_def Let_def)
qed

text \<open>
  a page that is already mapped keeps its frame whatever physical address is asked for:
  no translation changes at all. In particular pages that were freed (they are never unmapped)
  and are handed out again for the framebuffer still show their old memory.
\<close>

theorem vmm_map_memory_mapped_keeps_frame:
  assumes "tree_inv s" "good_flags flags" "3 \<le> card (free_frames (phys s))"
    and "translate s v \<noteq> None"
  shows "\<forall>w. translate (vmm_map_memory physical v flags s) w = translate s w"
  using vmm_map_memory_old [OF assms] by blast

text \<open>
  with no frame given (\<open>physical = 0\<close>) the page is mapped to a frame that was free and is
  free no more; everything else translates as before.
\<close>

theorem vmm_map_memory_fresh:
  assumes "tree_inv s" "good_flags flags" "translate s v = None"
    and "RESERVED_START (phys s) \<le> MEM_START" "4 \<le> card {a \<in> free_frames (phys s). MEM_START \<le> a}"
  shows "\<exists>a \<in> free_frames (phys s). let s' = vmm_map_memory 0 v flags s
    in translate s' v = Some a \<and> a \<notin> free_frames (phys s')
     \<and> (\<forall>w. indices w \<noteq> indices v \<longrightarrow> translate s' w = translate s w)"
proof -
  have "card {a \<in> free_frames (phys s). MEM_START \<le> a} \<le> card (free_frames (phys s))"
    by (rule card_mono) auto
  then have "3 \<le> card (free_frames (phys s))" using assms(5) by linarith
  then show ?thesis
    using vmm_map_memory_new [OF assms(1,2) _ assms(3), of 0] assms(4,5)
    by (auto simp: frame_request_def Let_def)
qed

end
