(* ===== verification/Permissions.thy ===== *)
theory Permissions
  imports Paging "HOL-Library.Monad_Syntax"
begin

text \<open>
  Access rights of pages (memory/VMM.c, end): what one call of \<open>set_page_permission\<close> leaves in
  the page entry and in the directory entries above it, the section loops of
  \<open>vmm_set_page_permissions\<close>, and how mapping a kernel page affects the rights of user pages.
\<close>

section \<open>Entries on the way to a page\<close>

text \<open>
  The processor grants user access only when every entry on the walk has the user bit.
  \<open>leaf\<close> is the page table entry itself, the end of the walk.
\<close>

primrec walk_entries :: "memory \<Rightarrow> u64 \<Rightarrow> u64 list \<Rightarrow> u64 list" where
  "walk_entries m t [] = []"
| "walk_entries m t (i # is) =
     (let e = load64 m (t + 8 * i) in e # (if present e then walk_entries m (e AND FRAME_MASK) is else []))"

definition user_accessible :: "paging \<Rightarrow> u64 \<Rightarrow> bool" where
  "user_accessible s v \<longleftrightarrow>
     (let es = walk_entries (pmem s) (pt4 s) (indices v)
      in length es = 4 \<and> (\<forall>e \<in> set es. present e \<and> e AND USER_ACCESS_BIT \<noteq> 0))"

definition leaf :: "paging \<Rightarrow> u64 list \<Rightarrow> u64 option" where
  "leaf s q = (case walks s (butlast q) of None \<Rightarrow> None | Some t \<Rightarrow> Some (entry s t (last q)))"

lemma user_bit: "e AND USER_ACCESS_BIT \<noteq> 0 \<longleftrightarrow> bit e 2"
proof -
  have "USER_ACCESS_BIT = push_bit 2 1" by (simp add: USER_ACCESS_BIT_def)
  then show ?thesis by (simp add: bit_iff_and_push_bit_not_eq_0)
qed

lemma user_accessible_root:
  "user_accessible s v \<Longrightarrow> bit (entry s (pt4 s) (pt4_index v)) 2"
  by (simp add: user_accessible_def indices_def entry_def Let_def user_bit)

text \<open>Storing an entry of one table leaves the entries of all tables but that one.\<close>

lemma entry_set_entry:
  assumes "tree_inv s" "table_path p" "walks s p = Some t" "unat i < 512"
    and "table_path q" "walks s q = Some u" "unat j < 512"
  shows "entry (set_entry t i x s) u j = (if (q, j) = (p, i) then x else entry s u j)"
proof (cases "t = u \<and> i = j")
  case True
  then have "q = p" using tree_inv_inj [OF assms(1) assms(2,5)] assms(3,6) assms(2,5)
    by (simp add: walks_table)
  then show ?thesis using True by (simp add: entry_def set_entry_def)
next
  case False
  have al: "page_aligned t" "page_aligned u"
    using tree_inv_table(1) [OF assms(1)] assms(2,3,5,6) by (simp_all add: walks_table)
  have "(q, j) \<noteq> (p, i)" using False assms(3,6) by auto
  moreover have "apart (t + 8 * i) 8 (u + 8 * j) 8" using False by (intro entries_apart al assms) auto
  ultimately show ?thesis by (auto simp: entry_def set_entry_def load64_store64_apart)
qed

lemma entry_check_entry_other:
  assumes "tree_inv s" "table_path p" "walks s p = Some t" "unat i < 512"
    and "table_path q" "walks s q = Some u" "unat j < 512" "(q, j) \<noteq> (p, i)"
    and "free_frames (phys s) \<noteq> {}"
  shows "entry (check_entry t i f s) u j = entry s u j"
proof (cases "present (entry s t i)")
  case True
  then show ?thesis using entry_set_entry [OF assms(1-7)] assms(8) by (auto simp: check_entry_def)
next
  case False
  have pinv: "pmm_inv (phys s)" using assms(1) by (simp add: tree_inv_def)
  obtain n ph where n: "pmm_allocate_page_table (phys s) = (n, ph)" "n \<in> free_frames (phys s)"
    using allocate_table_some [OF pinv assms(9)] by metis
  have al: "page_aligned t" "page_aligned u" "u \<notin> free_frames (phys s)"
    using tree_inv_table [OF assms(1)] assms(2,3,5,6) by (simp_all add: walks_table)
  have "t \<noteq> u \<or> i \<noteq> j"
    using tree_inv_inj [OF assms(1) assms(2,5)] assms(2,3,5,6,8) by (auto simp: walks_table)
  then have "apart (t + 8 * i) 8 (u + 8 * j) 8" by (intro entries_apart al assms) auto
  moreover have "load64 (kmemset (pmem s) n 0 PAGE_SIZE) (u + 8 * j) = load64 (pmem s) (u + 8 * j)"
    using load64_kmemset_page [OF al(2) free_frames_props(1) [OF pinv n(2)] assms(7)] al(3) n(2) by auto
  ultimately show ?thesis
    using False n(1)
    by (simp add: check_entry_def allocate_page_table_def set_entry_def entry_def load64_store64_apart)
qed

lemma entry_check_entry_same:
  assumes "tree_inv s" "free_frames (phys s) \<noteq> {}" "good_flags f" "n < 12"
  shows "bit (entry (check_entry t i f s) t i) n = bit f n"
proof (cases "present (entry s t i)")
  case True
  have "bit ((entry s t i AND NOT 0xfff) OR f) n = bit f n"
    using assms(4) by (simp only: low12_mask) (auto simp: bit_simps)
  then show ?thesis using True by (simp only: check_entry_def entry_def set_entry_def) simp
next
  case False
  have pinv: "pmm_inv (phys s)" using assms(1) by (simp add: tree_inv_def)
  obtain a ph where a: "pmm_allocate_page_table (phys s) = (a, ph)" "a \<in> free_frames (phys s)"
    using allocate_table_some [OF pinv assms(2)] by metis
  have "\<not> bit a n" using page_aligned_bit [OF free_frames_props(1) [OF pinv a(2)] assms(4)] .
  then show ?thesis
    using False a(1)
    by (simp add: check_entry_def allocate_page_table_def set_entry_def entry_def bit_or_iff)
qed

section \<open>Mapping a page sets the directory flags\<close>

lemma root_path: "table_path []" "walks s [] = Some (pt4 s)"
  by (simp_all add: table_path_def idx_ok_def walks_def)

lemma entry_check_page_other:
  assumes "tree_inv s" "table_path p" "walks s p = Some t" "unat i < 512"
    and "table_path q" "walks s q = Some u" "unat j < 512" "(q, j) \<noteq> (p, i)"
    and "check_page t i a f s = (b, s')"
  shows "entry s' u j = entry s u j"
proof -
  obtain x where "pmem s' = store64 (pmem s) (t + 8 * i) x"
    using assms(9) by (auto simp: check_page_def set_entry_def split: if_splits prod.splits)
  then have "entry s' u j = entry (set_entry t i x s) u j" by (simp add: entry_def set_entry_def)
  then show ?thesis using entry_set_entry [OF assms(1-7)] assms(8) by auto
qed

lemma vmm_map_memory_root_flags:
  assumes inv: "tree_inv s" and f: "good_flags f" and free: "3 \<le> card (free_frames (phys s))"
    and n: "n < 12"
  shows "bit (entry (vmm_map_memory a v f s) (pt4 s) (pt4_index v)) n = bit f n"
proof -
  define s0 where "s0 = disable_interrupts s"
  define s1 where "s1 = check_entry (pt4 s0) (pt4_index v) f s0"
  define pt3 where "pt3 = next_table (pt4 s1) (pt4_index v) s1"
  define s2 where "s2 = check_entry pt3 (pt3_index v) f s1"
  define pt2 where "pt2 = next_table pt3 (pt3_index v) s2"
  define s3 where "s3 = check_entry pt2 (pt2_index v) f s2"
  define pt1 where "pt1 = next_table pt2 (pt2_index v) s3"
  obtain b s4 where s4: "check_page pt1 (page_index v) a f s3 = (b, s4)"
    by (cases "check_page pt1 (page_index v) a f s3")
  have inv0: "tree_inv s0" and free0: "3 \<le> card (free_frames (phys s0))" and r0: "pt4 s0 = pt4 s"
    using inv free by (simp_all add: s0_def disable_interrupts_def)
  have ne0: "free_frames (phys s0) \<noteq> {}" using free0 by auto
  have 1: "grows 1 s0 s1" "walks s1 [pt4_index v] = Some pt3"
    using check_entry_grows [OF inv0 root_path(1) _ root_path(2) _ f ne0, of "pt4_index v"]
    by (auto simp: s1_def [symmetric] pt3_def grows_def)
  have inv1: "tree_inv s1" and r1: "pt4 s1 = pt4 s" and ne1: "free_frames (phys s1) \<noteq> {}"
    using 1 r0 grows_free [OF 1(1)] free0 by (auto simp: grows_def)
  have 2: "grows 1 s1 s2" "walks s2 [pt4_index v, pt3_index v] = Some pt2"
    using check_entry_grows [OF inv1, of "[pt4_index v]" pt3 "pt3_index v" f] 1(2) f ne1
    by (auto simp: table_path_def idx_ok_def s2_def [symmetric] pt2_def)
  have g2: "grows 2 s0 s2" using grows_trans [OF 1(1) 2(1)] by (simp add: numeral_2_eq_2)
  have inv2: "tree_inv s2" and r2: "pt4 s2 = pt4 s" and ne2: "free_frames (phys s2) \<noteq> {}"
    using g2 r0 grows_free [OF g2] free0 by (auto simp: grows_def)
  have 3: "grows 1 s2 s3" "walks s3 [pt4_index v, pt3_index v, pt2_index v] = Some pt1"
    using check_entry_grows [OF inv2, of "[pt4_index v, pt3_index v]" pt2 "pt2_index v" f] 2(2) f ne2
    by (auto simp: table_path_def idx_ok_def s3_def [symmetric] pt1_def)
  have inv3: "tree_inv s3" and r3: "pt4 s3 = pt4 s" using 3 r2 by (auto simp: grows_def)
  have "bit (entry s1 (pt4 s) (pt4_index v)) n = bit f n"
    using entry_check_entry_same [OF inv0 ne0 f n] by (simp add: s1_def r0)
  moreover have "entry s2 (pt4 s) (pt4_index v) = entry s1 (pt4 s) (pt4_index v)"
    unfolding s2_def
    by (rule entry_check_entry_other [OF inv1 _ 1(2) _ root_path(1) _ _ _ ne1])
       (auto simp: table_path_def idx_ok_def root_path(2) r1)
  moreover have "entry s3 (pt4 s) (pt4_index v) = entry s2 (pt4 s) (pt4_index v)"
    unfolding s3_def
    by (rule entry_check_entry_other [OF inv2 _ 2(2) _ root_path(1) _ _ _ ne2])
       (auto simp: table_path_def idx_ok_def root_path(2) r2)
  moreover have "entry s4 (pt4 s) (pt4_index v) = entry s3 (pt4 s) (pt4_index v)"
    by (rule entry_check_page_other [OF inv3 _ 3(2) _ root_path(1) _ _ _ s4])
       (auto simp: table_path_def idx_ok_def root_path(2) r3)
  moreover have "vmm_map_memory a v f s = (let s5 = flush_tlb b s4 in if intr s then enable_interrupts s5 else s5)"
    by (simp only: vmm_map_memory_alt tables_for_def Let_def case_prod_conv s4
        s0_def [symmetric] s1_def [symmetric] pt3_def [symmetric] s2_def [symmetric]
        pt2_def [symmetric] s3_def [symmetric] pt1_def [symmetric])
  then have "entry (vmm_map_memory a v f s) (pt4 s) (pt4_index v) = entry s4 (pt4 s) (pt4_index v)"
    by (simp add: entry_def flush_tlb_def enable_interrupts_def Let_def)
  ultimately show ?thesis by simp
qed

lemma pt4_check_entry: "pt4 (check_entry t i f s) = pt4 s"
  by (auto simp: check_entry_def set_entry_def allocate_page_table_def split: prod.splits)

lemma pt4_check_page: "check_page t i a f s = (b, s') \<Longrightarrow> pt4 s' = pt4 s"
  by (auto simp: check_page_def set_entry_def split: if_splits prod.splits)

lemma pt4_vmm_map_memory: "pt4 (vmm_map_memory a v f s) = pt4 s"
  by (auto simp: vmm_map_memory_alt tables_for_def Let_def pt4_check_entry flush_tlb_def
      enable_interrupts_def disable_interrupts_def dest: pt4_check_page split: prod.splits)

section \<open>Changing the flags of an entry\<close>

text \<open>
  \<open>retagged s p i x s'\<close>: the entry \<open>i\<close> of the table at path \<open>p\<close> now holds \<open>x\<close>, with the same
  address bits as before, and no other entry and no walk has changed.
\<close>

definition retagged :: "paging \<Rightarrow> u64 list \<Rightarrow> u64 \<Rightarrow> u64 \<Rightarrow> paging \<Rightarrow> bool" where
  "retagged s p i x s' \<longleftrightarrow> walks s' = walks s \<and> tree_inv s' \<and> pt4 s' = pt4 s \<and> phys s' = phys s
     \<and> intr s' = intr s
     \<and> (\<forall>q u j. table_path q \<longrightarrow> walks s q = Some u \<longrightarrow> unat j < 512 \<longrightarrow>
          entry s' u j = (if (q, j) = (p, i) then x else entry s u j))"

lemma set_entry_retagged:
  assumes "tree_inv s" "table_path p" "walks s p = Some t" "unat i < 512"
    and "present (entry s t i)" "present x" "x AND FRAME_MASK = entry s t i AND FRAME_MASK"
  shows "retagged s p i x (set_entry t i x s)"
proof -
  have w: "walk (pmem s) (pt4 s) p = Some t" using assms(2,3) by (simp add: walks_table)
  have ws: "walks (set_entry t i x s) = walks s"
    by (rule ext) (simp add: walks_def set_entry_def store_present_entry [OF assms(1,2) w assms(4-7)])
  moreover have "tree_inv (set_entry t i x s)"
    by (rule tree_inv_keep [OF assms(1) ws]) (use assms(1) in \<open>auto simp: set_entry_def tree_inv_def\<close>)
  ultimately show ?thesis
    using entry_set_entry [OF assms(1-4)] by (auto simp: retagged_def set_entry_def)
qed

lemma retaggedD:
  assumes "retagged s p i x s'"
  shows "walks s' = walks s" "tree_inv s'" "pt4 s' = pt4 s" "phys s' = phys s" "intr s' = intr s"
    "table_path q \<Longrightarrow> walks s q = Some u \<Longrightarrow> unat j < 512 \<Longrightarrow>
       entry s' u j = (if (q, j) = (p, i) then x else entry s u j)"
  using assms unfolding retagged_def by blast+

definition permission_flags :: "bool \<Rightarrow> bool \<Rightarrow> bool \<Rightarrow> u64" where
  "permission_flags is_os is_writable is_executable =
     PRESENT_BIT OR (if is_writable then READ_WRITE_BIT else 0)
       OR (if is_os then USER_ACCESS_BIT else 0) OR (if is_executable then 0 else NO_EXEC_BIT)"

lemma flag_bits:
  "bit PRESENT_BIT n \<longleftrightarrow> n = 0" "bit READ_WRITE_BIT n \<longleftrightarrow> n = 1" "bit USER_ACCESS_BIT n \<longleftrightarrow> n = 2"
proof -
  have e: "PRESENT_BIT = push_bit 0 1" "READ_WRITE_BIT = push_bit 1 1" "USER_ACCESS_BIT = push_bit 2 1"
    by (simp_all add: PRESENT_BIT_def READ_WRITE_BIT_def USER_ACCESS_BIT_def)
  show "bit PRESENT_BIT n \<longleftrightarrow> n = 0" "bit READ_WRITE_BIT n \<longleftrightarrow> n = 1" "bit USER_ACCESS_BIT n \<longleftrightarrow> n = 2"
    unfolding e by (auto simp only: bit_push_bit_iff bit_1_iff possible_bit_word) auto
qed

lemma set_flags_value:
  fixes e :: u64 and is_os :: bool
  assumes "unat (e AND FRAME_MASK) < 2 ^ 40"
  defines "x \<equiv> (e AND ADDRESS_MASK) OR DIRECTORY_DEFAULTS OR (if is_os then USER_ACCESS_BIT else 0)"
  shows "x = (e AND FRAME_MASK) OR permission_flags is_os True True"
    and "x AND FRAME_MASK = e AND FRAME_MASK" "present x"
proof -
  have m: "e AND ADDRESS_MASK = e AND FRAME_MASK" using assms(1) by (rule masks_agree)
  show x: "x = (e AND FRAME_MASK) OR permission_flags is_os True True"
    unfolding x_def m permission_flags_def DIRECTORY_DEFAULTS_def
    by (rule bit_eqI) (auto simp: bit_simps)
  show "x AND FRAME_MASK = e AND FRAME_MASK"
    unfolding x permission_flags_def
    by (rule bit_eqI) (auto simp: bit_simps bit_FRAME_MASK flag_bits)
  show "present x" unfolding x permission_flags_def present_bit by (simp add: bit_simps flag_bits)
qed

lemma SET_FLAGS_retagged:
  assumes "tree_inv s" "table_path p" "walks s p = Some t" "unat i < 512"
    and "present (entry s t i)" "unat (entry s t i AND FRAME_MASK) < 2 ^ 40"
  shows "retagged s p i ((entry s t i AND FRAME_MASK) OR permission_flags is_os True True)
      (SET_FLAGS t i is_os s)"
    and "next_table t i (SET_FLAGS t i is_os s) = entry s t i AND FRAME_MASK"
proof -
  let ?x = "(entry s t i AND ADDRESS_MASK) OR DIRECTORY_DEFAULTS OR (if is_os then USER_ACCESS_BIT else 0)"
  note x = set_flags_value [OF assms(6), of is_os]
  show "retagged s p i ((entry s t i AND FRAME_MASK) OR permission_flags is_os True True)
      (SET_FLAGS t i is_os s)"
    unfolding x(1) [symmetric] SET_FLAGS_def
    by (rule set_entry_retagged [OF assms(1-5) x(3,2)])
  have "entry (SET_FLAGS t i is_os s) t i = ?x"
    by (simp only: SET_FLAGS_def entry_def set_entry_def) simp
  then show "next_table t i (SET_FLAGS t i is_os s) = entry s t i AND FRAME_MASK"
    using masks_agree [of ?x] assms(6) x(2) by (simp only: next_table_def)
qed

text \<open>A translated page has present entries at all four levels.\<close>

lemma translate_levels:
  assumes "tree_inv s" "translate s v = Some a"
  obtains t3 t2 t1 where
    "walks s [pt4_index v] = Some t3" "walks s [pt4_index v, pt3_index v] = Some t2"
    "walks s [pt4_index v, pt3_index v, pt2_index v] = Some t1"
    "present (entry s (pt4 s) (pt4_index v))" "entry s (pt4 s) (pt4_index v) AND FRAME_MASK = t3"
    "present (entry s t3 (pt3_index v))" "entry s t3 (pt3_index v) AND FRAME_MASK = t2"
    "present (entry s t2 (pt2_index v))" "entry s t2 (pt2_index v) AND FRAME_MASK = t1"
    "present (entry s t1 (page_index v))" "entry s t1 (page_index v) AND FRAME_MASK = a"
    "unat t3 < 2 ^ 40" "unat t2 < 2 ^ 40" "unat t1 < 2 ^ 40"
proof -
  let ?m = "pmem s"
  have step: "walk_step ?m t i = Some u \<longleftrightarrow> present (entry s t i) \<and> entry s t i AND FRAME_MASK = u" for t i u
    by (auto simp: walk_step_def entry_def Let_def)
  obtain t3 t2 t1 where w: "walk_step ?m (pt4 s) (pt4_index v) = Some t3"
    "walk_step ?m t3 (pt3_index v) = Some t2" "walk_step ?m t2 (pt2_index v) = Some t1"
    "walk_step ?m t1 (page_index v) = Some a"
    using assms(2) by (auto simp: translate_def indices_def split: option.splits)
  then have ws: "walks s [pt4_index v] = Some t3" "walks s [pt4_index v, pt3_index v] = Some t2"
    "walks s [pt4_index v, pt3_index v, pt2_index v] = Some t1"
    by (simp_all add: walks_def idx_ok_def)
  have tp: "table_path [pt4_index v]" "table_path [pt4_index v, pt3_index v]"
    "table_path [pt4_index v, pt3_index v, pt2_index v]"
    by (simp_all add: table_path_def idx_ok_def)
  have small: "unat t < 2 ^ 40" if "table_path p" "walks s p = Some t" for p t
    using assms(1) that unfolding tree_inv_walks by blast
  have "unat t3 < 2 ^ 40" "unat t2 < 2 ^ 40" "unat t1 < 2 ^ 40"
    using small [OF tp(1) ws(1)] small [OF tp(2) ws(2)] small [OF tp(3) ws(3)] .
  then show ?thesis using that ws w step by blast
qed

text \<open>The page entry after the optional no-execute and read-only adjustments.\<close>

lemma page_entry_adjust:
  fixes a :: u64 and is_os is_executable is_writable :: bool
  assumes "page_aligned a" "unat a < 2 ^ 40"
  defines "x4 \<equiv> a OR permission_flags is_os True True"
  defines "x5 \<equiv> (if \<not> is_executable then x4 OR NO_EXEC_BIT else x4)"
  defines "x6 \<equiv> (if \<not> is_writable then x5 AND NOT READ_WRITE_BIT else x5)"
  shows "x6 = a OR permission_flags is_os is_writable is_executable"
    and "present x5" "x5 AND FRAME_MASK = a" "present x6" "x6 AND FRAME_MASK = a"
      "present x4" "x4 AND FRAME_MASK = a"
proof -
  have x5: "x5 = a OR permission_flags is_os True is_executable"
    unfolding x5_def x4_def permission_flags_def
    by (rule bit_eqI) (auto simp: bit_simps flag_bits)
  have "\<not> bit a 1" using assms(1) by (rule page_aligned_bit) simp
  then show x6: "x6 = a OR permission_flags is_os is_writable is_executable"
    unfolding x6_def x5 permission_flags_def
    by (intro bit_eqI) (auto simp: bit_simps flag_bits bit_NO_EXEC)
  have fr: "(a OR permission_flags u w x) AND FRAME_MASK = a" for u w x
  proof (rule bit_eqI)
    fix n assume "possible_bit TYPE(64 word) n"
    show "bit ((a OR permission_flags u w x) AND FRAME_MASK) n = bit a n"
      using page_aligned_bit_ge [OF assms(1), of n] bit_less_2p [OF _ assms(2), of n]
      by (auto simp: permission_flags_def bit_simps flag_bits bit_FRAME_MASK bit_NO_EXEC)
  qed
  have pr: "present (a OR permission_flags u w x)" for u w x
    by (simp add: present_bit permission_flags_def bit_simps flag_bits)
  show "present x5" "x5 AND FRAME_MASK = a" "present x6" "x6 AND FRAME_MASK = a"
      "present x4" "x4 AND FRAME_MASK = a"
    unfolding x5 x6 x4_def by (rule fr pr)+
qed

lemma retagged_leaf:
  assumes "retagged s p i x s'" "idx_ok q" "q \<noteq> []" "length q \<le> 4" "walks s p = Some t"
  shows "leaf s' q = (if q = p @ [i] then Some x else leaf s q)"
proof -
  have q: "table_path (butlast q)" "unat (last q) < 512" "q = butlast q @ [last q]"
    using assms(2-4) last_in_set [of q]
    by (auto simp: table_path_def idx_ok_def dest: in_set_butlastD)
  have "q = p @ [i] \<longleftrightarrow> butlast q = p \<and> last q = i" using q(3) by auto
  then show ?thesis
    using retaggedD(1,6) [OF assms(1)] q(1,2) assms(5) by (auto simp: leaf_def split: option.split)
qed

text \<open>\<open>above q v\<close>: \<open>q\<close> is the path of a directory entry on the way to \<open>v\<close>.\<close>

definition above :: "u64 list \<Rightarrow> u64 \<Rightarrow> bool" where
  "above q v \<longleftrightarrow> q \<in> {[pt4_index v], [pt4_index v, pt3_index v], [pt4_index v, pt3_index v, pt2_index v]}"

lemma retagged_again:
  "retagged s p i x s' \<Longrightarrow> retagged s' p i y s'' \<Longrightarrow> retagged s p i y s''"
  unfolding retagged_def by (auto split: if_splits)

lemma set_page_permission_spec:
  fixes is_os is_executable is_writable :: bool
  assumes inv: "tree_inv s" and a: "translate s v = Some a" "unat a < 2 ^ 40" "page_aligned a"
  defines "s' \<equiv> set_page_permission v is_os is_writable is_executable s"
  shows "walks s' = walks s \<and> tree_inv s' \<and> pt4 s' = pt4 s \<and> phys s' = phys s \<and> intr s' = intr s
    \<and> (\<forall>q. idx_ok q \<longrightarrow> q \<noteq> [] \<longrightarrow> length q \<le> 4 \<longrightarrow> leaf s' q =
          (if q = indices v then Some (a OR permission_flags is_os is_writable is_executable)
           else if above q v
           then map_option (\<lambda>e. (e AND FRAME_MASK) OR permission_flags is_os True True) (leaf s q)
           else leaf s q))"
proof -
  define s0 where "s0 = disable_interrupts s"
  have s0: "walks s0 = walks s" "tree_inv s0" "pt4 s0 = pt4 s" "phys s0 = phys s" "entry s0 = entry s"
    using inv by (auto simp: s0_def disable_interrupts_def entry_def fun_eq_iff)
  let ?i4 = "pt4_index v" and ?i3 = "pt3_index v" and ?i2 = "pt2_index v" and ?i1 = "page_index v"
  obtain t3 t2 t1 where t: "walks s [?i4] = Some t3" "walks s [?i4, ?i3] = Some t2"
    "walks s [?i4, ?i3, ?i2] = Some t1"
    and e4: "present (entry s (pt4 s) ?i4)" "entry s (pt4 s) ?i4 AND FRAME_MASK = t3"
    and e3: "present (entry s t3 ?i3)" "entry s t3 ?i3 AND FRAME_MASK = t2"
    and e2: "present (entry s t2 ?i2)" "entry s t2 ?i2 AND FRAME_MASK = t1"
    and e1: "present (entry s t1 ?i1)" "entry s t1 ?i1 AND FRAME_MASK = a"
    and small: "unat t3 < 2 ^ 40" "unat t2 < 2 ^ 40" "unat t1 < 2 ^ 40"
    using translate_levels [OF inv a(1)] .
  have tp: "table_path []" "table_path [?i4]" "table_path [?i4, ?i3]" "table_path [?i4, ?i3, ?i2]"
    by (simp_all add: table_path_def idx_ok_def)
  define s1 where "s1 = SET_FLAGS (pt4 s0) ?i4 is_os s0"
  define x where "x e = (e AND FRAME_MASK) OR permission_flags is_os True True" for e
  have r1: "retagged s0 [] ?i4 (x (entry s (pt4 s) ?i4)) s1" and n1: "next_table (pt4 s1) ?i4 s1 = t3"
  proof -
    note R = SET_FLAGS_retagged [OF s0(2) tp(1) root_path(2), of ?i4 is_os]
    show r: "retagged s0 [] ?i4 (x (entry s (pt4 s) ?i4)) s1"
      using R(1) e4 small by (simp add: s0 s1_def x_def)
    show "next_table (pt4 s1) ?i4 s1 = t3"
      using R(2) e4 small retaggedD(3) [OF r] by (simp add: s0 s1_def)
  qed
  note d1 = retaggedD [OF r1]
  define s2 where "s2 = SET_FLAGS t3 ?i3 is_os s1"
  have en1: "entry s1 t3 ?i3 = entry s t3 ?i3"
    using d1(6) [OF tp(2), of t3 ?i3] t s0 by simp
  have r2: "retagged s1 [?i4] ?i3 (x (entry s t3 ?i3)) s2" and n2: "next_table t3 ?i3 s2 = t2"
    using SET_FLAGS_retagged [OF d1(2) tp(2), of t3 ?i3 is_os] t e3 small en1 d1(1) s0
    by (simp_all add: s2_def x_def)
  note d2 = retaggedD [OF r2]
  define s3 where "s3 = SET_FLAGS t2 ?i2 is_os s2"
  have w2: "walks s2 = walks s" "walks s1 = walks s" using d2(1) d1(1) s0(1) by simp_all
  have en2: "entry s2 t2 ?i2 = entry s t2 ?i2"
    using d2(6) [OF tp(3), of t2 ?i2] d1(6) [OF tp(3), of t2 ?i2] t w2 s0 by simp
  have r3: "retagged s2 [?i4, ?i3] ?i2 (x (entry s t2 ?i2)) s3" and n3: "next_table t2 ?i2 s3 = t1"
    using SET_FLAGS_retagged [OF d2(2) tp(3), of t2 ?i2 is_os] t e2 small en2 w2
    by (simp_all add: s3_def x_def)
  note d3 = retaggedD [OF r3]
  have w3: "walks s3 = walks s" using d3(1) w2 by simp
  define s4 where "s4 = SET_FLAGS t1 ?i1 is_os s3"
  have en3: "entry s3 t1 ?i1 = entry s t1 ?i1"
    using d3(6) [OF tp(4), of t1 ?i1] d2(6) [OF tp(4), of t1 ?i1] d1(6) [OF tp(4), of t1 ?i1] t w2 s0
    by simp
  have r4: "retagged s3 [?i4, ?i3, ?i2] ?i1 (x (entry s t1 ?i1)) s4"
    using SET_FLAGS_retagged(1) [OF d3(2) tp(4), of t1 ?i1 is_os] t e1 a(2) en3 w3
    by (simp add: s4_def x_def)
  note d4 = retaggedD [OF r4]
  have w4: "walks s4 = walks s" using d4(1) w3 by simp
  define x4 where "x4 = a OR permission_flags is_os True True"
  have en4: "entry s4 t1 ?i1 = x4"
    using d4(6) [OF tp(4), of t1 ?i1] t w3 e1 by (simp add: x4_def x_def)
  define x5 where "x5 = (if \<not> is_executable then x4 OR NO_EXEC_BIT else x4)"
  define s5 where "s5 = (if \<not> is_executable then set_entry t1 ?i1 (entry s4 t1 ?i1 OR NO_EXEC_BIT) s4 else s4)"
  define x6 where "x6 = (if \<not> is_writable then x5 AND NOT READ_WRITE_BIT else x5)"
  define s6 where "s6 = (if \<not> is_writable
      then set_entry t1 ?i1 (entry s5 t1 ?i1 AND NOT READ_WRITE_BIT) s5 else s5)"
  have adj: "x6 = a OR permission_flags is_os is_writable is_executable" "present x5"
    "x5 AND FRAME_MASK = a" "present x6" "x6 AND FRAME_MASK = a" "present x4" "x4 AND FRAME_MASK = a"
    unfolding x6_def x5_def x4_def by (rule page_entry_adjust [OF a(3,2)])+
  have f4: "x4 AND FRAME_MASK = a" by (rule adj(7))
  have r4': "retagged s3 [?i4, ?i3, ?i2] ?i1 x4 s4" using r4 e1 by (simp add: x_def x4_def)
  have r5: "retagged s3 [?i4, ?i3, ?i2] ?i1 x5 s5"
  proof (cases is_executable)
    case True
    then show ?thesis using r4' by (simp add: s5_def x5_def)
  next
    case False
    then have "s5 = set_entry t1 ?i1 x5 s4" by (simp add: s5_def x5_def en4)
    moreover have "retagged s4 [?i4, ?i3, ?i2] ?i1 x5 (set_entry t1 ?i1 x5 s4)"
      using adj f4 en4 t w4 by (intro set_entry_retagged [OF d4(2) tp(4)]) simp_all
    ultimately show ?thesis using retagged_again [OF r4'] by simp
  qed
  note d5 = retaggedD [OF r5]
  have en5: "entry s5 t1 ?i1 = x5" using d5(6) [OF tp(4), of t1 ?i1] t w3 by simp
  have r6: "retagged s3 [?i4, ?i3, ?i2] ?i1 x6 s6"
  proof (cases is_writable)
    case True
    then show ?thesis using r5 by (simp add: s6_def x6_def)
  next
    case False
    then have "s6 = set_entry t1 ?i1 x6 s5" by (simp only: s6_def x6_def en5 not_False_eq_True if_True)
    moreover have "retagged s5 [?i4, ?i3, ?i2] ?i1 x6 (set_entry t1 ?i1 x6 s5)"
      using adj en5 t w3 d5(1) by (intro set_entry_retagged [OF d5(2) tp(4)]) simp_all
    ultimately show ?thesis using retagged_again [OF r5] by simp
  qed
  note d6 = retaggedD [OF r6]
  have "s' = (let s7 = flush_tlb (entry s6 t1 ?i1) s6 in if intr s then enable_interrupts s7 else s7)"
    unfolding s'_def set_page_permission_def Let_def are_interrupts_enabled_def
      s0_def [symmetric] s1_def [symmetric] n1 s2_def [symmetric] n2 s3_def [symmetric] n3
      s4_def [symmetric] s5_def [symmetric] s6_def [symmetric] by (rule refl)
  then have s': "walks s' = walks s6" "tree_inv s' = tree_inv s6" "pt4 s' = pt4 s6" "phys s' = phys s6"
    "entry s' = entry s6" "intr s' = (intr s \<or> intr s6)"
    by (auto simp: Let_def flush_tlb_def enable_interrupts_def entry_def fun_eq_iff)
  have leaf': "leaf s' = leaf s6" by (rule ext) (simp only: leaf_def s')
  have "leaf s' q = (if q = indices v then Some x6
      else if above q v then map_option x (leaf s q) else leaf s q)"
    if "idx_ok q" "q \<noteq> []" "length q \<le> 4" for q
  proof -
    have l0: "leaf s0 q = leaf s q" by (simp only: leaf_def s0)
    have l1: "leaf s1 q = (if q = [?i4] then Some (x (entry s (pt4 s) ?i4)) else leaf s q)"
      using retagged_leaf [OF r1 that root_path(2)] l0 by simp
    have l2: "leaf s2 q = (if q = [?i4, ?i3] then Some (x (entry s t3 ?i3)) else leaf s1 q)"
      using retagged_leaf [OF r2 that, of t3] t w2 by simp
    have l3: "leaf s3 q = (if q = [?i4, ?i3, ?i2] then Some (x (entry s t2 ?i2)) else leaf s2 q)"
      using retagged_leaf [OF r3 that, of t2] t w2 by simp
    have l6: "leaf s' q = (if q = indices v then Some x6 else leaf s3 q)"
      using retagged_leaf [OF r6 that, of t1] t w3 leaf' by (simp add: indices_split)
    have "leaf s [?i4] = Some (entry s (pt4 s) ?i4)" "leaf s [?i4, ?i3] = Some (entry s t3 ?i3)"
      "leaf s [?i4, ?i3, ?i2] = Some (entry s t2 ?i2)"
      using t root_path(2) [of s] by (simp_all add: leaf_def)
    moreover have "leaf s' q = (if q = indices v then Some x6
        else if q = [?i4, ?i3, ?i2] then Some (x (entry s t2 ?i2))
        else if q = [?i4, ?i3] then Some (x (entry s t3 ?i3))
        else if q = [?i4] then Some (x (entry s (pt4 s) ?i4)) else leaf s q)"
      by (simp only: l1 l2 l3 l6)
    ultimately show ?thesis by (auto simp: above_def)
  qed
  moreover have "intr s6 = False"
    using d6(5) d3(5) d2(5) d1(5) by (simp add: s0_def disable_interrupts_def)
  ultimately show ?thesis
    using s' d6 d3 d2 d1 s0 w3 adj(1) by (simp add: x_def [abs_def])
qed

section \<open>The sections of the image\<close>

text \<open>
  The linker provides the bounds of each section; here they are a parameter. The macro
  \<open>SET_PERMISSIONS\<close> is a loop over the pages of a section that leaves its own counter behind:
  the counter of the boot section bounds the extra loop over the low space.
\<close>

record layout =
  BOOT_START :: u64
  BOOT_END :: u64
  KERNEL_TEXT_START :: u64
  KERNEL_TEXT_END :: u64
  KERNEL_RODATA_START :: u64
  KERNEL_RODATA_END :: u64
  KERNEL_DATA_START :: u64
  KERNEL_DATA_END :: u64
  KERNEL_BSS_START :: u64
  KERNEL_BSS_END :: u64
  OS_TEXT_START :: u64
  OS_TEXT_END :: u64
  OS_RODATA_START :: u64
  OS_RODATA_END :: u64
  OS_DATA_START :: u64
  OS_DATA_END :: u64
  OS_BSS_START :: u64
  OS_BSS_END :: u64

partial_function (option) SET_PERMISSIONS ::
    "u64 \<Rightarrow> u64 \<Rightarrow> bool \<Rightarrow> bool \<Rightarrow> bool \<Rightarrow> paging \<Rightarrow> (u64 \<times> paging) option" where
  "SET_PERMISSIONS start stop is_os is_writable is_executable s =
     (if start < stop
      then SET_PERMISSIONS (start + PAGE_SIZE) stop is_os is_writable is_executable
             (set_page_permission start is_os is_writable is_executable s)
      else Some (start, s))"

definition vmm_set_page_permissions :: "layout \<Rightarrow> paging \<Rightarrow> paging option" where
  "vmm_set_page_permissions L s = do {
     (BOOT_start, s) \<leftarrow> SET_PERMISSIONS (BOOT_START L) (BOOT_END L) False True True s;
     (lowspace, s) \<leftarrow> SET_PERMISSIONS 0 BOOT_start False True True s;
     (_, s) \<leftarrow> SET_PERMISSIONS (KERNEL_TEXT_START L) (KERNEL_TEXT_END L) False False True s;
     (_, s) \<leftarrow> SET_PERMISSIONS (KERNEL_RODATA_START L) (KERNEL_RODATA_END L) False False False s;
     (_, s) \<leftarrow> SET_PERMISSIONS (KERNEL_DATA_START L) (KERNEL_DATA_END L) False True False s;
     (_, s) \<leftarrow> SET_PERMISSIONS (KERNEL_BSS_START L) (KERNEL_BSS_END L) False True False s;
     (_, s) \<leftarrow> SET_PERMISSIONS (OS_TEXT_START L) (OS_TEXT_END L) True False True s;
     (_, s) \<leftarrow> SET_PERMISSIONS (OS_RODATA_START L) (OS_RODATA_END L) True False False s;
     (_, s) \<leftarrow> SET_PERMISSIONS (OS_DATA_START L) (OS_DATA_END L) True True False s;
     (_, s) \<leftarrow> SET_PERMISSIONS (OS_BSS_START L) (OS_BSS_END L) True True False s;
     Some s }"

text \<open>
  What the loops amount to: a list of single-page operations. \<open>page_count\<close> is the number of
  pages from \<open>start\<close> up to \<open>stop\<close>, rounded up.
\<close>

definition page_count :: "u64 \<Rightarrow> u64 \<Rightarrow> nat" where
  "page_count start stop = (unat stop - unat start + 4095) div 4096"

definition section_pages :: "u64 \<Rightarrow> u64 \<Rightarrow> u64 list" where
  "section_pages start stop = map (\<lambda>j. start + PAGE_SIZE * of_nat j) [0..<page_count start stop]"

type_synonym rights = "bool \<times> bool \<times> bool"

definition set_rights :: "u64 \<times> rights \<Rightarrow> paging \<Rightarrow> paging" where
  "set_rights = (\<lambda>(a, is_os, is_writable, is_executable).
     set_page_permission a is_os is_writable is_executable)"

definition with_rights :: "rights \<Rightarrow> u64 list \<Rightarrow> (u64 \<times> rights) list" where
  "with_rights r as = map (\<lambda>a. (a, r)) as"

lemma page_count_step:
  assumes "start < stop" "unat stop + 4096 \<le> 2 ^ 64"
  shows "unat (start + PAGE_SIZE) = unat start + 4096"
    "page_count start stop = Suc (page_count (start + PAGE_SIZE) stop)"
proof -
  have lt: "unat start < unat stop" using assms(1) by (simp add: word_less_nat_alt)
  then show u: "unat (start + PAGE_SIZE) = unat start + 4096"
    using unat64_add [of start PAGE_SIZE] assms(2) by (simp add: PAGE_SIZE_def)
  have "(unat stop - unat start + 4095) div 4096 = Suc ((unat stop - (unat start + 4096) + 4095) div 4096)"
    using lt by (cases "unat stop \<le> unat start + 4096") (auto simp: div_if)
  then show "page_count start stop = Suc (page_count (start + PAGE_SIZE) stop)"
    by (simp only: page_count_def u)
qed

lemma section_pages_step:
  assumes "start < stop" "unat stop + 4096 \<le> 2 ^ 64"
  shows "section_pages start stop = start # section_pages (start + PAGE_SIZE) stop"
proof -
  have "map (\<lambda>j. start + PAGE_SIZE * of_nat j) [Suc 0..<Suc n]
      = map (\<lambda>j. start + PAGE_SIZE + PAGE_SIZE * of_nat j) [0..<n]" for n
    by (simp only: map_Suc_upt [symmetric] map_map) (simp add: algebra_simps)
  then show ?thesis
    by (simp add: section_pages_def page_count_step(2) [OF assms] upt_conv_Cons del: upt_Suc)
qed

lemma section_pages_Nil: "\<not> start < stop \<Longrightarrow> section_pages start stop = []"
  by (simp add: section_pages_def page_count_def word_less_nat_alt)

text \<open>The loop ends: the counter gets past \<open>stop\<close> unless that lies in the last page of all.\<close>

lemma SET_PERMISSIONS_fold:
  assumes "unat stop + 4096 \<le> 2 ^ 64"
  shows "SET_PERMISSIONS start stop is_os is_writable is_executable s =
    Some (start + PAGE_SIZE * of_nat (page_count start stop),
      fold set_rights (with_rights (is_os, is_writable, is_executable) (section_pages start stop)) s)"
proof (induction "page_count start stop" arbitrary: start s)
  case 0
  then have "\<not> start < stop" using page_count_step(2) [OF _ assms] by auto
  then show ?case
    by (subst SET_PERMISSIONS.simps) (simp add: section_pages_Nil with_rights_def 0 [symmetric])
next
  case (Suc n)
  have "start < stop"
    using Suc.hyps(2) by (cases "start < stop") (simp_all add: page_count_def word_less_nat_alt)
  note st = page_count_step(2) [OF this assms] section_pages_step [OF this assms]
  have "n = page_count (start + PAGE_SIZE) stop" using st(1) Suc.hyps(2) by simp
  note IH = Suc.hyps(1) [OF this]
  show ?case
    by (subst SET_PERMISSIONS.simps)
       (simp add: \<open>start < stop\<close> IH st with_rights_def set_rights_def distrib_left add.assoc)
qed

definition boot_counter :: "layout \<Rightarrow> u64" where
  "boot_counter L = BOOT_START L + PAGE_SIZE * of_nat (page_count (BOOT_START L) (BOOT_END L))"

definition permission_plan :: "layout \<Rightarrow> (u64 \<times> rights) list" where
  "permission_plan L =
     with_rights (False, True, True) (section_pages (BOOT_START L) (BOOT_END L))
   @ with_rights (False, True, True) (section_pages 0 (boot_counter L))
   @ with_rights (False, False, True) (section_pages (KERNEL_TEXT_START L) (KERNEL_TEXT_END L))
   @ with_rights (False, False, False) (section_pages (KERNEL_RODATA_START L) (KERNEL_RODATA_END L))
   @ with_rights (False, True, False) (section_pages (KERNEL_DATA_START L) (KERNEL_DATA_END L))
   @ with_rights (False, True, False) (section_pages (KERNEL_BSS_START L) (KERNEL_BSS_END L))
   @ with_rights (True, False, True) (section_pages (OS_TEXT_START L) (OS_TEXT_END L))
   @ with_rights (True, False, False) (section_pages (OS_RODATA_START L) (OS_RODATA_END L))
   @ with_rights (True, True, False) (section_pages (OS_DATA_START L) (OS_DATA_END L))
   @ with_rights (True, True, False) (section_pages (OS_BSS_START L) (OS_BSS_END L))"

text \<open>The image lies in the linearly mapped first two megabytes.\<close>

definition low_layout :: "layout \<Rightarrow> bool" where
  "low_layout L \<longleftrightarrow> BOOT_START L \<le> BOOT_END L \<and> unat (BOOT_END L) + 4096 \<le> 0x200000
     \<and> list_all (\<lambda>stop. unat stop \<le> 0x200000)
         [KERNEL_TEXT_END L, KERNEL_RODATA_END L, KERNEL_DATA_END L, KERNEL_BSS_END L,
          OS_TEXT_END L, OS_RODATA_END L, OS_DATA_END L, OS_BSS_END L]"

lemma section_pages_bound:
  assumes "a \<in> set (section_pages start stop)" "unat stop + 4096 \<le> 2 ^ 64"
  shows "unat a < unat stop"
  using assms(1)
proof (induction "page_count start stop" arbitrary: start)
  case 0
  then show ?case by (simp add: section_pages_def)
next
  case (Suc n)
  have lt: "start < stop" using Suc.prems section_pages_Nil by fastforce
  note st = page_count_step(2) [OF lt assms(2)] section_pages_step [OF lt assms(2)]
  show ?case
    using Suc.hyps(1) [of "start + PAGE_SIZE"] Suc.hyps(2) Suc.prems lt st
    by (auto simp: word_less_nat_alt)
qed

lemma boot_counter_bound:
  assumes "low_layout L"
  shows "unat (boot_counter L) < 0x200000"
proof -
  let ?b = "unat (BOOT_START L)" and ?e = "unat (BOOT_END L)"
  have le: "?b \<le> ?e" "?e + 4096 \<le> 0x200000"
    using assms by (auto simp: low_layout_def word_le_nat_alt)
  define n where "n = page_count (BOOT_START L) (BOOT_END L)"
  have n: "?b + 4096 * n < ?e + 4096" using le(1) unfolding n_def page_count_def
    using div_times_less_eq_dividend [of "?e - ?b + 4095" 4096] by linarith
  then have n': "n < 2 ^ 64" "4096 * n < 2 ^ 64" using le by simp_all
  have "unat (PAGE_SIZE * of_nat n) = 4096 * n"
    using unat64_mult [of PAGE_SIZE "of_nat n"] unat64_of_nat [OF n'(1)] n'(2) by (simp add: PAGE_SIZE_def)
  then show ?thesis
    using unat64_add [of "BOOT_START L" "PAGE_SIZE * of_nat n"] n le
    by (simp add: boot_counter_def n_def [symmetric])
qed

lemma vmm_set_page_permissions_fold:
  assumes "low_layout L"
  shows "vmm_set_page_permissions L s = Some (fold set_rights (permission_plan L) s)"
proof -
  have e: "unat stop + 4096 \<le> 2 ^ 64" if "unat stop \<le> 0x200000" for stop :: u64
    using that by simp
  have b: "unat (boot_counter L) \<le> 0x200000" using boot_counter_bound [OF assms] by linarith
  have L: "unat (BOOT_END L) \<le> 0x200000" "unat (KERNEL_TEXT_END L) \<le> 0x200000"
    "unat (KERNEL_RODATA_END L) \<le> 0x200000" "unat (KERNEL_DATA_END L) \<le> 0x200000"
    "unat (KERNEL_BSS_END L) \<le> 0x200000" "unat (OS_TEXT_END L) \<le> 0x200000"
    "unat (OS_RODATA_END L) \<le> 0x200000" "unat (OS_DATA_END L) \<le> 0x200000"
    "unat (OS_BSS_END L) \<le> 0x200000"
    using assms by (simp_all add: low_layout_def)
  show ?thesis
    unfolding vmm_set_page_permissions_def permission_plan_def fold_append
    by (simp add: SET_PERMISSIONS_fold [OF e] L b boot_counter_def [symmetric])
qed

subsection \<open>Rights after a list of page operations\<close>

text \<open>
  The boot code maps the first two megabytes linearly. \<open>granted\<close> is the last operation of a
  list that concerns the page of an address.
\<close>

definition low_mapped :: "paging \<Rightarrow> bool" where
  "low_mapped s \<longleftrightarrow> tree_inv s \<and> (\<forall>v. unat v < 0x200000 \<longrightarrow> translate s v = Some (v AND FRAME_MASK))"

definition granted :: "(u64 \<times> rights) list \<Rightarrow> u64 \<Rightarrow> rights option" where
  "granted ops v = map_option snd (find (\<lambda>(a, r). indices a = indices v) (rev ops))"

lemma granted_snoc:
  "granted (ops @ [(a, r)]) v = (if indices a = indices v then Some r else granted ops v)"
  by (simp add: granted_def)

lemma low_indices:
  assumes "unat v < 0x200000"
  shows "pt4_index v = 0" "pt3_index v = 0" "pt2_index v = 0"
proof -
  have "drop_bit n v = 0" if "21 \<le> n" for n
  proof (rule bit_eqI)
    fix k
    show "bit (drop_bit n v) k = bit (0 :: u64) k"
      using bit_less_2p [of v "n + k" 21] assms that by (auto simp: bit_drop_bit_eq)
  qed
  then show "pt4_index v = 0" "pt3_index v = 0" "pt2_index v = 0"
    by (simp_all add: pt4_index_def pt3_index_def pt2_index_def)
qed

lemma low_above: "unat v < 0x200000 \<Longrightarrow> above q v \<longleftrightarrow> q \<in> {[0], [0, 0], [0, 0, 0]}"
  by (auto simp: above_def low_indices)

lemma frame_of_low:
  assumes "unat v < 0x200000"
  shows "page_aligned (v AND FRAME_MASK)" "unat (v AND FRAME_MASK) < 2 ^ 40"
proof -
  have "unat (v AND FRAME_MASK) \<le> unat v" by (simp add: word_and_le2 word_le_nat_alt [symmetric])
  then show "unat (v AND FRAME_MASK) < 2 ^ 40" using assms by simp
  have "v AND FRAME_MASK AND mask 12 = 0"
    by (rule bit_eqI) (auto simp: bit_simps bit_FRAME_MASK)
  then show "page_aligned (v AND FRAME_MASK)" by (simp add: page_aligned_def low12_mask and.assoc)
qed

lemma indices_ok: "idx_ok (indices v)" "length (indices v) = 4" "indices v \<noteq> []"
  by (simp_all add: indices_def idx_ok_def)

lemma frame_cong: "low_mapped s \<Longrightarrow> unat v < 0x200000 \<Longrightarrow> unat a < 0x200000 \<Longrightarrow>
    indices a = indices v \<Longrightarrow> a AND FRAME_MASK = v AND FRAME_MASK"
  unfolding low_mapped_def translate_def by (metis option.inject)

lemma set_rights_low:
  fixes r :: rights
  assumes "low_mapped s" "unat a < 0x200000"
  defines "s' \<equiv> set_rights (a, r) s"
  shows "low_mapped s'" "walks s' = walks s"
    and "idx_ok q \<Longrightarrow> q \<noteq> [] \<Longrightarrow> length q \<le> 4 \<Longrightarrow> leaf s' q =
      (case r of (is_os, w, x) \<Rightarrow>
        if q = indices a then Some ((a AND FRAME_MASK) OR permission_flags is_os w x)
        else if q \<in> {[0], [0, 0], [0, 0, 0]}
        then map_option (\<lambda>e. (e AND FRAME_MASK) OR permission_flags is_os True True) (leaf s q)
        else leaf s q)"
proof -
  obtain u w x where r: "r = (u, w, x)" by (cases r)
  have t: "tree_inv s" "translate s a = Some (a AND FRAME_MASK)"
    using assms(1,2) by (auto simp: low_mapped_def)
  note spec = set_page_permission_spec [OF t frame_of_low(2,1) [OF assms(2)], of u w x]
  have s': "s' = set_page_permission a u w x s" by (simp add: s'_def r set_rights_def)
  show w: "walks s' = walks s" using spec by (simp add: s')
  then show "low_mapped s'" using assms(1) spec by (simp add: low_mapped_def s' translate_walks)
  show "idx_ok q \<Longrightarrow> q \<noteq> [] \<Longrightarrow> length q \<le> 4 \<Longrightarrow> leaf s' q =
      (case r of (is_os, w, x) \<Rightarrow>
        if q = indices a then Some ((a AND FRAME_MASK) OR permission_flags is_os w x)
        else if q \<in> {[0], [0, 0], [0, 0, 0]}
        then map_option (\<lambda>e. (e AND FRAME_MASK) OR permission_flags is_os True True) (leaf s q)
        else leaf s q)"
    using spec low_above [OF assms(2), of q] by (simp add: s' r)
qed

definition directory_user :: "bool \<Rightarrow> paging \<Rightarrow> bool" where
  "directory_user u s \<longleftrightarrow> (\<forall>q \<in> {[0], [0, 0], [0, 0, 0]}. \<exists>e. leaf s q = Some e \<and> bit e 2 = u)"

lemma low_directories:
  assumes "low_mapped s" "q \<in> {[0], [0, 0], [0, 0, 0]}"
  shows "\<exists>e. leaf s q = Some e \<and> present e"
proof -
  have t: "tree_inv s" "translate s 0 = Some (0 AND FRAME_MASK)"
    using assms(1) by (auto simp: low_mapped_def)
  have z: "pt4_index 0 = 0" "pt3_index 0 = 0" "pt2_index 0 = 0" "page_index 0 = 0"
    by (simp_all add: pt4_index_def pt3_index_def pt2_index_def page_index_def)
  obtain t3 t2 where "walks s [0] = Some t3" "walks s [0, 0] = Some t2"
    "present (entry s (pt4 s) 0)" "present (entry s t3 0)" "present (entry s t2 0)"
    using translate_levels [OF t] unfolding z by metis
  then show ?thesis using assms(2) root_path(2) [of s] by (auto simp: leaf_def)
qed

lemma permission_user_bit: "bit ((e AND FRAME_MASK) OR permission_flags u w x) 2 = u"
  by (auto simp: permission_flags_def bit_simps flag_bits bit_FRAME_MASK bit_NO_EXEC)

lemma set_rights_fold:
  assumes "low_mapped s" "\<forall>(a, r) \<in> set ops. unat a < 0x200000"
  defines "s' \<equiv> fold set_rights ops s"
  shows "low_mapped s' \<and> walks s' = walks s
    \<and> (\<forall>v. unat v < 0x200000 \<longrightarrow> leaf s' (indices v) = (case granted ops v of
          None \<Rightarrow> leaf s (indices v)
        | Some (u, w, x) \<Rightarrow> Some ((v AND FRAME_MASK) OR permission_flags u w x)))
    \<and> (\<forall>v. granted ops v = None \<longrightarrow> leaf s' (indices v) = leaf s (indices v))
    \<and> (ops \<noteq> [] \<longrightarrow> directory_user (fst (snd (last ops))) s')"
  using assms(2) unfolding s'_def
proof (induction ops rule: rev_induct)
  case Nil
  then show ?case using assms(1) by (simp add: granted_def)
next
  case (snoc op ops)
  obtain a u w x where op: "op = (a, u, w, x)" by (cases op)
  let ?t = "fold set_rights ops s"
  have IH: "low_mapped ?t" "walks ?t = walks s"
    "\<And>v. unat v < 0x200000 \<Longrightarrow> leaf ?t (indices v) = (case granted ops v of
          None \<Rightarrow> leaf s (indices v)
        | Some (u, w, x) \<Rightarrow> Some ((v AND FRAME_MASK) OR permission_flags u w x))"
    "\<And>v. granted ops v = None \<Longrightarrow> leaf ?t (indices v) = leaf s (indices v)"
    using snoc by auto
  have a: "unat a < 0x200000" using snoc.prems by (simp add: op)
  note R = set_rights_low [OF IH(1) a, where r = "(u, w, x)"]
  have notdir: "indices v \<notin> {[0], [0, 0], [0, 0, 0]}" for v by (simp add: indices_def)
  have "leaf (set_rights op ?t) (indices v) = (case granted (ops @ [op]) v of
          None \<Rightarrow> leaf s (indices v)
        | Some (u, w, x) \<Rightarrow> Some ((v AND FRAME_MASK) OR permission_flags u w x))"
    if v: "unat v < 0x200000" for v
    using R(3) [OF indices_ok(1,3), of v] IH(3) [OF v] notdir frame_cong [OF IH(1) v a]
    by (auto simp: op granted_snoc indices_ok)
  moreover have "leaf (set_rights op ?t) (indices v) = leaf s (indices v)" if "granted (ops @ [op]) v = None" for v
    using that R(3) [OF indices_ok(1,3), of v] IH(4) [of v] notdir [of v]
    by (auto simp: op granted_snoc indices_ok split: if_splits)
  moreover have "directory_user u (set_rights op ?t)"
    unfolding directory_user_def
  proof
    fix q assume q: "q \<in> {[0], [0, 0], [0, 0, 0 :: u64]}"
    obtain e where e: "leaf ?t q = Some e" using low_directories [OF IH(1) q] by blast
    have "idx_ok q" "q \<noteq> []" "length q \<le> 4" "q \<noteq> indices a"
      using q notdir [of a] by (auto simp: idx_ok_def)
    then show "\<exists>e. leaf (set_rights op ?t) q = Some e \<and> bit e 2 = u"
      using R(3) [of q] q e by (simp add: op permission_user_bit)
  qed
  ultimately show ?case using R(1,2) IH(1,2) by (simp add: op)
qed

lemma user_accessible_low:
  assumes "low_mapped s" "unat v < 0x200000" "directory_user True s" "leaf s (indices v) = Some e"
  shows "user_accessible s v \<longleftrightarrow> bit e 2"
proof -
  have t: "tree_inv s" "translate s v = Some (v AND FRAME_MASK)"
    using assms(1,2) by (auto simp: low_mapped_def)
  obtain t3 t2 t1 where w: "walks s [0] = Some t3" "walks s [0, 0] = Some t2" "walks s [0, 0, 0] = Some t1"
    and e: "present (entry s (pt4 s) 0)" "entry s (pt4 s) 0 AND FRAME_MASK = t3"
    "present (entry s t3 0)" "entry s t3 0 AND FRAME_MASK = t2"
    "present (entry s t2 0)" "entry s t2 0 AND FRAME_MASK = t1"
    "present (entry s t1 (page_index v))"
    using translate_levels [OF t] unfolding low_indices [OF assms(2)] by metis
  have "leaf s [0] = Some (entry s (pt4 s) 0)" "leaf s [0, 0] = Some (entry s t3 0)"
    "leaf s [0, 0, 0] = Some (entry s t2 0)" "leaf s (indices v) = Some (entry s t1 (page_index v))"
    using w root_path(2) [of s] by (simp_all add: leaf_def indices_def low_indices [OF assms(2)])
  then have "bit (entry s (pt4 s) 0) 2" "bit (entry s t3 0) 2" "bit (entry s t2 0) 2"
    "e = entry s t1 (page_index v)"
    using assms(3,4) by (auto simp: directory_user_def)
  moreover have "walk_entries (pmem s) (pt4 s) (indices v)
      = [entry s (pt4 s) 0, entry s t3 0, entry s t2 0, entry s t1 (page_index v)]"
    using e by (simp add: indices_def low_indices [OF assms(2)] entry_def Let_def)
  ultimately show ?thesis using e by (simp add: user_accessible_def Let_def user_bit)
qed

lemma permission_plan_low:
  assumes "low_layout L"
  shows "\<forall>(a, r) \<in> set (permission_plan L). unat a < 0x200000"
proof -
  have b: "unat a < 0x200000" if "a \<in> set (section_pages start stop)" "unat stop \<le> 0x200000" for a start stop
    using section_pages_bound [OF that(1)] that(2) by simp
  have L: "unat (BOOT_END L) \<le> 0x200000" "unat (KERNEL_TEXT_END L) \<le> 0x200000"
    "unat (KERNEL_RODATA_END L) \<le> 0x200000" "unat (KERNEL_DATA_END L) \<le> 0x200000"
    "unat (KERNEL_BSS_END L) \<le> 0x200000" "unat (OS_TEXT_END L) \<le> 0x200000"
    "unat (OS_RODATA_END L) \<le> 0x200000" "unat (OS_DATA_END L) \<le> 0x200000"
    "unat (OS_BSS_END L) \<le> 0x200000" "unat (boot_counter L) \<le> 0x200000"
    using assms boot_counter_bound [OF assms] by (simp_all add: low_layout_def)
  show ?thesis
    unfolding permission_plan_def with_rights_def set_append set_map
    using L by (auto intro: b)
qed

text \<open>The plan ends with operations of the OS, and none of these is writable and executable.\<close>

lemma permission_plan_os:
  assumes "(a, True, w, x) \<in> set (permission_plan L)"
  shows "\<not> (w \<and> x)"
  using assms by (auto simp: permission_plan_def with_rights_def)

lemma last_with_rights: "as \<noteq> [] \<Longrightarrow> snd (last (with_rights r as)) = r"
  by (simp add: with_rights_def last_map)

lemma permission_plan_last:
  assumes "section_pages (OS_TEXT_START L) (OS_TEXT_END L) \<noteq> []"
  shows "permission_plan L \<noteq> []" "fst (snd (last (permission_plan L)))"
proof -
  have Nil: "with_rights r as = [] \<longleftrightarrow> as = []" for r as by (simp add: with_rights_def)
  show "permission_plan L \<noteq> []" using assms by (simp add: permission_plan_def Nil)
  show "fst (snd (last (permission_plan L)))"
    using assms by (simp add: permission_plan_def last_append Nil last_with_rights)
qed

lemma granted_page: "granted ops v = Some r \<Longrightarrow> \<exists>a. (a, r) \<in> set ops \<and> indices a = indices v"
  by (auto simp: granted_def find_Some_iff) (metis nth_mem set_rev length_rev)

lemma user_accessible_leaf:
  assumes "user_accessible s v"
  shows "\<exists>e. leaf s (indices v) = Some e \<and> bit e 2"
proof -
  define e4 where "e4 = entry s (pt4 s) (pt4_index v)"
  define e3 where "e3 = entry s (e4 AND FRAME_MASK) (pt3_index v)"
  define e2 where "e2 = entry s (e3 AND FRAME_MASK) (pt2_index v)"
  define e1 where "e1 = entry s (e2 AND FRAME_MASK) (page_index v)"
  define es where "es = walk_entries (pmem s) (pt4 s) (indices v)"
  have es: "es = e4 # (if present e4 then e3 # (if present e3 then e2 # (if present e2 then [e1] else []) else []) else [])"
    by (simp add: es_def indices_def e4_def e3_def e2_def e1_def entry_def Let_def)
  have "length es = 4" "\<forall>e \<in> set es. bit e 2"
    using assms by (simp_all add: user_accessible_def es_def [symmetric] user_bit Let_def)
  then have e: "present e4" "present e3" "present e2" "bit e1 2"
    unfolding es by (simp_all split: if_splits)
  have "walks s [pt4_index v, pt3_index v, pt2_index v] = Some (e2 AND FRAME_MASK)"
    using e(1-3) by (simp add: walks_def idx_ok_def walk_step_def e4_def e3_def e2_def entry_def Let_def)
  then show ?thesis using e(4) by (simp add: leaf_def indices_def e1_def)
qed

text \<open>Rights belong to pages: addresses with the same indices have the same rights.\<close>

lemma user_accessible_cong: "indices a = indices v \<Longrightarrow> user_accessible s a = user_accessible s v"
  by (simp add: user_accessible_def)

lemma granted_cong: "indices a = indices v \<Longrightarrow> granted ops a = granted ops v"
  by (simp add: granted_def)

lemma permission_bits:
  "page_aligned a \<Longrightarrow> unat a < 2 ^ 40 \<Longrightarrow> bit (a OR permission_flags u w x) 1 = w"
  "page_aligned a \<Longrightarrow> unat a < 2 ^ 40 \<Longrightarrow> bit (a OR permission_flags u w x) 2 = u"
  "page_aligned a \<Longrightarrow> unat a < 2 ^ 40 \<Longrightarrow> bit (a OR permission_flags u w x) 63 \<longleftrightarrow> \<not> x"
  using page_aligned_bit [of a 1] page_aligned_bit [of a 2] bit_less_2p [of a 63 40]
  by (auto simp: permission_flags_def bit_simps flag_bits bit_NO_EXEC)

section \<open>The tables the boot code sets up\<close>

text \<open>
  \<open>setup_paging\<close> (boot/include/protected_mode.asm) fills one table per level and maps the first
  two megabytes to themselves; the state below has the four tables at \<open>0x1000\<close> to \<open>0x4000\<close>.
  Memory is given by its eight-byte words.
\<close>

definition mem_of_words :: "(nat \<Rightarrow> nat) \<Rightarrow> memory" where
  "mem_of_words f a = word_of_nat (f (unat a div 8) div 256 ^ (unat a mod 8))"

lemma load64_mem_of_words:
  assumes "8 dvd unat a" "f (unat a div 8) < 2 ^ 64"
  shows "load64 (mem_of_words f) a = word_of_nat (f (unat a div 8))"
proof -
  obtain j where j: "unat a = 8 * j" using assms(1) by (rule dvdE)
  have u: "unat (a + word_of_nat k) = 8 * j + k" if "k < 8" for k
  proof -
    have "8 * j + k < 2 ^ 64" using j that unat64_lt [of a] by simp
    then show ?thesis using unat64_add [of a "word_of_nat k"] unat64_of_nat [of k] that j by simp
  qed
  have "load_le n (mem_of_words f) (a + word_of_nat (8 - n)) = f j div 256 ^ (8 - n) mod 256 ^ n"
    if "n \<le> 8" for n
    using that
  proof (induction n)
    case 0
    then show ?case by simp
  next
    case (Suc n)
    let ?k = "7 - n"
    define X where "X = f j div 256 ^ ?k"
    have k: "8 - Suc n = ?k" "8 - n = Suc ?k" "?k < 8" using Suc.prems by simp_all
    have b: "unat (mem_of_words f (a + word_of_nat ?k)) = X mod 256"
      using u [OF k(3)] k(3) by (simp add: mem_of_words_def X_def unat_of_nat)
    have "load_le n (mem_of_words f) (a + word_of_nat ?k + 1) = X div 256 mod 256 ^ n"
      using Suc by (simp add: k(2) X_def div_mult2_eq [symmetric] algebra_simps)
    then show ?case
      using b mod_mult2_eq [of X 256 "256 ^ n"] by (simp add: k(1) X_def [symmetric])
  qed
  from this [of 8] show ?thesis using assms(2) j by (simp add: load64_def)
qed

definition boot_words :: "nat \<Rightarrow> nat" where
  "boot_words j = (if j = 0x200 then 0x2003 else if j = 0x400 then 0x3003 else if j = 0x600 then 0x4003
     else if 0x800 \<le> j \<and> j < 0xa00 then (j - 0x800) * 4096 + 3 else 0)"

definition boot_paging :: paging where
  "boot_paging = \<lparr>phys = pmm_boot, pt4 = 0x1000, pmem = mem_of_words boot_words, intr = False, invlpg = []\<rparr>"

lemma boot_entry:
  assumes "unat i < 512" "unat t \<le> 0x4000" "8 dvd unat t"
  shows "load64 (mem_of_words boot_words) (t + 8 * i) = word_of_nat (boot_words (unat t div 8 + unat i))"
proof -
  have "unat (8 * i) = 8 * unat i" using unat64_mult [of 8 i] assms(1) by simp
  then have u: "unat (t + 8 * i) = unat t + 8 * unat i"
    using unat64_add [of t "8 * i"] assms(1,2) by simp
  moreover have "boot_words k < 2 ^ 64" for k by (auto simp: boot_words_def)
  ultimately show ?thesis using load64_mem_of_words [of "t + 8 * i" boot_words] assms(3) by auto
qed

lemma present_of_nat: "present (word_of_nat n) \<longleftrightarrow> odd n"
  by (simp add: present_bit bit_0)

lemma boot_page_word: "(word_of_nat (unat i * 4096 + 3) :: u64) = push_bit 12 i OR mask 2"
proof -
  have "(word_of_nat (unat i * 4096 + 3) :: u64) = push_bit 12 i + mask 2"
    by (simp add: push_bit_eq_mult mult.commute mask_eq_exp_minus_1)
  also have "\<dots> = push_bit 12 i OR mask 2"
    by (rule disjunctive_add) (auto simp: bit_simps)
  finally show ?thesis .
qed

lemma boot_step:
  assumes "unat i < 512"
  shows "walk_step (mem_of_words boot_words) 0x1000 i = (if i = 0 then Some 0x2000 else None)"
    "walk_step (mem_of_words boot_words) 0x2000 i = (if i = 0 then Some 0x3000 else None)"
    "walk_step (mem_of_words boot_words) 0x3000 i = (if i = 0 then Some 0x4000 else None)"
    "walk_step (mem_of_words boot_words) 0x4000 i = Some (push_bit 12 i)"
proof -
  have i0: "i = 0 \<longleftrightarrow> unat i = 0" by (simp add: unat_eq_0)
  note e = boot_entry [OF assms] present_of_nat walk_step_def Let_def i0 boot_words_def FRAME_MASK_def
  show "walk_step (mem_of_words boot_words) 0x1000 i = (if i = 0 then Some 0x2000 else None)"
    "walk_step (mem_of_words boot_words) 0x2000 i = (if i = 0 then Some 0x3000 else None)"
    "walk_step (mem_of_words boot_words) 0x3000 i = (if i = 0 then Some 0x4000 else None)"
    using assms by (auto simp: e)
  have "(word_of_nat (unat i * 4096 + 3) :: u64) AND FRAME_MASK = push_bit 12 i"
    unfolding boot_page_word
  proof (rule bit_eqI)
    fix n
    show "bit ((push_bit 12 i OR mask 2) AND FRAME_MASK) n = bit (push_bit 12 i) n"
      using bit_less_2p [of i "n - 12" 9] assms by (auto simp: bit_simps bit_FRAME_MASK)
  qed
  moreover have "present (word_of_nat (unat i * 4096 + 3))" by (simp only: present_of_nat) simp
  moreover have "load64 (mem_of_words boot_words) (0x4000 + 8 * i) = word_of_nat (unat i * 4096 + 3)"
    using assms by (simp add: boot_entry boot_words_def)
  ultimately show "walk_step (mem_of_words boot_words) 0x4000 i = Some (push_bit 12 i)"
    by (simp only: walk_step_def Let_def if_True)
qed

lemma tree_inv_boot: "tree_inv boot_paging"
proof -
  let ?m = "mem_of_words boot_words"
  have w: "(p, t) \<in> {([], 0x1000), ([0], 0x2000), ([0, 0], 0x3000), ([0, 0, 0], 0x4000)}"
    if "table_path p" "walk ?m 0x1000 p = Some t" for p t
  proof -
    have "idx_ok p" "length p \<le> 3" using that(1) by (simp_all add: table_path_def)
    then consider "p = []" | i where "p = [i]" "unat i < 512"
      | i j where "p = [i, j]" "unat i < 512" "unat j < 512"
      | i j k where "p = [i, j, k]" "unat i < 512" "unat j < 512" "unat k < 512"
      by (cases p rule: remdups_adj.cases; cases "tl (tl p)") (auto simp: idx_ok_def)
    then show ?thesis using that(2) by cases (auto simp: boot_step split: if_splits)
  qed
  have free: "t \<notin> free_frames pmm_boot" if "unat t < 0x100000" for t
    using free_frames_props(4) [OF pmm_inv_boot, of t] that by (auto simp: word_le_nat_alt)
  have "page_aligned t \<and> unat t < 2 ^ 40 \<and> t \<notin> free_frames pmm_boot"
    if "table_path p" "walk ?m 0x1000 p = Some t" for p t
    using w [OF that] free [of t] by (auto simp: page_aligned_def)
  moreover have "p = q" if "table_path p" "table_path q"
    "walk ?m 0x1000 p = Some t" "walk ?m 0x1000 q = Some t" for p q t
    using w [OF that(1,3)] w [OF that(2,4)] by auto
  ultimately show ?thesis by (simp add: tree_inv_def boot_paging_def pmm_inv_boot)
qed

lemma low_page_frame:
  assumes "unat v < 0x200000"
  shows "push_bit 12 (page_index v) = v AND FRAME_MASK"
proof (rule bit_eqI)
  fix n assume "possible_bit TYPE(64 word) n"
  have p: "page_index v = drop_bit 12 v AND mask 9" by (simp add: page_index_def mask_eq_exp_minus_1)
  show "bit (push_bit 12 (page_index v)) n = bit (v AND FRAME_MASK) n"
    using bit_less_2p [of v n 21] assms
    unfolding p by (auto simp: bit_simps bit_FRAME_MASK)
qed

lemma low_mapped_boot: "low_mapped boot_paging"
  using tree_inv_boot
  by (simp add: low_mapped_def translate_def boot_paging_def indices_def low_indices boot_step
      low_page_frame)

lemma boot_leaf:
  assumes "leaf boot_paging (indices v) = Some e"
  shows "\<not> bit e 2"
proof -
  have "walks boot_paging [pt4_index v, pt3_index v, pt2_index v]
      = (if pt4_index v = 0 \<and> pt3_index v = 0 \<and> pt2_index v = 0 then Some 0x4000 else None)"
    by (simp add: walks_def boot_paging_def idx_ok_def boot_step)
  then have "e = entry boot_paging 0x4000 (page_index v)"
    using assms by (simp add: leaf_def indices_def split: if_splits)
  then show ?thesis
    using boot_page_word [of "page_index v"]
    by (simp add: entry_def boot_paging_def boot_entry boot_words_def) (simp add: bit_simps)
qed

section \<open>Properties\<close>

text \<open>
  C20: mapping one page with kernel flags takes user access away from every page under the same
  top-level entry, that is from all user pages of the low 512 GiB at once: the directory
  entries are overwritten with the flags of the page that happens to be mapped.
\<close>

theorem kernel_mapping_revokes_user_access:
  assumes "tree_inv s" "good_flags flags" "3 \<le> card (free_frames (phys s))"
    and "flags AND USER_ACCESS_BIT = 0" and "pt4_index w = pt4_index v"
  shows "\<not> user_accessible (vmm_map_memory physical v flags s) w"
proof
  assume "user_accessible (vmm_map_memory physical v flags s) w"
  then have "bit (entry (vmm_map_memory physical v flags s) (pt4 s) (pt4_index v)) 2"
    using user_accessible_root [of "vmm_map_memory physical v flags s" w] assms(5)
    by (simp add: pt4_vmm_map_memory)
  then have "bit flags 2" using vmm_map_memory_root_flags [OF assms(1-3)] by simp
  then show False using assms(4) user_bit by blast
qed

theorem kernel_mapping_revokes_user_access_witness:
  "\<not> user_accessible (vmm_map_memory 0 0x400000 3 user_page_paging) 0x200000"
proof -
  have "3 \<le> card (free_frames (phys user_page_paging))" using user_page_paging(3) by linarith
  moreover have "3 AND USER_ACCESS_BIT = 0" by (simp add: USER_ACCESS_BIT_def)
  moreover have "pt4_index 0x200000 = pt4_index 0x400000" by (simp add: pt4_index_def)
  ultimately show ?thesis
    using kernel_mapping_revokes_user_access [OF user_page_paging(1) good_flags_small(1)] by blast
qed

text \<open>
  setting the permissions of a mapped page changes no translation; the page entry holds
  exactly the frame and the requested rights, all directory entries above it become writable,
  executable and user accessible as the page is, and every other entry stays as it was.
\<close>

lemma set_page_permission_correct:
  assumes "tree_inv s" "translate s v = Some a" "unat a < 2 ^ 40" "page_aligned a"
  shows "let s' = set_page_permission v is_os is_writable is_executable s
    in (\<forall>w. translate s' w = translate s w) \<and> tree_inv s' \<and> intr s' = intr s
     \<and> (\<forall>q. idx_ok q \<longrightarrow> q \<noteq> [] \<longrightarrow> length q \<le> 4 \<longrightarrow> leaf s' q =
          (if q = indices v then Some (a OR permission_flags is_os is_writable is_executable)
           else if above q v
           then map_option (\<lambda>e. (e AND FRAME_MASK) OR permission_flags is_os True True) (leaf s q)
           else leaf s q))"
  using set_page_permission_spec [OF assms] unfolding Let_def translate_walks by simp

text \<open>
  C18: on the memory that the boot code maps, \<open>vmm_set_page_permissions\<close> returns, keeps every
  translation, and gives each page the rights of the last section that covers it (boot and low
  space, kernel text, read-only data, data, bss, then the sections of the OS); a page outside
  all sections keeps its entry.
\<close>

theorem vmm_set_page_permissions_rights:
  assumes "low_mapped s" "low_layout L"
  shows "\<exists>s'. vmm_set_page_permissions L s = Some s' \<and> (\<forall>v. translate s' v = translate s v)
    \<and> (\<forall>v. unat v < 0x200000 \<longrightarrow> leaf s' (indices v) =
        (case granted (permission_plan L) v of
           None \<Rightarrow> leaf s (indices v)
         | Some (is_os, w, x) \<Rightarrow> Some ((v AND FRAME_MASK) OR permission_flags is_os w x)))"
  using vmm_set_page_permissions_fold [OF assms(2)]
    set_rights_fold [OF assms(1) permission_plan_low [OF assms(2)]]
  by (simp add: translate_walks)

text \<open>A layout of the kind the linker scripts produce, with the boot sector at \<open>0x7c00\<close>.\<close>

definition sample_layout :: layout where
  "sample_layout = \<lparr>BOOT_START = 0x7c00, BOOT_END = 0x8400,
     KERNEL_TEXT_START = 0x9000, KERNEL_TEXT_END = 0xd123, KERNEL_RODATA_START = 0xe000,
     KERNEL_RODATA_END = 0x10010, KERNEL_DATA_START = 0x11000, KERNEL_DATA_END = 0x11100,
     KERNEL_BSS_START = 0x15000, KERNEL_BSS_END = 0x1a000, OS_TEXT_START = 0x12000,
     OS_TEXT_END = 0x12800, OS_RODATA_START = 0x13000, OS_RODATA_END = 0x13020,
     OS_DATA_START = 0x14000, OS_DATA_END = 0x14008, OS_BSS_START = 0x1a000, OS_BSS_END = 0x1b000\<rparr>"

lemma low_layout_sample: "low_layout sample_layout"
  by (simp add: low_layout_def sample_layout_def)

theorem vmm_set_page_permissions_rights_witness:
  "\<exists>s'. vmm_set_page_permissions sample_layout boot_paging = Some s'
     \<and> leaf s' (indices 0x9000) = Some (0x9000 OR permission_flags False False True)"
proof -
  have "granted (permission_plan sample_layout) 0x9000 = Some (False, False, True)"
    by (simp add: granted_def permission_plan_def sample_layout_def with_rights_def section_pages_def
        page_count_def PAGE_SIZE_def boot_counter_def indices_def pt4_index_def pt3_index_def
        pt2_index_def page_index_def upt_conv_Cons)
  then show ?thesis
    using vmm_set_page_permissions_rights [OF low_mapped_boot low_layout_sample]
    by (auto simp: FRAME_MASK_def elim!: allE [of _ "0x9000"])
qed

text \<open>
  C2: isolation after start-up. From a memory in which no page entry has the user bit, with a non-empty OS
  text section, \<open>vmm_set_page_permissions\<close> makes exactly the pages of the OS sections accessible to
  user code, of all pages of the address space: the pages mapped elsewhere stay closed although they
  share the directory entries that get the user bit. No page that user code can reach is both writable
  (bit 1) and executable (bit 63 clear).
\<close>

theorem vmm_set_page_permissions_isolation:
  assumes "low_mapped s" "low_layout L" "OS_TEXT_START L < OS_TEXT_END L"
    and "\<forall>v e. leaf s (indices v) = Some e \<longrightarrow> \<not> bit e 2"
  shows "\<exists>s'. vmm_set_page_permissions L s = Some s' \<and> (\<forall>v.
      (user_accessible s' v \<longleftrightarrow> (\<exists>w x. granted (permission_plan L) v = Some (True, w, x)))
    \<and> (user_accessible s' v \<longrightarrow> (\<exists>e. leaf s' (indices v) = Some e \<and> (bit e 1 \<longrightarrow> bit e 63))))"
proof -
  let ?ops = "permission_plan L" and ?s' = "fold set_rights (permission_plan L) s"
  have "unat (OS_TEXT_END L) + 4096 \<le> 2 ^ 64" using assms(2) by (simp add: low_layout_def)
  then have os: "section_pages (OS_TEXT_START L) (OS_TEXT_END L) \<noteq> []"
    using section_pages_step [OF assms(3)] by simp
  note f = set_rights_fold [OF assms(1) permission_plan_low [OF assms(2)]]
  have low: "low_mapped ?s'" and dir: "directory_user True ?s'"
    using f permission_plan_last [OF os] by auto
  have "(user_accessible ?s' v \<longleftrightarrow> (\<exists>w x. granted ?ops v = Some (True, w, x)))
    \<and> (user_accessible ?s' v \<longrightarrow> (\<exists>e. leaf ?s' (indices v) = Some e \<and> (bit e 1 \<longrightarrow> bit e 63)))" for v
  proof (cases "granted ?ops v")
    case None
    then have "leaf ?s' (indices v) = leaf s (indices v)" using f by blast
    then have "\<not> user_accessible ?s' v" using user_accessible_leaf [of ?s' v] assms(4) by auto
    then show ?thesis using None by simp
  next
    case (Some r)
    obtain u w x where r: "r = (u, w, x)" by (cases r)
    obtain a where a: "(a, r) \<in> set ?ops" "indices a = indices v" using granted_page [OF Some] by blast
    have low_a: "unat a < 0x200000" using permission_plan_low [OF assms(2)] a(1) by auto
    have g: "granted ?ops a = Some (u, w, x)" using granted_cong [OF a(2)] Some r by simp
    then have l: "leaf ?s' (indices a) = Some ((a AND FRAME_MASK) OR permission_flags u w x)"
      using f low_a by simp
    have "u \<Longrightarrow> \<not> (w \<and> x)" using permission_plan_os [of a w x L] a(1) r by auto
    then show ?thesis
      using user_accessible_low [OF low low_a dir l] user_accessible_cong [OF a(2), of ?s']
        permission_bits [OF frame_of_low [OF low_a]] l a(2) Some r by auto
  qed
  then show ?thesis using vmm_set_page_permissions_fold [OF assms(2)] by blast
qed

theorem vmm_set_page_permissions_isolation_witness:
  "\<exists>s'. vmm_set_page_permissions sample_layout boot_paging = Some s'
     \<and> user_accessible s' 0x12000 \<and> \<not> user_accessible s' 0x9000 \<and> \<not> user_accessible s' 0x210000"
proof -
  have "OS_TEXT_START sample_layout < OS_TEXT_END sample_layout" by (simp add: sample_layout_def)
  from vmm_set_page_permissions_isolation [OF low_mapped_boot low_layout_sample this] boot_leaf
  obtain s' where s': "vmm_set_page_permissions sample_layout boot_paging = Some s'"
      "\<And>v. user_accessible s' v \<longleftrightarrow> (\<exists>w x. granted (permission_plan sample_layout) v = Some (True, w, x))"
    by blast
  note g = granted_def permission_plan_def sample_layout_def with_rights_def section_pages_def
        page_count_def PAGE_SIZE_def boot_counter_def indices_def pt4_index_def pt3_index_def
        pt2_index_def page_index_def upt_conv_Cons
  have "granted (permission_plan sample_layout) 0x12000 = Some (True, False, True)"
    "granted (permission_plan sample_layout) 0x9000 = Some (False, False, True)"
    "granted (permission_plan sample_layout) 0x210000 = None"
    by (simp_all add: g)
  then have "user_accessible s' 0x12000" "\<not> user_accessible s' 0x9000" "\<not> user_accessible s' 0x210000"
    unfolding s'(2) by auto
  then show ?thesis using s'(1) by blast
qed

end
