(* ===== verification/Ports.thy ===== *)
theory Ports
  imports Prelude
begin

text \<open>
  Port input and output (PortIO.c) and the interrupt controllers (PIC.c). The state of the port
  bus is the history of accesses; what a read returns is given by an environment, a function of
  that history. The two 8259 controllers are such an environment: their registers are computed
  from the history as their documentation describes, and the theory shows what the routines of
  PIC.c leave in them.
\<close>

section \<open>Port access\<close>

datatype port_event = Out u16 u8 | In u16 u8

type_synonym ports = "port_event list"
type_synonym environment = "ports \<Rightarrow> u16 \<Rightarrow> u8"

definition outb :: "u16 \<Rightarrow> u8 \<Rightarrow> ports \<Rightarrow> ports" where
  "outb port val h = Out port val # h"

definition inb :: "environment \<Rightarrow> u16 \<Rightarrow> ports \<Rightarrow> u8 \<times> ports" where
  "inb env port h = (let ret = env h port in (ret, In port ret # h))"

definition io_wait :: "ports \<Rightarrow> ports" where
  "io_wait h = outb 0x80 0 h"

section \<open>PIC.c\<close>

definition PIC1_COMMAND :: u16 where "PIC1_COMMAND = 0x20"
definition PIC1_DATA :: u16 where "PIC1_DATA = 0x20 + 1"
definition PIC2_COMMAND :: u16 where "PIC2_COMMAND = 0xA0"
definition PIC2_DATA :: u16 where "PIC2_DATA = 0xA0 + 1"
definition PIC_EOI :: u8 where "PIC_EOI = 0x20"
definition ICW1_ICW4 :: u8 where "ICW1_ICW4 = 0x01"
definition ICW1_INIT :: u8 where "ICW1_INIT = 0x10"
definition ICW4_8086 :: u8 where "ICW4_8086 = 0x01"

lemmas pic_ports = PIC1_COMMAND_def PIC1_DATA_def PIC2_COMMAND_def PIC2_DATA_def

definition PIC_send_EOI :: "u32 \<Rightarrow> ports \<Rightarrow> ports" where
  "PIC_send_EOI irq_no h =
     (let h = (if irq_no \<ge> 8 then outb PIC2_COMMAND PIC_EOI h else h)
      in outb PIC1_COMMAND PIC_EOI h)"

definition PIC_remap :: "environment \<Rightarrow> u32 \<Rightarrow> u32 \<Rightarrow> ports \<Rightarrow> ports" where
  "PIC_remap env offset1 offset2 h =
     (let (a1, h) = inb env PIC1_DATA h;
          (a2, h) = inb env PIC2_DATA h;
          h = io_wait (outb PIC1_COMMAND (ICW1_INIT OR ICW1_ICW4) h);
          h = io_wait (outb PIC2_COMMAND (ICW1_INIT OR ICW1_ICW4) h);
          h = io_wait (outb PIC1_DATA (ucast offset1) h);
          h = io_wait (outb PIC2_DATA (ucast offset2) h);
          h = io_wait (outb PIC1_DATA 4 h);
          h = io_wait (outb PIC2_DATA 2 h);
          h = io_wait (outb PIC1_DATA ICW4_8086 h);
          h = io_wait (outb PIC2_DATA ICW4_8086 h);
          h = outb PIC1_DATA a1 h
      in outb PIC2_DATA a2 h)"

text \<open>
  The line is an \<open>unsigned char\<close>; \<open>1 << IRQline\<close> is computed as an \<open>int\<close>, whose shift count
  must stay below 32, and the result is cut to a byte.
\<close>

definition line_of :: "u8 \<Rightarrow> u16 \<times> u8" where
  "line_of IRQline = (if IRQline < 8 then (PIC1_DATA, IRQline) else (PIC2_DATA, IRQline - 8))"

definition line_bit :: "u8 \<Rightarrow> u8" where
  "line_bit line = ucast (push_bit (unat line) (1 :: u32))"

definition IRQ_set_mask :: "environment \<Rightarrow> u8 \<Rightarrow> ports \<Rightarrow> ports" where
  "IRQ_set_mask env IRQline h =
     (let (port, line) = line_of IRQline;
          (v, h) = inb env port h
      in outb port (v OR line_bit line) h)"

definition IRQ_clear_mask :: "environment \<Rightarrow> u8 \<Rightarrow> ports \<Rightarrow> ports" where
  "IRQ_clear_mask env IRQline h =
     (let (port, line) = line_of IRQline;
          (v, h) = inb env port h
      in outb port (v AND NOT (line_bit line)) h)"

section \<open>The 8259 controllers as the hardware documents them\<close>

text \<open>
  A controller has an interrupt mask, an in-service register, a vector base, the cascade byte
  and the mode byte. A command with bit 4 set (ICW1) starts an initialisation: it clears the
  mask, and the next data writes are ICW2, ICW3 and, if announced, ICW4; \<open>expect\<close> is the number
  of the initialisation word expected next, zero in operation. In operation a data write sets
  the mask, and the command \<open>0x20\<close> ends the interrupt in service with the highest priority.
\<close>

record pic8259 =
  imr :: u8
  isr :: u8
  vector_base :: u8
  cascade :: u8
  mode :: u8
  expect :: nat
  want_icw4 :: bool

definition lowest_bit :: "u8 \<Rightarrow> u8" where
  "lowest_bit x = x AND (- x)"

definition pic_command :: "u8 \<Rightarrow> pic8259 \<Rightarrow> pic8259" where
  "pic_command v p =
     (if bit v 4 then p\<lparr>imr := 0, isr := 0, expect := 2, want_icw4 := bit v 0\<rparr>
      else if v = 0x20 then p\<lparr>isr := isr p AND NOT (lowest_bit (isr p))\<rparr>
      else p)"

definition pic_data :: "u8 \<Rightarrow> pic8259 \<Rightarrow> pic8259" where
  "pic_data v p =
     (if expect p = 2 then p\<lparr>vector_base := v AND 0xf8, expect := 3\<rparr>
      else if expect p = 3 then p\<lparr>cascade := v, expect := (if want_icw4 p then 4 else 0)\<rparr>
      else if expect p = 4 then p\<lparr>mode := v, expect := 0\<rparr>
      else p\<lparr>imr := v\<rparr>)"

text \<open>The pair of controllers after a history of port accesses, from a state at power-on.\<close>

primrec pics :: "pic8259 \<times> pic8259 \<Rightarrow> ports \<Rightarrow> pic8259 \<times> pic8259" where
  "pics P [] = P"
| "pics P (e # h) =
     (let (p1, p2) = pics P h
      in case e of
           In _ _ \<Rightarrow> (p1, p2)
         | Out port v \<Rightarrow>
             if port = 0x20 then (pic_command v p1, p2)
             else if port = 0x21 then (pic_data v p1, p2)
             else if port = 0xA0 then (p1, pic_command v p2)
             else if port = 0xA1 then (p1, pic_data v p2)
             else (p1, p2))"

text \<open>The documented behaviour of a read: the data port gives the mask.\<close>

definition reads_masks :: "pic8259 \<times> pic8259 \<Rightarrow> environment \<Rightarrow> bool" where
  "reads_masks P env \<longleftrightarrow>
     (\<forall>h. env h 0x21 = imr (fst (pics P h)) \<and> env h 0xA1 = imr (snd (pics P h)))"

definition pic_env :: "pic8259 \<times> pic8259 \<Rightarrow> environment" where
  "pic_env P h port =
     (if port = 0x21 then imr (fst (pics P h)) else if port = 0xA1 then imr (snd (pics P h)) else 0)"

lemma reads_masks_pic_env: "reads_masks P (pic_env P)"
  by (simp add: reads_masks_def pic_env_def)

lemma pics_out:
  "pics P (outb port v h) =
     (let (p1, p2) = pics P h
      in if port = 0x20 then (pic_command v p1, p2) else if port = 0x21 then (pic_data v p1, p2)
         else if port = 0xA0 then (p1, pic_command v p2) else if port = 0xA1 then (p1, pic_data v p2)
         else (p1, p2))"
  by (simp add: outb_def)

lemma pics_wait [simp]: "pics P (io_wait h) = pics P h"
  by (simp add: io_wait_def pics_out split: prod.split)

lemma pics_in [simp]: "inb env port h = (v, h') \<Longrightarrow> pics P h' = pics P h"
  by (auto simp: inb_def Let_def split: prod.splits)

lemma line_bit_iff: "unat line < 8 \<Longrightarrow> bit (line_bit line) n \<longleftrightarrow> n = unat line"
  by (auto simp: line_bit_def bit_simps)

section \<open>Properties\<close>

text \<open>
  \<open>PIC_remap\<close> on 8259 controllers in operation reprograms both of them to the given vector
  offsets (multiples of eight) with the slave cascaded on line 2 in 8086 mode, and restores
  both interrupt masks, which the initialisation clears.
\<close>

lemma PIC_remap_correct:
  assumes "reads_masks P env"
    and "expect (fst (pics P h)) = 0" "expect (snd (pics P h)) = 0"
  shows "let (p1, p2) = pics P h; (q1, q2) = pics P (PIC_remap env offset1 offset2 h)
    in vector_base q1 = ucast offset1 AND 0xf8 \<and> vector_base q2 = ucast offset2 AND 0xf8
     \<and> imr q1 = imr p1 \<and> imr q2 = imr p2 \<and> cascade q1 = 4 \<and> cascade q2 = 2
     \<and> mode q1 = 1 \<and> mode q2 = 1 \<and> expect q1 = 0 \<and> expect q2 = 0"
proof -
  obtain p1 p2 where p: "pics P h = (p1, p2)" by (cases "pics P h")
  have "env h 0x21 = imr p1" "env (In 0x21 v # h) 0xA1 = imr p2" for v
    using assms(1) p by (simp_all add: reads_masks_def)
  then show ?thesis
    using assms(2,3)
    by (simp add: PIC_remap_def inb_def Let_def pics_out pic_ports p pic_command_def pic_data_def
        ICW1_INIT_def ICW1_ICW4_def ICW4_8086_def)
qed

definition pics_at_boot :: "pic8259 \<times> pic8259" where
  "pics_at_boot =
     (\<lparr>imr = 0xb8, isr = 0, vector_base = 8, cascade = 4, mode = 1, expect = 0, want_icw4 = True\<rparr>,
      \<lparr>imr = 0x8e, isr = 0, vector_base = 0x70, cascade = 2, mode = 1, expect = 0, want_icw4 = True\<rparr>)"

text \<open>
  masking and unmasking a line changes exactly the bit of that line in the mask of the
  controller it belongs to: line \<open>n < 8\<close> on the master, line \<open>n - 8\<close> on the slave.
\<close>

theorem IRQ_masks_correct:
  assumes "reads_masks P env" "expect (fst (pics P h)) = 0" "expect (snd (pics P h)) = 0"
    and "unat line < 16"
  shows "let (p1, p2) = pics P h; (s1, s2) = pics P (IRQ_set_mask env line h);
             (c1, c2) = pics P (IRQ_clear_mask env line h)
    in (\<forall>n. bit (imr s1) n = (bit (imr p1) n \<or> n = unat line \<and> n < 8)
          \<and> bit (imr s2) n = (bit (imr p2) n \<or> n + 8 = unat line)
          \<and> bit (imr c1) n = (bit (imr p1) n \<and> \<not> (n = unat line \<and> n < 8))
          \<and> bit (imr c2) n = (bit (imr p2) n \<and> n + 8 \<noteq> unat line))"
proof -
  obtain p1 p2 where p: "pics P h = (p1, p2)" by (cases "pics P h")
  have e: "env h 0x21 = imr p1" "env h 0xA1 = imr p2" using assms(1) p by (simp_all add: reads_masks_def)
  show ?thesis
  proof (cases "line < 8")
    case True
    then have "unat line < 8" by (simp add: word_less_nat_alt)
    then show ?thesis
      using True assms(2,3) line_bit_iff [of line] bit_imp_le_length [of "imr p1"]
      by (auto simp: IRQ_set_mask_def IRQ_clear_mask_def line_of_def inb_def Let_def pics_out
          pic_ports p e pic_data_def bit_simps)
  next
    case False
    then have u: "unat (line - 8) = unat line - 8" "8 \<le> unat line"
      by (simp_all add: word_le_nat_alt word_less_nat_alt unat_sub_if')
    then have "unat (line - 8) < 8" using assms(4) by simp
    then show ?thesis
      using False assms(2,3) line_bit_iff [of "line - 8"] u bit_imp_le_length [of "imr p2"]
      by (auto simp: IRQ_set_mask_def IRQ_clear_mask_def line_of_def inb_def Let_def pics_out
          pic_ports p e pic_data_def bit_simps)
  qed
qed

end
