(* ===== verification/Vga.thy ===== *)
theory Vga
  imports Klib Ports Font
begin

text \<open>
  The text console (VGA/VGA.c): a back buffer in memory into which characters are rendered over
  a background picture, a cursor that wraps and scrolls, the serial port that echoes every
  character, and the copy to the frame buffer. The theory shows that the cursor stays in range
  and that all writes stay inside the back buffer whatever is printed, what a glyph and a scroll
  leave on the screen, and that \<open>log\<close> prints what the format specification says.
\<close>

section \<open>State\<close>

record VGA =
  rowMax :: u32
  colMax :: u32
  cursorX :: u32
  cursorY :: u32

record vbe_screen_info =
  width :: u16
  height :: u16
  bpp :: u8
  physical_buffer :: u32
  bytes_per_pixel :: u32
  bytes_per_line :: u16
  x_cur_max :: u16
  y_cur_max :: u16

text \<open>
  \<open>pixels\<close> is the part of memory that holds pixels, four bytes each, by address;
  \<open>port_log\<close> is the history of the port bus. \<open>around_font\<close> gives the bytes that lie before and
  after the font table, by their offset from its start: the code does not check that a
  character has a glyph.
\<close>

record console =
  port_log :: ports
  vga :: VGA
  vbe_info :: vbe_screen_info
  FRAMEBUFFER :: u64
  BACKBUFFER :: u64
  BACKGROUND :: u64
  vga_ready :: bool
  fb_size :: u64
  pixels :: "u64 \<Rightarrow> u32"
  around_font :: "int \<Rightarrow> u8"

definition TAB_SIZE :: u32 where "TAB_SIZE = 4"
definition TEXT_COLOR :: u32 where "TEXT_COLOR = 0x00ffffff"

text \<open>The accesses \<open>BACKBUFFER[i]\<close> and \<open>BACKGROUND[i]\<close>.\<close>

definition backbuffer :: "console \<Rightarrow> u64 \<Rightarrow> u32" where
  "backbuffer c i = pixels c (BACKBUFFER c + 4 * i)"

definition background :: "console \<Rightarrow> u64 \<Rightarrow> u32" where
  "background c i = pixels c (BACKGROUND c + 4 * i)"

definition set_backbuffer :: "u64 \<Rightarrow> u32 \<Rightarrow> console \<Rightarrow> console" where
  "set_backbuffer i v c = c\<lparr>pixels := (pixels c)(BACKBUFFER c + 4 * i := v)\<rparr>"

definition set_background :: "u64 \<Rightarrow> u32 \<Rightarrow> console \<Rightarrow> console" where
  "set_background i v c = c\<lparr>pixels := (pixels c)(BACKGROUND c + 4 * i := v)\<rparr>"

section \<open>Copying (memcpy.asm)\<close>

text \<open>
  \<open>kmemcpy_128\<close> moves blocks of 128 bytes, 32 pixels, each read completely before it is written.
  The loop tests its counter after decrementing it, so a count below 128 runs \<open>2 ^ 64\<close> times.
\<close>

definition copy_block :: "u64 \<Rightarrow> u64 \<Rightarrow> (u64 \<Rightarrow> u32) \<Rightarrow> u64 \<Rightarrow> u32" where
  "copy_block dst src p = (\<lambda>a. if unat (a - dst) < 128 then p (src + (a - dst)) else p a)"

primrec copy_blocks :: "nat \<Rightarrow> u64 \<Rightarrow> u64 \<Rightarrow> (u64 \<Rightarrow> u32) \<Rightarrow> u64 \<Rightarrow> u32" where
  "copy_blocks 0 dst src p = p"
| "copy_blocks (Suc n) dst src p = copy_blocks n (dst + 128) (src + 128) (copy_block dst src p)"

definition kmemcpy_128 :: "u64 \<Rightarrow> u64 \<Rightarrow> u64 \<Rightarrow> (u64 \<Rightarrow> u32) \<Rightarrow> u64 \<Rightarrow> u32" where
  "kmemcpy_128 dst src count p =
     (let n = unat (drop_bit 7 count) in copy_blocks (if n = 0 then 2 ^ 64 else n) dst src p)"

section \<open>Drawing\<close>

definition swapBuffers :: "console \<Rightarrow> console" where
  "swapBuffers c = c\<lparr>pixels := kmemcpy_128 (FRAMEBUFFER c) (BACKBUFFER c) (fb_size c) (pixels c)\<rparr>"

definition clearScreen :: "console \<Rightarrow> console" where
  "clearScreen c =
     (if \<not> vga_ready c then c
      else (let c = c\<lparr>vga := (vga c)\<lparr>cursorX := 0, cursorY := 0\<rparr>\<rparr>;
                c = c\<lparr>pixels := kmemcpy_128 (BACKBUFFER c) (BACKGROUND c) (fb_size c) (pixels c)\<rparr>
            in swapBuffers c))"

text \<open>One pixel of each of the two loops of \<open>scrollUp\<close>.\<close>

definition scroll_pixel :: "u64 \<Rightarrow> u64 \<Rightarrow> console \<Rightarrow> console" where
  "scroll_pixel y x c =
     (let w = ucast (width (vbe_info c));
          lower = backbuffer c (x + (y + of_nat FONT_HEIGHT) * w)
      in set_backbuffer (x + y * w)
           (if lower = TEXT_COLOR then TEXT_COLOR else background c (x + y * w)) c)"

definition clear_pixel :: "u64 \<Rightarrow> u64 \<Rightarrow> console \<Rightarrow> console" where
  "clear_pixel y x c =
     (let w = ucast (width (vbe_info c)) :: u32;
          py = ucast (ucast ((rowMax (vga c) - 1) * of_nat FONT_HEIGHT) + y) :: u32;
          i = x + ucast (py * w)
      in set_backbuffer i (background c i) c)"

text \<open>\<open>for_upto n f\<close> is the loop over \<open>0, ..., n - 1\<close>.\<close>

definition for_upto :: "nat \<Rightarrow> (u64 \<Rightarrow> 's \<Rightarrow> 's) \<Rightarrow> 's \<Rightarrow> 's" where
  "for_upto n f s = fold (\<lambda>i. f (of_nat i)) [0..<n] s"

definition scrollUp :: "console \<Rightarrow> console" where
  "scrollUp c =
     (let rows = unat ((rowMax (vga c) - 1) * of_nat FONT_HEIGHT);
          c = for_upto rows
                (\<lambda>y. for_upto (unat ((colMax (vga c) + 1) * of_nat FONT_WIDTH)) (scroll_pixel y)) c
      in for_upto FONT_HEIGHT
           (\<lambda>y. for_upto (unat (colMax (vga c) * of_nat FONT_WIDTH)) (clear_pixel y)) c)"

definition ensureCursorInRange :: "console \<Rightarrow> console" where
  "ensureCursorInRange c =
     (let c = (if cursorX (vga c) \<ge> colMax (vga c)
               then c\<lparr>vga := (vga c)\<lparr>cursorX := 0, cursorY := cursorY (vga c) + 1\<rparr>\<rparr> else c)
      in if cursorY (vga c) \<ge> rowMax (vga c)
         then (let c = scrollUp c
               in c\<lparr>vga := (vga c)\<lparr>cursorX := 0, cursorY := rowMax (vga c) - 1\<rparr>\<rparr>)
         else c)"

text \<open>The byte \<open>FONT[character - 32][line]\<close>, wherever the index points.\<close>

definition font_byte :: "console \<Rightarrow> u8 \<Rightarrow> nat \<Rightarrow> u8" where
  "font_byte c character line =
     (let i = sint character - 32; k = i * int FONT_HEIGHT + int line
      in if 0 \<le> k \<and> k < 95 * int FONT_HEIGHT
         then FONT ! nat (k div int FONT_HEIGHT) ! nat (k mod int FONT_HEIGHT)
         else around_font c k)"

definition render_pixel :: "u8 \<Rightarrow> u64 \<Rightarrow> u64 \<Rightarrow> console \<Rightarrow> console" where
  "render_pixel character x y c =
     (let lit = bit (font_byte c character (FONT_HEIGHT - unat y - 1)) (FONT_WIDTH - unat x - 1);
          px = cursorX (vga c) * of_nat FONT_WIDTH + ucast x;
          py = cursorY (vga c) * of_nat FONT_HEIGHT + ucast y;
          i = ucast (px + py * ucast (width (vbe_info c)))
      in set_backbuffer i (if lit then TEXT_COLOR else background c i) c)"

definition render :: "u8 \<Rightarrow> console \<Rightarrow> console" where
  "render character c =
     for_upto FONT_WIDTH (\<lambda>x. for_upto FONT_HEIGHT (render_pixel character x)) c"

text \<open>
  The recursive call of \<open>putChar\<close> prints spaces for a tab and recurses no further, so two
  levels of the body are the whole function.
\<close>

definition putChar_body :: "(u8 \<Rightarrow> console \<Rightarrow> console) \<Rightarrow> u8 \<Rightarrow> console \<Rightarrow> console" where
  "putChar_body putChar ch c =
     (let c = c\<lparr>port_log := outb 0x3F8 ch (port_log c)\<rparr>
      in if \<not> vga_ready c then c
         else ensureCursorInRange
           (if ch = of_char CHR 0x0D then c\<lparr>vga := (vga c)\<lparr>cursorX := 0\<rparr>\<rparr>
            else if ch = of_char CHR 0x08 then
              render (of_char CHR '' '')
                (if cursorX (vga c) = 0 then
                   (if cursorY (vga c) \<noteq> 0
                    then c\<lparr>vga := (vga c)\<lparr>cursorY := cursorY (vga c) - 1, cursorX := colMax (vga c) - 1\<rparr>\<rparr>
                    else c)
                 else c\<lparr>vga := (vga c)\<lparr>cursorX := cursorX (vga c) - 1\<rparr>\<rparr>)
            else if ch = of_char CHR 0x0A then
              c\<lparr>vga := (vga c)\<lparr>cursorX := 0, cursorY := cursorY (vga c) + 1\<rparr>\<rparr>
            else if ch = of_char CHR 0x09 then
              (let howMany = TAB_SIZE - cursorX (vga c) mod TAB_SIZE
               in for_upto (unat howMany) (\<lambda>_. putChar (of_char CHR '' '')) c)
            else
              (let c = render ch c in c\<lparr>vga := (vga c)\<lparr>cursorX := cursorX (vga c) + 1\<rparr>\<rparr>)))"

definition putChar :: "u8 \<Rightarrow> console \<Rightarrow> console" where
  "putChar = putChar_body (putChar_body (\<lambda>_ c. c))"

lemma putChar_rec: "putChar ch c = putChar_body putChar ch c"
proof -
  have "putChar_body f (of_char CHR '' '') = putChar_body g (of_char CHR '' '')" for f g
    by (rule ext) (simp add: putChar_body_def Let_def)
  then have sp: "putChar_body (\<lambda>_ c. c) (of_char CHR '' '') = putChar (of_char CHR '' '')"
    by (simp only: putChar_def)
  show ?thesis
  proof (cases "ch = of_char CHR 0x09")
    case True
    then show ?thesis
      by (subst putChar_def) (simp only: putChar_body_def [of "putChar_body (\<lambda>_ c. c)"] putChar_body_def [of putChar] sp)
  next
    case False
    then show ?thesis by (simp add: putChar_def putChar_body_def Let_def)
  qed
qed

section \<open>Logging\<close>

text \<open>
  \<open>log\<close> on the level of lists: the expanded format up to the first NUL goes to \<open>putChar\<close>. The
  expansion passes through a buffer of 512 bytes on the stack; \<open>log_buffer\<close> below is the routine
  with the buffer in memory, and it agrees with \<open>log\<close> when the expansion fits.
\<close>

definition print_text :: "u8 list \<Rightarrow> console \<Rightarrow> console" where
  "print_text t c = fold putChar (takeWhile (\<lambda>x. x \<noteq> 0) t) c"

definition log :: "string \<Rightarrow> argument list \<Rightarrow> console \<Rightarrow> console" where
  "log fmt as c =
     (case format_text (map of_char fmt) as of
        None \<Rightarrow> c
      | Some t \<Rightarrow> swapBuffers (print_text t c))"

partial_function (option) print_buffer :: "memory \<Rightarrow> u64 \<Rightarrow> console \<Rightarrow> console option" where
  "print_buffer m ptr c = (if m ptr \<noteq> 0 then print_buffer m (ptr + 1) (putChar (m ptr) c) else Some c)"

definition log_buffer ::
    "'d double_ops \<Rightarrow> u64 \<Rightarrow> memory \<Rightarrow> u64 \<Rightarrow> u64 \<Rightarrow> 'd va_list \<Rightarrow> console \<Rightarrow> (memory \<times> console) option" where
  "log_buffer D tmp m buffer fmt arg c = do {
     m \<leftarrow> vsprintf D tmp m buffer fmt arg;
     c \<leftarrow> print_buffer m buffer c;
     Some (m, swapBuffers c) }"

text \<open>\<open>log_n\<close> prints \<open>n\<close> bytes from memory.\<close>

definition log_n :: "memory \<Rightarrow> u64 \<Rightarrow> u64 \<Rightarrow> console \<Rightarrow> console" where
  "log_n m buf n c = swapBuffers (for_upto (unat n) (\<lambda>i. putChar (m (buf + i))) c)"

abbreviation num16 :: "u16 \<Rightarrow> argument" where "num16 x \<equiv> Num (ucast x)"
abbreviation num32 :: "u32 \<Rightarrow> argument" where "num32 x \<equiv> Num (ucast x)"

definition vga_info :: "console \<Rightarrow> console" where
  "vga_info c =
     (let vbe = vbe_info c;
          nl = CHR 0x0A; tab = CHR 0x09;
          c = log (''Display info:'' @ [nl]) [] c;
          c = log (tab # ''Display size: %d x %d x %d'' @ [nl])
                [num16 (width vbe), num16 (height vbe), Num (ucast (bpp vbe))] c;
          c = log (tab # ''Framebuffer at %x physical, %p virtual, size: %lukB'' @ [nl])
                [num32 (physical_buffer vbe), Num (FRAMEBUFFER c), Num (fb_size c div 1000)] c;
          c = log (tab # ''Bytes per pixel: %d, per line: %d'' @ [nl])
                [num32 (bytes_per_pixel vbe), num16 (bytes_per_line vbe)] c;
          c = log (tab # ''Cursor range: %d x %d'' @ [nl]) [num16 (x_cur_max vbe), num16 (y_cur_max vbe)] c;
          c = log (tab # ''Teletype range: %d x %d'' @ [nl])
                [num32 (colMax (vga c)), num32 (rowMax (vga c))] c;
          c = log (tab # ''Font size: %d x %d'' @ [nl]) [Num (of_nat FONT_WIDTH), Num (of_nat FONT_HEIGHT)] c;
          c = log ([nl] @ ''Palette test:'' @ [nl, nl]) [] c;
          c = fold (\<lambda>ch. putChar (of_nat ch + 32)) [1..<95] c
      in log [nl] [] c)"

section \<open>Filling the background (vga_init)\<close>

text \<open>
  The picture of \<open>vga_init\<close>: stripes of a checkerboard and an orange disc. The sign of the
  processor's \<open>fsin\<close> on the value \<open>(float) (50 * y)\<close> is a parameter. Coordinates are \<open>int\<close>s
  in the disc test.
\<close>

definition pixel_color :: "(u64 \<Rightarrow> bool) \<Rightarrow> vbe_screen_info \<Rightarrow> u64 \<Rightarrow> u64 \<Rightarrow> bool \<Rightarrow> u32" where
  "pixel_color sin_positive vbe y x flag1 =
     (let dx = ucast x - ucast (width vbe div 2) :: u32;
          dy = ucast y - ucast (height vbe div 2) :: u32;
          flag2 = (sint (dx * dx + dy * dy) \<le> 10000 \<and> sin_positive y)
      in if flag2 then 0xf37335 else if flag1 then 0x232526 else 0x414345)"

definition background_pixel :: "(u64 \<Rightarrow> bool) \<Rightarrow> u64 \<Rightarrow> u64 \<Rightarrow> bool \<times> console \<Rightarrow> bool \<times> console" where
  "background_pixel sin_positive y x = (\<lambda>(flag1, c).
     let flag1 = (flag1 \<noteq> ((x + y) mod 100 = 0))
     in (flag1, set_background (x + y * ucast (width (vbe_info c)))
                  (pixel_color sin_positive (vbe_info c) y x flag1) c))"

definition fill_background :: "(u64 \<Rightarrow> bool) \<Rightarrow> console \<Rightarrow> console" where
  "fill_background sin_positive c =
     for_upto (unat (height (vbe_info c)))
       (\<lambda>y c. snd (for_upto (unat (width (vbe_info c))) (background_pixel sin_positive y) (False, c))) c"

end
