(* ===== verification/Vmm.thy ===== *)
theory Vmm
  imports Liballoc Permissions Vga
begin

text \<open>
  The virtual memory manager (memory/VMM.c, middle) and the hooks of the heap
  (lib/liballoc/liballoc_hooks.c). Free spans of the kernel's address space form a doubly linked
  chain of nodes that are themselves allocated on the heap, which in turn gets its pages from the
  chain: the four routines \<open>kmalloc\<close>, \<open>kfree\<close>, \<open>vmm_mmap\<close> and \<open>vmm_free_pages\<close> are mutually
  recursive. Each has a body with its callees as parameters; \<open>exec\<close> ties the knot on fuel.
\<close>

section \<open>State\<close>

record free_block =
  fb_start :: u64
  fb_pages :: u64
  fb_prev :: u64
  fb_next :: u64

record mm = liballoc +
  blocks :: "u64 \<Rightarrow> free_block"
  blockchain :: u64
  first_alloc :: bool
  allocating_base :: bool
  pages_allocated_for_blockchain :: u64
  paging :: paging
  console :: console

definition HEAP_START :: u64 where "HEAP_START = 0x200000"
definition MAX_HEAP_SIZE :: u64 where "MAX_HEAP_SIZE = 256 * 126"
definition sizeof_free_block :: u64 where "sizeof_free_block = 32"

definition klog :: "string \<Rightarrow> argument list \<Rightarrow> mm \<Rightarrow> mm" where
  "klog fmt as s = s\<lparr>console := log fmt as (console s)\<rparr>"

definition upd_block :: "u64 \<Rightarrow> (free_block \<Rightarrow> free_block) \<Rightarrow> mm \<Rightarrow> mm" where
  "upd_block p f s = s\<lparr>blocks := (blocks s)(p := f (blocks s p))\<rparr>"

abbreviation nl :: string where "nl \<equiv> [CHR 0x0A]"

section \<open>Mapping spans\<close>

text \<open>One round per page; a physical address, when there is one, advances with the pages.\<close>

primrec map_loop :: "nat \<Rightarrow> u64 \<Rightarrow> u64 \<Rightarrow> u64 \<Rightarrow> u64 \<Rightarrow> paging \<Rightarrow> u64 \<times> paging" where
  "map_loop 0 i physical vstart flags p = (physical, p)"
| "map_loop (Suc n) i physical vstart flags p =
     map_loop n (i + 1) (if physical \<noteq> 0 then physical + PAGE_SIZE else physical) vstart flags
       (vmm_map_memory physical (vstart + i * PAGE_SIZE) flags p)"

definition ensure_pages_mapped :: "u64 \<Rightarrow> u64 \<Rightarrow> u64 \<Rightarrow> u64 \<Rightarrow> mm \<Rightarrow> mm" where
  "ensure_pages_mapped physical vstart pages flags s =
     (let arg_phys = physical;
          (physical, p) = map_loop (unat pages) 0 physical vstart flags (paging s);
          s = s\<lparr>paging := p\<rparr>
      in if physical = 0
         then klog (''[VMM] Mapped fresh pages to %p (%lu pages) (flags: %x)'' @ nl) [Num vstart, Num pages, Num flags] s
         else klog (''[VMM] Mapped %p to %p (%lu pages) (flags: %x)'' @ nl) [Num arg_phys, Num vstart, Num pages, Num flags] s)"

section \<open>The chain of free blocks\<close>

text \<open>Walking back to the first block, and forth over all blocks, on fuel.\<close>

primrec chain_head :: "nat \<Rightarrow> u64 \<Rightarrow> mm \<Rightarrow> u64 option" where
  "chain_head 0 block s = None"
| "chain_head (Suc n) block s =
     (if fb_prev (blocks s block) \<noteq> 0 then chain_head n (fb_prev (blocks s block)) s else Some block)"

primrec print_blocks :: "nat \<Rightarrow> u64 \<Rightarrow> u64 \<Rightarrow> mm \<Rightarrow> (u64 \<times> mm) option" where
  "print_blocks 0 block tot s = None"
| "print_blocks (Suc n) block tot s =
     (if block \<noteq> 0
      then (let b = blocks s block;
                s = klog (''[%p, %p) (%lu pages)'' @ nl)
                      [Num (fb_start b), Num (fb_start b + fb_pages b * PAGE_SIZE), Num (fb_pages b)] s
            in print_blocks n (fb_next b) (tot + fb_pages b) s)
      else Some (tot, s))"

text \<open>Besides printing, this moves \<open>blockchain\<close> to the first block.\<close>

definition print_blockchain :: "nat \<Rightarrow> mm \<Rightarrow> mm option" where
  "print_blockchain n s = do {
     block \<leftarrow> chain_head n (blockchain s) s;
     let s = s\<lparr>blockchain := block\<rparr>;
     let s = klog (''Blockchain:'' @ nl) [] s;
     (tot, s) \<leftarrow> print_blocks n block 0 s;
     Some (klog (''Total: %lu pages'' @ nl) [Num tot] s) }"

type_synonym malloc = "u64 \<Rightarrow> mm \<Rightarrow> (u64 \<times> mm) option"
type_synonym free = "u64 \<Rightarrow> mm \<Rightarrow> mm option"

text \<open>The first call sets the chain up; the call that the heap makes meanwhile gets the first pages.\<close>

datatype init_result = Continue | Return u64

definition mmap_init :: "malloc \<Rightarrow> u64 \<Rightarrow> mm \<Rightarrow> (init_result \<times> mm) option" where
  "mmap_init malloc pages s =
     (if blockchain s \<noteq> 0 then Some (Continue, s)
      else if first_alloc s then
        (if \<not> allocating_base s then do {
           let s = s\<lparr>allocating_base := True\<rparr>;
           (p, s) \<leftarrow> malloc sizeof_free_block s;
           let s = s\<lparr>blockchain := p\<rparr>;
           let n = pages_allocated_for_blockchain s;
           Some (Continue, upd_block p (\<lambda>_. \<lparr>fb_start = HEAP_START + n * PAGE_SIZE,
                    fb_pages = MAX_HEAP_SIZE - n, fb_prev = 0, fb_next = 0\<rparr>) s) }
         else
           (let s = s\<lparr>allocating_base := False, first_alloc := False, pages_allocated_for_blockchain := pages\<rparr>
            in Some (Return HEAP_START, ensure_pages_mapped 0 HEAP_START pages DIRECTORY_DEFAULTS s)))
      else Some (Return 0, klog (''[VMM] No free space left'' @ nl) [] s))"

primrec first_fit :: "nat \<Rightarrow> u64 \<Rightarrow> u64 \<Rightarrow> mm \<Rightarrow> u64 option" where
  "first_fit 0 block pages s = None"
| "first_fit (Suc n) block pages s =
     (if block \<noteq> 0 \<and> fb_pages (blocks s block) < pages
      then first_fit n (fb_next (blocks s block)) pages s else Some block)"

text \<open>Deleting an empty block from the chain.\<close>

definition unlink_block :: "u64 \<Rightarrow> mm \<Rightarrow> mm" where
  "unlink_block block s =
     (let s = (if fb_prev (blocks s block) \<noteq> 0
               then upd_block (fb_prev (blocks s block)) (\<lambda>b. b\<lparr>fb_next := fb_next (blocks s block)\<rparr>) s else s);
          s = (if fb_next (blocks s block) \<noteq> 0
               then upd_block (fb_next (blocks s block)) (\<lambda>b. b\<lparr>fb_prev := fb_prev (blocks s block)\<rparr>) s else s)
      in if block = blockchain s then s\<lparr>blockchain := fb_next (blocks s block)\<rparr> else s)"

definition take_span :: "free \<Rightarrow> u64 \<Rightarrow> u64 \<Rightarrow> u64 \<Rightarrow> bool \<Rightarrow> mm \<Rightarrow> (u64 \<times> mm) option" where
  "take_span free block physical pages is_kernel s =
     (let span_start = fb_start (blocks s block);
          flags = DIRECTORY_DEFAULTS OR (if is_kernel then 0 else USER_ACCESS_BIT);
          s = ensure_pages_mapped physical span_start pages flags s;
          s = upd_block block (\<lambda>b. b\<lparr>fb_start := fb_start b + pages * PAGE_SIZE\<rparr>) s;
          s = upd_block block (\<lambda>b. b\<lparr>fb_pages := fb_pages b - pages\<rparr>) s
      in do {
        s \<leftarrow> (if fb_pages (blocks s block) = 0 then free block (unlink_block block s) else Some s);
        Some (span_start, klog (''[VMM] Allocated %lu pages at %p'' @ nl) [Num pages, Num span_start] s) })"

definition vmm_mmap_body :: "nat \<Rightarrow> malloc \<Rightarrow> free \<Rightarrow> u64 \<Rightarrow> u64 \<Rightarrow> bool \<Rightarrow> mm \<Rightarrow> (u64 \<times> mm) option" where
  "vmm_mmap_body n malloc free physical pages is_kernel s = do {
     (r, s) \<leftarrow> mmap_init malloc pages s;
     case r of
       Return a \<Rightarrow> Some (a, s)
     | Continue \<Rightarrow> do {
         block \<leftarrow> first_fit n (blockchain s) pages s;
         if block = 0 \<or> fb_pages (blocks s block) < pages
         then Some (0, klog (''[VMM] Not enough space to allocate %lu pages'' @ nl) [Num pages] s)
         else take_span free block physical pages is_kernel s } }"

text \<open>The neighbours of a freed span: the blocks before and after it in the chain.\<close>

primrec find_left :: "nat \<Rightarrow> u64 \<Rightarrow> u64 \<Rightarrow> mm \<Rightarrow> u64 option" where
  "find_left 0 left start s = None"
| "find_left (Suc n) left start s =
     (let next = fb_next (blocks s left)
      in if next \<noteq> 0 \<and> fb_start (blocks s next) < start then find_left n next start s else Some left)"

definition neighbours :: "nat \<Rightarrow> u64 \<Rightarrow> mm \<Rightarrow> (u64 \<times> u64) option" where
  "neighbours n start s =
     (if fb_start (blocks s (blockchain s)) > start then Some (0, blockchain s)
      else do { left \<leftarrow> find_left n (blockchain s) start s; Some (left, fb_next (blocks s left)) })"

definition block_end :: "u64 \<Rightarrow> mm \<Rightarrow> u64" where
  "block_end block s = fb_start (blocks s block) + fb_pages (blocks s block) * PAGE_SIZE"

definition extend_left :: "free \<Rightarrow> u64 \<Rightarrow> u64 \<Rightarrow> u64 \<Rightarrow> mm \<Rightarrow> mm option" where
  "extend_left free left right pages s =
     (let s = upd_block left (\<lambda>b. b\<lparr>fb_pages := fb_pages b + pages\<rparr>) s
      in if right \<noteq> 0 \<and> block_end left s = fb_start (blocks s right)
         then (let r = blocks s right;
                   s = upd_block left (\<lambda>b. b\<lparr>fb_pages := fb_pages b + fb_pages r\<rparr>) s;
                   s = upd_block left (\<lambda>b. b\<lparr>fb_next := fb_next r\<rparr>) s;
                   s = (if fb_next r \<noteq> 0 then upd_block (fb_next r) (\<lambda>b. b\<lparr>fb_prev := left\<rparr>) s else s)
               in free right s)
         else Some s)"

definition extend_right :: "u64 \<Rightarrow> u64 \<Rightarrow> mm \<Rightarrow> mm" where
  "extend_right right pages s =
     (let s = upd_block right (\<lambda>b. b\<lparr>fb_pages := fb_pages b + pages\<rparr>) s
      in upd_block right (\<lambda>b. b\<lparr>fb_start := fb_start b - pages * PAGE_SIZE\<rparr>) s)"

definition insert_block :: "malloc \<Rightarrow> u64 \<Rightarrow> u64 \<Rightarrow> u64 \<Rightarrow> u64 \<Rightarrow> mm \<Rightarrow> mm option" where
  "insert_block malloc left right start pages s = do {
     (new, s) \<leftarrow> malloc sizeof_free_block s;
     let s = upd_block new (\<lambda>_. \<lparr>fb_start = start, fb_pages = pages, fb_prev = left, fb_next = right\<rparr>) s;
     let s = (if left \<noteq> 0 then upd_block left (\<lambda>b. b\<lparr>fb_next := new\<rparr>) s else s);
     Some (if right \<noteq> 0 then upd_block right (\<lambda>b. b\<lparr>fb_prev := new\<rparr>) s else s) }"

definition vmm_free_pages_body :: "nat \<Rightarrow> malloc \<Rightarrow> free \<Rightarrow> u64 \<Rightarrow> u64 \<Rightarrow> mm \<Rightarrow> mm option" where
  "vmm_free_pages_body n malloc free start pages s =
     (if blockchain s = 0 then do {
        (p, s) \<leftarrow> malloc sizeof_free_block s;
        let s = upd_block p (\<lambda>_. \<lparr>fb_start = start, fb_pages = pages, fb_prev = 0, fb_next = 0\<rparr>) (s\<lparr>blockchain := p\<rparr>);
        print_blockchain n (klog (''[VMM] Freed %lu pages at %p'' @ nl) [Num pages, Num start] s) }
      else do {
        (left, right) \<leftarrow> neighbours n start s;
        s \<leftarrow> (if left \<noteq> 0 \<and> start = block_end left s then extend_left free left right pages s
             else if right \<noteq> 0 \<and> start + pages * PAGE_SIZE = fb_start (blocks s right)
             then Some (extend_right right pages s)
             else insert_block malloc left right start pages s);
        print_blockchain n (klog (''[VMM] Freed %lu pages at %p'' @ nl) [Num pages, Num start] s) })"

section \<open>The hooks and the knot\<close>

datatype mm_call = Kmalloc u64 | Kfree u64 | Mmap u64 u64 bool | Free_pages u64 u64

text \<open>
  The hooks of liballoc\_hooks.c: pages are an \<open>int\<close> on allocation, so the count is sign extended.
  A call without a result gives zero.
\<close>

definition liballoc_alloc :: "(mm_call \<Rightarrow> mm \<Rightarrow> (u64 \<times> mm) option) \<Rightarrow> u32 \<Rightarrow> mm \<Rightarrow> (u64 \<times> mm) option" where
  "liballoc_alloc call pages s = call (Mmap 0 (scast pages) True) s"

definition liballoc_free :: "(mm_call \<Rightarrow> mm \<Rightarrow> (u64 \<times> mm) option) \<Rightarrow> u64 \<Rightarrow> u32 \<Rightarrow> mm \<Rightarrow> mm option" where
  "liballoc_free call start pages s = map_option snd (call (Free_pages start (ucast pages)) s)"

primrec exec :: "nat \<Rightarrow> mm_call \<Rightarrow> mm \<Rightarrow> (u64 \<times> mm) option" where
  "exec 0 call s = None"
| "exec (Suc n) call s =
     (case call of
        Kmalloc req_size \<Rightarrow> kmalloc_body n (liballoc_alloc (exec n)) req_size s
      | Kfree ptr \<Rightarrow> map_option (Pair 0) (kfree_body (liballoc_free (exec n)) ptr s)
      | Mmap physical pages is_kernel \<Rightarrow>
          vmm_mmap_body n (\<lambda>sz. exec n (Kmalloc sz)) (\<lambda>p s. map_option snd (exec n (Kfree p) s))
            physical pages is_kernel s
      | Free_pages start pages \<Rightarrow>
          map_option (Pair 0) (vmm_free_pages_body n (\<lambda>sz. exec n (Kmalloc sz))
            (\<lambda>p s. map_option snd (exec n (Kfree p) s)) start pages s))"

text \<open>The routines of the kernel, with fuel.\<close>

definition kmalloc :: "nat \<Rightarrow> u64 \<Rightarrow> mm \<Rightarrow> (u64 \<times> mm) option" where
  "kmalloc n sz s = exec n (Kmalloc sz) s"

definition kfree :: "nat \<Rightarrow> u64 \<Rightarrow> mm \<Rightarrow> mm option" where
  "kfree n ptr s = map_option snd (exec n (Kfree ptr) s)"

definition vmm_mmap :: "nat \<Rightarrow> u64 \<Rightarrow> u64 \<Rightarrow> bool \<Rightarrow> mm \<Rightarrow> (u64 \<times> mm) option" where
  "vmm_mmap n physical pages is_kernel s = exec n (Mmap physical pages is_kernel) s"

definition vmm_free_pages :: "nat \<Rightarrow> u64 \<Rightarrow> u64 \<Rightarrow> mm \<Rightarrow> mm option" where
  "vmm_free_pages n start pages s = map_option snd (exec n (Free_pages start pages) s)"

definition kcalloc :: "nat \<Rightarrow> u64 \<Rightarrow> u64 \<Rightarrow> mm \<Rightarrow> (u64 \<times> mm) option" where
  "kcalloc n nobj sz s = kcalloc_body (kmalloc n) nobj sz s"

definition krealloc :: "nat \<Rightarrow> u64 \<Rightarrow> u64 \<Rightarrow> mm \<Rightarrow> (u64 \<times> mm) option" where
  "krealloc n p sz s = krealloc_body (kmalloc n) (kfree n) p sz s"

end
