(* ===== verification/Chain.thy ===== *)
theory Chain
  imports Prelude
begin

text \<open>
  Doubly linked lists in memory, as the heap (majors and minors) and the virtual memory manager
  (free blocks) build them, and sorted lists of spans, the abstract view of the chain of free
  blocks: taking the first span that is large enough, and giving a span back with coalescing.
\<close>

section \<open>Doubly linked lists\<close>

text \<open>
  \<open>dll nx pv b p xs\<close>: from \<open>p\<close> on the links \<open>nx\<close> lead through \<open>xs\<close> to the null pointer, and the links
  \<open>pv\<close> lead back, from the first node to \<open>b\<close>.
\<close>

fun dll :: "(u64 \<Rightarrow> u64) \<Rightarrow> (u64 \<Rightarrow> u64) \<Rightarrow> u64 \<Rightarrow> u64 \<Rightarrow> u64 list \<Rightarrow> bool" where
  "dll nx pv b p [] \<longleftrightarrow> p = 0"
| "dll nx pv b p (x # xs) \<longleftrightarrow> p = x \<and> x \<noteq> 0 \<and> pv x = b \<and> dll nx pv x (nx x) xs"

lemma dll_cong:
  "dll nx pv b p xs \<Longrightarrow> (\<And>x. x \<in> set xs \<Longrightarrow> nx' x = nx x) \<Longrightarrow> (\<And>x. x \<in> set xs \<Longrightarrow> pv' x = pv x)
    \<Longrightarrow> dll nx' pv' b p xs"
  by (induction xs arbitrary: b p) auto

lemma dll_nonzero: "dll nx pv b p xs \<Longrightarrow> 0 \<notin> set xs"
  by (induction xs arbitrary: b p) auto

lemma dll_head: "dll nx pv b p xs \<Longrightarrow> p = hd (xs @ [0])"
  by (cases xs) auto

lemma dll_empty: "dll nx pv b 0 xs \<longleftrightarrow> xs = []"
  by (cases xs) auto

lemma dll_suffix: "dll nx pv b p (as @ cs) \<Longrightarrow> dll nx pv (last (b # as)) (hd (cs @ [0])) cs"
proof (induction as arbitrary: b p)
  case Nil
  then show ?case by (cases cs) auto
next
  case (Cons x as)
  then have "dll nx pv x (nx x) (as @ cs)" by simp
  from Cons.IH [OF this] show ?case by simp
qed

lemma dll_at:
  assumes "dll nx pv b p (as @ m # cs)"
  shows "nx m = hd (cs @ [0])" "pv m = last (b # as)" "m \<noteq> 0" "as = [] \<Longrightarrow> p = m"
  using dll_suffix [OF assms] assms by (auto simp del: last.simps dest: dll_head)

text \<open>A new node between \<open>as\<close> and \<open>cs\<close>: only the links next to it change.\<close>

lemma dll_insert:
  assumes "dll nx pv b p (as @ cs)" "new \<noteq> 0" "distinct (as @ cs)" "new \<notin> set (as @ cs)"
    and "nx' new = hd (cs @ [0])" "pv' new = last (b # as)"
    and "as \<noteq> [] \<Longrightarrow> nx' (last as) = new" "cs \<noteq> [] \<Longrightarrow> pv' (hd cs) = new"
    and "\<And>x. x \<in> set (as @ cs) \<Longrightarrow> as = [] \<or> x \<noteq> last as \<Longrightarrow> nx' x = nx x"
    and "\<And>x. x \<in> set (as @ cs) \<Longrightarrow> cs = [] \<or> x \<noteq> hd cs \<Longrightarrow> pv' x = pv x"
  shows "dll nx' pv' b (if as = [] then new else p) (as @ new # cs)"
  using assms
proof (induction as arbitrary: b p)
  case Nil
  show ?case
  proof (cases cs)
    case Nil
    then show ?thesis using Nil.prems by simp
  next
    case (Cons c cs')
    have "dll nx' pv' c (nx c) cs'"
      by (rule dll_cong [of nx pv]) (use Nil.prems Cons in auto)
    then show ?thesis using Nil.prems Cons by simp
  qed
next
  case (Cons x as)
  have "dll nx' pv' x (if as = [] then new else nx x) (as @ new # cs)"
  proof (rule Cons.IH)
    show "dll nx pv x (nx x) (as @ cs)" using Cons.prems(1) by simp
    show "pv' new = last (x # as)" using Cons.prems(6) by simp
    show "nx' (last as) = new" if "as \<noteq> []" using Cons.prems(7) that by simp
    show "nx' y = nx y" if "y \<in> set (as @ cs)" "as = [] \<or> y \<noteq> last as" for y
      using Cons.prems(3,9) that by (cases "as = []") auto
    show "pv' y = pv y" if "y \<in> set (as @ cs)" "cs = [] \<or> y \<noteq> hd cs" for y
      using Cons.prems(10) that by auto
  qed (use Cons.prems in auto)
  moreover have "nx' x = (if as = [] then new else nx x)"
    using Cons.prems(3,7,9) by (cases "as = []") (auto dest: last_in_set)
  moreover have "pv' x = pv x"
    using Cons.prems(3,10) by (cases cs) auto
  ultimately show ?case using Cons.prems(1) by simp
qed

text \<open>The node \<open>m\<close> leaves the list: its neighbours get its links.\<close>

lemma dll_remove:
  assumes "dll nx pv b p (as @ m # cs)" "distinct (as @ m # cs)"
    and "as \<noteq> [] \<Longrightarrow> nx' (last as) = nx m" "cs \<noteq> [] \<Longrightarrow> pv' (hd cs) = pv m"
    and "\<And>x. x \<in> set (as @ cs) \<Longrightarrow> as = [] \<or> x \<noteq> last as \<Longrightarrow> nx' x = nx x"
    and "\<And>x. x \<in> set (as @ cs) \<Longrightarrow> cs = [] \<or> x \<noteq> hd cs \<Longrightarrow> pv' x = pv x"
  shows "dll nx' pv' b (if as = [] then nx m else p) (as @ cs)"
  using assms
proof (induction as arbitrary: b p)
  case Nil
  show ?case
  proof (cases cs)
    case Nil
    then show ?thesis using Nil.prems by simp
  next
    case (Cons c cs')
    have "dll nx' pv' c (nx c) cs'"
      by (rule dll_cong [of nx pv]) (use Nil.prems Cons in auto)
    then show ?thesis using Nil.prems Cons by simp
  qed
next
  case (Cons x as)
  have "dll nx' pv' x (if as = [] then nx m else nx x) (as @ cs)"
  proof (rule Cons.IH)
    show "dll nx pv x (nx x) (as @ m # cs)" using Cons.prems(1) by simp
    show "nx' (last as) = nx m" if "as \<noteq> []" using Cons.prems(3) that by simp
    show "nx' y = nx y" if "y \<in> set (as @ cs)" "as = [] \<or> y \<noteq> last as" for y
      using Cons.prems(2,5) that by (cases "as = []") auto
    show "pv' y = pv y" if "y \<in> set (as @ cs)" "cs = [] \<or> y \<noteq> hd cs" for y
      using Cons.prems(6) that by auto
  qed (use Cons.prems in auto)
  moreover have "nx' x = (if as = [] then nx m else nx x)"
    using Cons.prems(2,3,5) by (cases "as = []") (auto dest: last_in_set)
  moreover have "pv' x = pv x"
    using Cons.prems(2,6) by (cases cs) auto
  ultimately show ?case using Cons.prems(1) by simp
qed

section \<open>Spans\<close>

text \<open>
  A span is a start address and a number of pages. In a \<open>spaced\<close> list the spans are not empty, in
  order, and neither overlap nor touch; all end before \<open>hi\<close>.
\<close>

type_synonym span = "nat \<times> nat"

definition span_end :: "span \<Rightarrow> nat" where
  "span_end v = fst v + 4096 * snd v"

definition span_bytes :: "span \<Rightarrow> nat set" where
  "span_bytes v = {fst v..<span_end v}"

definition spaced :: "nat \<Rightarrow> span list \<Rightarrow> bool" where
  "spaced hi vs \<longleftrightarrow> sorted_wrt (\<lambda>v w. span_end v < fst w) vs \<and> (\<forall>v\<in>set vs. 0 < snd v \<and> span_end v < hi)"

definition free_bytes :: "span list \<Rightarrow> nat set" where
  "free_bytes vs = (\<Union>v\<in>set vs. span_bytes v)"

text \<open>Taking \<open>n\<close> pages from the first span that has them.\<close>

fun take_first :: "nat \<Rightarrow> span list \<Rightarrow> (nat \<times> span list) option" where
  "take_first n [] = None"
| "take_first n ((a, k) # vs) =
     (if k < n then map_option (\<lambda>(r, vs). (r, (a, k) # vs)) (take_first n vs)
      else Some (a, if k = n then vs else (a + 4096 * n, k - n) # vs))"

text \<open>Giving \<open>n\<close> pages at \<open>a\<close> back, joined with the spans they touch.\<close>

fun give_back :: "nat \<Rightarrow> nat \<Rightarrow> span list \<Rightarrow> span list" where
  "give_back a n [] = [(a, n)]"
| "give_back a n ((b, k) # vs) =
     (if a + 4096 * n < b then (a, n) # (b, k) # vs
      else if a + 4096 * n = b then (a, n + k) # vs
      else if b + 4096 * k = a then
        (case vs of
           (c, l) # ws \<Rightarrow> if a + 4096 * n = c then (b, k + n + l) # ws else (b, k + n) # vs
         | [] \<Rightarrow> [(b, k + n)])
      else (b, k) # give_back a n vs)"

lemma spaced_Nil [simp]: "spaced hi []"
  by (simp add: spaced_def)

lemma spaced_Cons: "spaced hi (v # vs) \<longleftrightarrow>
    0 < snd v \<and> span_end v < hi \<and> (\<forall>w\<in>set vs. span_end v < fst w) \<and> spaced hi vs"
  by (auto simp: spaced_def)

lemma free_bytes_Nil [simp]: "free_bytes [] = {}"
  by (simp add: free_bytes_def)

lemma free_bytes_Cons [simp]: "free_bytes (v # vs) = span_bytes v \<union> free_bytes vs"
  by (simp add: free_bytes_def)

lemma span_bytes_join: "b = a + 4096 * n \<Longrightarrow> span_bytes (a, n + k) = span_bytes (a, n) \<union> span_bytes (b, k)"
  by (auto simp: span_bytes_def span_end_def)

text \<open>The first fit takes bytes that were free, keeps the list spaced and removes exactly these bytes.\<close>

lemma take_first_spaced:
  "spaced hi vs \<Longrightarrow> take_first n vs = Some (a, ws) \<Longrightarrow> 0 < n \<Longrightarrow>
     spaced hi ws \<and> span_bytes (a, n) \<subseteq> free_bytes vs \<and> free_bytes ws = free_bytes vs - span_bytes (a, n)
     \<and> sum_list (map snd ws) + n = sum_list (map snd vs) \<and> (\<forall>w\<in>set ws. \<exists>v\<in>set vs. fst v \<le> fst w)"
proof (induction vs arbitrary: ws)
  case (Cons v vs)
  obtain b k where v: "v = (b, k)" by (cases v)
  show ?case
  proof (cases "k < n")
    case True
    then obtain us where us: "take_first n vs = Some (a, us)" "ws = v # us"
      using Cons.prems(2) v by auto
    have ih: "spaced hi us" "span_bytes (a, n) \<subseteq> free_bytes vs" "free_bytes us = free_bytes vs - span_bytes (a, n)"
      "sum_list (map snd us) + n = sum_list (map snd vs)" "\<forall>w\<in>set us. \<exists>v\<in>set vs. fst v \<le> fst w"
      using Cons.IH us(1) Cons.prems by (auto simp: spaced_Cons)
    have disj: "span_bytes v \<inter> free_bytes vs = {}"
      using Cons.prems(1) by (fastforce simp: spaced_Cons free_bytes_def span_bytes_def)
    have "\<forall>w\<in>set us. span_end v < fst w" using ih(5) Cons.prems(1) by (fastforce simp: spaced_Cons)
    then show ?thesis using ih us(2) Cons.prems(1) disj by (auto simp: spaced_Cons)
  next
    case False
    then have *: "a = b" "ws = (if k = n then vs else (b + 4096 * n, k - n) # vs)"
      using Cons.prems(2) v by auto
    have disj: "span_bytes v \<inter> free_bytes vs = {}"
      using Cons.prems(1) by (fastforce simp: spaced_Cons free_bytes_def span_bytes_def)
    have split: "span_bytes v = span_bytes (b, n) \<union> span_bytes (b + 4096 * n, k - n)"
      "span_bytes (b, n) \<inter> span_bytes (b + 4096 * n, k - n) = {}"
      using False v by (auto simp: span_bytes_def span_end_def)
    have "free_bytes ws = span_bytes (b + 4096 * n, k - n) \<union> free_bytes vs"
      using * by (auto simp: span_bytes_def span_end_def)
    moreover have "spaced hi ws" using Cons.prems * v False by (auto simp: spaced_Cons span_end_def)
    ultimately show ?thesis using * v False split disj by (auto simp: spaced_Cons)
  qed
qed simp

text \<open>Giving back adds exactly the bytes and restores the spacing.\<close>

lemma span_bytes_join3: "b = a + 4096 * n \<Longrightarrow> c = b + 4096 * k \<Longrightarrow>
    span_bytes (a, n + k + l) = span_bytes (a, n) \<union> span_bytes (b, k) \<union> span_bytes (c, l)"
  using span_bytes_join [of b a n k] span_bytes_join [of c a "n + k" l] by (simp add: add_mult_distrib2)

lemma give_back_bytes: "free_bytes (give_back a n vs) = free_bytes vs \<union> span_bytes (a, n)"
proof (induction vs)
  case (Cons v vs)
  obtain b k where v: "v = (b, k)" by (cases v)
  have j: "b + 4096 * k = a \<Longrightarrow> span_bytes (b, k + n) = span_bytes (b, k) \<union> span_bytes (a, n)"
    "a + 4096 * n = b \<Longrightarrow> span_bytes (a, n + k) = span_bytes (a, n) \<union> span_bytes (b, k)"
    "b + 4096 * k = a \<Longrightarrow> a + 4096 * n = c
      \<Longrightarrow> span_bytes (b, k + n + l) = span_bytes (b, k) \<union> span_bytes (a, n) \<union> span_bytes (c, l)" for c l
    by (auto simp: span_bytes_join [of a b k n] span_bytes_join [of b a n k] span_bytes_join3 [of a b k c n l])
  show ?case
  proof (cases "b < a + 4096 * n \<and> b + 4096 * k = a")
    case True
    show ?thesis
    proof (cases vs)
      case Nil
      then show ?thesis using True j(1) v by auto
    next
      case (Cons w ws)
      obtain c l where w: "w = (c, l)" by (cases w)
      show ?thesis
      proof (cases "a + 4096 * n = c")
        case eq: True
        then have "give_back a n (v # vs) = (b, k + n + l) # ws" using True v w Cons by simp
        then show ?thesis using True eq j(3) [of c l] v w Cons by auto
      next
        case False
        then have "give_back a n (v # vs) = (b, k + n) # vs" using True v w Cons by simp
        then show ?thesis using True j(1) v by auto
      qed
    qed
  next
    case False
    then consider "a + 4096 * n < b" | "a + 4096 * n = b" | "b < a + 4096 * n" "b + 4096 * k \<noteq> a" by linarith
    then show ?thesis using Cons.IH j(2) v by cases auto
  qed
qed simp

lemma give_back_pages: "sum_list (map snd (give_back a n vs)) = sum_list (map snd vs) + n"
  by (induction vs) (auto split: list.splits)

lemma give_back_starts: "w \<in> set (give_back a n vs) \<Longrightarrow> fst w = a \<or> (\<exists>v\<in>set vs. fst v = fst w)"
  by (induction vs) (auto split: list.splits if_splits)

lemma give_back_spaced:
  "spaced hi vs \<Longrightarrow> 0 < n \<Longrightarrow> a + 4096 * n < hi \<Longrightarrow> span_bytes (a, n) \<inter> free_bytes vs = {} \<Longrightarrow>
     spaced hi (give_back a n vs)"
proof (induction vs)
  case Nil
  then show ?case by (simp add: spaced_Cons span_end_def)
next
  case (Cons v vs)
  obtain b k where v: "v = (b, k)" by (cases v)
  have sp: "spaced hi vs" "0 < k" "b + 4096 * k < hi" "\<forall>w\<in>set vs. b + 4096 * k < fst w"
    using Cons.prems(1) by (auto simp: spaced_Cons v span_end_def)
  have dis: "\<not> (a < b + 4096 * k \<and> b < a + 4096 * n)"
  proof
    assume "a < b + 4096 * k \<and> b < a + 4096 * n"
    then have "max a b \<in> span_bytes (a, n) \<inter> span_bytes v" using sp(2) Cons.prems(2)
      by (auto simp: span_bytes_def span_end_def v)
    then show False using Cons.prems(4) by auto
  qed
  consider "a + 4096 * n < b" | "a + 4096 * n = b" | "b + 4096 * k = a" | "b + 4096 * k < a"
    using dis by linarith
  then show ?case
  proof cases
    case 4
    have "spaced hi (give_back a n vs)" using Cons sp(1) by auto
    moreover have "\<forall>w\<in>set (give_back a n vs). b + 4096 * k < fst w"
      using give_back_starts [of _ a n vs] sp(4) 4 by force
    ultimately show ?thesis using 4 sp v by (auto simp: spaced_Cons span_end_def)
  next
    case 3
    show ?thesis
    proof (cases vs)
      case Nil
      then show ?thesis using 3 v Cons.prems sp by (auto simp: spaced_Cons span_end_def)
    next
      case (Cons w ws)
      obtain c l where w: "w = (c, l)" by (cases w)
      have "c < a + 4096 * n \<Longrightarrow> c \<in> span_bytes (a, n) \<inter> span_bytes w"
        using Cons sp w 3 by (auto simp: span_bytes_def span_end_def spaced_Cons)
      then have c: "a + 4096 * n \<le> c" using Cons.prems(4) Cons by force
      then show ?thesis using 3 v w Cons Cons.prems sp
        by (auto simp: spaced_Cons span_end_def)
    qed
  qed (use v Cons.prems sp in \<open>auto simp: spaced_Cons span_end_def\<close>)
qed

end
