(* ===== verification/Heap.thy ===== *)
theory Heap
  imports Liballoc Chain
begin

text \<open>
  Correctness of the kernel heap. A heap is described by the list of its blocks, each with the
  list of its pieces (minors) in address order; \<open>heap_inv\<close> ties this view to the linked structures,
  the sizes, the accounting and the alignment bytes. The theorems follow a piece from \<open>kmalloc\<close> to
  \<open>kfree\<close>; what the heap needs of the page allocator is the locale \<open>page_source\<close>.
\<close>

section \<open>Alignment\<close>

text \<open>The pointer handed out for the piece with header \<open>m\<close>, and the place of its alignment byte.\<close>

definition user_ptr :: "u64 \<Rightarrow> u64" where
  "user_ptr m =
     (let p = m + sizeof_minor + ALIGN_INFO; d = p AND 15 in if d \<noteq> 0 then p + (16 - d) else p)"

definition tag_addr :: "u64 \<Rightarrow> u64" where
  "tag_addr m = user_ptr m - ALIGN_INFO"

definition tag :: "u64 \<Rightarrow> u8" where
  "tag m = ucast (user_ptr m - (m + sizeof_minor))"

lemma unat_and_15: "unat (p AND 15 :: u64) = unat p mod 16"
proof -
  have "p AND 15 = take_bit 4 p" by (simp add: take_bit_eq_mask mask_eq_exp_minus_1)
  then show ?thesis by (simp add: unsigned_take_bit_eq take_bit_eq_mod unat_mod_distrib)
qed

lemma ALIGN_user_ptr:
  "ALIGN (m + sizeof_minor) s = (user_ptr m, s\<lparr>bytes := (bytes s)(tag_addr m := tag m)\<rparr>)"
proof -
  define d where "d = (m + sizeof_minor + ALIGN_INFO) AND 15"
  have "user_ptr m = (if d \<noteq> 0 then m + sizeof_minor + ALIGN_INFO + (16 - d) else m + sizeof_minor + ALIGN_INFO)"
    by (simp add: user_ptr_def d_def Let_def)
  then have t: "tag m = ucast ((if d \<noteq> 0 then 16 - d else d) + ALIGN_INFO)" "user_ptr m =
      (if d \<noteq> 0 then m + sizeof_minor + ALIGN_INFO + (16 - d) else m + sizeof_minor + ALIGN_INFO)"
    by (simp_all add: tag_def ac_simps)
  show ?thesis
    by (simp add: ALIGN_def tag_addr_def t Let_def ALIGNMENT_def d_def [symmetric])
qed

lemma user_ptr_unat:
  assumes "unat m + 72 \<le> 2 ^ 64"
  shows "unat m + 56 \<le> unat (user_ptr m)" "unat (user_ptr m) < unat m + 72" "unat (user_ptr m) mod 16 = 0"
proof -
  define p where "p = m + sizeof_minor + ALIGN_INFO"
  have p: "unat p = unat m + 56"
    using assms by (simp add: p_def sizeof_minor_def ALIGN_INFO_def unat_word_ariths)
  have d: "unat (16 - (p AND 15)) = 16 - unat p mod 16"
    using unat_and_15 [of p] by (simp add: unat_sub word_le_nat_alt)
  have "unat m + 56 \<le> unat (user_ptr m) \<and> unat (user_ptr m) < unat m + 72 \<and> unat (user_ptr m) mod 16 = 0"
  proof (cases "p AND 15 = 0")
    case True
    then have "unat p mod 16 = 0" using unat_and_15 [of p] by simp
    then show ?thesis using True p by (simp add: user_ptr_def p_def [symmetric])
  next
    case False
    define r where "r = unat p mod 16"
    have r: "0 < r" "r < 16" using False unat_and_15 [of p] by (auto simp: r_def unat_eq_0 [symmetric])
    have "user_ptr m = p + (16 - (p AND 15))" using False by (simp add: user_ptr_def p_def Let_def)
    moreover have "unat (16 - (p AND 15)) = 16 - r" using d by (simp add: r_def)
    ultimately have u: "unat (user_ptr m) = unat p + (16 - r)"
      using p assms r by (simp add: unat64_add)
    obtain q where "unat p = 16 * q + r" using r_def div_mult_mod_eq [of "unat p" 16] by (metis mult.commute)
    then have "unat p + (16 - r) = 16 * (q + 1)" using r by simp
    then have "unat (user_ptr m) mod 16 = 0" by (simp add: u)
    then show ?thesis using u p r by linarith
  qed
  then show "unat m + 56 \<le> unat (user_ptr m)" "unat (user_ptr m) < unat m + 72" "unat (user_ptr m) mod 16 = 0"
    by auto
qed

text \<open>The round trip of the two macros: the byte leads back from the pointer to the piece.\<close>

lemma tag_addr_unat:
  assumes "unat m + 72 \<le> 2 ^ 64"
  shows "unat m + 40 \<le> unat (tag_addr m)" "unat (tag_addr m) < unat m + 56" "unat (tag_addr m) + 16 = unat (user_ptr m)"
proof -
  have "unat (tag_addr m) = unat (user_ptr m) - 16"
    using user_ptr_unat(1) [OF assms] by (simp add: tag_addr_def ALIGN_INFO_def unat_sub word_le_nat_alt)
  then show "unat m + 40 \<le> unat (tag_addr m)" "unat (tag_addr m) < unat m + 56" "unat (tag_addr m) + 16 = unat (user_ptr m)"
    using user_ptr_unat [OF assms] by auto
qed

lemma tags_differ:
  assumes "unat m + 72 \<le> 2 ^ 64" "unat k + 72 \<le> 2 ^ 64" "unat m + 72 \<le> unat k \<or> unat k + 72 \<le> unat m"
  shows "tag_addr m \<noteq> tag_addr k"
  using tag_addr_unat [OF assms(1)] tag_addr_unat [OF assms(2)] assms(3) by auto

lemma UNALIGN_user_ptr:
  assumes "unat m + 72 \<le> 2 ^ 64" and "bytes s (tag_addr m) = tag m"
  shows "UNALIGN (user_ptr m) s = m + sizeof_minor"
proof -
  define d where "d = user_ptr m - (m + sizeof_minor)"
  have "unat (m + sizeof_minor) = unat m + 40"
    using assms(1) by (simp add: sizeof_minor_def unat_word_ariths)
  then have d: "16 \<le> unat d" "unat d < 32"
    using user_ptr_unat(1,2) [OF assms(1)] by (simp_all add: d_def unat_sub word_le_nat_alt)
  have "scast (tag m) = d"
  proof -
    have "uint d < 128" using d(2) uint_nat [of d] by linarith
    moreover have "- 128 \<le> uint d" using unsigned_greater_eq [of d, where 'a = int] by linarith
    ultimately have "sint (ucast d :: u8) = uint d"
      by (simp add: signed_ucast_eq signed_take_bit_int_eq_self_iff)
    then show ?thesis by (simp add: tag_def d_def [symmetric] scast_eq)
  qed
  then show ?thesis
    using d assms(2) by (simp add: UNALIGN_def tag_addr_def ALIGNMENT_def ALIGN_INFO_def Let_def word_less_nat_alt d_def)
qed

section \<open>The invariant\<close>

text \<open>\<open>fits sz lo hi ms\<close>: the pieces lie between \<open>lo\<close> and \<open>hi\<close> in order; \<open>after\<close> is where the next may begin.\<close>

fun fits :: "(u64 \<Rightarrow> nat) \<Rightarrow> nat \<Rightarrow> nat \<Rightarrow> u64 list \<Rightarrow> bool" where
  "fits sz lo hi [] \<longleftrightarrow> lo \<le> hi"
| "fits sz lo hi (m # ms) \<longleftrightarrow> lo \<le> unat m \<and> fits sz (unat m + 40 + sz m) hi ms"

definition after :: "(u64 \<Rightarrow> nat) \<Rightarrow> nat \<Rightarrow> u64 list \<Rightarrow> nat" where
  "after sz lo ms = (if ms = [] then lo else unat (last ms) + 40 + sz (last ms))"

definition before :: "nat \<Rightarrow> u64 list \<Rightarrow> nat" where
  "before hi ms = (if ms = [] then hi else unat (hd ms))"

lemma fits_append: "fits sz lo hi (as @ cs) \<longleftrightarrow> fits sz lo (after sz lo as) as \<and> fits sz (after sz lo as) hi cs"
  by (induction as arbitrary: lo) (auto simp: after_def)

lemma fits_le: "fits sz lo hi ms \<Longrightarrow> lo \<le> hi"
  by (induction ms arbitrary: lo) force+

lemma fits_mem: "fits sz lo hi ms \<Longrightarrow> m \<in> set ms \<Longrightarrow> lo \<le> unat m \<and> unat m + 40 + sz m \<le> hi"
  by (induction ms arbitrary: lo) (use fits_le in force)+

lemma fits_cong: "fits sz lo hi ms \<Longrightarrow> (\<And>m. m \<in> set ms \<Longrightarrow> sz' m = sz m) \<Longrightarrow> fits sz' lo hi ms"
  by (induction ms arbitrary: lo) auto

lemma fits_distinct: "fits sz lo hi ms \<Longrightarrow> distinct ms"
  by (induction ms arbitrary: lo) (use fits_mem in fastforce)+

lemma fits_disjoint:
  "fits sz lo hi ms \<Longrightarrow> m \<in> set ms \<Longrightarrow> k \<in> set ms \<Longrightarrow> m \<noteq> k \<Longrightarrow>
     unat m + 40 + sz m \<le> unat k \<or> unat k + 40 + sz k \<le> unat m"
  by (induction ms arbitrary: lo) (use fits_mem in fastforce)+

lemma fits_sum: "fits sz lo hi ms \<Longrightarrow> lo + (\<Sum>m\<leftarrow>ms. 40 + sz m) \<le> hi"
  by (induction ms arbitrary: lo) force+

text \<open>A new piece in the gap between \<open>as\<close> and \<open>cs\<close>, and a piece that leaves.\<close>

lemma fits_insert:
  assumes "fits sz lo hi (as @ cs)" and "after sz lo as \<le> unat new" "unat new + 40 + n \<le> before hi cs"
    and "sz' new = n" "\<And>m. m \<in> set (as @ cs) \<Longrightarrow> sz' m = sz m"
  shows "fits sz' lo hi (as @ new # cs)"
proof -
  have as: "fits sz' lo (after sz lo as) as" and cs: "fits sz' (after sz lo as) hi cs"
    using assms(1,5) by (auto simp: fits_append intro: fits_cong)
  have "after sz' lo as = after sz lo as" using assms(5) by (auto simp: after_def)
  moreover have "fits sz' (unat new + 40 + sz' new) hi cs"
    using cs assms(3,4) by (cases cs) (auto simp: before_def)
  ultimately show ?thesis using as assms(2) by (simp add: fits_append)
qed

lemma fits_weaken: "fits sz lo hi ms \<Longrightarrow> lo' \<le> lo \<Longrightarrow> fits sz lo' hi ms"
  by (cases ms) auto

lemma fits_remove: "fits sz lo hi (as @ m # cs) \<Longrightarrow> fits sz lo hi (as @ cs)"
  by (auto simp: fits_append intro: fits_weaken)

text \<open>
  \<open>block_inv s b ms\<close>: the block at \<open>b\<close> is whole pages, its minors are the list \<open>ms\<close>, each intact and with
  room for the alignment, and its usage counts the header and the minors.
\<close>

definition psize :: "'a liballoc_scheme \<Rightarrow> u64 \<Rightarrow> nat" where
  "psize s m = unat (min_size (minors s m))"

definition block_size :: "'a liballoc_scheme \<Rightarrow> u64 \<Rightarrow> nat" where
  "block_size s b = unat (maj_size (majors s b))"

definition minor_ok :: "'a liballoc_scheme \<Rightarrow> u64 \<Rightarrow> u64 \<Rightarrow> bool" where
  "minor_ok s b m \<longleftrightarrow> min_magic (minors s m) = LIBALLOC_MAGIC \<and> min_block (minors s m) = b
     \<and> unat (min_req_size (minors s m)) + 32 \<le> psize s m \<and> bytes s (tag_addr m) = tag m"

definition links_ok :: "'a liballoc_scheme \<Rightarrow> u64 \<Rightarrow> u64 list \<Rightarrow> bool" where
  "links_ok s b ms \<longleftrightarrow>
     dll (\<lambda>m. min_next (minors s m)) (\<lambda>m. min_prev (minors s m)) 0 (maj_first (majors s b)) ms"

definition block_inv :: "'a liballoc_scheme \<Rightarrow> u64 \<Rightarrow> u64 list \<Rightarrow> bool" where
  "block_inv s b ms \<longleftrightarrow> b \<noteq> 0 \<and> unat b + block_size s b < 2 ^ 64
     \<and> block_size s b = 4096 * unat (maj_pages (majors s b))
     \<and> links_ok s b ms \<and> fits (psize s) (unat b + 40) (unat b + block_size s b) ms
     \<and> (\<forall>m\<in>set ms. minor_ok s b m)
     \<and> unat (maj_usage (majors s b)) = 40 + (\<Sum>m\<leftarrow>ms. 40 + psize s m)"

type_synonym heap_view = "(u64 \<times> u64 list) list"

definition pieces :: "heap_view \<Rightarrow> u64 list" where
  "pieces H = concat (map snd H)"

text \<open>Blocks that do not overlap.\<close>

definition blocks_apart :: "'a liballoc_scheme \<Rightarrow> u64 \<Rightarrow> u64 \<Rightarrow> bool" where
  "blocks_apart s b c \<longleftrightarrow> unat b + block_size s b \<le> unat c \<or> unat c + block_size s c \<le> unat b"

definition heap_inv :: "'a liballoc_scheme \<Rightarrow> heap_view \<Rightarrow> bool" where
  "heap_inv s H \<longleftrightarrow>
     dll (\<lambda>b. maj_next (majors s b)) (\<lambda>b. maj_prev (majors s b)) 0 (l_memRoot s) (map fst H)
     \<and> sorted_wrt (blocks_apart s) (map fst H)
     \<and> (\<forall>(b, ms)\<in>set H. block_inv s b ms)
     \<and> (l_bestBet s = 0 \<or> l_bestBet s \<in> fst ` set H)
     \<and> l_inuse s = (\<Sum>m\<leftarrow>pieces H. ucast (min_size (minors s m)))
     \<and> l_allocated s = (\<Sum>b\<leftarrow>map fst H. ucast (maj_size (majors s b)))"

lemma block_invD:
  assumes "block_inv s b ms"
  shows "b \<noteq> 0" "unat b + block_size s b < 2 ^ 64" "block_size s b = 4096 * unat (maj_pages (majors s b))"
    "links_ok s b ms" "fits (psize s) (unat b + 40) (unat b + block_size s b) ms"
    "m \<in> set ms \<Longrightarrow> minor_ok s b m" "unat (maj_usage (majors s b)) = 40 + (\<Sum>m\<leftarrow>ms. 40 + psize s m)"
  using assms by (auto simp: block_inv_def)

lemma block_inv_bounds:
  assumes "block_inv s b ms" "m \<in> set ms"
  shows "unat b + 40 \<le> unat m" "unat m + 40 + psize s m \<le> unat b + block_size s b" "32 \<le> psize s m"
    "unat m + 72 \<le> 2 ^ 64"
  using assms fits_mem [of "psize s" "unat b + 40" "unat b + block_size s b" ms m]
  by (auto simp: block_inv_def minor_ok_def)

lemma block_inv_positive: "block_inv s b ms \<Longrightarrow> 40 \<le> block_size s b"
  by (auto simp: block_inv_def dest: fits_le)

text \<open>The invariant of a block depends only on its header, its minors and their alignment bytes.\<close>

lemma block_inv_cong:
  assumes "block_inv s b ms"
    and "maj_size (majors s' b) = maj_size (majors s b)" "maj_pages (majors s' b) = maj_pages (majors s b)"
      "maj_usage (majors s' b) = maj_usage (majors s b)" "maj_first (majors s' b) = maj_first (majors s b)"
    and "\<And>m. m \<in> set ms \<Longrightarrow> minors s' m = minors s m"
    and "\<And>m. m \<in> set ms \<Longrightarrow> bytes s' (tag_addr m) = bytes s (tag_addr m)"
  shows "block_inv s' b ms"
proof -
  have sz: "psize s' m = psize s m" if "m \<in> set ms" for m using that assms(6) by (simp add: psize_def)
  have "(\<Sum>m\<leftarrow>ms. 40 + psize s' m) = (\<Sum>m\<leftarrow>ms. 40 + psize s m)"
    using sz by (intro arg_cong [where f = sum_list] map_cong) auto
  moreover have "links_ok s' b ms" using assms(1,5,6) by (auto simp: links_ok_def block_inv_def intro: dll_cong)
  moreover have "fits (psize s') (unat b + 40) (unat b + block_size s b) ms"
    using assms(1) sz by (auto simp: block_inv_def intro: fits_cong)
  ultimately show ?thesis using assms sz by (simp add: block_inv_def block_size_def minor_ok_def)
qed

text \<open>Pieces and alignment bytes of different blocks are different.\<close>

lemma blocks_apart_minors:
  assumes "block_inv s b ms" "block_inv s c ks" "blocks_apart s b c" "m \<in> set ms" "k \<in> set ks"
  shows "m \<noteq> k" "unat m + 40 + psize s m \<le> unat k \<or> unat k + 40 + psize s k \<le> unat m"
  using assms block_inv_bounds [OF assms(1,4)] block_inv_bounds [OF assms(2,5)]
  by (auto simp: blocks_apart_def)

section \<open>A new piece\<close>

text \<open>
  The common effect of the successful cases of \<open>kmalloc\<close>: a new minor between \<open>left\<close> and \<open>right\<close>, the
  accounting, and the alignment byte.
\<close>

definition place :: "u64 \<Rightarrow> u64 \<Rightarrow> u64 \<Rightarrow> u64 \<Rightarrow> u64 \<Rightarrow> u64 \<Rightarrow> 'a liballoc_scheme \<Rightarrow> 'a liballoc_scheme" where
  "place b left right new sz req_size s =
     (let s = upd_minor new (\<lambda>_. \<lparr>min_prev = left, min_next = right, min_block = b, min_magic = LIBALLOC_MAGIC,
                min_size = ucast sz, min_req_size = ucast req_size\<rparr>) s;
          s = (if right \<noteq> 0 then upd_minor right (\<lambda>m. m\<lparr>min_prev := new\<rparr>) s else s);
          s = (if left \<noteq> 0 then upd_minor left (\<lambda>m. m\<lparr>min_next := new\<rparr>) s
               else upd_major b (\<lambda>b. b\<lparr>maj_first := new\<rparr>) s);
          s = count_usage b sz s
      in s\<lparr>bytes := (bytes s)(tag_addr new := tag new)\<rparr>)"

text \<open>The four orders in which the cases write all fields of a minor.\<close>

lemma minor_complete:
  fixes m :: liballoc_minor
  shows "m\<lparr>min_magic := d, min_prev := a, min_next := b, min_block := c, min_size := e, min_req_size := f\<rparr>
      = \<lparr>min_prev = a, min_next = b, min_block = c, min_magic = d, min_size = e, min_req_size = f\<rparr>"
    and "m\<lparr>min_next := b, min_magic := d, min_prev := a, min_block := c, min_size := e, min_req_size := f\<rparr>
      = \<lparr>min_prev = a, min_next = b, min_block = c, min_magic = d, min_size = e, min_req_size = f\<rparr>"
    and "m\<lparr>min_prev := a, min_next := b, min_magic := d, min_block := c, min_size := e, min_req_size := f\<rparr>
      = \<lparr>min_prev = a, min_next = b, min_block = c, min_magic = d, min_size = e, min_req_size = f\<rparr>"
    and "m\<lparr>min_magic := d, min_next := b, min_prev := a, min_size := e, min_req_size := f, min_block := c\<rparr>
      = \<lparr>min_prev = a, min_next = b, min_block = c, min_magic = d, min_size = e, min_req_size = f\<rparr>"
  by (cases m, simp)+

lemmas place_defs = place_def count_usage_def upd_minor_def upd_major_def ALIGN_user_ptr Let_def

lemma case2_place:
  "case2 maj sz req_size s = (user_ptr (maj + sizeof_major), place maj 0 0 (maj + sizeof_major) sz req_size s)"
  by (simp add: case2_def place_defs minor_complete)

lemma case3_place:
  assumes "maj_first (majors s maj) \<noteq> 0" "maj_first (majors s maj) \<noteq> maj + sizeof_major"
  shows "case3 maj sz req_size s = (user_ptr (maj + sizeof_major),
    place maj 0 (maj_first (majors s maj)) (maj + sizeof_major) sz req_size s)"
  using assms by (simp add: case3_def place_defs fun_upd_twist minor_complete)

lemma case41_place:
  assumes "m \<noteq> 0" "minor_end m s \<noteq> m"
  shows "case41 maj m sz req_size s = (user_ptr (minor_end m s), place maj m 0 (minor_end m s) sz req_size s)"
  using assms by (simp add: case41_def place_defs fun_upd_twist minor_complete)

lemma case42_place:
  assumes "m \<noteq> 0" "minor_end m s \<noteq> m" "min_next (minors s m) \<noteq> 0" "min_next (minors s m) \<noteq> minor_end m s"
    "min_next (minors s m) \<noteq> m"
  shows "case42 maj m sz req_size s = (user_ptr (minor_end m s),
    place maj m (min_next (minors s m)) (minor_end m s) sz req_size s)"
  using assms by (simp add: case42_def place_defs fun_upd_twist minor_complete)

lemma place_majors:
  "majors (place b left right new sz req_size s) =
     (majors s)(b := (majors s b)\<lparr>maj_first := (if left = 0 then new else maj_first (majors s b)),
        maj_usage := ucast (ucast (maj_usage (majors s b)) + (sz + sizeof_minor))\<rparr>)"
  by (cases "majors s b") (simp add: place_defs)

lemma place_major_fields [simp]:
  "maj_next (majors (place b left right new sz req_size s) c) = maj_next (majors s c)"
  "maj_prev (majors (place b left right new sz req_size s) c) = maj_prev (majors s c)"
  "maj_size (majors (place b left right new sz req_size s) c) = maj_size (majors s c)"
  "maj_pages (majors (place b left right new sz req_size s) c) = maj_pages (majors s c)"
  by (simp_all add: place_majors)

lemma place_minors:
  assumes "new \<noteq> left" "new \<noteq> right"
  shows "minors (place b left right new sz req_size s) new =
      \<lparr>min_prev = left, min_next = right, min_block = b, min_magic = LIBALLOC_MAGIC,
       min_size = ucast sz, min_req_size = ucast req_size\<rparr>"
    and "x \<noteq> new \<Longrightarrow> minors (place b left right new sz req_size s) x =
      (minors s x)\<lparr>min_prev := (if x = right \<and> right \<noteq> 0 then new else min_prev (minors s x)),
                  min_next := (if x = left \<and> left \<noteq> 0 then new else min_next (minors s x))\<rparr>"
  using assms by (cases "minors s x", auto simp: place_defs)+

lemma place_rest [simp]:
  "bytes (place b left right new sz req_size s) = (bytes s)(tag_addr new := tag new)"
  "l_memRoot (place b left right new sz req_size s) = l_memRoot s"
  "l_bestBet (place b left right new sz req_size s) = l_bestBet s"
  "l_allocated (place b left right new sz req_size s) = l_allocated s"
  "l_inuse (place b left right new sz req_size s) = l_inuse s + sz"
  "l_warningCount (place b left right new sz req_size s) = l_warningCount s"
  "l_errorCount (place b left right new sz req_size s) = l_errorCount s"
  "l_possibleOverruns (place b left right new sz req_size s) = l_possibleOverruns s"
  "liballoc.more (place b left right new sz req_size s) = liballoc.more s"
  by (simp_all add: place_defs)

text \<open>A gap of the block: \<open>new\<close> has room between \<open>as\<close> and \<open>cs\<close> for a header and \<open>n\<close> bytes.\<close>

definition gap_at :: "'a liballoc_scheme \<Rightarrow> u64 \<Rightarrow> u64 list \<Rightarrow> u64 list \<Rightarrow> u64 \<Rightarrow> nat \<Rightarrow> bool" where
  "gap_at s b as cs new n \<longleftrightarrow> after (psize s) (unat b + 40) as \<le> unat new
     \<and> unat new + 40 + n \<le> before (unat b + block_size s b) cs"

lemma gap_at_facts:
  assumes "block_inv s b (as @ cs)" "gap_at s b as cs new n"
  shows "unat b + 40 \<le> unat new" "unat new + 40 + n \<le> unat b + block_size s b"
    "unat (maj_usage (majors s b)) + 40 + n \<le> block_size s b"
    "m \<in> set (as @ cs) \<Longrightarrow> unat m + 40 + psize s m \<le> unat new \<or> unat new + 40 + n \<le> unat m"
    "new \<notin> set (as @ cs)"
proof -
  define hi where "hi = unat b + block_size s b"
  define sz where "sz = (\<lambda>m. if m = new then n else psize s m)"
  have f: "fits (psize s) (unat b + 40) hi (as @ cs)" using block_invD(5) [OF assms(1)] by (simp only: hi_def)
  have sp: "fits (psize s) (unat b + 40) (after (psize s) (unat b + 40) as) as"
      "fits (psize s) (after (psize s) (unat b + 40) as) hi cs"
    using f by (auto simp: fits_append)
  have as: "unat m + 40 + psize s m \<le> unat new" if "m \<in> set as" for m
    using fits_mem [OF sp(1) that] assms(2) by (simp add: gap_at_def)
  have cs: "unat new + 40 + n \<le> unat m" if "m \<in> set cs" for m
  proof -
    have "before hi cs \<le> unat m" using sp(2) that
      by (cases cs) (auto simp: before_def dest!: fits_mem)
    then show ?thesis using assms(2) by (simp add: gap_at_def hi_def)
  qed
  show mem: "m \<in> set (as @ cs) \<Longrightarrow> unat m + 40 + psize s m \<le> unat new \<or> unat new + 40 + n \<le> unat m"
    using as cs by auto
  show notin: "new \<notin> set (as @ cs)" using as cs by fastforce
  have "fits sz (unat b + 40) hi (as @ new # cs)"
    by (rule fits_insert [OF f]) (use assms(2) notin in \<open>auto simp: gap_at_def hi_def sz_def\<close>)
  note new = this
  show "unat b + 40 \<le> unat new" "unat new + 40 + n \<le> unat b + block_size s b"
    using fits_mem [OF new, of new] by (auto simp: sz_def hi_def)
  have "map sz as = map (psize s) as" "map sz cs = map (psize s) cs" using notin by (auto simp: sz_def)
  then have e: "(\<Sum>m\<leftarrow>as @ new # cs. 40 + sz m) = 40 + n + (\<Sum>m\<leftarrow>as @ cs. 40 + psize s m)"
    using sz_def by (simp add: sum_list_addf del: map_eq_conv)
  show "unat (maj_usage (majors s b)) + 40 + n \<le> block_size s b"
    using fits_sum [OF new] assms(1) unfolding e by (simp add: block_inv_def hi_def)
qed

lemma block_size_lt: "block_size s b < 2 ^ 32"
  unfolding block_size_def by (rule unat32_lt)

lemma usage_grows:
  "unat u + 40 + unat sz < 2 ^ 32 \<Longrightarrow> unat (ucast (ucast (u :: u32) + (sz + sizeof_minor) :: u64) :: u32) = unat u + 40 + unat sz"
proof -
  assume lt: "unat u + 40 + unat sz < 2 ^ 32"
  have "unat (ucast u + (sz + sizeof_minor) :: u64) = unat u + 40 + unat sz"
    using lt by (simp add: sizeof_minor_def unat_word_ariths unat_ucast64)
  then show ?thesis using lt by (simp add: unat_ucast32)
qed

lemma links_ok_nonzero: "links_ok s b ms \<Longrightarrow> 0 \<notin> set ms"
  unfolding links_ok_def by (rule dll_nonzero)

lemma in_not_in: "x \<in> A \<Longrightarrow> y \<notin> A \<Longrightarrow> x \<noteq> y"
  by blast

lemma place_view:
  assumes "block_inv s b (as @ cs)" "gap_at s b as cs new (unat sz)" "unat req_size + 32 \<le> unat sz"
  defines "s' \<equiv> place b (last (0 # as)) (hd (cs @ [0])) new sz req_size s"
  shows "minors s' new = \<lparr>min_prev = last (0 # as), min_next = hd (cs @ [0]), min_block = b,
       min_magic = LIBALLOC_MAGIC, min_size = ucast sz, min_req_size = ucast req_size\<rparr>"
    and "x \<in> set (as @ cs) \<Longrightarrow> min_size (minors s' x) = min_size (minors s x)
        \<and> min_magic (minors s' x) = min_magic (minors s x) \<and> min_block (minors s' x) = min_block (minors s x)
        \<and> min_req_size (minors s' x) = min_req_size (minors s x)"
    and "x \<in> set (as @ cs) \<Longrightarrow> min_next (minors s' x) = (if as \<noteq> [] \<and> x = last as then new else min_next (minors s x))"
    and "x \<in> set (as @ cs) \<Longrightarrow> min_prev (minors s' x) = (if cs \<noteq> [] \<and> x = hd cs then new else min_prev (minors s x))"
    and "x \<noteq> new \<Longrightarrow> x \<notin> set (as @ cs) \<Longrightarrow> minors s' x = minors s x"
    and "maj_first (majors s' b) = (if as = [] then new else maj_first (majors s b))"
    and "new \<noteq> 0"
proof -
  note gap = gap_at_facts [OF assms(1,2)]
  have nz: "new \<noteq> 0" "0 \<notin> set (as @ cs)"
    using gap(1) links_ok_nonzero [OF block_invD(4) [OF assms(1)]] by (auto simp: unat_eq_0 [symmetric])
  have ne: "new \<noteq> last (0 # as)" "new \<noteq> hd (cs @ [0])" using nz gap(5) by (auto simp: hd_append dest: last_in_set)
  show "new \<noteq> 0" by (rule nz)
  show "minors s' new = \<lparr>min_prev = last (0 # as), min_next = hd (cs @ [0]), min_block = b,
       min_magic = LIBALLOC_MAGIC, min_size = ucast sz, min_req_size = ucast req_size\<rparr>"
    unfolding s'_def by (rule place_minors(1) [OF ne])
  have other: "minors s' x = (minors s x)\<lparr>
      min_prev := (if x = hd (cs @ [0]) \<and> hd (cs @ [0]) \<noteq> 0 then new else min_prev (minors s x)),
      min_next := (if x = last (0 # as) \<and> last (0 # as) \<noteq> 0 then new else min_next (minors s x))\<rparr>"
    if "x \<noteq> new" for x unfolding s'_def by (rule place_minors(2) [OF ne that])
  note old = other [OF in_not_in [OF _ gap(5)]]
  show "x \<in> set (as @ cs) \<Longrightarrow> min_size (minors s' x) = min_size (minors s x)
        \<and> min_magic (minors s' x) = min_magic (minors s x) \<and> min_block (minors s' x) = min_block (minors s x)
        \<and> min_req_size (minors s' x) = min_req_size (minors s x)"
    by (simp only: old) simp
  show "x \<in> set (as @ cs) \<Longrightarrow> min_next (minors s' x) = (if as \<noteq> [] \<and> x = last as then new else min_next (minors s x))"
    "x \<in> set (as @ cs) \<Longrightarrow> min_prev (minors s' x) = (if cs \<noteq> [] \<and> x = hd cs then new else min_prev (minors s x))"
    using nz(2) old [of x] by (cases "as = []"; cases cs; auto)+
  show "x \<noteq> new \<Longrightarrow> x \<notin> set (as @ cs) \<Longrightarrow> minors s' x = minors s x"
    using other [of x] by (cases "as = []"; cases cs) (auto dest: last_in_set)
  have "as \<noteq> [] \<Longrightarrow> last as \<noteq> 0" using nz(2) last_in_set [of as] by force
  then show "maj_first (majors s' b) = (if as = [] then new else maj_first (majors s b))"
    by (auto simp: s'_def place_majors)
qed

lemma place_sizes:
  assumes "block_inv s b (as @ cs)" "gap_at s b as cs new (unat sz)" "unat req_size + 32 \<le> unat sz"
  defines "s' \<equiv> place b (last (0 # as)) (hd (cs @ [0])) new sz req_size s"
  shows "psize s' new = unat sz" "m \<in> set (as @ cs) \<Longrightarrow> psize s' m = psize s m"
    "unat (ucast req_size :: u32) = unat req_size"
proof -
  have lt: "unat sz < 2 ^ 32" using gap_at_facts(3) [OF assms(1,2)] block_size_lt [of s b] by linarith
  show "psize s' new = unat sz" "m \<in> set (as @ cs) \<Longrightarrow> psize s' m = psize s m"
    using place_view(1,2) [OF assms(1-3)] unat_ucast32 [OF lt] by (auto simp: psize_def s'_def)
  show "unat (ucast req_size :: u32) = unat req_size" using assms(3) lt by (intro unat_ucast32) linarith
qed

lemma place_links_ok:
  assumes "block_inv s b (as @ cs)" "gap_at s b as cs new (unat sz)" "unat req_size + 32 \<le> unat sz"
  defines "s' \<equiv> place b (last (0 # as)) (hd (cs @ [0])) new sz req_size s"
  shows "links_ok s' b (as @ new # cs)"
proof -
  note view = place_view [OF assms(1-3), folded s'_def]
  have "dll (\<lambda>m. min_next (minors s' m)) (\<lambda>m. min_prev (minors s' m)) 0
      (if as = [] then new else maj_first (majors s b)) (as @ new # cs)"
  proof (rule dll_insert)
    show "dll (\<lambda>m. min_next (minors s m)) (\<lambda>m. min_prev (minors s m)) 0 (maj_first (majors s b)) (as @ cs)"
      using block_invD(4) [OF assms(1)] by (simp add: links_ok_def)
    show "distinct (as @ cs)" using block_invD(5) [OF assms(1)] by (rule fits_distinct)
    show "new \<notin> set (as @ cs)" by (rule gap_at_facts(5) [OF assms(1,2)])
  qed (use view in auto)
  then show ?thesis by (simp add: links_ok_def view(6))
qed

lemma place_minor_ok:
  assumes "block_inv s b (as @ cs)" "gap_at s b as cs new (unat sz)" "unat req_size + 32 \<le> unat sz"
  defines "s' \<equiv> place b (last (0 # as)) (hd (cs @ [0])) new sz req_size s"
  assumes "m \<in> set (as @ new # cs)"
  shows "minor_ok s' b m"
proof (cases "m = new")
  case True
  then show ?thesis using place_view(1) [OF assms(1-3)] place_sizes [OF assms(1-3)] assms(3)
    by (simp add: minor_ok_def s'_def)
next
  case False
  then have m: "m \<in> set (as @ cs)" using assms(5) by auto
  have "tag_addr m \<noteq> tag_addr new"
  proof (rule tags_differ)
    show "unat m + 72 \<le> unat new \<or> unat new + 72 \<le> unat m"
      using gap_at_facts(4) [OF assms(1,2) m] block_inv_bounds(3) [OF assms(1) m] assms(3) by auto
  qed (use block_inv_bounds(4) [OF assms(1) m] gap_at_facts(2) [OF assms(1,2)] block_invD(2) [OF assms(1)] assms(3)
       in linarith)+
  then show ?thesis
    using block_invD(6) [OF assms(1) m] place_view(2) [OF assms(1-3) m] place_sizes(2) [OF assms(1-3) m]
    by (simp add: minor_ok_def s'_def)
qed

lemma place_usage:
  assumes "block_inv s b (as @ cs)" "gap_at s b as cs new (unat sz)" "unat req_size + 32 \<le> unat sz"
  defines "s' \<equiv> place b (last (0 # as)) (hd (cs @ [0])) new sz req_size s"
  shows "unat (maj_usage (majors s' b)) = 40 + (\<Sum>m\<leftarrow>as @ new # cs. 40 + psize s' m)"
proof -
  note szs = place_sizes [OF assms(1-3), folded s'_def]
  have "map (psize s') as = map (psize s) as" "map (psize s') cs = map (psize s) cs" using szs(2) by auto
  then have "(\<Sum>m\<leftarrow>as @ new # cs. 40 + psize s' m) = 40 + unat sz + (\<Sum>m\<leftarrow>as @ cs. 40 + psize s m)"
    by (simp add: sum_list_addf szs(1) del: map_eq_conv)
  moreover have "unat (maj_usage (majors s' b)) = unat (maj_usage (majors s b)) + 40 + unat sz"
    using gap_at_facts(3) [OF assms(1,2)] block_size_lt [of s b] by (simp add: s'_def place_majors usage_grows)
  ultimately show ?thesis using block_invD(7) [OF assms(1)] by simp
qed

lemma place_block_inv:
  assumes "block_inv s b (as @ cs)" "gap_at s b as cs new (unat sz)" "unat req_size + 32 \<le> unat sz"
  shows "block_inv (place b (last (0 # as)) (hd (cs @ [0])) new sz req_size s) b (as @ new # cs)"
    (is "block_inv ?s' _ _")
proof -
  have "block_size ?s' b = block_size s b" "maj_pages (majors ?s' b) = maj_pages (majors s b)"
    by (simp_all add: place_majors block_size_def)
  moreover have "fits (psize ?s') (unat b + 40) (unat b + block_size s b) (as @ new # cs)"
    by (rule fits_insert [OF block_invD(5) [OF assms(1)]])
      (use assms(2) place_sizes [OF assms] in \<open>auto simp: gap_at_def\<close>)
  ultimately show ?thesis
    using block_invD(1-3) [OF assms(1)] place_links_ok [OF assms] place_minor_ok [OF assms] place_usage [OF assms]
    unfolding block_inv_def by metis
qed

section \<open>The whole heap\<close>

lemma blocks_apart_sym: "blocks_apart s b c \<longleftrightarrow> blocks_apart s c b"
  by (auto simp: blocks_apart_def)

lemma heap_inv_block: "heap_inv s H \<Longrightarrow> (b, ms) \<in> set H \<Longrightarrow> block_inv s b ms"
  by (auto simp: heap_inv_def)

lemma heap_inv_split:
  assumes "heap_inv s (A @ (b, ms) # B)"
  shows "block_inv s b ms" "(c, ks) \<in> set (A @ B) \<Longrightarrow> block_inv s c ks"
    "(c, ks) \<in> set (A @ B) \<Longrightarrow> blocks_apart s b c" "(c, ks) \<in> set (A @ B) \<Longrightarrow> c \<noteq> b"
proof -
  show b: "block_inv s b ms" using assms by (auto simp: heap_inv_def)
  show c: "(c, ks) \<in> set (A @ B) \<Longrightarrow> block_inv s c ks" using assms by (auto simp: heap_inv_def)
  have "sorted_wrt (blocks_apart s) (map fst A @ b # map fst B)" using assms by (simp add: heap_inv_def)
  then show ap: "(c, ks) \<in> set (A @ B) \<Longrightarrow> blocks_apart s b c"
    by (force simp: sorted_wrt_append blocks_apart_sym)
  show "(c, ks) \<in> set (A @ B) \<Longrightarrow> c \<noteq> b"
    using ap block_inv_positive [OF b] by (auto simp: blocks_apart_def)
qed

text \<open>Pieces of the whole heap do not overlap.\<close>

lemma heap_inv_piece: "heap_inv s H \<Longrightarrow> m \<in> set (pieces H) \<Longrightarrow> \<exists>b ms. (b, ms) \<in> set H \<and> m \<in> set ms \<and> block_inv s b ms"
  by (force simp: pieces_def heap_inv_def)

lemma heap_pieces_disjoint:
  assumes "heap_inv s H" "m \<in> set (pieces H)" "k \<in> set (pieces H)" "m \<noteq> k"
  shows "unat m + 40 + psize s m \<le> unat k \<or> unat k + 40 + psize s k \<le> unat m"
proof -
  obtain b ms c ks where b: "(b, ms) \<in> set H" "m \<in> set ms" and c: "(c, ks) \<in> set H" "k \<in> set ks"
    using assms(2,3) by (auto simp: pieces_def)
  obtain A B where H: "H = A @ (b, ms) # B" using b(1) by (meson split_list)
  note sp = heap_inv_split [OF assms(1) [unfolded H]]
  show ?thesis
  proof (cases "(c, ks) = (b, ms)")
    case True
    then show ?thesis using fits_disjoint [OF block_invD(5) [OF sp(1)]] b c assms(4) by auto
  next
    case False
    then have "(c, ks) \<in> set (A @ B)" using c H by auto
    then show ?thesis using blocks_apart_minors [OF sp(1) sp(2) sp(3)] b c by blast
  qed
qed

lemma heap_pieces_distinct: "heap_inv s (A @ (b, ms) # B) \<Longrightarrow> (c, ks) \<in> set (A @ B) \<Longrightarrow> k \<in> set ks \<Longrightarrow> k \<notin> set ms"
  using heap_inv_split blocks_apart_minors(1) by metis

lemma piece_elsewhere: "m \<in> set (pieces (A @ (b, ms) # B)) \<Longrightarrow> m \<notin> set ms \<Longrightarrow> \<exists>c ks. (c, ks) \<in> set (A @ B) \<and> m \<in> set ks"
  by (fastforce simp: pieces_def)

text \<open>A gap is away from every piece of the heap.\<close>

lemma gap_away:
  assumes "heap_inv s (A @ (b, as @ cs) # B)" "gap_at s b as cs new n" "m \<in> set (pieces (A @ (b, as @ cs) # B))"
  shows "unat m + 40 + psize s m \<le> unat new \<or> unat new + 40 + n \<le> unat m"
proof (cases "m \<in> set (as @ cs)")
  case True
  then show ?thesis using gap_at_facts(4) [OF heap_inv_split(1) [OF assms(1)] assms(2)] by blast
next
  case False
  then obtain c ks where c: "(c, ks) \<in> set (A @ B)" "m \<in> set ks" using assms(3) by (blast dest: piece_elsewhere)
  show ?thesis
    using block_inv_bounds [OF heap_inv_split(2) [OF assms(1) c(1)] c(2)] heap_inv_split(3) [OF assms(1) c(1)]
      gap_at_facts(1,2) [OF heap_inv_split(1) [OF assms(1)] assms(2)]
    by (auto simp: blocks_apart_def)
qed

lemma piece_bounds:
  assumes "heap_inv s H" "m \<in> set (pieces H)"
  shows "32 \<le> psize s m" "unat m + 72 \<le> 2 ^ 64" "m \<noteq> 0"
  using heap_inv_piece [OF assms] block_inv_bounds by (fastforce simp: unat_eq_0 [symmetric])+

lemma place_sum:
  assumes "heap_inv s (A @ (b, as @ cs) # B)" "gap_at s b as cs new (unat sz)" "unat req_size + 32 \<le> unat sz"
  defines "s' \<equiv> place b (last (0 # as)) (hd (cs @ [0])) new sz req_size s"
  shows "(\<Sum>m\<leftarrow>pieces (A @ (b, as @ new # cs) # B). ucast (min_size (minors s' m)) :: u64)
       = (\<Sum>m\<leftarrow>pieces (A @ (b, as @ cs) # B). ucast (min_size (minors s m))) + sz"
proof -
  note blk = heap_inv_split(1) [OF assms(1)]
  note view = place_view [OF blk assms(2,3), folded s'_def]
  have old: "min_size (minors s' m) = min_size (minors s m)" if "m \<in> set (pieces (A @ (b, as @ cs) # B))" for m
  proof (cases "m \<in> set (as @ cs)")
    case False
    have "m \<noteq> new" using gap_away [OF assms(1,2) that] by auto
    then show ?thesis using view(5) False by simp
  qed (use view(2) in blast)
  have "unat sz < 2 ^ 32" using gap_at_facts(3) [OF blk assms(2)] block_size_lt [of s b] by linarith
  then have new: "ucast (min_size (minors s' new)) = sz" by (simp add: view(1) ucast_ucast32)
  define X Y where "X = pieces A @ as" and "Y = cs @ pieces B"
  have p: "pieces (A @ (b, as @ ks @ cs) # B) = X @ ks @ Y" for ks by (simp add: pieces_def X_def Y_def)
  have "map (\<lambda>m. ucast (min_size (minors s' m)) :: u64) ms = map (\<lambda>m. ucast (min_size (minors s m))) ms"
    if "set ms \<subseteq> set (X @ Y)" for ms using old p [of "[]"] that by auto
  from this [of X] this [of Y] show ?thesis
    using p [of "[]"] p [of "[new]"] new by (simp del: map_eq_conv)
qed

lemma place_heap_inv:
  assumes "heap_inv s (A @ (b, as @ cs) # B)" "gap_at s b as cs new (unat sz)" "unat req_size + 32 \<le> unat sz"
  shows "heap_inv (place b (last (0 # as)) (hd (cs @ [0])) new sz req_size s) (A @ (b, as @ new # cs) # B)"
    (is "heap_inv ?s' ?H'")
proof -
  note blk = heap_inv_split(1) [OF assms(1)]
  have "block_inv ?s' c ks" if c: "(c, ks) \<in> set (A @ B)" for c ks
  proof (rule block_inv_cong [OF heap_inv_split(2) [OF assms(1) c]])
    fix m assume m: "m \<in> set ks"
    then have p: "m \<in> set (pieces (A @ (b, as @ cs) # B))" using c by (force simp: pieces_def)
    have away: "unat m + 72 \<le> unat new \<or> unat new + 72 \<le> unat m"
      using gap_away [OF assms(1,2) p] piece_bounds(1) [OF assms(1) p] assms(3) by linarith
    have "m \<noteq> new" "m \<notin> set (as @ cs)" using away heap_pieces_distinct [OF assms(1) c m] by auto
    then show "minors ?s' m = minors s m" by (rule place_view(5) [OF blk assms(2,3)])
    have "tag_addr m \<noteq> tag_addr new"
      by (rule tags_differ) (use away piece_bounds(2) [OF assms(1) p] gap_at_facts(2) [OF blk assms(2)]
        block_invD(2) [OF blk] assms(3) in linarith)+
    then show "bytes ?s' (tag_addr m) = bytes s (tag_addr m)" by simp
  qed (use heap_inv_split(4) [OF assms(1) c] in \<open>simp_all add: place_majors\<close>)
  then have "\<forall>(c, ks)\<in>set ?H'. block_inv ?s' c ks"
    using place_block_inv [OF blk assms(2,3)] by auto
  moreover have "blocks_apart ?s' = blocks_apart s" by (simp add: blocks_apart_def fun_eq_iff block_size_def)
  ultimately show ?thesis
    using assms(1) place_sum [OF assms] by (auto simp: heap_inv_def)
qed

end
