(* ===== verification/Heap_Alloc.thy ===== *)
theory Heap_Alloc
  imports Heap
begin

text \<open>
  Correctness of \<open>kmalloc\<close>: the search of a block for a gap, the walk over the blocks, and new blocks
  from the page allocator, whose contract is the locale \<open>page_source\<close>.
\<close>

section \<open>Searching a block\<close>

lemma unat_room:
  fixes x y z :: u64
  assumes "unat y + 40 + unat z \<le> unat x"
  shows "unat (x - y - 40 - z) = unat x - (unat y + 40 + unat z)"
proof -
  have "unat (x - y) = unat x - unat y" using assms by (intro unat_sub) (simp add: word_le_nat_alt)
  moreover have "unat (x - y - 40) = unat (x - y) - 40"
    using assms calculation by (intro unat_sub [THEN trans]) (simp_all add: word_le_nat_alt)
  moreover have "unat (x - y - 40 - z) = unat (x - y - 40) - unat z"
    using assms calculation by (intro unat_sub) (simp add: word_le_nat_alt)
  ultimately show ?thesis by simp
qed

lemma block_end_unat:
  assumes "block_inv s b ms"
  shows "unat (b + ucast (maj_size (majors s b))) = unat b + block_size s b"
  using block_invD(2) [OF assms] by (simp add: block_size_def unat64_add unat_ucast64)

lemma minor_end_unat:
  assumes "block_inv s b ms" "m \<in> set ms"
  shows "unat (minor_end m s) = unat m + 40 + psize s m"
proof -
  have lt: "unat m + 40 + psize s m < 2 ^ 64" using block_inv_bounds(2) [OF assms] block_invD(2) [OF assms(1)] by linarith
  then have "unat (m + 40) = unat m + 40" by (subst unat64_add) (simp_all add: psize_def)
  then show ?thesis using lt
    unfolding minor_end_def sizeof_minor_def by (subst unat64_add) (simp_all add: psize_def unat_ucast64)
qed

lemma rooms_unat:
  assumes "block_inv s b (as @ m # cs)"
  shows "unat (case41_room b m s) = unat b + block_size s b - (unat m + 40 + psize s m)"
    "cs \<noteq> [] \<Longrightarrow> unat (case42_room m s) = unat (hd cs) - (unat m + 40 + psize s m)"
    "as = [] \<Longrightarrow> unat (case3_room b s) = unat m - (unat b + 40)"
proof -
  have m: "m \<in> set (as @ m # cs)" by simp
  have e: "unat b + block_size s b = unat (b + ucast (maj_size (majors s b)))"
    by (rule block_end_unat [OF assms, symmetric])
  show "unat (case41_room b m s) = unat b + block_size s b - (unat m + 40 + psize s m)"
    using block_inv_bounds(2) [OF assms m] unfolding e case41_room_def sizeof_minor_def
    by (subst unat_room) (simp_all add: psize_def unat_ucast64)
  have links: "dll (\<lambda>m. min_next (minors s m)) (\<lambda>m. min_prev (minors s m)) 0 (maj_first (majors s b)) (as @ m # cs)"
    using block_invD(4) [OF assms] by (simp add: links_ok_def)
  have nx: "min_next (minors s m) = hd (cs @ [0])" using dll_at(1) [OF links] .
  have "fits (psize s) (unat m + 40 + psize s m) (unat b + block_size s b) cs"
    using block_invD(5) [OF assms] by (simp add: fits_append)
  then show "cs \<noteq> [] \<Longrightarrow> unat (case42_room m s) = unat (hd cs) - (unat m + 40 + psize s m)"
    unfolding case42_room_def sizeof_minor_def nx
    by (subst unat_room) (cases cs; simp add: psize_def unat_ucast64)+
  show "as = [] \<Longrightarrow> unat (case3_room b s) = unat m - (unat b + 40)"
    using block_inv_bounds(1) [OF assms m] dll_at(4) [OF links] unat_room [of b 0 m]
    by (simp add: case3_room_def sizeof_major_def)
qed

text \<open>The search finds a gap behind some minor from \<open>m\<close> on, or there is none.\<close>

definition placed_in :: "u64 \<Rightarrow> u64 list \<Rightarrow> u64 \<Rightarrow> u64 \<Rightarrow> 'a liballoc_scheme \<Rightarrow> u64 \<Rightarrow> 'a liballoc_scheme \<Rightarrow> bool" where
  "placed_in b ms sz req_size s p s' \<longleftrightarrow> (\<exists>as cs new. ms = as @ cs \<and> gap_at s b as cs new (unat sz)
     \<and> p = user_ptr new \<and> s' = place b (last (0 # as)) (hd (cs @ [0])) new sz req_size s)"

text \<open>The test behind a minor is exact.\<close>

lemma word_room: "unat sz + 40 < 2 ^ 64 \<Longrightarrow> sz + sizeof_minor \<le> r \<longleftrightarrow> unat sz + 40 \<le> unat r" for sz r :: u64
  by (simp add: word_le_nat_alt sizeof_minor_def unat64_add)

lemma gap_after:
  assumes "block_inv s b (as @ m # cs)" "unat sz + 40 < 2 ^ 64"
  defines "fit \<equiv> (if cs = [] then case41_room b m s \<ge> sz + sizeof_minor else case42_room m s \<ge> sz + sizeof_minor)"
  shows "fit \<Longrightarrow> gap_at s b (as @ [m]) cs (minor_end m s) (unat sz)"
    "\<not> fit \<Longrightarrow> \<not> gap_at s b (as @ [m]) cs new (unat sz)"
proof -
  have m: "m \<in> set (as @ m # cs)" by simp
  note b = block_inv_bounds(2) [OF assms(1) m]
  have gap: "gap_at s b (as @ [m]) cs new (unat sz) \<longleftrightarrow> unat m + 40 + psize s m \<le> unat new
      \<and> unat new + 40 + unat sz \<le> before (unat b + block_size s b) cs" for new
    by (simp add: gap_at_def after_def)
  have fit: "fit \<longleftrightarrow> unat m + 40 + psize s m + unat sz + 40 \<le> before (unat b + block_size s b) cs"
    using b rooms_unat(1,2) [OF assms(1)] by (auto simp: fit_def word_room [OF assms(2)] before_def)
  show "fit \<Longrightarrow> gap_at s b (as @ [m]) cs (minor_end m s) (unat sz)"
    by (simp add: gap fit minor_end_unat [OF assms(1) m])
  show "\<not> fit \<Longrightarrow> \<not> gap_at s b (as @ [m]) cs new (unat sz)" by (auto simp: gap fit)
qed

lemma minor_step:
  assumes "block_inv s b (as @ m # cs)" "unat sz + 40 < 2 ^ 64"
  defines "fit \<equiv> (if cs = [] then case41_room b m s \<ge> sz + sizeof_minor else case42_room m s \<ge> sz + sizeof_minor)"
  shows "fit \<Longrightarrow> \<exists>p s'. minor_loop (Suc fuel) b m sz req_size s = Some (Some p, s') \<and> placed_in b (as @ m # cs) sz req_size s p s'"
    "\<not> fit \<Longrightarrow> minor_loop (Suc fuel) b m sz req_size s = minor_loop fuel b (hd (cs @ [0])) sz req_size s"
proof -
  have links: "dll (\<lambda>m. min_next (minors s m)) (\<lambda>m. min_prev (minors s m)) 0 (maj_first (majors s b)) (as @ m # cs)"
    using block_invD(4) [OF assms(1)] by (simp add: links_ok_def)
  note at = dll_at [OF links]
  have nz: "0 \<notin> set cs" using dll_nonzero [OF links] by simp
  then have z: "hd (cs @ [0]) = 0 \<longleftrightarrow> cs = []" by (cases cs) auto
  show "\<not> fit \<Longrightarrow> minor_loop (Suc fuel) b m sz req_size s = minor_loop fuel b (hd (cs @ [0])) sz req_size s"
    using at(1,3) z by (auto simp: fit_def split: if_splits)
  have mend: "unat (minor_end m s) = unat m + 40 + psize s m" by (rule minor_end_unat [OF assms(1)]) simp
  then have ne: "minor_end m s \<noteq> m" by auto
  assume fit: fit
  note gap = gap_after(1) [OF assms(1,2), folded fit_def, OF fit]
  have notin: "minor_end m s \<notin> set cs" "m \<notin> set cs"
    using gap_at_facts(5) [of s b "as @ [m]" cs, OF _ gap] assms(1) fits_distinct [OF block_invD(5) [OF assms(1)]] by auto
  have "minor_loop (Suc fuel) b m sz req_size s =
      Some (Some (user_ptr (minor_end m s)), place b m (hd (cs @ [0])) (minor_end m s) sz req_size s)"
  proof (cases cs)
    case Nil
    then show ?thesis using fit at(1,3) case41_place [OF at(3) ne] by (simp add: fit_def)
  next
    case (Cons c cs')
    then have "c \<noteq> minor_end m s" "c \<noteq> m" "c \<noteq> 0" using notin nz by auto
    then show ?thesis using fit at(1,3) case42_place [OF at(3) ne] Cons by (simp add: fit_def)
  qed
  moreover have "placed_in b (as @ m # cs) sz req_size s (user_ptr (minor_end m s)) (place b m (hd (cs @ [0])) (minor_end m s) sz req_size s)"
    unfolding placed_in_def using gap by (intro exI [of _ "as @ [m]"] exI [of _ cs] exI [of _ "minor_end m s"]) simp
  ultimately show "\<exists>p s'. minor_loop (Suc fuel) b m sz req_size s = Some (Some p, s') \<and> placed_in b (as @ m # cs) sz req_size s p s'"
    by blast
qed

lemma minor_loop_correct:
  assumes "block_inv s b (as @ m # cs)" "unat sz + 40 < 2 ^ 64" "length cs + 2 \<le> fuel"
  shows "(\<exists>p s'. minor_loop fuel b m sz req_size s = Some (Some p, s') \<and> placed_in b (as @ m # cs) sz req_size s p s')
    \<or> (minor_loop fuel b m sz req_size s = Some (None, s)
       \<and> (\<forall>ks ds new. as @ m # cs = ks @ ds \<and> length as < length ks \<longrightarrow> \<not> gap_at s b ks ds new (unat sz)))"
  using assms
proof (induction cs arbitrary: as m fuel)
  case Nil
  obtain k where fuel: "fuel = Suc (Suc k)" using Nil.prems(3) by (cases fuel; cases "fuel - 1") auto
  have split: "as @ [m] = ks @ ds \<and> length as < length ks \<Longrightarrow> ks = as @ [m] \<and> ds = []" for ks ds
    by (cases ds rule: rev_cases) auto
  show ?case
  proof (cases "case41_room b m s \<ge> sz + sizeof_minor")
    case True
    then show ?thesis using minor_step(1) [OF Nil.prems(1,2), of "Suc k"] fuel by fastforce
  next
    case False
    then show ?thesis using minor_step(2) [OF Nil.prems(1,2), of "Suc k"] gap_after(2) [OF Nil.prems(1,2)] fuel
      by (auto dest!: split)
  qed
next
  case (Cons c cs)
  obtain k where fuel: "fuel = Suc k" "length cs + 2 \<le> k" using Cons.prems(3) by (cases fuel) auto
  show ?case
  proof (cases "case42_room m s \<ge> sz + sizeof_minor")
    case True
    then show ?thesis using minor_step(1) [OF Cons.prems(1,2), of k] fuel by auto
  next
    case False
    have step: "minor_loop fuel b m sz req_size s = minor_loop k b c sz req_size s"
      using minor_step(2) [OF Cons.prems(1,2), of k] False fuel by simp
    have no: "\<not> gap_at s b (as @ [m]) (c # cs) new (unat sz)" for new
      using gap_after(2) [OF Cons.prems(1,2)] False by simp
    have split: "ks = as @ [m] \<and> ds = c # cs \<or> length (as @ [m]) < length ks"
      if "as @ m # c # cs = ks @ ds" "length as < length ks" for ks ds
    proof (cases "length ks = Suc (length as)")
      case True
      then show ?thesis using that(1) [symmetric] by (simp add: append_eq_conv_conj)
    qed (use that in simp)
    have "block_inv s b ((as @ [m]) @ c # cs)" using Cons.prems(1) by simp
    from Cons.IH [OF this Cons.prems(2) fuel(2)] show ?thesis
      unfolding step using no split by simp metis
  qed
qed

text \<open>The first gap, in front of all minors.\<close>

lemma front_gap:
  assumes "block_inv s b ms" "unat sz + 40 < 2 ^ 64"
  shows "gap_at s b [] ms (b + sizeof_major) (unat sz) \<longleftrightarrow> unat b + 40 + 40 + unat sz \<le> before (unat b + block_size s b) ms"
    "gap_at s b [] ms new (unat sz) \<Longrightarrow> unat b + 40 + 40 + unat sz \<le> before (unat b + block_size s b) ms"
proof -
  have "unat (b + sizeof_major) = unat b + 40"
    using block_inv_positive [OF assms(1)] block_invD(2) [OF assms(1)] by (simp add: sizeof_major_def unat64_add)
  then show "gap_at s b [] ms (b + sizeof_major) (unat sz) \<longleftrightarrow> unat b + 40 + 40 + unat sz \<le> before (unat b + block_size s b) ms"
    by (simp add: gap_at_def after_def)
  show "gap_at s b [] ms new (unat sz) \<Longrightarrow> unat b + 40 + 40 + unat sz \<le> before (unat b + block_size s b) ms"
    by (simp add: gap_at_def after_def)
qed

definition no_gap :: "'a liballoc_scheme \<Rightarrow> u64 \<Rightarrow> u64 list \<Rightarrow> nat \<Rightarrow> bool" where
  "no_gap s b ms n \<longleftrightarrow> (\<forall>as cs new. ms = as @ cs \<longrightarrow> \<not> gap_at s b as cs new n)"

definition full :: "'a liballoc_scheme \<Rightarrow> heap_view \<Rightarrow> nat \<Rightarrow> bool" where
  "full s H n \<longleftrightarrow> (\<forall>(b, ms)\<in>set H. no_gap s b ms n)"

lemma try_block_correct:
  assumes "block_inv s b ms" "unat sz + 40 < 2 ^ 64" "unat (maj_usage (majors s b)) + 40 + unat sz \<le> block_size s b"
    "length ms + 2 \<le> fuel"
  shows "(\<exists>p s'. try_block fuel b sz req_size s = Some (Some p, s') \<and> placed_in b ms sz req_size s p s')
    \<or> (try_block fuel b sz req_size s = Some (None, s) \<and> no_gap s b ms (unat sz))"
proof (cases ms)
  case Nil
  have "maj_first (majors s b) = 0" using block_invD(4) [OF assms(1)] Nil by (simp add: links_ok_def)
  moreover have "gap_at s b [] [] (b + sizeof_major) (unat sz)"
    using assms(1,3) front_gap(1) [OF assms(1,2)] block_invD(7) [OF assms(1)] Nil by (simp add: before_def)
  ultimately show ?thesis unfolding placed_in_def Nil by (simp add: try_block_def case2_place) blast
next
  case (Cons m cs)
  have first: "maj_first (majors s b) = m" "m \<noteq> 0" using block_invD(4) [OF assms(1)] Cons by (auto simp: links_ok_def)
  have inv: "block_inv s b ([] @ m # cs)" using assms(1) Cons by simp
  note room = rooms_unat(3) [OF inv refl]
  have bm: "unat b + 40 \<le> unat m" using block_inv_bounds(1) [OF inv] by simp
  show ?thesis
  proof (cases "case3_room b s \<ge> sz + sizeof_minor")
    case True
    then have le: "unat b + 40 + 40 + unat sz \<le> unat m" using room bm by (simp add: word_room [OF assms(2)])
    then have gap: "gap_at s b [] ms (b + sizeof_major) (unat sz)"
      using front_gap(1) [OF assms(1,2)] Cons by (simp add: before_def)
    have "m \<noteq> b + sizeof_major" using gap_at_facts(5) [of s b "[]" ms, OF _ gap] assms(1) Cons by auto
    then have "case3 b sz req_size s = (user_ptr (b + sizeof_major), place b 0 m (b + sizeof_major) sz req_size s)"
      using case3_place [of s b] first by simp
    then have "try_block fuel b sz req_size s = Some (Some (user_ptr (b + sizeof_major)), place b 0 m (b + sizeof_major) sz req_size s)"
      using True first by (simp add: try_block_def)
    then show ?thesis using gap Cons unfolding placed_in_def by (metis append_Nil hd_append list.sel(1) list.discI last_ConsL)
  next
    case False
    then have "\<not> unat b + 40 + 40 + unat sz \<le> unat m" using room bm by (simp add: word_room [OF assms(2)])
    then have no: "\<not> gap_at s b [] ms new (unat sz)" for new
      using front_gap(2) [OF assms(1,2), of new] Cons by (auto simp: before_def)
    have "try_block fuel b sz req_size s = minor_loop fuel b m sz req_size s" using False first by (simp add: try_block_def)
    moreover have "length cs + 2 \<le> fuel" using assms(4) Cons by simp
    ultimately show ?thesis using minor_loop_correct [OF inv assms(2), of fuel req_size] no Cons
      by (auto simp: no_gap_def) (metis append_Nil length_greater_0_conv)
  qed
qed

section \<open>New blocks\<close>

text \<open>Requests up to \<open>2\<^sup>3\<^sup>2 - 4096 - 80\<close> bytes get a block of whole pages with room for both headers.\<close>

lemma new_page_count_bounds:
  assumes "unat n + 80 + 4096 \<le> 2 ^ 32"
  shows "16 \<le> unat (new_page_count n)" "unat n + 80 \<le> 4096 * unat (new_page_count n)"
    "4096 * unat (new_page_count n) < 2 ^ 32"
proof -
  define t where "t = n + 40 + 40"
  have t: "unat t = unat n + 80" using assms by (simp add: t_def unat_word_ariths)
  define r where "r = (if t mod 4096 = 0 then t div 4096 else t div 4096 + 1)"
  have dv: "unat (t div 4096) = unat t div 4096" "unat (t mod 4096) = unat t mod 4096"
    by (simp_all add: unat_div_distrib unat_mod_distrib)
  have "unat (t div 4096 + 1) = unat t div 4096 + 1"
    using assms t dv(1) by (simp add: unat_word_ariths)
  then have r: "unat r = (if unat t mod 4096 = 0 then unat t div 4096 else unat t div 4096 + 1)"
    using dv by (auto simp: r_def unat_eq_0 [symmetric])
  have np: "new_page_count n = (if r < 16 then 16 else r)"
    by (simp add: new_page_count_def sizeof_major_def sizeof_minor_def l_pageSize_def l_pageCount_def t_def r_def Let_def)
  have "unat t \<le> 4096 * unat r \<and> 4096 * unat r < unat t + 4096"
    unfolding r by (cases "unat t mod 4096 = 0") (auto simp: mult_div_mod_eq [symmetric] minus_mod_eq_mult_div [symmetric])
  then show "16 \<le> unat (new_page_count n)" "unat n + 80 \<le> 4096 * unat (new_page_count n)"
    "4096 * unat (new_page_count n) < 2 ^ 32"
    using t assms by (auto simp: np word_less_nat_alt)
qed

text \<open>A fresh block joins the heap at the end, with nothing in it.\<close>

definition add_block :: "u64 \<Rightarrow> u32 \<Rightarrow> u64 \<Rightarrow> 'a liballoc_scheme \<Rightarrow> 'a liballoc_scheme" where
  "add_block a n left s =
     (let s = upd_major a (\<lambda>_. \<lparr>maj_prev = left, maj_next = 0, maj_pages = n, maj_size = n * l_pageSize,
                maj_usage = ucast sizeof_major, maj_first = 0\<rparr>) s;
          s = (if left \<noteq> 0 then upd_major left (\<lambda>b. b\<lparr>maj_next := a\<rparr>) s else s\<lparr>l_memRoot := a\<rparr>)
      in s\<lparr>l_allocated := l_allocated s + ucast (n * l_pageSize)\<rparr>)"

lemma add_block_majors:
  "left \<noteq> a \<Longrightarrow> majors (add_block a n left s) c =
     (if c = a then \<lparr>maj_prev = left, maj_next = 0, maj_pages = n, maj_size = n * l_pageSize,
                maj_usage = ucast sizeof_major, maj_first = 0\<rparr>
      else if c = left \<and> left \<noteq> 0 then (majors s c)\<lparr>maj_next := a\<rparr> else majors s c)"
  by (simp add: add_block_def upd_major_def Let_def)

lemma add_block_rest [simp]:
  "minors (add_block a n left s) = minors s" "bytes (add_block a n left s) = bytes s"
  "l_memRoot (add_block a n left s) = (if left = 0 then a else l_memRoot s)"
  "l_bestBet (add_block a n left s) = l_bestBet s" "l_inuse (add_block a n left s) = l_inuse s"
  "l_allocated (add_block a n left s) = l_allocated s + ucast (n * l_pageSize)"
  "liballoc.more (add_block a n left s) = liballoc.more s"
  by (simp_all add: add_block_def upd_major_def Let_def)

lemma unat_page_bytes: "4096 * unat n < 2 ^ 32 \<Longrightarrow> unat (n * l_pageSize) = 4096 * unat n"
  by (simp add: l_pageSize_def unat_word_ariths)

lemma sorted_wrt_snoc: "sorted_wrt P (xs @ [x]) \<longleftrightarrow> sorted_wrt P xs \<and> (\<forall>y\<in>set xs. P y x)"
  by (auto simp: sorted_wrt_append)

lemma sorted_wrt_distinct: "sorted_wrt P xs \<Longrightarrow> (\<And>x. x \<in> set xs \<Longrightarrow> \<not> P x x) \<Longrightarrow> distinct xs"
  by (induction xs) auto

lemma heap_inv_distinct:
  assumes "heap_inv s H"
  shows "distinct (map fst H)"
proof -
  have "sorted_wrt (blocks_apart s) (map fst H)" using assms by (simp add: heap_inv_def)
  moreover have "\<not> blocks_apart s b b" if "b \<in> set (map fst H)" for b
  proof -
    obtain ms where "(b, ms) \<in> set H" using \<open>b \<in> set (map fst H)\<close> by auto
    from block_inv_positive [OF heap_inv_block [OF assms this]] show ?thesis by (simp add: blocks_apart_def)
  qed
  ultimately show ?thesis by (rule sorted_wrt_distinct)
qed

lemma add_block_chain:
  assumes dll: "dll (\<lambda>b. maj_next (majors s b)) (\<lambda>b. maj_prev (majors s b)) 0 p bs"
    and "distinct bs" "a \<noteq> 0" "a \<notin> set bs" and left: "left = last (0 # bs)"
  shows "dll (\<lambda>b. maj_next (majors (add_block a n left s) b)) (\<lambda>b. maj_prev (majors (add_block a n left s) b)) 0
    (if bs = [] then a else p) (bs @ [a])"
proof -
  have "left \<in> set (0 # bs)" unfolding left by (rule last_in_set) simp
  then have ne: "left \<noteq> a" using assms by auto
  note maj = add_block_majors [OF ne, of n s]
  have l: "bs \<noteq> [] \<Longrightarrow> left = last bs" using left by simp
  have nz: "left = 0 \<longleftrightarrow> bs = []" using dll_nonzero [OF dll] last_in_set [of bs] left by (metis last.simps)
  show ?thesis
  proof (rule dll_insert [of "\<lambda>b. maj_next (majors s b)" "\<lambda>b. maj_prev (majors s b)" 0 p bs "[]"])
    show "maj_next (majors (add_block a n left s) a) = hd ([] @ [0])" by (simp add: maj)
    show "maj_prev (majors (add_block a n left s) a) = last (0 # bs)" by (simp add: maj left [symmetric] del: last.simps)
    show "maj_next (majors (add_block a n left s) (last bs)) = a" if "bs \<noteq> []"
    proof -
      have "left \<noteq> 0" "last bs = left" using l nz that by auto
      then show ?thesis using ne by (simp only: maj if_False if_True simp_thms) simp
    qed
    show "maj_next (majors (add_block a n left s) b) = maj_next (majors s b)"
      if "b \<in> set (bs @ [])" "bs = [] \<or> b \<noteq> last bs" for b
    proof -
      have "b \<noteq> left" "b \<noteq> a" using that assms(4) l by (cases "bs = []"; force)+
      then show ?thesis by (simp add: maj)
    qed
    show "maj_prev (majors (add_block a n left s) b) = maj_prev (majors s b)" if "b \<in> set (bs @ [])" for b
      using that assms(4) by (auto simp: maj)
  qed (use assms in auto)
qed

lemma add_block_heap_inv:
  assumes "heap_inv s H" "a \<noteq> 0" "0 < unat n" "4096 * unat n < 2 ^ 32" "unat a + 4096 * unat n < 2 ^ 64"
    and away: "\<And>b ms. (b, ms) \<in> set H \<Longrightarrow> unat b + block_size s b \<le> unat a \<or> unat a + 4096 * unat n \<le> unat b"
    and left: "left = last (0 # map fst H)"
  shows "heap_inv (add_block a n left s) (H @ [(a, [])])" (is "heap_inv ?s' _")
proof -
  have dll: "dll (\<lambda>b. maj_next (majors s b)) (\<lambda>b. maj_prev (majors s b)) 0 (l_memRoot s) (map fst H @ [])"
    using assms(1) by (simp add: heap_inv_def)
  have notin: "a \<notin> set (map fst H @ [])"
  proof
    assume "a \<in> set (map fst H @ [])"
    then obtain ms where "(a, ms) \<in> set H" by auto
    from away [OF this] block_inv_positive [OF heap_inv_block [OF assms(1) this]] assms(3) show False by linarith
  qed
  have "left \<in> set (0 # map fst H)" unfolding left by (rule last_in_set) simp
  then have ne: "left \<noteq> a" using notin assms(2) by auto
  note maj = add_block_majors [OF ne, of n s]
  have root: "l_memRoot ?s' = (if map fst H = [] then a else l_memRoot s)"
    using dll_nonzero [OF dll] last_in_set [of "map fst H"] left by (cases "H = []"; force)
  have "dll (\<lambda>b. maj_next (majors ?s' b)) (\<lambda>b. maj_prev (majors ?s' b)) 0 (l_memRoot ?s') (map fst H @ [a])"
    unfolding root by (rule add_block_chain) (use dll notin assms(2) heap_inv_distinct [OF assms(1)] left in auto)
  moreover have "block_inv ?s' a []"
    using assms(2-5) unat_page_bytes [OF assms(4)]
    by (simp add: block_inv_def block_size_def maj links_ok_def sizeof_major_def)
  moreover have "block_inv ?s' b ms" if "(b, ms) \<in> set H" for b ms
  proof -
    have "b \<noteq> a" using notin that by force
    then show ?thesis by (intro block_inv_cong [OF heap_inv_block [OF assms(1) that]]) (simp_all add: maj)
  qed
  moreover have "sorted_wrt (blocks_apart ?s') (map fst H @ [a])"
  proof -
    have sz: "block_size ?s' b = block_size s b" if "b \<in> set (map fst H)" for b
      using notin that by (auto simp: block_size_def maj)
    have "block_size ?s' a = 4096 * unat n" using unat_page_bytes [OF assms(4)] by (simp add: block_size_def maj)
    then have "\<forall>b\<in>set (map fst H). blocks_apart ?s' b a"
      using away sz by (fastforce simp: blocks_apart_def)
    moreover have "sorted_wrt (blocks_apart ?s') (map fst H)"
      using assms(1) sz by (auto simp: heap_inv_def blocks_apart_def intro: sorted_wrt_mono_rel [of "map fst H" "blocks_apart s"])
    ultimately show ?thesis by (simp add: sorted_wrt_snoc)
  qed
  moreover have "(\<Sum>b\<leftarrow>map fst H. ucast (maj_size (majors ?s' b)) :: u64) = (\<Sum>b\<leftarrow>map fst H. ucast (maj_size (majors s b)))"
    using notin by (intro arg_cong [where f = sum_list] map_cong) (auto simp: maj)
  ultimately show ?thesis
    using assms(1) by (auto simp: heap_inv_def pieces_def maj)
qed

lemma allocate_new_page_add:
  assumes "alloc (new_page_count n) s = Some (a, t)" "a \<noteq> 0"
  shows "\<exists>u. allocate_new_page alloc n s = Some (a, u) \<and> u\<lparr>l_memRoot := a\<rparr> = add_block a (new_page_count n) 0 t"
  using assms by (simp add: allocate_new_page_def add_block_def upd_major_def Let_def)

lemma append_block_add:
  assumes "alloc (new_page_count (ucast sz)) s = Some (a, t)" "a \<noteq> 0" "maj \<noteq> 0" "maj \<noteq> a"
  shows "append_block alloc maj sz s = Some (a, add_block a (new_page_count (ucast sz)) maj t)"
  using assms by (simp add: append_block_def allocate_new_page_def add_block_def upd_major_def Let_def fun_upd_twist)

lemma append_block_full:
  assumes "alloc (new_page_count (ucast sz)) s = Some (0, t)" "maj_next (majors t maj) = 0"
  shows "append_block alloc maj sz s = Some (0, t\<lparr>l_warningCount := l_warningCount t + 1\<rparr>)"
proof -
  have "(majors t)(maj := (majors t maj)\<lparr>maj_next := 0\<rparr>) = majors t"
    using assms(2) by (cases "majors t maj") (simp add: fun_upd_idem)
  then show ?thesis using assms(1) by (simp add: append_block_def allocate_new_page_def upd_major_def)
qed

section \<open>The effect of an allocation\<close>

definition allocated :: "'a liballoc_scheme \<Rightarrow> heap_view \<Rightarrow> u64 \<Rightarrow> u64 \<Rightarrow> 'a liballoc_scheme \<Rightarrow> heap_view \<Rightarrow> bool" where
  "allocated s H req_size p s' H' \<longleftrightarrow> heap_inv s' H'
     \<and> (\<exists>new. p = user_ptr new \<and> new \<notin> set (pieces H) \<and> set (pieces H') = insert new (set (pieces H))
         \<and> psize s' new = unat req_size + 32 \<and> unat (min_req_size (minors s' new)) = unat req_size
         \<and> bytes s' = (bytes s)(tag_addr new := tag new)
         \<and> (\<forall>m\<in>set (pieces H). min_size (minors s' m) = min_size (minors s m)
              \<and> min_req_size (minors s' m) = min_req_size (minors s m)))"

definition heap_clear :: "'a liballoc_scheme \<Rightarrow> heap_view \<Rightarrow> nat set \<Rightarrow> bool" where
  "heap_clear s H X \<longleftrightarrow> (\<forall>(b, ms)\<in>set H. {unat b..<unat b + block_size s b} \<inter> X = {})"

lemma allocated_cong:
  "minors t = minors s \<Longrightarrow> bytes t = bytes s \<Longrightarrow> allocated t H req_size p s' H' \<longleftrightarrow> allocated s H req_size p s' H'"
  by (simp add: allocated_def)

lemma heap_inv_cong:
  assumes "majors t = majors s" "minors t = minors s" "bytes t = bytes s" "l_memRoot t = l_memRoot s"
    "l_inuse t = l_inuse s" "l_allocated t = l_allocated s" "l_bestBet t = 0 \<or> l_bestBet t \<in> fst ` set H" "heap_inv s H"
  shows "heap_inv t H"
proof -
  have "block_inv t b ms" if "(b, ms) \<in> set H" for b ms
    by (rule block_inv_cong [OF heap_inv_block [OF assms(8) that]]) (simp_all add: assms)
  moreover have "blocks_apart t = blocks_apart s" by (simp add: blocks_apart_def block_size_def fun_eq_iff assms)
  ultimately show ?thesis using assms by (auto simp: heap_inv_def)
qed

lemma placed_allocated:
  assumes inv: "heap_inv s (A @ (b, ms) # B)" and "placed_in b ms sz req_size s p s'" and sz: "unat sz = unat req_size + 32"
  shows "\<exists>ms'. allocated s (A @ (b, ms) # B) req_size p s' (A @ (b, ms') # B) \<and> liballoc.more s' = liballoc.more s
    \<and> (\<forall>c. block_size s' c = block_size s c)"
proof -
  obtain as cs new where pl: "ms = as @ cs" "gap_at s b as cs new (unat sz)" "p = user_ptr new"
      "s' = place b (last (0 # as)) (hd (cs @ [0])) new sz req_size s"
    using assms(2) by (auto simp: placed_in_def)
  have inv': "heap_inv s (A @ (b, as @ cs) # B)" using inv pl(1) by simp
  note blk = heap_inv_split(1) [OF inv']
  have le: "unat req_size + 32 \<le> unat sz" using sz by simp
  note view = place_view [OF blk pl(2) le, folded pl(4)]
  note sizes = place_sizes [OF blk pl(2) le, folded pl(4)]
  have new: "new \<notin> set (pieces (A @ (b, as @ cs) # B))" using gap_away [OF inv' pl(2)] by fastforce
  have same: "min_size (minors s' m) = min_size (minors s m) \<and> min_req_size (minors s' m) = min_req_size (minors s m)"
    if "m \<in> set (pieces (A @ (b, as @ cs) # B))" for m
    using view(2,5) [of m] new that by (cases "m = new"; cases "m \<in> set (as @ cs)") auto
  have "heap_inv s' (A @ (b, as @ new # cs) # B)" unfolding pl(4) by (rule place_heap_inv [OF inv' pl(2) le])
  moreover have "set (pieces (A @ (b, as @ new # cs) # B)) = insert new (set (pieces (A @ (b, as @ cs) # B)))"
    by (auto simp: pieces_def)
  moreover have "unat (min_req_size (minors s' new)) = unat req_size" using view(1) sizes(3) by simp
  moreover have "psize s' new = unat req_size + 32" using sizes(1) sz by simp
  moreover have "bytes s' = (bytes s)(tag_addr new := tag new)" by (simp add: pl(4))
  ultimately have "allocated s (A @ (b, as @ cs) # B) req_size p s' (A @ (b, as @ new # cs) # B)"
    unfolding allocated_def using new same pl(3) by blast
  moreover have "liballoc.more s' = liballoc.more s" "block_size s' c = block_size s c" for c
    by (simp_all add: pl(4) block_size_def)
  ultimately show ?thesis using pl(1) by blast
qed

lemma truncate_fields:
  assumes "liballoc.truncate t = liballoc.truncate s"
  shows "majors t = majors s" "minors t = minors s" "bytes t = bytes s" "l_memRoot t = l_memRoot s"
    "l_bestBet t = l_bestBet s" "l_inuse t = l_inuse s" "l_allocated t = l_allocated s" "l_warningCount t = l_warningCount s"
  using assms by (cases s; cases t; simp add: liballoc.truncate_def)+

lemma allocated_nonzero: "allocated s H req_size p s' H' \<Longrightarrow> p \<noteq> 0"
  using piece_bounds(2) user_ptr_unat(1) by (fastforce simp: allocated_def unat_eq_0 [symmetric])

lemma bet_simps [simp]:
  "psize (s\<lparr>l_bestBet := x\<rparr>) = psize s" "block_size (s\<lparr>l_bestBet := x\<rparr>) = block_size s"
  "block_room b (s\<lparr>l_bestBet := x\<rparr>) = block_room b s"
  by (simp_all add: psize_def block_size_def block_room_def fun_eq_iff)

lemma bet_gaps [simp]:
  "gap_at (s\<lparr>l_bestBet := x\<rparr>) = gap_at s" "no_gap (s\<lparr>l_bestBet := x\<rparr>) = no_gap s"
  by (simp_all add: gap_at_def no_gap_def fun_eq_iff)

lemma bet_full [simp]: "full (s\<lparr>l_bestBet := x\<rparr>) H n = full s H n"
  by (simp add: full_def)

lemma block_room_unat:
  assumes "block_inv s b ms"
  shows "unat (block_room b s) = block_size s b - unat (maj_usage (majors s b))"
    "unat (maj_usage (majors s b)) \<le> block_size s b"
proof -
  show le: "unat (maj_usage (majors s b)) \<le> block_size s b"
    using fits_sum [OF block_invD(5) [OF assms]] block_invD(7) [OF assms] by linarith
  then show "unat (block_room b s) = block_size s b - unat (maj_usage (majors s b))"
    by (simp add: block_room_def block_size_def unat_ucast64 unat_sub word_le_nat_alt)
qed

lemma intervals_apart: "{a..<a + k} \<inter> {b..<b + l} = {} \<Longrightarrow> 0 < k \<Longrightarrow> 0 < l \<Longrightarrow> a + k \<le> b \<or> b + l \<le> a" for a b k l :: nat
proof (rule ccontr)
  assume d: "{a..<a + k} \<inter> {b..<b + l} = {}" "0 < k" "0 < l" and "\<not> (a + k \<le> b \<or> b + l \<le> a)"
  then have "max a b \<in> {a..<a + k} \<inter> {b..<b + l}" by auto
  then show False using d by auto
qed

lemma add_block_clear:
  assumes "heap_inv s H" "heap_clear s H X" "a \<noteq> 0" "0 < unat n" "4096 * unat n < 2 ^ 32" "unat a + 4096 * unat n < 2 ^ 64"
    and R: "R = {unat a..<unat a + 4096 * unat n}" "R \<subseteq> X" and left: "left = last (0 # map fst H)"
  shows "heap_inv (add_block a n left s) (H @ [(a, [])])" "heap_clear (add_block a n left s) (H @ [(a, [])]) (X - R)"
    "block_size (add_block a n left s) a = 4096 * unat n" "unat (maj_usage (majors (add_block a n left s) a)) = 40"
    "left \<noteq> a"
proof -
  have clear: "{unat b..<unat b + block_size s b} \<inter> X = {}" if "(b, ms) \<in> set H" for b ms
    using assms(2) that by (auto simp: heap_clear_def)
  have away: "unat b + block_size s b \<le> unat a \<or> unat a + 4096 * unat n \<le> unat b" if "(b, ms) \<in> set H" for b ms
  proof (rule intervals_apart)
    show "{unat b..<unat b + block_size s b} \<inter> {unat a..<unat a + 4096 * unat n} = {}" using clear [OF that] R(2) unfolding R(1) by blast
  qed (use block_inv_positive [OF heap_inv_block [OF assms(1) that]] assms(4) in auto)
  show "heap_inv (add_block a n left s) (H @ [(a, [])])"
    by (rule add_block_heap_inv [OF assms(1,3-6) away left])
  have notin: "b \<noteq> a" if "(b, ms) \<in> set H" for b ms
    using away [OF that] block_inv_positive [OF heap_inv_block [OF assms(1) that]] assms(4) by auto
  have "left \<in> set (0 # map fst H)" unfolding left by (rule last_in_set) simp
  then have "left = 0 \<or> (\<exists>ms. (left, ms) \<in> set H)" by auto
  then show ne: "left \<noteq> a" using notin assms(3) by blast
  note maj = add_block_majors [OF ne, of n s]
  show size: "block_size (add_block a n left s) a = 4096 * unat n"
    using unat_page_bytes [OF assms(5)] by (simp add: block_size_def maj)
  show "unat (maj_usage (majors (add_block a n left s) a)) = 40" by (simp add: maj sizeof_major_def)
  have "block_size (add_block a n left s) b = block_size s b" if "(b, ms) \<in> set H" for b ms
    using notin [OF that] by (simp add: block_size_def maj)
  then show "heap_clear (add_block a n left s) (H @ [(a, [])]) (X - R)"
    using clear size R by (fastforce simp: heap_clear_def)
qed

text \<open>One round of the walk, with the part that searches the block named.\<close>

definition search_block ::
    "nat \<Rightarrow> 'a alloc_hook \<Rightarrow> u64 \<Rightarrow> bool \<Rightarrow> u64 \<Rightarrow> u64 \<Rightarrow> u64 \<Rightarrow> 'a liballoc_scheme \<Rightarrow> (u64 \<times> 'a liballoc_scheme) option" where
  "search_block fuel alloc maj startedBet bestSize sz req_size s = do {
     (r, s) \<leftarrow> try_block fuel maj sz req_size s;
     case r of
       Some p \<Rightarrow> Some (p, s)
     | None \<Rightarrow>
         if maj_next (majors s maj) = 0 then
           (if startedBet then major_loop fuel alloc (l_memRoot s) False bestSize sz req_size s
            else do {
              (new, s) \<leftarrow> append_block alloc maj sz s;
              if new = 0 then Some (0, s)
              else major_loop fuel alloc new startedBet bestSize sz req_size s })
         else major_loop fuel alloc (maj_next (majors s maj)) startedBet bestSize sz req_size s }"

lemma major_loop_Suc:
  assumes "maj \<noteq> 0" "s1 = (if bestSize < block_room maj s then s\<lparr>l_bestBet := maj\<rparr> else s)"
    "best = (if bestSize < block_room maj s then block_room maj s else bestSize)"
  shows "major_loop (Suc fuel) alloc maj startedBet bestSize sz req_size s =
     (if block_room maj s < sz + sizeof_minor then
        (if maj_next (majors s1 maj) \<noteq> 0
         then major_loop fuel alloc (maj_next (majors s1 maj)) startedBet best sz req_size s1
         else if startedBet then major_loop fuel alloc (l_memRoot s1) False best sz req_size s1
         else do {
           (new, t) \<leftarrow> append_block alloc maj sz s1;
           if new = 0 then Some (0, t) else search_block fuel alloc new startedBet best sz req_size t })
      else search_block fuel alloc maj startedBet best sz req_size s1)"
  using assms by (cases "bestSize < block_room maj s"; cases startedBet) (simp_all add: search_block_def Let_def cong: if_cong)

lemma room_test:
  assumes "block_inv s b ms" "unat sz + 40 < 2 ^ 64"
  shows "block_room b s < sz + sizeof_minor \<longleftrightarrow> \<not> unat (maj_usage (majors s b)) + 40 + unat sz \<le> block_size s b"
  using word_room [OF assms(2), of "block_room b s"] block_room_unat [OF assms(1)] by (auto simp: not_le [symmetric])

section \<open>The page source\<close>

text \<open>
  What \<open>kmalloc\<close> needs of \<open>liballoc_alloc\<close>: when the hook is \<open>ready\<close> to serve a request it returns, leaves the
  structures of the heap alone, and gives either the null pointer or whole pages of the address
  space that was available, which then no longer is.
\<close>

text \<open>
  The result of a request: no memory, or a new piece. If a block had a gap, then there is a new piece
  and the state beyond the heap did not change, so no page was asked for.
\<close>

definition outcome :: "('a liballoc_scheme \<Rightarrow> nat set) \<Rightarrow> 'a liballoc_scheme \<Rightarrow> heap_view \<Rightarrow> u64 \<Rightarrow> u64 \<Rightarrow> 'a liballoc_scheme \<Rightarrow> bool" where
  "outcome avail s H req_size p s' \<longleftrightarrow>
     (\<exists>H'. (p = 0 \<and> heap_inv s' H \<and> H' = H \<and> minors s' = minors s \<and> bytes s' = bytes s
            \<or> p \<noteq> 0 \<and> allocated s H req_size p s' H')
        \<and> heap_clear s' H' (avail s') \<and> avail s' \<subseteq> avail s)
     \<and> (\<not> full s H (unat req_size + 32) \<longrightarrow> p \<noteq> 0 \<and> liballoc.more s' = liballoc.more s)"

locale page_source =
  fixes alloc :: "'a alloc_hook"
    and ready :: "u32 \<Rightarrow> 'a liballoc_scheme \<Rightarrow> bool"
    and avail :: "'a liballoc_scheme \<Rightarrow> nat set"
  assumes ready_more: "liballoc.more s = liballoc.more t \<Longrightarrow> ready n s \<longleftrightarrow> ready n t"
    and avail_more: "liballoc.more s = liballoc.more t \<Longrightarrow> avail s = avail t"
    and alloc_ready: "ready n s \<Longrightarrow> 0 < unat n \<Longrightarrow>
      \<exists>a t. alloc n s = Some (a, t) \<and> liballoc.truncate t = liballoc.truncate s
        \<and> (if a = 0 then avail t = avail s
           else unat a + 4096 * unat n < 2 ^ 64 \<and> {unat a..<unat a + 4096 * unat n} \<subseteq> avail s
             \<and> avail t = avail s - {unat a..<unat a + 4096 * unat n})"
begin

lemma outcome_bet [simp]: "outcome avail (s\<lparr>l_bestBet := x\<rparr>) H req_size p s' \<longleftrightarrow> outcome avail s H req_size p s'"
  using avail_more [of "s\<lparr>l_bestBet := x\<rparr>" s] allocated_cong [of "s\<lparr>l_bestBet := x\<rparr>" s]
  by (simp add: outcome_def)

lemma placed_outcome:
  assumes "heap_inv s (A @ (b, ms) # B)" "placed_in b ms sz req_size s p s'" "unat sz = unat req_size + 32"
    "heap_clear s (A @ (b, ms) # B) (avail s)"
  shows "outcome avail s (A @ (b, ms) # B) req_size p s'"
proof -
  obtain ms' where al: "allocated s (A @ (b, ms) # B) req_size p s' (A @ (b, ms') # B)"
      "liballoc.more s' = liballoc.more s" "\<And>c. block_size s' c = block_size s c"
    using placed_allocated [OF assms(1-3)] by blast
  have "heap_clear s' (A @ (b, ms') # B) (avail s')"
    using assms(4) avail_more [OF al(2)] by (auto simp: heap_clear_def al(3))
  then show ?thesis
    using al avail_more [OF al(2)] allocated_nonzero [OF al(1)] by (auto simp: outcome_def)
qed

text \<open>A block from the page source, and the piece put into it.\<close>

lemma append_outcome:
  assumes inv: "heap_inv s H" "heap_clear s H (avail s)" and last: "H \<noteq> []" "maj = last (map fst H)"
    and full: "\<And>b ms. (b, ms) \<in> set H \<Longrightarrow> no_gap s b ms (unat sz)"
    and ready: "ready (new_page_count (ucast sz)) s"
    and sz: "unat sz = unat req_size + 32" "unat sz + 80 + 4096 \<le> 2 ^ 32"
  shows "\<exists>s1. append_block alloc maj sz s = Some (0, s1) \<and> outcome avail s H req_size 0 s1
    \<or> (\<exists>a. append_block alloc maj sz s = Some (a, s1) \<and> a \<noteq> 0 \<and> heap_inv s1 (H @ [(a, [])])
        \<and> heap_clear s1 (H @ [(a, [])]) (avail s1) \<and> avail s1 \<subseteq> avail s \<and> minors s1 = minors s \<and> bytes s1 = bytes s
        \<and> unat (maj_usage (majors s1 a)) + 40 + unat sz \<le> block_size s1 a)"
proof -
  define n where "n = new_page_count (ucast sz)"
  have "unat (ucast sz :: u32) = unat sz" using sz(2) by (intro unat_ucast32) linarith
  then have n: "16 \<le> unat n" "unat sz + 80 \<le> 4096 * unat n" "4096 * unat n < 2 ^ 32"
    using new_page_count_bounds [of "ucast sz"] sz(2) by (simp_all add: n_def)
  obtain a t where at: "alloc n s = Some (a, t)" "liballoc.truncate t = liballoc.truncate s"
      "if a = 0 then avail t = avail s else unat a + 4096 * unat n < 2 ^ 64
        \<and> {unat a..<unat a + 4096 * unat n} \<subseteq> avail s \<and> avail t = avail s - {unat a..<unat a + 4096 * unat n}"
    using alloc_ready [OF ready [folded n_def]] n(1) by auto
  note same = truncate_fields [OF at(2)]
  have t: "heap_inv t H" by (rule heap_inv_cong [OF _ _ _ _ _ _ _ inv(1)]) (use same inv(1) in \<open>auto simp: heap_inv_def\<close>)
  have lst: "map fst H = butlast (map fst H) @ [maj]" using last by simp
  have dll: "dll (\<lambda>b. maj_next (majors t b)) (\<lambda>b. maj_prev (majors t b)) 0 (l_memRoot t) (butlast (map fst H) @ [maj])"
    using t lst by (simp add: heap_inv_def)
  have maj: "maj \<noteq> 0" "maj_next (majors t maj) = 0" using dll_at(1,3) [OF dll] by simp_all
  show ?thesis
  proof (cases "a = 0")
    case True
    define s1 where "s1 = t\<lparr>l_warningCount := l_warningCount t + 1\<rparr>"
    have "append_block alloc maj sz s = Some (0, s1)"
      unfolding s1_def by (rule append_block_full) (use at(1) True maj in \<open>simp_all add: n_def\<close>)
    moreover have "heap_inv s1 H" by (rule heap_inv_cong [OF _ _ _ _ _ _ _ t]) (use t in \<open>auto simp: s1_def heap_inv_def\<close>)
    moreover have "avail s1 = avail s" using avail_more [of s1 t] at(3) True by (simp add: s1_def)
    moreover have "heap_clear s1 H (avail s)" using inv(2) same by (simp add: heap_clear_def block_size_def s1_def)
    ultimately have "outcome avail s H req_size 0 s1" using same full sz(1) by (auto simp: outcome_def full_def s1_def)
    then show ?thesis using \<open>append_block alloc maj sz s = Some (0, s1)\<close> by blast
  next
    case False
    define s1 where "s1 = add_block a n maj t"
    define R where "R = {unat a..<unat a + 4096 * unat n}"
    have left: "maj = last (0 # map fst H)" using last by simp
    have cl: "heap_clear t H (avail s)" using inv(2) same by (simp add: heap_clear_def block_size_def)
    note new = add_block_clear [OF t cl False _ n(3) _ R_def _ left]
    have lt: "unat a + 4096 * unat n < 2 ^ 64" "R \<subseteq> avail s" "avail t = avail s - R" and pos: "0 < unat n"
      using at(3) False n(1) by (auto simp: R_def)
    have "append_block alloc maj sz s = Some (a, s1)"
      unfolding s1_def n_def by (rule append_block_add) (use at(1) False maj new(5) [OF pos lt(1,2)] in \<open>simp_all add: n_def\<close>)
    moreover have "avail s1 = avail s - R" using avail_more [of s1 t] lt(3) by (simp add: s1_def)
    ultimately show ?thesis
      using new [OF pos lt(1,2), folded s1_def] False same n(2) by (intro exI [of _ s1] disjI2 exI [of _ a]) (simp add: s1_def)
  qed
qed

lemma fresh_outcome:
  assumes inv: "heap_inv s1 (H @ [(a, [])])" "heap_clear s1 (H @ [(a, [])]) (avail s1)" "avail s1 \<subseteq> avail s"
    and same: "minors s1 = minors s" "bytes s1 = bytes s"
    and full: "\<And>b ms. (b, ms) \<in> set H \<Longrightarrow> no_gap s b ms (unat sz)"
    and room: "unat (maj_usage (majors s1 a)) + 40 + unat sz \<le> block_size s1 a"
    and sz: "unat sz = unat req_size + 32" "unat sz + 80 + 4096 \<le> 2 ^ 32" and fuel: "2 \<le> fuel"
  shows "\<exists>p s'. try_block fuel a sz req_size s1 = Some (Some p, s') \<and> p \<noteq> 0 \<and> outcome avail s H req_size p s'
    \<and> liballoc.more s' = liballoc.more s1"
proof -
  note blk = heap_inv_split(1) [OF inv(1)]
  have "gap_at s1 a [] [] (a + sizeof_major) (unat sz)"
    using front_gap(1) [OF blk, of sz] room block_invD(7) [OF blk] sz(2) by (simp add: before_def)
  then have gap: "\<not> no_gap s1 a [] (unat sz)" by (auto simp: no_gap_def)
  have "\<exists>p s'. try_block fuel a sz req_size s1 = Some (Some p, s') \<and> placed_in a [] sz req_size s1 p s'"
    using try_block_correct [OF blk _ room, of fuel req_size] gap sz(2) fuel by auto
  then obtain p s' where p: "try_block fuel a sz req_size s1 = Some (Some p, s')" "placed_in a [] sz req_size s1 p s'"
    by blast
  have out: "outcome avail s1 (H @ [(a, [])]) req_size p s'" by (rule placed_outcome [OF inv(1) p(2) sz(1) inv(2)])
  have "pieces (H @ [(a, [])]) = pieces H" by (simp add: pieces_def)
  then have "allocated s1 (H @ [(a, [])]) req_size p s' K \<longleftrightarrow> allocated s H req_size p s' K" for K
    by (simp add: allocated_def same)
  moreover have "p \<noteq> 0" using gap sz(1) out by (auto simp: outcome_def full_def)
  moreover obtain K where "allocated s1 (H @ [(a, [])]) req_size p s' K" "heap_clear s' K (avail s')" "avail s' \<subseteq> avail s1"
    using out \<open>p \<noteq> 0\<close> by (auto simp: outcome_def)
  moreover have "full s H (unat req_size + 32)" using full sz(1) by (auto simp: full_def)
  ultimately have "outcome avail s H req_size p s'" using inv(3) by (simp add: outcome_def) (meson order_trans)
  moreover have "liballoc.more s' = liballoc.more s1" using gap sz(1) out by (auto simp: outcome_def full_def)
  ultimately show ?thesis using p(1) \<open>p \<noteq> 0\<close> by blast
qed

text \<open>Remembering a block as the best bet changes nothing that matters here.\<close>

lemma bet_inv:
  assumes "heap_inv s H" "heap_clear s H (avail s)" "x \<in> fst ` set H"
  shows "heap_inv (s\<lparr>l_bestBet := x\<rparr>) H" "heap_clear (s\<lparr>l_bestBet := x\<rparr>) H (avail (s\<lparr>l_bestBet := x\<rparr>))"
    "avail (s\<lparr>l_bestBet := x\<rparr>) = avail s" "ready n (s\<lparr>l_bestBet := x\<rparr>) = ready n s"
proof -
  show "heap_inv (s\<lparr>l_bestBet := x\<rparr>) H" by (rule heap_inv_cong [OF _ _ _ _ _ _ _ assms(1)]) (use assms(3) in simp_all)
  show av: "avail (s\<lparr>l_bestBet := x\<rparr>) = avail s" by (rule avail_more) simp
  show "ready n (s\<lparr>l_bestBet := x\<rparr>) = ready n s" by (rule ready_more) simp
  show "heap_clear (s\<lparr>l_bestBet := x\<rparr>) H (avail (s\<lparr>l_bestBet := x\<rparr>))" using assms(2) av by (simp add: heap_clear_def)
qed

lemma fresh_loop:
  assumes inv: "heap_inv s1 (H @ [(a, [])])" "heap_clear s1 (H @ [(a, [])]) (avail s1)" "avail s1 \<subseteq> avail s"
    and same: "minors s1 = minors s" "bytes s1 = bytes s"
    and full: "\<And>b ms. (b, ms) \<in> set H \<Longrightarrow> no_gap s b ms (unat sz)"
    and room: "unat (maj_usage (majors s1 a)) + 40 + unat sz \<le> block_size s1 a"
    and sz: "unat sz = unat req_size + 32" "unat sz + 80 + 4096 \<le> 2 ^ 32" and fuel: "3 \<le> fuel"
  shows "\<exists>p s'. major_loop fuel alloc a startedBet bestSize sz req_size s1 = Some (p, s') \<and> p \<noteq> 0
    \<and> outcome avail s H req_size p s' \<and> liballoc.more s' = liballoc.more s1"
proof -
  obtain k where k: "fuel = Suc k" "2 \<le> k" using fuel by (cases fuel) auto
  define s2 where "s2 = (if bestSize < block_room a s1 then s1\<lparr>l_bestBet := a\<rparr> else s1)"
  have "a \<in> fst ` set (H @ [(a, [])])" by simp
  note bet = bet_inv [OF inv(1,2) this]
  have s2: "heap_inv s2 (H @ [(a, [])])" "heap_clear s2 (H @ [(a, [])]) (avail s2)" "avail s2 \<subseteq> avail s"
      "minors s2 = minors s" "bytes s2 = bytes s" "unat (maj_usage (majors s2 a)) + 40 + unat sz \<le> block_size s2 a"
    using bet inv same room by (auto simp: s2_def)
  obtain p s' where p: "try_block k a sz req_size s2 = Some (Some p, s')" "p \<noteq> 0" "outcome avail s H req_size p s'"
      "liballoc.more s' = liballoc.more s2"
    using fresh_outcome [OF s2(1-5) full s2(6) sz k(2)] by blast
  note blk = heap_inv_split(1) [OF inv(1)]
  have "\<not> block_room a s1 < sz + sizeof_minor"
    using room block_room_unat [OF blk] sz(2) word_room [of sz "block_room a s1"] by (simp add: not_less)
  then have "major_loop fuel alloc a startedBet bestSize sz req_size s1 = Some (p, s')"
    using p(1) block_invD(1) [OF blk] by (simp add: k(1) s2_def Let_def split: if_splits)
  moreover have "liballoc.more s2 = liballoc.more s1" by (simp add: s2_def)
  ultimately show ?thesis using p(2-4) by auto
qed

lemma append_and_place:
  assumes inv: "heap_inv s H" "heap_clear s H (avail s)" and last: "H \<noteq> []" "maj = last (map fst H)"
    and full: "\<And>b ms. (b, ms) \<in> set H \<Longrightarrow> no_gap s b ms (unat sz)"
    and ready: "ready (new_page_count (ucast sz)) s"
    and sz: "unat sz = unat req_size + 32" "unat sz + 80 + 4096 \<le> 2 ^ 32" and fuel: "3 \<le> fuel"
  shows "\<exists>t. append_block alloc maj sz s = Some (0, t) \<and> outcome avail s H req_size 0 t
      \<or> (\<exists>a. append_block alloc maj sz s = Some (a, t) \<and> a \<noteq> 0
          \<and> (\<exists>p s'. try_block fuel a sz req_size t = Some (Some p, s') \<and> outcome avail s H req_size p s')
          \<and> (\<exists>p s'. major_loop fuel alloc a startedBet best sz req_size t = Some (p, s') \<and> outcome avail s H req_size p s'))"
proof -
  have "\<forall>b ms. (b, ms) \<in> set H \<longrightarrow> no_gap s b ms (unat sz)" using full by blast
  then consider t where "append_block alloc maj sz s = Some (0, t)" "outcome avail s H req_size 0 t"
    | t a where "append_block alloc maj sz s = Some (a, t)" "a \<noteq> 0" "heap_inv t (H @ [(a, [])])"
        "heap_clear t (H @ [(a, [])]) (avail t)" "avail t \<subseteq> avail s" "minors t = minors s" "bytes t = bytes s"
        "unat (maj_usage (majors t a)) + 40 + unat sz \<le> block_size t a"
    using append_outcome [OF inv last _ ready sz] by metis
  then show ?thesis
  proof cases
    case (2 t a)
    note t = \<open>heap_inv t (H @ [(a, [])])\<close> \<open>heap_clear t (H @ [(a, [])]) (avail t)\<close> \<open>avail t \<subseteq> avail s\<close>
      \<open>minors t = minors s\<close> \<open>bytes t = bytes s\<close>
    have "2 \<le> fuel" using fuel by simp
    from fresh_outcome [OF t full 2(8) sz this] fresh_loop [OF t full 2(8) sz fuel]
    have "\<exists>p s'. try_block fuel a sz req_size t = Some (Some p, s') \<and> outcome avail s H req_size p s'"
      "\<exists>p s'. major_loop fuel alloc a startedBet best sz req_size t = Some (p, s') \<and> outcome avail s H req_size p s'"
      by blast+
    then show ?thesis using 2(1,2) by blast
  qed blast
qed

text \<open>One round: the block is searched, and what comes after it is settled.\<close>

lemma round_outcome:
  assumes s1_def: "s1 = (if bestSize < block_room maj s then s\<lparr>l_bestBet := maj\<rparr> else s)"
    and best_def: "best = (if bestSize < block_room maj s then block_room maj s else bestSize)"
    and H_def: "H = A @ (maj, ms) # B" and s1: "heap_inv s1 H" "heap_clear s1 H (avail s1)"
    and fuel: "length ms + 2 \<le> fuel" and sz: "unat sz = unat req_size + 32" "unat sz + 80 + 4096 \<le> 2 ^ 32"
    and next_block: "B \<noteq> [] \<Longrightarrow> no_gap s maj ms (unat sz) \<Longrightarrow>
      \<exists>p s'. major_loop fuel alloc (maj_next (majors s1 maj)) startedBet best sz req_size s1 = Some (p, s')
        \<and> outcome avail s H req_size p s'"
    and again: "B = [] \<Longrightarrow> startedBet \<Longrightarrow>
      \<exists>p s'. major_loop fuel alloc (l_memRoot s1) False best sz req_size s1 = Some (p, s') \<and> outcome avail s H req_size p s'"
    and fresh: "B = [] \<Longrightarrow> \<not> startedBet \<Longrightarrow> no_gap s maj ms (unat sz) \<Longrightarrow>
      \<exists>t. append_block alloc maj sz s1 = Some (0, t) \<and> outcome avail s H req_size 0 t
      \<or> (\<exists>a. append_block alloc maj sz s1 = Some (a, t) \<and> a \<noteq> 0
          \<and> (\<exists>p s'. try_block fuel a sz req_size t = Some (Some p, s') \<and> outcome avail s H req_size p s')
          \<and> (\<exists>p s'. major_loop fuel alloc a startedBet best sz req_size t = Some (p, s') \<and> outcome avail s H req_size p s'))"
  shows "\<exists>p s'. major_loop (Suc fuel) alloc maj startedBet bestSize sz req_size s = Some (p, s') \<and> outcome avail s H req_size p s'"
proof -
  note blk = heap_inv_split(1) [OF s1(1) [unfolded H_def]]
  have bet: "no_gap s1 = no_gap s" "outcome avail s1 H req_size p t = outcome avail s H req_size p t" for p t
    by (simp_all add: s1_def)
  have "dll (\<lambda>b. maj_next (majors s1 b)) (\<lambda>b. maj_prev (majors s1 b)) 0 (l_memRoot s1) (map fst A @ maj # map fst B)"
    using s1(1) by (simp add: heap_inv_def H_def)
  note nx = dll_at(1) [OF this] and nz = dll_at(3) [OF this] dll_nonzero [OF this]
  have nxz: "maj_next (majors s1 maj) \<noteq> 0 \<longleftrightarrow> B \<noteq> []" using nx nz(2) by (cases B) auto
  have rm: "block_room maj s = block_room maj s1" and sz40: "unat sz + 40 < 2 ^ 64" using sz(2) by (simp_all add: s1_def)
  note step = major_loop_Suc [OF nz(1) s1_def best_def]
  show ?thesis
  proof (cases "block_room maj s < sz + sizeof_minor")
    case True
    have "no_gap s maj ms (unat sz)"
    proof -
      have "\<not> unat (maj_usage (majors s1 maj)) + 40 + unat sz \<le> block_size s1 maj"
        using True room_test [OF blk sz40] by (simp add: rm)
      then show ?thesis using gap_at_facts(3) blk unfolding bet(1) [symmetric] no_gap_def by blast
    qed
    note gap = this
    show ?thesis
    proof (cases "B = [] \<and> \<not> startedBet")
      case fr: True
      obtain t where "append_block alloc maj sz s1 = Some (0, t) \<and> outcome avail s H req_size 0 t
        \<or> (\<exists>a. append_block alloc maj sz s1 = Some (a, t) \<and> a \<noteq> 0
            \<and> (\<exists>p s'. try_block fuel a sz req_size t = Some (Some p, s') \<and> outcome avail s H req_size p s'))"
        using fresh gap fr by blast
      then show ?thesis using fr nxz True unfolding step by (auto simp: search_block_def H_def)
    next
      case False
      then show ?thesis using next_block again gap nxz True unfolding step by (cases "B = []") (simp_all add: H_def)
    qed
  next
    case False
    then have room: "unat (maj_usage (majors s1 maj)) + 40 + unat sz \<le> block_size s1 maj"
      using room_test [OF blk sz40] by (simp add: rm)
    from fuel consider p s' where "try_block fuel maj sz req_size s1 = Some (Some p, s')" "placed_in maj ms sz req_size s1 p s'"
      | "try_block fuel maj sz req_size s1 = Some (None, s1)" "no_gap s maj ms (unat sz)"
      using try_block_correct [OF blk sz40 room, of fuel req_size] unfolding bet(1) by blast
    then show ?thesis
    proof cases
      case (1 p s')
      then have "outcome avail s1 H req_size p s'"
        unfolding H_def using s1(1,2) by (intro placed_outcome [OF _ _ sz(1)]) (simp_all add: H_def)
      then show ?thesis using 1(1) False bet(2) unfolding step by (simp add: search_block_def H_def)
    next
      case 2
      show ?thesis
      proof (cases "B = [] \<and> \<not> startedBet")
        case fr: True
        obtain t where "append_block alloc maj sz s1 = Some (0, t) \<and> outcome avail s H req_size 0 t
          \<or> (\<exists>a. append_block alloc maj sz s1 = Some (a, t) \<and> a \<noteq> 0
              \<and> (\<exists>p s'. major_loop fuel alloc a startedBet best sz req_size t = Some (p, s') \<and> outcome avail s H req_size p s'))"
          using fresh 2(2) fr by blast
        then show ?thesis using fr nxz False 2(1) unfolding step by (auto simp: search_block_def H_def)
      next
        case adv: False
        then show ?thesis using next_block again 2 nxz False unfolding step by (cases "B = []") (simp_all add: search_block_def H_def)
      qed
    qed
  qed
qed

text \<open>
  The walk over the blocks. \<open>K\<close> bounds the minors of every block, plus four; from the block at hand the loop
  visits the rest of the list and, after a start at the best bet, the whole list once more.
\<close>

lemma major_loop_correct:
  assumes "heap_inv s (A @ (maj, ms) # B)" (is "heap_inv s ?H") and "heap_clear s (A @ (maj, ms) # B) (avail s)"
    and "\<And>b ks. (b, ks) \<in> set (A @ (maj, ms) # B) \<Longrightarrow> length ks + 4 \<le> K"
    and "\<not> startedBet \<Longrightarrow> (\<And>b ks. (b, ks) \<in> set A \<Longrightarrow> no_gap s b ks (unat sz))"
    and "full s (A @ (maj, ms) # B) (unat sz) \<Longrightarrow> ready (new_page_count (ucast sz)) s"
    and sz: "unat sz = unat req_size + 32" "unat sz + 80 + 4096 \<le> 2 ^ 32"
    and "(if startedBet then Suc (length A + length B) else 0) + length B + K \<le> fuel"
  shows "\<exists>p s'. major_loop fuel alloc maj startedBet bestSize sz req_size s = Some (p, s')
      \<and> outcome avail s (A @ (maj, ms) # B) req_size p s'"
  using assms
proof (induction fuel arbitrary: s A maj ms B startedBet bestSize)
  case 0
  then show ?case using "0.prems"(3) [of maj ms] by auto
next
  case (Suc fuel)
  define H where "H = A @ (maj, ms) # B"
  define s1 where "s1 = (if bestSize < block_room maj s then s\<lparr>l_bestBet := maj\<rparr> else s)"
  define best where "best = (if bestSize < block_room maj s then block_room maj s else bestSize)"
  have "maj \<in> fst ` set H" by (simp add: H_def)
  note bet = bet_inv [OF Suc.prems(1,2) [folded H_def] this]
  have s1: "heap_inv s1 H" "heap_clear s1 H (avail s1)" "avail s1 = avail s" "ready n s1 = ready n s" "no_gap s1 = no_gap s" "full s1 = full s"
      "majors s1 = majors s" "outcome avail s1 H req_size p t = outcome avail s H req_size p t" for n p t
    using bet Suc.prems(1,2) by (auto simp: s1_def H_def fun_eq_iff)
  note blk = heap_inv_split(1) [OF s1(1) [unfolded H_def]]
  have K: "length ms + 4 \<le> K" by (rule Suc.prems(3) [of maj]) simp
  have "dll (\<lambda>b. maj_next (majors s1 b)) (\<lambda>b. maj_prev (majors s1 b)) 0 (l_memRoot s1) (map fst A @ maj # map fst B)"
    using s1(1) by (simp add: heap_inv_def H_def)
  note nx = dll_at(1) [OF this] and nz = dll_at(3) [OF this] dll_nonzero [OF this]
  have next_block: "\<exists>p s'. major_loop fuel alloc (maj_next (majors s1 maj)) startedBet best sz req_size s1 = Some (p, s')
      \<and> outcome avail s H req_size p s'" if "B \<noteq> []" "no_gap s maj ms (unat sz)"
  proof -
    obtain c ks B' where B: "B = (c, ks) # B'" using \<open>B \<noteq> []\<close> by (cases B) auto
    have H: "H = (A @ [(maj, ms)]) @ (c, ks) # B'" by (simp add: H_def B)
    have "maj_next (majors s1 maj) = c" using nx B by simp
    moreover have "\<exists>p s'. major_loop fuel alloc c startedBet best sz req_size s1 = Some (p, s')
        \<and> outcome avail s1 ((A @ [(maj, ms)]) @ (c, ks) # B') req_size p s'"
      by (rule Suc.IH [OF s1(1,2) [unfolded H]])
        (use Suc.prems(3-5,8) s1(4-6) sz that(2) in \<open>auto simp: B split: if_splits\<close>)
    ultimately show ?thesis using s1(8) H by simp
  qed
  have again: "\<exists>p s'. major_loop fuel alloc (l_memRoot s1) False best sz req_size s1 = Some (p, s')
      \<and> outcome avail s H req_size p s'" if "B = []" "startedBet"
  proof -
    obtain x H' where "H = x # H'" by (cases H) (simp_all add: H_def)
    then obtain c ks where H: "H = [] @ (c, ks) # H'" by (cases x) simp
    have "l_memRoot s1 = c" using s1(1) H by (auto simp: heap_inv_def)
    moreover have "\<exists>p s'. major_loop fuel alloc c False best sz req_size s1 = Some (p, s')
        \<and> outcome avail s1 ([] @ (c, ks) # H') req_size p s'"
    proof (rule Suc.IH [OF s1(1,2) [unfolded H]])
      show "length ls + 4 \<le> K" if "(b, ls) \<in> set ([] @ (c, ks) # H')" for b ls
        using Suc.prems(3) that H unfolding H_def by simp
      have "length H' = length A + length B" using arg_cong [OF H, of length] by (simp add: H_def)
      then show "(if False then Suc (length [] + length H') else 0) + length H' + K \<le> fuel"
        using Suc.prems(8) that by simp
      show "ready (new_page_count (ucast sz)) s1" if "full s1 ([] @ (c, ks) # H') (unat sz)"
        using Suc.prems(5) that s1(4,6) H unfolding H_def by simp
    qed (use sz in auto)
    ultimately show ?thesis using s1(8) H by simp
  qed
  have fresh: "\<exists>t. append_block alloc maj sz s1 = Some (0, t) \<and> outcome avail s H req_size 0 t
      \<or> (\<exists>a. append_block alloc maj sz s1 = Some (a, t) \<and> a \<noteq> 0
          \<and> (\<exists>p s'. try_block fuel a sz req_size t = Some (Some p, s') \<and> outcome avail s H req_size p s')
          \<and> (\<exists>p s'. major_loop fuel alloc a startedBet best sz req_size t = Some (p, s') \<and> outcome avail s H req_size p s'))"
    if "B = []" "\<not> startedBet" "no_gap s maj ms (unat sz)"
  proof -
    have "\<exists>t. append_block alloc maj sz s1 = Some (0, t) \<and> outcome avail s1 H req_size 0 t
      \<or> (\<exists>a. append_block alloc maj sz s1 = Some (a, t) \<and> a \<noteq> 0
          \<and> (\<exists>p s'. try_block fuel a sz req_size t = Some (Some p, s') \<and> outcome avail s1 H req_size p s')
          \<and> (\<exists>p s'. major_loop fuel alloc a startedBet best sz req_size t = Some (p, s') \<and> outcome avail s1 H req_size p s'))"
    proof (rule append_and_place [OF s1(1,2)])
      show full: "no_gap s1 b ks (unat sz)" if "(b, ks) \<in> set H" for b ks
        using Suc.prems(4) \<open>B = []\<close> \<open>\<not> startedBet\<close> \<open>no_gap s maj ms (unat sz)\<close> that by (auto simp: H_def s1(5))
      show "3 \<le> fuel" using Suc.prems(8) K by auto
      show "ready (new_page_count (ucast sz)) s1"
        using Suc.prems(5) s1(4,5) full unfolding H_def by (auto simp: full_def)
    qed (use sz \<open>B = []\<close> in \<open>auto simp: H_def\<close>)
    then show ?thesis by (simp only: s1(8))
  qed
  show ?case
    unfolding H_def [symmetric]
    by (rule round_outcome [OF s1_def best_def H_def s1(1,2) _ sz next_block again fresh]) (use Suc.prems(8) K in auto)
qed

text \<open>The first block of an empty heap.\<close>

lemma first_block:
  assumes inv: "heap_inv s []" and ready: "ready (new_page_count (ucast sz)) s"
    and sz: "unat sz = unat req_size + 32" "unat sz + 80 + 4096 \<le> 2 ^ 32" and fuel: "3 \<le> fuel"
  shows "\<exists>p s'. kmalloc_nonzero fuel alloc req_size sz s = Some (p, s') \<and> outcome avail s [] req_size p s'
    \<and> (\<forall>a t. alloc (new_page_count (ucast sz)) s = Some (a, t) \<longrightarrow> a \<noteq> 0 \<longrightarrow> p \<noteq> 0 \<and> liballoc.more s' = liballoc.more t)"
proof -
  define n where "n = new_page_count (ucast sz)"
  have "unat (ucast sz :: u32) = unat sz" using sz(2) by (intro unat_ucast32) linarith
  then have n: "16 \<le> unat n" "unat sz + 80 \<le> 4096 * unat n" "4096 * unat n < 2 ^ 32"
    using new_page_count_bounds [of "ucast sz"] sz(2) by (simp_all add: n_def)
  obtain a t where at: "alloc n s = Some (a, t)" "liballoc.truncate t = liballoc.truncate s"
      "if a = 0 then avail t = avail s else unat a + 4096 * unat n < 2 ^ 64
        \<and> {unat a..<unat a + 4096 * unat n} \<subseteq> avail s \<and> avail t = avail s - {unat a..<unat a + 4096 * unat n}"
    using alloc_ready [OF ready [folded n_def]] n(1) by auto
  note same = truncate_fields [OF at(2)]
  have root: "l_memRoot s = 0" "l_bestBet s = 0" using inv by (auto simp: heap_inv_def)
  have t: "heap_inv t []" by (rule heap_inv_cong [OF _ _ _ _ _ _ _ inv]) (use same root in simp_all)
  show ?thesis
  proof (cases "a = 0")
    case True
    define u where "u = t\<lparr>l_warningCount := l_warningCount t + 1, l_memRoot := 0\<rparr>"
    have "kmalloc_nonzero fuel alloc req_size sz s = Some (0, u)"
      using at(1) root True by (simp add: kmalloc_nonzero_def allocate_new_page_def n_def [symmetric] u_def)
    moreover have "heap_inv u []" by (rule heap_inv_cong [OF _ _ _ _ _ _ _ t]) (use same root in \<open>simp_all add: u_def\<close>)
    moreover have "avail u = avail s" using avail_more [of u t] at(3) True by (simp add: u_def)
    ultimately show ?thesis using same at(1) True by (auto simp: outcome_def full_def u_def heap_clear_def n_def)
  next
    case False
    define s1 where "s1 = add_block a n 0 t"
    define R where "R = {unat a..<unat a + 4096 * unat n}"
    have lt: "unat a + 4096 * unat n < 2 ^ 64" "R \<subseteq> avail s" "avail t = avail s - R" and pos: "0 < unat n"
      using at(3) False n(1) by (auto simp: R_def)
    have "heap_clear t [] (avail s)" by (simp add: heap_clear_def)
    note new = add_block_clear [OF t this False pos n(3) lt(1) R_def lt(2), of 0, folded s1_def, simplified]
    have av: "avail s1 = avail s - R" using avail_more [of s1 t] lt(3) by (simp add: s1_def)
    have run: "kmalloc_nonzero fuel alloc req_size sz s = major_loop fuel alloc a False 0 sz req_size s1"
      using allocate_new_page_add [of alloc "ucast sz" s a t] at(1) False root same
      by (auto simp: kmalloc_nonzero_def n_def s1_def start_block_def)
    have "\<exists>p s'. major_loop fuel alloc a False 0 sz req_size s1 = Some (p, s') \<and> p \<noteq> 0
        \<and> outcome avail s [] req_size p s' \<and> liballoc.more s' = liballoc.more s1"
      by (rule fresh_loop [where H = "[]"]) (use new av same n(2) sz fuel in \<open>auto simp: s1_def\<close>)
    then show ?thesis using at(1) by (auto simp: run n_def s1_def)
  qed
qed

theorem kmalloc_outcome:
  assumes inv: "heap_inv s H" "heap_clear s H (avail s)"
    and ready: "full s H (unat req_size + 32) \<Longrightarrow> ready (new_page_count (ucast (req_size + 32))) s"
    and req: "unat req_size + 32 + 80 + 4096 \<le> 2 ^ 32"
    and K: "\<And>b ms. (b, ms) \<in> set H \<Longrightarrow> length ms + 4 \<le> K" and fuel: "2 * length H + K \<le> fuel" "3 \<le> fuel"
  shows "\<exists>p s'. kmalloc_body fuel alloc req_size s = Some (p, s') \<and> outcome avail s H req_size p s'"
proof -
  define sz where "sz = req_size + 32"
  have usz: "unat sz = unat req_size + 32" using req by (simp add: sz_def unat64_add)
  then have sz: "unat sz = unat req_size + 32" "unat sz + 80 + 4096 \<le> 2 ^ 32" "sz \<noteq> 0" using req by auto
  have body: "kmalloc_body fuel alloc req_size s = kmalloc_nonzero fuel alloc req_size sz s"
    using sz(3) by (simp add: kmalloc_body_def ALIGNMENT_def ALIGN_INFO_def sz_def)
  show ?thesis
  proof (cases H)
    case Nil
    then show ?thesis using first_block [of s sz req_size fuel] inv ready sz fuel by (auto simp: body sz_def full_def)
  next
    case (Cons x H')
    obtain r ms where x: "x = (r, ms)" by (cases x)
    have root: "l_memRoot s = r" "r \<noteq> 0" using inv(1) Cons x by (auto simp: heap_inv_def)
    obtain maj startedBet bestSize where st: "start_block sz s = (maj, startedBet, bestSize)" by (cases "start_block sz s")
    have maj: "maj \<in> fst ` set H" "\<not> startedBet \<Longrightarrow> maj = r"
      using st inv(1) Cons x root by (auto simp: start_block_def heap_inv_def Let_def split: if_splits)
    obtain A ks B where H: "H = A @ (maj, ks) # B" and A: "\<not> startedBet \<Longrightarrow> A = []"
    proof (cases "startedBet")
      case True
      obtain ks where "(maj, ks) \<in> set H" using maj(1) by auto
      then show ?thesis using that True by (metis split_list)
    next
      case False
      then show ?thesis using that [of "[]" ms H'] Cons x maj(2) by simp
    qed
    have "\<exists>p s'. major_loop fuel alloc maj startedBet bestSize sz req_size s = Some (p, s')
        \<and> outcome avail s (A @ (maj, ks) # B) req_size p s'"
      by (rule major_loop_correct [of _ _ _ _ _ K]) (use inv H K ready sz fuel A in \<open>auto simp: sz_def\<close>)
    then show ?thesis using root st by (simp add: body kmalloc_nonzero_def H)
  qed
qed

text \<open>The first request of all, when the page source has a block for it.\<close>

lemma kmalloc_first:
  assumes inv: "heap_inv s []" and ready: "ready (new_page_count (ucast (req_size + 32))) s"
    and alloc: "alloc (new_page_count (ucast (req_size + 32))) s = Some (a, t)" "a \<noteq> 0"
    and req: "unat req_size + 32 + 80 + 4096 \<le> 2 ^ 32" and fuel: "3 \<le> fuel"
  shows "\<exists>p s'. kmalloc_body fuel alloc req_size s = Some (p, s') \<and> p \<noteq> 0 \<and> outcome avail s [] req_size p s'
    \<and> liballoc.more s' = liballoc.more t"
proof -
  have sz: "unat (req_size + 32) = unat req_size + 32" using req by (simp add: unat64_add)
  then have "kmalloc_body fuel alloc req_size s = kmalloc_nonzero fuel alloc req_size (req_size + 32) s"
    using req by (auto simp: kmalloc_body_def ALIGNMENT_def ALIGN_INFO_def unat_eq_0 [symmetric])
  then show ?thesis using first_block [OF inv ready sz _ fuel] alloc req sz by auto
qed

end

text \<open>
  While a block has a gap no page is asked for: then the contract of the page source is not needed,
  and any hook will do.
\<close>

interpretation no_pages: page_source alloc "\<lambda>_ _. False" "\<lambda>_. C" for alloc C
  by unfold_locales simp_all

lemma kmalloc_in_gap:
  assumes "heap_inv s H" "heap_clear s H C" "\<not> full s H (unat req_size + 32)" "unat req_size + 32 + 80 + 4096 \<le> 2 ^ 32"
    "\<And>b ms. (b, ms) \<in> set H \<Longrightarrow> length ms + 4 \<le> K" "2 * length H + K \<le> fuel" "3 \<le> fuel"
  shows "\<exists>p s' H'. kmalloc_body fuel alloc req_size s = Some (p, s') \<and> p \<noteq> 0 \<and> allocated s H req_size p s' H'
    \<and> heap_clear s' H' C \<and> liballoc.more s' = liballoc.more s"
proof -
  have "\<exists>p s'. kmalloc_body fuel alloc req_size s = Some (p, s') \<and> outcome (\<lambda>_. C) s H req_size p s'"
    by (rule no_pages.kmalloc_outcome [OF assms(1,2) _ assms(4,5,6,7)]) (use assms(3) in auto)
  then show ?thesis using assms(3) by (fastforce simp: outcome_def)
qed

end
