(* ===== verification/Heap_Free.thy ===== *)
theory Heap_Free
  imports Heap_Alloc
begin

text \<open>
  Correctness of \<open>kfree\<close> on the heap: the piece leaves its block; an empty block leaves the heap and goes
  to the page allocator. \<open>krealloc\<close> and \<open>kcalloc\<close> follow from it and from \<open>kmalloc\<close>.
\<close>

section \<open>Unlinking a piece\<close>

text \<open>The stages of \<open>unlink_minor\<close>: the neighbours are joined, then the block's first minor is set.\<close>

definition mark_dead :: "u64 \<Rightarrow> 'a liballoc_scheme \<Rightarrow> 'a liballoc_scheme" where
  "mark_dead m s = upd_minor m (\<lambda>b. b\<lparr>min_magic := LIBALLOC_DEAD\<rparr>)
     (upd_major (min_block (minors s m))
       (\<lambda>b. b\<lparr>maj_usage := ucast (ucast (maj_usage b) - (ucast (min_size (minors s m)) + sizeof_minor))\<rparr>)
       (s\<lparr>l_inuse := l_inuse s - ucast (min_size (minors s m))\<rparr>))"

definition join_next :: "u64 \<Rightarrow> 'a liballoc_scheme \<Rightarrow> 'a liballoc_scheme" where
  "join_next m s = (if min_next (minors s m) \<noteq> 0
     then upd_minor (min_next (minors s m)) (\<lambda>b. b\<lparr>min_prev := min_prev (minors s m)\<rparr>) s else s)"

definition join_prev :: "u64 \<Rightarrow> 'a liballoc_scheme \<Rightarrow> 'a liballoc_scheme" where
  "join_prev m s = (if min_prev (minors s m) \<noteq> 0
     then upd_minor (min_prev (minors s m)) (\<lambda>b. b\<lparr>min_next := min_next (minors s m)\<rparr>) s else s)"

definition set_first :: "u64 \<Rightarrow> u64 \<Rightarrow> 'a liballoc_scheme \<Rightarrow> 'a liballoc_scheme" where
  "set_first b m s = (if min_prev (minors s m) = 0
     then upd_major b (\<lambda>b. b\<lparr>maj_first := min_next (minors s m)\<rparr>) s else s)"

lemma unlink_minor_stages:
  "unlink_minor m s = set_first (min_block (minors s m)) m (join_prev m (join_next m (mark_dead m s)))"
  unfolding unlink_minor_def join_next_def [symmetric] join_prev_def [symmetric] set_first_def [symmetric]
  by (simp add: mark_dead_def Let_def)

lemma unlink_minor_rest [simp]:
  "bytes (unlink_minor m s) = bytes s" "l_memRoot (unlink_minor m s) = l_memRoot s"
  "l_bestBet (unlink_minor m s) = l_bestBet s" "l_allocated (unlink_minor m s) = l_allocated s"
  "l_inuse (unlink_minor m s) = l_inuse s - ucast (min_size (minors s m))"
  "l_warningCount (unlink_minor m s) = l_warningCount s" "liballoc.more (unlink_minor m s) = liballoc.more s"
  "maj_next (majors (unlink_minor m s) c) = maj_next (majors s c)"
  "maj_prev (majors (unlink_minor m s) c) = maj_prev (majors s c)"
  "maj_size (majors (unlink_minor m s) c) = maj_size (majors s c)"
  "maj_pages (majors (unlink_minor m s) c) = maj_pages (majors s c)"
  unfolding unlink_minor_stages
  by (simp_all add: set_first_def join_prev_def join_next_def mark_dead_def upd_major_def upd_minor_def)

lemma unlink_minor_links:
  fixes s :: "'a liballoc_scheme"
  defines "n \<equiv> \<lambda>m. min_next (minors s m)" and "p \<equiv> \<lambda>m. min_prev (minors s m)"
  assumes ne: "n m \<noteq> m" "p m \<noteq> m" "n m = 0 \<or> n m \<noteq> p m"
  shows "x \<noteq> m \<Longrightarrow> minors (unlink_minor m s) x = (minors s x)\<lparr>min_prev := (if x = n m \<and> x \<noteq> 0 then p m else p x),
      min_next := (if x = p m \<and> x \<noteq> 0 then n m else n x)\<rparr>"
    and "min_magic (minors (unlink_minor m s) m) = LIBALLOC_DEAD"
    and "majors (unlink_minor m s) = (majors s)(min_block (minors s m) := (majors s (min_block (minors s m)))\<lparr>
      maj_usage := ucast (ucast (maj_usage (majors s (min_block (minors s m)))) - (ucast (min_size (minors s m)) + sizeof_minor)),
      maj_first := (if p m = 0 then n m else maj_first (majors s (min_block (minors s m))))\<rparr>)"
proof -
  define s1 where "s1 = mark_dead m s"
  have s1: "minors s1 = (minors s)(m := (minors s m)\<lparr>min_magic := LIBALLOC_DEAD\<rparr>)"
    by (simp add: s1_def mark_dead_def upd_minor_def upd_major_def)
  define s2 where "s2 = join_next m s1"
  have s2: "minors s2 m = (minors s m)\<lparr>min_magic := LIBALLOC_DEAD\<rparr>"
      "x \<noteq> m \<Longrightarrow> minors s2 x = (minors s x)\<lparr>min_prev := (if x = n m \<and> x \<noteq> 0 then p m else p x)\<rparr>" for x
    using ne(1) by (auto simp: s2_def join_next_def upd_minor_def s1 n_def p_def)
  define s3 where "s3 = join_prev m s2"
  have s3: "minors s3 m = (minors s m)\<lparr>min_magic := LIBALLOC_DEAD\<rparr>"
      "x \<noteq> m \<Longrightarrow> minors s3 x = (minors s x)\<lparr>min_prev := (if x = n m \<and> x \<noteq> 0 then p m else p x),
      min_next := (if x = p m \<and> x \<noteq> 0 then n m else n x)\<rparr>" for x
    using ne(2) s2(2) [of x] s2(2) [of "p m"] by (auto simp: s3_def join_prev_def upd_minor_def s2(1) n_def p_def)
  have u: "unlink_minor m s = set_first (min_block (minors s m)) m s3"
    by (simp add: unlink_minor_stages s3_def s2_def s1_def)
  show "x \<noteq> m \<Longrightarrow> minors (unlink_minor m s) x = (minors s x)\<lparr>min_prev := (if x = n m \<and> x \<noteq> 0 then p m else p x),
      min_next := (if x = p m \<and> x \<noteq> 0 then n m else n x)\<rparr>"
    using s3(2) [of x] by (simp add: u set_first_def upd_major_def)
  show "min_magic (minors (unlink_minor m s) m) = LIBALLOC_DEAD" by (simp add: u set_first_def upd_major_def s3(1))
  have "majors s3 = majors s1" by (simp add: s3_def s2_def join_prev_def join_next_def upd_minor_def)
  then show "majors (unlink_minor m s) = (majors s)(min_block (minors s m) := (majors s (min_block (minors s m)))\<lparr>
      maj_usage := ucast (ucast (maj_usage (majors s (min_block (minors s m)))) - (ucast (min_size (minors s m)) + sizeof_minor)),
      maj_first := (if p m = 0 then n m else maj_first (majors s (min_block (minors s m))))\<rparr>)"
    by (simp add: u set_first_def upd_major_def s3(1) n_def p_def s1_def mark_dead_def upd_minor_def)
qed

text \<open>What unlinking does to a block, and that the block stays intact.\<close>

lemma unlink_view:
  assumes "block_inv s b (as @ m # cs)"
  defines "s' \<equiv> unlink_minor m s"
  shows "x \<in> set (as @ cs) \<Longrightarrow> min_size (minors s' x) = min_size (minors s x)
        \<and> min_magic (minors s' x) = min_magic (minors s x) \<and> min_block (minors s' x) = min_block (minors s x)
        \<and> min_req_size (minors s' x) = min_req_size (minors s x)"
    and "x \<in> set (as @ cs) \<Longrightarrow> min_next (minors s' x) = (if as \<noteq> [] \<and> x = last as then min_next (minors s m) else min_next (minors s x))"
    and "x \<in> set (as @ cs) \<Longrightarrow> min_prev (minors s' x) = (if cs \<noteq> [] \<and> x = hd cs then min_prev (minors s m) else min_prev (minors s x))"
    and "x \<notin> set (as @ m # cs) \<Longrightarrow> minors s' x = minors s x"
    and "min_magic (minors s' m) = LIBALLOC_DEAD"
    and "majors s' = (majors s)(b := (majors s b)\<lparr>
      maj_usage := ucast (ucast (maj_usage (majors s b)) - (ucast (min_size (minors s m)) + sizeof_minor)),
      maj_first := (if as = [] then min_next (minors s m) else maj_first (majors s b))\<rparr>)"
proof -
  have dll: "dll (\<lambda>m. min_next (minors s m)) (\<lambda>m. min_prev (minors s m)) 0 (maj_first (majors s b)) (as @ m # cs)"
    using block_invD(4) [OF assms(1)] by (simp add: links_ok_def)
  have dist: "distinct (as @ m # cs)" using block_invD(5) [OF assms(1)] by (rule fits_distinct)
  have nz: "0 \<notin> set (as @ m # cs)" by (rule dll_nonzero [OF dll])
  have nx: "min_next (minors s m) = (if cs = [] then 0 else hd cs)" using dll_at(1) [OF dll] by (cases cs) auto
  have pv: "min_prev (minors s m) = (if as = [] then 0 else last as)" using dll_at(2) [OF dll] by simp
  have mem: "as \<noteq> [] \<Longrightarrow> last as \<in> set as" "cs \<noteq> [] \<Longrightarrow> hd cs \<in> set cs" by simp_all
  have ne: "min_next (minors s m) \<noteq> m" "min_prev (minors s m) \<noteq> m"
    "min_next (minors s m) = 0 \<or> min_next (minors s m) \<noteq> min_prev (minors s m)"
  proof -
    have "m \<notin> set as" "m \<notin> set cs" "m \<noteq> 0" "set as \<inter> set cs = {}" using dist nz by auto
    then show "min_next (minors s m) \<noteq> m" "min_prev (minors s m) \<noteq> m"
        "min_next (minors s m) = 0 \<or> min_next (minors s m) \<noteq> min_prev (minors s m)"
      unfolding nx pv using mem nz by (metis IntI empty_iff)+
  qed
  have pv0: "min_prev (minors s m) = 0 \<longleftrightarrow> as = []" using mem(1) nz unfolding pv by (metis Un_iff set_append)
  note new = unlink_minor_links(1) [OF ne, folded s'_def]
  have xm: "x \<noteq> m" if "x \<in> set (as @ cs)" for x using dist that by auto
  have x0: "x \<noteq> 0" if "x \<in> set (as @ cs)" for x using nz that by auto
  show "x \<in> set (as @ cs) \<Longrightarrow> min_size (minors s' x) = min_size (minors s x)
        \<and> min_magic (minors s' x) = min_magic (minors s x) \<and> min_block (minors s' x) = min_block (minors s x)
        \<and> min_req_size (minors s' x) = min_req_size (minors s x)"
    by (simp add: new [OF xm])
  show "x \<in> set (as @ cs) \<Longrightarrow> min_next (minors s' x) = (if as \<noteq> [] \<and> x = last as then min_next (minors s m) else min_next (minors s x))"
    "x \<in> set (as @ cs) \<Longrightarrow> min_prev (minors s' x) = (if cs \<noteq> [] \<and> x = hd cs then min_prev (minors s m) else min_prev (minors s x))"
    using x0 by (auto simp: new [OF xm] nx pv split: if_splits)
  show "x \<notin> set (as @ m # cs) \<Longrightarrow> minors s' x = minors s x"
    using new [of x] mem by (auto simp: nx pv split: if_splits)
  show "min_magic (minors s' m) = LIBALLOC_DEAD" unfolding s'_def by (rule unlink_minor_links(2) [OF ne])
  have "min_block (minors s m) = b" using block_invD(6) [OF assms(1), of m] by (simp add: minor_ok_def)
  from unlink_minor_links(3) [OF ne, folded s'_def, unfolded this]
  show "majors s' = (majors s)(b := (majors s b)\<lparr>
      maj_usage := ucast (ucast (maj_usage (majors s b)) - (ucast (min_size (minors s m)) + sizeof_minor)),
      maj_first := (if as = [] then min_next (minors s m) else maj_first (majors s b))\<rparr>)"
    by (simp add: pv0)
qed

lemma usage_shrinks:
  fixes u z :: u32
  assumes "unat z + 40 \<le> unat u"
  shows "unat (ucast (ucast u - (ucast z + sizeof_minor) :: u64) :: u32) = unat u - (unat z + 40)"
proof -
  have "unat (ucast z + sizeof_minor :: u64) = unat z + 40"
    using assms unat32_lt [of u] by (simp add: sizeof_minor_def unat64_add unat_ucast64)
  then have "unat (ucast u - (ucast z + sizeof_minor) :: u64) = unat u - (unat z + 40)"
    using assms by (simp add: unat_sub word_le_nat_alt unat_ucast64)
  then show ?thesis using unat32_lt [of u] by (subst unat_ucast32) simp_all
qed

lemma unlink_block_inv:
  assumes "block_inv s b (as @ m # cs)"
  shows "block_inv (unlink_minor m s) b (as @ cs)" (is "block_inv ?s' _ _")
proof -
  note view = unlink_view [OF assms]
  have psz: "psize ?s' x = psize s x" if "x \<in> set (as @ cs)" for x using view(1) [OF that] by (simp add: psize_def)
  have dll: "dll (\<lambda>m. min_next (minors s m)) (\<lambda>m. min_prev (minors s m)) 0 (maj_first (majors s b)) (as @ m # cs)"
    using block_invD(4) [OF assms] by (simp add: links_ok_def)
  have dist: "distinct (as @ m # cs)" using block_invD(5) [OF assms] by (rule fits_distinct)
  have "dll (\<lambda>m. min_next (minors ?s' m)) (\<lambda>m. min_prev (minors ?s' m)) 0
      (if as = [] then min_next (minors s m) else maj_first (majors s b)) (as @ cs)"
    by (rule dll_remove [OF dll dist]) (use view(2,3) in auto)
  then have "links_ok ?s' b (as @ cs)" by (simp add: links_ok_def view(6))
  moreover have "block_size ?s' b = block_size s b" by (simp add: block_size_def)
  moreover have "fits (psize ?s') (unat b + 40) (unat b + block_size s b) (as @ cs)"
    by (rule fits_cong [OF fits_remove [OF block_invD(5) [OF assms]]]) (rule psz)
  moreover have "\<forall>x\<in>set (as @ cs). minor_ok ?s' b x"
  proof
    fix x assume x: "x \<in> set (as @ cs)"
    then have "minor_ok s b x" using block_invD(6) [OF assms, of x] by auto
    then show "minor_ok ?s' b x" using view(1) [OF x] psz [OF x] by (simp add: minor_ok_def)
  qed
  moreover have "unat (maj_usage (majors ?s' b)) = 40 + (\<Sum>x\<leftarrow>as @ cs. 40 + psize ?s' x)"
  proof -
    have "map (psize ?s') as = map (psize s) as" "map (psize ?s') cs = map (psize s) cs" using psz by auto
    then have e: "(\<Sum>x\<leftarrow>as @ cs. 40 + psize ?s' x) = (\<Sum>x\<leftarrow>as @ cs. 40 + psize s x)"
      by (simp add: sum_list_addf del: map_eq_conv)
    have u: "unat (maj_usage (majors s b)) = 40 + (40 + psize s m) + (\<Sum>x\<leftarrow>as @ cs. 40 + psize s x)"
      using block_invD(7) [OF assms] by simp
    have "unat (maj_usage (majors ?s' b)) = unat (maj_usage (majors s b)) - (psize s m + 40)"
      using u by (simp add: view(6) usage_shrinks psize_def)
    then show ?thesis using u e by simp
  qed
  ultimately show ?thesis using block_invD(1-3) [OF assms] by (simp add: block_inv_def)
qed

lemma unlink_heap_inv:
  assumes "heap_inv s (A @ (b, as @ m # cs) # B)"
  shows "heap_inv (unlink_minor m s) (A @ (b, as @ cs) # B)" (is "heap_inv ?s' ?H'")
proof -
  note blk = heap_inv_split(1) [OF assms]
  note view = unlink_view [OF blk]
  have other: "minors ?s' x = minors s x" if "(c, ks) \<in> set (A @ B)" "x \<in> set ks" for c ks x
    using heap_pieces_distinct [OF assms that] view(4) by blast
  have "block_inv ?s' c ks" if c: "(c, ks) \<in> set (A @ B)" for c ks
    by (rule block_inv_cong [OF heap_inv_split(2) [OF assms c]])
      (use heap_inv_split(4) [OF assms c] other [OF c] in \<open>simp_all add: view(6)\<close>)
  then have "\<forall>(c, ks)\<in>set ?H'. block_inv ?s' c ks" using unlink_block_inv [OF blk] by auto
  moreover have "blocks_apart ?s' = blocks_apart s" by (simp add: blocks_apart_def fun_eq_iff block_size_def)
  moreover have "l_inuse ?s' = (\<Sum>x\<leftarrow>pieces ?H'. ucast (min_size (minors ?s' x)))"
  proof -
    have same: "min_size (minors ?s' x) = min_size (minors s x)" if "x \<in> set (pieces ?H')" for x
    proof (cases "x \<in> set (as @ cs)")
      case False
      then obtain c ks where "(c, ks) \<in> set (A @ B)" "x \<in> set ks" using piece_elsewhere [OF \<open>x \<in> set (pieces ?H')\<close>] by blast
      then show ?thesis by (simp add: other)
    qed (use view(1) in blast)
    have "(\<Sum>x\<leftarrow>pieces ?H'. ucast (min_size (minors ?s' x)) :: u64) = (\<Sum>x\<leftarrow>pieces ?H'. ucast (min_size (minors s x)))"
      using same by (intro arg_cong [where f = sum_list] map_cong) auto
    moreover have "(\<Sum>x\<leftarrow>pieces (A @ (b, as @ m # cs) # B). ucast (min_size (minors s x)) :: u64)
        = (\<Sum>x\<leftarrow>pieces ?H'. ucast (min_size (minors s x))) + ucast (min_size (minors s m))"
      by (simp add: pieces_def algebra_simps)
    ultimately show ?thesis using assms by (simp add: heap_inv_def)
  qed
  ultimately show ?thesis using assms by (auto simp: heap_inv_def)
qed

section \<open>Releasing a block\<close>

text \<open>The state in which \<open>release_block\<close> calls the page allocator, in stages again.\<close>

definition forget_root :: "u64 \<Rightarrow> 'a liballoc_scheme \<Rightarrow> 'a liballoc_scheme" where
  "forget_root b s = (if l_memRoot s = b then s\<lparr>l_memRoot := maj_next (majors s b)\<rparr> else s)"

definition forget_bet :: "u64 \<Rightarrow> 'a liballoc_scheme \<Rightarrow> 'a liballoc_scheme" where
  "forget_bet b s = (if l_bestBet s = b then s\<lparr>l_bestBet := 0\<rparr> else s)"

definition join_prev_block :: "u64 \<Rightarrow> 'a liballoc_scheme \<Rightarrow> 'a liballoc_scheme" where
  "join_prev_block b s = (if maj_prev (majors s b) \<noteq> 0
     then upd_major (maj_prev (majors s b)) (\<lambda>c. c\<lparr>maj_next := maj_next (majors s b)\<rparr>) s else s)"

definition join_next_block :: "u64 \<Rightarrow> 'a liballoc_scheme \<Rightarrow> 'a liballoc_scheme" where
  "join_next_block b s = (if maj_next (majors s b) \<noteq> 0
     then upd_major (maj_next (majors s b)) (\<lambda>c. c\<lparr>maj_prev := maj_prev (majors s b)\<rparr>) s else s)"

definition count_release :: "u64 \<Rightarrow> 'a liballoc_scheme \<Rightarrow> 'a liballoc_scheme" where
  "count_release b s = s\<lparr>l_allocated := l_allocated s - ucast (maj_size (majors s b))\<rparr>"

definition drop_block :: "u64 \<Rightarrow> 'a liballoc_scheme \<Rightarrow> 'a liballoc_scheme" where
  "drop_block b s = count_release b (join_next_block b (join_prev_block b (forget_bet b (forget_root b s))))"

lemmas drop_stages = count_release_def join_next_block_def join_prev_block_def forget_bet_def forget_root_def

lemma release_block_drop:
  "release_block free b s = free b (maj_pages (majors (drop_block b s) b)) (drop_block b s)"
  unfolding release_block_def drop_stages [symmetric] by (simp add: drop_block_def Let_def)

lemma drop_block_rest [simp]:
  "minors (drop_block b s) = minors s" "bytes (drop_block b s) = bytes s" "l_inuse (drop_block b s) = l_inuse s"
  "l_memRoot (drop_block b s) = (if l_memRoot s = b then maj_next (majors s b) else l_memRoot s)"
  "l_bestBet (drop_block b s) = (if l_bestBet s = b then 0 else l_bestBet s)"
  "liballoc.more (drop_block b s) = liballoc.more s"
  "maj_size (majors (drop_block b s) c) = maj_size (majors s c)"
  "maj_pages (majors (drop_block b s) c) = maj_pages (majors s c)"
  "maj_usage (majors (drop_block b s) c) = maj_usage (majors s c)"
  "maj_first (majors (drop_block b s) c) = maj_first (majors s c)"
  "l_allocated (drop_block b s) = l_allocated s - ucast (maj_size (majors s b))"
  by (simp_all add: drop_block_def drop_stages upd_major_def)

lemma drop_block_links:
  assumes "maj_next (majors s b) \<noteq> b" "maj_prev (majors s b) \<noteq> b" "c \<noteq> b" "c \<noteq> 0"
  shows "maj_next (majors (drop_block b s) c) = (if c = maj_prev (majors s b) then maj_next (majors s b) else maj_next (majors s c))"
    "maj_prev (majors (drop_block b s) c) = (if c = maj_next (majors s b) then maj_prev (majors s b) else maj_prev (majors s c))"
  using assms by (simp_all add: drop_block_def drop_stages upd_major_def)

lemma drop_block_chain:
  assumes dll: "dll (\<lambda>b. maj_next (majors s b)) (\<lambda>b. maj_prev (majors s b)) 0 p (xs @ b # ys)"
    and dist: "distinct (xs @ b # ys)"
  shows "dll (\<lambda>c. maj_next (majors (drop_block b s) c)) (\<lambda>c. maj_prev (majors (drop_block b s) c)) 0
      (if p = b then maj_next (majors s b) else p) (xs @ ys)"
proof -
  have nz: "0 \<notin> set (xs @ b # ys)" by (rule dll_nonzero [OF dll])
  have nx: "maj_next (majors s b) = (if ys = [] then 0 else hd ys)" using dll_at(1) [OF dll] by (cases ys) auto
  have pv: "maj_prev (majors s b) = (if xs = [] then 0 else last xs)" using dll_at(2) [OF dll] by simp
  have mem: "xs \<noteq> [] \<Longrightarrow> last xs \<in> set xs" "ys \<noteq> [] \<Longrightarrow> hd ys \<in> set ys" by simp_all
  have b: "b \<notin> set xs" "b \<notin> set ys" "b \<noteq> 0" using dist nz by auto
  then have ne: "maj_next (majors s b) \<noteq> b" "maj_prev (majors s b) \<noteq> b" unfolding nx pv using mem by metis+
  have links: "maj_next (majors (drop_block b s) c) = (if xs \<noteq> [] \<and> c = last xs then maj_next (majors s b) else maj_next (majors s c))"
    "maj_prev (majors (drop_block b s) c) = (if ys \<noteq> [] \<and> c = hd ys then maj_prev (majors s b) else maj_prev (majors s c))"
    if "c \<in> set (xs @ ys)" for c
  proof -
    have "c \<noteq> b" "c \<noteq> 0" using that b nz by auto
    then show "maj_next (majors (drop_block b s) c) = (if xs \<noteq> [] \<and> c = last xs then maj_next (majors s b) else maj_next (majors s c))"
      "maj_prev (majors (drop_block b s) c) = (if ys \<noteq> [] \<and> c = hd ys then maj_prev (majors s b) else maj_prev (majors s c))"
      using drop_block_links [OF ne] by (auto simp: nx pv)
  qed
  have "dll (\<lambda>c. maj_next (majors (drop_block b s) c)) (\<lambda>c. maj_prev (majors (drop_block b s) c)) 0
      (if xs = [] then maj_next (majors s b) else p) (xs @ ys)"
    by (rule dll_remove [OF dll dist]) (use links in auto)
  moreover have "p = b \<longleftrightarrow> xs = []" using dll_head [OF dll] b(1) by (cases xs) auto
  ultimately show ?thesis by simp
qed

lemma drop_block_heap_inv:
  assumes "heap_inv s (A @ (b, []) # B)"
  shows "heap_inv (drop_block b s) (A @ B)"
proof -
  have "dll (\<lambda>c. maj_next (majors (drop_block b s) c)) (\<lambda>c. maj_prev (majors (drop_block b s) c)) 0
      (l_memRoot (drop_block b s)) (map fst A @ map fst B)"
    using drop_block_chain [of s "l_memRoot s" "map fst A" b "map fst B"] heap_inv_distinct [OF assms] assms
    by (simp add: heap_inv_def)
  moreover have "block_inv (drop_block b s) c ks" if "(c, ks) \<in> set (A @ B)" for c ks
    by (rule block_inv_cong [OF heap_inv_split(2) [OF assms that]]) simp_all
  moreover have "blocks_apart (drop_block b s) = blocks_apart s" by (simp add: blocks_apart_def fun_eq_iff block_size_def)
  ultimately show ?thesis
    using assms by (auto simp: heap_inv_def pieces_def sorted_wrt_append)
qed

section \<open>kfree\<close>

text \<open>
  Freeing a piece: it leaves the heap; when it was the last of its block, the block leaves too and the
  page allocator is called with the block and its pages, on a heap that is again intact.
\<close>

lemma note_best_bet_cases: "note_best_bet b s = s \<or> note_best_bet b s = s\<lparr>l_bestBet := b\<rparr>"
  by (simp add: note_best_bet_def Let_def)

lemma UNALIGN_piece:
  assumes "heap_inv s H" "m \<in> set (pieces H)"
  shows "UNALIGN (user_ptr m) s - sizeof_minor = m" "user_ptr m \<noteq> 0" "min_magic (minors s m) = LIBALLOC_MAGIC"
proof -
  obtain b ms where b: "block_inv s b ms" "m \<in> set ms" using heap_inv_piece [OF assms] by blast
  note le = piece_bounds(2) [OF assms]
  have ok: "minor_ok s b m" by (rule block_invD(6) [OF b])
  then show "UNALIGN (user_ptr m) s - sizeof_minor = m" by (simp add: UNALIGN_user_ptr [OF le] minor_ok_def)
  show "user_ptr m \<noteq> 0" using user_ptr_unat(1) [OF le] by auto
  show "min_magic (minors s m) = LIBALLOC_MAGIC" using ok by (simp add: minor_ok_def)
qed

theorem kfree_body_correct:
  assumes "heap_inv s (A @ (b, as @ m # cs) # B)"
  defines "t \<equiv> unlink_minor m s"
  shows "as @ cs \<noteq> [] \<Longrightarrow> \<exists>s'. kfree_body free (user_ptr m) s = Some s' \<and> heap_inv s' (A @ (b, as @ cs) # B)
      \<and> (s' = t \<or> s' = t\<lparr>l_bestBet := b\<rparr>)"
    "as @ cs = [] \<Longrightarrow> kfree_body free (user_ptr m) s = free b (maj_pages (majors s b)) (drop_block b t)
      \<and> heap_inv (drop_block b t) (A @ B)"
proof -
  have p: "m \<in> set (pieces (A @ (b, as @ m # cs) # B))" by (simp add: pieces_def)
  have blk: "min_block (minors s m) = b" using block_invD(6) [OF heap_inv_split(1) [OF assms(1)], of m] by (simp add: minor_ok_def)
  have inv: "heap_inv t (A @ (b, as @ cs) # B)" unfolding t_def by (rule unlink_heap_inv [OF assms(1)])
  have "links_ok t b (as @ cs)" by (rule block_invD(4) [OF heap_inv_split(1) [OF inv]])
  then have first: "maj_first (majors t b) = 0 \<longleftrightarrow> as @ cs = []"
    using links_ok_nonzero [of t b "as @ cs"] by (cases "as @ cs") (auto simp: links_ok_def)
  have run: "kfree_body free (user_ptr m) s =
      (if as @ cs = [] then release_block free b t else Some (note_best_bet b t))"
    using UNALIGN_piece [OF assms(1) p] first by (simp add: kfree_body_def blk t_def Let_def)
  have bet: "heap_inv (t\<lparr>l_bestBet := b\<rparr>) (A @ (b, as @ cs) # B)"
    by (rule heap_inv_cong [OF _ _ _ _ _ _ _ inv]) simp_all
  show "as @ cs \<noteq> [] \<Longrightarrow> \<exists>s'. kfree_body free (user_ptr m) s = Some s' \<and> heap_inv s' (A @ (b, as @ cs) # B)
      \<and> (s' = t \<or> s' = t\<lparr>l_bestBet := b\<rparr>)"
    using run inv bet note_best_bet_cases [of b t] by auto
  show "kfree_body free (user_ptr m) s = free b (maj_pages (majors s b)) (drop_block b t)
      \<and> heap_inv (drop_block b t) (A @ B)" if "as @ cs = []"
    using run that drop_block_heap_inv [of t A b B] inv by (simp add: release_block_drop t_def)
qed

end
