(* ===== verification/Spans.thy ===== *)
theory Spans
  imports Vmm Heap_Free
begin

text \<open>
  Correctness of the virtual memory manager. The chain of free blocks is a sorted list of spans
  that neither overlap nor touch; \<open>vmm_mmap\<close> refines taking the first span that is large enough,
  \<open>vmm_free_pages\<close> refines giving a span back. What the manager needs of the heap for its nodes is the
  locale \<open>node_allocator\<close>; what the heap needs of the manager is an instance of \<open>page_source\<close>.
\<close>

section \<open>The chain\<close>

definition span :: "mm \<Rightarrow> u64 \<Rightarrow> span" where
  "span s p = (unat (fb_start (blocks s p)), unat (fb_pages (blocks s p)))"

definition chain_links :: "mm \<Rightarrow> u64 \<Rightarrow> u64 list \<Rightarrow> bool" where
  "chain_links s p xs \<longleftrightarrow> dll (\<lambda>p. fb_next (blocks s p)) (\<lambda>p. fb_prev (blocks s p)) 0 p xs"

definition chain_inv :: "mm \<Rightarrow> u64 list \<Rightarrow> bool" where
  "chain_inv s xs \<longleftrightarrow> chain_links s (blockchain s) xs \<and> spaced (2 ^ 64) (map (span s) xs)"

lemma spaced_distinct: "spaced hi (map f xs) \<Longrightarrow> distinct xs"
  by (rule sorted_wrt_distinct [of "\<lambda>x y. span_end (f x) < fst (f y)"])
    (auto simp: spaced_def sorted_wrt_map span_end_def)

lemma chain_inv_distinct: "chain_inv s xs \<Longrightarrow> distinct xs"
  by (auto simp: chain_inv_def intro: spaced_distinct)

lemma chain_inv_span:
  assumes "chain_inv s xs" "x \<in> set xs"
  shows "0 < unat (fb_pages (blocks s x))" "unat (fb_start (blocks s x)) + 4096 * unat (fb_pages (blocks s x)) < 2 ^ 64"
  using assms by (auto simp: chain_inv_def spaced_def span_def span_end_def)

lemma unat_pages_bytes: "4096 * unat (n :: u64) < 2 ^ 64 \<Longrightarrow> unat (n * PAGE_SIZE) = 4096 * unat n"
  by (simp add: PAGE_SIZE_def unat64_mult mult.commute)

lemma block_end_span:
  assumes "chain_inv s xs" "x \<in> set xs"
  shows "unat (block_end x s) = span_end (span s x)"
proof -
  note lt = chain_inv_span(2) [OF assms]
  have "unat (fb_pages (blocks s x) * PAGE_SIZE) = 4096 * unat (fb_pages (blocks s x))"
    using lt by (intro unat_pages_bytes) linarith
  then show ?thesis using lt unfolding block_end_def by (simp add: unat64_add span_end_def span_def)
qed

text \<open>Logging and mapping do not touch the chain or the heap.\<close>

lemma klog_simps [simp]:
  "blocks (klog f as s) = blocks s" "blockchain (klog f as s) = blockchain s" "first_alloc (klog f as s) = first_alloc s"
  "liballoc.truncate (klog f as s) = liballoc.truncate s" "paging (klog f as s) = paging s"
  "allocating_base (klog f as s) = allocating_base s"
  by (simp_all add: klog_def liballoc.truncate_def)

lemma ensure_pages_mapped_simps [simp]:
  "blocks (ensure_pages_mapped ph v n fl s) = blocks s" "blockchain (ensure_pages_mapped ph v n fl s) = blockchain s"
  "first_alloc (ensure_pages_mapped ph v n fl s) = first_alloc s"
  "allocating_base (ensure_pages_mapped ph v n fl s) = allocating_base s"
  "liballoc.truncate (ensure_pages_mapped ph v n fl s) = liballoc.truncate s"
  "paging (ensure_pages_mapped ph v n fl s) = snd (map_loop (unat n) 0 ph v fl (paging s))"
  by (simp_all add: ensure_pages_mapped_def klog_def liballoc.truncate_def Let_def split: prod.splits)

lemma upd_block_simps [simp]:
  "blockchain (upd_block p f s) = blockchain s" "liballoc.truncate (upd_block p f s) = liballoc.truncate s"
  "blocks (upd_block p f s) = (blocks s)(p := f (blocks s p))" "first_alloc (upd_block p f s) = first_alloc s"
  by (simp_all add: upd_block_def liballoc.truncate_def)

lemma chain_inv_cong: "blocks t = blocks s \<Longrightarrow> blockchain t = blockchain s \<Longrightarrow> chain_inv t xs \<longleftrightarrow> chain_inv s xs"
  by (simp add: chain_inv_def chain_links_def span_def [abs_def])

section \<open>Taking a span\<close>

lemma first_fit_walk:
  assumes "dll (\<lambda>p. fb_next (blocks s p)) (\<lambda>p. fb_prev (blocks s p)) b p xs" "length xs < n"
  shows "first_fit n p pages s = Some (hd (dropWhile (\<lambda>x. fb_pages (blocks s x) < pages) xs @ [0]))"
  using assms
proof (induction xs arbitrary: b p n)
  case Nil
  then show ?case by (cases n) auto
next
  case (Cons x xs)
  then show ?case by (cases n) auto
qed

lemma take_first_split:
  "\<forall>v\<in>set as. snd v < n \<Longrightarrow> n \<le> k \<Longrightarrow>
    take_first n (as @ (a, k) # cs) = Some (a, as @ (if k = n then cs else (a + 4096 * n, k - n) # cs))"
  by (induction as) auto

lemma take_first_None: "\<forall>v\<in>set vs. snd v < n \<Longrightarrow> take_first n vs = None"
  by (induction vs) auto

lemma map_span_cong: "(\<And>x. x \<in> set xs \<Longrightarrow> blocks t x = blocks s x) \<Longrightarrow> map (span t) xs = map (span s) xs"
  by (simp add: span_def)

text \<open>A block that stays gets a later start and fewer pages.\<close>

definition shrink :: "u64 \<Rightarrow> u64 \<Rightarrow> mm \<Rightarrow> mm" where
  "shrink x pages s = upd_block x (\<lambda>b. b\<lparr>fb_pages := fb_pages b - pages\<rparr>)
     (upd_block x (\<lambda>b. b\<lparr>fb_start := fb_start b + pages * PAGE_SIZE\<rparr>) s)"

lemma shrink_span:
  assumes "chain_inv s xs" "x \<in> set xs" "pages \<le> fb_pages (blocks s x)"
  shows "span (shrink x pages s) x = (fst (span s x) + 4096 * unat pages, snd (span s x) - unat pages)"
proof -
  have le: "unat pages \<le> unat (fb_pages (blocks s x))" using assms(3) by (simp add: word_le_nat_alt)
  note lt = chain_inv_span(2) [OF assms(1,2)]
  have "unat (pages * PAGE_SIZE) = 4096 * unat pages" using le lt by (intro unat_pages_bytes) linarith
  then show ?thesis using le lt assms(3)
    by (simp add: shrink_def span_def unat64_add unat_sub)
qed

lemma shrink_chain:
  assumes "chain_inv s (as @ x # cs)" "pages < fb_pages (blocks s x)"
  shows "chain_inv (shrink x pages s) (as @ x # cs)"
    "map (span (shrink x pages s)) (as @ x # cs) =
      map (span s) as @ (fst (span s x) + 4096 * unat pages, snd (span s x) - unat pages) # map (span s) cs"
proof -
  have dist: "distinct (as @ x # cs)" by (rule chain_inv_distinct [OF assms(1)])
  have same: "map (span (shrink x pages s)) ys = map (span s) ys" if "x \<notin> set ys" for ys
    using that by (intro map_span_cong) (auto simp: shrink_def)
  have x: "span (shrink x pages s) x = (fst (span s x) + 4096 * unat pages, snd (span s x) - unat pages)"
    using assms by (intro shrink_span) auto
  then show spans: "map (span (shrink x pages s)) (as @ x # cs) =
      map (span s) as @ (fst (span s x) + 4096 * unat pages, snd (span s x) - unat pages) # map (span s) cs"
    using same [of as] same [of cs] dist by simp
  have "unat pages < snd (span s x)" using assms(2) by (simp add: span_def word_less_nat_alt)
  then have "spaced (2 ^ 64) (map (span (shrink x pages s)) (as @ x # cs))"
    using assms(1) unfolding spans by (auto simp: chain_inv_def spaced_def sorted_wrt_append span_end_def)
  moreover have "chain_links (shrink x pages s) (blockchain s) (as @ x # cs)"
    using assms(1) unfolding chain_inv_def chain_links_def by (auto intro: dll_cong simp: shrink_def)
  ultimately show "chain_inv (shrink x pages s) (as @ x # cs)" by (simp add: chain_inv_def shrink_def)
qed

text \<open>A block that has become empty leaves the chain.\<close>

lemma unlink_block_fields:
  "fb_start (blocks (unlink_block x s) y) = fb_start (blocks s y)"
  "fb_pages (blocks (unlink_block x s) y) = fb_pages (blocks s y)"
  "liballoc.truncate (unlink_block x s) = liballoc.truncate s"
  "paging (unlink_block x s) = paging s" "first_alloc (unlink_block x s) = first_alloc s"
  by (auto simp: unlink_block_def upd_block_def Let_def liballoc.truncate_def)

lemma unlink_block_links:
  assumes "fb_next (blocks s x) \<noteq> x" "fb_prev (blocks s x) \<noteq> x" "y \<noteq> x" "y \<noteq> 0"
  shows "fb_next (blocks (unlink_block x s) y) = (if y = fb_prev (blocks s x) then fb_next (blocks s x) else fb_next (blocks s y))"
    "fb_prev (blocks (unlink_block x s) y) = (if y = fb_next (blocks s x) then fb_prev (blocks s x) else fb_prev (blocks s y))"
  using assms by (simp_all add: unlink_block_def upd_block_def Let_def)

lemma unlink_block_root:
  "fb_next (blocks s x) \<noteq> x \<Longrightarrow> fb_prev (blocks s x) \<noteq> x \<Longrightarrow>
    blockchain (unlink_block x s) = (if x = blockchain s then fb_next (blocks s x) else blockchain s)"
  by (cases "fb_prev (blocks s x) = 0"; cases "fb_next (blocks s x) = 0"; cases "x = blockchain s")
    (simp_all add: unlink_block_def upd_block_def)

lemma unlink_block_chain:
  assumes dll: "chain_links s (blockchain s) (as @ x # cs)" and dist: "distinct (as @ x # cs)"
  shows "chain_links (unlink_block x s) (blockchain (unlink_block x s)) (as @ cs)"
proof -
  note dll = dll [unfolded chain_links_def]
  have nz: "0 \<notin> set (as @ x # cs)" by (rule dll_nonzero [OF dll])
  have nx: "fb_next (blocks s x) = (if cs = [] then 0 else hd cs)" using dll_at(1) [OF dll] by (cases cs) auto
  have pv: "fb_prev (blocks s x) = (if as = [] then 0 else last as)" using dll_at(2) [OF dll] by simp
  have mem: "as \<noteq> [] \<Longrightarrow> last as \<in> set as" "cs \<noteq> [] \<Longrightarrow> hd cs \<in> set cs" by simp_all
  have x: "x \<notin> set as" "x \<notin> set cs" "x \<noteq> 0" using dist nz by auto
  then have ne: "fb_next (blocks s x) \<noteq> x" "fb_prev (blocks s x) \<noteq> x" unfolding nx pv using mem by metis+
  have links: "fb_next (blocks (unlink_block x s) y) = (if as \<noteq> [] \<and> y = last as then fb_next (blocks s x) else fb_next (blocks s y))"
    "fb_prev (blocks (unlink_block x s) y) = (if cs \<noteq> [] \<and> y = hd cs then fb_prev (blocks s x) else fb_prev (blocks s y))"
    if "y \<in> set (as @ cs)" for y
  proof -
    have "y \<noteq> x" "y \<noteq> 0" using that x nz by auto
    then show "fb_next (blocks (unlink_block x s) y) = (if as \<noteq> [] \<and> y = last as then fb_next (blocks s x) else fb_next (blocks s y))"
      "fb_prev (blocks (unlink_block x s) y) = (if cs \<noteq> [] \<and> y = hd cs then fb_prev (blocks s x) else fb_prev (blocks s y))"
      using unlink_block_links [OF ne] by (auto simp: nx pv)
  qed
  have "dll (\<lambda>p. fb_next (blocks (unlink_block x s) p)) (\<lambda>p. fb_prev (blocks (unlink_block x s) p)) 0
      (if as = [] then fb_next (blocks s x) else blockchain s) (as @ cs)"
    by (rule dll_remove [OF dll dist]) (use links in auto)
  moreover have "x = blockchain s \<longleftrightarrow> as = []" using dll_head [OF dll] x(1) by (cases as) auto
  ultimately show ?thesis by (simp add: chain_links_def unlink_block_root [OF ne])
qed

section \<open>Nodes\<close>

text \<open>
  What the chain needs of the heap. The nodes in use are \<open>live\<close>. A node can be allocated when the heap
  \<open>can_malloc\<close>, and is then none of the nodes in use; a node can be returned when the heap \<open>can_free\<close> it.
  Neither touches the manager's state, and the conditions only depend on the heap.
\<close>

locale node_allocator =
  fixes malloc :: malloc and free :: free
    and live :: "mm \<Rightarrow> u64 set \<Rightarrow> bool"
    and can_malloc :: "mm \<Rightarrow> u64 set \<Rightarrow> bool" and can_free :: "mm \<Rightarrow> u64 set \<Rightarrow> u64 \<Rightarrow> bool"
  assumes malloc_node: "can_malloc s X \<Longrightarrow> \<exists>p s'. malloc sizeof_free_block s = Some (p, s') \<and> p \<noteq> 0 \<and> p \<notin> X
      \<and> liballoc.more s' = liballoc.more s \<and> live s' (insert p X)"
    and free_node: "can_free s X p \<Longrightarrow> \<exists>s'. free p s = Some s' \<and> liballoc.more s' = liballoc.more s \<and> live s' (X - {p})"
    and live_heap: "liballoc.truncate s = liballoc.truncate t \<Longrightarrow> live s X \<longleftrightarrow> live t X"
    and can_malloc_heap: "liballoc.truncate s = liballoc.truncate t \<Longrightarrow> can_malloc s X \<longleftrightarrow> can_malloc t X"
    and can_free_heap: "liballoc.truncate s = liballoc.truncate t \<Longrightarrow> can_free s X p \<longleftrightarrow> can_free t X p"

lemma more_fields:
  assumes "liballoc.more t = liballoc.more s"
  shows "blocks t = blocks s" "blockchain t = blockchain s" "first_alloc t = first_alloc s" "paging t = paging s"
    "console t = console s" "allocating_base t = allocating_base s"
  using assms by (cases s; cases t; simp)+

definition span_flags :: "bool \<Rightarrow> u64" where
  "span_flags is_kernel = DIRECTORY_DEFAULTS OR (if is_kernel then 0 else USER_ACCESS_BIT)"

lemma shrink_links: "chain_links (shrink x pages s) p xs \<longleftrightarrow> chain_links s p xs"
  by (auto simp: chain_links_def shrink_def intro: dll_cong elim!: dll_cong)

lemma shrink_simps [simp]:
  "blockchain (shrink x pages s) = blockchain s" "liballoc.truncate (shrink x pages s) = liballoc.truncate s"
  "paging (shrink x pages s) = paging s" "y \<noteq> x \<Longrightarrow> blocks (shrink x pages s) y = blocks s y"
  "fb_pages (blocks (shrink x pages s) x) = fb_pages (blocks s x) - pages" "first_alloc (shrink x pages s) = first_alloc s"
  by (simp_all add: shrink_def upd_block_def liballoc.truncate_def)

context node_allocator
begin

text \<open>Taking a span, when the block keeps pages and when it is used up.\<close>

lemma take_span_chain:
  assumes inv: "chain_inv s (as @ x # cs)" and fit: "pages \<le> fb_pages (blocks s x)"
    and exact: "fb_pages (blocks s x) = pages \<Longrightarrow> can_free s (set (as @ x # cs)) x"
    and live: "live s (set (as @ x # cs))"
  shows "\<exists>s' ys. take_span free x physical pages is_kernel s = Some (fb_start (blocks s x), s')
    \<and> chain_inv s' ys \<and> set ys \<subseteq> set (as @ x # cs) \<and> live s' (set ys)
    \<and> map (span s') ys = map (span s) as @ (if fb_pages (blocks s x) = pages then map (span s) cs
        else (fst (span s x) + 4096 * unat pages, snd (span s x) - unat pages) # map (span s) cs)
    \<and> paging s' = snd (map_loop (unat pages) 0 physical (fb_start (blocks s x)) (span_flags is_kernel) (paging s))
    \<and> first_alloc s' = first_alloc s
    \<and> (fb_pages (blocks s x) \<noteq> pages \<longrightarrow> liballoc.truncate s' = liballoc.truncate s)"
proof -
  define s1 where "s1 = ensure_pages_mapped physical (fb_start (blocks s x)) pages (span_flags is_kernel) s"
  have s1: "blocks s1 = blocks s" "blockchain s1 = blockchain s" "liballoc.truncate s1 = liballoc.truncate s"
      "first_alloc s1 = first_alloc s"
      "paging s1 = snd (map_loop (unat pages) 0 physical (fb_start (blocks s x)) (span_flags is_kernel) (paging s))"
    by (simp_all add: s1_def)
  have inv1: "chain_inv s1 (as @ x # cs)" using inv chain_inv_cong [OF s1(1,2)] by simp
  define s2 where "s2 = shrink x pages s1"
  have run: "take_span free x physical pages is_kernel s = do {
      s' \<leftarrow> (if fb_pages (blocks s2 x) = 0 then free x (unlink_block x s2) else Some s2);
      Some (fb_start (blocks s x), klog (''[VMM] Allocated %lu pages at %p'' @ nl) [Num pages, Num (fb_start (blocks s x))] s') }"
    by (simp add: take_span_def Let_def s2_def s1_def shrink_def span_flags_def)
  have left: "fb_pages (blocks s2 x) = 0 \<longleftrightarrow> fb_pages (blocks s x) = pages" by (simp add: s2_def shrink_def s1(1))
  show ?thesis
  proof (cases "fb_pages (blocks s x) = pages")
    case False
    define s' where "s' = klog (''[VMM] Allocated %lu pages at %p'' @ nl) [Num pages, Num (fb_start (blocks s x))] s2"
    have "pages < fb_pages (blocks s1 x)" using fit False by (auto simp: s1(1) order_less_le)
    note sh = shrink_chain [OF inv1 this, folded s2_def]
    have "span s' = span s2" "span s1 = span s" by (simp_all add: s'_def span_def fun_eq_iff s1(1))
    moreover have "live s' (set (as @ x # cs))" using live live_heap [of s' s] s1(3) by (simp add: s'_def s2_def)
    ultimately show ?thesis
      using sh False left run chain_inv_cong [of s' s2] s1
      by (intro exI [of _ s'] exI [of _ "as @ x # cs"]) (simp add: s'_def s2_def)
  next
    case True
    define s3 where "s3 = unlink_block x s2"
    have "liballoc.truncate s3 = liballoc.truncate s" by (simp add: s3_def unlink_block_fields s2_def s1(3))
    then have "can_free s3 (set (as @ x # cs)) x" using exact [OF True] can_free_heap by blast
    then obtain s4 where s4: "free x s3 = Some s4" "liballoc.more s4 = liballoc.more s3" "live s4 (set (as @ x # cs) - {x})"
      using free_node by blast
    note same = more_fields [OF s4(2)]
    define s' where "s' = klog (''[VMM] Allocated %lu pages at %p'' @ nl) [Num pages, Num (fb_start (blocks s x))] s4"
    have dist: "distinct (as @ x # cs)" by (rule chain_inv_distinct [OF inv])
    have "chain_links s2 (blockchain s2) (as @ x # cs)"
      using inv1 by (simp add: s2_def shrink_links chain_inv_def)
    then have "chain_links s3 (blockchain s3) (as @ cs)" unfolding s3_def by (rule unlink_block_chain [OF _ dist])
    moreover have sp: "map (span s') (as @ cs) = map (span s) (as @ cs)"
    proof (rule map_cong)
      fix y assume "y \<in> set (as @ cs)"
      then have "y \<noteq> x" using dist by auto
      then show "span s' y = span s y" by (simp add: s'_def span_def same s3_def unlink_block_fields s2_def s1(1))
    qed simp
    moreover have "spaced (2 ^ 64) (map (span s) (as @ cs))"
      using inv by (auto simp: chain_inv_def spaced_def sorted_wrt_append)
    moreover have "blocks s' = blocks s3" "blockchain s' = blockchain s3" by (simp_all add: s'_def same)
    ultimately have "chain_inv s' (as @ cs)" by (simp only: chain_inv_def chain_links_def simp_thms)
    moreover have "take_span free x physical pages is_kernel s = Some (fb_start (blocks s x), s')"
      using run left True s4(1) by (simp add: s3_def s'_def)
    moreover have "paging s' = paging s1" "first_alloc s' = first_alloc s1"
      by (simp_all add: s'_def same s3_def unlink_block_fields s2_def)
    moreover have "set (as @ x # cs) - {x} = set (as @ cs)" using dist by auto
    then have "live s' (set (as @ cs))" using s4(3) live_heap [of s' s4] by (simp add: s'_def)
    ultimately show ?thesis using sp True s1(4,5) by (intro exI [of _ s'] exI [of _ "as @ cs"]) auto
  qed
qed

text \<open>
  The request as a whole, once the chain has been set up: the first fit, or the null pointer and a
  message when no block is large enough.
\<close>

theorem vmm_mmap_body_refines:
  assumes inv: "chain_inv s xs" "xs \<noteq> []" and n: "length xs < n" "0 < unat pages"
    and live: "live s (set xs)"
    and exact: "\<And>x. x \<in> set xs \<Longrightarrow> fb_pages (blocks s x) = pages \<Longrightarrow> can_free s (set xs) x"
  shows "\<exists>a s' ys. vmm_mmap_body n malloc free physical pages is_kernel s = Some (a, s')
    \<and> chain_inv s' ys \<and> set ys \<subseteq> set xs \<and> live s' (set ys)
    \<and> (case take_first (unat pages) (map (span s) xs) of
         None \<Rightarrow> a = 0 \<and> map (span s') ys = map (span s) xs \<and> paging s' = paging s
       | Some (r, vs) \<Rightarrow> unat a = r \<and> map (span s') ys = vs
           \<and> paging s' = snd (map_loop (unat pages) 0 physical a (span_flags is_kernel) (paging s)))
    \<and> first_alloc s' = first_alloc s
    \<and> ((\<forall>x\<in>set xs. fb_pages (blocks s x) \<noteq> pages) \<longrightarrow> liballoc.truncate s' = liballoc.truncate s)"
proof -
  have dll: "dll (\<lambda>p. fb_next (blocks s p)) (\<lambda>p. fb_prev (blocks s p)) 0 (blockchain s) xs"
    using inv(1) by (simp add: chain_inv_def chain_links_def)
  have root: "blockchain s \<noteq> 0" and nz: "0 \<notin> set xs" using dll inv(2) dll_empty [of _ _ _ xs] dll_nonzero by auto
  define ws where "ws = dropWhile (\<lambda>x. fb_pages (blocks s x) < pages) xs"
  define as where "as = takeWhile (\<lambda>x. fb_pages (blocks s x) < pages) xs"
  have xs: "xs = as @ ws" and small: "\<forall>x\<in>set as. fb_pages (blocks s x) < pages"
    by (auto simp: as_def ws_def dest: set_takeWhileD)
  have run: "vmm_mmap_body n malloc free physical pages is_kernel s =
      (if hd (ws @ [0]) = 0 \<or> fb_pages (blocks s (hd (ws @ [0]))) < pages
       then Some (0, klog (''[VMM] Not enough space to allocate %lu pages'' @ nl) [Num pages] s)
       else take_span free (hd (ws @ [0])) physical pages is_kernel s)"
    using root first_fit_walk [OF dll n(1)] by (simp add: vmm_mmap_body_def mmap_init_def ws_def)
  have lt: "\<forall>v\<in>set (map (span s) as). snd v < unat pages" using small by (auto simp: span_def word_less_nat_alt)
  show ?thesis
  proof (cases ws)
    case Nil
    then have "take_first (unat pages) (map (span s) xs) = None" using lt xs by (simp add: take_first_None)
    then show ?thesis
      using run Nil inv(1) live chain_inv_cong [of "klog (''[VMM] Not enough space to allocate %lu pages'' @ nl) [Num pages] s" s]
        live_heap [of "klog (''[VMM] Not enough space to allocate %lu pages'' @ nl) [Num pages] s" s]
      by (intro exI [of _ 0] exI [of _ "klog (''[VMM] Not enough space to allocate %lu pages'' @ nl) [Num pages] s"] exI [of _ xs])
        (simp add: span_def [abs_def])
  next
    case (Cons x cs)
    have fit: "\<not> fb_pages (blocks s x) < pages" using Cons hd_dropWhile [of "\<lambda>x. fb_pages (blocks s x) < pages" xs] by (simp add: ws_def)
    have x: "x \<noteq> 0" "xs = as @ x # cs" using xs Cons nz by auto
    have tf: "take_first (unat pages) (map (span s) xs) = Some (unat (fb_start (blocks s x)), map (span s) as @
        (if snd (span s x) = unat pages then map (span s) cs else (fst (span s x) + 4096 * unat pages, snd (span s x) - unat pages) # map (span s) cs))"
      using take_first_split [OF lt, of "snd (span s x)" "fst (span s x)" "map (span s) cs"] fit
      by (simp add: x(2) span_def word_less_nat_alt)
    have eq: "snd (span s x) = unat pages \<longleftrightarrow> fb_pages (blocks s x) = pages" by (simp add: span_def word_unat_eq_iff)
    have le: "pages \<le> fb_pages (blocks s x)" and ex: "fb_pages (blocks s x) = pages \<Longrightarrow> can_free s (set (as @ x # cs)) x"
      using fit exact x(2) by auto
    obtain s' ys where s': "take_span free x physical pages is_kernel s = Some (fb_start (blocks s x), s')"
        "chain_inv s' ys" "set ys \<subseteq> set xs" "live s' (set ys)"
        "map (span s') ys = map (span s) as @ (if fb_pages (blocks s x) = pages then map (span s) cs
          else (fst (span s x) + 4096 * unat pages, snd (span s x) - unat pages) # map (span s) cs)"
        "paging s' = snd (map_loop (unat pages) 0 physical (fb_start (blocks s x)) (span_flags is_kernel) (paging s))"
        "first_alloc s' = first_alloc s" "fb_pages (blocks s x) \<noteq> pages \<longrightarrow> liballoc.truncate s' = liballoc.truncate s"
      using take_span_chain [OF inv(1) [unfolded x(2)] le ex live [unfolded x(2)], of physical is_kernel] unfolding x(2) by blast
    have "vmm_mmap_body n malloc free physical pages is_kernel s = Some (fb_start (blocks s x), s')"
      using run Cons x(1) fit s'(1) by simp
    then show ?thesis using s' tf eq x(2) by (intro exI [of _ "fb_start (blocks s x)"] exI [of _ s'] exI [of _ ys]) auto
  qed
qed

end

end
