(* ===== verification/Spans_Free.thy ===== *)
theory Spans_Free
  imports Spans
begin

text \<open>
  Giving pages back to the chain: the walk to the neighbours, the three ways to add the span, and
  the report that also moves the chain's anchor back to the first block.
\<close>

section \<open>The report\<close>

lemma chain_head_walk:
  assumes "chain_links s p (as @ x # cs)" "length as < n"
  shows "chain_head n x s = Some (hd (as @ [x]))"
  using assms
proof (induction as arbitrary: x cs n rule: rev_induct)
  case Nil
  then show ?case using dll_at(2) [of _ _ 0 p "[]" x cs] by (cases n) (auto simp: chain_links_def)
next
  case (snoc y as)
  then obtain k where k: "n = Suc k" "length as < k" by (cases n) auto
  have "fb_prev (blocks s x) = y" "y \<noteq> 0"
    using dll_at(2) [of _ _ 0 p "as @ [y]" x cs] dll_at(3) [of _ _ 0 p as y "x # cs"] snoc.prems(1)
    by (auto simp: chain_links_def)
  moreover have "chain_head k y s = Some (hd (as @ [y]))" using snoc.IH [of y "x # cs" k] snoc.prems(1) k(2) by simp
  ultimately show ?case by (cases as) (simp_all add: k(1))
qed

lemma print_blocks_returns:
  assumes "dll (\<lambda>p. fb_next (blocks s p)) pv b p xs" "length xs < n"
  shows "\<exists>tot s'. print_blocks n p k s = Some (tot, s') \<and> blocks s' = blocks s \<and> blockchain s' = blockchain s
    \<and> liballoc.truncate s' = liballoc.truncate s \<and> paging s' = paging s \<and> first_alloc s' = first_alloc s"
  using assms
proof (induction xs arbitrary: b p n k s)
  case Nil
  then show ?case by (cases n) auto
next
  case (Cons x xs)
  then obtain m where m: "n = Suc m" "length xs < m" by (cases n) auto
  define t where "t = klog (''[%p, %p) (%lu pages)'' @ nl) [Num (fb_start (blocks s p)),
      Num (fb_start (blocks s p) + fb_pages (blocks s p) * PAGE_SIZE), Num (fb_pages (blocks s p))] s"
  have t: "blocks t = blocks s" "blockchain t = blockchain s" "liballoc.truncate t = liballoc.truncate s" "paging t = paging s" "first_alloc t = first_alloc s"
    by (simp_all add: t_def)
  have step: "print_blocks n p k s = print_blocks m (fb_next (blocks s p)) (k + fb_pages (blocks s p)) t"
    using Cons.prems(1) m(1) by (simp add: t_def Let_def)
  have "dll (\<lambda>p. fb_next (blocks t p)) pv p (fb_next (blocks s p)) xs" using Cons.prems(1) t by simp
  from Cons.IH [OF this m(2), of "k + fb_pages (blocks s p)"]
  show ?case unfolding step using t by auto
qed

lemma print_blockchain_returns:
  assumes "chain_links s p xs" "blockchain s \<in> set xs" "length xs < n"
  shows "\<exists>s'. print_blockchain n s = Some s' \<and> blocks s' = blocks s \<and> blockchain s' = p
    \<and> liballoc.truncate s' = liballoc.truncate s \<and> paging s' = paging s \<and> first_alloc s' = first_alloc s"
proof -
  obtain as cs where xs: "xs = as @ blockchain s # cs" using assms(2) by (meson split_list)
  have "hd (as @ [blockchain s]) = p"
    using dll_head [of _ _ 0 p xs] assms(1) xs by (cases as) (auto simp: chain_links_def)
  then have head: "chain_head n (blockchain s) s = Some p"
    using chain_head_walk [of s p as "blockchain s" cs n] assms xs by simp
  define t where "t = klog (''Blockchain:'' @ nl) [] (s\<lparr>blockchain := p\<rparr>)"
  have t: "blocks t = blocks s" "blockchain t = p" "liballoc.truncate t = liballoc.truncate s" "paging t = paging s" "first_alloc t = first_alloc s"
    by (simp_all add: t_def klog_def liballoc.truncate_def)
  have "dll (\<lambda>p. fb_next (blocks t p)) (\<lambda>p. fb_prev (blocks t p)) 0 p xs" using assms(1) t by (simp add: chain_links_def)
  from print_blocks_returns [OF this assms(3), of 0] obtain tot u where
    u: "print_blocks n p 0 t = Some (tot, u)" "blocks u = blocks t" "blockchain u = blockchain t"
      "liballoc.truncate u = liballoc.truncate t" "paging u = paging t" "first_alloc u = first_alloc t" by blast
  have "print_blockchain n s = Some (klog (''Total: %lu pages'' @ nl) [Num tot] u)"
    using head u(1) by (simp add: print_blockchain_def t_def)
  then show ?thesis using u t by auto
qed

section \<open>The neighbours\<close>

lemma find_left_walk:
  assumes "dll (\<lambda>p. fb_next (blocks s p)) pv b x (x # as @ cs)" "length as + 1 \<le> n"
    "\<forall>y\<in>set as. fb_start (blocks s y) < start" "cs = [] \<or> \<not> fb_start (blocks s (hd cs)) < start"
  shows "find_left n x start s = Some (last (x # as))"
  using assms
proof (induction as arbitrary: b x n)
  case Nil
  then show ?case by (cases n; cases cs) (auto simp: Let_def)
next
  case (Cons y as)
  then obtain m where m: "n = Suc m" "length as + 1 \<le> m" by (cases n) auto
  have y: "fb_next (blocks s x) = y" "y \<noteq> 0" "dll (\<lambda>p. fb_next (blocks s p)) pv x y (y # as @ cs)" using Cons.prems(1) by auto
  have "find_left m y start s = Some (last (y # as))" using Cons.IH [OF y(3) m(2)] Cons.prems(3,4) by simp
  then show ?case using y Cons.prems(3) by (simp add: m(1) Let_def)
qed

lemma neighbours_correct:
  assumes links: "chain_links s (blockchain s) (as @ cs)" "as @ cs \<noteq> []" "length (as @ cs) < n"
    and below: "\<forall>y\<in>set as. fb_start (blocks s y) < start" and above: "\<forall>y\<in>set cs. start < fb_start (blocks s y)"
  shows "neighbours n start s = Some (last (0 # as), hd (cs @ [0]))"
proof (cases as)
  case Nil
  then have "blockchain s = hd cs" "cs \<noteq> []" using links by (cases cs; auto simp: chain_links_def)+
  then show ?thesis using above Nil by (cases cs) (auto simp: neighbours_def)
next
  case (Cons x as')
  note dll = links(1) [unfolded chain_links_def]
  have x: "blockchain s = x" using dll Cons by simp
  have "\<not> fb_start (blocks s x) > start" using below Cons by auto
  moreover have "find_left n x start s = Some (last (x # as'))"
  proof (rule find_left_walk)
    show "dll (\<lambda>p. fb_next (blocks s p)) (\<lambda>p. fb_prev (blocks s p)) 0 x (x # as' @ cs)" using dll Cons x by simp
    show "cs = [] \<or> \<not> fb_start (blocks s (hd cs)) < start" using above by (cases cs) auto
  qed (use links(3) below Cons in auto)
  moreover have "fb_next (blocks s (last (x # as'))) = hd (cs @ [0])"
  proof -
    have "as @ cs = butlast as @ last as # cs" using Cons by simp
    then show ?thesis using dll_at(1) [of _ _ 0 "blockchain s" "butlast as" "last as" cs] dll Cons by simp
  qed
  ultimately show ?thesis using Cons x by (simp add: neighbours_def del: last.simps) simp
qed

section \<open>Adding the span\<close>

text \<open>The abstract operation, seen from the blocks on both sides.\<close>

lemma give_back_skip: "\<forall>v\<in>set as. span_end v < a \<Longrightarrow> give_back a n (as @ vs) = as @ give_back a n vs"
  by (induction as) (auto simp: span_end_def)

lemma give_back_left:
  assumes "\<forall>v\<in>set as. span_end v < a" "span_end v = a" "0 < n" "0 < snd v"
  shows "give_back a n (as @ v # cs) =
    as @ (if cs \<noteq> [] \<and> a + 4096 * n = fst (hd cs) then (fst v, snd v + n + snd (hd cs)) # tl cs else (fst v, snd v + n) # cs)"
  using assms by (cases v; cases cs) (auto simp: give_back_skip span_end_def)

lemma give_back_right:
  assumes "\<forall>v\<in>set as. span_end v < a" "a + 4096 * n = fst v"
  shows "give_back a n (as @ v # cs) = as @ (a, n + snd v) # cs"
  using assms by (cases v) (auto simp: give_back_skip)

lemma give_back_between:
  assumes "\<forall>v\<in>set as. span_end v < a" "cs = [] \<or> a + 4096 * n < fst (hd cs)"
  shows "give_back a n (as @ cs) = as @ (a, n) # cs"
  using assms give_back_skip [OF assms(1), of n cs] by (cases cs) auto

text \<open>The left neighbour grows.\<close>

lemma grow_block:
  assumes links: "chain_links s p xs" and x: "x \<in> set xs" "distinct xs"
    and t: "\<And>y. y \<noteq> x \<Longrightarrow> blocks t y = blocks s y" "fb_next (blocks t x) = fb_next (blocks s x)" "fb_prev (blocks t x) = fb_prev (blocks s x)"
  shows "chain_links t p xs" "xs = as @ x # cs \<Longrightarrow> map (span t) xs = map (span s) as @ span t x # map (span s) cs"
proof -
  have l: "fb_next (blocks t y) = fb_next (blocks s y)" "fb_prev (blocks t y) = fb_prev (blocks s y)" for y
    using t by (cases "y = x"; simp)+
  show "chain_links t p xs" using links unfolding chain_links_def by (rule dll_cong) (simp_all add: l)
  show "map (span t) xs = map (span s) as @ span t x # map (span s) cs" if "xs = as @ x # cs"
  proof -
    have "map (span t) ys = map (span s) ys" if "x \<notin> set ys" for ys
      using that t(1) by (intro map_span_cong) metis
    from this [of as] this [of cs] show ?thesis using x(2) unfolding that by (simp del: map_eq_conv)
  qed
qed

text \<open>A node leaves the chain: its left neighbour takes its link.\<close>

lemma splice_block:
  assumes links: "chain_links s p (as @ x # r # cs)" "distinct (as @ x # r # cs)"
    and t: "\<And>y. y \<noteq> x \<Longrightarrow> fb_next (blocks t y) = fb_next (blocks s y)" "fb_next (blocks t x) = fb_next (blocks s r)"
      "\<And>y. y \<noteq> fb_next (blocks s r) \<Longrightarrow> fb_prev (blocks t y) = fb_prev (blocks s y)"
      "fb_next (blocks s r) \<noteq> 0 \<Longrightarrow> fb_prev (blocks t (fb_next (blocks s r))) = x"
  shows "chain_links t p (as @ x # cs)"
proof -
  note dll = links(1) [unfolded chain_links_def]
  have dll': "dll (\<lambda>p. fb_next (blocks s p)) (\<lambda>p. fb_prev (blocks s p)) 0 p ((as @ [x]) @ r # cs)" using dll by simp
  have nr: "fb_next (blocks s r) = hd (cs @ [0])" "fb_prev (blocks s r) = x" using dll_at(1,2) [OF dll'] by simp_all
  have nz: "0 \<notin> set cs" using dll_nonzero [OF dll] by simp
  have "dll (\<lambda>p. fb_next (blocks t p)) (\<lambda>p. fb_prev (blocks t p)) 0 (if as @ [x] = [] then fb_next (blocks s r) else p) ((as @ [x]) @ cs)"
  proof (rule dll_remove [OF dll'])
    show "distinct ((as @ [x]) @ r # cs)" using links(2) by simp
    show "fb_next (blocks t (last (as @ [x]))) = fb_next (blocks s r)" using t(2) by simp
    show "fb_prev (blocks t (hd cs)) = fb_prev (blocks s r)" if "cs \<noteq> []" using t(4) nr nz that by (cases cs) auto
    show "fb_next (blocks t y) = fb_next (blocks s y)" if "as @ [x] = [] \<or> y \<noteq> last (as @ [x])" for y using t(1) that by simp
    show "fb_prev (blocks t y) = fb_prev (blocks s y)" if "y \<in> set ((as @ [x]) @ cs)" "cs = [] \<or> y \<noteq> hd cs" for y
    proof -
      have "y \<noteq> 0" using that(1) dll_nonzero [OF dll] by auto
      then have "y \<noteq> fb_next (blocks s r)" using that(2) nr(1) by (cases cs) auto
      then show ?thesis by (rule t(3))
    qed
  qed
  then show ?thesis by (simp add: chain_links_def)
qed

text \<open>A new node between two neighbours.\<close>

definition link_node :: "u64 \<Rightarrow> u64 \<Rightarrow> u64 \<Rightarrow> u64 \<Rightarrow> u64 \<Rightarrow> mm \<Rightarrow> mm" where
  "link_node new left right start pages s =
     (let s = upd_block new (\<lambda>_. \<lparr>fb_start = start, fb_pages = pages, fb_prev = left, fb_next = right\<rparr>) s;
          s = (if left \<noteq> 0 then upd_block left (\<lambda>b. b\<lparr>fb_next := new\<rparr>) s else s)
      in if right \<noteq> 0 then upd_block right (\<lambda>b. b\<lparr>fb_prev := new\<rparr>) s else s)"

lemma insert_block_link:
  "malloc sizeof_free_block s = Some (new, t) \<Longrightarrow>
    insert_block malloc left right start pages s = Some (link_node new left right start pages t)"
  by (simp add: insert_block_def link_node_def Let_def)

lemma insert_node:
  assumes links: "chain_links s p (as @ cs)" "distinct (as @ cs)" and new: "new \<noteq> 0" "new \<notin> set (as @ cs)"
    and left: "left = last (0 # as)" and right: "right = hd (cs @ [0])"
    and t_def: "t = link_node new left right start pages s"
  shows "chain_links t (if as = [] then new else p) (as @ new # cs)"
    "map (span t) (as @ new # cs) = map (span s) as @ (unat start, unat pages) # map (span s) cs"
    "blockchain t = blockchain s" "liballoc.truncate t = liballoc.truncate s"
proof -
  note dll = links(1) [unfolded chain_links_def]
  have nz: "0 \<notin> set (as @ cs)" by (rule dll_nonzero [OF dll])
  have l: "left = (if as = [] then 0 else last as)" "left \<noteq> new" using left new last_in_set [of as] by auto
  have r: "right = (if cs = [] then 0 else hd cs)" "right \<noteq> new" using right new by (cases cs; auto)+
  have mem: "as \<noteq> [] \<Longrightarrow> last as \<in> set as" "cs \<noteq> [] \<Longrightarrow> hd cs \<in> set cs" by simp_all
  have ends: "as \<noteq> [] \<Longrightarrow> last as \<noteq> 0 \<and> last as \<noteq> new" "cs \<noteq> [] \<Longrightarrow> hd cs \<noteq> 0 \<and> hd cs \<noteq> new"
    using mem nz new(2) by (metis Un_iff set_append)+
  have bl: "blocks t y = (if y = new then \<lparr>fb_start = start, fb_pages = pages, fb_prev = left, fb_next = right\<rparr>
      else (blocks s y)\<lparr>fb_next := (if y = left \<and> y \<noteq> 0 then new else fb_next (blocks s y)),
                         fb_prev := (if y = right \<and> y \<noteq> 0 then new else fb_prev (blocks s y))\<rparr>)" for y
    using l(2) r(2) by (auto simp: t_def link_node_def Let_def upd_block_def)
  show "blockchain t = blockchain s" "liballoc.truncate t = liballoc.truncate s"
    by (simp_all add: t_def link_node_def Let_def)
  have sp: "map (span t) ys = map (span s) ys" if "new \<notin> set ys" for ys using that by (auto simp: span_def bl)
  show "map (span t) (as @ new # cs) = map (span s) as @ (unat start, unat pages) # map (span s) cs"
    using sp [of as] sp [of cs] new(2) by (simp add: span_def [of t new] bl)
  show "chain_links t (if as = [] then new else p) (as @ new # cs)"
    unfolding chain_links_def
  proof (rule dll_insert [OF dll new(1) links(2) new(2)])
    show "fb_next (blocks t (last as)) = new" if "as \<noteq> []" using that l ends by (simp add: bl)
    show "fb_prev (blocks t (hd cs)) = new" if "cs \<noteq> []" using that r ends by (simp add: bl)
    show "fb_next (blocks t y) = fb_next (blocks s y)" if "y \<in> set (as @ cs)" "as = [] \<or> y \<noteq> last as" for y
      using that l new(2) nz by (auto simp: bl)
    show "fb_prev (blocks t y) = fb_prev (blocks s y)" if "y \<in> set (as @ cs)" "cs = [] \<or> y \<noteq> hd cs" for y
      using that r new(2) nz by (auto simp: bl)
  qed (simp_all add: bl left right del: last.simps)
qed

text \<open>The chain splits at the freed span.\<close>

lemma chain_split:
  assumes inv: "chain_inv s xs" and pages: "0 < n" and free: "span_bytes (a, n) \<inter> free_bytes (map (span s) xs) = {}"
  obtains as cs where "xs = as @ cs" "\<forall>y\<in>set as. span_end (span s y) \<le> a" "\<forall>y\<in>set cs. a + 4096 * n \<le> fst (span s y)"
proof
  let ?P = "\<lambda>x. fst (span s x) < a"
  have side: "span_end (span s y) \<le> a \<or> a + 4096 * n \<le> fst (span s y)" if "y \<in> set xs" for y
  proof -
    have "span_bytes (span s y) \<subseteq> free_bytes (map (span s) xs)" using that by (auto simp: free_bytes_def)
    then have "span_bytes (span s y) \<inter> span_bytes (a, n) = {}" using free by blast
    then have "{fst (span s y)..<fst (span s y) + 4096 * snd (span s y)} \<inter> {a..<a + 4096 * n} = {}"
      by (simp only: span_bytes_def span_end_def fst_conv snd_conv)
    moreover have "0 < snd (span s y)" using inv that by (auto simp: chain_inv_def spaced_def)
    ultimately show ?thesis
      using pages intervals_apart [of "fst (span s y)" "4096 * snd (span s y)" a "4096 * n"] by (simp add: span_end_def)
  qed
  show xs: "xs = takeWhile ?P xs @ dropWhile ?P xs" by simp
  show "\<forall>y\<in>set (takeWhile ?P xs). span_end (span s y) \<le> a"
    using side by (fastforce dest: set_takeWhileD)
  show "\<forall>y\<in>set (dropWhile ?P xs). a + 4096 * n \<le> fst (span s y)"
  proof (cases "dropWhile ?P xs")
    case (Cons x cs)
    have x: "x \<in> set xs" "\<not> fst (span s x) < a"
      using set_dropWhileD [of x ?P xs] hd_dropWhile [of ?P xs] Cons by auto
    moreover have "0 < snd (span s x)" using inv x(1) by (auto simp: chain_inv_def spaced_def)
    ultimately have le: "a + 4096 * n \<le> fst (span s x)" using side [of x] by (auto simp: span_end_def)
    have "sorted_wrt (\<lambda>v w. span_end v < fst w) (map (span s) (takeWhile ?P xs @ x # cs))"
      using inv xs Cons by (simp add: chain_inv_def spaced_def)
    then have "\<forall>y\<in>set cs. span_end (span s x) < fst (span s y)" by (simp add: sorted_wrt_append)
    then show ?thesis using Cons le by (fastforce simp: span_end_def)
  next
    case Nil
    then show ?thesis unfolding Nil by simp
  qed
qed

lemma report:
  assumes "chain_links t h ys" "blockchain t \<in> set ys" "length ys < n" "spaced (2 ^ 64) (map (span t) ys)"
  shows "\<exists>s'. print_blockchain n (klog f as t) = Some s' \<and> chain_inv s' ys \<and> map (span s') ys = map (span t) ys \<and> paging s' = paging t \<and> first_alloc s' = first_alloc t
    \<and> liballoc.truncate s' = liballoc.truncate t"
proof -
  have "chain_links (klog f as t) h ys" using assms(1) by (simp add: chain_links_def)
  from print_blockchain_returns [OF this] assms(2,3) obtain s' where
    s': "print_blockchain n (klog f as t) = Some s'" "blocks s' = blocks t" "blockchain s' = h" "paging s' = paging t" "first_alloc s' = first_alloc t"
      "liballoc.truncate s' = liballoc.truncate t" by auto
  have "span s' = span t" using s'(2) by (simp add: span_def fun_eq_iff)
  then show ?thesis using s' assms(1,4) by (auto simp: chain_inv_def chain_links_def)
qed

lemma block_end_unat_span: "span_end (span s x) < 2 ^ 64 \<Longrightarrow> unat (block_end x s) = span_end (span s x)"
proof -
  assume lt: "span_end (span s x) < 2 ^ 64"
  have "unat (fb_pages (blocks s x) * PAGE_SIZE) = 4096 * unat (fb_pages (blocks s x))"
    using lt by (intro unat_pages_bytes) (simp add: span_end_def span_def)
  then show ?thesis using lt unfolding block_end_def by (simp add: unat64_add span_end_def span_def)
qed

lemma chain_root_in: "chain_links s p xs \<Longrightarrow> xs \<noteq> [] \<Longrightarrow> p \<in> set xs"
  by (cases xs) (auto simp: chain_links_def)

text \<open>The left neighbour absorbs the right one.\<close>

definition absorb :: "u64 \<Rightarrow> u64 \<Rightarrow> mm \<Rightarrow> mm" where
  "absorb x r s =
     (let b = blocks s r;
          s = upd_block x (\<lambda>b'. b'\<lparr>fb_pages := fb_pages b' + fb_pages b\<rparr>) s;
          s = upd_block x (\<lambda>b'. b'\<lparr>fb_next := fb_next b\<rparr>) s
      in if fb_next b \<noteq> 0 then upd_block (fb_next b) (\<lambda>b'. b'\<lparr>fb_prev := x\<rparr>) s else s)"

lemma extend_left_eq:
  defines "s1 x pages s \<equiv> upd_block x (\<lambda>b. b\<lparr>fb_pages := fb_pages b + pages\<rparr>) s"
  shows "extend_left free x r pages s =
    (if r \<noteq> 0 \<and> block_end x (s1 x pages s) = fb_start (blocks (s1 x pages s) r)
     then free r (absorb x r (s1 x pages s)) else Some (s1 x pages s))"
  by (simp add: extend_left_def absorb_def s1_def Let_def)

lemma absorb_simps:
  assumes "fb_next (blocks s r) \<noteq> x"
  shows "blockchain (absorb x r s) = blockchain s" "liballoc.truncate (absorb x r s) = liballoc.truncate s"
    "paging (absorb x r s) = paging s" "first_alloc (absorb x r s) = first_alloc s"
    "blocks (absorb x r s) y = (blocks s y)\<lparr>
       fb_pages := (if y = x then fb_pages (blocks s x) + fb_pages (blocks s r) else fb_pages (blocks s y)),
       fb_next := (if y = x then fb_next (blocks s r) else fb_next (blocks s y)),
       fb_prev := (if y = fb_next (blocks s r) \<and> y \<noteq> 0 then x else fb_prev (blocks s y))\<rparr>"
  using assms by (auto simp: absorb_def upd_block_def Let_def liballoc.truncate_def)

lemma sorted_below:
  assumes "sorted_wrt (\<lambda>v w. span_end v < fst w) (map f (as @ cs))" "\<forall>y\<in>set (as @ cs). 0 < snd (f y)"
    "\<forall>y\<in>set as. span_end (f y) \<le> a" "\<not> (as \<noteq> [] \<and> a = span_end (f (last as)))"
  shows "\<forall>y\<in>set as. span_end (f y) < a"
  using assms by (cases as rule: rev_cases) (auto simp: sorted_wrt_append span_end_def dest: less_imp_le)

lemma sorted_above:
  assumes "sorted_wrt (\<lambda>v w. span_end v < fst w) (map f (as @ cs))" "\<forall>y\<in>set (as @ cs). 0 < snd (f y)"
    "\<forall>y\<in>set cs. a \<le> fst (f y)" "\<not> (cs \<noteq> [] \<and> a = fst (f (hd cs)))"
  shows "\<forall>y\<in>set cs. a < fst (f y)"
  using assms by (cases cs) (fastforce simp: sorted_wrt_append span_end_def)+

context node_allocator
begin

text \<open>The three ways to add the span; in each the chain afterwards is the abstract one.\<close>

definition added :: "mm \<Rightarrow> u64 list \<Rightarrow> nat \<Rightarrow> nat \<Rightarrow> mm option \<Rightarrow> bool" where
  "added s xs a n r \<longleftrightarrow> (\<exists>t h ys. r = Some t \<and> chain_links t h ys \<and> blockchain t \<in> set ys \<and> length ys \<le> Suc (length xs) \<and> live t (set ys)
     \<and> map (span t) ys = give_back a n (map (span s) xs) \<and> paging t = paging s \<and> first_alloc t = first_alloc s)"

lemma addedI:
  "r = Some t \<Longrightarrow> chain_links t h ys \<Longrightarrow> blockchain t \<in> set ys \<Longrightarrow> length ys \<le> Suc (length xs) \<Longrightarrow> live t (set ys) \<Longrightarrow>
    map (span t) ys = give_back a n (map (span s) xs) \<Longrightarrow> paging t = paging s \<Longrightarrow> first_alloc t = first_alloc s \<Longrightarrow> added s xs a n r"
  by (auto simp: added_def)

lemma extend_left_added:
  assumes inv: "chain_inv s (as @ x # cs)" and x: "unat start = span_end (span s x)"
    and pages: "0 < unat pages" "unat start + 4096 * unat pages < 2 ^ 64" "\<forall>y\<in>set cs. unat start + 4096 * unat pages \<le> fst (span s y)"
    and live: "live s (set (as @ x # cs))" and can_free: "\<And>y. y \<in> set cs \<Longrightarrow> can_free s (set (as @ x # cs)) y"
  shows "added s (as @ x # cs) (unat start) (unat pages) (extend_left free x (hd (cs @ [0])) pages s)"
proof -
  define V where "V = give_back (unat start) (unat pages) (map (span s) (as @ x # cs))"
  have sorted: "\<forall>v\<in>set (map (span s) as). span_end v < unat start" "0 < snd (span s x)"
    using inv x by (auto simp: chain_inv_def spaced_def sorted_wrt_append span_end_def)
  have V: "V = map (span s) as @ (if cs \<noteq> [] \<and> unat start + 4096 * unat pages = fst (span s (hd cs))
      then (fst (span s x), snd (span s x) + unat pages + snd (span s (hd cs))) # map (span s) (tl cs)
      else (fst (span s x), snd (span s x) + unat pages) # map (span s) cs)"
    using give_back_left [OF sorted(1) x [symmetric] pages(1) sorted(2), of "map (span s) cs"] by (cases cs) (simp_all add: V_def)
  define s1 where "s1 = upd_block x (\<lambda>b. b\<lparr>fb_pages := fb_pages b + pages\<rparr>) s"
  have s1: "span s1 x = (fst (span s x), snd (span s x) + unat pages)"
    using x pages(2) by (simp add: s1_def span_def span_end_def unat64_add)
  have dist: "distinct (as @ x # cs)" by (rule chain_inv_distinct [OF inv])
  have links: "chain_links s (blockchain s) (as @ x # cs)" using inv by (simp add: chain_inv_def)
  have end1: "unat (block_end x s1) = unat start + 4096 * unat pages"
    using block_end_unat_span [of s1 x] s1 x pages(2) by (simp add: span_end_def)
  have b1: "blocks s1 y = blocks s y" if "y \<noteq> x" for y using that by (simp add: s1_def)
  have rest1: "blockchain s1 = blockchain s" "paging s1 = paging s" "first_alloc s1 = first_alloc s" "liballoc.truncate s1 = liballoc.truncate s"
    by (simp_all add: s1_def upd_block_def liballoc.truncate_def)
  have x': "x \<in> set (as @ x # cs)" by simp
  have links1: "chain_links s1 (blockchain s) (as @ x # cs)" by (rule grow_block(1) [OF links x' dist]) (simp_all add: s1_def)
  have "map (span s1) (as @ x # cs) = map (span s) as @ span s1 x # map (span s) cs"
    by (rule grow_block(2) [OF links x' dist]) (simp_all add: s1_def)
  note spans1 = this [unfolded s1]
  have root: "blockchain s \<in> set (as @ x # cs)" by (rule chain_root_in [OF links]) simp
  note eq = extend_left_eq [of free x "hd (cs @ [0])" pages s, folded s1_def]
  show ?thesis
  proof (cases "cs \<noteq> [] \<and> unat start + 4096 * unat pages = fst (span s (hd cs))")
    case False
    have "extend_left free x (hd (cs @ [0])) pages s = Some s1"
    proof (cases cs)
      case (Cons r cs')
      then have "r \<noteq> x" using dist by auto
      then have "block_end x s1 \<noteq> fb_start (blocks s1 r)" using False Cons end1 b1 by (auto simp: span_def)
      then show ?thesis using Cons eq by simp
    qed (use eq in simp)
    moreover have "map (span s1) (as @ x # cs) = V" unfolding spans1 V using False by auto
    ultimately show ?thesis unfolding V_def by (intro addedI [OF _ links1]) (use rest1 root live live_heap [of s1 s] in auto)
  next
    case True
    then obtain r cs' where cs: "cs = r # cs'" by (cases cs) auto
    have r: "unat start + 4096 * unat pages = fst (span s r)" "r \<noteq> x" using True cs dist by auto
    define s2 where "s2 = absorb x r s1"
    have at: "fb_next (blocks s1 r) = hd (cs' @ [0])" "r \<noteq> 0"
      using dll_at(1,3) [of _ _ 0 "blockchain s" "as @ [x]" r cs'] links1 by (auto simp: chain_links_def cs)
    have "x \<noteq> 0" using dll_at(3) [of _ _ 0 "blockchain s" as x cs] links1 by (auto simp: chain_links_def)
    then have ne: "fb_next (blocks s1 r) \<noteq> x" using at(1) dist cs by (cases cs') auto
    note s2 = absorb_simps [OF ne, folded s2_def]
    have "liballoc.truncate s2 = liballoc.truncate s" using s2(2) rest1(4) by simp
    then have "can_free s2 (set (as @ x # cs)) r" using can_free [of r] can_free_heap [of s2 s _ r] cs by simp
    then obtain t where t: "free r s2 = Some t" "liballoc.more t = liballoc.more s2" "live t (set (as @ x # cs) - {r})"
      using free_node by blast
    have "set (as @ x # cs) - {r} = set (as @ x # cs')" using dist cs by auto
    note live' = t(3) [unfolded this]
    note same = more_fields [OF t(2)]
    have "block_end x s1 = fb_start (blocks s1 r)" using end1 r b1 [OF r(2)] by (simp add: word_unat_eq_iff span_def)
    then have run: "extend_left free x (hd (cs @ [0])) pages s = Some t" using eq at(2) t(1) by (simp add: cs s2_def)
    have "chain_links s2 (blockchain s) (as @ x # cs')"
      by (rule splice_block [OF links1 [unfolded cs] dist [unfolded cs]]) (auto simp: s2)
    then have links2: "chain_links t (blockchain s) (as @ x # cs')" using same by (simp add: chain_links_def)
    have "span_end (span s r) < 2 ^ 64" using chain_inv_span(2) [OF inv, of r] cs by (simp add: span_end_def span_def)
    then have "span s2 x = (fst (span s1 x), snd (span s1 x) + snd (span s1 r))"
      using s1 r x b1 [OF r(2)] by (simp add: span_def s2 unat64_add span_end_def)
    then have "span s2 x = (fst (span s x), snd (span s x) + unat pages + snd (span s r))"
      using s1 b1 [OF r(2)] by (simp add: span_def)
    moreover have "span s2 y = span s y" if "y \<noteq> x" for y using that b1 by (simp add: span_def s2)
    then have "\<forall>y\<in>set as. span s2 y = span s y" "\<forall>y\<in>set cs'. span s2 y = span s y" using dist cs by (auto; metis)+
    moreover have "span t = span s2" using same by (simp add: span_def fun_eq_iff)
    ultimately have "map (span t) (as @ x # cs') = V" using True dist by (simp add: V cs)
    moreover have "blockchain s \<in> set (as @ x # cs')" by (rule chain_root_in [OF links2]) simp
    ultimately show ?thesis
      by (intro addedI [OF run links2]) (use same s2 rest1 live' in \<open>auto simp: V_def cs\<close>)
  qed
qed

lemma extend_right_added:
  assumes inv: "chain_inv s (as @ x # cs)" and as: "\<forall>y\<in>set as. span_end (span s y) < unat start"
    and x: "unat start + 4096 * unat pages = fst (span s x)" and pages: "0 < unat pages"
    and live: "live s (set (as @ x # cs))"
  shows "added s (as @ x # cs) (unat start) (unat pages) (Some (extend_right x pages s))"
proof -
  define t where "t = extend_right x pages s"
  have x': "x \<in> set (as @ x # cs)" by simp
  have links: "chain_links s (blockchain s) (as @ x # cs)" using inv by (simp add: chain_inv_def)
  have "unat (pages * PAGE_SIZE) = 4096 * unat pages"
    using x unat64_lt [of "fb_start (blocks s x)"] by (intro unat_pages_bytes) (simp add: span_def)
  moreover have "unat (fb_start (blocks s x)) + 4096 * unat (fb_pages (blocks s x)) < 2 ^ 64" by (rule chain_inv_span(2) [OF inv x'])
  ultimately have sx: "span t x = (unat start, unat pages + snd (span s x))"
    using x by (simp add: t_def extend_right_def span_def unat64_add unat_sub word_le_nat_alt)
  have tb: "blocks t y = blocks s y" if "y \<noteq> x" for y using that by (simp add: t_def extend_right_def)
  have "chain_links t (blockchain s) (as @ x # cs)"
    by (rule grow_block(1) [OF links x' chain_inv_distinct [OF inv]]) (simp_all add: t_def extend_right_def Let_def)
  moreover have "map (span t) (as @ x # cs) = map (span s) as @ span t x # map (span s) cs"
    by (rule grow_block(2) [OF links x' chain_inv_distinct [OF inv]]) (simp_all add: t_def extend_right_def Let_def)
  moreover have "give_back (unat start) (unat pages) (map (span s) (as @ x # cs))
      = map (span s) as @ (unat start, unat pages + snd (span s x)) # map (span s) cs"
    using give_back_right [of "map (span s) as" "unat start" "unat pages" "span s x" "map (span s) cs"] as x by simp
  moreover have "blockchain t \<in> set (as @ x # cs)" "paging t = paging s" "first_alloc t = first_alloc s"
    using links dll_head [of _ _ 0 "blockchain s" "as @ x # cs"] 
    by (cases as; auto simp: t_def extend_right_def chain_links_def upd_block_def Let_def)+
  moreover have "live t (set (as @ x # cs))" using live live_heap [of t s] by (simp add: t_def extend_right_def)
  ultimately show ?thesis unfolding t_def [symmetric] sx by (intro addedI [OF refl]) auto
qed

lemma insert_block_added:
  assumes inv: "chain_inv s (as @ cs)" "as @ cs \<noteq> []" and as: "\<forall>y\<in>set as. span_end (span s y) < unat start"
    and cs: "\<forall>y\<in>set cs. unat start + 4096 * unat pages < fst (span s y)" and can: "can_malloc s (set (as @ cs))"
  shows "added s (as @ cs) (unat start) (unat pages) (insert_block malloc (last (0 # as)) (hd (cs @ [0])) start pages s)"
proof -
  obtain new t where t: "malloc sizeof_free_block s = Some (new, t)" "new \<noteq> 0" "new \<notin> set (as @ cs)"
      "liballoc.more t = liballoc.more s"
      "live t (insert new (set (as @ cs)))" using malloc_node [OF can] by blast
  note same = more_fields [OF t(4)]
  have links: "chain_links t (blockchain s) (as @ cs)" using inv(1) same by (simp add: chain_inv_def chain_links_def)
  have spt: "span t = span s" using same by (simp add: span_def fun_eq_iff)
  define u where "u = link_node new (last (0 # as)) (hd (cs @ [0])) start pages t"
  note ins = insert_node [OF links chain_inv_distinct [OF inv(1)] t(2,3) refl refl u_def]
  have "give_back (unat start) (unat pages) (map (span s) (as @ cs))
      = map (span s) as @ (unat start, unat pages) # map (span s) cs"
    using give_back_between [of "map (span s) as" "unat start" "map (span s) cs" "unat pages"] as cs by (cases cs) auto
  moreover have "blockchain s \<in> set (as @ cs)"
    using dll_head [of _ _ 0 "blockchain s" "as @ cs"] inv by (cases "as @ cs") (auto simp: chain_inv_def chain_links_def)
  moreover have "paging u = paging s" "first_alloc u = first_alloc s" using same by (simp_all add: u_def link_node_def upd_block_def Let_def)
  moreover have "insert_block malloc (last (0 # as)) (hd (cs @ [0])) start pages s = Some u"
    unfolding u_def by (rule insert_block_link [of malloc s new t, OF t(1)])
  moreover have "live u (set (as @ new # cs))" using t(5) live_heap [OF ins(4)] by simp
  ultimately show ?thesis by (intro addedI [OF _ ins(1)]) (use ins(2,3) same spt in auto)
qed

lemma add_span_added:
  assumes inv: "chain_inv s (as @ cs)" "as @ cs \<noteq> []"
    and pages: "0 < unat pages" "unat start + 4096 * unat pages < 2 ^ 64"
    and as: "\<forall>y\<in>set as. span_end (span s y) \<le> unat start"
    and cs: "\<forall>y\<in>set cs. unat start + 4096 * unat pages \<le> fst (span s y)"
    and heap: "live s (set (as @ cs))" "can_malloc s (set (as @ cs))" "\<And>y. y \<in> set (as @ cs) \<Longrightarrow> can_free s (set (as @ cs)) y"
  defines "left \<equiv> last (0 # as)" and "right \<equiv> hd (cs @ [0])"
  shows "added s (as @ cs) (unat start) (unat pages)
    (if left \<noteq> 0 \<and> start = block_end left s then extend_left free left right pages s
     else if right \<noteq> 0 \<and> start + pages * PAGE_SIZE = fb_start (blocks s right) then Some (extend_right right pages s)
     else insert_block malloc left right start pages s)" (is "added s _ _ _ ?r")
proof -
  have nz: "0 \<notin> set (as @ cs)" using inv(1) unfolding chain_inv_def chain_links_def by (meson dll_nonzero)
  have "as \<noteq> [] \<Longrightarrow> last as \<noteq> 0" using nz by (metis Un_iff last_in_set set_append)
  then have left: "left \<noteq> 0 \<and> start = block_end left s \<longleftrightarrow> as \<noteq> [] \<and> unat start = span_end (span s (last as))"
    using block_end_span [OF inv(1), of "last as"] word_unat_eq_iff [of start "block_end left s"] by (auto simp: left_def)
  have "unat (start + pages * PAGE_SIZE) = unat start + 4096 * unat pages"
    using pages(2) unat_pages_bytes [of pages] by (simp add: unat64_add)
  then have right: "right \<noteq> 0 \<and> start + pages * PAGE_SIZE = fb_start (blocks s right)
      \<longleftrightarrow> cs \<noteq> [] \<and> unat start + 4096 * unat pages = fst (span s (hd cs))"
    using nz by (cases cs) (auto simp: right_def word_unat_eq_iff span_def)
  have sorted: "sorted_wrt (\<lambda>v w. span_end v < fst w) (map (span s) (as @ cs))" "\<forall>y\<in>set (as @ cs). 0 < snd (span s y)"
    using inv(1) by (auto simp: chain_inv_def spaced_def)
  consider (l) "as \<noteq> []" "unat start = span_end (span s (last as))"
    | (r) "\<not> (as \<noteq> [] \<and> unat start = span_end (span s (last as)))" "cs \<noteq> []" "unat start + 4096 * unat pages = fst (span s (hd cs))"
    | (i) "\<not> (as \<noteq> [] \<and> unat start = span_end (span s (last as)))" "\<not> (cs \<noteq> [] \<and> unat start + 4096 * unat pages = fst (span s (hd cs)))"
    by blast
  then show ?thesis
  proof cases
    case l
    then have split: "as @ cs = butlast as @ last as # cs" and lf: "left = last as" by (simp_all add: left_def)
    have "?r = extend_left free (last as) right pages s" using l left lf by simp
    then show ?thesis unfolding right_def
      using extend_left_added [OF inv(1) [unfolded split] l(2) pages cs] heap(1,3) unfolding split [symmetric] by simp
  next
    case r
    then obtain x cs' where c: "cs = x # cs'" by (cases cs) auto
    have "\<forall>y\<in>set as. span_end (span s y) < unat start" by (rule sorted_below [OF sorted as r(1)])
    moreover have "?r = Some (extend_right x pages s)" using r left right by (auto simp: right_def c)
    ultimately show ?thesis using extend_right_added [OF inv(1) [unfolded c]] r(3) pages(1) heap(1) c by simp
  next
    case i
    have "\<forall>y\<in>set as. span_end (span s y) < unat start" by (rule sorted_below [OF sorted as i(1)])
    moreover have "\<forall>y\<in>set cs. unat start + 4096 * unat pages < fst (span s y)" by (rule sorted_above [OF sorted cs i(2)])
    moreover have "?r = insert_block malloc left right start pages s" using i left right by auto
    ultimately show ?thesis unfolding left_def right_def using insert_block_added [OF inv _ _ heap(2)] by simp
  qed
qed

text \<open>The whole of \<open>vmm_free_pages\<close>.\<close>

theorem vmm_free_pages_body_refines:
  assumes inv: "chain_inv s xs" "length xs + 1 < n"
    and pages: "0 < unat pages" "unat start + 4096 * unat pages < 2 ^ 64"
    and used: "span_bytes (unat start, unat pages) \<inter> free_bytes (map (span s) xs) = {}"
    and heap: "live s (set xs)" "can_malloc s (set xs)" "\<forall>x\<in>set xs. can_free s (set xs) x"
  shows "\<exists>s' ys. vmm_free_pages_body n malloc free start pages s = Some s' \<and> chain_inv s' ys \<and> live s' (set ys)
    \<and> map (span s') ys = give_back (unat start) (unat pages) (map (span s) xs) \<and> paging s' = paging s
    \<and> first_alloc s' = first_alloc s"
proof (cases "xs = []")
  case True
  then have root: "blockchain s = 0" using inv(1) by (simp add: chain_inv_def chain_links_def)
  obtain p t where t: "malloc sizeof_free_block s = Some (p, t)" "p \<noteq> 0" "liballoc.more t = liballoc.more s"
      "live t (insert p (set xs))" using malloc_node [OF heap(2)] by blast
  define u where "u = upd_block p (\<lambda>_. \<lparr>fb_start = start, fb_pages = pages, fb_prev = 0, fb_next = 0\<rparr>) (t\<lparr>blockchain := p\<rparr>)"
  have u: "chain_links u p [p]" "map (span u) [p] = [(unat start, unat pages)]" "blockchain u \<in> set [p]" "paging u = paging s" "first_alloc u = first_alloc s"
    using t(2) more_fields [OF t(3)] by (simp_all add: u_def chain_links_def span_def upd_block_def)
  have "spaced (2 ^ 64) (map (span u) [p])" unfolding u(2) using pages by (simp add: spaced_def span_end_def)
  from report [OF u(1,3) _ this, of n] inv(2) True obtain s' where
    "print_blockchain n (klog (''[VMM] Freed %lu pages at %p'' @ nl) [Num pages, Num start] u) = Some s'"
    "chain_inv s' [p]" "map (span s') [p] = map (span u) [p]" "paging s' = paging u" "first_alloc s' = first_alloc u"
      "liballoc.truncate s' = liballoc.truncate u" by auto
  moreover have "live s' (set [p])"
    using t(4) True live_heap [of s' t] calculation(6) by (simp add: u_def upd_block_def liballoc.truncate_def)
  ultimately show ?thesis using root t(1) u(2,4,5) True
    by (intro exI [of _ s'] exI [of _ "[p]"]) (simp add: vmm_free_pages_body_def u_def)
next
  case False
  obtain as cs where xs: "xs = as @ cs" and as: "\<forall>y\<in>set as. span_end (span s y) \<le> unat start"
    and cs: "\<forall>y\<in>set cs. unat start + 4096 * unat pages \<le> fst (span s y)"
    by (rule chain_split [OF inv(1) pages(1) used])
  define left where "left = last (0 # as)"
  define right where "right = hd (cs @ [0])"
  define r where "r = (if left \<noteq> 0 \<and> start = block_end left s then extend_left free left right pages s
             else if right \<noteq> 0 \<and> start + pages * PAGE_SIZE = fb_start (blocks s right)
             then Some (extend_right right pages s)
             else insert_block malloc left right start pages s)"
  have links: "chain_links s (blockchain s) (as @ cs)" using inv(1) xs by (simp add: chain_inv_def)
  have "added s xs (unat start) (unat pages) r"
    unfolding r_def left_def right_def xs
    by (rule add_span_added [OF inv(1) [unfolded xs] False [unfolded xs] pages as cs]) (use heap xs in auto)
  then obtain t h ys where t: "r = Some t" "chain_links t h ys" "blockchain t \<in> set ys" "length ys \<le> Suc (length xs)" "live t (set ys)"
     "map (span t) ys = give_back (unat start) (unat pages) (map (span s) xs)" "paging t = paging s" "first_alloc t = first_alloc s"
    by (auto simp: added_def)
  have "spaced (2 ^ 64) (map (span t) ys)"
    unfolding t(6) using inv(1) pages used by (intro give_back_spaced) (auto simp: chain_inv_def)
  moreover have "length ys < n" using t(4) inv(2) by linarith
  ultimately obtain s' where
    s': "print_blockchain n (klog (''[VMM] Freed %lu pages at %p'' @ nl) [Num pages, Num start] t) = Some s'"
    "chain_inv s' ys" "map (span s') ys = map (span t) ys" "paging s' = paging t" "first_alloc s' = first_alloc t"
    "liballoc.truncate s' = liballoc.truncate t" using report [OF t(2,3)] by blast
  have "neighbours n start s = Some (left, right)"
    unfolding left_def right_def
  proof (rule neighbours_correct [OF links])
    show "\<forall>y\<in>set as. fb_start (blocks s y) < start"
    proof
      fix y assume y: "y \<in> set as"
      then have "0 < unat (fb_pages (blocks s y))" using chain_inv_span(1) [OF inv(1)] xs by simp
      then show "fb_start (blocks s y) < start"
        using as y by (fastforce simp: span_end_def span_def word_less_nat_alt)
    qed
    show "\<forall>y\<in>set cs. start < fb_start (blocks s y)"
      using cs pages(1) by (fastforce simp: span_def word_less_nat_alt)
  qed (use False inv(2) xs in auto)
  moreover have "blockchain s \<noteq> 0"
    using links False xs dll_nonzero [of _ _ 0 "blockchain s" xs] chain_root_in [of s "blockchain s" xs] by (auto simp: chain_links_def)
  ultimately have "vmm_free_pages_body n malloc free start pages s = Some s'"
    using t(1) s'(1) by (simp add: vmm_free_pages_body_def r_def)
  moreover have "live s' (set ys)" using t(5) live_heap [OF s'(6)] by simp
  ultimately show ?thesis using s' t(6,7,8) by auto
qed

end

end
