(* ===== verification/Screen.thy ===== *)
theory Screen
  imports Vga
begin

text \<open>
  Correctness of the text console: the cursor invariant, confinement of all drawing to the back
  buffer, and the contents of the screen after a glyph, a scroll and a copy.
\<close>

section \<open>Geometry\<close>

abbreviation cols :: "console \<Rightarrow> nat" where "cols c \<equiv> unat (colMax (vga c))"
abbreviation rows :: "console \<Rightarrow> nat" where "rows c \<equiv> unat (rowMax (vga c))"
abbreviation screen_w :: "console \<Rightarrow> nat" where "screen_w c \<equiv> unat (width (vbe_info c))"
abbreviation screen_h :: "console \<Rightarrow> nat" where "screen_h c \<equiv> unat (height (vbe_info c))"

text \<open>At least one character cell, and all cells lie on the screen.\<close>

definition screen_ok :: "console \<Rightarrow> bool" where
  "screen_ok c \<longleftrightarrow> 0 < cols c \<and> 0 < rows c \<and> cols c * FONT_WIDTH \<le> screen_w c
     \<and> rows c * FONT_HEIGHT \<le> screen_h c"

definition console_inv :: "console \<Rightarrow> bool" where
  "console_inv c \<longleftrightarrow> screen_ok c \<and> cursorX (vga c) < colMax (vga c) \<and> cursorY (vga c) < rowMax (vga c)"

text \<open>Everything but the pixels, the cursor and the port history.\<close>

definition same_setup :: "console \<Rightarrow> console \<Rightarrow> bool" where
  "same_setup c c' \<longleftrightarrow> vbe_info c' = vbe_info c \<and> FRAMEBUFFER c' = FRAMEBUFFER c
     \<and> BACKBUFFER c' = BACKBUFFER c \<and> BACKGROUND c' = BACKGROUND c \<and> vga_ready c' = vga_ready c
     \<and> fb_size c' = fb_size c \<and> around_font c' = around_font c
     \<and> rowMax (vga c') = rowMax (vga c) \<and> colMax (vga c') = colMax (vga c)"

definition in_backbuffer :: "console \<Rightarrow> u64 \<Rightarrow> bool" where
  "in_backbuffer c a \<longleftrightarrow> (\<exists>k < screen_w c * screen_h c. a = BACKBUFFER c + 4 * of_nat k)"

text \<open>\<open>c'\<close> differs from \<open>c\<close> in the cursor, the port history and back buffer pixels only.\<close>

definition draws :: "console \<Rightarrow> console \<Rightarrow> bool" where
  "draws c c' \<longleftrightarrow> same_setup c c' \<and> (\<forall>a. in_backbuffer c a \<or> pixels c' a = pixels c a)"

lemma draws_refl [simp]: "draws c c"
  by (simp add: draws_def same_setup_def)

lemma draws_trans: "draws c d \<Longrightarrow> draws d e \<Longrightarrow> draws c e"
proof -
  assume "draws c d" "draws d e"
  moreover from this have "in_backbuffer d = in_backbuffer c"
    by (simp add: draws_def same_setup_def in_backbuffer_def fun_eq_iff)
  ultimately show ?thesis by (simp add: draws_def same_setup_def) metis
qed

lemma draws_screen_ok: "draws c c' \<Longrightarrow> screen_ok c' = screen_ok c"
  by (simp add: draws_def same_setup_def screen_ok_def)

lemma draws_cursor: "draws c (c\<lparr>vga := (vga c)\<lparr>cursorX := x, cursorY := y\<rparr>\<rparr>)"
  "draws c (c\<lparr>vga := (vga c)\<lparr>cursorX := x\<rparr>\<rparr>)" "draws c (c\<lparr>port_log := l\<rparr>)"
  "draws c (c\<lparr>vga := (vga c)\<lparr>cursorY := y, cursorX := x\<rparr>\<rparr>)"
  by (simp_all add: draws_def same_setup_def)

lemma draws_set:
  "k < screen_w c * screen_h c \<Longrightarrow> draws c (set_backbuffer (of_nat k) v c)"
  by (auto simp: draws_def same_setup_def set_backbuffer_def in_backbuffer_def)

section \<open>Loops\<close>

lemma for_upto_inv:
  assumes "P 0 s" "\<And>i s. i < n \<Longrightarrow> P i s \<Longrightarrow> P (Suc i) (f (of_nat i) s)"
  shows "P n (for_upto n f s)"
proof -
  have "P j (fold (\<lambda>i. f (of_nat i)) [0..<j] s)" if "j \<le> n" for j
    using that
  proof (induction j)
    case (Suc j)
    then show ?case using assms(2) [of j] by simp
  qed (simp add: assms(1))
  then show ?thesis by (simp add: for_upto_def)
qed

lemma for_upto_keep:
  "P s \<Longrightarrow> (\<And>i s. i < n \<Longrightarrow> P s \<Longrightarrow> P (f (of_nat i) s)) \<Longrightarrow> P (for_upto n f s)"
  using for_upto_inv [of "\<lambda>_. P" s n f] by blast

section \<open>Indices as natural numbers\<close>

lemma u16_lt: "unat (x :: u16) < 65536"
  using unsigned_less [of x] by simp

lemma cell_index:
  assumes "x < X" "y < Y" "X \<le> (w :: nat)" "Y \<le> h"
  shows "x + y * w < w * h"
proof -
  have "x + y * w < w + y * w" using assms by simp
  also have "\<dots> = Suc y * w" by simp
  also have "\<dots> \<le> h * w" using assms by (intro mult_right_mono) auto
  finally show ?thesis by (simp add: mult.commute)
qed

lemma screen_bound: "screen_w c * screen_h c < 2 ^ 32"
proof -
  have "screen_w c * screen_h c \<le> 65535 * 65535"
    using u16_lt [of "width (vbe_info c)"] u16_lt [of "height (vbe_info c)"] by (intro mult_mono) auto
  then show ?thesis by simp
qed

lemma screen_ok_bounds:
  assumes "screen_ok c"
  shows "cols c * 9 \<le> screen_w c" "rows c * 13 \<le> screen_h c" "0 < cols c" "0 < rows c"
    "cols c < 65536" "rows c < 65536" "9 \<le> screen_w c"
  using assms u16_lt [of "width (vbe_info c)"] u16_lt [of "height (vbe_info c)"]
  by (auto simp: screen_ok_def FONT_WIDTH_def FONT_HEIGHT_def)

lemma unat32_add: "unat (a :: u32) + unat b < 2 ^ 32 \<Longrightarrow> unat (a + b) = unat a + unat b"
  by (simp add: unat_word_ariths)

lemma unat32_mult: "unat (a :: u32) * unat b < 2 ^ 32 \<Longrightarrow> unat (a * b) = unat a * unat b"
  by (simp add: unat_word_ariths)

lemma unat32_of_nat: "n < 2 ^ 32 \<Longrightarrow> unat (of_nat n :: u32) = n"
  by (simp add: unat_of_nat)

lemma unat_cells:
  assumes "screen_ok c"
  shows "unat ((colMax (vga c) + 1) * of_nat FONT_WIDTH) = (cols c + 1) * 9"
    "unat (colMax (vga c) * of_nat FONT_WIDTH) = cols c * 9"
    "unat ((rowMax (vga c) - 1) * of_nat FONT_HEIGHT) = (rows c - 1) * 13"
proof -
  note b = screen_ok_bounds [OF assms]
  have f: "unat (of_nat FONT_WIDTH :: u32) = 9" "unat (of_nat FONT_HEIGHT :: u32) = 13"
    by (simp_all add: FONT_WIDTH_def FONT_HEIGHT_def)
  have c1: "unat (colMax (vga c) + 1) = cols c + 1" using unat32_add [of "colMax (vga c)" 1] b by simp
  have r1: "unat (rowMax (vga c) - 1) = rows c - 1" using b by (simp add: unat_sub_if')
  show "unat ((colMax (vga c) + 1) * of_nat FONT_WIDTH) = (cols c + 1) * 9"
    using unat32_mult [of "colMax (vga c) + 1" "of_nat FONT_WIDTH"] c1 f b by simp
  show "unat (colMax (vga c) * of_nat FONT_WIDTH) = cols c * 9"
    using unat32_mult [of "colMax (vga c)" "of_nat FONT_WIDTH"] f b by simp
  show "unat ((rowMax (vga c) - 1) * of_nat FONT_HEIGHT) = (rows c - 1) * 13"
    using unat32_mult [of "rowMax (vga c) - 1" "of_nat FONT_HEIGHT"] r1 f b by simp
qed

lemma of_unat_width: "(ucast (w :: u16) :: u64) = of_nat (unat w)" "(ucast (w :: u16) :: u32) = of_nat (unat w)"
  by simp_all

lemma scroll_index:
  "(of_nat x + of_nat y * ucast w :: u64) = of_nat (x + y * unat (w :: u16))"
  by simp

text \<open>The 32-bit index computations of \<open>clear_pixel\<close> and \<open>render_pixel\<close> do not overflow.\<close>

lemma ucast_u32_of_nat: "n < 2 ^ 32 \<Longrightarrow> (ucast (of_nat n :: u32) :: u64) = of_nat n"
  by (simp add: unsigned_of_nat take_bit_nat_eq_self)

lemma ucast_u64_of_nat: "(ucast (of_nat n :: u64) :: u32) = of_nat n"
  by (rule bit_eqI) (auto simp: bit_simps)

lemma clear_index:
  assumes "screen_ok c" "x < cols c * 9" "y < 13"
  shows "(of_nat x + ucast ((ucast (ucast ((rowMax (vga c) - 1) * of_nat FONT_HEIGHT) + of_nat y :: u64) :: u32)
        * ucast (width (vbe_info c))) :: u64)
      = of_nat (x + ((rows c - 1) * 13 + y) * screen_w c)"
    and "x + ((rows c - 1) * 13 + y) * screen_w c < screen_w c * screen_h c"
proof -
  note b = screen_ok_bounds [OF assms(1)]
  let ?r = "(rows c - 1) * 13 + y"
  have r: "?r < rows c * 13" using assms(3) b(4) by (cases "rows c") auto
  show i: "x + ?r * screen_w c < screen_w c * screen_h c"
    using cell_index [of x "cols c * 9" ?r "rows c * 13"] assms(2) b r by simp
  have "(rowMax (vga c) - 1) * of_nat FONT_HEIGHT = of_nat ((rows c - 1) * 13)"
    using arg_cong [OF unat_cells(3) [OF assms(1)], of "of_nat :: nat \<Rightarrow> u32"] by (simp del: of_nat_mult)
  then have "(ucast ((rowMax (vga c) - 1) * of_nat FONT_HEIGHT) :: u64) = of_nat ((rows c - 1) * 13)"
    using ucast_u32_of_nat [of "(rows c - 1) * 13"] b by (simp del: of_nat_mult)
  then have "(ucast (ucast ((rowMax (vga c) - 1) * of_nat FONT_HEIGHT) + of_nat y :: u64) :: u32) = of_nat ?r"
    using ucast_u64_of_nat [of ?r] by simp
  note py = this
  have "(of_nat ?r * ucast (width (vbe_info c)) :: u32) = of_nat (?r * screen_w c)" by simp
  moreover have "?r * screen_w c < 2 ^ 32" using i screen_bound [of c] by linarith
  ultimately have "(ucast (of_nat ?r * ucast (width (vbe_info c)) :: u32) :: u64) = of_nat (?r * screen_w c)"
    using ucast_u32_of_nat by metis
  then show "(of_nat x + ucast ((ucast (ucast ((rowMax (vga c) - 1) * of_nat FONT_HEIGHT) + of_nat y :: u64) :: u32)
        * ucast (width (vbe_info c))) :: u64) = of_nat (x + ?r * screen_w c)"
    by (simp only: py of_nat_add)
qed

lemma render_index:
  assumes "console_inv c" "x < 9" "y < 13"
  shows "(ucast (cursorX (vga c) * of_nat FONT_WIDTH + ucast (of_nat x :: u64)
        + (cursorY (vga c) * of_nat FONT_HEIGHT + ucast (of_nat y :: u64)) * ucast (width (vbe_info c)) :: u32) :: u64)
      = of_nat ((unat (cursorX (vga c)) * 9 + x) + (unat (cursorY (vga c)) * 13 + y) * screen_w c)"
    and "(unat (cursorX (vga c)) * 9 + x) + (unat (cursorY (vga c)) * 13 + y) * screen_w c
      < screen_w c * screen_h c"
proof -
  have ok: "screen_ok c" "unat (cursorX (vga c)) < cols c" "unat (cursorY (vga c)) < rows c"
    using assms(1) by (simp_all add: console_inv_def word_less_nat_alt)
  note b = screen_ok_bounds [OF ok(1)]
  let ?X = "unat (cursorX (vga c)) * 9 + x" and ?Y = "unat (cursorY (vga c)) * 13 + y"
  have X: "?X < cols c * 9" using ok(2) assms(2) by linarith
  have Y: "?Y < rows c * 13" using ok(3) assms(3) by linarith
  show i: "?X + ?Y * screen_w c < screen_w c * screen_h c" using cell_index [OF X Y] b by simp
  have "cursorX (vga c) * of_nat FONT_WIDTH + ucast (of_nat x :: u64) = (of_nat ?X :: u32)"
    "cursorY (vga c) * of_nat FONT_HEIGHT + ucast (of_nat y :: u64) = (of_nat ?Y :: u32)"
    by (simp_all add: FONT_WIDTH_def FONT_HEIGHT_def ucast_u64_of_nat)
  note xy = this
  have "(of_nat ?X + of_nat ?Y * ucast (width (vbe_info c)) :: u32) = of_nat (?X + ?Y * screen_w c)" by simp
  moreover have "?X + ?Y * screen_w c < 2 ^ 32" using i screen_bound [of c] by linarith
  ultimately show "(ucast (cursorX (vga c) * of_nat FONT_WIDTH + ucast (of_nat x :: u64)
        + (cursorY (vga c) * of_nat FONT_HEIGHT + ucast (of_nat y :: u64)) * ucast (width (vbe_info c)) :: u32) :: u64)
      = of_nat (?X + ?Y * screen_w c)"
    unfolding xy using ucast_u32_of_nat by metis
qed

section \<open>What is painted\<close>

definition bb :: "console \<Rightarrow> nat \<Rightarrow> u32" where "bb c k = backbuffer c (of_nat k)"
definition bg :: "console \<Rightarrow> nat \<Rightarrow> u32" where "bg c k = background c (of_nat k)"

text \<open>The back buffer and the background picture do not overlap.\<close>

definition buffers_apart :: "console \<Rightarrow> bool" where
  "buffers_apart c \<longleftrightarrow> (\<forall>k < screen_w c * screen_h c. \<forall>j < screen_w c * screen_h c.
     BACKBUFFER c + 4 * of_nat k \<noteq> BACKGROUND c + 4 * of_nat j)"

text \<open>
  \<open>paints c S V d\<close>: going from \<open>c\<close> to \<open>d\<close> has set the pixels of the back buffer with an index
  in \<open>S\<close> to the values \<open>V\<close> and changed nothing else.
\<close>

definition paints :: "console \<Rightarrow> nat set \<Rightarrow> (nat \<Rightarrow> u32) \<Rightarrow> console \<Rightarrow> bool" where
  "paints c S V d \<longleftrightarrow> draws c d \<and> vga d = vga c \<and> port_log d = port_log c
     \<and> (buffers_apart c \<longrightarrow> (\<forall>k < screen_w c * screen_h c. bg d k = bg c k)
          \<and> (\<forall>k < 2 ^ 40. bb d k = (if k \<in> S then V k else bb c k)))"

lemma address_inj:
  assumes "k < 2 ^ 40" "j < 2 ^ 40" "a + 4 * of_nat k = a + 4 * (of_nat j :: u64)"
  shows "k = j"
proof -
  have u: "unat (4 * of_nat n :: u64) = 4 * n" if "n < 2 ^ 40" for n
    using unat64_mult [of 4 "of_nat n"] unat64_of_nat [of n] that by simp
  have "4 * of_nat k = 4 * (of_nat j :: u64)" using assms(3) by simp
  then have "unat (4 * of_nat k :: u64) = unat (4 * of_nat j :: u64)" by (rule arg_cong)
  then show ?thesis using u assms(1,2) by simp
qed

lemma bb_set:
  "k < 2 ^ 40 \<Longrightarrow> j < 2 ^ 40 \<Longrightarrow> bb (set_backbuffer (of_nat k) v c) j = (if j = k then v else bb c j)"
  using address_inj [of j k "BACKBUFFER c"] by (auto simp: bb_def backbuffer_def set_backbuffer_def)

lemma paints_refl: "paints c {} V c"
  by (simp add: paints_def)

lemma paints_set:
  assumes "paints c S V d" "k < screen_w c * screen_h c" "buffers_apart c \<Longrightarrow> v = V k"
  shows "paints c (insert k S) V (set_backbuffer (of_nat k) v d)"
proof -
  have d: "draws c d" using assms(1) by (simp add: paints_def)
  then have su: "vbe_info d = vbe_info c" "BACKBUFFER d = BACKBUFFER c" "BACKGROUND d = BACKGROUND c"
    by (simp_all add: draws_def same_setup_def)
  have "draws c (set_backbuffer (of_nat k) v d)"
    using draws_trans [OF d draws_set [of k d v]] assms(2) su by simp
  moreover have "bg (set_backbuffer (of_nat k) v d) j = bg d j"
    if "buffers_apart c" "j < screen_w c * screen_h c" for j
  proof -
    have "BACKGROUND c + 4 * of_nat j \<noteq> BACKBUFFER c + 4 * of_nat k"
      using that assms(2) unfolding buffers_apart_def by metis
    then show ?thesis using su by (simp add: bg_def background_def set_backbuffer_def)
  qed
  moreover have "bb (set_backbuffer (of_nat k) v d) j = (if j = k then v else bb d j)" if "j < 2 ^ 40" for j
    using bb_set [OF _ that, of k v d] assms(2) screen_bound [of c] by simp
  ultimately show ?thesis
    using assms(1,3) unfolding paints_def by (auto simp: set_backbuffer_def)
qed

lemma paints_setup:
  "paints c S V d \<Longrightarrow> vbe_info d = vbe_info c \<and> vga d = vga c \<and> around_font d = around_font c"
  by (simp add: paints_def draws_def same_setup_def)

lemma paints_ok: "paints c S V d \<Longrightarrow> screen_ok d = screen_ok c"
  by (simp add: paints_def draws_screen_ok)

lemma paints_inv: "paints c S V d \<Longrightarrow> console_inv d = console_inv c"
  using paints_ok [of c S V d] paints_setup [of c S V d] by (simp add: console_inv_def)

text \<open>Two nested loops that paint one pixel per round.\<close>

lemma nested_loop:
  assumes step: "\<And>i j S d. i < n \<Longrightarrow> j < m \<Longrightarrow> S = f ` ({..<i} \<times> {..<m} \<union> {i} \<times> {..<j}) \<Longrightarrow> paints c S V d \<Longrightarrow>
      paints c (insert (f (i, j)) S) V (g (of_nat i) (of_nat j) d)"
  shows "paints c (f ` ({..<n} \<times> {..<m})) V (for_upto n (\<lambda>x. for_upto m (g x)) c)"
proof (rule for_upto_inv [where P = "\<lambda>i. paints c (f ` ({..<i} \<times> {..<m})) V"])
  show "paints c (f ` ({..<0} \<times> {..<m})) V c" by (simp add: paints_refl)
next
  fix i d assume i: "i < n" and d: "paints c (f ` ({..<i} \<times> {..<m})) V d"
  let ?S = "\<lambda>j. f ` ({..<i} \<times> {..<m} \<union> {i} \<times> {..<j})"
  have "paints c (?S m) V (for_upto m (g (of_nat i)) d)"
  proof (rule for_upto_inv [where P = "\<lambda>j. paints c (?S j) V"])
    show "paints c (?S 0) V d" using d by simp
    fix j e assume j: "j < m" and "paints c (?S j) V e"
    from step [OF i j refl this(2)]
    have "paints c (insert (f (i, j)) (?S j)) V (g (of_nat i) (of_nat j) e)" .
    moreover have "insert (f (i, j)) (?S j) = ?S (Suc j)" by (auto simp: less_Suc_eq)
    ultimately show "paints c (?S (Suc j)) V (g (of_nat i) (of_nat j) e)" by (simp only:)
  qed
  moreover have "{..<i} \<times> {..<m} \<union> {i} \<times> {..<m} = {..<Suc i} \<times> {..<m}" by auto
  ultimately show "paints c (f ` ({..<Suc i} \<times> {..<m})) V (for_upto m (g (of_nat i)) d)" by (simp only:)
qed

subsection \<open>Glyphs\<close>

definition glyph_lit :: "console \<Rightarrow> u8 \<Rightarrow> nat \<Rightarrow> nat \<Rightarrow> bool" where
  "glyph_lit c ch x y \<longleftrightarrow> bit (font_byte c ch (FONT_HEIGHT - y - 1)) (FONT_WIDTH - x - 1)"

definition glyph_value :: "console \<Rightarrow> u8 \<Rightarrow> nat \<Rightarrow> u32" where
  "glyph_value c ch k =
     (if glyph_lit c ch (k mod screen_w c - unat (cursorX (vga c)) * 9)
           (k div screen_w c - unat (cursorY (vga c)) * 13)
      then TEXT_COLOR else bg c k)"

definition cell_pixel :: "console \<Rightarrow> nat \<times> nat \<Rightarrow> nat" where
  "cell_pixel c = (\<lambda>(x, y). (unat (cursorX (vga c)) * 9 + x) + (unat (cursorY (vga c)) * 13 + y) * screen_w c)"

lemma cell_pixel_divmod:
  assumes "console_inv c" "x < 9"
  shows "cell_pixel c (x, y) mod screen_w c = unat (cursorX (vga c)) * 9 + x"
    "cell_pixel c (x, y) div screen_w c = unat (cursorY (vga c)) * 13 + y"
proof -
  have "unat (cursorX (vga c)) < cols c" "screen_ok c"
    using assms(1) by (simp_all add: console_inv_def word_less_nat_alt)
  then have "unat (cursorX (vga c)) * 9 + x < screen_w c"
    using assms(2) screen_ok_bounds(1) [of c] by linarith
  then show "cell_pixel c (x, y) mod screen_w c = unat (cursorX (vga c)) * 9 + x"
    "cell_pixel c (x, y) div screen_w c = unat (cursorY (vga c)) * 13 + y"
    by (simp_all add: cell_pixel_def)
qed

lemma render_pixel_paints:
  assumes "console_inv c" "x < 9" "y < 13" "paints c S (glyph_value c ch) d"
  shows "paints c (insert (cell_pixel c (x, y)) S) (glyph_value c ch) (render_pixel ch (of_nat x) (of_nat y) d)"
proof -
  let ?k = "cell_pixel c (x, y)"
  have s: "vbe_info d = vbe_info c" "vga d = vga c" "around_font d = around_font c"
    using paints_setup [OF assms(4)] by simp_all
  have u: "unat (of_nat x :: u64) = x" "unat (of_nat y :: u64) = y"
    using assms(2,3) by (simp_all add: unat64_of_nat)
  note ri = render_index [OF assms(1-3)]
  note dm = cell_pixel_divmod [OF assms(1,2), of y]
  have fb: "font_byte d ch l = font_byte c ch l" for l using s by (simp add: font_byte_def Let_def)
  have r: "render_pixel ch (of_nat x) (of_nat y) d = set_backbuffer (of_nat ?k)
      (if glyph_lit c ch x y then TEXT_COLOR else background d (of_nat ?k)) d"
    unfolding render_pixel_def Let_def s u ri(1) glyph_lit_def fb by (simp only: cell_pixel_def case_prod_conv)
  show ?thesis
    unfolding r
  proof (rule paints_set [OF assms(4)])
    show k: "?k < screen_w c * screen_h c" using ri(2) by (simp add: cell_pixel_def)
    assume "buffers_apart c"
    then have "bg d ?k = bg c ?k" using assms(4) k by (simp add: paints_def)
    then show "(if glyph_lit c ch x y then TEXT_COLOR else background d (of_nat ?k)) = glyph_value c ch ?k"
      by (simp add: glyph_value_def dm) (simp add: bg_def)
  qed
qed

lemma render_paints:
  assumes "console_inv c"
  shows "paints c (cell_pixel c ` ({..<9} \<times> {..<13})) (glyph_value c ch) (render ch c)"
  unfolding render_def FONT_WIDTH_def FONT_HEIGHT_def
  using assms by (intro nested_loop render_pixel_paints)

subsection \<open>Scrolling\<close>

definition scroll_value :: "console \<Rightarrow> nat \<Rightarrow> u32" where
  "scroll_value c k = (if bb c (k + 13 * screen_w c) = TEXT_COLOR then TEXT_COLOR else bg c k)"

definition row_pixel :: "console \<Rightarrow> nat \<times> nat \<Rightarrow> nat" where
  "row_pixel c = (\<lambda>(y, x). x + y * screen_w c)"

definition last_row_pixel :: "console \<Rightarrow> nat \<times> nat \<Rightarrow> nat" where
  "last_row_pixel c = (\<lambda>(y, x). x + ((rows c - 1) * 13 + y) * screen_w c)"

text \<open>The first loop runs one cell past the last column, but not past the last row.\<close>

lemma scroll_bounds:
  assumes "screen_ok c" "y < (rows c - 1) * 13" "x < (cols c + 1) * 9"
  shows "row_pixel c (y, x) < screen_w c * screen_h c"
    and "x + (y + 13) * screen_w c < 2 ^ 40"
    and "y' \<le> y \<Longrightarrow> x' < (cols c + 1) * 9 \<Longrightarrow> row_pixel c (y', x') < x + (y + 13) * screen_w c"
proof -
  note b = screen_ok_bounds [OF assms(1)]
  have c9: "(cols c + 1) * 9 \<le> 2 * screen_w c" using b(1,7) by simp
  have x: "x < 2 * screen_w c" using assms(3) c9 by linarith
  have y: "y + 1 < rows c * 13" "y + 13 < rows c * 13" using assms(2) b(4) by (cases "rows c"; simp)+
  have "x + y * screen_w c < (y + 2) * screen_w c" using x by (simp add: algebra_simps)
  also have "\<dots> \<le> screen_h c * screen_w c" using y(1) b(2) by (intro mult_right_mono) auto
  finally show "row_pixel c (y, x) < screen_w c * screen_h c" by (simp add: row_pixel_def mult.commute)
  have "(y + 13) * screen_w c \<le> screen_h c * screen_w c" using y(2) b(2) by (intro mult_right_mono) auto
  then have "(y + 13) * screen_w c < 2 ^ 32"
    using screen_bound [of c] mult.commute [of "screen_h c" "screen_w c"] by linarith
  then show "x + (y + 13) * screen_w c < 2 ^ 40" using x u16_lt [of "width (vbe_info c)"] by simp
  assume y': "y' \<le> y" and x': "x' < (cols c + 1) * 9"
  have "x' < 2 * screen_w c" using x' c9 by linarith
  then have "x' + y' * screen_w c < (y' + 13) * screen_w c" by (simp add: algebra_simps)
  also have "\<dots> \<le> (y + 13) * screen_w c" using y' by (intro mult_right_mono) auto
  finally show "row_pixel c (y', x') < x + (y + 13) * screen_w c" by (simp add: row_pixel_def)
qed

lemma scroll_pixel_paints:
  assumes ok: "screen_ok c" and y: "y < (rows c - 1) * 13" and x: "x < (cols c + 1) * 9"
    and S: "S = row_pixel c ` ({..<y} \<times> {..<(cols c + 1) * 9} \<union> {y} \<times> {..<x})"
    and d: "paints c S (scroll_value c) d"
  shows "paints c (insert (row_pixel c (y, x)) S) (scroll_value c) (scroll_pixel (of_nat y) (of_nat x) d)"
proof -
  note bd = scroll_bounds [OF ok y x]
  have s: "vbe_info d = vbe_info c" using paints_setup [OF d] by simp
  let ?k = "row_pixel c (y, x)" and ?l = "x + (y + 13) * screen_w c"
  have low: "of_nat x + (of_nat y + of_nat FONT_HEIGHT) * ucast (width (vbe_info c)) = (of_nat ?l :: u64)"
    by (simp add: FONT_HEIGHT_def)
  have k: "of_nat x + of_nat y * ucast (width (vbe_info c)) = (of_nat ?k :: u64)" by (simp add: row_pixel_def)
  have r: "scroll_pixel (of_nat y) (of_nat x) d = set_backbuffer (of_nat ?k)
      (if bb d ?l = TEXT_COLOR then TEXT_COLOR else bg d ?k) d"
    unfolding scroll_pixel_def Let_def s low k by (simp only: bb_def bg_def)
  show ?thesis
    unfolding r
  proof (rule paints_set [OF d bd(1)])
    assume ap: "buffers_apart c"
    have "?l \<notin> S"
    proof
      assume "?l \<in> S"
      then obtain y' x' where p: "(y', x') \<in> {..<y} \<times> {..<(cols c + 1) * 9} \<union> {y} \<times> {..<x}"
        and l: "?l = row_pixel c (y', x')"
        unfolding S by blast
      have "y' \<le> y" "x' < (cols c + 1) * 9" using p x by auto
      then show False using bd(3) [of y' x'] l by simp
    qed
    then have "bb d ?l = bb c ?l" using d ap bd(2) by (simp add: paints_def)
    moreover have "?l = ?k + 13 * screen_w c" by (simp add: row_pixel_def algebra_simps)
    moreover have "bg d ?k = bg c ?k" using d ap bd(1) by (simp add: paints_def)
    ultimately show "(if bb d ?l = TEXT_COLOR then TEXT_COLOR else bg d ?k) = scroll_value c ?k"
      by (simp add: scroll_value_def)
  qed
qed

lemma clear_pixel_paints:
  assumes ok: "screen_ok c" and y: "y < 13" and x: "x < cols c * 9" and d: "paints c S (bg c) d"
  shows "paints c (insert (last_row_pixel c (y, x)) S) (bg c) (clear_pixel (of_nat y) (of_nat x) d)"
proof -
  note ci = clear_index [OF ok x y]
  let ?k = "last_row_pixel c (y, x)"
  have s: "vbe_info d = vbe_info c" "vga d = vga c" using paints_setup [OF d] by simp_all
  have k: "?k = x + ((rows c - 1) * 13 + y) * screen_w c" by (simp add: last_row_pixel_def)
  have r: "clear_pixel (of_nat y) (of_nat x) d = set_backbuffer (of_nat ?k) (bg d ?k) d"
    unfolding clear_pixel_def Let_def s ci(1) k by (simp only: bg_def)
  show ?thesis
    unfolding r
  proof (rule paints_set [OF d])
    show "?k < screen_w c * screen_h c" using ci(2) k by simp
    then show "buffers_apart c \<Longrightarrow> bg d ?k = bg c ?k" using d by (simp add: paints_def)
  qed
qed

lemma scrollUp_paints:
  assumes "screen_ok c"
  obtains d where "paints c (row_pixel c ` ({..<(rows c - 1) * 13} \<times> {..<(cols c + 1) * 9})) (scroll_value c) d"
    "paints d (last_row_pixel c ` ({..<13} \<times> {..<cols c * 9})) (bg d) (scrollUp c)"
proof -
  let ?d = "for_upto ((rows c - 1) * 13) (\<lambda>y. for_upto ((cols c + 1) * 9) (scroll_pixel y)) c"
  have 1: "paints c (row_pixel c ` ({..<(rows c - 1) * 13} \<times> {..<(cols c + 1) * 9})) (scroll_value c) ?d"
    using assms by (intro nested_loop scroll_pixel_paints)
  then have ok: "screen_ok ?d" and s: "vga ?d = vga c" "last_row_pixel ?d = last_row_pixel c"
    using paints_ok [OF 1] paints_setup [OF 1] assms by (simp_all add: last_row_pixel_def)
  have "paints ?d (last_row_pixel ?d ` ({..<13} \<times> {..<cols ?d * 9})) (bg ?d)
      (for_upto 13 (\<lambda>y. for_upto (cols ?d * 9) (clear_pixel y)) ?d)"
    using ok by (intro nested_loop clear_pixel_paints)
  moreover have "scrollUp c = for_upto 13 (\<lambda>y. for_upto (cols ?d * 9) (clear_pixel y)) ?d"
    unfolding scrollUp_def Let_def unat_cells [OF assms] using unat_cells(2) [OF ok] s
    by (simp add: FONT_HEIGHT_def)
  ultimately show ?thesis using that [OF 1] s by simp
qed

lemma scrollUp_draws:
  assumes "screen_ok c"
  shows "draws c (scrollUp c)" "vga (scrollUp c) = vga c" "port_log (scrollUp c) = port_log c"
proof -
  obtain d where d: "draws c d" "vga d = vga c" "port_log d = port_log c"
    "draws d (scrollUp c)" "vga (scrollUp c) = vga d" "port_log (scrollUp c) = port_log d"
    using scrollUp_paints [OF assms] unfolding paints_def by metis
  then show "draws c (scrollUp c)" "vga (scrollUp c) = vga c" "port_log (scrollUp c) = port_log c"
    using draws_trans by auto
qed

section \<open>The cursor\<close>

text \<open>The cursor may be one past the last column or row before it is brought back into range.\<close>

definition cursor_near :: "console \<Rightarrow> bool" where
  "cursor_near c \<longleftrightarrow> screen_ok c \<and> cursorX (vga c) \<le> colMax (vga c) \<and> cursorY (vga c) \<le> rowMax (vga c)"

lemma ensureCursorInRange_inv:
  assumes "cursor_near c"
  shows "console_inv (ensureCursorInRange c)" "draws c (ensureCursorInRange c)"
    "port_log (ensureCursorInRange c) = port_log c"
proof -
  define d where "d = (if cursorX (vga c) \<ge> colMax (vga c)
    then c\<lparr>vga := (vga c)\<lparr>cursorX := 0, cursorY := cursorY (vga c) + 1\<rparr>\<rparr> else c)"
  have ok: "screen_ok c" using assms by (simp add: cursor_near_def)
  note b = screen_ok_bounds [OF ok]
  have pos: "0 < colMax (vga c)" "0 < rowMax (vga c)" using b(3,4) by (simp_all add: word_less_nat_alt)
  have d: "draws c d" "port_log d = port_log c" by (simp_all add: draws_cursor d_def)
  then have okd: "screen_ok d" and s: "rowMax (vga d) = rowMax (vga c)" "colMax (vga d) = colMax (vga c)"
    using ok draws_screen_ok [OF d(1)] by (simp_all add: draws_def same_setup_def)
  have cx: "cursorX (vga d) < colMax (vga c)" using pos by (auto simp: d_def)
  have e: "ensureCursorInRange c = (if cursorY (vga d) \<ge> rowMax (vga d)
      then (scrollUp d)\<lparr>vga := (vga (scrollUp d))\<lparr>cursorX := 0, cursorY := rowMax (vga (scrollUp d)) - 1\<rparr>\<rparr>
      else d)"
    by (simp only: ensureCursorInRange_def Let_def d_def)
  have "rowMax (vga c) - 1 < rowMax (vga c)"
    using b(4) by (simp add: word_less_nat_alt unat_sub_if')
  note last = this
  have oks: "screen_ok (scrollUp d)" using okd draws_screen_ok [OF scrollUp_draws(1) [OF okd]] by blast
  have vs: "rowMax (vga (scrollUp d)) = rowMax (vga c)" "colMax (vga (scrollUp d)) = colMax (vga c)"
    using scrollUp_draws(2) [OF okd] s by simp_all
  show "console_inv (ensureCursorInRange c)"
  proof (cases "cursorY (vga d) \<ge> rowMax (vga d)")
    case True
    have "console_inv (x\<lparr>vga := (vga x)\<lparr>cursorX := 0, cursorY := rowMax (vga x) - 1\<rparr>\<rparr>)"
      if "screen_ok x" "rowMax (vga x) = rowMax (vga c)" "colMax (vga x) = colMax (vga c)" for x
      using that last pos by (simp add: console_inv_def screen_ok_def)
    from this [OF oks vs] show ?thesis using True by (simp only: e if_True)
  next
    case False
    then show ?thesis using okd cx s by (simp add: e console_inv_def)
  qed
  show "draws c (ensureCursorInRange c)"
    unfolding e using d(1) draws_trans [OF d(1) scrollUp_draws(1) [OF okd]] draws_cursor(1) draws_trans by presburger
  show "port_log (ensureCursorInRange c) = port_log c"
    unfolding e using d(2) scrollUp_draws(3) [OF okd] by simp
qed

text \<open>\<open>keeps c d\<close>: drawing from \<open>c\<close> to \<open>d\<close> has kept the cursor in range.\<close>

definition keeps :: "console \<Rightarrow> console \<Rightarrow> bool" where
  "keeps c d \<longleftrightarrow> console_inv d \<and> draws c d"

lemma keeps_refl: "console_inv c \<Longrightarrow> keeps c c"
  by (simp add: keeps_def)

lemma keeps_trans: "keeps c d \<Longrightarrow> keeps d e \<Longrightarrow> keeps c e"
  unfolding keeps_def using draws_trans by blast

lemma keeps_port: "console_inv c \<Longrightarrow> keeps c (c\<lparr>port_log := l\<rparr>)"
  by (simp add: keeps_def draws_cursor console_inv_def screen_ok_def)

lemma keeps_ensure: "draws c d \<Longrightarrow> cursor_near d \<Longrightarrow> keeps c (ensureCursorInRange d)"
  using ensureCursorInRange_inv [of d] draws_trans unfolding keeps_def by blast

lemma inv_near: "console_inv c \<Longrightarrow> cursor_near c"
  by (auto simp: console_inv_def cursor_near_def)

lemma keeps_ensure_inv: "keeps c d \<Longrightarrow> keeps c (ensureCursorInRange d)"
  using keeps_ensure [of c d] inv_near by (simp add: keeps_def)

lemma keeps_render: "console_inv c \<Longrightarrow> keeps c (render ch c)"
  using render_paints [of c ch] paints_inv by (auto simp: keeps_def paints_def)

lemma for_upto_keeps:
  assumes "console_inv c" "\<And>i d. console_inv d \<Longrightarrow> keeps d (f i d)"
  shows "keeps c (for_upto n f c)"
  by (rule for_upto_keep [where P = "keeps c"])
     (use assms in \<open>auto intro: draws_trans simp: keeps_def\<close>)

lemma cursor_step: "(x :: u32) < y \<Longrightarrow> x + 1 \<le> y"
  by (rule inc_le)

lemma cursor_back: "(x :: u32) < y \<Longrightarrow> x \<noteq> 0 \<Longrightarrow> x - 1 < y"
  using unat_gt_0 [of x] by (simp add: word_less_nat_alt unat_sub_if')

text \<open>Where a backspace puts the cursor, and the cursor after the other movements.\<close>

definition backspace :: "console \<Rightarrow> console" where
  "backspace d = (if cursorX (vga d) = 0 then
        (if cursorY (vga d) \<noteq> 0
         then d\<lparr>vga := (vga d)\<lparr>cursorY := cursorY (vga d) - 1, cursorX := colMax (vga d) - 1\<rparr>\<rparr> else d)
      else d\<lparr>vga := (vga d)\<lparr>cursorX := cursorX (vga d) - 1\<rparr>\<rparr>)"

lemma keeps_backspace:
  assumes "console_inv d"
  shows "keeps d (backspace d)" "port_log (backspace d) = port_log d"
proof -
  have lt: "screen_ok d" "cursorX (vga d) < colMax (vga d)" "cursorY (vga d) < rowMax (vga d)"
    using assms by (simp_all add: console_inv_def)
  then have "colMax (vga d) - 1 < colMax (vga d)"
    by (simp add: screen_ok_def word_less_nat_alt unat_sub_if')
  then show "keeps d (backspace d)"
    using lt cursor_back [OF lt(2)] cursor_back [OF lt(3)] assms draws_cursor
    by (auto simp: backspace_def keeps_def console_inv_def screen_ok_def)
  show "port_log (backspace d) = port_log d" by (simp add: backspace_def)
qed

lemma near_cursor:
  assumes "console_inv e"
  shows "cursor_near (e\<lparr>vga := (vga e)\<lparr>cursorX := 0\<rparr>\<rparr>)"
    "cursor_near (e\<lparr>vga := (vga e)\<lparr>cursorX := 0, cursorY := cursorY (vga e) + 1\<rparr>\<rparr>)"
    "cursor_near (e\<lparr>vga := (vga e)\<lparr>cursorX := cursorX (vga e) + 1\<rparr>\<rparr>)"
  using assms cursor_step by (auto simp: cursor_near_def console_inv_def screen_ok_def)

lemma putChar_body_keeps:
  assumes "console_inv c" "\<And>c. console_inv c \<Longrightarrow> keeps c (f (of_char CHR '' '') c)"
  shows "keeps c (putChar_body f ch c)"
proof -
  define d where "d = c\<lparr>port_log := outb 0x3F8 ch (port_log c)\<rparr>"
  have d: "keeps c d" "console_inv d" using keeps_port [OF assms(1)] by (simp_all add: d_def keeps_def)
  note bsp = keeps_backspace(1) [OF d(2)]
  have bs: "keeps c (ensureCursorInRange (render sp (backspace d)))" for sp
    using bsp by (intro keeps_ensure_inv keeps_trans [OF keeps_trans [OF d(1) bsp]] keeps_render) (simp add: keeps_def)
  have tab: "keeps c (ensureCursorInRange (for_upto n (\<lambda>_. f (of_char CHR '' '')) d))" for n
    by (intro keeps_ensure_inv keeps_trans [OF d(1)] for_upto_keeps d(2) assms(2))
  have r: "keeps c (render ch d)" using keeps_trans [OF d(1) keeps_render [OF d(2)]] .
  have gl: "keeps c (ensureCursorInRange ((render ch d)\<lparr>vga := (vga (render ch d))\<lparr>cursorX := cursorX (vga (render ch d)) + 1\<rparr>\<rparr>))"
    using r by (intro keeps_ensure [OF draws_trans [OF _ draws_cursor(2)] near_cursor(3)]) (simp_all add: keeps_def)
  have cr: "keeps c (ensureCursorInRange (d\<lparr>vga := (vga d)\<lparr>cursorX := 0\<rparr>\<rparr>))"
    "keeps c (ensureCursorInRange (d\<lparr>vga := (vga d)\<lparr>cursorX := 0, cursorY := cursorY (vga d) + 1\<rparr>\<rparr>))"
    using d by (intro keeps_ensure [OF draws_trans [OF _ draws_cursor(2)] near_cursor(1)]
        keeps_ensure [OF draws_trans [OF _ draws_cursor(1)] near_cursor(2)]; simp add: keeps_def)+
  show ?thesis
    unfolding putChar_body_def Let_def d_def [symmetric] backspace_def [symmetric]
    using d(1) cr bs tab gl by simp
qed

lemma putChar_keeps: "console_inv c \<Longrightarrow> keeps c (putChar ch c)"
proof -
  have "keeps c (putChar_body (\<lambda>_ c. c) ch' c)" if "console_inv c" for c ch'
    by (rule putChar_body_keeps [OF that keeps_refl])
  then show "console_inv c \<Longrightarrow> keeps c (putChar ch c)"
    using putChar_body_keeps [of c "putChar_body (\<lambda>_ c. c)" ch] by (simp add: putChar_def)
qed

lemma fold_putChar_keeps: "console_inv c \<Longrightarrow> keeps c (fold putChar t c)"
proof (induction t arbitrary: c)
  case (Cons ch t)
  have "keeps c (putChar ch c)" using Cons.prems by (rule putChar_keeps)
  then show ?case using Cons.IH [of "putChar ch c"] keeps_trans by (auto simp: keeps_def)
qed (simp add: keeps_refl)

lemma print_text_keeps: "console_inv c \<Longrightarrow> keeps c (print_text t c)"
  by (simp add: print_text_def fold_putChar_keeps)

section \<open>The serial line\<close>

lemma port_log_render: "console_inv c \<Longrightarrow> port_log (render ch c) = port_log c"
  using render_paints [of c ch] by (simp add: paints_def)

lemma putChar_serial:
  assumes "vga_ready c \<longrightarrow> console_inv c" "ch \<noteq> of_char CHR 0x09"
  shows "port_log (putChar ch c) = Out 0x3F8 ch # port_log c"
proof (cases "vga_ready c")
  case False
  then show ?thesis by (simp add: putChar_def putChar_body_def outb_def Let_def)
next
  case True
  define d where "d = c\<lparr>port_log := outb 0x3F8 ch (port_log c)\<rparr>"
  have d: "console_inv d" "port_log d = Out 0x3F8 ch # port_log c" "vga_ready d"
    using assms(1) True keeps_port [of c] by (simp_all add: d_def keeps_def outb_def)
  have b: "console_inv (backspace d)" using keeps_backspace(1) [OF d(1)] by (simp add: keeps_def)
  have r: "console_inv (render ch d)" "console_inv (render (of_char CHR '' '') (backspace d))"
    using keeps_render [OF d(1)] keeps_render [OF b] by (simp_all add: keeps_def)
  note en = ensureCursorInRange_inv(3)
  show ?thesis
    unfolding putChar_def putChar_body_def [of "putChar_body (\<lambda>_ c. c)"] Let_def
      d_def [symmetric] backspace_def [symmetric]
    using assms(2) d en [OF near_cursor(1) [OF d(1)]] en [OF near_cursor(2) [OF d(1)]]
      en [OF near_cursor(3) [OF r(1)]] en [OF inv_near [OF r(2)]] port_log_render [OF d(1)]
      port_log_render [OF b] keeps_backspace(2) [OF d(1)]
    by simp
qed

section \<open>Copying to the frame buffer\<close>

lemma copy_blocks_apply:
  assumes "\<And>j. j < 128 * n \<Longrightarrow> \<not> in_range dst (128 * n) (src + of_nat j)" "128 * n \<le> 2 ^ 63"
  shows "copy_blocks n dst src p a = (if unat (a - dst) < 128 * n then p (src + (a - dst)) else p a)"
  using assms
proof (induction n arbitrary: dst src p)
  case 0
  then show ?case by simp
next
  case (Suc n)
  let ?q = "copy_block dst src p"
  have far: "unat (a - (dst + 128)) = unat (a - dst) - 128" if "128 \<le> unat (a - dst)"
    using that by (simp add: diff_diff_eq [symmetric] unat_sub_if' word_le_nat_alt)
  have near: "unat (a - (dst + 128)) \<ge> 2 ^ 64 - 128" if "unat (a - dst) < 128"
    using that by (simp add: diff_diff_eq [symmetric] unat_sub_if' word_le_nat_alt)
  have IH: "copy_blocks n (dst + 128) (src + 128) ?q a
      = (if unat (a - (dst + 128)) < 128 * n then ?q (src + 128 + (a - (dst + 128))) else ?q a)"
  proof (rule Suc.IH)
    fix j assume j: "j < 128 * n"
    have "\<not> in_range dst (128 * Suc n) (src + of_nat (j + 128))" using Suc.prems(1) [of "j + 128"] j by simp
    then show "\<not> in_range (dst + 128) (128 * n) (src + 128 + of_nat j)"
      using in_range_inner [of dst 128 "128 * n" _ "128 * Suc n"] Suc.prems(2) by (auto simp: algebra_simps)
  qed (use Suc.prems in simp)
  have "?q (src + (a - dst)) = p (src + (a - dst))" if "128 \<le> unat (a - dst)" "unat (a - dst) < 128 * Suc n"
  proof -
    have "\<not> in_range dst (128 * Suc n) (src + of_nat (unat (a - dst)))" using Suc.prems(1) that by blast
    then show ?thesis by (auto simp: in_range_def copy_block_def)
  qed
  then show ?case
    using IH far near Suc.prems(2)
    by (cases "unat (a - dst) < 128"; cases "unat (a - dst) < 128 * Suc n") (auto simp: copy_block_def)
qed

lemma not_ready_putChar: "\<not> vga_ready c \<Longrightarrow> putChar ch c = c\<lparr>port_log := Out 0x3F8 ch # port_log c\<rparr>"
  by (simp add: putChar_def putChar_body_def outb_def)

lemma putChar_ready: "vga_ready c \<longrightarrow> console_inv c \<Longrightarrow> vga_ready (putChar ch c) = vga_ready c
    \<and> (vga_ready (putChar ch c) \<longrightarrow> console_inv (putChar ch c))"
  using putChar_keeps [of c ch] not_ready_putChar [of c ch]
  by (cases "vga_ready c") (auto simp: keeps_def draws_def same_setup_def)

lemma fold_putChar_serial:
  assumes "vga_ready c \<longrightarrow> console_inv c" "of_char CHR 0x09 \<notin> set t"
  shows "port_log (fold putChar t c) = rev (map (Out 0x3F8) t) @ port_log c"
  using assms
proof (induction t arbitrary: c)
  case (Cons ch t)
  then show ?case using putChar_ready [of c ch] putChar_serial [of c ch] by auto
qed simp

lemma print_buffer_cstr: "cstr m p xs \<Longrightarrow> print_buffer m p c = Some (fold putChar xs c)"
proof (induction xs arbitrary: p c)
  case Nil
  then show ?case by (subst print_buffer.simps) simp
next
  case (Cons x xs)
  then show ?case by (subst print_buffer.simps) simp
qed

lemma cstr_put_takeWhile:
  assumes "length T + 1 < 2 ^ 64"
  shows "cstr (put m p (T @ [0])) p (takeWhile (\<lambda>x. x \<noteq> 0) T)"
proof -
  let ?xs = "takeWhile (\<lambda>x. x \<noteq> 0) T"
  have le: "length ?xs \<le> length T" by (rule length_takeWhile_le)
  have at: "put m p (T @ [0]) (p + of_nat i) = (T @ [0]) ! i" if "i \<le> length T" for i
    using put_same [of "T @ [0]" i m p] assms that by simp
  have "(T @ [0]) ! length ?xs = 0"
  proof (cases "length ?xs < length T")
    case True
    then show ?thesis using nth_length_takeWhile [of "\<lambda>x. x \<noteq> 0" T] by (simp add: nth_append)
  next
    case False
    then show ?thesis using le by (simp add: nth_append)
  qed
  moreover have "(T @ [0]) ! i = ?xs ! i \<and> ?xs ! i \<noteq> 0" if "i < length ?xs" for i
  proof -
    have "?xs ! i \<in> set ?xs" using that by simp
    then have "?xs ! i \<noteq> 0" using set_takeWhileD by fastforce
    then show ?thesis using that le by (simp add: nth_append takeWhile_nth)
  qed
  ultimately show ?thesis using at le by (simp add: cstr_iff_nth)
qed

section \<open>Properties\<close>

text \<open>A small screen of two by two characters.\<close>

definition sample_console :: console where
  "sample_console =
     \<lparr>port_log = [], vga = \<lparr>rowMax = 2, colMax = 2, cursorX = 1, cursorY = 1\<rparr>,
      vbe_info = \<lparr>width = 18, height = 26, bpp = 32, physical_buffer = 0xfd000000, bytes_per_pixel = 4,
        bytes_per_line = 72, x_cur_max = 2, y_cur_max = 2\<rparr>,
      FRAMEBUFFER = 0x30000, BACKBUFFER = 0x10000, BACKGROUND = 0x20000, vga_ready = True,
      fb_size = 1872, pixels = (\<lambda>_. 0), around_font = (\<lambda>_. 0)\<rparr>"

lemma sample_console_inv: "console_inv sample_console"
  by (simp add: console_inv_def screen_ok_def sample_console_def FONT_WIDTH_def FONT_HEIGHT_def)

lemma sample_console_apart: "buffers_apart sample_console"
proof -
  have "0x10000 + 4 * of_nat k \<noteq> 0x20000 + 4 * (of_nat j :: u64)" if "k < 468" "j < 468" for k j
  proof
    assume e: "0x10000 + 4 * of_nat k = 0x20000 + 4 * (of_nat j :: u64)"
    have u: "unat (4 * of_nat n :: u64) = 4 * n" if "n < 468" for n
      using unat64_mult [of 4 "of_nat n"] unat64_of_nat [of n] that by simp
    have "unat (0x10000 + 4 * of_nat k :: u64) = 0x10000 + 4 * k"
      "unat (0x20000 + 4 * of_nat j :: u64) = 0x20000 + 4 * j"
      using unat64_add [of "0x10000" "4 * of_nat k"] unat64_add [of "0x20000" "4 * of_nat j"]
        u [OF that(1)] u [OF that(2)] that by simp_all
    then show False using e that by simp
  qed
  then show ?thesis by (simp add: buffers_apart_def sample_console_def)
qed

text \<open>
  C22: whatever bytes are printed, control characters and scrolling included, the cursor stays on
  the screen and the only memory that changes is the back buffer.
\<close>

theorem print_text_safe:
  assumes "console_inv c"
  shows "console_inv (print_text t c) \<and> same_setup c (print_text t c)
    \<and> (\<forall>a. in_backbuffer c a \<or> pixels (print_text t c) a = pixels c a)"
  using print_text_keeps [OF assms, of t] by (simp add: keeps_def draws_def)

theorem print_text_safe_witness:
  "console_inv (print_text (map of_char (CHR 0x0A # CHR 0x08 # ''abcdefgh'')) sample_console)"
  using print_text_safe [OF sample_console_inv, of "map of_char (CHR 0x0A # CHR 0x08 # ''abcdefgh'')"] by blast

text \<open>
  C23: scrolling moves the text up by one line of characters: every pixel above the last line takes
  the text of the pixel 13 rows below it and shows the background elsewhere, and the last line
  is cleared to the background.
\<close>

theorem scrollUp_correct:
  assumes "screen_ok c" "buffers_apart c" "x < cols c * 9"
  shows "(y < (rows c - 1) * 13 \<longrightarrow> bb (scrollUp c) (x + y * screen_w c)
            = (if bb c (x + (y + 13) * screen_w c) = TEXT_COLOR then TEXT_COLOR else bg c (x + y * screen_w c)))
    \<and> ((rows c - 1) * 13 \<le> y \<longrightarrow> y < rows c * 13 \<longrightarrow>
          bb (scrollUp c) (x + y * screen_w c) = bg c (x + y * screen_w c))"
proof -
  let ?W = "screen_w c" and ?k = "x + y * screen_w c"
  note b = screen_ok_bounds [OF assms(1)]
  have x: "x < ?W" using assms(3) b(1) by linarith
  obtain d where d: "paints c (row_pixel c ` ({..<(rows c - 1) * 13} \<times> {..<(cols c + 1) * 9})) (scroll_value c) d"
    "paints d (last_row_pixel c ` ({..<13} \<times> {..<cols c * 9})) (bg d) (scrollUp c)"
    using scrollUp_paints [OF assms(1)] .
  have su: "vbe_info d = vbe_info c" "vga d = vga c" using paints_setup [OF d(1)] by simp_all
  have ap: "buffers_apart d"
    using assms(2) d(1) by (simp add: paints_def draws_def same_setup_def buffers_apart_def)
  have small: "?k < 2 ^ 40" "?k < ?W * screen_h c" if "y < rows c * 13"
    using cell_index [OF assms(3) that b(1,2)] screen_bound [of c] by simp_all
  have d1: "bb d ?k = (if ?k \<in> row_pixel c ` ({..<(rows c - 1) * 13} \<times> {..<(cols c + 1) * 9})
      then scroll_value c ?k else bb c ?k)" "bg d ?k = bg c ?k" if "y < rows c * 13"
    using d(1) assms(2) small [OF that] by (simp_all add: paints_def)
  have d2: "bb (scrollUp c) ?k = (if ?k \<in> last_row_pixel c ` ({..<13} \<times> {..<cols c * 9}) then bg d ?k else bb d ?k)"
    if "y < rows c * 13"
    using d(2) ap small [OF that] by (simp add: paints_def)
  have up: "bb (scrollUp c) ?k = scroll_value c ?k" if y: "y < (rows c - 1) * 13"
  proof -
    have yr: "y < rows c * 13" using y by (rule less_le_trans) simp
    have "?k \<notin> last_row_pixel c ` ({..<13} \<times> {..<cols c * 9})"
    proof
      assume "?k \<in> last_row_pixel c ` ({..<13} \<times> {..<cols c * 9})"
      then obtain y' x' where "x' < cols c * 9" "?k = x' + ((rows c - 1) * 13 + y') * ?W"
        by (auto simp: last_row_pixel_def)
      moreover from this have "x' < ?W" using b(1) by linarith
      ultimately have "?k div ?W = (rows c - 1) * 13 + y'" by simp
      moreover have "?k div ?W = y" using x by simp
      ultimately show False using y by simp
    qed
    moreover have "?k \<in> row_pixel c ` ({..<(rows c - 1) * 13} \<times> {..<(cols c + 1) * 9})"
      using y assms(3) by (intro image_eqI [of _ _ "(y, x)"]) (simp_all add: row_pixel_def)
    ultimately show ?thesis using d1(1) [OF yr] d2 [OF yr] by simp
  qed
  moreover have "x + y * ?W + 13 * ?W = x + (y + 13) * ?W" by (simp add: algebra_simps)
  ultimately have "y < (rows c - 1) * 13 \<longrightarrow> bb (scrollUp c) ?k
      = (if bb c (x + (y + 13) * ?W) = TEXT_COLOR then TEXT_COLOR else bg c ?k)"
    by (simp add: scroll_value_def)
  moreover have "bb (scrollUp c) ?k = bg c ?k" if y: "(rows c - 1) * 13 \<le> y" "y < rows c * 13"
  proof -
    have "?k \<in> last_row_pixel c ` ({..<13} \<times> {..<cols c * 9})"
      using y assms(3) b(4)
      by (intro image_eqI [of _ _ "(y - (rows c - 1) * 13, x)"]) (auto simp: last_row_pixel_def)
    then show ?thesis using d2 [OF y(2)] d1(2) [OF y(2)] by simp
  qed
  ultimately show ?thesis by blast
qed

theorem scrollUp_correct_witness:
  "bb (scrollUp sample_console) 0 = bg sample_console 0"
proof -
  have "screen_ok sample_console" using sample_console_inv by (simp add: console_inv_def)
  moreover have "(0 :: nat) < cols sample_console * 9" "(0 :: nat) < (rows sample_console - 1) * 13"
    "bb sample_console (0 + (0 + 13) * screen_w sample_console) \<noteq> TEXT_COLOR"
    by (simp_all add: sample_console_def bb_def backbuffer_def TEXT_COLOR_def)
  ultimately show ?thesis
    using scrollUp_correct [OF _ sample_console_apart, of 0 0] by auto
qed

lemma printable_sint:
  assumes "unat (ch :: u8) < 127"
  shows "sint ch = int (unat ch)"
proof -
  have "int (unat ch) < 128" "- 128 \<le> int (unat ch)" using assms by linarith+
  then show ?thesis by (simp add: sint_uint signed_take_bit_int_eq_self)
qed

lemma font_byte_printable:
  assumes "32 \<le> unat ch" "unat ch < 127" "l < 13"
  shows "font_byte c ch l = FONT ! (unat ch - 32) ! l"
proof -
  have "sint ch - 32 = int (unat ch - 32)" using printable_sint [OF assms(2)] assms(1) by simp
  then have k: "(sint ch - 32) * int FONT_HEIGHT + int l = int ((unat ch - 32) * 13 + l)"
    by (simp add: FONT_HEIGHT_def)
  have "(unat ch - 32) * 13 + l < 95 * 13" using assms by linarith
  moreover have "nat (int ((unat ch - 32) * 13 + l) div 13) = unat ch - 32"
    "nat (int ((unat ch - 32) * 13 + l) mod 13) = l"
    using assms(3) by (simp_all add: nat_div_distrib nat_mod_distrib)
  ultimately show ?thesis
    unfolding font_byte_def Let_def k by (simp add: FONT_HEIGHT_def)
qed

text \<open>
  C24: rendering a printable character paints exactly its cell: the pixel \<open>(x, y)\<close> of the cell has
  the text colour where the font table has a one (bottom row first, leftmost bit highest) and
  the background elsewhere; all other pixels of the back buffer stay as they were.
\<close>

theorem render_correct:
  assumes "console_inv c" "buffers_apart c" "32 \<le> unat ch" "unat ch < 127"
  shows "(\<forall>x < 9. \<forall>y < 13. bb (render ch c) (cell_pixel c (x, y))
        = (if bit (FONT ! (unat ch - 32) ! (12 - y)) (8 - x) then TEXT_COLOR else bg c (cell_pixel c (x, y))))
    \<and> (\<forall>k < screen_w c * screen_h c. k \<notin> cell_pixel c ` ({..<9} \<times> {..<13}) \<longrightarrow> bb (render ch c) k = bb c k)"
proof -
  have P: "bb (render ch c) k = (if k \<in> cell_pixel c ` ({..<9} \<times> {..<13}) then glyph_value c ch k else bb c k)"
    if "k < screen_w c * screen_h c" for k
    using render_paints [OF assms(1), of ch] assms(2) that screen_bound [of c] by (simp add: paints_def)
  have "bb (render ch c) (cell_pixel c (x, y))
        = (if bit (FONT ! (unat ch - 32) ! (12 - y)) (8 - x) then TEXT_COLOR else bg c (cell_pixel c (x, y)))"
    if xy: "x < 9" "y < 13" for x y
  proof -
    have "cell_pixel c (x, y) < screen_w c * screen_h c"
      using render_index(2) [OF assms(1) xy] by (simp add: cell_pixel_def)
    moreover have "cell_pixel c (x, y) \<in> cell_pixel c ` ({..<9} \<times> {..<13})" using xy by auto
    ultimately have "bb (render ch c) (cell_pixel c (x, y)) = glyph_value c ch (cell_pixel c (x, y))"
      using P by simp
    moreover have "FONT_HEIGHT - y - 1 = 12 - y" "FONT_WIDTH - x - 1 = 8 - x"
      by (simp_all add: FONT_HEIGHT_def FONT_WIDTH_def)
    ultimately show ?thesis
      using font_byte_printable [OF assms(3,4), of "12 - y" c]
      by (simp add: glyph_value_def cell_pixel_divmod [OF assms(1) xy(1)] glyph_lit_def)
  qed
  then show ?thesis using P by simp
qed

theorem render_correct_witness:
  "bb (render (of_char CHR ''!'') sample_console) (cell_pixel sample_console (4, 0)) = TEXT_COLOR"
proof -
  have "bit (FONT ! 1 ! 12) 4" by (simp add: FONT_def numeral_eq_Suc)
  then show ?thesis
    using render_correct [OF sample_console_inv sample_console_apart, of "of_char CHR ''!''"] by simp
qed

text \<open>
  C25: the routine \<open>log\<close> with its buffer of 512 bytes: when the format and the string arguments lie
  outside the buffer and the expansion fits, it returns, changes memory in the buffer only, and
  leaves the console as the list specification of \<open>log\<close> says.
\<close>

theorem log_buffer_correct:
  assumes "cstr m fmt (map of_char f)" "format_text (map of_char f) as = Some T"
    and "args_stored m buffer 512 (gp arg) as" "clear_of buffer 512 fmt (length f)" "length T < 512"
  shows "\<exists>m'. log_buffer D tmp m buffer fmt arg c = Some (m', log f as c)
    \<and> (\<forall>b. \<not> in_range buffer 512 b \<longrightarrow> m' b = m b)"
proof -
  let ?m = "put m buffer (T @ [0])"
  have "vsprintf D tmp m buffer fmt arg = Some ?m"
    using vsprintf_format_text [OF assms(2,1) _ assms(3), of 0 D tmp] assms(4,5) by simp
  moreover have "cstr ?m buffer (takeWhile (\<lambda>x. x \<noteq> 0) T)" using assms(5) by (intro cstr_put_takeWhile) simp
  ultimately have "log_buffer D tmp m buffer fmt arg c = Some (?m, log f as c)"
    by (simp add: log_buffer_def print_buffer_cstr log_def assms(2) print_text_def)
  moreover have "?m b = m b" if "\<not> in_range buffer 512 b" for b
    using put_inside [of 0 "T @ [0]" 512 buffer b m] assms(5) that by simp
  ultimately show ?thesis by blast
qed

theorem log_buffer_correct_witness:
  "\<exists>m'. log_buffer integer_ops 0 sample_format 0 4096 \<lparr>gp = [0x200000], fp = []\<rparr> sample_console
     = Some (m', log ''[%p]'' [Num 0x200000] sample_console)"
proof -
  have c: "cstr sample_format 4096 (map of_char ''[%p]'')" by (simp add: sample_format_def)
  have f: "format_text (map of_char ''[%p]'') [Num 0x200000] = Some (map of_char ''[0x200000]'')"
    by (simp add: directive_of_def itoa_text_def digits.simps digit_char_def)
  have "unat (4096 + of_nat i :: u64) = 4096 + i" if "i \<le> 4" for i
    using unat64_add [of 4096 "of_nat i"] unat64_of_nat [of i] that by simp
  then have cl: "clear_of 0 512 4096 (length ''[%p]'')" by (simp add: clear_of_def in_range_def)
  have "args_stored sample_format 0 512 (gp \<lparr>gp = [0x200000], fp = [] :: int list\<rparr>) [Num 0x200000]" by simp
  from log_buffer_correct [OF c f this cl, of integer_ops 0 sample_console] show ?thesis by auto
qed

text \<open>
  before the screen is ready and after, a text without tabs and NULs reaches the serial port
  unchanged and in order.
\<close>

lemma log_serial:
  assumes "vga_ready c \<longrightarrow> console_inv c" "format_text (map of_char f) as = Some t"
    and "0 \<notin> set t" "of_char CHR 0x09 \<notin> set t"
  shows "port_log (log f as c) = rev (map (Out 0x3F8) t) @ port_log c"
proof -
  have t: "takeWhile (\<lambda>x. x \<noteq> 0) t = t" using assms(3) by (auto simp: takeWhile_eq_all_conv)
  show ?thesis
    using fold_putChar_serial [OF assms(1,4)]
    by (simp add: log_def print_text_def swapBuffers_def assms(2) t del: takeWhile_eq_all_conv)
qed

text \<open>
  \<open>swapBuffers\<close> makes the frame buffer show the back buffer, for every pixel in the whole
  blocks of 128 bytes of the buffer size, and changes nothing else; the buffers must not
  overlap and hold at least one block.
\<close>

theorem swapBuffers_shows:
  assumes "128 \<le> unat (fb_size c)" "unat (fb_size c) \<le> 2 ^ 63"
    and "\<forall>j < unat (fb_size c). \<not> in_range (FRAMEBUFFER c) (unat (fb_size c)) (BACKBUFFER c + of_nat j)"
  shows "pixels (swapBuffers c) a =
    (if unat (a - FRAMEBUFFER c) < 128 * (unat (fb_size c) div 128)
     then pixels c (BACKBUFFER c + (a - FRAMEBUFFER c)) else pixels c a)"
proof -
  let ?n = "unat (fb_size c) div 128"
  have n: "unat (drop_bit 7 (fb_size c)) = ?n" "?n \<noteq> 0" "128 * ?n \<le> unat (fb_size c)"
    using assms(1) by (simp_all add: drop_bit_eq_div unat_div_distrib)
  have "\<not> in_range (FRAMEBUFFER c) (128 * ?n) (BACKBUFFER c + of_nat j)" if "j < 128 * ?n" for j
  proof -
    have "j < unat (fb_size c)" using that n(3) by linarith
    then show ?thesis using assms(3) n(3) unfolding in_range_def by (meson less_le_trans)
  qed
  then show ?thesis
    using copy_blocks_apply [of ?n "FRAMEBUFFER c" "BACKBUFFER c" "pixels c" a] n assms(2)
    by (simp add: swapBuffers_def kmemcpy_128_def Let_def)
qed

end
