(* ===== verification/Memory.thy ===== *)
theory Memory
  imports Spans_Free Screen
begin

text \<open>
  The heap and the virtual memory manager together. Each provides the interface the other one needs:
  \<open>kmalloc\<close> and \<open>kfree\<close> allocate the nodes of the chain (\<open>node_allocator\<close>), \<open>vmm_mmap\<close> is the page source of
  the heap (\<open>page_source\<close>). The joint invariant \<open>mm_inv\<close> holds after the first request of the boot and is
  kept by the four routines.
\<close>

section \<open>The heap as node allocator\<close>

text \<open>Fuel that is enough for a search of the whole heap.\<close>

definition heap_fuel :: "nat \<Rightarrow> heap_view \<Rightarrow> bool" where
  "heap_fuel n H \<longleftrightarrow> 3 \<le> n \<and> (\<forall>(b, ms)\<in>set H. 2 * length H + length ms + 4 \<le> n)"

definition pointers :: "heap_view \<Rightarrow> u64 set" where
  "pointers H = user_ptr ` set (pieces H)"

definition heap_live :: "nat set \<Rightarrow> mm \<Rightarrow> u64 set \<Rightarrow> bool" where
  "heap_live C s X \<longleftrightarrow> (\<exists>H. heap_inv s H \<and> heap_clear s H C \<and> X \<subseteq> pointers H)"

definition heap_can_malloc :: "nat \<Rightarrow> nat set \<Rightarrow> mm \<Rightarrow> u64 set \<Rightarrow> bool" where
  "heap_can_malloc n C s X \<longleftrightarrow> (\<exists>H. heap_inv s H \<and> heap_clear s H C \<and> X \<subseteq> pointers H
     \<and> \<not> full s H (unat sizeof_free_block + 32) \<and> heap_fuel n H)"

definition heap_can_free :: "nat set \<Rightarrow> mm \<Rightarrow> u64 set \<Rightarrow> u64 \<Rightarrow> bool" where
  "heap_can_free C s X p \<longleftrightarrow> (\<exists>A b as m cs B. heap_inv s (A @ (b, as @ m # cs) # B)
     \<and> heap_clear s (A @ (b, as @ m # cs) # B) C \<and> X \<subseteq> pointers (A @ (b, as @ m # cs) # B)
     \<and> as @ cs \<noteq> [] \<and> p = user_ptr m)"

lemma user_ptr_inj:
  assumes "heap_inv s H" "m \<in> set (pieces H)" "k \<in> set (pieces H)" "user_ptr m = user_ptr k"
  shows "m = k"
  using heap_pieces_disjoint [OF assms(1-3)] piece_bounds [OF assms(1,2)] piece_bounds [OF assms(1,3)]
    user_ptr_unat(1,2) [of m] user_ptr_unat(1,2) [of k] assms(4) by fastforce

lemma heap_truncate:
  assumes "liballoc.truncate s = liballoc.truncate t"
  shows "heap_inv s H \<longleftrightarrow> heap_inv t H" "heap_clear s H C \<longleftrightarrow> heap_clear t H C" "full s H n \<longleftrightarrow> full t H n"
proof -
  note same = truncate_fields [OF assms]
  show "heap_inv s H \<longleftrightarrow> heap_inv t H"
  proof
    show "heap_inv t H" if "heap_inv s H"
      by (rule heap_inv_cong [OF _ _ _ _ _ _ _ that]) (use same that in \<open>auto simp: heap_inv_def\<close>)
    show "heap_inv s H" if "heap_inv t H"
      by (rule heap_inv_cong [OF _ _ _ _ _ _ _ that]) (use same that in \<open>auto simp: heap_inv_def\<close>)
  qed
  have "psize s = psize t" "block_size s = block_size t" by (simp_all add: psize_def block_size_def fun_eq_iff same)
  then show "heap_clear s H C \<longleftrightarrow> heap_clear t H C" "full s H n \<longleftrightarrow> full t H n"
    by (simp_all add: heap_clear_def full_def no_gap_def gap_at_def)
qed

lemma kmalloc_node:
  assumes "heap_can_malloc n C s X"
  shows "\<exists>p s'. exec (Suc n) (Kmalloc sizeof_free_block) s = Some (p, s') \<and> p \<noteq> 0 \<and> p \<notin> X
    \<and> liballoc.more s' = liballoc.more s \<and> heap_live C s' (insert p X)"
proof -
  obtain H where H: "heap_inv s H" "heap_clear s H C" "X \<subseteq> pointers H" "\<not> full s H (unat sizeof_free_block + 32)" "heap_fuel n H"
    using assms by (auto simp: heap_can_malloc_def)
  have "2 * length H \<le> n" "3 \<le> n" using H(5) by (cases H; auto simp: heap_fuel_def)+
  then have "\<exists>p s' H'. kmalloc_body n (liballoc_alloc (exec n)) sizeof_free_block s = Some (p, s') \<and> p \<noteq> 0
      \<and> allocated s H sizeof_free_block p s' H' \<and> heap_clear s' H' C \<and> liballoc.more s' = liballoc.more s"
    by (intro kmalloc_in_gap [OF H(1,2,4), of "n - 2 * length H"])
      (use H(5) in \<open>auto simp: heap_fuel_def sizeof_free_block_def\<close>)
  then obtain p s' H' where p: "exec (Suc n) (Kmalloc sizeof_free_block) s = Some (p, s')" "p \<noteq> 0"
      "allocated s H sizeof_free_block p s' H'" "heap_clear s' H' C" "liballoc.more s' = liballoc.more s" by auto
  obtain new where new: "heap_inv s' H'" "p = user_ptr new" "new \<notin> set (pieces H)" "set (pieces H') = insert new (set (pieces H))"
    using p(3) by (auto simp: allocated_def)
  have "p \<notin> X"
  proof
    assume "p \<in> X"
    then obtain k where "k \<in> set (pieces H)" "user_ptr new = user_ptr k" using H(3) new(2) by (auto simp: pointers_def)
    then show False using user_ptr_inj [OF new(1), of new k] new(3,4) by auto
  qed
  moreover have "insert p X \<subseteq> pointers H'" using H(3) new by (auto simp: pointers_def)
  ultimately show ?thesis using p new(1) by (auto simp: heap_live_def)
qed

lemma kfree_node:
  assumes "heap_can_free C s X p"
  shows "\<exists>s'. map_option snd (exec (Suc n) (Kfree p) s) = Some s' \<and> liballoc.more s' = liballoc.more s \<and> heap_live C s' (X - {p})"
proof -
  obtain A b as m cs B where H: "heap_inv s (A @ (b, as @ m # cs) # B)" "heap_clear s (A @ (b, as @ m # cs) # B) C"
      "X \<subseteq> pointers (A @ (b, as @ m # cs) # B)" "as @ cs \<noteq> []" "p = user_ptr m"
    using assms unfolding heap_can_free_def by blast
  obtain s' where s': "kfree_body (liballoc_free (exec n)) (user_ptr m) s = Some s'" "heap_inv s' (A @ (b, as @ cs) # B)"
      "s' = unlink_minor m s \<or> s' = unlink_minor m s\<lparr>l_bestBet := b\<rparr>"
    using kfree_body_correct(1) [OF H(1,4), of "liballoc_free (exec n)"] by auto
  have "block_size s' c = block_size s c" for c using s'(3) by (auto simp: block_size_def)
  then have "heap_clear s' (A @ (b, as @ cs) # B) C" using H(2) by (auto simp: heap_clear_def)
  moreover have "X - {p} \<subseteq> pointers (A @ (b, as @ cs) # B)" using H(3,5) by (auto simp: pointers_def pieces_def)
  ultimately have "heap_live C s' (X - {p})" using s'(2) unfolding heap_live_def by blast
  moreover have "liballoc.more s' = liballoc.more s" using s'(3) by auto
  ultimately show ?thesis using s'(1) H(5) by simp
qed

interpretation nodes: node_allocator "\<lambda>sz. exec (Suc n) (Kmalloc sz)" "\<lambda>p s. map_option snd (exec (Suc n) (Kfree p) s)"
  "heap_live C" "heap_can_malloc n C" "heap_can_free C" for n C
proof
  fix s t :: mm and X p assume eq: "liballoc.truncate s = liballoc.truncate t"
  note tr = heap_truncate [OF eq]
  show "heap_live C s X \<longleftrightarrow> heap_live C t X" by (simp add: heap_live_def tr)
  show "heap_can_malloc n C s X \<longleftrightarrow> heap_can_malloc n C t X" by (simp add: heap_can_malloc_def tr)
  show "heap_can_free C s X p \<longleftrightarrow> heap_can_free C t X p" by (simp add: heap_can_free_def tr)
qed (rule kmalloc_node kfree_node, assumption)+

section \<open>The manager as page source\<close>

text \<open>
  A chain with nodes among \<open>X\<close>, after the first request of the boot; the null page is never free. The free
  addresses are those of the chain.
\<close>

definition chain_ok :: "u64 set \<Rightarrow> mm \<Rightarrow> u64 list \<Rightarrow> bool" where
  "chain_ok X s xs \<longleftrightarrow> chain_inv s xs \<and> set xs \<subseteq> X \<and> (\<forall>x\<in>set xs. fb_start (blocks s x) \<noteq> 0) \<and> \<not> first_alloc s"

definition free_space :: "u64 set \<Rightarrow> mm \<Rightarrow> nat set" where
  "free_space X s = {a. \<forall>xs. chain_ok X s xs \<longrightarrow> a \<in> free_bytes (map (span s) xs)}"

definition pages_ready :: "nat \<Rightarrow> u64 set \<Rightarrow> u32 \<Rightarrow> mm \<Rightarrow> bool" where
  "pages_ready n X k s \<longleftrightarrow> unat k < 2 ^ 31
     \<and> (\<exists>xs. chain_ok X s xs \<and> length xs < n \<and> (\<forall>x\<in>set xs. unat (fb_pages (blocks s x)) \<noteq> unat k))"

lemma dll_unique: "dll nx pv b p xs \<Longrightarrow> dll nx pv b p ys \<Longrightarrow> xs = ys"
proof (induction xs arbitrary: b p ys)
  case Nil
  then show ?case by (simp add: dll_empty)
next
  case (Cons x xs)
  then show ?case by (cases ys) auto
qed

lemma chain_unique: "chain_ok X s xs \<Longrightarrow> chain_ok Y s ys \<Longrightarrow> xs = ys"
  by (auto simp: chain_ok_def chain_inv_def chain_links_def intro: dll_unique)

lemma free_space_chain: "chain_ok X s xs \<Longrightarrow> free_space X s = free_bytes (map (span s) xs)"
  by (auto simp: free_space_def dest: chain_unique)

text \<open>Where there is no chain every address counts as free; a smaller set of free addresses shows that there is one.\<close>

lemma free_space_subset:
  assumes "free_space X t \<subseteq> free_space X s" "chain_ok X s xs"
  obtains ys where "chain_ok X t ys" "free_bytes (map (span t) ys) \<subseteq> free_bytes (map (span s) xs)"
proof -
  have "0 \<notin> free_bytes (map (span s) xs)"
    using assms(2) by (auto simp: chain_ok_def free_bytes_def span_bytes_def span_def unat_eq_0)
  then have "0 \<notin> free_space X t" using assms free_space_chain by blast
  then obtain ys where "chain_ok X t ys" by (auto simp: free_space_def)
  then show thesis using that [of ys] assms free_space_chain by simp
qed

lemma chain_ok_more: "liballoc.more s = liballoc.more t \<Longrightarrow> chain_ok X s xs \<longleftrightarrow> chain_ok X t xs"
  using more_fields [of s t] chain_inv_cong [of s t xs] by (simp add: chain_ok_def)

lemma span_more: "liballoc.more s = liballoc.more t \<Longrightarrow> span s = span t"
  using more_fields [of s t] by (simp add: span_def fun_eq_iff)

lemma unat_scast_small: "unat (k :: u32) < 2 ^ 31 \<Longrightarrow> unat (scast k :: u64) = unat k"
proof -
  assume k: "unat k < 2 ^ 31"
  have "unat k < 2147483648" using k by simp
  then have "uint k < 2147483648" using uint_nat [of k] by linarith
  moreover have "- 2147483648 \<le> uint k" using unsigned_greater_eq [of k, where 'a = int] by linarith
  ultimately have "sint k = uint k" by (simp add: sint_uint signed_take_bit_int_eq_self_iff)
  then have "scast k = (ucast k :: u64)" by (simp only: scast_eq ucast_eq)
  then show ?thesis by (simp add: unat_ucast64)
qed

interpretation no_nodes: node_allocator malloc free "\<lambda>_ _. True" "\<lambda>_ _. False" "\<lambda>_ _ _. False" for malloc free
  by unfold_locales simp_all

lemma free_bytes_bounds:
  "spaced hi vs \<Longrightarrow> (\<forall>v\<in>set vs. lo \<le> fst v) \<Longrightarrow> a \<in> free_bytes vs \<Longrightarrow> lo \<le> a \<and> a + 1 < hi"
  by (fastforce simp: free_bytes_def spaced_def span_bytes_def)

lemma mmap_pages:
  assumes "pages_ready n X k s" "0 < unat k"
  shows "\<exists>a t. liballoc_alloc (exec (Suc n)) k s = Some (a, t) \<and> liballoc.truncate t = liballoc.truncate s
    \<and> (if a = 0 then free_space X t = free_space X s
       else unat a + 4096 * unat k < 2 ^ 64 \<and> {unat a..<unat a + 4096 * unat k} \<subseteq> free_space X s
         \<and> free_space X t = free_space X s - {unat a..<unat a + 4096 * unat k})"
proof -
  obtain xs where xs: "chain_ok X s xs" "length xs < n" "\<forall>x\<in>set xs. unat (fb_pages (blocks s x)) \<noteq> unat k" and k: "unat k < 2 ^ 31"
    using assms(1) by (auto simp: pages_ready_def)
  define pages :: u64 where "pages = scast k"
  have pages: "unat pages = unat k" unfolding pages_def by (rule unat_scast_small [OF k])
  define malloc :: malloc where "malloc = (\<lambda>sz. exec n (Kmalloc sz))"
  define free :: free where "free = (\<lambda>p s. map_option snd (exec n (Kfree p) s))"
  have run: "liballoc_alloc (exec (Suc n)) k s = vmm_mmap_body n malloc free 0 pages True s"
    by (simp add: liballoc_alloc_def pages_def malloc_def free_def)
  show ?thesis
  proof (cases xs)
    case Nil
    define t where "t = klog (''[VMM] No free space left'' @ nl) [] s"
    have "blockchain s = 0" "\<not> first_alloc s" using xs(1) Nil by (auto simp: chain_ok_def chain_inv_def chain_links_def)
    then have "vmm_mmap_body n malloc free 0 pages True s = Some (0, t)" by (simp add: vmm_mmap_body_def mmap_init_def t_def)
    moreover have "chain_ok X t xs = chain_ok X s xs" "span t = span s" for xs
      using chain_inv_cong [of t s xs] by (simp_all add: chain_ok_def t_def span_def fun_eq_iff)
    ultimately show ?thesis by (simp add: run free_space_def t_def)
  next
    case (Cons x xs')
    have ne: "fb_pages (blocks s x) \<noteq> pages" if "x \<in> set xs" for x using xs(3) that pages by auto
    obtain a t ys where a: "vmm_mmap_body n malloc free 0 pages True s = Some (a, t)" "chain_inv t ys" "set ys \<subseteq> set xs"
        "case take_first (unat pages) (map (span s) xs) of
         None \<Rightarrow> a = 0 \<and> map (span t) ys = map (span s) xs \<and> paging t = paging s
       | Some (r, vs) \<Rightarrow> unat a = r \<and> map (span t) ys = vs
           \<and> paging t = snd (map_loop (unat pages) 0 0 a (span_flags True) (paging s))"
        "first_alloc t = first_alloc s" "liballoc.truncate t = liballoc.truncate s"
      using no_nodes.vmm_mmap_body_refines [of s xs n pages malloc free 0 True] xs Cons assms(2) pages ne
      by (fastforce simp: chain_ok_def)
    have nz: "\<forall>v\<in>set (map (span s) xs). 0 < fst v" using xs(1) by (auto simp: chain_ok_def span_def unat_gt_0)
    have ok: "chain_ok X t ys" if "\<forall>w\<in>set (map (span t) ys). 0 < fst w"
      using that a(2,3,5) xs(1) by (auto simp: chain_ok_def span_def unat_gt_0)
    show ?thesis
    proof (cases "take_first (unat pages) (map (span s) xs)")
      case None
      then have sp: "map (span t) ys = map (span s) xs" "a = 0" using a(4) by auto
      have "chain_ok X t ys" using nz unfolding sp(1) [symmetric] by (rule ok)
      then show ?thesis using a(1,6) free_space_chain [of X t ys] free_space_chain [OF xs(1)] sp by (simp add: run)
    next
      case (Some rv)
      then have tf: "take_first (unat k) (map (span s) xs) = Some (unat a, map (span t) ys)" using a(4) pages by (cases rv) simp
      have sp: "spaced (2 ^ 64) (map (span s) xs)" using xs(1) by (simp add: chain_ok_def chain_inv_def)
      note taken = take_first_spaced [OF sp tf assms(2)]
      have "chain_ok X t ys" by (rule ok) (use taken nz in fastforce)
      note fs = free_space_chain [OF this] free_space_chain [OF xs(1)]
      have b: "span_bytes (unat a, unat k) = {unat a..<unat a + 4096 * unat k}" by (simp add: span_bytes_def span_end_def)
      have "unat a \<in> free_bytes (map (span s) xs)" "unat a + 4096 * unat k - 1 \<in> free_bytes (map (span s) xs)"
        using taken assms(2) by (auto simp: b)
      note in_chain = free_bytes_bounds [OF sp _ this(1)] free_bytes_bounds [OF sp _ this(2)]
      have "unat a + 4096 * unat k < 2 ^ 64 \<and> a \<noteq> 0"
        using in_chain [of 1] nz by (auto simp: Suc_le_eq)
      then show ?thesis using a(1,6) taken b by (simp add: run fs)
    qed
  qed
qed

interpretation mmap_source: page_source "liballoc_alloc (exec (Suc n))" "pages_ready n X" "free_space X" for n X
proof
  fix s t :: mm and k assume eq: "liballoc.more s = liballoc.more t"
  note same = chain_ok_more [OF eq] span_more [OF eq] more_fields(1) [OF eq]
  show "pages_ready n X k s \<longleftrightarrow> pages_ready n X k t" by (simp add: pages_ready_def same)
  show "free_space X s = free_space X t" by (simp add: free_space_def same)
qed (rule mmap_pages)

section \<open>The joint invariant\<close>

definition mm_inv :: "mm \<Rightarrow> heap_view \<Rightarrow> u64 list \<Rightarrow> bool" where
  "mm_inv s H xs \<longleftrightarrow> heap_inv s H \<and> chain_ok (pointers H) s xs \<and> heap_clear s H (free_bytes (map (span s) xs))"

lemma mm_invD:
  assumes "mm_inv s H xs"
  shows "heap_inv s H" "chain_inv s xs" "heap_clear s H (free_bytes (map (span s) xs))" "set xs \<subseteq> pointers H"
    "\<forall>x\<in>set xs. fb_start (blocks s x) \<noteq> 0" "\<not> first_alloc s" "chain_ok (pointers H) s xs"
  using assms by (auto simp: mm_inv_def chain_ok_def)

lemma chain_ok_mono: "chain_ok X s xs \<Longrightarrow> set xs \<subseteq> Y \<Longrightarrow> chain_ok Y s xs"
  by (simp add: chain_ok_def)

lemma heap_clear_mono: "heap_clear s H C \<Longrightarrow> D \<subseteq> C \<Longrightarrow> heap_clear s H D"
  by (fastforce simp: heap_clear_def)

lemma live_mm_inv:
  assumes "heap_live C s (set xs)" "chain_inv s xs" "free_bytes (map (span s) xs) \<subseteq> C" "\<forall>x\<in>set xs. fb_start (blocks s x) \<noteq> 0"
    "\<not> first_alloc s"
  shows "\<exists>H. mm_inv s H xs"
proof -
  obtain H where "heap_inv s H" "heap_clear s H C" "set xs \<subseteq> pointers H" using assms(1) by (auto simp: heap_live_def)
  then show ?thesis using assms heap_clear_mono [of s H C] by (auto simp: mm_inv_def chain_ok_def)
qed

lemma mm_inv_live: "mm_inv s H xs \<Longrightarrow> heap_live (free_bytes (map (span s) xs)) s (set xs)"
  by (auto simp: mm_inv_def heap_live_def chain_ok_def)

text \<open>A node that can be freed without giving its block back: another piece shares the block.\<close>

definition shared :: "heap_view \<Rightarrow> u64 \<Rightarrow> bool" where
  "shared H x \<longleftrightarrow> (\<exists>(b, ms)\<in>set H. 2 \<le> length ms \<and> x \<in> user_ptr ` set ms)"

lemma shared_can_free:
  assumes "heap_inv s H" "heap_clear s H C" "X \<subseteq> pointers H" "shared H x"
  shows "heap_can_free C s X x"
proof -
  obtain b ms m where b: "(b, ms) \<in> set H" "2 \<le> length ms" "m \<in> set ms" "x = user_ptr m"
    using assms(4) by (auto simp: shared_def)
  obtain A B where H: "H = A @ (b, ms) # B" using b(1) by (meson split_list)
  obtain as cs where ms: "ms = as @ m # cs" using b(3) by (meson split_list)
  have "as @ cs \<noteq> []" using b(2) ms by auto
  then show ?thesis using assms(1-3) b(4) unfolding heap_can_free_def H ms by blast
qed

section \<open>The four routines\<close>

lemma kmalloc_keeps:
  assumes inv: "mm_inv s H xs" and req: "unat req_size + 4208 \<le> 2 ^ 32" and fuel: "heap_fuel (Suc n) H"
    and pages: "full s H (unat req_size + 32) \<Longrightarrow> length xs < n
      \<and> (\<forall>x\<in>set xs. unat (fb_pages (blocks s x)) \<noteq> unat (new_page_count (ucast (req_size + 32))))"
  shows "\<exists>p s' H' ys. kmalloc (Suc (Suc n)) req_size s = Some (p, s') \<and> mm_inv s' H' ys
    \<and> free_bytes (map (span s') ys) \<subseteq> free_bytes (map (span s) xs)
    \<and> (if p = 0 then full s H (unat req_size + 32) \<and> H' = H \<and> minors s' = minors s \<and> bytes s' = bytes s
       else allocated s H req_size p s' H')"
proof -
  note inv' = mm_invD [OF inv]
  have space: "free_space (pointers H) s = free_bytes (map (span s) xs)" by (rule free_space_chain [OF inv'(7)])
  have sz: "unat (ucast (req_size + 32) :: u32) = unat req_size + 32"
    using req by (subst unat_ucast32) (simp_all add: unat64_add)
  have small: "unat (new_page_count (ucast (req_size + 32))) < 2 ^ 31"
    using new_page_count_bounds(3) [of "ucast (req_size + 32)"] req sz by simp
  have len: "2 * length H \<le> Suc n" "3 \<le> Suc n" using fuel by (cases H; auto simp: heap_fuel_def)+
  have "\<exists>p s'. kmalloc_body (Suc n) (liballoc_alloc (exec (Suc n))) req_size s = Some (p, s')
      \<and> outcome (free_space (pointers H)) s H req_size p s'"
  proof (rule mmap_source.kmalloc_outcome [where X = "pointers H" and K = "Suc n - 2 * length H"])
    show "heap_clear s H (free_space (pointers H) s)" using inv'(3) by (simp add: space)
    show "pages_ready n (pointers H) (new_page_count (ucast (req_size + 32))) s" if "full s H (unat req_size + 32)"
      using pages [OF that] small inv'(7) by (auto simp: pages_ready_def)
  qed (use inv'(1) req fuel len in \<open>auto simp: heap_fuel_def\<close>)
  then obtain p s' where run: "kmalloc (Suc (Suc n)) req_size s = Some (p, s')"
      and out: "outcome (free_space (pointers H)) s H req_size p s'" by (auto simp: kmalloc_def)
  obtain H' where H': "p = 0 \<and> heap_inv s' H \<and> H' = H \<and> minors s' = minors s \<and> bytes s' = bytes s
      \<or> p \<noteq> 0 \<and> allocated s H req_size p s' H'" "heap_clear s' H' (free_space (pointers H) s')"
      "free_space (pointers H) s' \<subseteq> free_space (pointers H) s"
    using out by (auto simp: outcome_def)
  obtain ys where ys: "chain_ok (pointers H) s' ys" "free_bytes (map (span s') ys) \<subseteq> free_bytes (map (span s) xs)"
    by (rule free_space_subset [OF H'(3) inv'(7)])
  have "heap_inv s' H'" "pointers H \<subseteq> pointers H'" using H'(1) by (auto simp: allocated_def pointers_def)
  then have "mm_inv s' H' ys"
    using ys(1) H'(2) free_space_chain [OF ys(1)] by (auto simp: mm_inv_def chain_ok_def)
  moreover have "p = 0 \<Longrightarrow> full s H (unat req_size + 32)" using out by (auto simp: outcome_def)
  ultimately show ?thesis using run ys(2) H'(1) by (intro exI [of _ p] exI [of _ s'] exI [of _ H'] exI [of _ ys]) auto
qed

lemma take_first_rest:
  assumes "spaced hi vs" "0 < n" "case take_first n vs of None \<Rightarrow> ws = vs | Some (r, us) \<Rightarrow> ws = us"
  shows "free_bytes ws \<subseteq> free_bytes vs" "\<forall>w\<in>set ws. \<exists>v\<in>set vs. fst v \<le> fst w"
proof -
  have "free_bytes ws \<subseteq> free_bytes vs \<and> (\<forall>w\<in>set ws. \<exists>v\<in>set vs. fst v \<le> fst w)"
  proof (cases "take_first n vs")
    case (Some ru)
    then have "take_first n vs = Some (fst ru, ws)" using assms(3) by (cases ru) simp
    from take_first_spaced [OF assms(1) this assms(2)] show ?thesis by blast
  qed (use assms(3) in auto)
  then show "free_bytes ws \<subseteq> free_bytes vs" "\<forall>w\<in>set ws. \<exists>v\<in>set vs. fst v \<le> fst w" by blast+
qed

lemma vmm_mmap_keeps:
  assumes inv: "mm_inv s H xs" "xs \<noteq> []" "length xs \<le> n" and pages: "0 < unat pages"
    and exact: "\<And>x. x \<in> set xs \<Longrightarrow> fb_pages (blocks s x) = pages \<Longrightarrow> shared H x"
  shows "\<exists>a s' H' ys. vmm_mmap (Suc (Suc n)) physical pages is_kernel s = Some (a, s') \<and> mm_inv s' H' ys
    \<and> (case take_first (unat pages) (map (span s) xs) of
         None \<Rightarrow> a = 0 \<and> map (span s') ys = map (span s) xs \<and> paging s' = paging s
       | Some (r, vs) \<Rightarrow> unat a = r \<and> map (span s') ys = vs
           \<and> paging s' = snd (map_loop (unat pages) 0 physical a (span_flags is_kernel) (paging s)))"
proof -
  note inv' = mm_invD [OF inv(1)]
  have len: "length xs < Suc n" using inv(3) by simp
  note exact' = shared_can_free [OF inv'(1,3,4) exact]
  from nodes.vmm_mmap_body_refines [OF inv'(2) inv(2) len pages mm_inv_live [OF inv(1)] exact']
  obtain a s' ys where a: "vmm_mmap (Suc (Suc n)) physical pages is_kernel s = Some (a, s')" "chain_inv s' ys"
      "heap_live (free_bytes (map (span s) xs)) s' (set ys)"
      "case take_first (unat pages) (map (span s) xs) of
         None \<Rightarrow> a = 0 \<and> map (span s') ys = map (span s) xs \<and> paging s' = paging s
       | Some (r, vs) \<Rightarrow> unat a = r \<and> map (span s') ys = vs
           \<and> paging s' = snd (map_loop (unat pages) 0 physical a (span_flags is_kernel) (paging s))"
      "first_alloc s' = first_alloc s"
    by (fastforce simp: vmm_mmap_def)
  have sp: "spaced (2 ^ 64) (map (span s) xs)" using inv'(2) by (simp add: chain_inv_def)
  have "case take_first (unat pages) (map (span s) xs) of None \<Rightarrow> map (span s') ys = map (span s) xs | Some (r, vs) \<Rightarrow> map (span s') ys = vs"
    using a(4) by (auto split: option.splits)
  note rest = take_first_rest [OF sp pages this]
  moreover have "\<forall>v\<in>set (map (span s) xs). 0 < fst v" using inv'(5) by (auto simp: span_def unat_gt_0)
  ultimately have "free_bytes (map (span s') ys) \<subseteq> free_bytes (map (span s) xs)" "\<forall>w\<in>set (map (span s') ys). 0 < fst w"
    by (fastforce)+
  then have "\<exists>H'. mm_inv s' H' ys"
    using a(2,3,5) inv'(6) by (intro live_mm_inv) (auto simp: span_def unat_gt_0)
  then show ?thesis using a(1,4) by blast
qed

lemma vmm_free_pages_keeps:
  assumes inv: "mm_inv s H xs" "length xs < n" and pages: "0 < unat pages" "unat start + 4096 * unat pages < 2 ^ 64" "start \<noteq> 0"
    and used: "span_bytes (unat start, unat pages) \<inter> free_bytes (map (span s) xs) = {}"
      "heap_clear s H (span_bytes (unat start, unat pages))"
    and heap: "\<not> full s H 64" "heap_fuel n H" "\<forall>x\<in>set xs. shared H x"
  shows "\<exists>s' H' ys. vmm_free_pages (Suc (Suc n)) start pages s = Some s' \<and> mm_inv s' H' ys
    \<and> map (span s') ys = give_back (unat start) (unat pages) (map (span s) xs) \<and> paging s' = paging s"
proof -
  note inv' = mm_invD [OF inv(1)]
  define C where "C = free_bytes (map (span s) xs) \<union> span_bytes (unat start, unat pages)"
  have clear: "heap_clear s H C" using inv'(3) used(2) by (fastforce simp: heap_clear_def C_def)
  have "heap_live C s (set xs)" using inv'(1,4) clear by (auto simp: heap_live_def)
  moreover have "heap_can_malloc n C s (set xs)"
    using inv'(1,4) clear heap by (auto simp: heap_can_malloc_def sizeof_free_block_def)
  moreover have "\<forall>x\<in>set xs. heap_can_free C s (set xs) x" using shared_can_free [OF inv'(1) clear inv'(4)] heap(3) by blast
  moreover have "length xs + 1 < Suc n" using inv(2) by simp
  ultimately have "\<exists>s' ys. vmm_free_pages (Suc (Suc n)) start pages s = Some s' \<and> chain_inv s' ys \<and> heap_live C s' (set ys)
      \<and> map (span s') ys = give_back (unat start) (unat pages) (map (span s) xs) \<and> paging s' = paging s
      \<and> first_alloc s' = first_alloc s"
    using nodes.vmm_free_pages_body_refines [OF inv'(2) _ pages(1,2) used(1), of "Suc n" C n] by (auto simp: vmm_free_pages_def)
  then obtain s' ys where s': "vmm_free_pages (Suc (Suc n)) start pages s = Some s'" "chain_inv s' ys" "heap_live C s' (set ys)"
      "map (span s') ys = give_back (unat start) (unat pages) (map (span s) xs)" "paging s' = paging s"
      "first_alloc s' = first_alloc s" by blast
  have "0 < fst w" if "w \<in> set (map (span s') ys)" for w
    using give_back_starts [OF that [unfolded s'(4)]] inv'(5) pages(3) by (auto simp: span_def unat_gt_0 simp flip: unat_gt_0)
  then have "\<forall>x\<in>set ys. 0 < fst (span s' x)" by auto
  then have "\<forall>x\<in>set ys. fb_start (blocks s' x) \<noteq> 0" by (simp add: span_def unat_gt_0)
  then have "\<exists>H'. mm_inv s' H' ys"
    using s' inv'(6) give_back_bytes [of "unat start" "unat pages" "map (span s) xs"]
    by (intro live_mm_inv [of C]) (auto simp: C_def)
  then show ?thesis using s' by blast
qed

lemma unlink_minor_fields [simp]:
  "min_size (minors (unlink_minor m s) c) = min_size (minors s c)"
  "min_magic (minors (unlink_minor m s) m) = LIBALLOC_DEAD"
  unfolding unlink_minor_stages
  by (simp_all add: set_first_def join_prev_def join_next_def mark_dead_def upd_major_def upd_minor_def)

section \<open>The first request\<close>

text \<open>
  Before the first request the heap has no block and the chain no node. The manager allocates its first
  node; the heap asks for sixteen pages, which the nested request takes from the start of the heap area.
\<close>

definition boot_ready :: "u32 \<Rightarrow> mm \<Rightarrow> bool" where
  "boot_ready k s \<longleftrightarrow> blockchain s = 0 \<and> first_alloc s \<and> allocating_base s \<and> k = 16"

definition boot_space :: "mm \<Rightarrow> nat set" where
  "boot_space s = {(if first_alloc s then 0x200000 else 0x210000)..<0x8000000}"

lemma boot_pages:
  assumes "boot_ready k s"
  shows "\<exists>t. liballoc_alloc (exec (Suc n)) k s = Some (HEAP_START, t) \<and> liballoc.truncate t = liballoc.truncate s
    \<and> blockchain t = 0 \<and> \<not> first_alloc t \<and> pages_allocated_for_blockchain t = 16
    \<and> paging t = snd (map_loop 16 0 0 HEAP_START DIRECTORY_DEFAULTS (paging s))"
  using assms
  by (simp add: liballoc_alloc_def boot_ready_def vmm_mmap_body_def mmap_init_def Let_def ensure_pages_mapped_def
      klog_def liballoc.truncate_def split: prod.splits)

interpretation boot_source: page_source "liballoc_alloc (exec (Suc n))" boot_ready boot_space for n
proof
  fix s t :: mm and k
  show "boot_ready k s \<longleftrightarrow> boot_ready k t" "boot_space s = boot_space t" if "liballoc.more s = liballoc.more t"
    using more_fields [OF that] by (simp_all add: boot_ready_def boot_space_def)
  show "\<exists>a t. liballoc_alloc (exec (Suc n)) k s = Some (a, t) \<and> liballoc.truncate t = liballoc.truncate s
      \<and> (if a = 0 then boot_space t = boot_space s
         else unat a + 4096 * unat k < 2 ^ 64 \<and> {unat a..<unat a + 4096 * unat k} \<subseteq> boot_space s
           \<and> boot_space t = boot_space s - {unat a..<unat a + 4096 * unat k})" if ready: "boot_ready k s"
  proof -
    obtain u where "liballoc_alloc (exec (Suc n)) k s = Some (HEAP_START, u)" "liballoc.truncate u = liballoc.truncate s" "\<not> first_alloc u"
      using boot_pages [OF ready, of n] by blast
    moreover have "first_alloc s" "k = 16" using ready by (simp_all add: boot_ready_def)
    ultimately show ?thesis
      by (intro exI [of _ HEAP_START] exI [of _ u]) (auto simp: boot_space_def HEAP_START_def)
  qed
qed

text \<open>The state in which the chain has its first node.\<close>

definition first_node :: "u64 \<Rightarrow> mm \<Rightarrow> mm" where
  "first_node p s = upd_block p (\<lambda>_. \<lparr>fb_start = HEAP_START + pages_allocated_for_blockchain s * PAGE_SIZE,
     fb_pages = MAX_HEAP_SIZE - pages_allocated_for_blockchain s, fb_prev = 0, fb_next = 0\<rparr>) (s\<lparr>blockchain := p\<rparr>)"

lemma exec_Kmalloc: "exec (Suc n) (Kmalloc sz) s = kmalloc_body n (liballoc_alloc (exec n)) sz s"
  by simp

lemma exec_Mmap: "exec (Suc n) (Mmap physical pages is_kernel) s =
    vmm_mmap_body n (\<lambda>sz. exec n (Kmalloc sz)) (\<lambda>p s. map_option snd (exec n (Kfree p) s)) physical pages is_kernel s"
  by simp

lemma pages_allocated_more:
  "liballoc.more t = liballoc.more s \<Longrightarrow> pages_allocated_for_blockchain t = pages_allocated_for_blockchain s"
  by (cases s; cases t) simp

lemma boot_node:
  assumes "heap_inv s []" "blockchain s = 0" "first_alloc s"
  shows "\<exists>p t H. exec (Suc (Suc (Suc (Suc n)))) (Kmalloc sizeof_free_block) (s\<lparr>allocating_base := True\<rparr>) = Some (p, t) \<and> p \<noteq> 0
    \<and> mm_inv (first_node p t) H [p] \<and> map (span (first_node p t)) [p] = [(0x210000, 32240)]
    \<and> paging (first_node p t) = snd (map_loop 16 0 0 HEAP_START DIRECTORY_DEFAULTS (paging s))"
proof -
  define s1 where "s1 = s\<lparr>allocating_base := True\<rparr>"
  have ready: "boot_ready (new_page_count (ucast (sizeof_free_block + 32))) s1"
    using assms by (simp add: boot_ready_def s1_def new_page_count_def sizeof_free_block_def sizeof_major_def sizeof_minor_def
        l_pageSize_def l_pageCount_def Let_def)
  obtain u where u: "liballoc_alloc (exec (Suc (Suc (Suc n)))) (new_page_count (ucast (sizeof_free_block + 32))) s1 = Some (HEAP_START, u)"
      "blockchain u = 0" "\<not> first_alloc u" "pages_allocated_for_blockchain u = 16"
      "paging u = snd (map_loop 16 0 0 HEAP_START DIRECTORY_DEFAULTS (paging s1))"
    using boot_pages [OF ready] by blast
  have "heap_inv s1 []" using heap_truncate(1) [of s1 s "[]"] assms(1) by (simp add: s1_def liballoc.truncate_def)
  from boot_source.kmalloc_first [OF this ready u(1), of "Suc (Suc (Suc n))"]
  obtain p t where run: "exec (Suc (Suc (Suc (Suc n)))) (Kmalloc sizeof_free_block) s1 = Some (p, t)" and p: "p \<noteq> 0"
      "outcome boot_space s1 [] sizeof_free_block p t" and more: "liballoc.more t = liballoc.more u"
    unfolding exec_Kmalloc by (auto simp: HEAP_START_def sizeof_free_block_def simp del: exec.simps)
  note t = more_fields [OF more] pages_allocated_more [OF more]
  obtain H where H: "allocated s1 [] sizeof_free_block p t H" "heap_clear t H (boot_space t)" using p by (auto simp: outcome_def)
  then have heap: "heap_inv t H" "p \<in> pointers H" by (auto simp: allocated_def pointers_def)
  define v where "v = first_node p t"
  have v: "blocks v p = \<lparr>fb_start = 0x210000, fb_pages = 32240, fb_prev = 0, fb_next = 0\<rparr>" "blockchain v = p"
      "liballoc.truncate v = liballoc.truncate t" "\<not> first_alloc v"
    using u t by (simp_all add: v_def first_node_def HEAP_START_def MAX_HEAP_SIZE_def PAGE_SIZE_def upd_block_def liballoc.truncate_def)
  have pg: "paging v = snd (map_loop 16 0 0 HEAP_START DIRECTORY_DEFAULTS (paging s))"
    using u(5) t by (simp add: v_def first_node_def upd_block_def s1_def)
  have sp: "map (span v) [p] = [(0x210000, 32240)]" by (simp add: span_def v(1))
  have "chain_ok (pointers H) v [p]"
    using p(1) v heap(2) by (simp add: chain_ok_def chain_inv_def chain_links_def span_def spaced_def span_end_def)
  moreover have "free_bytes (map (span v) [p]) = boot_space t"
    using u(3) t unfolding sp by (simp add: boot_space_def span_bytes_def span_end_def)
  ultimately have "mm_inv v H [p]" using heap_truncate [OF v(3)] heap(1) H(2) by (simp add: mm_inv_def)
  then show ?thesis using run p(1) sp pg unfolding s1_def v_def by (intro exI conjI)
qed

section \<open>A sample state\<close>

text \<open>
  Two blocks of sixteen pages at the start of the heap area. The first holds the node of the chain and a
  piece of 100 bytes, the second one piece of 1000 bytes; the chain has one span behind the blocks.
\<close>

definition blank_major :: liballoc_major where
  "blank_major = \<lparr>maj_prev = 0, maj_next = 0, maj_pages = 0, maj_size = 0, maj_usage = 0, maj_first = 0\<rparr>"

definition blank_minor :: liballoc_minor where
  "blank_minor = \<lparr>min_prev = 0, min_next = 0, min_block = 0, min_magic = 0, min_size = 0, min_req_size = 0\<rparr>"

definition blank_block :: free_block where
  "blank_block = \<lparr>fb_start = 0, fb_pages = 0, fb_prev = 0, fb_next = 0\<rparr>"

definition boot_mm :: mm where
  "boot_mm = \<lparr>majors = (\<lambda>_. blank_major), minors = (\<lambda>_. blank_minor), bytes = (\<lambda>_. 0),
     l_memRoot = 0, l_bestBet = 0, l_allocated = 0, l_inuse = 0, l_warningCount = 0, l_errorCount = 0, l_possibleOverruns = 0,
     blocks = (\<lambda>_. blank_block), blockchain = 0, first_alloc = True, allocating_base = False,
     pages_allocated_for_blockchain = 0, paging = blank_paging, console = sample_console\<rparr>"

definition sample_mm :: mm where
  "sample_mm = boot_mm\<lparr>
     majors := (\<lambda>_. blank_major)(
       0x200000 := \<lparr>maj_prev = 0, maj_next = 0x210000, maj_pages = 16, maj_size = 65536, maj_usage = 316, maj_first = 0x200028\<rparr>,
       0x210000 := \<lparr>maj_prev = 0x200000, maj_next = 0, maj_pages = 16, maj_size = 65536, maj_usage = 1112, maj_first = 0x210028\<rparr>),
     minors := (\<lambda>_. blank_minor)(
       0x200028 := \<lparr>min_prev = 0, min_next = 0x200090, min_block = 0x200000, min_magic = LIBALLOC_MAGIC, min_size = 64, min_req_size = 32\<rparr>,
       0x200090 := \<lparr>min_prev = 0x200028, min_next = 0, min_block = 0x200000, min_magic = LIBALLOC_MAGIC, min_size = 132, min_req_size = 100\<rparr>,
       0x210028 := \<lparr>min_prev = 0, min_next = 0, min_block = 0x210000, min_magic = LIBALLOC_MAGIC, min_size = 1032, min_req_size = 1000\<rparr>),
     bytes := (\<lambda>_. 0)(0x200050 := 16, 0x2000C0 := 24, 0x210050 := 16),
     l_memRoot := 0x200000, l_bestBet := 0x200000, l_allocated := 131072, l_inuse := 1228,
     blocks := (\<lambda>_. blank_block)(0x200060 := \<lparr>fb_start = 0x220000, fb_pages = 32224, fb_prev = 0, fb_next = 0\<rparr>),
     blockchain := 0x200060, first_alloc := False\<rparr>"

definition sample_view :: heap_view where
  "sample_view = [(0x200000, [0x200028, 0x200090]), (0x210000, [0x210028])]"

lemma sample_pointers: "user_ptr 0x200028 = 0x200060" "user_ptr 0x200090 = 0x2000D0" "user_ptr 0x210028 = 0x210060"
  by (simp_all add: user_ptr_def sizeof_minor_def ALIGN_INFO_def)

lemma sample_tags:
  "tag_addr 0x200028 = 0x200050" "tag_addr 0x200090 = 0x2000C0" "tag_addr 0x210028 = 0x210050"
  "tag 0x200028 = 16" "tag 0x200090 = 24" "tag 0x210028 = 16"
  by (simp_all add: tag_addr_def tag_def sample_pointers sizeof_minor_def ALIGN_INFO_def)

lemma sample_blocks: "block_inv sample_mm 0x200000 [0x200028, 0x200090]" "block_inv sample_mm 0x210000 [0x210028]"
  by (simp_all add: block_inv_def links_ok_def minor_ok_def sample_tags psize_def block_size_def sample_mm_def)

lemma sample_heap_inv: "heap_inv sample_mm sample_view"
  by (simp add: heap_inv_def sample_view_def sample_blocks pieces_def)
    (simp add: sample_mm_def blocks_apart_def block_size_def)

lemma sample_chain: "chain_inv sample_mm [0x200060]" "map (span sample_mm) [0x200060] = [(0x220000, 32224)]"
  by (simp_all add: chain_inv_def chain_links_def spaced_def span_def span_end_def sample_mm_def)

lemma sample_inv: "mm_inv sample_mm sample_view [0x200060]"
proof -
  have "heap_clear sample_mm sample_view {0x220000..<0x8000000}"
    by (auto simp: heap_clear_def sample_view_def block_size_def sample_mm_def)
  moreover have "chain_ok (pointers sample_view) sample_mm [0x200060]"
    using sample_chain(1) by (simp add: chain_ok_def pointers_def pieces_def sample_view_def sample_pointers sample_mm_def)
  ultimately show ?thesis
    using sample_heap_inv sample_chain(2) by (simp add: mm_inv_def span_bytes_def span_end_def)
qed

lemma sample_gap: "(0x200000, ms) \<in> set H \<Longrightarrow> ms = [0x200028, 0x200090] \<Longrightarrow> n \<le> 60000 \<Longrightarrow> \<not> full sample_mm H n"
proof -
  assume H: "(0x200000, ms) \<in> set H" "ms = [0x200028, 0x200090]" "n \<le> 60000"
  have "gap_at sample_mm 0x200000 ms [] 0x20013C n"
    using H(2,3) by (simp add: gap_at_def after_def before_def psize_def block_size_def sample_mm_def)
  then have "\<not> no_gap sample_mm 0x200000 ms n" unfolding no_gap_def by (metis append_Nil2)
  then show ?thesis using H(1) by (auto simp: full_def)
qed

lemma sample_shared: "shared sample_view 0x200060"
  by (simp add: shared_def sample_view_def sample_pointers)

section \<open>Properties\<close>

text \<open>
  C4: \<open>kmalloc\<close> with heap and chain intact returns. It gives the null pointer only when no block has a gap
  that is large enough and then leaves the pieces alone; otherwise the heap has one more piece, with the
  size that was asked for and its alignment byte, and all other pieces as before. Heap and chain are intact
  afterwards and no address has become free. When the heap has to grow, no free span may have exactly the
  pages it asks for.
\<close>

theorem kmalloc_correct:
  assumes "mm_inv s H xs" "unat req_size + 4208 \<le> 2 ^ 32" "heap_fuel (Suc n) H"
    and "full s H (unat req_size + 32) \<Longrightarrow> length xs < n
      \<and> (\<forall>x\<in>set xs. unat (fb_pages (blocks s x)) \<noteq> unat (new_page_count (ucast (req_size + 32))))"
  shows "\<exists>p s' H' ys. kmalloc (Suc (Suc n)) req_size s = Some (p, s') \<and> mm_inv s' H' ys
    \<and> free_bytes (map (span s') ys) \<subseteq> free_bytes (map (span s) xs)
    \<and> (if p = 0 then full s H (unat req_size + 32) \<and> H' = H \<and> minors s' = minors s \<and> bytes s' = bytes s
       else allocated s H req_size p s' H')"
  using assms by (rule kmalloc_keeps)

theorem kmalloc_correct_witness:
  "\<exists>p s' H' ys. kmalloc (Suc (Suc 20)) 500 sample_mm = Some (p, s') \<and> mm_inv s' H' ys
    \<and> free_bytes (map (span s') ys) \<subseteq> free_bytes (map (span sample_mm) [0x200060])
    \<and> (if p = 0 then full sample_mm sample_view (unat (500 :: u64) + 32) \<and> H' = sample_view \<and> minors s' = minors sample_mm
          \<and> bytes s' = bytes sample_mm
       else allocated sample_mm sample_view 500 p s' H')"
  by (rule kmalloc_correct [OF sample_inv])
    (simp_all add: heap_fuel_def sample_view_def sample_mm_def new_page_count_def sizeof_major_def sizeof_minor_def
      l_pageSize_def l_pageCount_def Let_def)

text \<open>
  C5: Memory that \<open>kmalloc\<close> hands out is aligned to sixteen bytes, overlaps neither the memory nor the header
  of any piece in use, and is not free for the page allocator.
\<close>

theorem kmalloc_memory_safe:
  assumes "mm_inv s H xs" "unat req_size + 4208 \<le> 2 ^ 32" "heap_fuel (Suc n) H"
    and "full s H (unat req_size + 32) \<Longrightarrow> length xs < n
      \<and> (\<forall>x\<in>set xs. unat (fb_pages (blocks s x)) \<noteq> unat (new_page_count (ucast (req_size + 32))))"
    and "kmalloc (Suc (Suc n)) req_size s = Some (p, s')" "p \<noteq> 0"
  shows "unat p mod 16 = 0 \<and> unat p + unat req_size < 2 ^ 64
    \<and> (\<forall>m\<in>set (pieces H). {unat p..<unat p + unat req_size} \<inter> {unat m..<unat m + 40 + psize s m} = {})
    \<and> (\<forall>ys. chain_inv s' ys \<longrightarrow> {unat p..<unat p + unat req_size} \<inter> free_bytes (map (span s') ys) = {})"
proof -
  obtain H' ys where H': "mm_inv s' H' ys" "allocated s H req_size p s' H'"
    using kmalloc_keeps [OF assms(1-4)] assms(5,6) by auto
  note inv' = mm_invD [OF H'(1)]
  obtain new where new: "p = user_ptr new" "new \<notin> set (pieces H)" "set (pieces H') = insert new (set (pieces H))"
      "psize s' new = unat req_size + 32" "\<forall>m\<in>set (pieces H). psize s' m = psize s m"
    using H'(2) by (auto simp: allocated_def psize_def)
  then have mem: "new \<in> set (pieces H')" by simp
  obtain b ms where b: "(b, ms) \<in> set H'" "new \<in> set ms" "block_inv s' b ms" using heap_inv_piece [OF inv'(1) mem] by blast
  note bd = block_inv_bounds [OF b(3,2)] block_invD(2) [OF b(3)]
  note up = user_ptr_unat [OF bd(4), folded new(1)]
  have sub: "{unat p..<unat p + unat req_size} \<subseteq> {unat new..<unat new + 40 + psize s' new}" using up new(4) by auto
  have "{unat p..<unat p + unat req_size} \<inter> {unat m..<unat m + 40 + psize s m} = {}" if m: "m \<in> set (pieces H)" for m
    using heap_pieces_disjoint [OF inv'(1) mem, of m] sub new m by fastforce
  moreover have "{unat p..<unat p + unat req_size} \<inter> free_bytes (map (span s') zs) = {}" if "chain_inv s' zs" for zs
  proof -
    have "zs = ys" using that inv'(2) by (auto simp: chain_inv_def chain_links_def intro: dll_unique)
    moreover have "{unat b..<unat b + block_size s' b} \<inter> free_bytes (map (span s') ys) = {}"
      using inv'(3) b(1) by (auto simp: heap_clear_def)
    moreover have "{unat p..<unat p + unat req_size} \<subseteq> {unat b..<unat b + block_size s' b}" using sub bd by fastforce
    ultimately show ?thesis by blast
  qed
  ultimately show ?thesis using up(3) sub bd new(4) up by auto
qed

theorem kmalloc_memory_safe_witness:
  "\<exists>p s'. kmalloc (Suc (Suc 20)) 500 sample_mm = Some (p, s') \<and> p \<noteq> 0 \<and> unat p mod 16 = 0 \<and> unat p + 500 < 2 ^ 64
    \<and> {unat p..<unat p + 500} \<inter> {0x200028..<0x200028 + 104} = {}"
proof -
  have fuel: "heap_fuel (Suc 20) sample_view" by (simp add: heap_fuel_def sample_view_def)
  have gap: "\<not> full sample_mm sample_view (unat (500 :: u64) + 32)" by (rule sample_gap) (simp_all add: sample_view_def)
  obtain p s' where p: "kmalloc (Suc (Suc 20)) 500 sample_mm = Some (p, s')" "p \<noteq> 0"
    using kmalloc_keeps [OF sample_inv _ fuel, of 500] gap by (auto split: if_splits)
  have safe: "unat p mod 16 = 0 \<and> unat p + unat (500 :: u64) < 2 ^ 64
    \<and> (\<forall>m\<in>set (pieces sample_view). {unat p..<unat p + unat (500 :: u64)} \<inter> {unat m..<unat m + 40 + psize sample_mm m} = {})
    \<and> (\<forall>ys. chain_inv s' ys \<longrightarrow> {unat p..<unat p + unat (500 :: u64)} \<inter> free_bytes (map (span s') ys) = {})"
    by (rule kmalloc_memory_safe [OF sample_inv _ fuel _ p]) (use gap in simp_all)
  moreover have "0x200028 \<in> set (pieces sample_view)" "psize sample_mm 0x200028 = 64"
    by (simp_all add: pieces_def sample_view_def psize_def sample_mm_def)
  ultimately show ?thesis using p by (intro exI [of _ p] exI [of _ s']) fastforce
qed

text \<open>
  C6: \<open>vmm_mmap\<close> refines taking the first span of the chain with enough pages: it gives the start of that
  span and maps its pages, or the null pointer when there is none. The heap stays intact; a span that is
  used up loses its node, which must share its block with another piece.
\<close>

theorem vmm_mmap_correct:
  assumes "mm_inv s H xs" "xs \<noteq> []" "length xs \<le> n" "0 < unat pages"
    and "\<And>x. x \<in> set xs \<Longrightarrow> fb_pages (blocks s x) = pages \<Longrightarrow> shared H x"
  shows "\<exists>a s' H' ys. vmm_mmap (Suc (Suc n)) physical pages is_kernel s = Some (a, s') \<and> mm_inv s' H' ys
    \<and> (case take_first (unat pages) (map (span s) xs) of
         None \<Rightarrow> a = 0 \<and> map (span s') ys = map (span s) xs \<and> paging s' = paging s
       | Some (r, vs) \<Rightarrow> unat a = r \<and> map (span s') ys = vs
           \<and> paging s' = snd (map_loop (unat pages) 0 physical a (span_flags is_kernel) (paging s)))"
  using assms by (rule vmm_mmap_keeps)

theorem vmm_mmap_correct_witness:
  "\<exists>a s' H' ys. vmm_mmap (Suc (Suc 1)) 0 32224 True sample_mm = Some (a, s') \<and> mm_inv s' H' ys
    \<and> (case take_first (unat (32224 :: u64)) (map (span sample_mm) [0x200060]) of
         None \<Rightarrow> a = 0 \<and> map (span s') ys = map (span sample_mm) [0x200060] \<and> paging s' = paging sample_mm
       | Some (r, vs) \<Rightarrow> unat a = r \<and> map (span s') ys = vs
           \<and> paging s' = snd (map_loop (unat (32224 :: u64)) 0 0 a (span_flags True) (paging sample_mm)))"
  by (rule vmm_mmap_correct [OF sample_inv]) (use sample_shared in simp_all)

text \<open>
  C7: \<open>vmm_free_pages\<close> refines giving a span back to the sorted list of free spans, joined with the spans it
  touches on the left and on the right; the heap, which provides and takes back the nodes, stays intact. The
  heap must have room for one more node, and no node of the chain may be the only piece of its block: the
  call would otherwise come back to the chain that it is working on.
\<close>

theorem vmm_free_pages_correct:
  assumes "mm_inv s H xs" "length xs < n" "0 < unat pages" "unat start + 4096 * unat pages < 2 ^ 64" "start \<noteq> 0"
    and "span_bytes (unat start, unat pages) \<inter> free_bytes (map (span s) xs) = {}"
      "heap_clear s H (span_bytes (unat start, unat pages))"
    and "\<not> full s H 64" "heap_fuel n H" "\<forall>x\<in>set xs. shared H x"
  shows "\<exists>s' H' ys. vmm_free_pages (Suc (Suc n)) start pages s = Some s' \<and> mm_inv s' H' ys
    \<and> map (span s') ys = give_back (unat start) (unat pages) (map (span s) xs) \<and> paging s' = paging s"
  using assms by (rule vmm_free_pages_keeps)

theorem vmm_free_pages_correct_witness:
  "\<exists>s' H' ys. vmm_free_pages (Suc (Suc 20)) 0x9000000 5 sample_mm = Some s' \<and> mm_inv s' H' ys
    \<and> map (span s') ys = give_back (unat (0x9000000 :: u64)) (unat (5 :: u64)) (map (span sample_mm) [0x200060])
    \<and> paging s' = paging sample_mm"
proof (rule vmm_free_pages_correct [OF sample_inv])
  show "span_bytes (unat (0x9000000 :: u64), unat (5 :: u64)) \<inter> free_bytes (map (span sample_mm) [0x200060]) = {}"
    unfolding sample_chain(2) by (auto simp: span_bytes_def span_end_def)
  show "heap_clear sample_mm sample_view (span_bytes (unat (0x9000000 :: u64), unat (5 :: u64)))"
    by (auto simp: heap_clear_def sample_view_def block_size_def sample_mm_def span_bytes_def span_end_def)
  show "\<not> full sample_mm sample_view 64" by (rule sample_gap) (simp_all add: sample_view_def)
qed (use sample_shared in \<open>simp_all add: heap_fuel_def sample_view_def\<close>)

text \<open>
  C15: \<open>kfree\<close> of a piece that shares its block with others removes exactly this piece from the heap and
  leaves the manager's state alone.
\<close>

theorem kfree_piece:
  assumes inv: "mm_inv s (A @ (b, as @ m # cs) # B) xs" and m: "user_ptr m \<notin> set xs" and rest: "as @ cs \<noteq> []"
  shows "\<exists>s'. kfree (Suc n) (user_ptr m) s = Some s' \<and> mm_inv s' (A @ (b, as @ cs) # B) xs
    \<and> liballoc.more s' = liballoc.more s"
proof -
  note inv' = mm_invD [OF inv]
  obtain s' where s': "kfree_body (liballoc_free (exec n)) (user_ptr m) s = Some s'" "heap_inv s' (A @ (b, as @ cs) # B)"
      "s' = unlink_minor m s \<or> s' = unlink_minor m s\<lparr>l_bestBet := b\<rparr>"
    using kfree_body_correct(1) [OF inv'(1) rest, of "liballoc_free (exec n)"] by auto
  have more: "liballoc.more s' = liballoc.more s" using s'(3) by auto
  have sz: "block_size s' c = block_size s c" for c using s'(3) by (auto simp: block_size_def)
  have "heap_clear s' (A @ (b, as @ cs) # B) (free_bytes (map (span s) xs))"
    using inv'(3) by (auto simp: heap_clear_def sz)
  moreover have "set xs \<subseteq> pointers (A @ (b, as @ cs) # B)" using inv'(4) m by (auto simp: pointers_def pieces_def)
  ultimately have "mm_inv s' (A @ (b, as @ cs) # B) xs"
    using s'(2) chain_ok_mono [OF inv'(7)] chain_ok_more [OF more] span_more [OF more] by (simp add: mm_inv_def)
  then show ?thesis using s'(1) more by (simp add: kfree_def)
qed

theorem kfree_piece_witness:
  "\<exists>s'. kfree (Suc 0) 0x2000D0 sample_mm = Some s' \<and> mm_inv s' ([] @ (0x200000, [0x200028] @ []) # [(0x210000, [0x210028])]) [0x200060]
    \<and> liballoc.more s' = liballoc.more sample_mm"
  using kfree_piece [of sample_mm "[]" "0x200000" "[0x200028]" "0x200090" "[]" "[(0x210000, [0x210028])]" "[0x200060]" 0]
    sample_inv by (simp add: sample_pointers sample_view_def)

text \<open>
  C8: \<open>kfree\<close> of the last piece of a block gives the block back: it leaves the heap and its pages become
  free, joined with the free spans next to them. Another block has to have room for a node of the chain.
\<close>

theorem kfree_block:
  assumes inv: "mm_inv s (A @ (b, [m]) # B) xs" "length xs < n" and m: "user_ptr m \<notin> set xs"
    and heap: "\<not> full s (A @ B) 64" "heap_fuel n (A @ B)" "\<forall>x\<in>set xs. shared (A @ B) x"
  shows "\<exists>s' H' ys. kfree (Suc (Suc (Suc n))) (user_ptr m) s = Some s' \<and> mm_inv s' H' ys
    \<and> map (span s') ys = give_back (unat b) (unat (maj_pages (majors s b))) (map (span s) xs)"
proof -
  note inv' = mm_invD [OF inv(1)]
  define u where "u = drop_block b (unlink_minor m s)"
  define k where "k = maj_pages (majors s b)"
  have run: "kfree (Suc (Suc (Suc n))) (user_ptr m) s = vmm_free_pages (Suc (Suc n)) b (ucast k) u"
    and heap_u: "heap_inv u (A @ B)"
    using kfree_body_correct(2) [of s A b "[]" m "[]" B "liballoc_free (exec (Suc (Suc n)))"] inv'(1)
    by (simp_all add: kfree_def vmm_free_pages_def liballoc_free_def u_def k_def option.map_comp comp_def)
  have more: "liballoc.more u = liballoc.more s" by (simp add: u_def)
  have sz: "block_size u c = block_size s c" "psize u c = psize s c" for c by (simp_all add: u_def block_size_def psize_def)
  have blk: "block_inv s b [m]" by (rule heap_inv_split(1) [OF inv'(1)])
  have bytes: "span_bytes (unat b, unat k) = {unat b..<unat b + block_size s b}"
    using block_invD(3) [OF blk] by (simp add: span_bytes_def span_end_def k_def)
  have "heap_clear u (A @ B) (free_bytes (map (span s) xs))" using inv'(3) by (auto simp: heap_clear_def sz)
  moreover have "set xs \<subseteq> pointers (A @ B)" using inv'(4) m by (auto simp: pointers_def pieces_def)
  ultimately have inv_u: "mm_inv u (A @ B) xs"
    using heap_u chain_ok_mono [OF inv'(7)] chain_ok_more [OF more] span_more [OF more] by (simp add: mm_inv_def)
  have "heap_clear u (A @ B) (span_bytes (unat b, unat k))"
    using heap_inv_split(3) [OF inv'(1)] unfolding bytes by (fastforce simp: heap_clear_def sz blocks_apart_def)
  moreover have "span_bytes (unat b, unat k) \<inter> free_bytes (map (span u) xs) = {}"
    using inv'(3) unfolding bytes span_more [OF more] by (auto simp: heap_clear_def)
  moreover have "psize u = psize s" using sz(2) by (simp add: fun_eq_iff)
  then have "\<not> full u (A @ B) 64" using heap(1) by (simp add: full_def no_gap_def gap_at_def sz(1))
  moreover have "unat b + 4096 * unat k < 2 ^ 64" "0 < unat k" "b \<noteq> 0"
    using block_invD(1-3) [OF blk] block_inv_positive [OF blk] by (auto simp: k_def)
  ultimately show ?thesis
    using vmm_free_pages_keeps [OF inv_u inv(2), of "ucast k" b] heap(2,3) run span_more [OF more]
    by (auto simp: unat_ucast64 k_def)
qed

theorem kfree_block_witness:
  "\<exists>s' H' ys. kfree (Suc (Suc (Suc 20))) 0x210060 sample_mm = Some s' \<and> mm_inv s' H' ys
    \<and> map (span s') ys = [(0x210000, 32240)]"
proof -
  have "\<not> full sample_mm [(0x200000, [0x200028, 0x200090])] 64" by (rule sample_gap) simp_all
  then show ?thesis
    using kfree_block [of sample_mm "[(0x200000, [0x200028, 0x200090])]" "0x210000" "0x210028" "[]" "[0x200060]" 20]
      sample_inv sample_chain(2) sample_shared
    by (simp add: sample_view_def sample_pointers heap_fuel_def shared_def) (simp add: sample_mm_def)
qed

text \<open>
  C17: A piece that is freed twice is recognised: the second call only counts an error. The piece is not the only one
  of its block, which would be given back with the magic number that the second call tests.
\<close>

theorem kfree_twice:
  assumes inv: "heap_inv s (A @ (b, as @ m # cs) # B)" "as @ cs \<noteq> []"
  shows "\<exists>s'. kfree (Suc n) (user_ptr m) s = Some s'
    \<and> kfree (Suc n) (user_ptr m) s' = Some (s'\<lparr>l_errorCount := l_errorCount s' + 1\<rparr>)"
proof -
  obtain s' where s': "kfree_body (liballoc_free (exec n)) (user_ptr m) s = Some s'"
      "s' = unlink_minor m s \<or> s' = unlink_minor m s\<lparr>l_bestBet := b\<rparr>"
    using kfree_body_correct(1) [OF inv, of "liballoc_free (exec n)"] by auto
  have p: "m \<in> set (pieces (A @ (b, as @ m # cs) # B))" by (simp add: pieces_def)
  have "UNALIGN (user_ptr m) s' = UNALIGN (user_ptr m) s" using s'(2) by (auto simp: UNALIGN_def)
  moreover have "min_magic (minors s' m) = LIBALLOC_DEAD" using s'(2) by auto
  ultimately have "kfree_body (liballoc_free (exec n)) (user_ptr m) s' = Some (s'\<lparr>l_errorCount := l_errorCount s' + 1\<rparr>)"
    using UNALIGN_piece [OF inv(1) p]
    by (simp add: kfree_body_def bad_magic_def possible_overrun_def LIBALLOC_DEAD_def LIBALLOC_MAGIC_def Let_def)
  then show ?thesis using s'(1) by (simp add: kfree_def)
qed

theorem kfree_twice_witness:
  "\<exists>s'. kfree (Suc 0) 0x2000D0 sample_mm = Some s' \<and> kfree (Suc 0) 0x2000D0 s' = Some (s'\<lparr>l_errorCount := l_errorCount s' + 1\<rparr>)"
  using kfree_twice [of sample_mm "[]" "0x200000" "[0x200028]" "0x200090" "[]" "[(0x210000, [0x210028])]" 0]
    sample_heap_inv unfolding sample_pointers by (simp add: sample_view_def)

text \<open>
  C16: The first request of the boot sets the memory management up: heap and chain are intact afterwards, the
  heap has its first sixteen pages at the start of the heap area, the request gets the pages behind them,
  and the rest of the area is free.
\<close>

theorem vmm_mmap_boot:
  assumes "heap_inv s []" "blockchain s = 0" "first_alloc s" "\<not> allocating_base s" and pages: "0 < unat pages" "unat pages < 32240"
  shows "\<exists>s' H x. vmm_mmap (Suc (Suc (Suc (Suc (Suc n))))) physical pages is_kernel s = Some (0x210000, s') \<and> mm_inv s' H [x]
    \<and> span s' x = (0x210000 + 4096 * unat pages, 32240 - unat pages)
    \<and> paging s' = snd (map_loop (unat pages) 0 physical 0x210000 (span_flags is_kernel)
        (snd (map_loop 16 0 0 HEAP_START DIRECTORY_DEFAULTS (paging s))))"
proof -
  obtain p t H where p: "exec (Suc (Suc (Suc (Suc n)))) (Kmalloc sizeof_free_block) (s\<lparr>allocating_base := True\<rparr>) = Some (p, t)" "p \<noteq> 0"
      "mm_inv (first_node p t) H [p]" "map (span (first_node p t)) [p] = [(0x210000, 32240)]"
      "paging (first_node p t) = snd (map_loop 16 0 0 HEAP_START DIRECTORY_DEFAULTS (paging s))"
    using boot_node [OF assms(1-3), of n] by (elim exE conjE) (rule that)
  define v where "v = first_node p t"
  have "blockchain v = p" by (simp add: v_def first_node_def)
  then have init: "mmap_init (\<lambda>sz. exec (Suc (Suc (Suc (Suc n)))) (Kmalloc sz)) pages s = Some (Continue, v)"
      "mmap_init (\<lambda>sz. exec (Suc (Suc (Suc (Suc n)))) (Kmalloc sz)) pages v = Some (Continue, v)"
    using assms(2-4) p(1,2) by (simp_all add: mmap_init_def first_node_def v_def Let_def del: exec.simps)
  have run: "vmm_mmap (Suc (Suc (Suc (Suc (Suc n))))) physical pages is_kernel s = vmm_mmap (Suc (Suc (Suc (Suc (Suc n))))) physical pages is_kernel v"
    unfolding vmm_mmap_def exec_Mmap vmm_mmap_body_def init by simp
  have tf: "take_first (unat pages) (map (span v) [p]) = Some (0x210000, [(0x210000 + 4096 * unat pages, 32240 - unat pages)])"
    using pages p(4) by (simp add: v_def)
  have "fb_pages (blocks v p) \<noteq> pages" using p(4) pages(2) by (auto simp: span_def v_def)
  then have "\<exists>a s' H' ys. vmm_mmap (Suc (Suc (Suc (Suc (Suc n))))) physical pages is_kernel v = Some (a, s') \<and> mm_inv s' H' ys
      \<and> unat a = 0x210000 \<and> map (span s') ys = [(0x210000 + 4096 * unat pages, 32240 - unat pages)]
      \<and> paging s' = snd (map_loop (unat pages) 0 physical a (span_flags is_kernel) (paging v))"
    using vmm_mmap_keeps [OF p(3) [folded v_def], of "Suc (Suc (Suc n))" pages physical is_kernel] pages(1) unfolding tf by auto
  then obtain a s' H' ys where a: "vmm_mmap (Suc (Suc (Suc (Suc (Suc n))))) physical pages is_kernel v = Some (a, s')" "mm_inv s' H' ys"
      "unat a = 0x210000" "map (span s') ys = [(0x210000 + 4096 * unat pages, 32240 - unat pages)]"
      "paging s' = snd (map_loop (unat pages) 0 physical a (span_flags is_kernel) (paging v))"
    by (elim exE conjE) (rule that)
  have "a = 0x210000" using a(3) by (simp add: word_unat_eq_iff)
  moreover obtain x where "ys = [x]" using a(4) by (cases ys) auto
  ultimately show ?thesis using run a p(5) by (auto simp: v_def)
qed

theorem vmm_mmap_boot_witness:
  "\<exists>s' H x. vmm_mmap (Suc (Suc (Suc (Suc (Suc 0))))) 0xFD000000 768 True boot_mm = Some (0x210000, s') \<and> mm_inv s' H [x]
    \<and> span s' x = (0x210000 + 4096 * 768, 32240 - 768)"
proof -
  have "heap_inv boot_mm []" "blockchain boot_mm = 0" "first_alloc boot_mm" "\<not> allocating_base boot_mm"
    by (simp_all add: heap_inv_def boot_mm_def pieces_def)
  from vmm_mmap_boot [OF this, of 768 0 "0xFD000000" True] show ?thesis by auto
qed

end
