(* ===== verification/Interrupts.thy ===== *)
theory Interrupts
  imports Keyboard Descriptors Memory
begin

text \<open>
  Interrupt handlers (Interrupts.c), the report on the image (Diagnostics.c), the handlers of the
  undefined behaviour sanitizer (ubsan\_handlers.c) and the key handler of Kernel.c. The kernel state
  has the memory management with the console, the keyboard tables, the clock, and the bytes of memory
  that the handlers read.
\<close>

section \<open>State\<close>

record kernel = keyboard +
  mem :: mm
  clock :: u64
  ram :: memory

definition kprint :: "string \<Rightarrow> argument list \<Rightarrow> 'a kernel_scheme \<Rightarrow> 'a kernel_scheme" where
  "kprint fmt as k = k\<lparr>mem := klog fmt as (mem k)\<rparr>"

definition on_ports :: "(ports \<Rightarrow> ports) \<Rightarrow> 'a kernel_scheme \<Rightarrow> 'a kernel_scheme" where
  "on_ports f k = k\<lparr>mem := (mem k)\<lparr>console := (console (mem k))\<lparr>port_log := f (port_log (console (mem k)))\<rparr>\<rparr>\<rparr>"

text \<open>A handler either returns or stays in an endless loop.\<close>

datatype 'a fate = Returns 'a | Spins 'a

section \<open>Exceptions\<close>

record ISR_Frame =
  f_ds :: u64
  f_r15 :: u64
  f_r14 :: u64
  f_r13 :: u64
  f_r12 :: u64
  f_r11 :: u64
  f_r10 :: u64
  f_r9 :: u64
  f_r8 :: u64
  f_ax :: u64
  f_cx :: u64
  f_dx :: u64
  f_bx :: u64
  f_useless_sp :: u64
  f_bp :: u64
  f_si :: u64
  f_di :: u64
  int_no :: u64
  err_code :: u64
  f_ip :: u64
  f_cs :: u64
  e_flags :: u64
  f_sp :: u64
  f_ss :: u64

definition NUM_EXCEPTIONS :: u64 where "NUM_EXCEPTIONS = 21"

definition exceptions :: "string list" where
  "exceptions = [
     ''Division By Zero'',
     ''Debug'',
     ''Non-maskable Interrupt'',
     ''Breakpoint'',
     ''Overflow'',
     ''Bound Range Exceeded'',
     ''Invalid Opcode'',
     ''Device Not Available'',
     ''Double Fault'',
     ''Coprocessor Segment Overrun'',
     ''Invalid TSS'',
     ''Segment Not Present'',
     ''Stack-Segment Fault'',
     ''General Protection Fault'',
     ''Page Fault'',
     ''Reserved'',
     ''x87 Floating-Point Exception'',
     ''Alignment Check'',
     ''Machine Check'',
     ''SIMD Floating-Point Exception'',
     ''Virtualization Exception'']"

abbreviation chars :: "string \<Rightarrow> argument" where "chars s \<equiv> Str (map of_char s)"

definition exception_kind :: "ISR_Frame \<Rightarrow> 'a kernel_scheme \<Rightarrow> 'a kernel_scheme" where
  "exception_kind regs k =
     (if int_no regs < NUM_EXCEPTIONS
      then kprint (nl @ ''Exception: %s'' @ nl) [chars (exceptions ! unat (int_no regs))] k
      else kprint (nl @ ''Unknown exception: %lu'' @ nl) [Num (int_no regs)] k)"

definition protection_fault :: "ISR_Frame \<Rightarrow> 'a kernel_scheme \<Rightarrow> 'a kernel_scheme" where
  "protection_fault regs k =
     (if err_code regs \<noteq> 0 then
        (if err_code regs AND 1 \<noteq> 0 then kprint (''Exception of external origin'' @ nl) [] k
         else
           (let k = kprint (''Source: %s'' @ nl)
                      [chars ([''GDT'', ''IDT'', ''LDT'', ''IDT''] ! unat (drop_bit 1 (err_code regs) AND 3))] k
            in kprint (''Selector index: %lu'' @ nl) [Num (drop_bit 3 (err_code regs) AND 0x1ffff)] k))
      else k)"

text \<open>
  The page tables are read through the identity mapping; \<open>~0xfff\<close> is an \<open>int\<close>, extended with its sign.
  \<open>cr2\<close> and \<open>cr3\<close> are the control registers.
\<close>

definition page_fault :: "u64 \<Rightarrow> u64 \<Rightarrow> ISR_Frame \<Rightarrow> 'a kernel_scheme \<Rightarrow> 'a kernel_scheme" where
  "page_fault cr2 cr3 regs k =
     (let address = cr2;
          k = kprint (''Address: %lx (%lu)'' @ nl) [Num address, Num address] k;
          k = kprint (if err_code regs AND 1 \<noteq> 0 then ''Page-protection violation'' @ nl else ''Non-present page'' @ nl) [] k;
          k = kprint (if err_code regs AND 2 \<noteq> 0 then ''Write access'' @ nl else ''Read access'' @ nl) [] k;
          k = kprint (''Caused by process in ring %d'' @ nl) [Num (if err_code regs AND 4 \<noteq> 0 then 3 else 0)] k;
          k = (if err_code regs AND 8 \<noteq> 0
               then kprint (''One or more page directory entries contain reserved bits which are set to 1'' @ nl) [] k else k);
          k = (if err_code regs AND 16 \<noteq> 0 then kprint (''Caused by an instruction fetch'' @ nl) [] k else k);
          i4 = drop_bit 39 address AND 0x1ff;
          i3 = drop_bit 30 address AND 0x1ff;
          i2 = drop_bit 21 address AND 0x1ff;
          i1 = drop_bit 12 address AND 0x1ff;
          p4 = cr3;
          k = kprint (''PML4T at: %p'' @ nl) [Num p4] k;
          e4 = entry (paging (mem k)) p4 i4;
          k = kprint (''PML4T entry %u : %lx'' @ nl) [Num i4, Num e4] k;
          p3 = e4 AND NOT 0xfff;
          e3 = entry (paging (mem k)) p3 i3;
          k = kprint (''PDPT entry %u: %lx'' @ nl) [Num i3, Num e3] k;
          p2 = e3 AND NOT 0xfff;
          e2 = entry (paging (mem k)) p2 i2;
          k = kprint (''PDT entry %u: %lx'' @ nl) [Num i2, Num e2] k;
          p1 = e2 AND NOT 0xfff;
          e1 = entry (paging (mem k)) p1 i1
      in kprint (''PT entry %u: %lx'' @ nl) [Num i1, Num (e1 AND 0xffffffffffff)] k)"

definition register_dump :: "ISR_Frame \<Rightarrow> 'a kernel_scheme \<Rightarrow> 'a kernel_scheme" where
  "register_dump regs k =
     (let k = kprint (''Registers:'' @ nl @ ''A: %lx | B: %lx | C: %lx | D: %lx'' @ nl)
                [Num (f_ax regs), Num (f_bx regs), Num (f_cx regs), Num (f_dx regs)] k;
          k = kprint (''DI: %lx | SI: %lx'' @ nl @ ''IP: %lx'' @ nl @ ''BP: %lx | SP: %lx'' @ nl)
                [Num (f_di regs), Num (f_si regs), Num (f_ip regs), Num (f_bp regs), Num (f_sp regs)] k;
          k = kprint (''CS: %lx | DS: %lx | SS: %lx | EFLAGS: %lx'' @ nl)
                [Num (f_cs regs), Num (f_ds regs), Num (f_ss regs), Num (e_flags regs)] k;
          k = kprint (''R8: %lx | R9: %lx | R10: %lx | R11: %lx'' @ nl)
                [Num (f_r8 regs), Num (f_r9 regs), Num (f_r10 regs), Num (f_r11 regs)] k
      in kprint (''R12: %lx | R13: %lx | R14: %lx | R15: %lx'' @ nl)
           [Num (f_r12 regs), Num (f_r13 regs), Num (f_r14 regs), Num (f_r15 regs)] k)"

definition stack_trace :: "ISR_Frame \<Rightarrow> 'a kernel_scheme \<Rightarrow> 'a kernel_scheme" where
  "stack_trace regs k =
     fold (\<lambda>i k. kprint (''%p | %lx'' @ nl) [Num (f_sp regs + 8 * of_nat i), Num (load64 (ram k) (f_sp regs + 8 * of_nat i))] k)
       [0..<10] (kprint (''Stack trace:'' @ nl) [] k)"

definition isr_handler :: "u64 \<Rightarrow> u64 \<Rightarrow> ISR_Frame \<Rightarrow> 'a kernel_scheme \<Rightarrow> 'a kernel_scheme fate" where
  "isr_handler cr2 cr3 regs k =
     (let k = exception_kind regs k;
          k = (if int_no regs = 13 then protection_fault regs k
               else if int_no regs = 14 then page_fault cr2 cr3 regs k else k);
          k = register_dump regs k
      in Spins (stack_trace regs k))"

section \<open>Hardware interrupts\<close>

definition irq0_handler :: "'a kernel_scheme \<Rightarrow> 'a kernel_scheme" where
  "irq0_handler k =
     (let k = on_ports (PIC_send_EOI 0) k;
          now = clock k;
          k = k\<lparr>clock := clock k + 1\<rparr>
      in kprint (''Clock: %lu'' @ [CHR 0x0D]) [Num now] k)"

definition KBD_DATA_PORT :: u16 where "KBD_DATA_PORT = 0x60"
definition KBD_SCANCODE_MASK :: u8 where "KBD_SCANCODE_MASK = 0x7f"
definition KBD_STATUS_MASK :: u8 where "KBD_STATUS_MASK = 0x80"

type_synonym 'a kernel_call = "u64 \<Rightarrow> u8 \<Rightarrow> u8 \<Rightarrow> 'a kernel_scheme \<Rightarrow> 'a kernel_scheme"

definition irq1_handler :: "environment \<Rightarrow> 'a kernel_call \<Rightarrow> 'a kernel_scheme \<Rightarrow> 'a kernel_scheme" where
  "irq1_handler env call k =
     (let (scancode, h) = inb env KBD_DATA_PORT (port_log (console (mem k)));
          k = on_ports (\<lambda>_. h) k;
          k = on_ports (PIC_send_EOI 1) k;
          released = (scancode AND KBD_STATUS_MASK \<noteq> 0);
          code = scancode AND KBD_SCANCODE_MASK
      in if \<not> released then onKeyPressed call code k else onKeyReleased call code k)"

text \<open>The handlers 2 to 15 are generated by one macro from their number and its spelling.\<close>

definition BLANK_IRQ :: "u32 \<Rightarrow> string \<Rightarrow> 'a kernel_scheme \<Rightarrow> 'a kernel_scheme" where
  "BLANK_IRQ x name k = kprint (''Received IRQ '' @ name @ nl) [] (on_ports (PIC_send_EOI x) k)"

definition blank_irqs :: "(u32 \<times> string) list" where
  "blank_irqs = [(2, ''2''), (3, ''3''), (4, ''4''), (5, ''5''), (6, ''6''), (7, ''7''), (8, ''8''),
     (9, ''9''), (10, ''10''), (11, ''11''), (12, ''12''), (13, ''13''), (14, ''14''), (15, ''15'')]"

text \<open>All hardware interrupts by number.\<close>

definition irq_handler :: "environment \<Rightarrow> 'a kernel_call \<Rightarrow> u32 \<Rightarrow> 'a kernel_scheme \<Rightarrow> 'a kernel_scheme option" where
  "irq_handler env call n k =
     (if n = 0 then Some (irq0_handler k)
      else if n = 1 then Some (irq1_handler env call k)
      else map_option (\<lambda>name. BLANK_IRQ n name k) (map_of blank_irqs n))"

section \<open>The key handler of the kernel (Kernel.c)\<close>

definition printKey :: "environment \<Rightarrow> u8 \<Rightarrow> u8 \<Rightarrow> 'a kernel_scheme \<Rightarrow> 'a kernel_scheme" where
  "printKey env character scancode k =
     (if character = of_char CHR ''1'' then on_ports (IRQ_clear_mask env 0) k
      else if character = of_char CHR ''2'' then on_ports (IRQ_set_mask env 0) k
      else kprint ''%c'' [Num (scast character)] k)"

section \<open>Diagnostics\<close>

text \<open>\<open>PRINT_SECTION\<close>, with the name of the section and its bounds from the linker.\<close>

definition PRINT_SECTION :: "string \<Rightarrow> u64 \<Rightarrow> u64 \<Rightarrow> 'a kernel_scheme \<Rightarrow> 'a kernel_scheme" where
  "PRINT_SECTION name s e k =
     (let tab = [CHR 0x09]
      in kprint (tab @ name @ '':'' @ tab @ ''%lu bytes'' @ tab @ ''%lu - %lu'' @ tab @ ''(%lx - %lx)'' @ nl)
           [Num (e - s), Num s, Num e, Num s, Num e] k)"

definition section_info :: "layout \<Rightarrow> u64 \<Rightarrow> 'a kernel_scheme \<Rightarrow> 'a kernel_scheme" where
  "section_info L first_free_page k =
     (let k = kprint (''Image section sizes:'' @ nl) [] k;
          k = PRINT_SECTION ''BOOT'' (BOOT_START L) (BOOT_END L) k;
          k = kprint nl [] k;
          k = PRINT_SECTION ''KERNEL_TEXT'' (KERNEL_TEXT_START L) (KERNEL_TEXT_END L) k;
          k = PRINT_SECTION ''KERNEL_RODATA'' (KERNEL_RODATA_START L) (KERNEL_RODATA_END L) k;
          k = PRINT_SECTION ''KERNEL_DATA'' (KERNEL_DATA_START L) (KERNEL_DATA_END L) k;
          k = kprint nl [] k;
          k = PRINT_SECTION ''OS_TEXT'' (OS_TEXT_START L) (OS_TEXT_END L) k;
          k = PRINT_SECTION ''OS_RODATA'' (OS_RODATA_START L) (OS_RODATA_END L) k;
          k = PRINT_SECTION ''OS_DATA'' (OS_DATA_START L) (OS_DATA_END L) k;
          k = kprint nl [] k;
          k = PRINT_SECTION ''KERNEL_BSS'' (KERNEL_BSS_START L) (KERNEL_BSS_END L) k;
          k = PRINT_SECTION ''OS_BSS'' (OS_BSS_START L) (OS_BSS_END L) k
      in kprint (nl @ [CHR 0x09] @ ''First free page at: %lx'' @ nl) [Num first_free_page] k)"

definition btoa :: "u32 \<Rightarrow> argument" where
  "btoa x = chars (if x \<noteq> 0 then ''true'' else ''false'')"

text \<open>
  \<open>query_cpu\<close> is assembly around \<open>cpuid\<close> and a parameter here; the part under \<open>__AVX__\<close> enables the
  extension by the assembly routine \<open>enable_avx\<close> and is compiled when \<open>avx_build\<close> holds.
\<close>

definition sse_info :: "(u32 \<Rightarrow> u32 \<Rightarrow> u32 \<Rightarrow> u32) \<Rightarrow> bool \<Rightarrow> ('a kernel_scheme \<Rightarrow> 'a kernel_scheme) \<Rightarrow> 'a kernel_scheme \<Rightarrow> 'a kernel_scheme" where
  "sse_info query_cpu avx_build enable_avx k =
     (let line = (\<lambda>name v. kprint ([CHR 0x09] @ name @ '':'' @ [CHR 0x09] @ ''%s'' @ nl) [btoa v]);
          k = kprint (''SSE support:'' @ nl) [] k;
          k = line ''SSE3'' (query_cpu 1 2 0) k;
          k = line ''SSSE3'' (query_cpu 1 2 9) k;
          k = line ''SSE4.1'' (query_cpu 1 2 19) k;
          k = line ''SSE4.2'' (query_cpu 1 2 20) k;
          k = line ''SSE4a'' (query_cpu 0x80000001 2 6) k;
          xsave = query_cpu 1 2 26;
          k = line ''XSAVE'' xsave k
      in if xsave \<noteq> 0 then
           (let avx = query_cpu 1 2 28;
                k = line ''AVX'' avx k;
                k = line ''AVX2'' (query_cpu 7 1 5) k;
                k = line ''AVX512'' (query_cpu 7 1 16) k
            in if avx_build \<and> avx \<noteq> 0 then kprint (''AVX enabled'' @ nl) [] (enable_avx k) else k)
         else k)"

section \<open>Sanitizer handlers\<close>

record source_location =
  filename :: "u8 list"
  src_line :: u32
  src_column :: u32

record type_descriptor =
  type_kind :: u16
  type_info :: u16
  type_name :: "u8 list"

record nonnull_data =
  nn_location :: source_location
  attr_loc :: source_location
  arg_index :: u32

record shift_out_of_bounds_data =
  sh_location :: source_location
  lhs_type :: type_descriptor
  rhs_type :: type_descriptor

record type_mismatch_data_v1 =
  tm_location :: source_location
  tm_type :: type_descriptor
  log_alignment :: u8
  type_check_kind :: u8

record out_of_bounds_data =
  oob_location :: source_location
  array_type :: type_descriptor
  index_type :: type_descriptor

definition ubsan_common :: "source_location \<Rightarrow> 'a kernel_scheme \<Rightarrow> 'a kernel_scheme fate" where
  "ubsan_common location k =
     Spins (kprint (''[UBSAN] at %s, line %d, column %d'' @ nl)
       [Str (filename location), Num (ucast (src_line location)), Num (ucast (src_column location))] k)"

definition ubsan_handle_nonnull_arg :: "nonnull_data \<Rightarrow> 'a kernel_scheme \<Rightarrow> 'a kernel_scheme fate" where
  "ubsan_handle_nonnull_arg data k =
     ubsan_common (nn_location data) (kprint (''[UBSAN] Nonnull attribute violation'' @ nl) [] k)"

definition ubsan_handle_shift_out_of_bounds ::
    "shift_out_of_bounds_data \<Rightarrow> u64 \<Rightarrow> u64 \<Rightarrow> 'a kernel_scheme \<Rightarrow> 'a kernel_scheme fate" where
  "ubsan_handle_shift_out_of_bounds data lhs rhs k =
     ubsan_common (sh_location data) (kprint ''[UBSAN] Shift out of bounds (%lu `shift` %lu)'' [Num lhs, Num rhs] k)"

definition ubsan_handle_type_mismatch_v1 :: "type_mismatch_data_v1 \<Rightarrow> u64 \<Rightarrow> 'a kernel_scheme \<Rightarrow> 'a kernel_scheme fate" where
  "ubsan_handle_type_mismatch_v1 data index k =
     ubsan_common (tm_location data)
       (kprint (''[UBSAN] Type mismatch (ix: %lu, type: %s, align: %lu)'' @ nl)
         [Num index, Str (type_name (tm_type data)), Num (push_bit (unat (log_alignment data)) 1)] k)"

definition ubsan_handle_out_of_bounds :: "out_of_bounds_data \<Rightarrow> u64 \<Rightarrow> 'a kernel_scheme \<Rightarrow> 'a kernel_scheme fate" where
  "ubsan_handle_out_of_bounds data index k =
     ubsan_common (oob_location data) (kprint (''[UBSAN] Index out of bounds (%lu)'' @ nl) [Num index] k)"

text \<open>The handlers that only report, from two macros; the text begins with the name of the handler.\<close>

definition HANDLER2 :: "string \<Rightarrow> u64 \<Rightarrow> u64 \<Rightarrow> 'a kernel_scheme \<Rightarrow> 'a kernel_scheme fate" where
  "HANDLER2 name data index k = Returns (kprint (name @ '': %p, %lu'' @ nl) [Num data, Num index] k)"

definition HANDLER3 :: "string \<Rightarrow> u64 \<Rightarrow> u64 \<Rightarrow> u64 \<Rightarrow> 'a kernel_scheme \<Rightarrow> 'a kernel_scheme fate" where
  "HANDLER3 name data lhs rhs k = Returns (kprint (name @ '': %p, %lu, %lu'' @ nl) [Num data, Num lhs, Num rhs] k)"

section \<open>Printing and the port bus\<close>

text \<open>Printing only writes to the serial port, whatever the state of the console.\<close>

definition serial_only :: "ports \<Rightarrow> ports \<Rightarrow> bool" where
  "serial_only h h' \<longleftrightarrow> (\<exists>vs. h' = map (Out 0x3F8) vs @ h)"

lemma serial_only_refl [simp]: "serial_only h h"
  by (simp add: serial_only_def)

lemma serial_only_trans: "serial_only g h \<Longrightarrow> serial_only h i \<Longrightarrow> serial_only g i"
  unfolding serial_only_def by (metis append_assoc map_append)

lemma serial_only_out: "serial_only h (outb 0x3F8 v h)"
  unfolding serial_only_def outb_def by (rule exI [of _ "[v]"]) simp

lemma fold_inv: "(\<And>x s. P s \<Longrightarrow> P (f x s)) \<Longrightarrow> P s \<Longrightarrow> P (fold f xs s)"
  by (induction xs arbitrary: s) auto

lemma for_upto_invariant: "(\<And>i s. P s \<Longrightarrow> P (f i s)) \<Longrightarrow> P s \<Longrightarrow> P (for_upto n f s)"
  unfolding for_upto_def by (rule fold_inv)

lemma render_ports: "port_log (render ch c) = port_log c"
  unfolding render_def
  by (rule for_upto_invariant [where P = "\<lambda>d. port_log d = port_log c"], rule for_upto_invariant [where P = "\<lambda>d. port_log d = port_log c"])
    (simp_all add: render_pixel_def set_backbuffer_def Let_def)

lemma scrollUp_ports: "port_log (scrollUp c) = port_log c"
proof -
  have a: "port_log (for_upto n (\<lambda>y. for_upto m (scroll_pixel y)) d) = port_log d" for n m d
    by (rule for_upto_invariant [where P = "\<lambda>e. port_log e = port_log d"], rule for_upto_invariant [where P = "\<lambda>e. port_log e = port_log d"])
      (simp_all add: scroll_pixel_def set_backbuffer_def Let_def)
  have b: "port_log (for_upto n (\<lambda>y. for_upto m (clear_pixel y)) d) = port_log d" for n m d
    by (rule for_upto_invariant [where P = "\<lambda>e. port_log e = port_log d"], rule for_upto_invariant [where P = "\<lambda>e. port_log e = port_log d"])
      (simp_all add: clear_pixel_def set_backbuffer_def Let_def)
  show ?thesis by (simp add: scrollUp_def a b Let_def)
qed

lemma ensureCursorInRange_ports: "port_log (ensureCursorInRange c) = port_log c"
  by (simp add: ensureCursorInRange_def scrollUp_ports Let_def)

lemma putChar_body_serial:
  assumes "\<And>ch d. serial_only (port_log d) (port_log (f ch d))"
  shows "serial_only (port_log c) (port_log (putChar_body f ch c))"
proof -
  have tab: "serial_only (outb 0x3F8 ch (port_log c)) (port_log (for_upto n (\<lambda>_. f v) d))"
    if "port_log d = outb 0x3F8 ch (port_log c)" for n v d
  proof (rule for_upto_invariant [where P = "\<lambda>d. serial_only (outb 0x3F8 ch (port_log c)) (port_log d)"])
    show "serial_only (outb 0x3F8 ch (port_log c)) (port_log (f v e))" if "serial_only (outb 0x3F8 ch (port_log c)) (port_log e)" for e
      by (rule serial_only_trans [OF that assms])
  qed (simp add: that)
  show ?thesis
    by (auto simp: putChar_body_def Let_def ensureCursorInRange_ports render_ports serial_only_out
        intro: serial_only_trans [OF serial_only_out tab])
qed

lemma putChar_serial_only: "serial_only (port_log c) (port_log (putChar ch c))"
  unfolding putChar_def by (intro putChar_body_serial) simp

lemma log_serial_only: "serial_only (port_log c) (port_log (log fmt as c))"
proof -
  have "serial_only (port_log c) (port_log (fold putChar t c))" for t
    by (rule fold_inv [where P = "\<lambda>d. serial_only (port_log c) (port_log d)"]) (auto intro: serial_only_trans putChar_serial_only)
  then show ?thesis by (auto simp: log_def print_text_def swapBuffers_def split: option.splits)
qed

abbreviation kports :: "'a kernel_scheme \<Rightarrow> ports" where
  "kports k \<equiv> port_log (console (mem k))"

lemma kprint_serial: "serial_only (kports k) (kports (kprint fmt as k))"
  by (simp add: kprint_def klog_def log_serial_only)

lemma kprint_frame [simp]:
  "pressHandlers (kprint fmt as k) = pressHandlers k" "releaseHandlers (kprint fmt as k) = releaseHandlers k"
  "clock (kprint fmt as k) = clock k" "ram (kprint fmt as k) = ram k"
  "paging (mem (kprint fmt as k)) = paging (mem k)" "liballoc.truncate (mem (kprint fmt as k)) = liballoc.truncate (mem k)"
  "blocks (mem (kprint fmt as k)) = blocks (mem k)" "blockchain (mem (kprint fmt as k)) = blockchain (mem k)"
  by (simp_all add: kprint_def)

lemma on_ports_frame [simp]:
  "pressHandlers (on_ports f k) = pressHandlers k" "releaseHandlers (on_ports f k) = releaseHandlers k"
  "clock (on_ports f k) = clock k" "ram (on_ports f k) = ram k" "kports (on_ports f k) = f (kports k)"
  "paging (mem (on_ports f k)) = paging (mem k)" "liballoc.truncate (mem (on_ports f k)) = liballoc.truncate (mem k)"
  by (simp_all add: on_ports_def liballoc.truncate_def)

section \<open>Acknowledging interrupts\<close>

text \<open>
  A part of the history that leaves the in-service registers of both controllers alone, and the
  controllers in operation.
\<close>

definition quiet :: "pic8259 \<times> pic8259 \<Rightarrow> ports \<Rightarrow> ports \<Rightarrow> bool" where
  "quiet P h h' \<longleftrightarrow>
     (expect (fst (pics P h)) = 0 \<and> expect (snd (pics P h)) = 0 \<longrightarrow>
      expect (fst (pics P h')) = 0 \<and> expect (snd (pics P h')) = 0
      \<and> isr (fst (pics P h')) = isr (fst (pics P h)) \<and> isr (snd (pics P h')) = isr (snd (pics P h)))"

lemma quiet_refl [simp]: "quiet P h h"
  by (simp add: quiet_def)

lemma quiet_trans: "quiet P g h \<Longrightarrow> quiet P h i \<Longrightarrow> quiet P g i"
  by (simp add: quiet_def)

lemma pics_serial [simp]: "pics P (map (Out 0x3F8) vs @ h) = pics P h"
  by (induction vs) (simp_all split: prod.split)

lemma serial_quiet: "serial_only h h' \<Longrightarrow> quiet P h h'"
  by (auto simp: serial_only_def quiet_def)

lemma kprint_quiet: "kports k = h \<Longrightarrow> quiet P h (kports (kprint fmt as k))"
  using serial_quiet [OF kprint_serial] by blast

lemma mask_quiet: "quiet P h (IRQ_set_mask env line h)" "quiet P h (IRQ_clear_mask env line h)"
  by (cases "pics P h"; simp add: quiet_def IRQ_set_mask_def IRQ_clear_mask_def line_of_def inb_def Let_def pics_out pic_ports
      pic_data_def)+

lemma EOI_pics: "expect (fst (pics P h)) = 0 \<Longrightarrow> expect (snd (pics P h)) = 0 \<Longrightarrow> pics P (PIC_send_EOI n h) =
    ((fst (pics P h))\<lparr>isr := isr (fst (pics P h)) AND NOT (lowest_bit (isr (fst (pics P h))))\<rparr>,
     if n \<ge> 8 then (snd (pics P h))\<lparr>isr := isr (snd (pics P h)) AND NOT (lowest_bit (isr (snd (pics P h))))\<rparr> else snd (pics P h))"
  by (cases "pics P h") (simp add: PIC_send_EOI_def pics_out pic_ports PIC_EOI_def pic_command_def Let_def bit_numeral_rec)

text \<open>
  The kernel subscribes one handler, \<open>printKey\<close> at the address \<open>a\<close>; no other address gets into the tables.
\<close>

definition kernel_call :: "environment \<Rightarrow> u64 \<Rightarrow> 'a kernel_call" where
  "kernel_call env a h = (if h = a then printKey env else (\<lambda>_ _ k. k))"

lemma printKey_frame [simp]:
  "pressHandlers (printKey env c sc k) = pressHandlers k" "releaseHandlers (printKey env c sc k) = releaseHandlers k"
  by (simp_all add: printKey_def)

interpretation kernel_keys: key_handlers "kernel_call env a" for env a
  by unfold_locales (simp_all add: kernel_call_def)

lemma kernel_call_quiet: "quiet P (kports k) (kports (kernel_call env a h c sc k))"
  by (simp add: kernel_call_def printKey_def mask_quiet serial_quiet [OF kprint_serial])

lemma dispatch_quiet: "quiet P (kports k) (kports (dispatch_loop n i handlers (kernel_call env a) sc k))"
proof (induction n arbitrary: i k)
  case (Suc n)
  show ?case using quiet_trans [OF kernel_call_quiet Suc.IH] Suc.IH by simp
qed simp

lemma bit_7_iff: "bit (v :: u8) 7 \<longleftrightarrow> v AND 0x80 \<noteq> 0"
  using and_exp_eq_0_iff_not_bit [of v 7] by simp

lemma low_bits: "\<not> bit (v :: u8) 7 \<Longrightarrow> v AND 0x7f = v"
proof -
  assume v: "\<not> bit v 7"
  have "v AND 0x7f = take_bit 7 v" by (simp add: take_bit_eq_mask mask_eq_exp_minus_1)
  also have "\<dots> = v"
  proof (rule bit_word_eqI)
    show "bit (take_bit 7 v) n = bit v n" if "n < LENGTH(8)" for n
      using v that by (cases "n = 7") (auto simp: bit_simps)
  qed
  finally show ?thesis .
qed

lemma keys_12: "scanCodeToChar 2 = of_char CHR ''1''" "scanCodeToChar 3 = of_char CHR ''2''"
  by (simp_all add: scanCodeToChar_def translationTable_def)

lemma keys_other: "scancode \<noteq> 2 \<Longrightarrow> scancode \<noteq> 3 \<Longrightarrow>
    scanCodeToChar scancode \<noteq> of_char CHR ''1'' \<and> scanCodeToChar scancode \<noteq> of_char CHR ''2''"
proof -
  assume ne: "scancode \<noteq> 2" "scancode \<noteq> 3"
  have "list_all (\<lambda>i. i = 2 \<or> i = 3 \<or> translationTable ! i \<noteq> 0x31 \<and> translationTable ! i \<noteq> 0x32) [0..<58]"
    by (simp add: translationTable_def upt_rec)
  then have "translationTable ! unat scancode \<noteq> 0x31 \<and> translationTable ! unat scancode \<noteq> 0x32" if "unat scancode < 58"
    using that ne by (auto simp: list_all_iff word_unat_eq_iff)
  moreover have "length translationTable = 58" by (simp add: translationTable_def)
  ultimately show ?thesis by (simp add: scanCodeToChar_def)
qed

lemma log_char:
  assumes "vga_ready c \<longrightarrow> console_inv c" "ch \<noteq> 0" "ch \<noteq> 9"
  shows "port_log (log ''%c'' [Num (scast ch)] c) = Out 0x3F8 ch # port_log c"
proof -
  have u: "ucast (scast ch :: u64) = ch" by (rule bit_word_eqI) (simp add: bit_simps)
  have "format_text (map of_char ''%c'') [Num (scast ch)] = Some [ch]" by (simp add: directive_of_def u)
  then show ?thesis
    using fold_putChar_serial [OF assms(1), of "[ch]"] assms(2,3) by (simp add: log_def print_text_def swapBuffers_def)
qed

lemma blank_irqs_all:
  assumes "n < 16" "n \<noteq> 0" "n \<noteq> 1"
  shows "\<exists>name. map_of blank_irqs n = Some name"
proof -
  have "unat n < 16" "unat n \<noteq> 0" "unat n \<noteq> 1" using assms by (simp_all add: word_less_nat_alt word_unat_eq_iff)
  then have "unat n \<in> set [2..<16]" unfolding set_upt atLeastLessThan_iff by linarith
  moreover have "n = of_nat (unat n)" by simp
  ultimately have "n \<in> set (map of_nat [2..<16])" unfolding list.set_map by (rule rev_image_eqI)
  then show ?thesis by (auto simp: blank_irqs_def upt_rec)
qed

section \<open>Properties\<close>

definition sample_kernel :: kernel where
  "sample_kernel = \<lparr>pressHandlers = table_of [1], releaseHandlers = table_of [], mem = boot_mm, clock = 7, ram = (\<lambda>_. 0)\<rparr>"

definition busy_pics :: "pic8259 \<times> pic8259" where
  "busy_pics =
     (\<lparr>imr = 0, isr = 4, vector_base = 0x20, cascade = 4, mode = 1, expect = 0, want_icw4 = True\<rparr>,
      \<lparr>imr = 0, isr = 0x82, vector_base = 0x28, cascade = 2, mode = 1, expect = 0, want_icw4 = True\<rparr>)"

text \<open>
  C28: Each of the sixteen interrupt handlers, \<open>printKey\<close> included, ends exactly one interrupt on the master
  controller, the one in service with the highest priority, and one on the slave if the line belongs to it.
\<close>

theorem irq_handlers_acknowledge:
  assumes "n < 16" and "expect (fst (pics P (kports k))) = 0" "expect (snd (pics P (kports k))) = 0"
  shows "\<exists>k'. irq_handler env (kernel_call env a) n k = Some k'
    \<and> isr (fst (pics P (kports k'))) = isr (fst (pics P (kports k))) AND NOT (lowest_bit (isr (fst (pics P (kports k)))))
    \<and> isr (snd (pics P (kports k'))) = (if n \<ge> 8
        then isr (snd (pics P (kports k))) AND NOT (lowest_bit (isr (snd (pics P (kports k))))) else isr (snd (pics P (kports k))))"
proof -
  have acked: ?thesis if "irq_handler env (kernel_call env a) n k = Some k'" "quiet P (PIC_send_EOI n h) (kports k')" "pics P h = pics P (kports k)" for k' h
    using that EOI_pics [of P h n] assms by (simp add: quiet_def)
  consider "n = 0" | "n = 1" | "n \<noteq> 0" "n \<noteq> 1" by blast
  then show ?thesis
  proof cases
    case 1
    show ?thesis
      by (rule acked [of "irq0_handler k" "kports k"])
        (simp_all add: irq_handler_def irq0_handler_def 1 Let_def kprint_quiet)
  next
    case 2
    define v where "v = env (kports k) KBD_DATA_PORT"
    have "pics P (In KBD_DATA_PORT v # kports k) = pics P (kports k)" by (simp split: prod.split)
    moreover have "quiet P (PIC_send_EOI 1 (In KBD_DATA_PORT v # kports k)) (kports (irq1_handler env (kernel_call env a) k))"
      using dispatch_quiet [of P "on_ports (PIC_send_EOI 1) (on_ports (\<lambda>_. In KBD_DATA_PORT v # kports k) k)"]
      by (simp add: irq1_handler_def inb_def Let_def onKeyPressed_def onKeyReleased_def v_def)
    ultimately show ?thesis by (intro acked [of "irq1_handler env (kernel_call env a) k" "In KBD_DATA_PORT v # kports k"]) (simp_all add: irq_handler_def 2)
  next
    case 3
    obtain name where name: "map_of blank_irqs n = Some name" using blank_irqs_all [OF assms(1) 3] by blast
    show ?thesis
      by (rule acked [of "BLANK_IRQ n name k" "kports k"])
        (use 3 name in \<open>simp_all add: irq_handler_def BLANK_IRQ_def kprint_quiet\<close>)
  qed
qed

theorem irq_handlers_acknowledge_witness:
  "\<exists>k'. irq_handler (\<lambda>_ _. 0) (kernel_call (\<lambda>_ _. 0) 1) 9 sample_kernel = Some k'
    \<and> isr (fst (pics busy_pics (kports k'))) = 0 \<and> isr (snd (pics busy_pics (kports k'))) = 0x80"
proof -
  have p: "kports sample_kernel = []" by (simp add: sample_kernel_def boot_mm_def sample_console_def)
  show ?thesis
    using irq_handlers_acknowledge [of 9 busy_pics sample_kernel "\<lambda>_ _. 0" 1] unfolding p
    by (auto simp: busy_pics_def lowest_bit_def)
qed

text \<open>
  C29: With \<open>printKey\<close> as the only subscriber, the interrupt of a pressed key is acknowledged before anything
  else and then handled once: the key 1 unmasks the clock, the key 2 masks it, and any other key changes no
  mask and prints its character, if it has one other than tab. A released key is only acknowledged.
\<close>

theorem key_interrupt:
  assumes "reads_masks P env" "expect (fst (pics P (kports k))) = 0" "expect (snd (pics P (kports k))) = 0"
    and "pressHandlers k = table_of [a]" "releaseHandlers k = table_of []" "a \<noteq> 0"
    and "vga_ready (console (mem k)) \<longrightarrow> console_inv (console (mem k))"
  defines "scancode \<equiv> env (kports k) 0x60"
    and "k' \<equiv> irq1_handler env (kernel_call env a) k"
    and "acked \<equiv> Out 0x20 0x20 # In 0x60 (env (kports k) 0x60) # kports k"
  shows "if bit scancode 7 then kports k' = acked
    else if scancode = 2 then \<not> bit (imr (fst (pics P (kports k')))) 0
    else if scancode = 3 then bit (imr (fst (pics P (kports k')))) 0
    else scanCodeToChar scancode \<noteq> 0 \<and> scanCodeToChar scancode \<noteq> 9 \<longrightarrow> kports k' = Out 0x3F8 (scanCodeToChar scancode) # acked"
proof -
  define k1 where "k1 = on_ports (PIC_send_EOI 1) (on_ports (\<lambda>_. In 0x60 scancode # kports k) k)"
  have k1: "kports k1 = acked" "pressHandlers k1 = table_of [a]" "releaseHandlers k1 = table_of []" "mem k1 = (mem k)\<lparr>console := (console (mem k))\<lparr>port_log := acked\<rparr>\<rparr>"
    using assms(4,5) by (simp_all add: k1_def on_ports_def acked_def scancode_def PIC_send_EOI_def outb_def PIC1_COMMAND_def PIC_EOI_def word_le_nat_alt)
  have run: "k' = (if bit scancode 7 then onKeyReleased (kernel_call env a) (scancode AND 0x7f) k1
      else onKeyPressed (kernel_call env a) (scancode AND 0x7f) k1)"
    using bit_7_iff [of scancode]
    by (simp add: k'_def irq1_handler_def inb_def KBD_DATA_PORT_def KBD_STATUS_MASK_def KBD_SCANCODE_MASK_def k1_def scancode_def Let_def)
  show ?thesis
  proof (cases "bit scancode 7")
    case True
    then show ?thesis using kernel_keys.release_calls [of k1 "[]" env a] k1 run by simp
  next
    case False
    then have k': "k' = printKey env (scanCodeToChar scancode) scancode k1"
      using kernel_keys.press_calls [of k1 "[a]" env a scancode] k1 run assms(6) low_bits [of scancode]
      by (simp add: kernel_call_def MAX_HANDLERS_def)
    note reads = assms(1) [unfolded reads_masks_def, rule_format, of acked]
    have pics: "pics P acked = ((fst (pics P (kports k)))\<lparr>isr := isr (fst (pics P (kports k))) AND NOT (lowest_bit (isr (fst (pics P (kports k)))))\<rparr>, snd (pics P (kports k)))"
      using assms(2,3) by (cases "pics P (kports k)") (simp add: acked_def pic_command_def bit_numeral_rec)
    consider "scancode = 2" | "scancode = 3" | "scancode \<noteq> 2" "scancode \<noteq> 3" by blast
    then show ?thesis
    proof cases
      case 1
      have "\<not> bit (imr (fst (pics P (IRQ_clear_mask env 0 acked)))) 0"
        using reads pics assms(2) by (simp add: IRQ_clear_mask_def line_of_def inb_def pics_out pic_ports pic_data_def line_bit_def Let_def bit_simps)
      then show ?thesis using 1 False k1(1) by (simp add: k' printKey_def keys_12)
    next
      case 2
      have "bit (imr (fst (pics P (IRQ_set_mask env 0 acked)))) 0"
        using reads pics assms(2) by (simp add: IRQ_set_mask_def line_of_def inb_def pics_out pic_ports pic_data_def line_bit_def Let_def bit_simps)
      then show ?thesis using 2 False k1(1) by (simp add: k' printKey_def keys_12)
    next
      case 3
      have "kports (kprint ''%c'' [Num (scast ch)] k1) = Out 0x3F8 ch # acked" if "ch \<noteq> 0" "ch \<noteq> 9" for ch
        using log_char [of "console (mem k1)" ch] keeps_port [of "console (mem k)" acked] assms(7) that k1 by (auto simp: kprint_def klog_def keeps_def)
      then show ?thesis using 3 False keys_other by (simp add: k' printKey_def)
    qed
  qed
qed

definition key_2_env :: environment where
  "key_2_env h port = (if port = 0x60 then 3 else pic_env busy_pics h port)"

theorem key_interrupt_witness: "bit (imr (fst (pics busy_pics (kports (irq1_handler key_2_env (kernel_call key_2_env 1) sample_kernel))))) 0"
proof -
  have p: "kports sample_kernel = []" "vga_ready (console (mem sample_kernel)) \<longrightarrow> console_inv (console (mem sample_kernel))"
    using sample_console_inv by (simp_all add: sample_kernel_def boot_mm_def sample_console_def)
  have r: "reads_masks busy_pics key_2_env" using reads_masks_pic_env [of busy_pics] by (simp add: reads_masks_def key_2_env_def)
  have e: "key_2_env (kports sample_kernel) 0x60 = 3" by (simp add: key_2_env_def)
  have "if bit (key_2_env (kports sample_kernel) 0x60) 7 then kports (irq1_handler key_2_env (kernel_call key_2_env 1) sample_kernel) =
        Out 0x20 0x20 # In 0x60 (key_2_env (kports sample_kernel) 0x60) # kports sample_kernel
    else if key_2_env (kports sample_kernel) 0x60 = 2
    then \<not> bit (imr (fst (pics busy_pics (kports (irq1_handler key_2_env (kernel_call key_2_env 1) sample_kernel))))) 0
    else if key_2_env (kports sample_kernel) 0x60 = 3
    then bit (imr (fst (pics busy_pics (kports (irq1_handler key_2_env (kernel_call key_2_env 1) sample_kernel))))) 0
    else scanCodeToChar (key_2_env (kports sample_kernel) 0x60) \<noteq> 0 \<and> scanCodeToChar (key_2_env (kports sample_kernel) 0x60) \<noteq> 9 \<longrightarrow>
      kports (irq1_handler key_2_env (kernel_call key_2_env 1) sample_kernel) =
        Out 0x3F8 (scanCodeToChar (key_2_env (kports sample_kernel) 0x60)) # Out 0x20 0x20 #
          In 0x60 (key_2_env (kports sample_kernel) 0x60) # kports sample_kernel"
    by (rule key_interrupt [OF r]) (use p in \<open>simp_all add: sample_kernel_def busy_pics_def\<close>)
  then show ?thesis unfolding e by (simp add: bit_numeral_rec)
qed

end
