(* ===== verification/Syscalls.thy ===== *)
theory Syscalls
  imports Interrupts
begin

text \<open>
  The system calls (syscalls.c), on the kernel state; \<open>ram\<close> is the memory of the calling program. A call
  may fail to return because it reads a string without an end or because the memory management runs out
  of fuel: then the result is \<open>None\<close>. \<open>ssize_t\<close> is an \<open>int\<close> here.
\<close>

section \<open>The calls\<close>

text \<open>The string at an address, for the format \<open>%s\<close>.\<close>

definition c_string :: "memory \<Rightarrow> u64 \<Rightarrow> u8 list option" where
  "c_string m p = map_option (\<lambda>n. map (\<lambda>i. m (p + of_nat i)) [0..<unat n]) (strlen m p)"

definition sys_write :: "u32 \<Rightarrow> u64 \<Rightarrow> u64 \<Rightarrow> kernel \<Rightarrow> u32 \<times> kernel" where
  "sys_write fd buf count k =
     (ucast count, k\<lparr>mem := (mem k)\<lparr>console := log_n (ram k) buf count (console (mem k))\<rparr>\<rparr>)"

record winsize =
  ws_row :: u16
  ws_col :: u16
  ws_xpixel :: u16
  ws_ypixel :: u16

definition store_winsize :: "memory \<Rightarrow> u64 \<Rightarrow> winsize \<Rightarrow> memory" where
  "store_winsize m out w =
     (let m = store_le 2 m out (unat (ws_row w));
          m = store_le 2 m (out + 2) (unat (ws_col w));
          m = store_le 2 m (out + 4) (unat (ws_xpixel w))
      in store_le 2 m (out + 6) (unat (ws_ypixel w)))"

definition ioctl :: "u32 \<Rightarrow> u32 \<Rightarrow> u64 \<Rightarrow> kernel \<Rightarrow> u32 \<times> kernel" where
  "ioctl fd request arg k =
     (if request = 0x5413
      then (let vbe = vbe_info (console (mem k));
                w = \<lparr>ws_row = y_cur_max vbe, ws_col = x_cur_max vbe, ws_xpixel = width vbe, ws_ypixel = height vbe\<rparr>
            in (0, k\<lparr>ram := store_winsize (ram k) arg w\<rparr>))
      else (- 1, kprint (''Unknown IOCTL request %x'' @ nl) [Num (scast request)] k))"

text \<open>The structures \<open>iovec\<close> in memory: a pointer and a length each.\<close>

definition iov_base :: "memory \<Rightarrow> u64 \<Rightarrow> nat \<Rightarrow> u64" where
  "iov_base m iov i = load64 m (iov + 16 * of_nat i)"

definition iov_len :: "memory \<Rightarrow> u64 \<Rightarrow> nat \<Rightarrow> u64" where
  "iov_len m iov i = load64 m (iov + 16 * of_nat i + 8)"

primrec writev_loop :: "nat \<Rightarrow> nat \<Rightarrow> u32 \<Rightarrow> u64 \<Rightarrow> u32 \<Rightarrow> kernel \<Rightarrow> u32 \<times> kernel" where
  "writev_loop 0 i fd iov written k = (written, k)"
| "writev_loop (Suc n) i fd iov written k =
     (let (_, k) = sys_write fd (iov_base (ram k) iov i) (iov_len (ram k) iov i) k
      in writev_loop n (i + 1) fd iov (written + ucast (iov_len (ram k) iov i)) k)"

definition writev :: "u32 \<Rightarrow> u64 \<Rightarrow> u32 \<Rightarrow> kernel \<Rightarrow> u32 \<times> kernel" where
  "writev fd iov iovcnt k = writev_loop (nat (sint iovcnt)) 0 fd iov 0 k"

definition brk :: "u64 \<Rightarrow> kernel \<Rightarrow> u32 \<times> kernel" where
  "brk addr k = (- 1, k)"

text \<open>\<open>dev_mem\<close> is the address of the string \<open>/dev/mem\<close> in the image.\<close>

definition sys_open :: "u64 \<Rightarrow> u64 \<Rightarrow> u32 \<Rightarrow> kernel \<Rightarrow> (u32 \<times> kernel) option" where
  "sys_open dev_mem pathname flags k = do {
     r \<leftarrow> strcmp (ram k) pathname dev_mem;
     if r \<noteq> 0 then do {
       path \<leftarrow> c_string (ram k) pathname;
       Some (- 1, kprint (''open: pathname must be \"/dev/mem\", got \"%s\"'' @ nl) [Str path] k) }
     else Some (0xdeadbeef, k) }"

definition on_mem :: "(mm \<Rightarrow> (u64 \<times> mm) option) \<Rightarrow> kernel \<Rightarrow> (u64 \<times> kernel) option" where
  "on_mem f k = map_option (\<lambda>(a, s). (a, k\<lparr>mem := s\<rparr>)) (f (mem k))"

definition mmap :: "nat \<Rightarrow> u64 \<Rightarrow> u64 \<Rightarrow> u32 \<Rightarrow> u32 \<Rightarrow> u32 \<Rightarrow> u64 \<Rightarrow> kernel \<Rightarrow> (u64 \<times> kernel) option" where
  "mmap n addr len prot flags fd offset k =
     (let pages = len div PAGE_SIZE
      in if fd = - 1 \<and> addr = 0 then do {
           (addr, k) \<leftarrow> on_mem (vmm_mmap n 0 pages False) k;
           Some (addr + offset, k) }
         else if addr mod PAGE_SIZE \<noteq> 0
         then Some (- 1, kprint (''[VMM] mmap: addr must be page-aligned, got %x'' @ nl) [Num addr] k)
         else if fd \<noteq> 0xdeadbeef
         then Some (- 1, kprint (''[VMM] mmap: fd must be -1 (malloc) or 0xdeadbeef (\"/dev/mem\"), got %x'' @ nl) [Num (scast fd)] k)
         else do {
           let physical = ucast (physical_buffer (vbe_info (console (mem k))) AND NOT 0xfff);
           (addr, k) \<leftarrow> (if addr = 0 then on_mem (vmm_mmap n physical pages False) k else Some (addr, k));
           Some (addr + offset, k) })"

section \<open>The dispatcher\<close>

definition NR_write :: u64 where "NR_write = 1"
definition NR_open :: u64 where "NR_open = 2"
definition NR_mmap :: u64 where "NR_mmap = 9"
definition NR_brk :: u64 where "NR_brk = 12"
definition NR_ioctl :: u64 where "NR_ioctl = 16"
definition NR_writev :: u64 where "NR_writev = 20"

lemmas syscall_numbers = NR_write_def NR_open_def NR_mmap_def NR_brk_def NR_ioctl_def NR_writev_def

definition handle_syscall :: "nat \<Rightarrow> u64 \<Rightarrow> u64 \<Rightarrow> u64 \<Rightarrow> u64 \<Rightarrow> u64 \<Rightarrow> u64 \<Rightarrow> u64 \<Rightarrow> u64 \<Rightarrow> kernel \<Rightarrow> (u32 \<times> kernel) option" where
  "handle_syscall fuel dev_mem a b c d e f n k =
     (if n = NR_write then
        Some (sys_write (ucast a) b c (kprint (''SYSCALL: [write] %ld bytes to FD %ld'' @ nl) [Num c, Num a] k))
      else if n = NR_ioctl then
        Some (ioctl (ucast a) (ucast b) c (kprint (''SYSCALL: [ioctl] for FD %ld, request %lx'' @ nl) [Num a, Num b] k))
      else if n = NR_writev then
        Some (writev (ucast a) b (ucast c) (kprint (''SYSCALL: [writev] %ld buffers to FD %ld'' @ nl) [Num c, Num a] k))
      else if n = NR_open then do {
        path \<leftarrow> c_string (ram k) a;
        sys_open dev_mem a (ucast b) (kprint (''SYSCALL: [open] %s'' @ nl) [Str path] k) }
      else if n = NR_mmap then do {
        (r, k) \<leftarrow> mmap fuel a b (ucast c) (ucast d) (ucast e) f
          (kprint (''SYSCALL: [mmap] %ld bytes at %lx with offset %ld of file %ld'' @ nl) [Num b, Num a, Num f, Num e] k);
        Some (ucast r, k) }
      else if n = NR_brk then Some (brk a (kprint (''SYSCALL: [brk] %lx'' @ nl) [Num a] k))
      else Some (- 1, kprint (''UNHANDLED SYSCALL %ld with args %ld %ld %ld %ld %ld %ld'' @ nl)
                       [Num n, Num a, Num b, Num c, Num d, Num e, Num f] k))"

section \<open>Output\<close>

definition console_ok :: "console \<Rightarrow> bool" where
  "console_ok c \<longleftrightarrow> (vga_ready c \<longrightarrow> console_inv c)"

definition buffer :: "memory \<Rightarrow> u64 \<Rightarrow> nat \<Rightarrow> u8 list" where
  "buffer m p n = map (\<lambda>i. m (p + of_nat i)) [0..<n]"

lemma putChar_ok: "console_ok c \<Longrightarrow> console_ok (putChar ch c)"
  using putChar_ready [of c ch] by (simp add: console_ok_def)

lemma swapBuffers_ok: "console_ok (swapBuffers c) = console_ok c"
  by (simp add: console_ok_def swapBuffers_def console_inv_def screen_ok_def)

lemma log_n_buffer: "log_n m buf n c = swapBuffers (fold putChar (buffer m buf (unat n)) c)"
  by (simp add: log_n_def for_upto_def buffer_def fold_map comp_def)

lemma log_n_ok: "console_ok c \<Longrightarrow> console_ok (log_n m buf n c)"
  unfolding log_n_buffer swapBuffers_ok by (rule fold_inv [where P = console_ok]) (simp_all add: putChar_ok)

lemma log_n_serial:
  assumes "console_ok c" "9 \<notin> set (buffer m buf (unat n))"
  shows "port_log (log_n m buf n c) = rev (map (Out 0x3F8) (buffer m buf (unat n))) @ port_log c"
  using fold_putChar_serial [of c "buffer m buf (unat n)"] assms
  by (simp add: log_n_buffer swapBuffers_def console_ok_def)

lemma sys_write_effect:
  assumes "console_ok (console (mem k))" "9 \<notin> set (buffer (ram k) buf (unat n))"
  shows "\<exists>k'. sys_write fd buf n k = (ucast n, k') \<and> ram k' = ram k \<and> console_ok (console (mem k'))
    \<and> kports k' = rev (map (Out 0x3F8) (buffer (ram k) buf (unat n))) @ kports k"
  using log_n_ok [OF assms(1)] log_n_serial [OF assms] by (simp add: sys_write_def)

text \<open>The buffers of a gather list from index \<open>i\<close> on.\<close>

definition iov_buffer :: "memory \<Rightarrow> u64 \<Rightarrow> nat \<Rightarrow> u8 list" where
  "iov_buffer m iov i = buffer m (iov_base m iov i) (unat (iov_len m iov i))"

lemma writev_loop_effect:
  assumes "console_ok (console (mem k))" "\<forall>j. i \<le> j \<and> j < i + n \<longrightarrow> 9 \<notin> set (iov_buffer (ram k) iov j)"
  shows "\<exists>k'. writev_loop n i fd iov w k = (w + (\<Sum>j\<leftarrow>[i..<i + n]. ucast (iov_len (ram k) iov j)), k') \<and> ram k' = ram k
    \<and> console_ok (console (mem k'))
    \<and> kports k' = rev (map (Out 0x3F8) (concat (map (iov_buffer (ram k) iov) [i..<i + n]))) @ kports k"
  using assms
proof (induction n arbitrary: i w k)
  case (Suc n)
  have "9 \<notin> set (buffer (ram k) (iov_base (ram k) iov i) (unat (iov_len (ram k) iov i)))"
    using Suc.prems(2) by (simp add: iov_buffer_def)
  from sys_write_effect [OF Suc.prems(1) this, of fd] obtain k1 where
    k1: "sys_write fd (iov_base (ram k) iov i) (iov_len (ram k) iov i) k = (ucast (iov_len (ram k) iov i), k1)"
      "ram k1 = ram k" "console_ok (console (mem k1))" "kports k1 = rev (map (Out 0x3F8) (iov_buffer (ram k) iov i)) @ kports k"
    by (auto simp: iov_buffer_def)
  have "\<forall>j. Suc i \<le> j \<and> j < Suc i + n \<longrightarrow> 9 \<notin> set (iov_buffer (ram k1) iov j)" using Suc.prems(2) k1(2) by simp
  from Suc.IH [OF k1(3) this, of "w + ucast (iov_len (ram k1) iov i)"] obtain k' where
    k': "writev_loop n (Suc i) fd iov (w + ucast (iov_len (ram k1) iov i)) k1 =
        (w + ucast (iov_len (ram k1) iov i) + (\<Sum>j\<leftarrow>[Suc i..<Suc i + n]. ucast (iov_len (ram k1) iov j)), k')"
      "ram k' = ram k1" "console_ok (console (mem k'))"
      "kports k' = rev (map (Out 0x3F8) (concat (map (iov_buffer (ram k1) iov) [Suc i..<Suc i + n]))) @ kports k1" by blast
  have upt: "[i..<Suc (i + n)] = i # [Suc i..<Suc (i + n)]" by (simp add: upt_conv_Cons del: upt_Suc)
  show ?case
    using k1 k' by (intro exI [of _ k']) (simp add: upt add.assoc del: upt_Suc)
qed simp

text \<open>A request for no pages.\<close>

lemma vmm_mmap_no_pages:
  assumes "blockchain s \<noteq> 0" "fb_pages (blocks s (blockchain s)) \<noteq> 0"
  shows "\<exists>s'. vmm_mmap (Suc (Suc n)) physical 0 is_kernel s = Some (fb_start (blocks s (blockchain s)), s')
    \<and> blockchain s' = blockchain s \<and> blocks s' = blocks s"
  using assms
  by (simp add: vmm_mmap_def vmm_mmap_body_def mmap_init_def take_span_def fun_eq_iff Let_def del: exec.simps(1))

section \<open>Properties\<close>

text \<open>
  C32: \<open>writev\<close> sends the bytes of all buffers, in order, to the serial port and returns their total length
  as an \<open>int\<close>; the memory of the program stays as it is. Tabs, which the console expands, are excluded.
\<close>

theorem writev_correct:
  assumes "console_ok (console (mem k))" "0 \<le> sint iovcnt"
    and "\<forall>i < nat (sint iovcnt). 9 \<notin> set (iov_buffer (ram k) iov i)"
  shows "\<exists>k'. writev fd iov iovcnt k = (\<Sum>i\<leftarrow>[0..<nat (sint iovcnt)]. ucast (iov_len (ram k) iov i), k') \<and> ram k' = ram k
    \<and> kports k' = rev (map (Out 0x3F8) (concat (map (iov_buffer (ram k) iov) [0..<nat (sint iovcnt)]))) @ kports k"
  using writev_loop_effect [of k 0 "nat (sint iovcnt)" iov fd 0] assms by (auto simp: writev_def)

definition sample_ram :: memory where
  "sample_ram = (\<lambda>_. 0)(0x1001 := 0x20, 0x1008 := 2, 0x2000 := 0x6f, 0x2001 := 0x6b)"

lemma load64_bytes: "load64 m a = word_of_nat (unat (m a) + 256 * (unat (m (a + 1)) + 256 * (unat (m (a + 2)) + 256 * (unat (m (a + 3))
    + 256 * (unat (m (a + 4)) + 256 * (unat (m (a + 5)) + 256 * (unat (m (a + 6)) + 256 * unat (m (a + 7)))))))))"
proof -
  have e: "(8 :: nat) = Suc (Suc (Suc (Suc (Suc (Suc (Suc (Suc 0)))))))" by simp
  show ?thesis unfolding load64_def e load_le.simps by (simp add: add.assoc)
qed

theorem writev_correct_witness:
  "\<exists>k'. writev 1 0x1000 1 (sample_kernel\<lparr>ram := sample_ram\<rparr>) = (2, k') \<and> kports k' = [Out 0x3F8 0x6b, Out 0x3F8 0x6f]"
proof -
  define k where "k = sample_kernel\<lparr>ram := sample_ram\<rparr>"
  have iov: "iov_base (ram k) 0x1000 0 = 0x2000" "iov_len (ram k) 0x1000 0 = 2"
    by (simp_all add: k_def iov_base_def iov_len_def load64_bytes) (simp_all add: sample_ram_def)
  then have buf: "iov_buffer (ram k) 0x1000 0 = [0x6f, 0x6b]"
    by (simp add: iov_buffer_def buffer_def k_def sample_ram_def upt_rec)
  have ok: "console_ok (console (mem k))" "kports k = []"
    using sample_console_inv by (simp_all add: console_ok_def k_def sample_kernel_def boot_mm_def sample_console_def)
  have "\<exists>k'. writev 1 0x1000 1 k = (\<Sum>i\<leftarrow>[0..<nat (sint (1 :: u32))]. ucast (iov_len (ram k) 0x1000 i), k') \<and> ram k' = ram k
    \<and> kports k' = rev (map (Out 0x3F8) (concat (map (iov_buffer (ram k) 0x1000) [0..<nat (sint (1 :: u32))]))) @ kports k"
    by (rule writev_correct [OF ok(1)]) (use buf in simp_all)
  then show ?thesis using iov buf ok(2) by (auto simp: k_def)
qed

text \<open>
  C33: Two requests for anonymous memory below the size of a page get the same address: \<open>mmap\<close> rounds the
  number of pages down to zero, and a request for no pages reserves nothing.
\<close>

theorem small_mmaps_alias:
  assumes "unat len < 4096" "unat len' < 4096" "blockchain (mem k) \<noteq> 0" "fb_pages (blocks (mem k) (blockchain (mem k))) \<noteq> 0"
  shows "\<exists>a k1 k2. mmap (Suc (Suc n)) 0 len prot flags (- 1) 0 k = Some (a, k1)
    \<and> mmap (Suc (Suc n)) 0 len' prot flags (- 1) 0 k1 = Some (a, k2)"
proof -
  have z: "len div PAGE_SIZE = 0" "len' div PAGE_SIZE = 0"
    using assms(1,2) by (simp_all add: PAGE_SIZE_def word_unat_eq_iff unat_div_distrib)
  obtain s1 where s1: "vmm_mmap (Suc (Suc n)) 0 0 False (mem k) = Some (fb_start (blocks (mem k) (blockchain (mem k))), s1)"
      "blockchain s1 = blockchain (mem k)" "blocks s1 = blocks (mem k)"
    using vmm_mmap_no_pages [OF assms(3,4)] by blast
  obtain s2 where "vmm_mmap (Suc (Suc n)) 0 0 False s1 = Some (fb_start (blocks s1 (blockchain s1)), s2)"
    using vmm_mmap_no_pages [of s1 n 0 False] s1(2,3) assms(3,4) by auto
  then show ?thesis using s1 z by (simp add: mmap_def on_mem_def)
qed

theorem small_mmaps_alias_witness:
  "\<exists>a k1 k2. mmap (Suc (Suc 0)) 0 100 3 1 (- 1) 0 (sample_kernel\<lparr>mem := sample_mm\<rparr>) = Some (a, k1)
    \<and> mmap (Suc (Suc 0)) 0 200 3 1 (- 1) 0 k1 = Some (a, k2)"
  by (rule small_mmaps_alias) (simp_all add: sample_mm_def)

end
