(* ===== verification/Multibyte.thy ===== *)
theory Multibyte
  imports Klib
begin

text \<open>
  The conversion between wide characters and UTF-8 of the C library (multibyte/wcrtomb.c, wctomb.c,
  mbrtowc.c, internal.h, internal.c). \<open>MB_CUR_MAX\<close> depends on the locale and is a parameter. Results
  are the return value with what is stored; \<open>EILSEQ\<close> is a flag of the result.
\<close>

section \<open>Encoding\<close>

definition IS_CODEUNIT :: "u32 \<Rightarrow> bool" where "IS_CODEUNIT c \<longleftrightarrow> c - 0xdf80 < 0x80"
definition CODEUNIT :: "u8 \<Rightarrow> u32" where "CODEUNIT c = 0xdfff AND scast c"

text \<open>The bytes that \<open>wcrtomb\<close> stores, from the first to the last; \<open>None\<close> is \<open>EILSEQ\<close>.\<close>

definition wc_bytes :: "nat \<Rightarrow> u32 \<Rightarrow> u8 list option" where
  "wc_bytes mb_cur_max wc =
     (if wc < 0x80 then Some [ucast wc]
      else if mb_cur_max = 1 then (if \<not> IS_CODEUNIT wc then None else Some [ucast wc])
      else if wc < 0x800 then
        Some [0xc0 OR ucast (signed_drop_bit 6 wc), 0x80 OR ucast (wc AND 0x3f)]
      else if wc < 0xd800 \<or> wc - 0xe000 < 0x2000 then
        Some [0xe0 OR ucast (signed_drop_bit 12 wc), 0x80 OR ucast (signed_drop_bit 6 wc AND 0x3f), 0x80 OR ucast (wc AND 0x3f)]
      else if wc - 0x10000 < 0x100000 then
        Some [0xf0 OR ucast (signed_drop_bit 18 wc), 0x80 OR ucast (signed_drop_bit 12 wc AND 0x3f),
              0x80 OR ucast (signed_drop_bit 6 wc AND 0x3f), 0x80 OR ucast (wc AND 0x3f)]
      else None)"

record mb_result =
  mb_ret :: u64
  mb_mem :: memory
  mb_ilseq :: bool

definition wcrtomb :: "nat \<Rightarrow> memory \<Rightarrow> u64 \<Rightarrow> u32 \<Rightarrow> mb_result" where
  "wcrtomb mb_cur_max m s wc =
     (if s = NULL then \<lparr>mb_ret = 1, mb_mem = m, mb_ilseq = False\<rparr>
      else case wc_bytes mb_cur_max wc of
        None \<Rightarrow> \<lparr>mb_ret = - 1, mb_mem = m, mb_ilseq = True\<rparr>
      | Some bs \<Rightarrow> \<lparr>mb_ret = of_nat (length bs), mb_mem = put m s bs, mb_ilseq = False\<rparr>)"

definition wctomb :: "nat \<Rightarrow> memory \<Rightarrow> u64 \<Rightarrow> u32 \<Rightarrow> mb_result" where
  "wctomb mb_cur_max m s wc =
     (if s = NULL then \<lparr>mb_ret = 0, mb_mem = m, mb_ilseq = False\<rparr> else wcrtomb mb_cur_max m s wc)"

section \<open>The table of the decoder\<close>

text \<open>
  A state holds the bits read so far, a bit for every byte that is missing, and in its six top bits a
  negative offset that checks the next byte.
\<close>

definition R_range :: "u32 \<Rightarrow> u32 \<Rightarrow> u32" where
  "R_range a b = push_bit 23 (if a = 0x80 then 0x40 - b else 0 - a)"

definition C_entry :: "u32 \<Rightarrow> u32" where
  "C_entry x = (if x < 2 then - 1 else R_range 0x80 0xc0 OR x)"

definition D_entry :: "u32 \<Rightarrow> u32" where "D_entry x = C_entry (x + 16)"

definition E_entry :: "u32 \<Rightarrow> u32" where
  "E_entry x = (if x = 0 then R_range 0xa0 0xc0 else if x = 0xd then R_range 0x80 0xa0 else R_range 0x80 0xc0)
     OR drop_bit 6 (R_range 0x80 0xc0) OR x"

definition F_entry :: "u32 \<Rightarrow> u32" where
  "F_entry x = (if x \<ge> 5 then 0 else if x = 0 then R_range 0x90 0xc0 else if x = 4 then R_range 0x80 0x90 else R_range 0x80 0xc0)
     OR drop_bit 6 (R_range 0x80 0xc0) OR drop_bit 12 (R_range 0x80 0xc0) OR x"

definition bittab :: "u32 list" where
  "bittab = map C_entry [2, 3, 4, 5, 6, 7, 8, 9, 0xa, 0xb, 0xc, 0xd, 0xe, 0xf]
     @ map D_entry [0, 1, 2, 3, 4, 5, 6, 7, 8, 9, 0xa, 0xb, 0xc, 0xd, 0xe, 0xf]
     @ map E_entry [0, 1, 2, 3, 4, 5, 6, 7, 8, 9, 0xa, 0xb, 0xc, 0xd, 0xe, 0xf]
     @ map F_entry [0, 1, 2, 3, 4]"

definition SA :: u32 where "SA = 0xc2"
definition SB :: u32 where "SB = 0xf4"

definition OOB :: "u32 \<Rightarrow> u8 \<Rightarrow> bool" where
  "OOB c b \<longleftrightarrow>
     (((drop_bit 3 (ucast b) - 0x10) OR (drop_bit 3 (ucast b) + signed_drop_bit 26 c)) AND NOT 7 :: u32) \<noteq> 0"

section \<open>Decoding\<close>

datatype mb_step = Mb_done u32 nat | Mb_more u32 | Mb_bad

text \<open>The loop over the bytes after the first, with \<open>n\<close> bytes left at \<open>s\<close>.\<close>

fun mb_loop :: "memory \<Rightarrow> u64 \<Rightarrow> nat \<Rightarrow> u32 \<Rightarrow> mb_step" where
  "mb_loop m s 0 c = Mb_more c"
| "mb_loop m s (Suc n) c =
     (let c = push_bit 6 c OR (ucast (m s) - 0x80)
      in if c AND 0x80000000 = 0 then Mb_done c n
         else if n \<noteq> 0
              then (if (ucast (m (s + 1)) :: u32) - 0x80 \<ge> 0x40 then Mb_bad else mb_loop m (s + 1) n c)
              else Mb_more c)"

text \<open>
  The result of \<open>mbrtowc\<close>: the return value, the character stored at \<open>wc\<close> if one is, the new state
  and whether \<open>errno\<close> is set to \<open>EILSEQ\<close>.
\<close>

record wc_result =
  wc_ret :: u64
  wc_char :: "u32 option"
  wc_state :: u32
  wc_ilseq :: bool

definition ilseq :: wc_result where
  "ilseq = \<lparr>wc_ret = - 1, wc_char = None, wc_state = 0, wc_ilseq = True\<rparr>"

definition mb_rest :: "memory \<Rightarrow> u64 \<Rightarrow> nat \<Rightarrow> u32 \<Rightarrow> u64 \<Rightarrow> wc_result" where
  "mb_rest m s n c N =
     (if n \<noteq> 0 \<and> OOB c (m s) then ilseq
      else case mb_loop m s n c of
        Mb_done c n \<Rightarrow> \<lparr>wc_ret = N - of_nat n, wc_char = Some c, wc_state = 0, wc_ilseq = False\<rparr>
      | Mb_more c \<Rightarrow> \<lparr>wc_ret = - 2, wc_char = None, wc_state = c, wc_ilseq = False\<rparr>
      | Mb_bad \<Rightarrow> ilseq)"

text \<open>The variable \<open>N\<close> of the code has 32 bits.\<close>

definition mbrtowc :: "nat \<Rightarrow> memory \<Rightarrow> u64 \<Rightarrow> u64 \<Rightarrow> u32 \<Rightarrow> wc_result" where
  "mbrtowc mb_cur_max m src n st =
     (let N = ucast (ucast n :: u32) :: u64
      in if src = NULL then (if st \<noteq> 0 then ilseq else \<lparr>wc_ret = 0, wc_char = None, wc_state = st, wc_ilseq = False\<rparr>)
         else if n = 0 then \<lparr>wc_ret = - 2, wc_char = None, wc_state = st, wc_ilseq = False\<rparr>
         else if st = 0 then
           (let b = m src
            in if b < 0x80 then \<lparr>wc_ret = (if b \<noteq> 0 then 1 else 0), wc_char = Some (ucast b), wc_state = st, wc_ilseq = False\<rparr>
               else if mb_cur_max = 1 then \<lparr>wc_ret = 1, wc_char = Some (CODEUNIT b), wc_state = st, wc_ilseq = False\<rparr>
               else if ucast b - SA > SB - SA then ilseq
               else mb_rest m (src + 1) (unat n - 1) (bittab ! unat (ucast b - SA)) N)
         else mb_rest m src (unat n) st N)"

section \<open>UTF-8\<close>

text \<open>The characters and their encoding as numbers.\<close>

definition scalar :: "nat \<Rightarrow> bool" where
  "scalar n \<longleftrightarrow> n < 0xd800 \<or> 0xe000 \<le> n \<and> n < 0x110000"

definition utf8 :: "nat \<Rightarrow> nat list" where
  "utf8 n =
     (if n < 0x80 then [n]
      else if n < 0x800 then [0xc0 + n div 0x40, 0x80 + n mod 0x40]
      else if n < 0x10000 then [0xe0 + n div 0x1000, 0x80 + n div 0x40 mod 0x40, 0x80 + n mod 0x40]
      else [0xf0 + n div 0x40000, 0x80 + n div 0x1000 mod 0x40, 0x80 + n div 0x40 mod 0x40, 0x80 + n mod 0x40])"

definition continues :: "u8 \<Rightarrow> bool" where
  "continues b \<longleftrightarrow> 0x80 \<le> unat b \<and> unat b < 0xc0"

section \<open>The encoder\<close>

lemma or_add_nat: "y < 2 ^ k \<Longrightarrow> 2 ^ k dvd x \<Longrightarrow> (x :: nat) OR y = x + y"
proof -
  assume h: "y < 2 ^ k" "2 ^ k dvd x"
  have "\<not> bit x n \<or> \<not> bit y n" for n
  proof (cases "n < k")
    case True
    have "take_bit k x = 0" using h(2) by (simp add: take_bit_eq_0_iff)
    then have "\<not> bit (take_bit k x) n" by simp
    then show ?thesis using True by (simp add: bit_take_bit_iff)
  next
    case False
    have "take_bit k y = y" using h(1) by (simp add: take_bit_nat_eq_self_iff)
    then have "\<not> bit y n" using False by (metis bit_take_bit_iff)
    then show ?thesis by simp
  qed
  then show ?thesis by (simp add: disjunctive_add)
qed

lemma and_63: "(n :: nat) AND 63 = n mod 64"
proof -
  have "(63 :: nat) = mask 6" by (simp add: mask_eq_exp_minus_1)
  then have "n AND 63 = take_bit 6 n" by (simp only: take_bit_eq_mask)
  then show ?thesis by (simp add: take_bit_eq_mod)
qed

lemma unat_shift_right: "unat w < 2 ^ 31 \<Longrightarrow> unat (signed_drop_bit n (w :: u32)) = unat w div 2 ^ n"
proof -
  assume "unat w < 2 ^ 31"
  then have "take_bit 31 (unat w) = unat w" by (simp only: take_bit_nat_eq_self_iff)
  then have "\<not> bit (unat w) 31" by (metis bit_take_bit_iff less_irrefl)
  then have no: "\<not> bit w 31" by (simp add: bit_unsigned_iff)
  then have "bit (signed_drop_bit n w) i = bit (drop_bit n w) i" if "i < 32" for i
    using that bit_imp_le_length [of w "n + i"] by (auto simp: bit_signed_drop_bit_iff bit_drop_bit_eq)
  then have "signed_drop_bit n w = drop_bit n w" by (intro bit_word_eqI) simp
  then show ?thesis by (simp only: unat_drop_bit_eq) (simp add: drop_bit_eq_div)
qed

lemma byte_eq_of_nat: "unat (b :: u8) = n \<Longrightarrow> b = of_nat n"
  by (drule arg_cong [where f = "of_nat :: nat \<Rightarrow> u8"]) (simp add: of_nat_unat)

lemma unat_byte32: "unat (ucast (w :: u32) :: u8) = unat w mod 256"
  by (simp add: unsigned_ucast_eq take_bit_eq_mod)

lemma unat_low6: "unat ((w :: u32) AND 0x3f) = unat w mod 64"
  by (simp add: unsigned_and_eq and_63)

lemma unat_tag:
  assumes "unat (x :: u8) < 2 ^ k" "2 ^ k dvd unat t"
  shows "unat (t OR x) = unat t + unat x"
  using or_add_nat [OF assms] by (simp add: unsigned_or_eq)

lemma tail_byte:
  assumes "unat (wc :: u32) < 2 ^ 31"
  shows "0x80 OR ucast (signed_drop_bit k wc AND 0x3f) = (of_nat (0x80 + unat wc div 2 ^ k mod 0x40) :: u8)"
proof (rule byte_eq_of_nat)
  let ?x = "ucast (signed_drop_bit k wc AND 0x3f) :: u8"
  have x: "unat ?x = unat wc div 2 ^ k mod 0x40"
    by (simp add: unat_byte32 unat_low6 unat_shift_right [OF assms])
  have "unat (0x80 OR ?x) = unat (0x80 :: u8) + unat ?x" by (rule unat_tag [where k = 6]) (simp_all add: x)
  then show "unat (0x80 OR ?x) = 0x80 + unat wc div 2 ^ k mod 0x40" by (simp add: x)
qed

lemma lead_byte:
  assumes "unat (wc :: u32) < 2 ^ 31" "unat wc div 2 ^ k < 2 ^ j" "2 ^ j dvd unat t" "unat t + 2 ^ j \<le> 256"
  shows "t OR ucast (signed_drop_bit k wc) = (of_nat (unat t + unat wc div 2 ^ k) :: u8)"
proof (rule byte_eq_of_nat)
  let ?x = "ucast (signed_drop_bit k wc) :: u8"
  have x: "unat ?x = unat wc div 2 ^ k"
    using assms(2,4) by (simp add: unat_byte32 unat_shift_right [OF assms(1)])
  have "unat (t OR ?x) = unat t + unat ?x" by (rule unat_tag [OF _ assms(3)]) (simp add: x assms(2))
  then show "unat (t OR ?x) = unat t + unat wc div 2 ^ k" by (simp add: x)
qed

lemma last_byte:
  assumes "unat (wc :: u32) < 2 ^ 31"
  shows "0x80 OR ucast (wc AND 0x3f) = (of_nat (0x80 + unat wc mod 0x40) :: u8)"
  using tail_byte [OF assms, of 0] by simp

lemma wc_bytes_utf8:
  assumes "mb_cur_max \<noteq> 1"
  shows "wc_bytes mb_cur_max wc = (if scalar (unat wc) then Some (map of_nat (utf8 (unat wc))) else None)"
proof -
  define n where "n = unat wc"
  note many = assms [unfolded One_nat_def]
  have lt: "wc < x \<longleftrightarrow> n < unat x" for x by (simp add: n_def word_less_nat_alt)
  have in_range: "wc - a < b \<longleftrightarrow> unat a \<le> n \<and> n < unat a + unat b" if "unat a + unat b < 2 ^ 32" for a b
    using that unat32_lt [of wc] by (simp add: n_def word_less_nat_alt unat_sub_if_size word_size) arith
  consider "n < 0x80" | "0x80 \<le> n" "n < 0x800" | "0x800 \<le> n" "n < 0x10000" | "0x10000 \<le> n" "n < 0x110000" | "0x110000 \<le> n"
    by linarith
  then show ?thesis
  proof cases
    case 1
    then have "(ucast wc :: u8) = of_nat n" by (intro byte_eq_of_nat) (simp add: unat_byte32 flip: n_def)
    then show ?thesis using 1 by (simp add: wc_bytes_def lt scalar_def utf8_def flip: n_def)
  next
    case 2
    then show ?thesis using lead_byte [of wc 6 5 "0xc0"] last_byte [of wc]
      by (simp add: wc_bytes_def lt scalar_def utf8_def many flip: n_def)
  next
    case 3
    then show ?thesis using lead_byte [of wc 12 4 "0xe0"] tail_byte [of wc 6] last_byte [of wc]
      by (simp add: wc_bytes_def lt in_range scalar_def utf8_def many flip: n_def)
  next
    case 4
    then show ?thesis using lead_byte [of wc 18 3 "0xf0"] tail_byte [of wc 12] tail_byte [of wc 6] last_byte [of wc]
      by (simp add: wc_bytes_def lt in_range scalar_def utf8_def many flip: n_def)
  next
    case 5
    then show ?thesis by (simp add: wc_bytes_def lt in_range scalar_def many flip: n_def)
  qed
qed

section \<open>The decoder\<close>

lemma high_bit: "(c :: u32) AND 0x80000000 = 0 \<longleftrightarrow> unat c < 2 ^ 31"
proof -
  have "(0x80000000 :: u32) = 2 ^ 31" by simp
  then have "c AND 0x80000000 = 0 \<longleftrightarrow> \<not> bit c 31" by (simp only: and_exp_eq_0_iff_not_bit)
  also have "bit c 31 \<longleftrightarrow> bit (unat c) 31" by (simp add: bit_unsigned_iff)
  also have "\<dots> \<longleftrightarrow> odd (unat c div 2 ^ 31)" by (rule bit_iff_odd)
  also have "\<dots> \<longleftrightarrow> 2 ^ 31 \<le> unat c"
  proof (cases "2 ^ 31 \<le> unat c")
    case True
    then obtain r where r: "unat c = 2 ^ 31 + r" using le_Suc_ex by blast
    then have "r < 2 ^ 31" using unat32_lt [of c] by simp
    then show ?thesis using r div_add_self1 [of "2 ^ 31 :: nat" r] by simp
  qed simp
  finally show ?thesis by (simp add: not_le)
qed

lemma and_7_nat: "(n :: nat) AND 7 = n mod 8"
proof -
  have "(7 :: nat) = mask 3" by (simp add: mask_eq_exp_minus_1)
  then have "n AND 7 = take_bit 3 n" by (simp only: take_bit_eq_mask)
  then show ?thesis by (simp add: take_bit_eq_mod)
qed

lemma and_not_7: "(x :: u32) AND NOT 7 = 0 \<longleftrightarrow> unat x < 8"
proof -
  have "x AND NOT 7 = 0 \<longleftrightarrow> x = x AND 7" by (auto simp: bit_eq_iff bit_simps)
  also have "\<dots> \<longleftrightarrow> unat x = unat (x AND 7)" by (simp only: word_unat_eq_iff)
  also have "unat (x AND 7) = unat x mod 8" by (simp add: unsigned_and_eq and_7_nat)
  finally show ?thesis by (metis mod_less mod_less_divisor zero_less_numeral)
qed

lemma unat_push6: "unat (push_bit 6 (c :: u32)) = 64 * (unat c mod 2 ^ 26)"
proof -
  have "unat (push_bit 6 c) = 64 * unat c mod (64 * 2 ^ 26)" by (simp add: push_bit_eq_mult unat_word_ariths mult.commute)
  then show ?thesis by (simp only: mult_mod_right)
qed

lemma feed:
  assumes "continues b"
  shows "unat (push_bit 6 c OR (ucast b - 0x80) :: u32) = 64 * (unat c mod 2 ^ 26) + (unat b - 0x80)"
proof -
  have b: "unat (ucast b - 0x80 :: u32) = unat b - 0x80"
    using assms by (simp add: continues_def unat_sub word_le_nat_alt unsigned_ucast_eq take_bit_eq_mod)
  then have "64 * (unat c mod 2 ^ 26) OR (unat b - 0x80) = 64 * (unat c mod 2 ^ 26) + (unat b - 0x80)"
    using assms by (intro or_add_nat [where k = 6]) (auto simp: continues_def)
  then show ?thesis by (simp only: unsigned_or_eq unat_push6 b)
qed

lemma sint32_negative:
  assumes "2 ^ 31 \<le> unat (x :: u32)"
  shows "sint x = int (unat x) - 2 ^ 32"
proof -
  have u: "int (unat x) = sint x mod 2 ^ 32" by (simp add: uint_sint take_bit_eq_mod)
  have r: "- (2 ^ 31) \<le> sint x" "sint x < 2 ^ 31" using sint_range_size [of x] by (auto simp: word_size)
  have "sint x < 0"
  proof (rule ccontr)
    assume "\<not> sint x < 0"
    then have "sint x mod 2 ^ 32 < 2 ^ 31" using r by (simp add: mod_pos_pos_trivial)
    then have "int (unat x) < int (2 ^ 31)" unfolding u [symmetric] by simp
    then show False using assms by (simp only: of_nat_less_iff)
  qed
  then have "sint x mod 2 ^ 32 = sint x + 2 ^ 32"
    using r by (subst mod_pos_pos_trivial [of "sint x + 2 ^ 32" "2 ^ 32", symmetric]) auto
  then show ?thesis using u by simp
qed

lemma arith_shift_26:
  assumes "32 \<le> unat c div 2 ^ 26"
  shows "signed_drop_bit 26 (c :: u32) = word_of_int (int (unat c div 2 ^ 26) - 64)"
proof -
  have "32 * 2 ^ 26 \<le> unat c" using assms by (simp add: less_eq_div_iff_mult_less_eq)
  then have "sint c = int (unat c) - 2 ^ 32" by (intro sint32_negative) simp
  then have "sint (signed_drop_bit 26 c) = (int (unat c) - 64 * 2 ^ 26) div 2 ^ 26"
    by (simp add: sint_signed_drop_bit_eq drop_bit_eq_div)
  also have "\<dots> = int (unat c div 2 ^ 26) - 64" by (simp add: zdiv_int) 
  finally have "word_of_int (sint (signed_drop_bit 26 c)) = (word_of_int (int (unat c div 2 ^ 26) - 64) :: u32)"
    by (simp only:)
  then show ?thesis by (simp flip: scast_eq)
qed

lemma small_offset:
  assumes "- 64 \<le> k" "k < 64"
  shows "unat (word_of_int k :: u32) < 8 \<longleftrightarrow> 0 \<le> k \<and> k < 8"
proof (cases "0 \<le> k")
  case True
  then have "uint (word_of_int k :: u32) = k" using assms by (simp add: uint_word_of_int)
  then show ?thesis using True by (simp add: unat_eq_nat_uint nat_less_iff)
next
  case False
  then have "k mod 2 ^ 32 = k + 2 ^ 32"
    using assms by (subst mod_pos_pos_trivial [of "k + 2 ^ 32" "2 ^ 32", symmetric]) auto
  then have "uint (word_of_int k :: u32) = k + 2 ^ 32" by (simp add: uint_word_of_int)
  then show ?thesis using False assms by (simp add: unat_eq_nat_uint nat_less_iff)
qed

lemma OOB_iff:
  assumes "32 \<le> unat c div 2 ^ 26"
  shows "OOB c b \<longleftrightarrow> \<not> (continues b \<and> 64 - unat c div 2 ^ 26 \<le> unat b div 8 \<and> unat b div 8 < 72 - unat c div 2 ^ 26)"
proof -
  have t: "unat c div 2 ^ 26 < 64" using unat32_lt [of c] by (simp add: div_less_iff_less_mult)
  have q: "drop_bit 3 (ucast b :: u32) = word_of_int (int (unat b div 8))"
  proof (rule word_unat_eq_iff [THEN iffD2])
    have u: "unat (ucast b :: u32) = unat b" using unat8_lt [of b] by (simp add: unsigned_ucast_eq take_bit_eq_mod)
    have "unat (drop_bit 3 (ucast b :: u32)) = drop_bit 3 (unat b)" by (simp only: unat_drop_bit_eq u)
    then have "unat (drop_bit 3 (ucast b :: u32)) = unat b div 8" by (simp add: drop_bit_eq_div)
    then show "unat (drop_bit 3 (ucast b :: u32)) = unat (word_of_int (int (unat b div 8)) :: u32)"
      using unat8_lt [of b] by (simp add: unat_of_nat)
  qed
  have qb: "unat b div 8 < 32" using unat8_lt [of b] by simp
  have "OOB c b \<longleftrightarrow> \<not> (unat (word_of_int (int (unat b div 8) - 16) :: u32) < 8
      \<and> unat (word_of_int (int (unat b div 8) + (int (unat c div 2 ^ 26) - 64)) :: u32) < 8)"
    by (simp add: OOB_def q arith_shift_26 [OF assms] bit.conj_disj_distrib2 or_eq_0_iff flip: and_not_7)
  also have "\<dots> \<longleftrightarrow> \<not> (16 \<le> unat b div 8 \<and> unat b div 8 < 24
      \<and> 64 - unat c div 2 ^ 26 \<le> unat b div 8 \<and> unat b div 8 < 72 - unat c div 2 ^ 26)"
    using t qb assms small_offset [of "int (unat b div 8) - 16"] small_offset [of "int (unat b div 8) + (int (unat c div 2 ^ 26) - 64)"]
    by linarith
  finally show ?thesis by (auto simp: continues_def)
qed

definition entry_value :: "nat \<Rightarrow> nat" where
  "entry_value b =
     (if b < 0xe0 then 0xC0000000 + (b - 0xc0)
      else if b < 0xf0 then (if b = 0xe0 then 0xB3000000 else if b = 0xed then 0xD3000000 else 0xC3000000) + (b - 0xe0)
      else (if b = 0xf0 then 0xBB0C0000 else if b = 0xf4 then 0xDB0C0000 else 0xC30C0000) + (b - 0xf0))"

lemma bittab_values: "map unat bittab = map entry_value [0xc2..<0xf5]"
  by (simp add: bittab_def C_entry_def D_entry_def E_entry_def F_entry_def R_range_def entry_value_def upt_rec)
    (simp add: word_le_nat_alt)

lemma bittab_nth:
  assumes "0xc2 \<le> b" "b \<le> 0xf4"
  shows "unat (bittab ! (b - 0xc2)) = entry_value b"
proof -
  have len: "length bittab = 51" by (simp add: bittab_def)
  have "unat (bittab ! (b - 0xc2)) = map unat bittab ! (b - 0xc2)" using assms by (simp add: len)
  also have "\<dots> = entry_value ([0xc2..<0xf5] ! (b - 0xc2))"
    unfolding bittab_values using assms by (subst nth_map) (simp_all only: length_upt)
  also have "[0xc2..<0xf5] ! (b - 0xc2) = b" using assms by (subst nth_upt) simp_all
  finally show ?thesis .
qed

section \<open>Decoding an encoded character\<close>

text \<open>The entry of a lead byte: its low bits, and the range of the byte that follows.\<close>

definition second_from :: "nat \<Rightarrow> nat" where
  "second_from b = (if b = 0xe0 then 0xa0 else if b = 0xf0 then 0x90 else 0x80)"

definition second_below :: "nat \<Rightarrow> nat" where
  "second_below b = (if b = 0xed then 0xa0 else if b = 0xf4 then 0x90 else 0xc0)"

lemma OOB_lead:
  assumes "0xc2 \<le> b" "b \<le> 0xf4"
  shows "OOB (bittab ! (b - 0xc2)) x \<longleftrightarrow> \<not> (second_from b \<le> unat x \<and> unat x < second_below b)"
proof -
  have d: "unat (bittab ! (b - 0xc2)) div 2 ^ 26 =
    (if b = 0xe0 then 44 else if b = 0xed then 52 else if b = 0xf0 then 46 else if b = 0xf4 then 54 else 48)"
    using assms unfolding bittab_nth [OF assms] by (intro div_nat_eqI) (simp_all add: entry_value_def)
  have "OOB (bittab ! (b - 0xc2)) x \<longleftrightarrow> \<not> (continues x \<and> 64 - unat (bittab ! (b - 0xc2)) div 2 ^ 26 \<le> unat x div 8
      \<and> unat x div 8 < 72 - unat (bittab ! (b - 0xc2)) div 2 ^ 26)"
    by (rule OOB_iff) (simp only: d, simp)
  also have "\<dots> \<longleftrightarrow> \<not> (second_from b \<le> unat x \<and> unat x < second_below b)"
    unfolding d continues_def second_from_def second_below_def by auto
  finally show ?thesis .
qed

lemma guard_continues: "(ucast b :: u32) - 0x80 \<ge> 0x40 \<longleftrightarrow> \<not> continues b"
proof -
  have b: "unat (ucast b :: u32) = unat b" using unat8_lt [of b] by (simp add: unsigned_ucast_eq take_bit_eq_mod)
  then show ?thesis using unat8_lt [of b]
    by (auto simp: word_le_nat_alt unat_sub_if_size word_size continues_def)
qed

text \<open>One round of the loop, when it is the last one and when bytes are missing.\<close>

lemma loop_last:
  assumes "continues (m s)" "unat c mod 2 ^ 26 = v" "v < 2 ^ 20"
  shows "mb_loop m s (Suc n) c = Mb_done (of_nat (64 * v + (unat (m s) - 0x80))) n"
proof -
  let ?c = "push_bit 6 c OR (ucast (m s) - 0x80) :: u32"
  have u: "unat ?c = 64 * v + (unat (m s) - 0x80)" using feed [OF assms(1), of c] assms(2) by simp
  then have "?c AND 0x80000000 = 0" using assms(1,3) unfolding high_bit continues_def by auto
  moreover have "?c = of_nat (64 * v + (unat (m s) - 0x80))" unfolding u [symmetric] by (simp add: of_nat_unat)
  ultimately show ?thesis by (simp add: Let_def)
qed

lemma loop_more:
  assumes "continues (m s)" "unat c mod 2 ^ 26 = a + v" "2 ^ 25 \<le> a"
  obtains c' where "unat c' = 64 * (a + v) + (unat (m s) - 0x80)"
    "mb_loop m s (Suc n) c = (if n = 0 then Mb_more c' else if continues (m (s + 1)) then mb_loop m (s + 1) n c' else Mb_bad)"
proof -
  let ?c = "push_bit 6 c OR (ucast (m s) - 0x80) :: u32"
  have u: "unat ?c = 64 * (a + v) + (unat (m s) - 0x80)" using feed [OF assms(1), of c] assms(2) by simp
  then have "?c AND 0x80000000 \<noteq> 0" using assms(3) unfolding high_bit by simp
  then show thesis using that [of ?c] u by (simp add: Let_def guard_continues)
qed

lemma mod_top: "v < 2 ^ 26 \<Longrightarrow> (k * 2 ^ 26 + v) mod 2 ^ 26 = (v :: nat)"
  by (simp only: mod_mult_self3 mod_less)

lemma decode_2:
  assumes "unat c = k * 2 ^ 26 + v" "v < 2 ^ 20" "continues (m s)"
  shows "mb_loop m s (Suc n) c = Mb_done (of_nat (64 * v + (unat (m s) - 0x80))) n"
proof -
  have "v < 2 ^ 26" using assms(2) by simp
  then show ?thesis using loop_last [of m s c v n] assms by (simp only: mod_top)
qed

lemma decode_3:
  assumes "unat c = k * 2 ^ 26 + (0x3000000 + v)" "v < 2 ^ 12" "continues (m s)"
  obtains c' where "unat c' = 48 * 2 ^ 26 + (64 * v + (unat (m s) - 0x80))"
    "mb_loop m s (Suc n) c =
       (if n = 0 then Mb_more c'
        else if continues (m (s + 1))
             then Mb_done (of_nat (64 * (64 * v + (unat (m s) - 0x80)) + (unat (m (s + 1)) - 0x80))) (n - 1)
             else Mb_bad)"
proof -
  have "0x3000000 + v < 2 ^ 26" using assms(2) by simp
  then have "unat c mod 2 ^ 26 = 0x3000000 + v" unfolding assms(1) by (rule mod_top)
  then obtain c' where c': "unat c' = 64 * (0x3000000 + v) + (unat (m s) - 0x80)"
    and l: "mb_loop m s (Suc n) c = (if n = 0 then Mb_more c' else if continues (m (s + 1)) then mb_loop m (s + 1) n c' else Mb_bad)"
    using assms(3) by (elim loop_more [of m s c "0x3000000" v n]) simp_all
  have u: "unat c' = 48 * 2 ^ 26 + (64 * v + (unat (m s) - 0x80))" unfolding c' by simp
  moreover have "64 * v + (unat (m s) - 0x80) < 2 ^ 20" using assms(2,3) unfolding continues_def by auto
  ultimately show thesis using decode_2 [of c' 48 "64 * v + (unat (m s) - 0x80)" m "s + 1"] l that [of c'] by (cases n) simp_all
qed

lemma decode_4:
  assumes "unat c = k * 2 ^ 26 + (0x30C0000 + v)" "v < 8" "continues (m s)"
  obtains c' where "unat c' = 48 * 2 ^ 26 + (0x3000000 + (64 * v + (unat (m s) - 0x80)))"
    "mb_loop m s (Suc n) c =
       (if n = 0 then Mb_more c' else if continues (m (s + 1)) then mb_loop m (s + 1) n c' else Mb_bad)"
proof -
  have "0x30C0000 + v < 2 ^ 26" using assms(2) by simp
  then have "unat c mod 2 ^ 26 = 0x30C0000 + v" unfolding assms(1) by (rule mod_top)
  then obtain c' where c': "unat c' = 64 * (0x30C0000 + v) + (unat (m s) - 0x80)"
    and l: "mb_loop m s (Suc n) c = (if n = 0 then Mb_more c' else if continues (m (s + 1)) then mb_loop m (s + 1) n c' else Mb_bad)"
    using assms(3) by (elim loop_more [of m s c "0x30C0000" v n]) simp_all
  have "unat c' = 48 * 2 ^ 26 + (0x3000000 + (64 * v + (unat (m s) - 0x80)))" unfolding c' by simp
  then show thesis using l that [of c'] by simp
qed

text \<open>The well-formed sequences of bytes and the characters they stand for.\<close>

fun decodes :: "nat list \<Rightarrow> nat \<Rightarrow> bool" where
  "decodes [a] c \<longleftrightarrow> a < 0x80 \<and> c = a"
| "decodes [a, b] c \<longleftrightarrow> 0xc2 \<le> a \<and> a < 0xe0 \<and> second_from a \<le> b \<and> b < second_below a \<and> c = 64 * (a - 0xc0) + (b - 0x80)"
| "decodes [a, b, d] c \<longleftrightarrow> 0xe0 \<le> a \<and> a < 0xf0 \<and> second_from a \<le> b \<and> b < second_below a \<and> 0x80 \<le> d \<and> d < 0xc0
     \<and> c = 64 * (64 * (a - 0xe0) + (b - 0x80)) + (d - 0x80)"
| "decodes [a, b, d, e] c \<longleftrightarrow> 0xf0 \<le> a \<and> a \<le> 0xf4 \<and> second_from a \<le> b \<and> b < second_below a \<and> 0x80 \<le> d \<and> d < 0xc0 \<and> 0x80 \<le> e \<and> e < 0xc0
     \<and> c = 64 * (64 * (64 * (a - 0xf0) + (b - 0x80)) + (d - 0x80)) + (e - 0x80)"
| "decodes _ c \<longleftrightarrow> False"

lemma divmod_64: "z < 64 \<Longrightarrow> (64 * w + z) div 64 = w" "z < 64 \<Longrightarrow> (64 * w + z) mod 64 = (z :: nat)"
  by simp_all

lemma utf8_2: "2 \<le> v \<Longrightarrow> v < 32 \<Longrightarrow> y < 64 \<Longrightarrow> utf8 (64 * v + y) = [0xc0 + v, 0x80 + y]"
  by (simp add: utf8_def)

lemma utf8_3:
  assumes "32 \<le> 64 * v + y" "v < 16" "y < 64" "z < 64"
  shows "utf8 (64 * (64 * v + y) + z) = [0xe0 + v, 0x80 + y, 0x80 + z]"
proof -
  let ?n = "64 * (64 * v + y) + z"
  have "?n div 64 = 64 * v + y" "?n mod 64 = z" using assms(4) by (simp_all only: divmod_64)
  moreover have "?n div 0x1000 = ?n div 64 div 64" by (simp flip: div_mult2_eq)
  moreover have "(64 * v + y) div 64 = v" "(64 * v + y) mod 64 = y" using assms(3) by (simp_all only: divmod_64)
  moreover have "\<not> ?n < 0x80" "\<not> ?n < 0x800" "?n < 0x10000" using assms by simp_all
  ultimately show ?thesis by (simp add: utf8_def)
qed

lemma utf8_4:
  assumes "16 \<le> 64 * v + y" "v < 8" "x < 64" "y < 64" "z < 64"
  shows "utf8 (64 * (64 * (64 * v + y) + x) + z) = [0xf0 + v, 0x80 + y, 0x80 + x, 0x80 + z]"
proof -
  let ?w = "64 * (64 * v + y) + x"
  let ?n = "64 * ?w + z"
  have "?n div 64 = ?w" "?n mod 64 = z" using assms(5) by (simp_all only: divmod_64)
  moreover have "?n div 0x1000 = ?n div 64 div 64" "?n div 0x40000 = ?n div 64 div 64 div 64" by (simp_all flip: div_mult2_eq)
  moreover have "?w div 64 = 64 * v + y" "?w mod 64 = x" using assms(3) by (simp_all only: divmod_64)
  moreover have "(64 * v + y) div 64 = v" "(64 * v + y) mod 64 = y" using assms(4) by (simp_all only: divmod_64)
  moreover have "\<not> ?n < 0x80" "\<not> ?n < 0x800" "\<not> ?n < 0x10000" using assms by simp_all
  ultimately show ?thesis by (simp add: utf8_def)
qed

lemma second_bounds: "second_from a \<le> b \<Longrightarrow> b < second_below a \<Longrightarrow> 0x80 \<le> b \<and> b < 0xc0"
  by (simp add: second_from_def second_below_def split: if_splits)

lemma decodes_utf8: "decodes bs c \<Longrightarrow> scalar c \<and> utf8 c = bs"
proof (induction bs c rule: decodes.induct)
  case (1 a c)
  then show ?case by (simp add: scalar_def utf8_def)
next
  case (2 a b c)
  then have "0x80 \<le> b" "b < 0xc0" using second_bounds [of a b] by auto
  then obtain y where b: "b = 0x80 + y" "y < 64" using le_Suc_ex [of "0x80" b] by auto
  moreover obtain v where a: "a = 0xc0 + v" using 2 le_Suc_ex [of "0xc0" a] by auto
  ultimately show ?case using 2 utf8_2 [of v y] by (simp add: scalar_def)
next
  case (3 a b d c)
  then have "0x80 \<le> b" "b < 0xc0" using second_bounds [of a b] by auto
  then obtain y where b: "b = 0x80 + y" "y < 64" using le_Suc_ex [of "0x80" b] by auto
  obtain z where d: "d = 0x80 + z" "z < 64" using 3 le_Suc_ex [of "0x80" d] by auto
  obtain v where a: "a = 0xe0 + v" "v < 16" using 3 le_Suc_ex [of "0xe0" a] by auto
  have "32 \<le> 64 * v + y" using 3 a b by (auto simp: second_from_def split: if_splits)
  moreover have "scalar c" using 3 a b d by (auto simp: second_below_def scalar_def split: if_splits)
  ultimately show ?case using 3 utf8_3 [of v y z] a b d by simp
next
  case (4 a b d e c)
  then have "0x80 \<le> b" "b < 0xc0" using second_bounds [of a b] by auto
  then obtain y where b: "b = 0x80 + y" "y < 64" using le_Suc_ex [of "0x80" b] by auto
  obtain x where d: "d = 0x80 + x" "x < 64" using 4 le_Suc_ex [of "0x80" d] by auto
  obtain z where e: "e = 0x80 + z" "z < 64" using 4 le_Suc_ex [of "0x80" e] by auto
  obtain v where a: "a = 0xf0 + v" "v < 5" using 4 le_Suc_ex [of "0xf0" a] by auto
  have "16 \<le> 64 * v + y" using 4 a b by (auto simp: second_from_def split: if_splits)
  moreover have "scalar c" using 4 a b d e by (auto simp: second_from_def second_below_def scalar_def split: if_splits)
  ultimately show ?case using 4 utf8_4 [of v y x z] a b d e by simp
qed simp_all

lemma utf8_decodes:
  assumes "scalar c"
  shows "decodes (utf8 c) c"
proof -
  have split: "64 * (n div 64) + n mod 64 = n" "n mod 64 < 64" for n :: nat by simp_all
  consider "c < 0x80" | "0x80 \<le> c" "c < 0x800" | "0x800 \<le> c" "c < 0x10000" | "0x10000 \<le> c" by linarith
  then show ?thesis
  proof cases
    case 1
    then show ?thesis by (simp add: utf8_def)
  next
    case 2
    define v y where d: "v = c div 64" "y = c mod 64"
    then have c: "c = 64 * v + y" and "y < 64" by simp_all
    moreover have "2 \<le> v" "v < 32" using c \<open>y < 64\<close> 2 by linarith+
    ultimately show ?thesis using utf8_2 [of v y] by (simp add: second_from_def second_below_def)
  next
    case 3
    define w z where d: "w = c div 64" "z = c mod 64"
    then have c: "c = 64 * w + z" and "z < 64" by simp_all
    define v y where e: "v = w div 64" "y = w mod 64"
    then have w: "w = 64 * v + y" and y: "y < 64" by simp_all
    have "32 \<le> 64 * v + y" "v < 16" using c w \<open>z < 64\<close> y 3 by linarith+
    moreover have "v = 13 \<Longrightarrow> y < 32" using assms c w \<open>z < 64\<close> y unfolding scalar_def by linarith
    ultimately show ?thesis using utf8_3 [of v y z] c w \<open>z < 64\<close> y by (simp add: second_from_def second_below_def)
  next
    case 4
    define u z where d: "u = c div 64" "z = c mod 64"
    then have c: "c = 64 * u + z" and z: "z < 64" by simp_all
    define w x where e: "w = u div 64" "x = u mod 64"
    then have u: "u = 64 * w + x" and x: "x < 64" by simp_all
    define v y where f: "v = w div 64" "y = w mod 64"
    then have w: "w = 64 * v + y" and y: "y < 64" by simp_all
    have "c < 0x110000" using assms 4 by (simp add: scalar_def)
    then have "16 \<le> 64 * v + y" "v < 5" "v = 4 \<Longrightarrow> y < 16" using c u w x y z 4 by linarith+
    then show ?thesis using utf8_4 [of v y x z] c u w x y z by (simp add: second_from_def second_below_def)
  qed
qed

section \<open>The decoder inverts the encoder\<close>

definition stored_at :: "memory \<Rightarrow> u64 \<Rightarrow> u8 list \<Rightarrow> bool" where
  "stored_at m a bs \<longleftrightarrow> (\<forall>i < length bs. m (a + of_nat i) = bs ! i)"

lemma stored_at_Nil [simp]: "stored_at m a []"
  by (simp add: stored_at_def)

lemma stored_at_Cons [simp]: "stored_at m a (b # bs) \<longleftrightarrow> m a = b \<and> stored_at m (a + 1) bs"
  unfolding stored_at_def by (auto simp: less_Suc_eq_0_disj add.assoc)

lemma mb_rest_more: "mb_rest m s 0 c N = \<lparr>wc_ret = - 2, wc_char = None, wc_state = c, wc_ilseq = False\<rparr>"
  by (simp add: mb_rest_def)

lemma mb_rest_oob: "n \<noteq> 0 \<Longrightarrow> OOB c (m s) \<Longrightarrow> mb_rest m s n c N = ilseq"
  by (simp add: mb_rest_def)

text \<open>What is decoded after a lead byte, by the number of bytes it announces.\<close>

abbreviation second_ok :: "nat \<Rightarrow> u8 \<Rightarrow> bool" where
  "second_ok a b \<equiv> second_from a \<le> unat b \<and> unat b < second_below a"

abbreviation finished :: "u64 \<Rightarrow> nat \<Rightarrow> nat \<Rightarrow> wc_result" where
  "finished N n c \<equiv> \<lparr>wc_ret = N - of_nat n, wc_char = Some (of_nat c), wc_state = 0, wc_ilseq = False\<rparr>"

lemma second_continues: "second_ok a b \<Longrightarrow> continues b"
  using second_bounds [of a "unat b"] by (simp add: continues_def)

lemma rest_2:
  assumes "0xc2 \<le> a" "a < 0xe0" "second_ok a (m s)"
  shows "mb_rest m s (Suc n) (bittab ! (a - 0xc2)) N = finished N n (64 * (a - 0xc0) + (unat (m s) - 0x80))"
proof -
  have "unat (bittab ! (a - 0xc2)) = 48 * 2 ^ 26 + (a - 0xc0)"
    using assms bittab_nth [of a] by (simp add: entry_value_def)
  moreover have "\<not> OOB (bittab ! (a - 0xc2)) (m s)" using assms by (simp add: OOB_lead)
  ultimately show ?thesis using decode_2 [of "bittab ! (a - 0xc2)" 48 "a - 0xc0" m s n] second_continues [OF assms(3)] assms(2)
    by (simp add: mb_rest_def del: mb_loop.simps)
qed

lemma rest_3:
  assumes "0xe0 \<le> a" "a < 0xf0" "second_ok a (m s)" "continues (m (s + 1))"
  shows "mb_rest m s (Suc (Suc n)) (bittab ! (a - 0xc2)) N
    = finished N n (64 * (64 * (a - 0xe0) + (unat (m s) - 0x80)) + (unat (m (s + 1)) - 0x80))"
proof -
  obtain k where "unat (bittab ! (a - 0xc2)) = k * 2 ^ 26 + (0x3000000 + (a - 0xe0))"
  proof
    show "unat (bittab ! (a - 0xc2)) = (if a = 0xe0 then 44 else if a = 0xed then 52 else 48) * 2 ^ 26 + (0x3000000 + (a - 0xe0))"
      using assms bittab_nth [of a] by (simp add: entry_value_def)
  qed
  moreover have "\<not> OOB (bittab ! (a - 0xc2)) (m s)" using assms by (simp add: OOB_lead)
  moreover have "a - 0xe0 < 2 ^ 12" using assms(2) by simp
  ultimately show ?thesis using second_continues [OF assms(3)] assms(4)
    by (elim decode_3 [where m = m and s = s and n = "Suc n"]) (simp_all add: mb_rest_def del: mb_loop.simps)
qed

lemma rest_4:
  assumes "0xf0 \<le> a" "a \<le> 0xf4" "second_ok a (m s)" "continues (m (s + 1))" "continues (m (s + 2))"
  shows "mb_rest m s (Suc (Suc (Suc n))) (bittab ! (a - 0xc2)) N
    = finished N n (64 * (64 * (64 * (a - 0xf0) + (unat (m s) - 0x80)) + (unat (m (s + 1)) - 0x80)) + (unat (m (s + 2)) - 0x80))"
proof -
  obtain k where "unat (bittab ! (a - 0xc2)) = k * 2 ^ 26 + (0x30C0000 + (a - 0xf0))"
  proof
    show "unat (bittab ! (a - 0xc2)) = (if a = 0xf0 then 46 else if a = 0xf4 then 54 else 48) * 2 ^ 26 + (0x30C0000 + (a - 0xf0))"
      using assms bittab_nth [of a] by (simp add: entry_value_def)
  qed
  moreover have "a - 0xf0 < 8" using assms(2) by simp
  moreover note c = second_continues [OF assms(3)]
  ultimately obtain c' where u: "unat c' = 48 * 2 ^ 26 + (0x3000000 + (64 * (a - 0xf0) + (unat (m s) - 0x80)))"
    and l: "mb_loop m s (Suc (Suc (Suc n))) (bittab ! (a - 0xc2)) = mb_loop m (s + 1) (Suc (Suc n)) c'"
    using assms(4) by (elim decode_4 [where m = m and s = s and n = "Suc (Suc n)"]) (simp_all del: mb_loop.simps)
  have "64 * (a - 0xf0) + (unat (m s) - 0x80) < 2 ^ 12" using assms(2) c unfolding continues_def by auto
  then have "mb_loop m (s + 1) (Suc (Suc n)) c'
      = Mb_done (of_nat (64 * (64 * (64 * (a - 0xf0) + (unat (m s) - 0x80)) + (unat (m (s + 1)) - 0x80)) + (unat (m (s + 2)) - 0x80))) n"
    using u assms(4,5) by (elim decode_3 [where m = m and s = "s + 1" and n = "Suc n"]) (simp_all add: add.assoc del: mb_loop.simps)
  moreover have "\<not> OOB (bittab ! (a - 0xc2)) (m s)" using assms by (simp add: OOB_lead)
  ultimately show ?thesis by (simp add: mb_rest_def l del: mb_loop.simps)
qed

lemma mb_rest_bad_second:
  "0xc2 \<le> a \<Longrightarrow> a \<le> 0xf4 \<Longrightarrow> \<not> second_ok a (m s) \<Longrightarrow> wc_char (mb_rest m s n (bittab ! (a - 0xc2)) N) = None"
  by (cases "n = 0") (simp_all add: mb_rest_def OOB_lead ilseq_def)

text \<open>Conversely a character is only read where all its bytes are present and well formed.\<close>

lemma rest_char_3:
  assumes "0xe0 \<le> a" "a < 0xf0" "wc_char (mb_rest m s n (bittab ! (a - 0xc2)) N) \<noteq> None"
  shows "2 \<le> n \<and> second_ok a (m s) \<and> continues (m (s + 1))"
proof -
  have ok: "second_ok a (m s)" by (rule ccontr) (use assms mb_rest_bad_second [of a m s n N] in simp)
  obtain n' where n: "n = Suc n'" using assms(3) by (cases n) (simp_all add: mb_rest_more)
  obtain k where "unat (bittab ! (a - 0xc2)) = k * 2 ^ 26 + (0x3000000 + (a - 0xe0))"
  proof
    show "unat (bittab ! (a - 0xc2)) = (if a = 0xe0 then 44 else if a = 0xed then 52 else 48) * 2 ^ 26 + (0x3000000 + (a - 0xe0))"
      using assms bittab_nth [of a] by (simp add: entry_value_def)
  qed
  moreover have "a - 0xe0 < 2 ^ 12" using assms(2) by simp
  ultimately show ?thesis using second_continues [OF ok] assms(3) ok unfolding n
    by (elim decode_3 [where m = m and s = s and n = n'])
      (auto simp: mb_rest_def ilseq_def simp del: mb_loop.simps split: if_splits)
qed

lemma rest_char_4:
  assumes "0xf0 \<le> a" "a \<le> 0xf4" "wc_char (mb_rest m s n (bittab ! (a - 0xc2)) N) \<noteq> None"
  shows "3 \<le> n \<and> second_ok a (m s) \<and> continues (m (s + 1)) \<and> continues (m (s + 2))"
proof -
  have ok: "second_ok a (m s)" by (rule ccontr) (use assms mb_rest_bad_second [of a m s n N] in simp)
  obtain n' where n: "n = Suc n'" using assms(3) by (cases n) (simp_all add: mb_rest_more)
  obtain k where "unat (bittab ! (a - 0xc2)) = k * 2 ^ 26 + (0x30C0000 + (a - 0xf0))"
  proof
    show "unat (bittab ! (a - 0xc2)) = (if a = 0xf0 then 46 else if a = 0xf4 then 54 else 48) * 2 ^ 26 + (0x30C0000 + (a - 0xf0))"
      using assms bittab_nth [of a] by (simp add: entry_value_def)
  qed
  moreover have "a - 0xf0 < 8" using assms(2) by simp
  ultimately obtain c' where u: "unat c' = 48 * 2 ^ 26 + (0x3000000 + (64 * (a - 0xf0) + (unat (m s) - 0x80)))"
    and l: "mb_loop m s (Suc n') (bittab ! (a - 0xc2)) =
       (if n' = 0 then Mb_more c' else if continues (m (s + 1)) then mb_loop m (s + 1) n' c' else Mb_bad)"
    using second_continues [OF ok] by (elim decode_4 [where m = m and s = s and n = n'])
  have two: "n' \<noteq> 0" "continues (m (s + 1))" and r: "mb_loop m (s + 1) n' c' \<noteq> Mb_bad" "\<forall>c. mb_loop m (s + 1) n' c' \<noteq> Mb_more c"
    using assms(3) unfolding n by (auto simp: mb_rest_def l ilseq_def simp del: mb_loop.simps split: if_splits)
  obtain n'' where n': "n' = Suc n''" using two by (cases n') auto
  have "64 * (a - 0xf0) + (unat (m s) - 0x80) < 2 ^ 12" using assms(2) second_continues [OF ok] unfolding continues_def by auto
  then show ?thesis using u two ok r unfolding n n'
    by (elim decode_3 [where m = m and s = "s + 1" and n = n''])
      (auto simp: add.assoc simp del: mb_loop.simps split: if_splits)
qed

text \<open>The bytes after a lead byte are those of a character.\<close>

lemma mbrtowc_lead:
  assumes "mb_cur_max \<noteq> 1" "src \<noteq> NULL" "n \<noteq> 0" "0x80 \<le> unat (m src)"
  shows "mbrtowc mb_cur_max m src n 0 =
    (if 0xc2 \<le> unat (m src) \<and> unat (m src) \<le> 0xf4
     then mb_rest m (src + 1) (unat n - 1) (bittab ! (unat (m src) - 0xc2)) (ucast (ucast n :: u32)) else ilseq)"
proof -
  have u: "unat (ucast (m src) :: u32) = unat (m src)" using unat8_lt [of "m src"] by (simp add: unsigned_ucast_eq take_bit_eq_mod)
  have "\<not> m src < 0x80" using assms(4) by (simp add: word_less_nat_alt)
  moreover have "ucast (m src) - SA > SB - SA \<longleftrightarrow> \<not> (0xc2 \<le> unat (m src) \<and> unat (m src) \<le> 0xf4)"
    using u unat8_lt [of "m src"] by (auto simp: SA_def SB_def word_less_nat_alt unat_sub_if_size word_size)
  moreover have "0xc2 \<le> unat (m src) \<Longrightarrow> unat (ucast (m src) - SA) = unat (m src) - 0xc2"
    using u by (simp add: SA_def unat_sub_if_size word_size)
  ultimately show ?thesis using assms by (auto simp: mbrtowc_def Let_def)
qed

lemma bytes_left: "unat (n :: u64) = k + r \<Longrightarrow> n - of_nat r = of_nat k"
proof -
  assume "unat n = k + r"
  then have "n = of_nat (k + r)" by (metis of_nat_unat ucast_id)
  then show ?thesis by simp
qed

lemma unat_byte: "b = of_nat k \<Longrightarrow> k < 256 \<Longrightarrow> unat (b :: u8) = k"
  by (simp add: unat_of_nat)

lemma decodes_reads:
  assumes "decodes ns c" "stored_at m src (map of_nat ns)" "length ns \<le> unat n" "unat n < 2 ^ 32" "src \<noteq> NULL" "mb_cur_max \<noteq> 1"
  shows "mbrtowc mb_cur_max m src n 0 =
    \<lparr>wc_ret = (if c = 0 then 0 else of_nat (length ns)), wc_char = Some (of_nat c), wc_state = 0, wc_ilseq = False\<rparr>"
  using assms
proof (induction ns c rule: decodes.induct)
  case (1 a c)
  then have a: "unat (m src) = a" by (intro unat_byte) simp_all
  then have "m src \<noteq> 0 \<longleftrightarrow> a \<noteq> 0" by (metis unat_eq_0)
  moreover have "ucast (m src) = (of_nat a :: u32)" using a by (metis of_nat_unat)
  moreover have "m src < 0x80" using 1 a by (simp add: word_less_nat_alt)
  moreover have "n \<noteq> 0" using 1 by auto
  ultimately show ?case using 1 by (auto simp: mbrtowc_def)
next
  case (2 a b c)
  then have a: "unat (m src) = a" by (intro unat_byte) simp_all
  have b: "unat (m (src + 1)) = b" using 2 second_bounds [of a b] by (intro unat_byte) simp_all
  obtain r where r: "unat n = 2 + r" using 2 le_Suc_ex by (metis length_Cons list.size(3) numeral_2_eq_2)
  have "mb_rest m (src + 1) (Suc r) (bittab ! (a - 0xc2)) n = finished n r c" using 2 rest_2 [of a m "src + 1" r n] b by simp
  moreover have "n - of_nat r = 2" "n \<noteq> 0" using bytes_left [OF r] r by auto
  moreover have "c \<noteq> 0" using 2 by auto
  moreover have "0xc2 \<le> a" "a \<le> 0xf4" using 2(1) by auto
  ultimately show ?case using 2(4-6) r a mbrtowc_lead [of mb_cur_max src n m] by (simp add: ucast_ucast32)
next
  case (3 a b d c)
  then have a: "unat (m src) = a" by (intro unat_byte) simp_all
  have b: "unat (m (src + 1)) = b" using 3 second_bounds [of a b] by (intro unat_byte) simp_all
  have d: "unat (m (src + 1 + 1)) = d" using 3 by (intro unat_byte) simp_all
  obtain r where r: "unat n = 3 + r" using 3 le_Suc_ex by (metis length_Cons list.size(3) numeral_3_eq_3)
  have "mb_rest m (src + 1) (Suc (Suc r)) (bittab ! (a - 0xc2)) n = finished n r c"
  proof -
    have c: "c = 64 * (64 * (a - 0xe0) + (unat (m (src + 1)) - 0x80)) + (unat (m (src + 1 + 1)) - 0x80)"
      using 3(1) unfolding decodes.simps b d by (elim conjE)
    show ?thesis unfolding c by (rule rest_3) (use 3(1) b d in \<open>auto simp: continues_def\<close>)
  qed
  moreover have "n - of_nat r = 3" "n \<noteq> 0" using bytes_left [OF r] r by auto
  moreover have "c \<noteq> 0" using 3 decodes_utf8 [of "[a, b, d]" c] by (auto simp: utf8_def)
  moreover have "0xc2 \<le> a" "a \<le> 0xf4" using 3(1) by auto
  ultimately show ?case using 3(4-6) r a mbrtowc_lead [of mb_cur_max src n m] by (simp add: ucast_ucast32)
next
  case (4 a b d e c)
  then have a: "unat (m src) = a" by (intro unat_byte) simp_all
  have b: "unat (m (src + 1)) = b" using 4 second_bounds [of a b] by (intro unat_byte) simp_all
  have d: "unat (m (src + 1 + 1)) = d" using 4 by (intro unat_byte) simp_all
  have e: "unat (m (src + 1 + 2)) = e" using 4 by (intro unat_byte) (simp_all add: add.assoc)
  obtain r where r: "unat n = 4 + r" using 4 le_Suc_ex [of 4 "unat n"] by auto
  have "mb_rest m (src + 1) (Suc (Suc (Suc r))) (bittab ! (a - 0xc2)) n = finished n r c"
  proof -
    have c: "c = 64 * (64 * (64 * (a - 0xf0) + (unat (m (src + 1)) - 0x80)) + (unat (m (src + 1 + 1)) - 0x80))
        + (unat (m (src + 1 + 2)) - 0x80)"
      using 4(1) unfolding decodes.simps b d e by (elim conjE)
    show ?thesis unfolding c by (rule rest_4) (use 4(1) b d e in \<open>auto simp: continues_def\<close>)
  qed
  moreover have "n - of_nat r = 4" "n \<noteq> 0" using bytes_left [OF r] r by auto
  moreover have "c \<noteq> 0" using 4 decodes_utf8 [of "[a, b, d, e]" c] by (auto simp: utf8_def)
  moreover have "0xc2 \<le> a" "a \<le> 0xf4" using 4(1) by auto
  ultimately show ?case using 4(4-6) r a mbrtowc_lead [of mb_cur_max src n m] by (simp add: ucast_ucast32 numeral_3_eq_3)
qed simp_all


lemma mbrtowc_char_decodes:
  assumes "mb_cur_max \<noteq> 1" "src \<noteq> NULL" "wc_char (mbrtowc mb_cur_max m src n 0) = Some wc" "unat n < 2 ^ 32"
  obtains ns c where "decodes ns c" "stored_at m src (map of_nat ns)" "length ns \<le> unat n"
proof -
  let ?a = "unat (m src)"
  have n: "n \<noteq> 0" using assms(2,3) by (auto simp: mbrtowc_def)
  have byte: "of_nat (unat b) = b" for b :: u8 by (simp add: of_nat_unat)
  consider "?a < 0x80" | "0x80 \<le> ?a" by linarith
  then show thesis
  proof cases
    case 1
    then show thesis using n by (intro that [of "[?a]" ?a]) (simp_all add: byte unat_gt_0 Suc_le_eq)
  next
    case 2
    note lead = mbrtowc_lead [of mb_cur_max src n m, OF assms(1,2) n 2]
    have range: "0xc2 \<le> ?a" "?a \<le> 0xf4" using assms(3) unfolding lead by (auto simp: ilseq_def split: if_splits)
    let ?r = "mb_rest m (src + 1) (unat n - 1) (bittab ! (?a - 0xc2)) (ucast (ucast n :: u32))"
    have some: "wc_char ?r \<noteq> None" using assms(3) range unfolding lead by simp
    have second: "second_ok ?a (m (src + 1))"
      by (rule ccontr) (use range some mb_rest_bad_second [of ?a m "src + 1" "unat n - 1"] in simp)
    consider "?a < 0xe0" | "0xe0 \<le> ?a" "?a < 0xf0" | "0xf0 \<le> ?a" by linarith
    then show thesis
    proof cases
      case 1
      have "unat n - 1 \<noteq> 0" using some by (auto simp: mb_rest_def)
      then show thesis using 1 range second
        by (intro that [of "[?a, unat (m (src + 1))]"]) (simp_all add: byte)
    next
      case 2
      then have "2 \<le> unat n - 1 \<and> continues (m (src + 1 + 1))" using rest_char_3 [OF _ _ some] by blast
      then show thesis using 2 second
        by (intro that [of "[?a, unat (m (src + 1)), unat (m (src + 1 + 1))]"]) (auto simp: byte continues_def)
    next
      case 3
      then have "3 \<le> unat n - 1 \<and> continues (m (src + 1 + 1)) \<and> continues (m (src + 1 + 2))"
        using rest_char_4 [OF _ _ some] range by blast
      then show thesis using 3 range second
        by (intro that [of "[?a, unat (m (src + 1)), unat (m (src + 1 + 1)), unat (m (src + 1 + 2))]"])
          (auto simp: byte continues_def add.assoc)
    qed
  qed
qed

lemma stored_at_put: "length bs < 2 ^ 64 \<Longrightarrow> stored_at (put m a bs) a bs"
  unfolding stored_at_def by (simp add: put_same)

lemma wc_bytes_scalar:
  assumes "mb_cur_max \<noteq> 1" "wc_bytes mb_cur_max wc = Some bs"
  shows "decodes (utf8 (unat wc)) (unat wc)" "bs = map of_nat (utf8 (unat wc))"
  using assms by (auto simp: wc_bytes_utf8 utf8_decodes split: if_splits)

lemma reads_encoded:
  assumes "mb_cur_max \<noteq> 1" "src \<noteq> NULL" "unat n < 2 ^ 32" "wc_bytes mb_cur_max wc = Some bs" "length bs \<le> unat n" "stored_at m src bs"
  shows "mbrtowc mb_cur_max m src n 0 =
    \<lparr>wc_ret = (if wc = 0 then 0 else of_nat (length bs)), wc_char = Some wc, wc_state = 0, wc_ilseq = False\<rparr>"
  using decodes_reads [OF wc_bytes_scalar(1) [OF assms(1,4)], of m src n mb_cur_max] wc_bytes_scalar(2) [OF assms(1,4)] assms
  by (simp add: of_nat_unat unat_eq_0)

lemma reads_only_encoded:
  assumes "mb_cur_max \<noteq> 1" "src \<noteq> NULL" "unat n < 2 ^ 32" "wc_char (mbrtowc mb_cur_max m src n 0) = Some wc"
  shows "\<exists>bs. wc_bytes mb_cur_max wc = Some bs \<and> length bs \<le> unat n \<and> stored_at m src bs"
proof -
  obtain ns c where d: "decodes ns c" and st: "stored_at m src (map of_nat ns)" and l: "length ns \<le> unat n"
    using mbrtowc_char_decodes [OF assms(1,2,4,3)] .
  have "wc = of_nat c" using decodes_reads [OF d st l assms(3,2,1)] assms(4) by simp
  moreover have c: "scalar c" "utf8 c = ns" using decodes_utf8 [OF d] by auto
  moreover have "c < 2 ^ 32" using c(1) by (auto simp: scalar_def)
  ultimately have "unat wc = c" by (simp add: unat_of_nat)
  then show ?thesis using c st l by (auto simp: wc_bytes_utf8 [OF assms(1)])
qed

text \<open>
  C34: the UTF-8 decoder is the exact inverse of the encoder: \<open>mbrtowc\<close> reads a character exactly where
  the bytes that \<open>wcrtomb\<close> writes for it are in memory, so that no overlong form, surrogate or value
  beyond the last character is accepted; it returns their number; and what \<open>wcrtomb\<close> has stored is read
  back by \<open>mbrtowc\<close>.
\<close>

theorem mbrtowc_inverts_wcrtomb:
  assumes "mb_cur_max \<noteq> 1" "src \<noteq> NULL" "unat n < 2 ^ 32"
  shows "(wc_char (mbrtowc mb_cur_max m src n 0) = Some wc \<longleftrightarrow>
      (\<exists>bs. wc_bytes mb_cur_max wc = Some bs \<and> length bs \<le> unat n \<and> stored_at m src bs))
    \<and> (\<forall>bs. wc_bytes mb_cur_max wc = Some bs \<longrightarrow> length bs \<le> unat n \<longrightarrow> stored_at m src bs \<longrightarrow>
      wc_ret (mbrtowc mb_cur_max m src n 0) = (if wc = 0 then 0 else of_nat (length bs)))
    \<and> (\<not> mb_ilseq (wcrtomb mb_cur_max m src wc) \<longrightarrow> mb_ret (wcrtomb mb_cur_max m src wc) \<le> n \<longrightarrow>
      wc_char (mbrtowc mb_cur_max (mb_mem (wcrtomb mb_cur_max m src wc)) src n 0) = Some wc)"
proof (intro conjI allI impI)
  show "wc_char (mbrtowc mb_cur_max m src n 0) = Some wc \<longleftrightarrow>
      (\<exists>bs. wc_bytes mb_cur_max wc = Some bs \<and> length bs \<le> unat n \<and> stored_at m src bs)"
    using reads_only_encoded [OF assms] reads_encoded [OF assms] by fastforce
  show "wc_ret (mbrtowc mb_cur_max m src n 0) = (if wc = 0 then 0 else of_nat (length bs))"
    if "wc_bytes mb_cur_max wc = Some bs" "length bs \<le> unat n" "stored_at m src bs" for bs
    using reads_encoded [OF assms that] by simp
  assume ok: "\<not> mb_ilseq (wcrtomb mb_cur_max m src wc)" "mb_ret (wcrtomb mb_cur_max m src wc) \<le> n"
  then obtain b where b: "wc_bytes mb_cur_max wc = Some b" and r: "wcrtomb mb_cur_max m src wc = \<lparr>mb_ret = of_nat (length b), mb_mem = put m src b, mb_ilseq = False\<rparr>"
    using assms(2) by (auto simp: wcrtomb_def split: option.splits)
  have l: "length b \<le> 4" using b by (auto simp: wc_bytes_def split: if_splits)
  then have "unat (of_nat (length b) :: u64) = length b" by (simp add: unat_of_nat)
  then have "length b \<le> unat n" using ok(2) unfolding r by (simp add: word_le_nat_alt)
  then show "wc_char (mbrtowc mb_cur_max (mb_mem (wcrtomb mb_cur_max m src wc)) src n 0) = Some wc"
    using reads_encoded [OF assms b _ stored_at_put] l unfolding r by simp
qed

theorem mbrtowc_inverts_wcrtomb_witness:
  "wc_char (mbrtowc 4 (mb_mem (wcrtomb 4 (\<lambda>_. 0) 0x1000 0x20ac)) 0x1000 16 0) = Some 0x20ac"
  using mbrtowc_inverts_wcrtomb [of 4 "0x1000" 16 "\<lambda>_. 0" "0x20ac"]
  by (simp add: wcrtomb_def wc_bytes_def word_le_nat_alt)

end
