(* ===== verification/Libc_String.thy ===== *)
theory Libc_String
  imports Multibyte
begin

text \<open>
  String routines of the C library (string/strlen.c, memchr.c, strnlen.c, memset.c, memcpy.c), in the
  variant for compilers with the extensions of GNU C and a little-endian machine, over the byte memory.
  A loop that needs a terminating byte is a partial function.
\<close>

section \<open>Searching\<close>

definition ONES :: u64 where "ONES = (- 1) div 255"
definition HIGHS :: u64 where "HIGHS = ONES * (255 div 2 + 1)"

definition HASZERO :: "u64 \<Rightarrow> bool" where
  "HASZERO x \<longleftrightarrow> (x - ONES) AND NOT x AND HIGHS \<noteq> 0"

text \<open>\<open>strlen\<close>: single bytes up to an aligned address, then words, then bytes again.\<close>

partial_function (option) strlen_bytes :: "memory \<Rightarrow> u64 \<Rightarrow> u64 option" where
  "strlen_bytes m s = (if m s \<noteq> 0 then strlen_bytes m (s + 1) else Some s)"

partial_function (option) strlen_words :: "memory \<Rightarrow> u64 \<Rightarrow> u64 option" where
  "strlen_words m w = (if \<not> HASZERO (load64 m w) then strlen_words m (w + 8) else Some w)"

text \<open>The first loop runs at most seven times; the left result is an early return.\<close>

primrec strlen_head :: "nat \<Rightarrow> memory \<Rightarrow> u64 \<Rightarrow> u64 + u64" where
  "strlen_head 0 m s = Inr s"
| "strlen_head (Suc k) m s =
     (if s mod 8 \<noteq> 0 then (if m s = 0 then Inl s else strlen_head k m (s + 1)) else Inr s)"

definition libc_strlen :: "memory \<Rightarrow> u64 \<Rightarrow> u64 option" where
  "libc_strlen m s =
     (case strlen_head 8 m s of
        Inl e \<Rightarrow> Some (e - s)
      | Inr p \<Rightarrow> do { w \<leftarrow> strlen_words m p; e \<leftarrow> strlen_bytes m w; Some (e - s) })"

function memchr_head :: "memory \<Rightarrow> u64 \<Rightarrow> u8 \<Rightarrow> u64 \<Rightarrow> u64 \<times> u64" where
  "memchr_head m s c n =
     (if s AND 7 \<noteq> 0 \<and> n \<noteq> 0 \<and> m s \<noteq> c then memchr_head m (s + 1) c (n - 1) else (s, n))"
  by auto
termination by (relation "measure (\<lambda>(m, s, c, n). unat n)") (auto simp: unat_minus_one unat_gt_0)

function memchr_words :: "memory \<Rightarrow> u64 \<Rightarrow> u64 \<Rightarrow> u64 \<Rightarrow> u64 \<times> u64" where
  "memchr_words m w k n =
     (if n \<ge> 8 \<and> \<not> HASZERO (load64 m w XOR k) then memchr_words m (w + 8) k (n - 8) else (w, n))"
  by auto
termination by (relation "measure (\<lambda>(m, w, k, n). unat n)") (auto simp: unat_sub word_le_nat_alt)

function memchr_bytes :: "memory \<Rightarrow> u64 \<Rightarrow> u8 \<Rightarrow> u64 \<Rightarrow> u64 \<times> u64" where
  "memchr_bytes m s c n = (if n \<noteq> 0 \<and> m s \<noteq> c then memchr_bytes m (s + 1) c (n - 1) else (s, n))"
  by auto
termination by (relation "measure (\<lambda>(m, s, c, n). unat n)") (auto simp: unat_minus_one unat_gt_0)

declare memchr_head.simps [simp del] memchr_words.simps [simp del] memchr_bytes.simps [simp del]

definition memchr :: "memory \<Rightarrow> u64 \<Rightarrow> u32 \<Rightarrow> u64 \<Rightarrow> u64" where
  "memchr m src c n =
     (let c = ucast c :: u8;
          (s, n) = memchr_head m src c n;
          (s, n) = (if n \<noteq> 0 \<and> m s \<noteq> c then memchr_words m s (ONES * ucast c) n else (s, n));
          (s, n) = memchr_bytes m s c n
      in if n \<noteq> 0 then s else NULL)"

definition strnlen :: "memory \<Rightarrow> u64 \<Rightarrow> u64 \<Rightarrow> u64" where
  "strnlen m s n = (let p = memchr m s 0 n in if p \<noteq> NULL then p - s else n)"

section \<open>Filling\<close>

text \<open>The loop of \<open>memset\<close> over 32 bytes at a time.\<close>

function memset_loop :: "memory \<Rightarrow> u64 \<Rightarrow> u64 \<Rightarrow> u64 \<Rightarrow> memory" where
  "memset_loop m s c64 n =
     (if n \<ge> 32
      then memset_loop (store64 (store64 (store64 (store64 m s c64) (s + 8) c64) (s + 16) c64) (s + 24) c64)
             (s + 32) c64 (n - 32)
      else m)"
  by auto
termination by (relation "measure (\<lambda>(m, s, c64, n). unat n)") (auto simp: unat_sub word_le_nat_alt)

declare memset_loop.simps [simp del]

text \<open>The parts of \<open>memset\<close> between its returns.\<close>

definition memset_64 :: "memory \<Rightarrow> u64 \<Rightarrow> u32 \<Rightarrow> u64 \<Rightarrow> memory" where
  "memset_64 m s c32 n =
     (let k = 24 + (s AND 4)
      in memset_loop m (s + k) (ucast c32 OR push_bit 32 (ucast c32)) (n - k))"

definition memset_32 :: "memory \<Rightarrow> u64 \<Rightarrow> u32 \<Rightarrow> u64 \<Rightarrow> memory" where
  "memset_32 m s c32 n =
     (let m = store32 m s c32;
          m = store32 m (s + n - 4) c32
      in if n \<le> 8 then m
         else (let m = fold (\<lambda>a m. store32 m a c32) [s + 4, s + 8, s + n - 12, s + n - 8] m
               in if n \<le> 24 then m
                  else memset_64 (fold (\<lambda>a m. store32 m a c32)
                         [s + 12, s + 16, s + 20, s + 24, s + n - 28, s + n - 24, s + n - 20, s + n - 16] m) s c32 n))"

definition memset :: "memory \<Rightarrow> u64 \<Rightarrow> u32 \<Rightarrow> u64 \<Rightarrow> u64 \<times> memory" where
  "memset m dest c n =
     (let b = ucast c :: u8; put8 = fold (\<lambda>a m. m(a := b)); s = dest
      in (dest,
          if n = 0 then m
          else (let m = put8 [s, s + n - 1] m
                in if n \<le> 2 then m
                   else (let m = put8 [s + 1, s + 2, s + n - 2, s + n - 3] m
                         in if n \<le> 6 then m
                            else (let m = put8 [s + 3, s + n - 4] m
                                  in if n \<le> 8 then m
                                     else (let k = - s AND 3;
                                               n' = (n - k) AND - 4
                                           in memset_32 m (s + k) ((- 1) div 255 * ucast b) n'))))))"

section \<open>Copying\<close>

text \<open>The state of a copy: memory, destination and source.\<close>

type_synonym copy = "memory \<times> u64 \<times> u64"

text \<open>\<open>*d++ = *s++\<close>, once and several times.\<close>

definition copy_byte :: "copy \<Rightarrow> copy" where
  "copy_byte = (\<lambda>(m, d, s). (m(d := m s), d + 1, s + 1))"

definition copy_bytes :: "nat \<Rightarrow> copy \<Rightarrow> copy" where
  "copy_bytes k = copy_byte ^^ k"

definition copy_word :: "memory \<Rightarrow> u64 \<Rightarrow> u64 \<Rightarrow> memory" where
  "copy_word m d s = store32 m d (load32 m s)"

function memcpy_head :: "memory \<Rightarrow> u64 \<Rightarrow> u64 \<Rightarrow> u64 \<Rightarrow> memory \<times> u64 \<times> u64 \<times> u64" where
  "memcpy_head m d s n =
     (if s mod 4 \<noteq> 0 \<and> n \<noteq> 0 then memcpy_head (m(d := m s)) (d + 1) (s + 1) (n - 1) else (m, d, s, n))"
  by auto
termination by (relation "measure (\<lambda>(m, d, s, n). unat n)") (auto simp: unat_minus_one unat_gt_0)

function memcpy_16 :: "memory \<Rightarrow> u64 \<Rightarrow> u64 \<Rightarrow> u64 \<Rightarrow> memory \<times> u64 \<times> u64 \<times> u64" where
  "memcpy_16 m d s n =
     (if n \<ge> 16
      then (let m = copy_word m d s;
                m = copy_word m (d + 4) (s + 4);
                m = copy_word m (d + 8) (s + 8);
                m = copy_word m (d + 12) (s + 12)
            in memcpy_16 m (d + 16) (s + 16) (n - 16))
      else (m, d, s, n))"
  by auto
termination by (relation "measure (\<lambda>(m, d, s, n). unat n)") (auto simp: unat_sub word_le_nat_alt)

declare memcpy_head.simps [simp del] memcpy_16.simps [simp del]

text \<open>The rest of a copy between aligned addresses.\<close>

definition memcpy_aligned :: "memory \<Rightarrow> u64 \<Rightarrow> u64 \<Rightarrow> u64 \<Rightarrow> memory" where
  "memcpy_aligned m d s n =
     (let (m, d, s, n) = memcpy_16 m d s n;
          (m, d, s) = (if n AND 8 \<noteq> 0 then (copy_word (copy_word m d s) (d + 4) (s + 4), d + 8, s + 8) else (m, d, s));
          (m, d, s) = (if n AND 4 \<noteq> 0 then (copy_word m d s, d + 4, s + 4) else (m, d, s));
          (m, d, s) = (if n AND 2 \<noteq> 0 then copy_bytes 2 (m, d, s) else (m, d, s))
      in if n AND 1 \<noteq> 0 then m(d := m s) else m)"

text \<open>
  The three cases for a destination at \<open>a\<close> bytes behind an aligned address, with \<open>a\<close> from 1 to 3: whole
  words are put together from two words of the source. \<open>w\<close> is the word read last.
\<close>

definition join_words :: "nat \<Rightarrow> u32 \<Rightarrow> u32 \<Rightarrow> u32" where
  "join_words a w x = drop_bit (32 - 8 * a) w OR push_bit (8 * a) x"

function memcpy_shift :: "nat \<Rightarrow> u32 \<Rightarrow> memory \<Rightarrow> u64 \<Rightarrow> u64 \<Rightarrow> u64 \<Rightarrow> memory \<times> u64 \<times> u64 \<times> u64" where
  "memcpy_shift a w m d s n =
     (if unat n \<ge> 16 + a
      then (let x = load32 m (s + of_nat a);
                m = store32 m d (join_words a w x);
                w = load32 m (s + of_nat a + 4);
                m = store32 m (d + 4) (join_words a x w);
                x = load32 m (s + of_nat a + 8);
                m = store32 m (d + 8) (join_words a w x);
                w = load32 m (s + of_nat a + 12);
                m = store32 m (d + 12) (join_words a x w)
            in memcpy_shift a w m (d + 16) (s + 16) (n - 16))
      else (m, d, s, n))"
  by auto
termination by (relation "measure (\<lambda>(a, w, m, d, s, n). unat n)") (auto simp: unat_sub word_le_nat_alt)

declare memcpy_shift.simps [simp del]

definition memcpy_unaligned :: "nat \<Rightarrow> memory \<Rightarrow> u64 \<Rightarrow> u64 \<Rightarrow> u64 \<Rightarrow> memory \<times> u64 \<times> u64 \<times> u64" where
  "memcpy_unaligned a m d s n =
     (let w = load32 m s;
          (m, d, s) = copy_bytes (4 - a) (m, d, s)
      in memcpy_shift a w m d s (n - of_nat (4 - a)))"

definition memcpy_tail :: "memory \<Rightarrow> u64 \<Rightarrow> u64 \<Rightarrow> u64 \<Rightarrow> memory" where
  "memcpy_tail m d s n =
     (let part = (\<lambda>k c. if n AND of_nat k \<noteq> 0 then copy_bytes k c else c)
      in fst (part 1 (part 2 (part 4 (part 8 (part 16 (m, d, s)))))))"

definition memcpy :: "memory \<Rightarrow> u64 \<Rightarrow> u64 \<Rightarrow> u64 \<Rightarrow> u64 \<times> memory" where
  "memcpy m dest src n =
     (let (m, d, s, n) = memcpy_head m dest src n
      in (dest,
          if d mod 4 = 0 then memcpy_aligned m d s n
          else (let (m, d, s, n) = (if n \<ge> 32 then memcpy_unaligned (unat (d mod 4)) m d s n else (m, d, s, n))
                in memcpy_tail m d s n)))"

section \<open>Bytes of loads and stores\<close>

lemma store_le_apply:
  assumes "n \<le> 8"
  shows "store_le n m a v b = (if unat (b - a) < n then of_nat (v div 256 ^ unat (b - a)) else m b)"
  using assms
proof (induction n arbitrary: a v)
  case (Suc n)
  show ?case
  proof (cases "b = a")
    case False
    have "unat (b - a) \<noteq> 0" using False by (simp add: unat_eq_0)
    then have u: "unat (b - a) = Suc (unat (b - (a + 1)))"
      using unat_minus_one [of "b - a"] False by (simp add: diff_diff_eq algebra_simps)
    show ?thesis using False Suc by (simp add: u div_mult2_eq)
  qed simp
qed simp

lemma load_le_split: "load_le (i + j) m a = load_le i m a + 256 ^ i * load_le j m (a + of_nat i)"
  by (induction i arbitrary: a) (simp_all add: algebra_simps)

lemma load_le_byte:
  assumes "j < n"
  shows "of_nat (load_le n m a div 256 ^ j) = m (a + of_nat j)"
proof -
  obtain r where n: "n = j + Suc r" using assms less_imp_Suc_add by auto
  have "load_le n m a div 256 ^ j = load_le (Suc r) m (a + of_nat j)"
    unfolding n load_le_split using load_le_bound [of j m a] by simp
  moreover have z: "(256 :: u8) = 0" by simp
  ultimately show ?thesis by (simp add: of_nat_unat z)
qed

lemma load_le_eq: "(\<And>j. j < n \<Longrightarrow> m (a + of_nat j) = m' (a + of_nat j)) \<Longrightarrow> load_le n m a = load_le n m' a"
proof (induction n arbitrary: a)
  case (Suc n)
  have "m a = m' a" using Suc.prems [of 0] by simp
  moreover have "load_le n m (a + 1) = load_le n m' (a + 1)"
  proof (rule Suc.IH)
    show "m (a + 1 + of_nat j) = m' (a + 1 + of_nat j)" if "j < n" for j
      using Suc.prems [of "Suc j"] that by (simp add: add.assoc)
  qed
  ultimately show ?case by simp
qed simp

lemma load_store_bytes:
  "store32 m d (load32 m' s) b = (if unat (b - d) < 4 then m' (s + (b - d)) else m b)"
proof -
  have u: "unat (load32 m' s) = load_le 4 m' s"
    using load_le_bound [of 4 m' s] by (simp add: load32_def unat_of_nat)
  show ?thesis unfolding store32_def u
    by (simp add: store_le_apply load_le_byte of_nat_unat)
qed

section \<open>Correctness of memcpy\<close>

text \<open>The memory when \<open>i\<close> bytes have been copied.\<close>

definition copied :: "memory \<Rightarrow> u64 \<Rightarrow> u64 \<Rightarrow> nat \<Rightarrow> memory" where
  "copied m dest src i = (\<lambda>a. if unat (a - dest) < i then m (src + (a - dest)) else m a)"

definition separate :: "u64 \<Rightarrow> u64 \<Rightarrow> nat \<Rightarrow> bool" where
  "separate dest src n \<longleftrightarrow> (\<forall>j < n. n \<le> unat (src + of_nat j - dest))"

lemma copied_0 [simp]: "copied m dest src 0 = m"
  by (simp add: copied_def)

lemma copied_src:
  assumes "separate dest src N" "j < N" "i \<le> N"
  shows "copied m dest src i (src + of_nat j) = m (src + of_nat j)"
proof -
  have "N \<le> unat (src + of_nat j - dest)" using assms(1,2) by (simp add: separate_def)
  then show ?thesis using assms(3) by (simp add: copied_def)
qed

lemma copied_byte:
  assumes "i < 2 ^ 64"
  shows "(copied m dest src i)(dest + of_nat i := m (src + of_nat i)) = copied m dest src (Suc i)"
proof
  fix a
  have "a = dest + of_nat i \<longleftrightarrow> unat (a - dest) = i"
    using assms by (metis add_diff_cancel_left' diff_add_cancel add.commute of_nat_unat ucast_id unat64_of_nat)
  then show "((copied m dest src i)(dest + of_nat i := m (src + of_nat i))) a = copied m dest src (Suc i) a"
    by (auto simp: copied_def less_Suc_eq)
qed

lemma copied_load32:
  assumes "separate dest src N" "i \<le> N" "j + 4 \<le> N"
  shows "load32 (copied m dest src i) (src + of_nat j) = load32 m (src + of_nat j)"
proof -
  have "load_le 4 (copied m dest src i) (src + of_nat j) = load_le 4 m (src + of_nat j)"
  proof (rule load_le_eq)
    show "copied m dest src i (src + of_nat j + of_nat k) = m (src + of_nat j + of_nat k)" if "k < 4" for k
      using copied_src [OF assms(1) _ assms(2), of "j + k" m] assms(3) that by (simp add: add.assoc)
  qed
  then show ?thesis by (simp add: load32_def)
qed

lemma unat_minus_of_nat:
  assumes "i < 2 ^ 64"
  shows "unat (x - of_nat i :: u64) = (if i \<le> unat x then unat x - i else unat x + 2 ^ 64 - i)"
  using unat_sub_if_size [of x "of_nat i"] by (simp add: unat64_of_nat [OF assms] word_size)

lemma unat_window:
  assumes "i + n \<le> 2 ^ 64" "0 < n"
  shows "unat (a - (dest + of_nat i) :: u64) < n \<longleftrightarrow> i \<le> unat (a - dest) \<and> unat (a - dest) < i + n"
proof -
  have "a - (dest + of_nat i) = (a - dest) - of_nat i" by (simp only: diff_diff_eq)
  then show ?thesis using assms unat64_lt [of "a - dest"] by (simp only: unat_minus_of_nat) auto
qed

lemma copied_word:
  assumes "i + 4 \<le> 2 ^ 64"
  shows "store32 (copied m dest src i) (dest + of_nat i) (load32 m (src + of_nat i)) = copied m dest src (i + 4)"
proof
  fix a
  have u: "unat (a - (dest + of_nat i)) < 4 \<longleftrightarrow> i \<le> unat (a - dest) \<and> unat (a - dest) < i + 4"
    using assms by (rule unat_window) simp
  show "store32 (copied m dest src i) (dest + of_nat i) (load32 m (src + of_nat i)) a = copied m dest src (i + 4) a"
    unfolding load_store_bytes u by (auto simp: copied_def algebra_simps)
qed

lemma join_words_load:
  assumes "a + k = 4" "0 < k" "0 < a"
  shows "join_words a (load32 m p) (load32 m (p + 4)) = load32 m (p + of_nat k)"
proof (rule word_unat_eq_iff [THEN iffD2])
  have u: "unat (load32 m q) = load_le 4 m q" for q
    using load_le_bound [of 4 m q] by (simp add: load32_def unat_of_nat)
  let ?B = "load_le a m (p + of_nat k)" and ?C = "load_le k m (p + 4)"
  have w: "load_le 4 m p = load_le k m p + 256 ^ k * ?B" using load_le_split [of k a m p] assms(1) by (simp add: add.commute)
  have x: "load_le 4 m (p + 4) = ?C + 256 ^ k * load_le a m (p + 4 + of_nat k)"
    using load_le_split [of k a m "p + 4"] assms(1) by (simp add: add.commute)
  have y: "load_le 4 m (p + of_nat k) = ?B + 256 ^ a * ?C"
  proof -
    have "p + of_nat k + of_nat a = p + of_nat (a + k)" by (simp only: of_nat_add add_ac)
    then have "p + of_nat k + of_nat a = p + 4" unfolding assms(1) by simp
    then show ?thesis using load_le_split [of a k m "p + of_nat k"] unfolding assms(1) by (simp only:)
  qed
  have d: "unat (drop_bit (32 - 8 * a) (load32 m p)) = ?B"
  proof -
    have "32 - 8 * a = 8 * k" using assms(1) by simp
    then have "unat (drop_bit (32 - 8 * a) (load32 m p)) = load_le 4 m p div 256 ^ k"
      by (simp only: unat_drop_bit_eq u) (simp add: drop_bit_eq_div power_mult)
    then show ?thesis unfolding w using load_le_bound [of k m p] by simp
  qed
  have sh: "unat (push_bit (8 * a) (load32 m (p + 4))) = 256 ^ a * ?C"
  proof -
    have "unat (push_bit (8 * a) (load32 m (p + 4))) = 256 ^ a * load_le 4 m (p + 4) mod (256 ^ a * 256 ^ k)"
    proof -
      have "unat (push_bit (8 * a) (load32 m (p + 4))) = 2 ^ (8 * a) * load_le 4 m (p + 4) mod 2 ^ 32"
        by (simp only: unsigned_push_bit_eq u) (simp add: take_bit_eq_mod push_bit_eq_mult mult.commute)
      moreover have "(256 :: nat) ^ a * 256 ^ k = 2 ^ 32" using assms(1) by (simp flip: power_add)
      ultimately show ?thesis by (simp add: power_mult)
    qed
    then show ?thesis unfolding x mult_mod_right [symmetric] using load_le_bound [of k m "p + 4"] by simp
  qed
  have "?B OR 256 ^ a * ?C = ?B + 256 ^ a * ?C"
    using or_add_nat [of ?B "8 * a" "256 ^ a * ?C"] load_le_bound [of a m "p + of_nat k"] by (simp add: power_mult or.commute)
  then show "unat (join_words a (load32 m p) (load32 m (p + 4))) = unat (load32 m (p + of_nat k))"
    by (simp only: join_words_def unsigned_or_eq d sh u y)
qed

text \<open>A copy has got \<open>i\<close> of \<open>N\<close> bytes far.\<close>

definition progress :: "memory \<Rightarrow> u64 \<Rightarrow> u64 \<Rightarrow> nat \<Rightarrow> nat \<Rightarrow> copy \<Rightarrow> bool" where
  "progress m0 dest src N i = (\<lambda>(m, d, s). i \<le> N \<and> N < 2 ^ 64 \<and> separate dest src N
     \<and> m = copied m0 dest src i \<and> d = dest + of_nat i \<and> s = src + of_nat i)"

lemma progress_byte: "progress m0 dest src N i c \<Longrightarrow> i < N \<Longrightarrow> progress m0 dest src N (Suc i) (copy_byte c)"
  using copied_byte [of i m0 dest src] copied_src [of dest src N i i m0]
  by (auto simp: progress_def copy_byte_def algebra_simps)

lemma progress_bytes:
  "progress m0 dest src N i c \<Longrightarrow> i + k \<le> N \<Longrightarrow> progress m0 dest src N (i + k) (copy_bytes k c)"
proof (induction k)
  case (Suc k)
  then show ?case using progress_byte [of m0 dest src N "i + k" "copy_bytes k c"] by (simp add: copy_bytes_def)
qed (simp add: copy_bytes_def)

text \<open>Storing a word that agrees with the next four bytes of the source.\<close>

lemma progress_store:
  assumes "progress m0 dest src N i (m, d, s)" "i + 4 \<le> N" "v = load32 m0 (src + of_nat i)"
  shows "progress m0 dest src N (i + 4) (store32 m d v, d + 4, s + 4)"
  using assms copied_word [of i m0 dest src] by (auto simp: progress_def algebra_simps)

lemma progress_load:
  assumes "progress m0 dest src N i (m, d, s)" "i + k + 4 \<le> N"
  shows "load32 m (s + of_nat k) = load32 m0 (src + of_nat (i + k))"
  using assms copied_load32 [of dest src N i "i + k" m0] by (auto simp: progress_def algebra_simps)

lemma progress_word:
  assumes "progress m0 dest src N i (m, d, s)" "i + 4 \<le> N"
  shows "progress m0 dest src N (i + 4) (copy_word m d s, d + 4, s + 4)"
  unfolding copy_word_def using assms progress_load [OF assms(1), of 0] by (intro progress_store) simp_all

definition copying :: "memory \<Rightarrow> u64 \<Rightarrow> u64 \<Rightarrow> nat \<Rightarrow> memory \<times> u64 \<times> u64 \<times> u64 \<Rightarrow> bool" where
  "copying m0 dest src N = (\<lambda>(m, d, s, n). \<exists>i. progress m0 dest src N i (m, d, s) \<and> unat n = N - i)"

lemma progress_le: "progress m0 dest src N i c \<Longrightarrow> i \<le> N"
  by (auto simp: progress_def)

lemma copyingI: "progress m0 dest src N i (m, d, s) \<Longrightarrow> unat n = N - i \<Longrightarrow> copying m0 dest src N (m, d, s, n)"
  by (auto simp: copying_def)

lemma memcpy_head_copying: "copying m0 dest src N (m, d, s, n) \<Longrightarrow> copying m0 dest src N (memcpy_head m d s n)"
proof (induction m d s n rule: memcpy_head.induct)
  case (1 m d s n)
  show ?case
  proof (cases "s mod 4 \<noteq> 0 \<and> n \<noteq> 0")
    case True
    obtain i where i: "progress m0 dest src N i (m, d, s)" "unat n = N - i" using 1(2) by (auto simp: copying_def)
    then have "i < N" using True by (metis unat_eq_0 zero_less_diff neq0_conv)
    then have "progress m0 dest src N (Suc i) (m(d := m s), d + 1, s + 1)"
      using progress_byte [OF i(1)] by (simp add: copy_byte_def)
    moreover have "unat (n - 1) = N - Suc i" using i True by (simp add: unat_minus_one)
    ultimately have "copying m0 dest src N (m(d := m s), d + 1, s + 1, n - 1)" by (rule copyingI)
    then show ?thesis using 1(1) [OF True] True by (simp add: memcpy_head.simps [of m d s n] del: fun_upd_apply)
  qed (use 1 in \<open>auto simp: memcpy_head.simps [of m d s n]\<close>)
qed

lemma memcpy_16_copying:
  "copying m0 dest src N (m, d, s, n) \<Longrightarrow> copying m0 dest src N (memcpy_16 m d s n) \<and> unat (snd (snd (snd (memcpy_16 m d s n)))) < 16"
proof (induction m d s n rule: memcpy_16.induct)
  case (1 m d s n)
  show ?case
  proof (cases "n \<ge> 16")
    case True
    obtain i where i: "progress m0 dest src N i (m, d, s)" "unat n = N - i" using 1(2) by (auto simp: copying_def)
    have u: "16 \<le> unat n" using True by (simp add: word_le_nat_alt)
    then have N: "i + 16 \<le> N" using i by simp
    have p: "progress m0 dest src N (i + 4) (copy_word m d s, d + 4, s + 4)" using progress_word [OF i(1)] N by simp
    have p: "progress m0 dest src N (i + 8) (copy_word (copy_word m d s) (d + 4) (s + 4), d + 8, s + 8)"
      using progress_word [OF p] N by (simp add: add.assoc)
    have p: "progress m0 dest src N (i + 12)
        (copy_word (copy_word (copy_word m d s) (d + 4) (s + 4)) (d + 8) (s + 8), d + 12, s + 12)"
      using progress_word [OF p] N by (simp add: add.assoc)
    have p: "progress m0 dest src N (i + 16)
        (copy_word (copy_word (copy_word (copy_word m d s) (d + 4) (s + 4)) (d + 8) (s + 8)) (d + 12) (s + 12), d + 16, s + 16)"
      using progress_word [OF p] N by (simp add: add.assoc)
    moreover have "unat (n - 16) = N - (i + 16)" using u i True by (simp add: unat_sub)
    ultimately show ?thesis using 1(1) [OF True refl refl refl refl] True
      by (simp add: memcpy_16.simps [of m d s n] copyingI)
  qed (use 1 in \<open>auto simp: memcpy_16.simps [of m d s n] word_le_nat_alt\<close>)
qed

text \<open>In the loop with shifted words, \<open>w\<close> is the word at \<open>4 - a\<close> bytes before the position.\<close>

lemma progress_join:
  assumes "progress m0 dest src N i (m, d, s)" "i + a + 4 \<le> N" "a + k = 4" "0 < k" "0 < a" "k \<le> i"
    "w = load32 m0 (src + of_nat (i - k))" "p = s + of_nat a"
  shows "load32 m p = load32 m0 (src + of_nat (i + 4 - k))"
    "progress m0 dest src N (i + 4) (store32 m d (join_words a w (load32 m p)), d + 4, s + 4)"
proof -
  have n: "(i - k) + 4 = i + a" "(i - k) + k = i" "i + 4 - k = i + a" using assms(3,6) by simp_all
  show l: "load32 m p = load32 m0 (src + of_nat (i + 4 - k))" unfolding assms(8) n using progress_load [OF assms(1,2)] .
  have e: "src + of_nat (i - k) + 4 = src + of_nat (i + 4 - k)" "src + of_nat (i - k) + of_nat k = src + of_nat i"
    unfolding n(3) by (metis (no_types, lifting) n of_nat_add of_nat_numeral add.assoc)+
  have "join_words a w (load32 m p) = load32 m0 (src + of_nat i)"
    using join_words_load [OF assms(3-5), of m0 "src + of_nat (i - k)"] unfolding e l assms(7) .
  then show "progress m0 dest src N (i + 4) (store32 m d (join_words a w (load32 m p)), d + 4, s + 4)"
    using assms(1,2) by (intro progress_store) simp_all
qed

lemma memcpy_shift_copying:
  assumes "progress m0 dest src N i (m, d, s)" "unat n = N - i" "a + k = 4" "0 < k" "0 < a" "k \<le> i"
    "w = load32 m0 (src + of_nat (i - k))"
  shows "copying m0 dest src N (memcpy_shift a w m d s n) \<and> unat (snd (snd (snd (memcpy_shift a w m d s n)))) < 16 + a"
  using assms
proof (induction a w m d s n arbitrary: i rule: memcpy_shift.induct)
  case (1 a w m d s n)
  note orig = 1
  show ?case
  proof (cases "unat n \<ge> 16 + a")
    case True
    have N: "i + 16 + a \<le> N" using True 1(3) progress_le [OF 1(2)] by simp
    define x where "x = load32 m (s + of_nat a)"
    define m1 where "m1 = store32 m d (join_words a w x)"
    define w1 where "w1 = load32 m1 (s + of_nat a + 4)"
    define m2 where "m2 = store32 m1 (d + 4) (join_words a x w1)"
    define x2 where "x2 = load32 m2 (s + of_nat a + 8)"
    define m3 where "m3 = store32 m2 (d + 8) (join_words a w1 x2)"
    define w3 where "w3 = load32 m3 (s + of_nat a + 12)"
    define m4 where "m4 = store32 m3 (d + 12) (join_words a x2 w3)"
    note k = 1(4-7)
    have 1: "x = load32 m0 (src + of_nat (i + 4 - k))" "progress m0 dest src N (i + 4) (m1, d + 4, s + 4)"
      using progress_join [OF 1(2) _ k(1-4) 1(8) refl] N unfolding x_def m1_def by simp_all
    have p: "s + of_nat a + 4 = s + 4 + of_nat a" "s + of_nat a + 8 = s + 8 + of_nat a" "s + of_nat a + 12 = s + 12 + of_nat a"
      by simp_all
    have b: "i + 4 + 4 = i + 8" "i + 8 + 4 = i + 12" "i + 12 + 4 = i + 16" by simp_all
    have c: "y + 4 + 4 = y + 8" "y + 8 + 4 = y + 12" "y + 12 + 4 = y + 16" for y :: u64 by (simp_all add: add.assoc)
    have 2: "w1 = load32 m0 (src + of_nat (i + 8 - k))" "progress m0 dest src N (i + 8) (m2, d + 8, s + 8)"
      using progress_join [OF 1(2) _ k(1-3) _ 1(1) p(1)] N k(4) unfolding w1_def m2_def b c by simp_all
    have 3: "x2 = load32 m0 (src + of_nat (i + 12 - k))" "progress m0 dest src N (i + 12) (m3, d + 12, s + 12)"
      using progress_join [OF 2(2) _ k(1-3) _ 2(1) p(2)] N k(4) unfolding x2_def m3_def b c by simp_all
    have 4: "w3 = load32 m0 (src + of_nat (i + 16 - k))" "progress m0 dest src N (i + 16) (m4, d + 16, s + 16)"
      using progress_join [OF 3(2) _ k(1-3) _ 3(1) p(3)] N k(4) unfolding w3_def m4_def b c by simp_all
    have n: "unat (n - 16) = N - (i + 16)" using True orig(3) by (simp add: unat_sub word_le_nat_alt)
    have "k \<le> i + 16" using k(4) by simp
    then have "copying m0 dest src N (memcpy_shift a w3 m4 (d + 16) (s + 16) (n - 16))
      \<and> unat (snd (snd (snd (memcpy_shift a w3 m4 (d + 16) (s + 16) (n - 16))))) < 16 + a"
      by (intro orig(1) [OF True x_def m1_def w1_def m2_def x2_def m3_def w3_def m4_def 4(2) n k(1-3) _ 4(1)])
    then show ?thesis using True
      by (simp add: memcpy_shift.simps [of a w m d s n] Let_def x_def m1_def w1_def m2_def x2_def m3_def w3_def m4_def)
  next
    case False
    then show ?thesis using 1(3) copyingI [OF 1(2,3)] by (simp add: memcpy_shift.simps [of a w m d s n])
  qed
qed

text \<open>
  The remaining bytes are copied by the bits of their number: when the bits from \<open>j\<close> on are done, the
  lower ones tell what is left.
\<close>

lemma left_bits:
  assumes "(n :: u64) AND 2 ^ j \<noteq> 0 \<longleftrightarrow> b" "unat n \<le> N"
  shows "N - take_bit (Suc j) (unat n) + (if b then 2 ^ j else 0) = N - take_bit j (unat n)"
proof -
  have "b \<longleftrightarrow> bit (unat n) j" using assms(1) by (simp add: and_exp_eq_0_iff_not_bit bit_unsigned_iff)
  moreover have "take_bit (Suc j) (unat n) = 2 ^ j * of_bool (bit (unat n) j) + take_bit j (unat n)"
    by (rule take_bit_Suc_from_most)
  moreover have "take_bit (Suc j) (unat n) \<le> N" using assms(2) take_bit_nat_less_eq_self le_trans by blast
  ultimately show ?thesis by auto
qed

lemma progress_part:
  assumes "progress m0 dest src N (N - take_bit l (unat n)) c" "unat (n :: u64) \<le> N" "k = 2 ^ j" "l = Suc j"
  shows "progress m0 dest src N (N - take_bit j (unat n)) (if n AND of_nat k \<noteq> 0 then copy_bytes k c else c)"
proof -
  let ?b = "n AND 2 ^ j \<noteq> 0"
  have "N - take_bit (Suc j) (unat n) + (if ?b then 2 ^ j else 0) = N - take_bit j (unat n)"
    by (rule left_bits) (use assms(2) in simp_all)
  then show ?thesis using assms(1,3,4) progress_bytes [OF assms(1), of k] by (cases ?b) simp_all
qed

lemma copying_start:
  assumes "copying m0 dest src N (m, d, s, n)"
  shows "progress m0 dest src N (N - unat n) (m, d, s)" "unat n \<le> N"
proof -
  obtain i where i: "progress m0 dest src N i (m, d, s)" "unat n = N - i" using assms by (auto simp: copying_def)
  then have "N - unat n = i" using progress_le [OF i(1)] by simp
  then show "progress m0 dest src N (N - unat n) (m, d, s)" "unat n \<le> N" using i by simp_all
qed

lemma progress_end: "progress m0 dest src N N (m, d, s) \<Longrightarrow> m = copied m0 dest src N"
  by (simp add: progress_def)

lemma memcpy_tail_copied:
  assumes "copying m0 dest src N (m, d, s, n)" "unat n < 32"
  shows "memcpy_tail m d s n = copied m0 dest src N"
proof -
  define part where "part = (\<lambda>k c. if n AND of_nat k \<noteq> 0 then copy_bytes k c else c)"
  have step: "progress m0 dest src N (N - take_bit j (unat n)) (part k c)"
    if "progress m0 dest src N (N - take_bit l (unat n)) c" "k = 2 ^ j" "l = Suc j" for l j k c
    unfolding part_def using that copying_start(2) [OF assms(1)] by (intro progress_part)
  have "progress m0 dest src N (N - take_bit 5 (unat n)) (m, d, s)"
    using assms copying_start(1) [OF assms(1)] by (simp add: take_bit_nat_eq_self)
  then have "progress m0 dest src N (N - take_bit 4 (unat n)) (part 16 (m, d, s))" by (rule step) simp_all
  then have "progress m0 dest src N (N - take_bit 3 (unat n)) (part 8 (part 16 (m, d, s)))" by (rule step) simp_all
  then have "progress m0 dest src N (N - take_bit 2 (unat n)) (part 4 (part 8 (part 16 (m, d, s))))" by (rule step) simp_all
  then have "progress m0 dest src N (N - take_bit 1 (unat n)) (part 2 (part 4 (part 8 (part 16 (m, d, s)))))" by (rule step) simp_all
  then have "progress m0 dest src N (N - take_bit 0 (unat n)) (part 1 (part 2 (part 4 (part 8 (part 16 (m, d, s))))))"
    by (rule step) simp_all
  then show ?thesis unfolding memcpy_tail_def Let_def part_def [symmetric]
    by (cases "part 1 (part 2 (part 4 (part 8 (part 16 (m, d, s)))))") (simp add: progress_end)
qed

text \<open>The aligned rest, which moves whole words for the bits 3 and 2.\<close>

lemma progress_word_part:
  assumes "progress m0 dest src N (N - take_bit l (unat n)) (m, d, s)" "unat (n :: u64) \<le> N" "l = Suc 2"
  shows "progress m0 dest src N (N - take_bit 2 (unat n))
    (if n AND 4 \<noteq> 0 then (copy_word m d s, d + 4, s + 4) else (m, d, s))"
proof -
  have e: "N - take_bit (Suc 2) (unat n) + (if n AND 2 ^ 2 \<noteq> 0 then 2 ^ 2 else 0) = N - take_bit 2 (unat n)"
    by (rule left_bits) (use assms(2) in simp_all)
  show ?thesis
  proof (cases "n AND 4 \<noteq> 0")
    case True
    then have "N - take_bit l (unat n) + 4 = N - take_bit 2 (unat n)" using e assms(3) by simp
    then show ?thesis using progress_word [OF assms(1)] True by simp
  qed (use assms(1,3) e in simp)
qed

lemma progress_two_words_part:
  assumes "progress m0 dest src N (N - take_bit l (unat n)) (m, d, s)" "unat (n :: u64) \<le> N" "l = Suc 3"
  shows "progress m0 dest src N (N - take_bit 3 (unat n))
    (if n AND 8 \<noteq> 0 then (copy_word (copy_word m d s) (d + 4) (s + 4), d + 8, s + 8) else (m, d, s))"
proof -
  have e: "N - take_bit (Suc 3) (unat n) + (if n AND 2 ^ 3 \<noteq> 0 then 2 ^ 3 else 0) = N - take_bit 3 (unat n)"
    by (rule left_bits) (use assms(2) in simp_all)
  show ?thesis
  proof (cases "n AND 8 \<noteq> 0")
    case True
    then have i: "N - take_bit l (unat n) + 8 = N - take_bit 3 (unat n)" using e assms(3) by simp
    then have p: "progress m0 dest src N (N - take_bit l (unat n) + 4) (copy_word m d s, d + 4, s + 4)"
      using progress_word [OF assms(1)] by simp
    have "N - take_bit l (unat n) + 4 + 4 = N - take_bit 3 (unat n)" using i by simp
    then show ?thesis using progress_word [OF p] True by (simp add: add.assoc)
  qed (use assms(1,3) e in simp)
qed

lemma memcpy_aligned_copied:
  assumes "copying m0 dest src N (m, d, s, n)"
  shows "memcpy_aligned m d s n = copied m0 dest src N"
proof -
  obtain m1 d1 s1 n1 where r: "memcpy_16 m d s n = (m1, d1, s1, n1)" by (rule prod_cases4)
  have c: "copying m0 dest src N (m1, d1, s1, n1)" "unat n1 < 16" using memcpy_16_copying [OF assms] r by auto
  note le = copying_start(2) [OF c(1)]
  have p1: "progress m0 dest src N (N - take_bit 4 (unat n1)) (m1, d1, s1)"
    using c copying_start(1) [OF c(1)] by (simp add: take_bit_nat_eq_self)
  obtain m2 d2 s2 where e2: "(if n1 AND 8 \<noteq> 0 then (copy_word (copy_word m1 d1 s1) (d1 + 4) (s1 + 4), d1 + 8, s1 + 8) else (m1, d1, s1)) = (m2, d2, s2)"
    by (rule prod_cases3)
  have p2: "progress m0 dest src N (N - take_bit 3 (unat n1)) (m2, d2, s2)"
    unfolding e2 [symmetric] by (rule progress_two_words_part [OF p1 le]) simp
  obtain m3 d3 s3 where e3: "(if n1 AND 4 \<noteq> 0 then (copy_word m2 d2 s2, d2 + 4, s2 + 4) else (m2, d2, s2)) = (m3, d3, s3)"
    by (rule prod_cases3)
  have p3: "progress m0 dest src N (N - take_bit 2 (unat n1)) (m3, d3, s3)"
    unfolding e3 [symmetric] by (rule progress_word_part [OF p2 le]) simp
  obtain m4 d4 s4 where e4: "(if n1 AND 2 \<noteq> 0 then copy_bytes 2 (m3, d3, s3) else (m3, d3, s3)) = (m4, d4, s4)"
    by (rule prod_cases3)
  have p4: "progress m0 dest src N (N - take_bit 1 (unat n1)) (m4, d4, s4)"
    using progress_part [OF p3 le, of 2 1] unfolding e4 [symmetric] by simp
  have "progress m0 dest src N (N - take_bit 0 (unat n1)) (if n1 AND of_nat 1 \<noteq> 0 then copy_bytes 1 (m4, d4, s4) else (m4, d4, s4))"
    by (rule progress_part [OF p4 le]) simp_all
  then have "copied m0 dest src N = (if n1 AND 1 \<noteq> 0 then m4(d4 := m4 s4) else m4)"
    by (auto simp: copy_bytes_def copy_byte_def dest: progress_end split: if_splits)
  then show ?thesis unfolding memcpy_aligned_def r Let_def prod.case e2 e3 e4 by simp
qed

lemma memcpy_unaligned_copying:
  assumes "copying m0 dest src N (m, d, s, n)" "32 \<le> unat n" "0 < a" "a < 4"
  shows "copying m0 dest src N (memcpy_unaligned a m d s n) \<and> unat (snd (snd (snd (memcpy_unaligned a m d s n)))) < 32"
proof -
  obtain i where i: "progress m0 dest src N i (m, d, s)" "unat n = N - i" using assms(1) by (auto simp: copying_def)
  define k where "k = 4 - a"
  have k: "a + k = 4" "0 < k" "k \<le> i + k" using assms(4) by (auto simp: k_def)
  have N: "i + 32 \<le> N" using assms(2) i by simp
  have w: "load32 m s = load32 m0 (src + of_nat (i + k - k))" using progress_load [OF i(1), of 0] N by simp
  obtain m1 d1 s1 where e: "copy_bytes k (m, d, s) = (m1, d1, s1)" by (rule prod_cases3)
  have p: "progress m0 dest src N (i + k) (m1, d1, s1)" using progress_bytes [OF i(1), of k] N k e by simp
  have kn: "unat (of_nat k :: u64) = k" using k by (intro unat64_of_nat) simp
  have "unat (n - of_nat k) = N - (i + k)" using i(2) assms(2) k by (simp add: unat_sub word_le_nat_alt kn)
  then have "copying m0 dest src N (memcpy_shift a (load32 m s) m1 d1 s1 (n - of_nat k))
      \<and> unat (snd (snd (snd (memcpy_shift a (load32 m s) m1 d1 s1 (n - of_nat k))))) < 16 + a"
    using p k w assms(3) by (intro memcpy_shift_copying)
  then show ?thesis using assms(4) e unfolding memcpy_unaligned_def k_def [symmetric] by auto
qed

lemma memcpy_copied:
  assumes "separate dest src (unat n)"
  shows "memcpy m dest src n = (dest, copied m dest src (unat n))"
proof -
  obtain m1 d1 s1 n1 where h: "memcpy_head m dest src n = (m1, d1, s1, n1)" by (rule prod_cases4)
  have "progress m dest src (unat n) 0 (m, dest, src)" using assms unat64_lt [of n] by (simp add: progress_def)
  then have "copying m dest src (unat n) (m, dest, src, n)" by (rule copyingI) (rule minus_nat.diff_0 [symmetric])
  then have "copying m dest src (unat n) (memcpy_head m dest src n)" by (rule memcpy_head_copying)
  then have c: "copying m dest src (unat n) (m1, d1, s1, n1)" unfolding h .
  have "snd (memcpy m dest src n) = copied m dest src (unat n)"
  proof (cases "d1 mod 4 = 0")
    case True
    then show ?thesis using memcpy_aligned_copied [OF c] by (simp add: memcpy_def h)
  next
    case False
    have a: "0 < unat (d1 mod 4)" using False unfolding unat_gt_0 .
    have a4: "unat (d1 mod 4) < 4" using word_mod_less_divisor [of 4 d1] by (simp add: word_less_nat_alt)
    obtain m2 d2 s2 n2 where e: "(if n1 \<ge> 32 then memcpy_unaligned (unat (d1 mod 4)) m1 d1 s1 n1 else (m1, d1, s1, n1)) = (m2, d2, s2, n2)"
      by (rule prod_cases4)
    have "copying m dest src (unat n) (m2, d2, s2, n2) \<and> unat n2 < 32"
      using memcpy_unaligned_copying [OF c _ a a4] c e by (auto simp: word_le_nat_alt split: if_splits)
    then show ?thesis using memcpy_tail_copied False by (simp add: memcpy_def h e)
  qed
  then show ?thesis by (simp add: memcpy_def h split: prod.splits)
qed

lemma copied_load32_dest:
  assumes "i + 4 \<le> n" "n < 2 ^ 64"
  shows "load32 (copied m dest src n) (dest + of_nat i) = load32 m (src + of_nat i)"
proof -
  have "load_le k (copied m dest src n) (dest + of_nat i) = load_le k m (src + of_nat i)" if "i + k \<le> n" for k
    using that
  proof (induction k arbitrary: i)
    case (Suc k)
    have "unat (of_nat i :: u64) = i" using Suc.prems assms(2) by (intro unat64_of_nat) simp
    then have "copied m dest src n (dest + of_nat i) = m (src + of_nat i)" using Suc.prems by (simp add: copied_def)
    moreover have "load_le k (copied m dest src n) (dest + of_nat i + 1) = load_le k m (src + of_nat i + 1)"
      using Suc.IH [of "Suc i"] Suc.prems by (simp add: ac_simps)
    ultimately show ?case by simp
  qed simp
  then show ?thesis using assms(1) by (simp add: load32_def)
qed

text \<open>
  C35: \<open>memcpy\<close> copies: for regions that do not overlap the destination afterwards holds exactly the bytes
  of the source and every other byte of memory is as before, whatever the alignment of the two addresses.
\<close>

theorem memcpy_correct:
  assumes "separate dest src (unat n)"
  shows "memcpy m dest src n = (dest, \<lambda>a. if unat (a - dest) < unat n then m (src + (a - dest)) else m a)"
  using memcpy_copied [OF assms] by (simp add: copied_def)

theorem memcpy_correct_witness:
  "snd (memcpy (\<lambda>a. ucast a) 0x1003 0x2001 40) 0x1004 = 2"
proof -
  have "separate 0x1003 0x2001 40"
  proof (unfold separate_def, intro allI impI)
    fix j :: nat
    assume "j < 40"
    then have "unat (of_nat j :: u64) = j" by (intro unat64_of_nat) simp
    then have "unat ((0xFFE :: u64) + of_nat j) = 0xFFE + j" using \<open>j < 40\<close> by (subst unat64_add) simp_all
    then show "40 \<le> unat ((0x2001 :: u64) + of_nat j - 0x1003)" by (simp add: algebra_simps)
  qed
  then show ?thesis using memcpy_correct [of "0x1003" "0x2001" 40 "\<lambda>a. ucast a"] by simp
qed

section \<open>Correctness of memset\<close>

text \<open>The memory when the offsets in \<open>I\<close> have been filled.\<close>

definition painted :: "memory \<Rightarrow> u64 \<Rightarrow> u8 \<Rightarrow> nat set \<Rightarrow> memory" where
  "painted m dest b I = (\<lambda>a. if unat (a - dest) \<in> I then b else m a)"

lemma offset_iff: "i < 2 ^ 64 \<Longrightarrow> a = dest + of_nat i \<longleftrightarrow> unat (a - dest :: u64) = i"
  by (metis add_diff_cancel_left' diff_add_cancel add.commute of_nat_unat ucast_id unat64_of_nat)

lemma painted_byte: "i < 2 ^ 64 \<Longrightarrow> (painted m dest b I)(dest + of_nat i := b) = painted m dest b (insert i I)"
  by (auto simp: painted_def fun_eq_iff offset_iff)

lemma load_store_bytes64:
  "store64 m d (load64 m' s) b = (if unat (b - d) < 8 then m' (s + (b - d)) else m b)"
proof -
  have u: "unat (load64 m' s) = load_le 8 m' s"
    using load_le_bound [of 8 m' s] by (simp add: load64_def unat_of_nat)
  show ?thesis unfolding store64_def u
    by (simp add: store_le_apply load_le_byte of_nat_unat)
qed

text \<open>The words filled with one byte.\<close>

lemma load_le_same:
  "load_le 4 (\<lambda>_. b) a = 0x01010101 * unat b" "load_le 8 (\<lambda>_. b) a = 0x0101010101010101 * unat b"
proof -
  have four: "load_le 4 (\<lambda>_. b) a = 0x01010101 * unat b" for a
  proof -
    have e: "4 = Suc (Suc (Suc (Suc 0)))" by simp
    show ?thesis unfolding e load_le.simps by simp
  qed
  then show "load_le 4 (\<lambda>_. b) a = 0x01010101 * unat b" .
  show "load_le 8 (\<lambda>_. b) a = 0x0101010101010101 * unat b"
    using load_le_split [of 4 4 "\<lambda>_. b" a] by (simp add: four)
qed

lemma fill_word: "((- 1) div 255 * ucast (b :: u8) :: u32) = load32 (\<lambda>_. b) 0"
proof -
  have "((- 1) div 255 :: u32) = 0x01010101" by simp
  then show ?thesis by (simp only: load32_def load_le_same of_nat_mult of_nat_unat) simp
qed

lemma fill_double:
  "(ucast (load32 (\<lambda>_. b) 0) OR push_bit 32 (ucast (load32 (\<lambda>_. b) 0)) :: u64) = load64 (\<lambda>_. b) 0"
proof (rule word_unat_eq_iff [THEN iffD2])
  let ?w = "ucast (load32 (\<lambda>_. b) 0) :: u64"
  have b: "unat b < 256" by (rule unat8_lt)
  have "unat (load32 (\<lambda>_. b) 0) = 0x01010101 * unat b" using b by (simp only: load32_def load_le_same unat_of_nat) simp
  then have w: "unat ?w = 0x01010101 * unat b" by (simp only: unat_ucast64)
  then have "unat (push_bit 32 ?w) = 2 ^ 32 * (0x01010101 * unat b)"
    using b by (simp only: unsigned_push_bit_eq) (simp add: take_bit_eq_mod push_bit_eq_mult mult.commute)
  moreover have "2 ^ 32 * (0x01010101 * unat b) OR 0x01010101 * unat b = 2 ^ 32 * (0x01010101 * unat b) + 0x01010101 * unat b"
    using b by (intro or_add_nat [where k = 32]) simp_all
  ultimately have "unat (?w OR push_bit 32 ?w) = 2 ^ 32 * (0x01010101 * unat b) + 0x01010101 * unat b"
    by (simp only: unsigned_or_eq w or.commute)
  also have "\<dots> = unat (load64 (\<lambda>_. b) 0)" using b by (simp only: load64_def load_le_same unat_of_nat) simp
  finally show "unat (?w OR push_bit 32 ?w) = unat (load64 (\<lambda>_. b) 0)" .
qed

lemma painted_store32:
  "i + 4 \<le> 2 ^ 64 \<Longrightarrow> store32 (painted m dest b I) (dest + of_nat i) (load32 (\<lambda>_. b) 0) = painted m dest b (I \<union> {i..<i + 4})"
  by (auto simp: fun_eq_iff load_store_bytes unat_window painted_def)

lemma painted_store64:
  "i + 8 \<le> 2 ^ 64 \<Longrightarrow> store64 (painted m dest b I) (dest + of_nat i) (load64 (\<lambda>_. b) 0) = painted m dest b (I \<union> {i..<i + 8})"
  by (auto simp: fun_eq_iff load_store_bytes64 unat_window painted_def)

lemma memset_loop_painted:
  assumes "j + unat n \<le> 2 ^ 64"
  shows "memset_loop (painted m dest b I) (dest + of_nat j) (load64 (\<lambda>_. b) 0) n
    = painted m dest b (I \<union> {j..<j + 32 * (unat n div 32)})"
  using assms
proof (induction "unat n" arbitrary: n j I rule: less_induct)
  case less
  show ?case
  proof (cases "n \<ge> 32")
    case True
    then have n: "32 \<le> unat n" by (simp add: word_le_nat_alt)
    then have n': "unat (n - 32) = unat n - 32" using True by (simp add: unat_sub)
    let ?c = "load64 (\<lambda>_. b) 0"
    have a: "dest + of_nat j + 8 = dest + of_nat (j + 8)" "dest + of_nat j + 16 = dest + of_nat (j + 16)"
      "dest + of_nat j + 24 = dest + of_nat (j + 24)" "dest + of_nat j + 32 = dest + of_nat (j + 32)" by simp_all
    have "store64 (store64 (store64 (store64 (painted m dest b I) (dest + of_nat j) ?c)
        (dest + of_nat j + 8) ?c) (dest + of_nat j + 16) ?c) (dest + of_nat j + 24) ?c
      = painted m dest b (I \<union> {j..<j + 8} \<union> {j + 8..<j + 8 + 8} \<union> {j + 16..<j + 16 + 8} \<union> {j + 24..<j + 24 + 8})"
      unfolding a using n less.prems by (simp only: painted_store64)
    also have "I \<union> {j..<j + 8} \<union> {j + 8..<j + 8 + 8} \<union> {j + 16..<j + 16 + 8} \<union> {j + 24..<j + 24 + 8} = I \<union> {j..<j + 32}"
      by auto
    finally have "memset_loop (painted m dest b I) (dest + of_nat j) ?c n
        = memset_loop (painted m dest b (I \<union> {j..<j + 32})) (dest + of_nat (j + 32)) ?c (n - 32)"
      using True by (simp add: memset_loop.simps [of _ _ _ n] add.assoc)
    also have "\<dots> = painted m dest b (I \<union> {j..<j + 32} \<union> {j + 32..<j + 32 + 32 * (unat (n - 32) div 32)})"
      using less n n' by (intro less.hyps) simp_all
    also have "I \<union> {j..<j + 32} \<union> {j + 32..<j + 32 + 32 * (unat (n - 32) div 32)} = I \<union> {j..<j + 32 * (unat n div 32)}"
    proof -
      have "32 * (unat n div 32) = 32 + 32 * (unat (n - 32) div 32)" using n n' by (simp add: le_div_geq)
      then show ?thesis by auto
    qed
    finally show ?thesis .
  next
    case False
    then have "unat n div 32 = 0" by (simp add: word_le_nat_alt)
    then show ?thesis using False by (simp add: memset_loop.simps [of _ _ _ n])
  qed
qed

text \<open>Addresses inside the region, as offsets.\<close>

lemma back_offset:
  assumes "unat n = L" "c \<le> L" "x = of_nat c"
  shows "dest + of_nat k + n - x = (dest :: u64) + of_nat (k + L - c)"
proof -
  have "n = of_nat L" unfolding assms(1) [symmetric] by (simp add: of_nat_unat)
  moreover have "(of_nat (k + L - c) :: u64) = of_nat k + of_nat L - of_nat c" using assms(2) by (simp add: of_nat_diff)
  ultimately show ?thesis using assms(3) by simp
qed

lemma and_exp_bit: "bit (w :: u64) j \<Longrightarrow> w AND 2 ^ j = 2 ^ j"
  by (intro bit_word_eqI) (auto simp: bit_and_iff bit_exp_iff)

lemma memset_64_painted:
  assumes "unat n = L" "4 dvd L" "28 \<le> L" "k + L < 2 ^ 64" "{k..<k + 28} \<subseteq> I" "{k + L - 28..<k + L} \<subseteq> I"
  shows "memset_64 (painted m dest b I) (dest + of_nat k) (load32 (\<lambda>_. b) 0) n = painted m dest b (I \<union> {k..<k + L})"
proof -
  let ?s = "dest + of_nat k" and ?c = "load64 (\<lambda>_. b) 0"
  obtain e where e: "24 + (?s AND 4) = of_nat e" "e = 24 \<or> e = 28"
  proof (cases "bit ?s 2")
    case True
    then have "?s AND 2 ^ 2 = 2 ^ 2" by (rule and_exp_bit)
    then have "?s AND 4 = 4" by simp
    then show thesis using that [of 28] by simp
  next
    case False
    then have "?s AND 4 = 0" using and_exp_eq_0_iff_not_bit [of ?s 2] by simp
    then show thesis using that [of 24] by simp
  qed
  have n: "unat (n - of_nat e) = L - e"
    using assms(1,3) e(2) unat_sub [of "of_nat e" n] by (auto simp: word_le_nat_alt)
  have "memset_64 (painted m dest b I) ?s (load32 (\<lambda>_. b) 0) n
      = memset_loop (painted m dest b I) (dest + of_nat (k + e)) ?c (n - of_nat e)"
    by (simp add: memset_64_def Let_def e(1) fill_double add.assoc)
  also have "\<dots> = painted m dest b (I \<union> {k + e..<k + e + 32 * ((L - e) div 32)})"
    using memset_loop_painted [of "k + e" "n - of_nat e" m dest b I] n assms(3,4) e(2) by auto
  also have "I \<union> {k + e..<k + e + 32 * ((L - e) div 32)} = I \<union> {k..<k + L}"
  proof -
    have "4 dvd e" using e(2) by auto
    then have "4 dvd (L - e)" using assms(2) by (rule dvd_diff_nat [rotated])
    then obtain z where "L - e = 4 * z" by (rule dvdE)
    then have "(L - e) mod (4 * 8) = 4 * (z mod 8)" by (simp only: mult_mod_right)
    moreover have "z mod 8 < 8" by simp
    ultimately have "(L - e) mod 32 \<le> 28" by simp
    then have r: "L - e - 32 * ((L - e) div 32) \<le> 28" by (simp add: minus_mult_div_eq_mod)
    have l: "32 * ((L - e) div 32) \<le> L - e" by simp
    have "{k..<k + L} \<subseteq> I \<union> {k + e..<k + e + 32 * ((L - e) div 32)}"
    proof
      fix x
      assume "x \<in> {k..<k + L}"
      then have "x < k + 28 \<or> k + L - 28 \<le> x \<or> k + e \<le> x \<and> x < k + e + 32 * ((L - e) div 32)"
        using r e(2) assms(3) by auto
      then show "x \<in> I \<union> {k + e..<k + e + 32 * ((L - e) div 32)}" using assms(5,6) \<open>x \<in> {k..<k + L}\<close> by auto
    qed
    moreover have "{k + e..<k + e + 32 * ((L - e) div 32)} \<subseteq> {k..<k + L}" using l e(2) assms(3) by auto
    ultimately show ?thesis by blast
  qed
  finally show ?thesis .
qed

definition off :: "u64 \<Rightarrow> nat \<Rightarrow> u64" where
  "off dest i = dest + of_nat i"

lemma off_up: "off dest k + 1 = off dest (k + 1)" "off dest k + numeral x = off dest (k + numeral x)"
  by (simp_all add: off_def add.assoc)

lemma off_down: "unat n = L \<Longrightarrow> c \<le> L \<Longrightarrow> x = of_nat c \<Longrightarrow> off dest k + n - x = off dest (k + L - c)"
  unfolding off_def by (rule back_offset)

lemma painted_words:
  assumes "\<forall>i \<in> set is. i + 4 \<le> 2 ^ 64"
  shows "fold (\<lambda>a m. store32 m a (load32 (\<lambda>_. b) 0)) (map (off dest) is) (painted m dest b I)
    = painted m dest b (I \<union> (\<Union>i\<in>set is. {i..<i + 4}))"
  using assms by (induction "is" arbitrary: I) (simp_all add: painted_store32 Un_assoc off_def)

lemma painted_bytes:
  assumes "\<forall>i \<in> set is. i < 2 ^ 64"
  shows "fold (\<lambda>a m. m(a := b)) (map (off dest) is) (painted m dest b I) = painted m dest b (I \<union> set is)"
  using assms by (induction "is" arbitrary: I) (simp_all add: painted_byte off_def)

lemma memset_32_painted:
  assumes "unat n = L" "4 dvd L" "4 \<le> L" "k + L < 2 ^ 64"
  shows "memset_32 (painted m dest b I) (off dest k) (load32 (\<lambda>_. b) 0) n = painted m dest b (I \<union> {k..<k + L})"
proof -
  let ?c = "load32 (\<lambda>_. b) 0" and ?s = "off dest k"
  let ?fill = "fold (\<lambda>a m. store32 m a ?c)"
  have n: "n \<le> 8 \<longleftrightarrow> L \<le> 8" "n \<le> 24 \<longleftrightarrow> L \<le> 24" using assms(1) by (simp_all add: word_le_nat_alt)
  note down = off_down [OF assms(1)]
  have "store32 (store32 (painted m dest b I) ?s ?c) (?s + n - 4) ?c = ?fill (map (off dest) [k, k + L - 4]) (painted m dest b I)"
    using down [of 4 4] assms(3) by simp
  also have "\<dots> = painted m dest b (I \<union> (\<Union>i\<in>set [k, k + L - 4]. {i..<i + 4}))"
    by (rule painted_words) (use assms(3,4) in auto)
  finally have 1: "store32 (store32 (painted m dest b I) ?s ?c) (?s + n - 4) ?c
    = painted m dest b (I \<union> (\<Union>i\<in>set [k, k + L - 4]. {i..<i + 4}))" .
  have 2: "?fill [?s + 4, ?s + 8, ?s + n - 12, ?s + n - 8] (painted m dest b J)
    = painted m dest b (J \<union> (\<Union>i\<in>set [k + 4, k + 8, k + L - 12, k + L - 8]. {i..<i + 4}))" if "12 \<le> L" for J
  proof -
    have e: "[?s + 4, ?s + 8, ?s + n - 12, ?s + n - 8] = map (off dest) [k + 4, k + 8, k + L - 12, k + L - 8]"
      using down [of 12 12] down [of 8 8] that by (simp add: off_up)
    show ?thesis unfolding e by (rule painted_words) (use that assms(4) in auto)
  qed
  have 3: "?fill [?s + 12, ?s + 16, ?s + 20, ?s + 24, ?s + n - 28, ?s + n - 24, ?s + n - 20, ?s + n - 16] (painted m dest b J)
    = painted m dest b (J \<union> (\<Union>i\<in>set [k + 12, k + 16, k + 20, k + 24, k + L - 28, k + L - 24, k + L - 20, k + L - 16]. {i..<i + 4}))"
    if "28 \<le> L" for J
  proof -
    have e: "[?s + 12, ?s + 16, ?s + 20, ?s + 24, ?s + n - 28, ?s + n - 24, ?s + n - 20, ?s + n - 16]
      = map (off dest) [k + 12, k + 16, k + 20, k + 24, k + L - 28, k + L - 24, k + L - 20, k + L - 16]"
      using down [of 28 28] down [of 24 24] down [of 20 20] down [of 16 16] that by (simp add: off_up)
    show ?thesis unfolding e by (rule painted_words) (use that assms(4) in auto)
  qed
  define J1 where "J1 = I \<union> (\<Union>i\<in>set [k, k + L - 4]. {i..<i + 4})"
  define J2 where "J2 = J1 \<union> (\<Union>i\<in>set [k + 4, k + 8, k + L - 12, k + L - 8]. {i..<i + 4})"
  define J3 where "J3 = J2 \<union> (\<Union>i\<in>set [k + 12, k + 16, k + 20, k + 24, k + L - 28, k + L - 24, k + L - 20, k + L - 16]. {i..<i + 4})"
  obtain z where "L = 4 * z" using assms(2) by (rule dvdE)
  then have "L \<le> 8 \<or> 12 \<le> L \<and> L \<le> 24 \<or> 28 \<le> L" by (cases "z \<le> 2"; cases "z \<le> 6") auto
  then consider "L \<le> 8" | "12 \<le> L" "L \<le> 24" | "28 \<le> L" by blast
  then show ?thesis
  proof cases
    case a: 1
    have "J1 = I \<union> {k..<k + L}" unfolding J1_def using a assms(3) by auto
    then show ?thesis using a n 1 unfolding J1_def by (simp add: memset_32_def)
  next
    case a: 2
    have "J2 = I \<union> {k..<k + L}" unfolding J2_def J1_def using a by auto
    moreover have "memset_32 (painted m dest b I) ?s ?c n = painted m dest b J2"
      unfolding memset_32_def Let_def 1 J1_def [symmetric] 2 [OF a(1)] J2_def [symmetric] using a n by simp
    ultimately show ?thesis by simp
  next
    case a: 3
    then have "12 \<le> L" by simp
    then have "memset_32 (painted m dest b I) ?s ?c n = memset_64 (painted m dest b J3) ?s ?c n"
      unfolding memset_32_def Let_def 1 J1_def [symmetric] 2 [OF \<open>12 \<le> L\<close>] J2_def [symmetric] 3 [OF a] J3_def [symmetric] using a n by simp
    also have "\<dots> = painted m dest b (J3 \<union> {k..<k + L})"
      unfolding off_def by (rule memset_64_painted) (use assms a in \<open>auto simp: J1_def J2_def J3_def\<close>)
    also have "J3 \<union> {k..<k + L} = I \<union> {k..<k + L}" unfolding J3_def J2_def J1_def using a by auto
    finally show ?thesis .
  qed
qed

lemma and_minus_4: "unat ((x :: u64) AND - 4) = 4 * (unat x div 4)"
proof -
  have "x AND - 4 = push_bit 2 (drop_bit 2 x)"
  proof (rule bit_word_eqI)
    fix i
    assume i: "i < LENGTH(64)"
    have "bit (- 4 :: u64) i \<longleftrightarrow> 2 \<le> i" using i bit_minus_exp_iff [of 2 i, where 'a = "64 word"] by simp
    moreover have "2 \<le> i \<Longrightarrow> 2 + (i - 2) = i" by simp
    ultimately show "bit (x AND - 4) i = bit (push_bit 2 (drop_bit 2 x)) i"
      using i by (simp only: bit_and_iff bit_push_bit_iff bit_drop_bit_eq comp_def) auto
  qed
  then have "unat (x AND - 4) = 4 * unat (drop_bit 2 x) mod 2 ^ 64"
    by (simp only: unsigned_push_bit_eq) (simp add: take_bit_eq_mod push_bit_eq_mult mult.commute)
  moreover have d: "unat (drop_bit 2 x) = unat x div 4" by (simp only: unat_drop_bit_eq) (simp add: drop_bit_eq_div)
  moreover have "4 * (unat x div 4) < 2 ^ 64" using unat64_lt [of x] by linarith
  ultimately show ?thesis by simp
qed

text \<open>
  C36: \<open>memset\<close> fills: afterwards exactly the \<open>n\<close> bytes from \<open>dest\<close> hold the byte \<open>c\<close> and the rest of
  memory is as before, for every length and alignment, although heads and tails are written several times.
\<close>

theorem memset_correct:
  "memset m dest c n = (dest, \<lambda>a. if unat (a - dest) < unat n then ucast c else m a)"
proof -
  define b where "b = (ucast c :: u8)"
  define N where "N = unat n"
  define put where "put = fold (\<lambda>a (m :: memory). m(a := b))"
  have N: "N < 2 ^ 64" unfolding N_def by (rule unat64_lt)
  have le: "n \<le> numeral x \<longleftrightarrow> N \<le> unat (numeral x :: u64)" for x by (simp add: N_def word_le_nat_alt)
  have zero: "n = 0 \<longleftrightarrow> N = 0" by (simp add: N_def unat_eq_0)
  have put: "put (map (off dest) is) (painted m dest b I) = painted m dest b (I \<union> set is)" if "\<forall>i \<in> set is. i < N" for "is" I
    unfolding put_def by (rule painted_bytes) (use that N in auto)
  have down: "off dest 0 + n - x = off dest (N - c)" if "c \<le> N" "x = of_nat c" for x c
    using off_down [OF N_def [symmetric] that, of dest 0] by simp
  define J1 J2 J3 where "J1 = {0, N - 1}" "J2 = J1 \<union> {1, 2, N - 2, N - 3}" "J3 = J2 \<union> {3, N - 4}"
  have d: "off dest 0 = dest" by (simp add: off_def)
  have 1: "put [off dest 0, off dest 0 + n - 1] m = painted m dest b J1" if "1 \<le> N"
    using put [of "[0, N - 1]" "{}"] down [of 1 1] that by (simp add: J1_J2_J3_def painted_def)
  have 2: "put [off dest 0 + 1, off dest 0 + 2, off dest 0 + n - 2, off dest 0 + n - 3] (painted m dest b J1) = painted m dest b J2" if "3 \<le> N"
    using put [of "[1, 2, N - 2, N - 3]" J1] down [of 2 2] down [of 3 3] that by (simp add: J1_J2_J3_def off_up numeral_2_eq_2)
  have 3: "put [off dest 0 + 3, off dest 0 + n - 4] (painted m dest b J2) = painted m dest b J3" if "7 \<le> N"
    using put [of "[3, N - 4]" J2] down [of 4 4] that by (simp add: J1_J2_J3_def off_up)
  note 1 = 1 [unfolded d] and 2 = 2 [unfolded d] and 3 = 3 [unfolded d]
  let ?k = "- dest AND 3"
  have tail: "memset_32 (painted m dest b J3) (dest + ?k) ((- 1) div 255 * ucast b) ((n - ?k) AND - 4) = painted m dest b {0..<N}"
    if "9 \<le> N"
  proof -
    have k: "unat ?k < 4" using word_and_le1 [of "- dest" 3] by (simp add: word_le_nat_alt)
    then have "unat (n - ?k) = N - unat ?k" using that by (simp add: unat_sub word_le_nat_alt N_def)
    then have L: "unat ((n - ?k) AND - 4) = 4 * ((N - unat ?k) div 4)" by (simp only: and_minus_4)
    have s: "dest + ?k = off dest (unat ?k)" by (simp add: off_def of_nat_unat)
    have f: "memset_32 (painted m dest b J3) (off dest (unat ?k)) (load32 (\<lambda>_. b) 0) ((n - ?k) AND - 4)
        = painted m dest b (J3 \<union> {unat ?k..<unat ?k + 4 * ((N - unat ?k) div 4)})"
      by (rule memset_32_painted [OF L]) (use that k N in auto)
    have all: "J3 \<union> {j..<j + l} = {0..<N}" if "j < 4" "l \<le> N - j" "N - j < l + 4" for j l
    proof
      have "J3 \<subseteq> {0..<N}" using \<open>9 \<le> N\<close> by (simp add: J1_J2_J3_def)
      moreover have "j + l \<le> N" using that \<open>9 \<le> N\<close> by linarith
      ultimately show "J3 \<union> {j..<j + l} \<subseteq> {0..<N}" by simp
      show "{0..<N} \<subseteq> J3 \<union> {j..<j + l}"
      proof
        fix x
        assume x: "x \<in> {0..<N}"
        then have "x < N" by simp
        consider "x < 4" | "N - 4 \<le> x" | "4 \<le> x" "x < N - 4" by linarith
        then show "x \<in> J3 \<union> {j..<j + l}"
        proof cases
          case 1
          then have "x = 0 \<or> x = 1 \<or> x = 2 \<or> x = 3" by linarith
          then show ?thesis by (auto simp: J1_J2_J3_def)
        next
          case 2
          then have "x = N - 1 \<or> x = N - 2 \<or> x = N - 3 \<or> x = N - 4" using \<open>x < N\<close> by linarith
          then show ?thesis by (auto simp: J1_J2_J3_def)
        next
          case 3
          then have "j \<le> x" "x < j + l" using that by linarith+
          then show ?thesis by simp
        qed
      qed
    qed
    have "J3 \<union> {unat ?k..<unat ?k + 4 * ((N - unat ?k) div 4)} = {0..<N}"
      by (rule all) (use k in \<open>simp_all add: dividend_less_times_div\<close>)
    with f show ?thesis by (simp only: s fill_word)
  qed
  have e: "snd (memset m dest c n) =
    (if n = 0 then m
     else if n \<le> 2 then put [dest, dest + n - 1] m
     else if n \<le> 6 then put [dest + 1, dest + 2, dest + n - 2, dest + n - 3] (put [dest, dest + n - 1] m)
     else if n \<le> 8 then put [dest + 3, dest + n - 4] (put [dest + 1, dest + 2, dest + n - 2, dest + n - 3] (put [dest, dest + n - 1] m))
     else memset_32 (put [dest + 3, dest + n - 4] (put [dest + 1, dest + 2, dest + n - 2, dest + n - 3] (put [dest, dest + n - 1] m)))
       (dest + ?k) ((- 1) div 255 * ucast b) ((n - ?k) AND - 4))"
    unfolding memset_def Let_def snd_conv b_def put_def by (rule refl)
  have "snd (memset m dest c n) = painted m dest b {0..<N}"
  proof -
    consider "N = 0" | "1 \<le> N" "N \<le> 2" | "3 \<le> N" "N \<le> 6" | "7 \<le> N" "N \<le> 8" | "9 \<le> N" by linarith
    then show ?thesis
    proof cases
      case a: 1
      then show ?thesis by (simp add: e zero painted_def)
    next
      case a: 2
      have "J1 = {0..<N}" using a by (auto simp: J1_J2_J3_def)
      then show ?thesis using a 1 by (simp add: e zero le)
    next
      case a: 3
      have "J2 = {0..<N}" using a by (auto simp: J1_J2_J3_def)
      then show ?thesis using a 1 2 by (simp add: e zero le)
    next
      case a: 4
      have "N = 7 \<or> N = 8" using a by linarith
      then have "J3 = {0..<N}" by (elim disjE) (auto simp: J1_J2_J3_def)
      then show ?thesis using a 1 2 3 by (simp add: e zero le)
    next
      case a: 5
      then show ?thesis using 1 2 3 tail by (simp add: e zero le)
    qed
  qed
  then have "snd (memset m dest c n) = (\<lambda>a. if unat (a - dest) < unat n then ucast c else m a)"
    by (simp add: painted_def b_def N_def)
  moreover have "fst (memset m dest c n) = dest" by (simp add: memset_def Let_def)
  ultimately show ?thesis by (simp add: prod_eq_iff)
qed

section \<open>Searching for a zero byte\<close>

lemma bit_load_le: "k < 8 * n \<Longrightarrow> bit (load_le n m a) k \<longleftrightarrow> bit (m (a + of_nat (k div 8))) (k mod 8)"
proof -
  assume k: "k < 8 * n"
  have "(256 :: nat) ^ (k div 8) = 2 ^ (8 * (k div 8))" by (simp add: power_mult)
  then have "(2 :: nat) ^ k = 256 ^ (k div 8) * 2 ^ (k mod 8)" by (simp flip: power_add)
  then have "bit (load_le n m a) k \<longleftrightarrow> bit (load_le n m a div 256 ^ (k div 8)) (k mod 8)"
    by (simp only: bit_iff_odd div_mult2_eq)
  also have "\<dots> \<longleftrightarrow> bit (of_nat (load_le n m a div 256 ^ (k div 8)) :: u8) (k mod 8)" by (simp add: bit_of_nat_iff)
  also have "of_nat (load_le n m a div 256 ^ (k div 8)) = m (a + of_nat (k div 8))" using k by (intro load_le_byte) simp
  finally show ?thesis .
qed

lemma bit_load64: "k < 64 \<Longrightarrow> bit (load64 m a) k \<longleftrightarrow> bit (m (a + of_nat (k div 8))) (k mod 8)"
  using bit_load_le [of k 8 m a] by (simp add: load64_def bit_of_nat_iff)

lemma ONES_load: "ONES = load64 (\<lambda>_. 1) 0"
proof -
  have "load64 (\<lambda>_. 1) 0 = of_nat 0x0101010101010101" by (simp only: load64_def load_le_same) simp
  then show ?thesis by (simp add: ONES_def)
qed

lemma HIGHS_bits: "k < 64 \<Longrightarrow> bit HIGHS k \<longleftrightarrow> k mod 8 = 7"
proof -
  assume k: "k < 64"
  have "load64 (\<lambda>_. 0x80) 0 = of_nat (0x0101010101010101 * 0x80)" by (simp only: load64_def load_le_same) simp
  then have "HIGHS = load64 (\<lambda>_. 0x80) 0" by (simp add: HIGHS_def ONES_def)
  then have "bit HIGHS k \<longleftrightarrow> bit (2 ^ 7 :: u8) (k mod 8)" using bit_load64 [OF k, of "\<lambda>_. 0x80" 0] by simp
  then show ?thesis by (simp only: bit_exp_iff) auto
qed

lemma HASZERO_iff: "HASZERO x \<longleftrightarrow> (\<exists>i < 8. bit (x - ONES) (8 * i + 7) \<and> \<not> bit x (8 * i + 7))"
proof -
  have "HASZERO x \<longleftrightarrow> (\<exists>k < 64. bit (x - ONES) k \<and> \<not> bit x k \<and> k mod 8 = 7)"
  proof -
    have "w \<noteq> 0 \<longleftrightarrow> (\<exists>k < 64. bit w k)" for w :: u64 by (auto simp: bit_eq_iff dest: bit_imp_le_length)
    then show ?thesis unfolding HASZERO_def using HIGHS_bits by (auto simp: bit_and_iff bit_not_iff)
  qed
  also have "\<dots> \<longleftrightarrow> (\<exists>i < 8. bit (x - ONES) (8 * i + 7) \<and> \<not> bit x (8 * i + 7))"
  proof (intro iffI; elim exE conjE)
    fix k :: nat
    assume "k < 64" "bit (x - ONES) k" "\<not> bit x k" "k mod 8 = 7"
    then have "8 * (k div 8) + 7 = k" "k div 8 < 8" using mult_div_mod_eq [of 8 k] by simp_all
    then show "\<exists>i<8. bit (x - ONES) (8 * i + 7) \<and> \<not> bit x (8 * i + 7)"
      using \<open>bit (x - ONES) k\<close> \<open>\<not> bit x k\<close> by metis
  next
    fix i :: nat
    assume "i < 8" "bit (x - ONES) (8 * i + 7)" "\<not> bit x (8 * i + 7)"
    then show "\<exists>k<64. bit (x - ONES) k \<and> \<not> bit x k \<and> k mod 8 = 7" by (intro exI [of _ "8 * i + 7"]) auto
  qed
  finally show ?thesis .
qed

lemma minus_ones:
  "(\<And>i. i < n \<Longrightarrow> m (a + of_nat i) \<noteq> 0) \<Longrightarrow> load_le n m a = load_le n (\<lambda>_. 1) a + load_le n (\<lambda>p. m p - 1) a"
proof (induction n arbitrary: a)
  case (Suc n)
  have "m a \<noteq> 0" using Suc.prems [of 0] by simp
  then have "unat (m a) = 1 + unat (m a - 1)" using unat_minus_one [of "m a"] unat_gt_0 [of "m a"] by simp
  moreover have "load_le n m (a + 1) = load_le n (\<lambda>_. 1) (a + 1) + load_le n (\<lambda>p. m p - 1) (a + 1)"
    using Suc.prems [of "Suc i" for i] by (intro Suc.IH) (simp add: add.assoc)
  ultimately show ?case by simp
qed simp

lemma byte_high: "bit (b :: u8) 7 \<longleftrightarrow> 128 \<le> unat b"
proof -
  have "bit b 7 \<longleftrightarrow> bit (unat b) 7" by (simp add: bit_unsigned_iff)
  also have "\<dots> \<longleftrightarrow> odd (unat b div 128)" by (simp add: bit_iff_odd)
  also have "\<dots> \<longleftrightarrow> 128 \<le> unat b"
  proof (cases "128 \<le> unat b")
    case True
    then obtain r where r: "unat b = 128 + r" using le_Suc_ex by blast
    then show ?thesis using unat8_lt [of b] div_add_self1 [of 128 r] by simp
  qed simp
  finally show ?thesis .
qed

text \<open>The first zero byte shows up in the difference, because the bytes before it do not borrow.\<close>

lemma first_zero_bit:
  assumes "i < 8" "m (a + of_nat i) = 0" "\<And>j. j < i \<Longrightarrow> m (a + of_nat j) \<noteq> 0"
  shows "bit (load64 m a - ONES) (8 * i + 7)"
proof -
  obtain r where r: "8 = i + Suc r" using assms(1) by (metis less_iff_Suc_add add_Suc_right)
  define l where "l = int (load_le i (\<lambda>p. m p - 1) a)"
  define h where "h = int (load_le r m (a + of_nat i + 1))"
  define g where "g = int (load_le r (\<lambda>_. 1) (a + of_nat i + 1))"
  have "int (load_le 8 m a) = int (load_le i m a) + 256 ^ i * (256 * h)"
    unfolding r load_le_split h_def using assms(2) by (simp add: algebra_simps)
  moreover have "int (load_le 8 (\<lambda>_. 1) a) = int (load_le i (\<lambda>_. 1) a) + 256 ^ i * (1 + 256 * g)"
    unfolding r load_le_split g_def by (simp add: algebra_simps)
  moreover have "int (load_le i m a) = int (load_le i (\<lambda>_. 1) a) + l"
    unfolding l_def using minus_ones [of i m a] assms(3) by simp
  ultimately have d: "int (load_le 8 m a) - int (load_le 8 (\<lambda>_. 1) a) = l + 256 ^ i * (255 + 256 * (h - g - 1))"
    by (simp add: algebra_simps)
  have "int (load_le i (\<lambda>p. m p - 1) a) < int (256 ^ i)" by (simp only: of_nat_less_iff load_le_bound)
  then have l: "0 \<le> l" "l < 256 ^ i" by (simp_all add: l_def)
  have "(2 :: int) ^ (8 * i + 7) = 256 ^ i * 128" by (simp add: power_add power_mult)
  then have "(l + 256 ^ i * (255 + 256 * (h - g - 1))) div 2 ^ (8 * i + 7) = (255 + 256 * (h - g - 1)) div 128"
    using l by (simp add: zdiv_zmult2_eq)
  also have "\<dots> = 1 + 2 * (h - g - 1)" by simp
  finally have b: "bit (l + 256 ^ i * (255 + 256 * (h - g - 1))) (8 * i + 7)" by (simp add: bit_iff_odd)
  have "load64 m a - ONES = word_of_int (int (load_le 8 m a) - int (load_le 8 (\<lambda>_. 1) a))"
    by (simp only: load64_def ONES_load load_le_same) simp
  then show ?thesis unfolding d using b assms(1) by (simp only: bit_word_of_int_iff) simp
qed

text \<open>The test on a whole word finds exactly the words with a zero byte.\<close>

lemma HASZERO_load: "HASZERO (load64 m a) \<longleftrightarrow> (\<exists>i < 8. m (a + of_nat i) = 0)"
proof
  assume h: "HASZERO (load64 m a)"
  show "\<exists>i < 8. m (a + of_nat i) = 0"
  proof (rule ccontr)
    assume no: "\<not> ?thesis"
    then have "load_le 8 m a = load_le 8 (\<lambda>_. 1) a + load_le 8 (\<lambda>p. m p - 1) a" by (intro minus_ones) auto
    moreover have "ONES = of_nat (load_le 8 (\<lambda>_. 1) a)" by (simp only: ONES_load load64_def load_le_same)
    ultimately have d: "load64 m a - ONES = load64 (\<lambda>p. m p - 1) a" by (simp add: load64_def)
    obtain i where i: "i < 8" "bit (load64 m a - ONES) (8 * i + 7)" "\<not> bit (load64 m a) (8 * i + 7)"
      using h unfolding HASZERO_iff by blast
    let ?b = "m (a + of_nat i)"
    have "128 \<le> unat (?b - 1)" "\<not> 128 \<le> unat ?b" using i d bit_load64 [of "8 * i + 7"] by (simp_all flip: byte_high)
    moreover have "?b \<noteq> 0" using no i(1) by auto
    ultimately show False by (simp add: unat_minus_one)
  qed
next
  assume "\<exists>i < 8. m (a + of_nat i) = 0"
  then obtain k where "k < 8" "m (a + of_nat k) = 0" by blast
  then obtain i where i: "i \<le> k" "m (a + of_nat i) = 0" "\<And>j. j < i \<Longrightarrow> m (a + of_nat j) \<noteq> 0"
    using ex_least_nat_le [of "\<lambda>i. m (a + of_nat i) = 0" k] by blast
  have "i < 8" using i(1) \<open>k < 8\<close> by simp
  moreover have "\<not> bit (load64 m a) (8 * i + 7)" using i(2) \<open>i < 8\<close> bit_load64 [of "8 * i + 7" m a] by simp
  ultimately show "HASZERO (load64 m a)" unfolding HASZERO_iff using first_zero_bit [of i m a] i(2,3) by blast
qed

section \<open>strlen\<close>

text \<open>The first zero byte lies at offset \<open>L\<close>.\<close>

definition ends_at :: "memory \<Rightarrow> u64 \<Rightarrow> nat \<Rightarrow> bool" where
  "ends_at m s L \<longleftrightarrow> m (s + of_nat L) = 0 \<and> (\<forall>j < L. m (s + of_nat j) \<noteq> 0)"

lemma ends_at_cstr: "cstr m s xs \<Longrightarrow> ends_at m s (length xs)"
  by (auto simp: ends_at_def cstr_iff_nth)

lemma ends_at_step: "ends_at m s L \<Longrightarrow> j \<le> L \<Longrightarrow> m (s + of_nat j) \<noteq> 0 \<Longrightarrow> j < L"
  by (metis ends_at_def le_neq_implies_less)

lemma strlen_head_ends:
  assumes "ends_at m s L" "j \<le> L"
  shows "strlen_head k m (s + of_nat j) = Inl (s + of_nat L)
    \<or> (\<exists>j' \<le> L. strlen_head k m (s + of_nat j) = Inr (s + of_nat j'))"
  using assms(2)
proof (induction k arbitrary: j)
  case (Suc k)
  show ?case
  proof (cases "m (s + of_nat j) = 0")
    case True
    then have "j = L" using assms(1) Suc.prems by (meson ends_at_def le_neq_implies_less)
    then show ?thesis using True by auto
  next
    case False
    then have "Suc j \<le> L" using ends_at_step [OF assms(1) Suc.prems] by simp
    show ?thesis
    proof (cases "(s + of_nat j) mod 8 = 0")
      case True
      then have "strlen_head (Suc k) m (s + of_nat j) = Inr (s + of_nat j)" by simp
      then show ?thesis using Suc.prems by blast
    next
      case aligned: False
      have "strlen_head (Suc k) m (s + of_nat j) = strlen_head k m (s + of_nat j + 1)" using aligned False by simp
      also have "s + of_nat j + 1 = s + of_nat (Suc j)" by simp
      finally have "strlen_head (Suc k) m (s + of_nat j) = strlen_head k m (s + of_nat (Suc j))" .
      then show ?thesis using Suc.IH [OF \<open>Suc j \<le> L\<close>] by (simp only:)
    qed
  qed
qed auto

lemma strlen_words_ends:
  assumes "ends_at m s L" "j \<le> L"
  shows "\<exists>j' \<le> L. strlen_words m (s + of_nat j) = Some (s + of_nat j')"
  using assms(2)
proof (induction "L - j" arbitrary: j rule: less_induct)
  case less
  show ?case
  proof (cases "HASZERO (load64 m (s + of_nat j))")
    case True
    then show ?thesis using less.prems by (subst strlen_words.simps) auto
  next
    case False
    have "j + 8 \<le> L"
    proof (rule ccontr)
      assume "\<not> j + 8 \<le> L"
      then have "L - j < 8" by simp
      moreover have "m (s + of_nat j + of_nat (L - j)) = 0" using assms(1) less.prems by (simp add: ends_at_def of_nat_diff)
      ultimately show False using False unfolding HASZERO_load by blast
    qed
    then show ?thesis using less.hyps [of "j + 8"] False by (subst strlen_words.simps) (simp add: add.assoc)
  qed
qed

lemma strlen_bytes_ends:
  assumes "ends_at m s L" "j \<le> L"
  shows "strlen_bytes m (s + of_nat j) = Some (s + of_nat L)"
  using assms(2)
proof (induction "L - j" arbitrary: j)
  case 0
  then show ?case using assms(1) by (subst strlen_bytes.simps) (simp add: ends_at_def)
next
  case (Suc d)
  then have "m (s + of_nat j) \<noteq> 0" using assms(1) by (simp add: ends_at_def)
  then show ?case using Suc.hyps(1) [of "Suc j"] Suc.hyps(2) by (subst strlen_bytes.simps) (simp add: add_ac)
qed

lemma libc_strlen_ends:
  assumes "ends_at m s L"
  shows "libc_strlen m s = Some (of_nat L)"
proof -
  consider "strlen_head 8 m s = Inl (s + of_nat L)" | j where "j \<le> L" "strlen_head 8 m s = Inr (s + of_nat j)"
    using strlen_head_ends [OF assms, of 0 8] by auto
  then show ?thesis
  proof cases
    case 2
    then obtain j' where "j' \<le> L" "strlen_words m (s + of_nat j) = Some (s + of_nat j')" using strlen_words_ends [OF assms] by blast
    then show ?thesis using 2 strlen_bytes_ends [OF assms] by (simp add: libc_strlen_def del: strlen_head.simps)
  qed (simp add: libc_strlen_def del: strlen_head.simps)
qed

section \<open>memchr and strnlen\<close>

text \<open>A search that has passed \<open>j\<close> of \<open>N\<close> bytes without finding \<open>c\<close>.\<close>

definition searching :: "memory \<Rightarrow> u64 \<Rightarrow> u8 \<Rightarrow> nat \<Rightarrow> u64 \<times> u64 \<Rightarrow> bool" where
  "searching m src c N = (\<lambda>(s, n). \<exists>j \<le> N. s = src + of_nat j \<and> unat n = N - j \<and> (\<forall>i < j. m (src + of_nat i) \<noteq> c))"

lemma searching_step:
  assumes "searching m src c N (s, n)" "n \<noteq> 0" "m s \<noteq> c"
  shows "searching m src c N (s + 1, n - 1)"
proof -
  obtain j where j: "j \<le> N" "s = src + of_nat j" "unat n = N - j" "\<forall>i < j. m (src + of_nat i) \<noteq> c"
    using assms(1) by (auto simp: searching_def)
  have "j < N" using j(1,3) assms(2) by (metis le_neq_implies_less diff_self_eq_0 unat_eq_0)
  then have "Suc j \<le> N \<and> s + 1 = src + of_nat (Suc j) \<and> unat (n - 1) = N - Suc j \<and> (\<forall>i < Suc j. m (src + of_nat i) \<noteq> c)"
    using j assms(2,3) by (auto simp: unat_minus_one less_Suc_eq add_ac)
  then show ?thesis unfolding searching_def by blast
qed

lemma memchr_head_searching: "searching m src c N (s, n) \<Longrightarrow> searching m src c N (memchr_head m s c n)"
  by (induction m s c n rule: memchr_head.induct) (subst memchr_head.simps, auto intro: searching_step)

lemma memchr_bytes_searching:
  "searching m src c N (s, n) \<Longrightarrow> searching m src c N (memchr_bytes m s c n)
    \<and> (snd (memchr_bytes m s c n) = 0 \<or> m (fst (memchr_bytes m s c n)) = c)"
  by (induction m s c n rule: memchr_bytes.induct) (subst (1 2 3) memchr_bytes.simps, auto intro: searching_step)

lemma xor_load64: "load64 m w XOR (ONES * ucast c) = load64 (\<lambda>p. m p XOR c) w"
proof -
  have o: "ONES * ucast c = load64 (\<lambda>_. c) 0"
    by (simp only: ONES_load load64_def load_le_same of_nat_mult of_nat_unat) simp
  show ?thesis unfolding o by (rule bit_word_eqI) (simp add: bit_xor_iff bit_load64)
qed

lemma memchr_words_searching: "searching m src c N (s, n) \<Longrightarrow> searching m src c N (memchr_words m s (ONES * ucast c) n)"
proof (induction m s "ONES * ucast c :: u64" n rule: memchr_words.induct)
  case (1 m w n)
  show ?case
  proof (cases "n \<ge> 8 \<and> \<not> HASZERO (load64 m w XOR (ONES * ucast c))")
    case True
    obtain j where j: "j \<le> N" "w = src + of_nat j" "unat n = N - j" "\<forall>i < j. m (src + of_nat i) \<noteq> c"
      using 1(2) by (auto simp: searching_def)
    have n: "8 \<le> unat n" using True by (simp add: word_le_nat_alt)
    have xor: "x XOR c = 0 \<longleftrightarrow> x = c" for x :: u8 by (auto simp: bit_eq_iff bit_xor_iff)
    have none: "\<forall>i < 8. m (w + of_nat i) \<noteq> c" using True unfolding xor_load64 HASZERO_load by (simp add: xor)
    have "m (src + of_nat i) \<noteq> c" if "i < j + 8" for i
    proof (cases "i < j")
      case False
      then have "i - j < 8" "w + of_nat (i - j) = src + of_nat i" using that j(2) by (auto simp: of_nat_diff)
      then show ?thesis using none by metis
    qed (use j in blast)
    moreover have "unat (n - 8) = N - (j + 8)" using n j(3) True by (simp add: unat_sub)
    moreover have "w + 8 = src + of_nat (j + 8)" using j(2) by (simp add: add.assoc)
    ultimately have "searching m src c N (w + 8, n - 8)" unfolding searching_def using n j(1,3) by (auto intro!: exI [of _ "j + 8"])
    then show ?thesis using 1(1) [OF True] True by (simp add: memchr_words.simps [of m w _ n])
  next
    case False
    then show ?thesis using 1(2) by (subst memchr_words.simps) auto
  qed
qed

lemma memchr_correct:
  "memchr m src c n = (if \<exists>j < unat n. m (src + of_nat j) = ucast c
     then src + of_nat (LEAST j. m (src + of_nat j) = ucast c) else NULL)"
proof -
  let ?c = "ucast c :: u8" and ?N = "unat n"
  obtain s1 n1 where 1: "memchr_head m src ?c n = (s1, n1)" by fastforce
  define w where "w = (if n1 \<noteq> 0 \<and> m s1 \<noteq> ?c then memchr_words m s1 (ONES * ucast ?c) n1 else (s1, n1))"
  obtain s2 n2 where 2: "w = (s2, n2)" by fastforce
  obtain s3 n3 where 3: "memchr_bytes m s2 ?c n2 = (s3, n3)" by fastforce
  have "searching m src ?c ?N (src, n)" by (auto simp: searching_def)
  then have "searching m src ?c ?N (s1, n1)" using memchr_head_searching 1 by metis
  then have "searching m src ?c ?N (s2, n2)"
    using memchr_words_searching [of m src ?c ?N s1 n1] 2 by (auto simp: w_def split: if_splits)
  then have s: "searching m src ?c ?N (s3, n3)" "n3 = 0 \<or> m s3 = ?c" using memchr_bytes_searching [of m src ?c ?N s2 n2] 3 by auto
  then obtain j where j: "j \<le> ?N" "s3 = src + of_nat j" "unat n3 = ?N - j" "\<forall>i < j. m (src + of_nat i) \<noteq> ?c"
    by (auto simp: searching_def)
  have r: "memchr m src c n = (if n3 \<noteq> 0 then s3 else NULL)"
    using 2 3 by (simp add: memchr_def 1 Let_def w_def)
  show ?thesis
  proof (cases "n3 = 0")
    case True
    then have "j = ?N" using j by simp
    then show ?thesis using j(4) r True by auto
  next
    case False
    then have "j < ?N" using j(1,3) by (metis le_neq_implies_less diff_self_eq_0 unat_eq_0)
    moreover have f: "m (src + of_nat j) = ?c" using s(2) False j(2) by simp
    moreover have "(LEAST i. m (src + of_nat i) = ?c) = j" using f j(4) by (intro Least_equality) (auto simp: not_less [symmetric])
    ultimately show ?thesis using r False j(2) by auto
  qed
qed

text \<open>\<open>strnlen\<close> of a string that ends at \<open>L\<close> is \<open>L\<close>, but at most \<open>n\<close>.\<close>

lemma strnlen_ends:
  assumes "ends_at m s L" "\<And>j. j \<le> L \<Longrightarrow> s + of_nat j \<noteq> NULL"
  shows "strnlen m s n = (if L < unat n then of_nat L else n)"
proof (cases "L < unat n")
  case True
  have "(LEAST j. m (s + of_nat j) = 0) = L"
    using assms(1) by (intro Least_equality) (auto simp: ends_at_def not_less [symmetric])
  moreover have "\<exists>j < unat n. m (s + of_nat j) = 0" using True assms(1) by (auto simp: ends_at_def)
  ultimately show ?thesis using True assms(2) [of L] memchr_correct [of m s 0 n] by (simp add: strnlen_def)
next
  case False
  then have "\<not> (\<exists>j < unat n. m (s + of_nat j) = 0)" using assms(1) by (auto simp: ends_at_def)
  then have "memchr m s 0 n = NULL" unfolding memchr_correct by (intro if_not_P) auto
  then show ?thesis using False by (simp add: strnlen_def)
qed

end
