(* ===== verification/Os_Main.thy ===== *)
theory Os_Main
  imports Libc_String
begin

text \<open>
  The user program (os/src/Main.c): a square that bounces over the screen. The three buffers are addresses in
  byte memory: what \<open>mmap\<close> and the two calls of \<open>malloc\<close> return. Nothing is assumed about them but in the
  statements. The loop never ends; one round is a function, and the states it runs through are an inductive
  predicate.
\<close>

section \<open>State and rounds\<close>

definition FB_SIZE :: u64 where "FB_SIZE = 800 * 600 * 4"

record dvd_state =
  pos_x :: int
  pos_y :: int
  dir_x :: int
  dir_y :: int
  fb_ptr :: u64
  original :: u64
  backbuffer_ptr :: u64
  dvd_mem :: memory

text \<open>Element \<open>i\<close> of an array of \<open>uint32_t\<close>, and the elements of the square.\<close>

definition pixel_at :: "u64 \<Rightarrow> int \<Rightarrow> u64" where
  "pixel_at b i = b + 4 * word_of_int i"

definition square_index :: "int \<Rightarrow> int \<Rightarrow> nat \<Rightarrow> nat \<Rightarrow> int" where
  "square_index x y i j = (y + int i) * 800 + (x + int j)"

definition draw_square :: "u64 \<Rightarrow> int \<Rightarrow> int \<Rightarrow> memory \<Rightarrow> memory" where
  "draw_square b x y m =
     fold (\<lambda>i m. fold (\<lambda>j m. store32 m (pixel_at b (square_index x y i j)) 0x0000FF) [0..<100] m) [0..<100] m"

text \<open>The parts of a round: drawing and showing the frame, moving the square, turning at the edges.\<close>

definition draw_frame :: "dvd_state \<Rightarrow> dvd_state" where
  "draw_frame s = s\<lparr>dvd_mem := draw_square (backbuffer_ptr s) (pos_x s) (pos_y s)
     (snd (memcpy (dvd_mem s) (backbuffer_ptr s) (original s) FB_SIZE))\<rparr>"

definition show_frame :: "dvd_state \<Rightarrow> dvd_state" where
  "show_frame s = s\<lparr>dvd_mem := snd (memcpy (dvd_mem s) (fb_ptr s) (backbuffer_ptr s) FB_SIZE)\<rparr>"

definition move_square :: "dvd_state \<Rightarrow> dvd_state" where
  "move_square s = s\<lparr>pos_x := pos_x s + dir_x s, pos_y := pos_y s + dir_y s\<rparr>"

definition turn_x :: "dvd_state \<Rightarrow> dvd_state" where
  "turn_x s = (if pos_x s + 100 \<ge> 800 \<or> pos_x s \<le> 0 then s\<lparr>dir_x := dir_x s * - 1\<rparr> else s)"

definition turn_y :: "dvd_state \<Rightarrow> dvd_state" where
  "turn_y s = (if pos_y s + 100 \<ge> 600 \<or> pos_y s \<le> 0 then s\<lparr>dir_y := dir_y s * - 1\<rparr> else s)"

definition dvd_round :: "dvd_state \<Rightarrow> dvd_state" where
  "dvd_round s = turn_y (turn_x (move_square (show_frame (draw_frame s))))"

lemmas round_parts = dvd_round_def draw_frame_def show_frame_def move_square_def turn_x_def turn_y_def

text \<open>Before the loop the image at \<open>fb_ptr\<close> is copied.\<close>

definition dvd_start :: "u64 \<Rightarrow> u64 \<Rightarrow> u64 \<Rightarrow> memory \<Rightarrow> dvd_state" where
  "dvd_start fb saved buf m =
     \<lparr>pos_x = 0, pos_y = 0, dir_x = 1, dir_y = 1, fb_ptr = fb, original = saved, backbuffer_ptr = buf,
      dvd_mem = snd (memcpy m saved fb FB_SIZE)\<rparr>"

inductive dvd_reach :: "dvd_state \<Rightarrow> dvd_state \<Rightarrow> bool" for s0 where
  start: "dvd_reach s0 s0"
| round: "dvd_reach s0 s \<Longrightarrow> dvd_reach s0 (dvd_round s)"

inductive_cases dvd_reach_cases: "dvd_reach s0 s"

section \<open>Drawing\<close>

definition in_square :: "int \<Rightarrow> int \<Rightarrow> int \<Rightarrow> bool" where
  "in_square x y p \<longleftrightarrow> (\<exists>i<100. \<exists>j<100. p = square_index x y i j)"

lemma FB_SIZE_bytes: "unat FB_SIZE = 1920000"
  by (simp add: FB_SIZE_def)

text \<open>The bytes of element \<open>p\<close> of a buffer.\<close>

lemma pixel_at_nat: "0 \<le> p \<Longrightarrow> pixel_at b p = b + of_nat (4 * nat p)"
proof -
  assume "0 \<le> p"
  then have "(word_of_int p :: u64) = of_nat (nat p)" by (metis int_nat_eq of_int_of_nat_eq)
  then show ?thesis by (simp add: pixel_at_def)
qed

lemma pixel_bytes:
  assumes "0 \<le> p" "p < 480000"
  shows "in_range (pixel_at b p) 4 a \<longleftrightarrow> 4 * nat p \<le> unat (a - b) \<and> unat (a - b) < 4 * nat p + 4"
  unfolding in_range_def pixel_at_nat [OF assms(1)] using assms(2) by (intro unat_window) simp_all

lemma pixels_apart:
  assumes "0 \<le> p" "p < 480000" "0 \<le> q" "q < 480000" "p \<noteq> q"
  shows "apart (pixel_at b p) 4 (pixel_at b q) 4"
proof -
  have off: "unat (pixel_at b r - b) = 4 * nat r" if "0 \<le> r" "r < 480000" for r
  proof -
    have "unat (of_nat (4 * nat r) :: u64) = 4 * nat r" using that by (intro unat64_of_nat) simp
    then show ?thesis by (simp only: pixel_at_nat [OF that(1)] add_diff_cancel_left')
  qed
  have "\<not> in_range (pixel_at b p) 4 (pixel_at b q)" "\<not> in_range (pixel_at b q) 4 (pixel_at b p)"
    using pixel_bytes [OF assms(1,2), of b "pixel_at b q"] pixel_bytes [OF assms(3,4), of b "pixel_at b p"] off assms by auto
  then show ?thesis by (simp add: apart_def in_range_def)
qed

lemma store_pixels:
  fixes b :: u64 and v :: u32 and m :: memory
  assumes "\<forall>q \<in> set qs. 0 \<le> q \<and> q < 480000"
  defines "m' \<equiv> fold (\<lambda>q m. store32 m (pixel_at b q) v) qs m"
  shows "0 \<le> p \<Longrightarrow> p < 480000 \<Longrightarrow> load32 m' (pixel_at b p) = (if p \<in> set qs then v else load32 m (pixel_at b p))"
    and "1920000 \<le> unat (a - b) \<Longrightarrow> m' a = m a"
proof -
  show "0 \<le> p \<Longrightarrow> p < 480000 \<Longrightarrow> load32 m' (pixel_at b p) = (if p \<in> set qs then v else load32 m (pixel_at b p))"
    using assms(1) unfolding m'_def
  proof (induction qs arbitrary: m)
    case (Cons q qs)
    have "load32 (store32 m (pixel_at b q) v) (pixel_at b p) = (if p = q then v else load32 m (pixel_at b p))"
      using pixels_apart [of q p b] Cons.prems by (simp add: load32_store32_apart)
    then show ?case using Cons by simp
  qed simp
  show "1920000 \<le> unat (a - b) \<Longrightarrow> m' a = m a"
    using assms(1) unfolding m'_def
  proof (induction qs arbitrary: m)
    case (Cons q qs)
    have "\<not> in_range (pixel_at b q) 4 a" using pixel_bytes [of q b a] Cons.prems by auto
    then have "store32 m (pixel_at b q) v a = m a" using store_le_other [of "pixel_at b q" 4 a] by (simp add: store32_def)
    then show ?case using Cons by simp
  qed simp
qed

definition square_pixels :: "int \<Rightarrow> int \<Rightarrow> int list" where
  "square_pixels x y = concat (map (\<lambda>i. map (square_index x y i) [0..<100]) [0..<100])"

lemma set_square_pixels: "p \<in> set (square_pixels x y) \<longleftrightarrow> in_square x y p"
proof -
  have "p \<in> set (concat (map (\<lambda>i. map (square_index x y i) js) is)) \<longleftrightarrow> (\<exists>i \<in> set is. \<exists>j \<in> set js. p = square_index x y i j)" for "is" js
    by auto
  then show ?thesis unfolding square_pixels_def in_square_def by (simp only: set_upt Bex_def atLeastLessThan_iff) simp
qed

lemma draw_square_fold: "draw_square b x y = fold (\<lambda>q m. store32 m (pixel_at b q) 0x0000FF) (square_pixels x y)"
proof -
  have "fold (\<lambda>i m. fold (\<lambda>j m. g m (h i j)) js m) is m = fold (\<lambda>q m. g m q) (concat (map (\<lambda>i. map (h i) js) is)) m"
    for g :: "memory \<Rightarrow> int \<Rightarrow> memory" and h :: "nat \<Rightarrow> nat \<Rightarrow> int" and js "is" m
    by (induction "is" arbitrary: m) (simp_all add: fold_map comp_def)
  from this [of "\<lambda>m q. store32 m (pixel_at b q) 0x0000FF" "square_index x y" "[0..<100]" "[0..<100]"] show ?thesis
    unfolding draw_square_def square_pixels_def by (intro ext) simp
qed

lemma square_inside:
  assumes "0 \<le> x" "x \<le> 700" "0 \<le> y" "y \<le> 500" "in_square x y p"
  shows "0 \<le> p" "p < 480000"
  using assms by (auto simp: in_square_def square_index_def)

section \<open>Motion\<close>

text \<open>One coordinate: a walk between 0 and \<open>w\<close> that turns at the ends.\<close>

definition bounce :: "int \<Rightarrow> int \<times> int \<Rightarrow> int \<times> int" where
  "bounce w = (\<lambda>(p, d). (p + d, if p + d \<ge> w \<or> p + d \<le> 0 then - d else d))"

lemma dvd_round_motion:
  "(pos_x (dvd_round s), dir_x (dvd_round s)) = bounce 700 (pos_x s, dir_x s)"
  "(pos_y (dvd_round s), dir_y (dvd_round s)) = bounce 500 (pos_y s, dir_y s)"
  by (simp_all add: round_parts bounce_def)

lemma dvd_round_pointers:
  "fb_ptr (dvd_round s) = fb_ptr s" "original (dvd_round s) = original s" "backbuffer_ptr (dvd_round s) = backbuffer_ptr s"
  by (simp_all add: round_parts)

lemma dvd_round_mem: "dvd_mem (dvd_round s) =
    snd (memcpy (draw_square (backbuffer_ptr s) (pos_x s) (pos_y s) (snd (memcpy (dvd_mem s) (backbuffer_ptr s) (original s) FB_SIZE)))
      (fb_ptr s) (backbuffer_ptr s) FB_SIZE)"
  by (simp add: round_parts)

text \<open>Where the walk is after \<open>n\<close> steps.\<close>

definition swing :: "nat \<Rightarrow> nat \<Rightarrow> int \<times> int" where
  "swing w n = (let r = n mod (2 * w) in (if r \<le> w then int r else int (2 * w - r), if r < w then 1 else - 1))"

lemma swing_step:
  assumes "0 < w"
  shows "bounce (int w) (swing w n) = swing w (Suc n)"
proof -
  define r where "r = n mod (2 * w)"
  have r: "r < 2 * w" using assms by (simp add: r_def)
  have s: "Suc n mod (2 * w) = (if Suc r = 2 * w then 0 else Suc r)" by (simp add: r_def mod_Suc)
  show ?thesis using r assms unfolding swing_def s bounce_def r_def [symmetric]
    by (auto simp: Let_def of_nat_diff)
qed

lemma swing_bounds: "0 < w \<Longrightarrow> 0 \<le> fst (swing w n) \<and> fst (swing w n) \<le> int w"
proof -
  assume "0 < w"
  then have "n mod (2 * w) < 2 * w" by simp
  then show ?thesis by (auto simp: swing_def Let_def simp flip: of_nat_mult of_nat_diff)
qed

lemma swing_ends:
  assumes "0 < w"
  shows "fst (swing w n) = int w \<longleftrightarrow> n mod (2 * w) = w" "fst (swing w n) = 0 \<longleftrightarrow> n mod (2 * w) = 0"
proof -
  define r where "r = n mod (2 * w)"
  have "r < 2 * w" using assms by (simp add: r_def)
  then show "fst (swing w n) = int w \<longleftrightarrow> n mod (2 * w) = w" "fst (swing w n) = 0 \<longleftrightarrow> n mod (2 * w) = 0"
    using assms unfolding swing_def Let_def r_def [symmetric] by (auto simp: of_nat_diff)
qed

lemma dvd_motion:
  "(pos_x ((dvd_round ^^ n) (dvd_start fb saved buf m)), dir_x ((dvd_round ^^ n) (dvd_start fb saved buf m))) = swing 700 n
   \<and> (pos_y ((dvd_round ^^ n) (dvd_start fb saved buf m)), dir_y ((dvd_round ^^ n) (dvd_start fb saved buf m))) = swing 500 n"
proof (induction n)
  case 0
  then show ?case by (simp add: swing_def dvd_start_def)
next
  case (Suc n)
  then show ?case using dvd_round_motion swing_step [of 700 n] swing_step [of 500 n] by simp
qed

lemma dvd_reach_iterate: "dvd_reach s0 s \<Longrightarrow> \<exists>n. s = (dvd_round ^^ n) s0"
proof (induction rule: dvd_reach.induct)
  case start
  then show ?case by (intro exI [of _ 0]) simp
next
  case (round s)
  then show ?case by (metis comp_apply funpow.simps(2))
qed

lemma dvd_reach_position:
  assumes "dvd_reach (dvd_start fb saved buf m) s"
  shows "0 \<le> pos_x s \<and> pos_x s \<le> 700 \<and> 0 \<le> pos_y s \<and> pos_y s \<le> 500"
proof -
  obtain n where s: "s = (dvd_round ^^ n) (dvd_start fb saved buf m)" using dvd_reach_iterate [OF assms] by blast
  have "pos_x s = fst (swing 700 n)" "pos_y s = fst (swing 500 n)"
    using dvd_motion [of n fb saved buf m] s by (metis fst_conv)+
  then show ?thesis using swing_bounds [of 700 n] swing_bounds [of 500 n] by simp
qed

lemma dvd_reach_pointers:
  "dvd_reach (dvd_start fb saved buf m) s \<Longrightarrow> fb_ptr s = fb \<and> original s = saved \<and> backbuffer_ptr s = buf"
  by (induction rule: dvd_reach.induct) (simp_all add: dvd_round_pointers dvd_start_def)

section \<open>One round in memory\<close>

lemma round_memory:
  assumes "dvd_reach (dvd_start fb saved buf m) s" "separate buf saved 1920000" "separate fb buf 1920000"
  shows "0 \<le> p \<Longrightarrow> p < 480000 \<Longrightarrow> load32 (dvd_mem (dvd_round s)) (pixel_at fb p) =
      (if in_square (pos_x s) (pos_y s) p then 0x0000FF else load32 (dvd_mem s) (pixel_at saved p))"
    and "\<not> in_range buf 1920000 a \<Longrightarrow> \<not> in_range fb 1920000 a \<Longrightarrow> dvd_mem (dvd_round s) a = dvd_mem s a"
proof -
  have ptr: "fb_ptr s = fb" "original s = saved" "backbuffer_ptr s = buf" using dvd_reach_pointers [OF assms(1)] by simp_all
  define m1 where "m1 = copied (dvd_mem s) buf saved 1920000"
  define m2 where "m2 = draw_square buf (pos_x s) (pos_y s) m1"
  have run: "dvd_mem (dvd_round s) = copied m2 fb buf 1920000"
    using assms(2,3) by (simp add: dvd_round_mem ptr memcpy_copied FB_SIZE_bytes m1_def m2_def)
  have sq: "\<forall>q \<in> set (square_pixels (pos_x s) (pos_y s)). 0 \<le> q \<and> q < 480000"
  proof
    fix q
    assume "q \<in> set (square_pixels (pos_x s) (pos_y s))"
    then have "in_square (pos_x s) (pos_y s) q" by (simp only: set_square_pixels)
    then show "0 \<le> q \<and> q < 480000" using square_inside [of "pos_x s" "pos_y s" q] dvd_reach_position [OF assms(1)] by simp
  qed
  show "load32 (dvd_mem (dvd_round s)) (pixel_at fb p) =
      (if in_square (pos_x s) (pos_y s) p then 0x0000FF else load32 (dvd_mem s) (pixel_at saved p))" if p: "0 \<le> p" "p < 480000"
  proof -
    have i: "4 * nat p + 4 \<le> 1920000" using p by simp
    have "load32 (dvd_mem (dvd_round s)) (pixel_at fb p) = load32 m2 (pixel_at buf p)"
      unfolding run pixel_at_nat [OF p(1)] by (rule copied_load32_dest [OF i]) simp
    also have "\<dots> = (if in_square (pos_x s) (pos_y s) p then 0x0000FF else load32 m1 (pixel_at buf p))"
      unfolding m2_def draw_square_fold using store_pixels(1) [OF sq p] by (simp add: set_square_pixels)
    also have "load32 m1 (pixel_at buf p) = load32 (dvd_mem s) (pixel_at saved p)"
      unfolding m1_def pixel_at_nat [OF p(1)] by (rule copied_load32_dest [OF i]) simp
    finally show ?thesis .
  qed
  show "dvd_mem (dvd_round s) a = dvd_mem s a" if a: "\<not> in_range buf 1920000 a" "\<not> in_range fb 1920000 a"
  proof -
    have "dvd_mem (dvd_round s) a = m2 a" using a(2) by (simp add: run copied_def in_range_def)
    also have "\<dots> = m1 a" unfolding m2_def draw_square_fold using store_pixels(2) [OF sq] a(1) by (simp add: in_range_def)
    also have "\<dots> = dvd_mem s a" using a(1) by (simp add: m1_def copied_def in_range_def)
    finally show ?thesis .
  qed
qed

lemma dvd_reach_frame:
  assumes "dvd_reach (dvd_start fb saved buf m) s" "separate buf saved 1920000" "separate fb buf 1920000"
    and "\<not> in_range buf 1920000 a" "\<not> in_range fb 1920000 a"
  shows "dvd_mem s a = dvd_mem (dvd_start fb saved buf m) a"
  using assms(1)
proof (induction rule: dvd_reach.induct)
  case (round s)
  then show ?case using round_memory(2) [OF round(1) assms(2-5)] by simp
qed simp

section \<open>Properties\<close>

text \<open>
  C30: A round of the loop, for a back buffer that overlaps neither the saved image nor the frame buffer. All pixels of
  the square lie inside the back buffer. Afterwards the \<open>FB_SIZE\<close> bytes at \<open>fb_ptr\<close> hold the saved image, as
  it was before the round, with the square on it, and no byte outside the two buffers has changed since the
  loop began. The saved image may overlap the range at \<open>fb_ptr\<close>, of which \<open>mmap\<close> maps 468 whole pages
  (479232 pixels) only: the last 768 pixels go to whatever is mapped behind them, and what they
  hit of the saved image is lost.
\<close>

theorem dvd_frame_safe:
  assumes "dvd_reach (dvd_start fb saved buf m) s"
    and "separate buf saved (unat FB_SIZE)" "separate fb buf (unat FB_SIZE)"
  shows "(\<forall>i<100. \<forall>j<100. let p = square_index (pos_x s) (pos_y s) i j in 0 \<le> p \<and> 4 * p + 4 \<le> int (unat FB_SIZE))
    \<and> (\<forall>p. 0 \<le> p \<and> 4 * p + 4 \<le> int (unat FB_SIZE) \<longrightarrow> load32 (dvd_mem (dvd_round s)) (pixel_at fb p) =
        (if in_square (pos_x s) (pos_y s) p then 0x0000FF else load32 (dvd_mem s) (pixel_at saved p)))
    \<and> (\<forall>a. \<not> in_range buf (unat FB_SIZE) a \<and> \<not> in_range fb (unat FB_SIZE) a \<longrightarrow>
        dvd_mem (dvd_round s) a = dvd_mem (dvd_start fb saved buf m) a)"
proof (intro conjI allI impI)
  note sep = assms(2,3) [unfolded FB_SIZE_bytes] and pos = dvd_reach_position [OF assms(1)]
  show "let p = square_index (pos_x s) (pos_y s) i j in 0 \<le> p \<and> 4 * p + 4 \<le> int (unat FB_SIZE)" if "i < 100" "j < 100" for i j
    using square_inside [of "pos_x s" "pos_y s" "square_index (pos_x s) (pos_y s) i j"] pos that
    unfolding FB_SIZE_bytes Let_def in_square_def by fastforce
  show "load32 (dvd_mem (dvd_round s)) (pixel_at fb p) =
        (if in_square (pos_x s) (pos_y s) p then 0x0000FF else load32 (dvd_mem s) (pixel_at saved p))"
    if "0 \<le> p \<and> 4 * p + 4 \<le> int (unat FB_SIZE)" for p
    using that unfolding FB_SIZE_bytes by (intro round_memory(1) [OF assms(1) sep]) simp_all
  show "dvd_mem (dvd_round s) a = dvd_mem (dvd_start fb saved buf m) a"
    if "\<not> in_range buf (unat FB_SIZE) a \<and> \<not> in_range fb (unat FB_SIZE) a" for a
    using that dvd_reach_frame [OF dvd_reach.round [OF assms(1)] sep] unfolding FB_SIZE_bytes by blast
qed

text \<open>The addresses that the allocator gives out one after the other: the saved image starts behind 468 pages.\<close>

lemma separate_ranges:
  assumes "unat src + n \<le> unat dest \<or> unat dest + n \<le> unat src" "unat src + n \<le> 2 ^ 64" "unat dest + n \<le> 2 ^ 64"
  shows "separate dest src n"
proof (unfold separate_def, intro allI impI)
  fix j
  assume j: "j < n"
  have o: "unat (of_nat j :: u64) = j" using j assms(2) by (intro unat64_of_nat) simp
  have u: "unat (src + of_nat j) = unat src + j" using j assms(2) o by (subst unat64_add) simp_all
  show "n \<le> unat (src + of_nat j - dest)"
    using unat_sub_if_size [of "src + of_nat j" dest] u j assms by (auto simp: word_size)
qed

theorem dvd_frame_safe_witness:
  "load32 (dvd_mem (dvd_round (dvd_start 0x800000 0x9d4020 0xba9020 (\<lambda>_. 7)))) (pixel_at 0x800000 0) = 0xFF"
proof -
  define s where "s = dvd_start 0x800000 0x9d4020 0xba9020 (\<lambda>_. 7)"
  have sep: "separate 0xba9020 0x9d4020 (unat FB_SIZE)" "separate 0x800000 0xba9020 (unat FB_SIZE)"
    unfolding FB_SIZE_bytes by (rule separate_ranges; simp)+
  have reach: "dvd_reach s s" by (rule dvd_reach.start)
  note frame = dvd_frame_safe [OF reach [unfolded s_def] sep, folded s_def, THEN conjunct2, THEN conjunct1, rule_format]
  have "in_square (pos_x s) (pos_y s) 0" unfolding in_square_def square_index_def s_def dvd_start_def by (intro exI [of _ 0]) simp
  then show ?thesis using frame [of 0] unfolding FB_SIZE_bytes s_def [symmetric] by simp
qed

text \<open>
  C31: The square hits the lower right corner of the screen, and the upper left one, again and again; the other
  two corners it never reaches.
\<close>

theorem dvd_hits_corners:
  "let s = \<lambda>k. (dvd_round ^^ k) (dvd_start fb saved buf m)
   in (\<exists>k\<ge>n. pos_x (s k) = 700 \<and> pos_y (s k) = 500) \<and> (\<exists>k\<ge>n. pos_x (s k) = 0 \<and> pos_y (s k) = 0)
    \<and> (\<forall>k. \<not> (pos_x (s k) = 700 \<and> pos_y (s k) = 0) \<and> \<not> (pos_x (s k) = 0 \<and> pos_y (s k) = 500))"
proof -
  have x: "pos_x ((dvd_round ^^ k) (dvd_start fb saved buf m)) = fst (swing 700 k)"
    and y: "pos_y ((dvd_round ^^ k) (dvd_start fb saved buf m)) = fst (swing 500 k)" for k
    using dvd_motion [of k fb saved buf m] by (metis fst_conv)+
  have "(3500 + 7000 * n) mod 1400 = 700" "(3500 + 7000 * n) mod 1000 = 500" "(7000 * n) mod 1400 = 0" "(7000 * n) mod 1000 = 0"
    using mod_mult_self2 [of 700 1400 "2 + 5 * n"] mod_mult_self2 [of 500 1000 "3 + 7 * n"]
      mod_mult_self2 [of 0 1400 "5 * n"] mod_mult_self2 [of 0 1000 "7 * n"] by (simp_all add: algebra_simps)
  then have c: "fst (swing 700 (3500 + 7000 * n)) = 700" "fst (swing 500 (3500 + 7000 * n)) = 500"
      "fst (swing 700 (7000 * n)) = 0" "fst (swing 500 (7000 * n)) = 0"
    unfolding swing_def Let_def by simp_all
  have "\<exists>k\<ge>n. fst (swing 700 k) = 700 \<and> fst (swing 500 k) = 500"
    using c(1,2) by (intro exI [of _ "3500 + 7000 * n"]) simp
  moreover have "\<exists>k\<ge>n. fst (swing 700 k) = 0 \<and> fst (swing 500 k) = 0"
    using c(3,4) by (intro exI [of _ "7000 * n"]) simp
  moreover have "\<not> (fst (swing 700 k) = 700 \<and> fst (swing 500 k) = 0)" "\<not> (fst (swing 700 k) = 0 \<and> fst (swing 500 k) = 500)" for k
    using swing_ends [of 700 k] swing_ends [of 500 k] mod_mod_cancel [of 200 1400 k] mod_mod_cancel [of 200 1000 k] by auto
  ultimately show ?thesis unfolding Let_def x y by blast
qed

end
