(* ===== verification/Long_Double.thy ===== *)
theory Long_Double
  imports Prelude
begin

text \<open>
  The type \<open>long double\<close> of the x86-64: the 80-bit extended format by its bits (\<open>union ldshape\<close> of libm.h),
  the classification macros of math.h with the functions behind them (__fpclassifyl.c, __signbitl.c), the
  arithmetic of C on it, rounding to the nearest even number as the processor does by default, and
  \<open>frexpl\<close> (frexpl.c).
\<close>

section \<open>The bits\<close>

record ldshape =
  ld_m :: u64
  ld_se :: u16

definition LDBL_MANT_DIG :: int where "LDBL_MANT_DIG = 64"
definition LDBL_MAX_EXP :: int where "LDBL_MAX_EXP = 16384"

datatype fp_class = FP_NAN | FP_INFINITE | FP_ZERO | FP_SUBNORMAL | FP_NORMAL

definition fpclassifyl :: "ldshape \<Rightarrow> fp_class" where
  "fpclassifyl u =
     (let e = ld_se u AND 0x7fff; msb = drop_bit 63 (ld_m u)
      in if e = 0 \<and> msb = 0 then (if ld_m u \<noteq> 0 then FP_SUBNORMAL else FP_ZERO)
         else if e = 0x7fff
         then (if msb = 0 then FP_NAN else if push_bit 1 (ld_m u) \<noteq> 0 then FP_NAN else FP_INFINITE)
         else if msb = 0 then FP_NAN else FP_NORMAL)"

text \<open>\<open>isfinite\<close> is the test \<open>> FP_INFINITE\<close> on the numbers of the classes.\<close>

fun isfinite :: "ldshape \<Rightarrow> bool" where
  "isfinite x = (fpclassifyl x \<notin> {FP_NAN, FP_INFINITE})"

definition signbit :: "ldshape \<Rightarrow> bool" where
  "signbit u \<longleftrightarrow> drop_bit 15 (ld_se u) \<noteq> 0"

section \<open>Arithmetic\<close>

text \<open>A finite number is \<open>\<plusminus> n * 2 ^ x\<close> with the integer \<open>n\<close> of its mantissa.\<close>

definition mantissa :: "ldshape \<Rightarrow> int" where
  "mantissa u = uint (ld_m u)"

definition exponent :: "ldshape \<Rightarrow> int" where
  "exponent u = max 1 (uint (ld_se u AND 0x7fff)) - 16446"

function bit_length :: "int \<Rightarrow> int" where
  "bit_length n = (if n \<le> 0 then 0 else 1 + bit_length (n div 2))"
  by auto
termination
  by (relation "measure nat") auto

declare bit_length.simps [simp del]

text \<open>The integer nearest to \<open>n / 2 ^ k\<close>, the even one of two.\<close>

definition div_nearest :: "int \<Rightarrow> nat \<Rightarrow> int" where
  "div_nearest n k =
     (let q = n div 2 ^ k; r = n mod 2 ^ k
      in if 2 * r < 2 ^ k \<or> 2 * r = 2 ^ k \<and> even q then q else q + 1)"

definition ld_sign :: "bool \<Rightarrow> u16" where
  "ld_sign neg = (if neg then 0x8000 else 0)"

definition ld_inf :: "bool \<Rightarrow> ldshape" where
  "ld_inf neg = \<lparr>ld_m = 0x8000000000000000, ld_se = ld_sign neg OR 0x7fff\<rparr>"

definition ld_nan :: ldshape where
  "ld_nan = \<lparr>ld_m = 0xc000000000000000, ld_se = 0xffff\<rparr>"

text \<open>The number nearest to \<open>\<plusminus> n * 2 ^ x\<close>, with at most 64 bits and no exponent below that of the subnormal numbers.\<close>

definition ld_round :: "bool \<Rightarrow> int \<Rightarrow> int \<Rightarrow> ldshape" where
  "ld_round neg n x =
     (if n = 0 then \<lparr>ld_m = 0, ld_se = ld_sign neg\<rparr>
      else let y = max (x + bit_length n - 64) (- 16445);
               q = (if y \<le> x then n * 2 ^ nat (x - y) else div_nearest n (nat (y - x)));
               (q, y) = (if q = 2 ^ 64 then (2 ^ 63, y + 1) else (q, y))
           in if q < 2 ^ 63 then \<lparr>ld_m = of_int q, ld_se = ld_sign neg\<rparr>
              else if y + 16446 \<ge> 0x7fff then ld_inf neg
              else \<lparr>ld_m = of_int q, ld_se = ld_sign neg OR of_int (y + 16446)\<rparr>)"

definition ld_neg :: "ldshape \<Rightarrow> ldshape" where
  "ld_neg u = u\<lparr>ld_se := ld_se u XOR 0x8000\<rparr>"

definition signed_mantissa :: "ldshape \<Rightarrow> int" where
  "signed_mantissa u = (if signbit u then - mantissa u else mantissa u)"

definition ld_add :: "ldshape \<Rightarrow> ldshape \<Rightarrow> ldshape" where
  "ld_add a b =
     (if fpclassifyl a = FP_NAN \<or> fpclassifyl b = FP_NAN then ld_nan
      else if fpclassifyl a = FP_INFINITE
      then (if fpclassifyl b = FP_INFINITE \<and> signbit a \<noteq> signbit b then ld_nan else a)
      else if fpclassifyl b = FP_INFINITE then b
      else let x = min (exponent a) (exponent b);
               n = signed_mantissa a * 2 ^ nat (exponent a - x) + signed_mantissa b * 2 ^ nat (exponent b - x)
           in ld_round (if n = 0 then signbit a \<and> signbit b else n < 0) \<bar>n\<bar> x)"

definition ld_sub :: "ldshape \<Rightarrow> ldshape \<Rightarrow> ldshape" where
  "ld_sub a b = ld_add a (ld_neg b)"

definition ld_mul :: "ldshape \<Rightarrow> ldshape \<Rightarrow> ldshape" where
  "ld_mul a b =
     (let neg = (signbit a \<noteq> signbit b)
      in if fpclassifyl a = FP_NAN \<or> fpclassifyl b = FP_NAN then ld_nan
         else if fpclassifyl a = FP_INFINITE \<or> fpclassifyl b = FP_INFINITE
         then (if fpclassifyl a = FP_ZERO \<or> fpclassifyl b = FP_ZERO then ld_nan else ld_inf neg)
         else ld_round neg (mantissa a * mantissa b) (exponent a + exponent b))"

text \<open>The constants of the code, the conversion of integers, and the test of a number as a condition.\<close>

definition ld_const :: "int \<Rightarrow> int \<Rightarrow> ldshape" where
  "ld_const n x = ld_round (n < 0) \<bar>n\<bar> x"

definition ld_of_int :: "int \<Rightarrow> ldshape" where
  "ld_of_int n = ld_const n 0"

definition ld_true :: "ldshape \<Rightarrow> bool" where
  "ld_true a \<longleftrightarrow> fpclassifyl a \<noteq> FP_ZERO"

text \<open>The comparison \<open>!=\<close>, which holds when one side is not a number.\<close>

definition ld_ne :: "ldshape \<Rightarrow> ldshape \<Rightarrow> bool" where
  "ld_ne a b \<longleftrightarrow>
     (if fpclassifyl a = FP_NAN \<or> fpclassifyl b = FP_NAN then True
      else if fpclassifyl a = FP_INFINITE \<or> fpclassifyl b = FP_INFINITE then a \<noteq> b
      else let x = min (exponent a) (exponent b)
           in signed_mantissa a * 2 ^ nat (exponent a - x) \<noteq> signed_mantissa b * 2 ^ nat (exponent b - x))"

text \<open>The conversion to an integer type cuts the fraction off.\<close>

definition ld_trunc :: "ldshape \<Rightarrow> int" where
  "ld_trunc a =
     (let n = (if exponent a \<ge> 0 then mantissa a * 2 ^ nat (exponent a) else mantissa a div 2 ^ nat (- exponent a))
      in if signbit a then - n else n)"

section \<open>frexpl\<close>

text \<open>
  The fraction and the exponent that is stored to \<open>*e\<close>, whose old value is given. The scaled number of the
  call for a subnormal number is not subnormal, so one level of recursion is enough.
\<close>

fun frexpl :: "nat \<Rightarrow> ldshape \<Rightarrow> int \<Rightarrow> (ldshape \<times> int) option" where
  "frexpl fuel x e =
     (let ee = ld_se x AND 0x7fff
      in if ee = 0
         then if ld_true x
              then (case fuel of
                      0 \<Rightarrow> None
                    | Suc fuel \<Rightarrow> map_option (\<lambda>(y, e). (y, e - 120)) (frexpl fuel (ld_mul x (ld_const 1 120)) e))
              else Some (x, 0)
         else if ee = 0x7fff then Some (x, e)
         else Some (x\<lparr>ld_se := ld_se x AND 0x8000 OR 0x3ffe\<rparr>, uint ee - 0x3ffe))"

declare frexpl.simps [simp del]

end
