(* ===== verification/Stdio.thy ===== *)
theory Stdio
  imports Libc_String
begin

text \<open>
  Output streams of the C library (stdio\_impl.h, \_\_towrite.c, fwrite.c, \_\_stdio\_write.c,
  \_\_stdout\_write.c, stdout.c and \<open>sn_write\<close> of vsnprintf.c).

  A stream that is written to has its buffer pointers at \<open>wbase = buf\<close> and \<open>wend = buf + buf_size\<close>, or
  all of them are null. So the model keeps whether they are set (\<open>writing\<close>) and the bytes from \<open>wbase\<close> to
  \<open>wpos\<close> (\<open>pending\<close>); then \<open>wend - wpos\<close> is \<open>buf_size\<close> less their number. The part for reading is left
  out. The function pointer \<open>write\<close> is one of three functions. System calls go through assembly and are
  given by \<open>os\<close>; what the streams need of them is stated in the locale below.
\<close>

section \<open>Streams\<close>

definition F_PERM :: u32 where "F_PERM = 1"
definition F_NORD :: u32 where "F_NORD = 4"
definition F_NOWR :: u32 where "F_NOWR = 8"
definition F_ERR :: u32 where "F_ERR = 32"
definition F_SVB :: u32 where "F_SVB = 64"

datatype writer = Sn_write | Stdio_write | Stdout_write

record FILE =
  flags :: u32
  f_mode :: u32
  lbf :: int
  buf_size :: nat
  writing :: bool
  pending :: "u8 list"
  fd :: u32
  f_write :: writer

text \<open>What a stream writes to: the memory of the program with the cookie of \<open>vsnprintf\<close>, and the system.\<close>

record 'k world =
  user_mem :: memory
  cookie_s :: u64
  cookie_n :: u64
  errno :: u32
  sys :: 'k

text \<open>
  The system calls, on the state \<open>'k\<close> of the system: \<open>writev\<close> on the contents of the buffers with the
  value it leaves in \<open>rax\<close>, and the \<open>ioctl\<close> that asks for the window size, true when it fails.
\<close>

record 'k os =
  os_writev :: "u32 \<Rightarrow> u8 list list \<Rightarrow> 'k \<Rightarrow> u64 \<times> 'k"
  os_no_window :: "u32 \<Rightarrow> 'k \<Rightarrow> bool \<times> 'k"

text \<open>\<open>__syscall_ret\<close>: the result and the new value of \<open>errno\<close>.\<close>

definition syscall_ret :: "u64 \<Rightarrow> u32 \<Rightarrow> u64 \<times> u32" where
  "syscall_ret r e = (if r > - 4096 then (- 1, ucast (- r)) else (r, e))"

type_synonym 'k stream = "FILE \<times> 'k world"

definition has_flag :: "FILE \<Rightarrow> u32 \<Rightarrow> bool" where
  "has_flag f x \<longleftrightarrow> flags f AND x \<noteq> 0"

definition room :: "FILE \<Rightarrow> nat" where
  "room f = buf_size f - length (pending f)"

text \<open>\<open>__towrite\<close>; true is \<open>EOF\<close>.\<close>

definition towrite :: "FILE \<Rightarrow> bool \<times> FILE" where
  "towrite f =
     (let f = f\<lparr>f_mode := f_mode f OR (f_mode f - 1)\<rparr>
      in if has_flag f F_NOWR then (True, f\<lparr>flags := flags f OR F_ERR\<rparr>)
         else (False, f\<lparr>writing := True, pending := []\<rparr>))"

section \<open>The functions behind the pointer write\<close>

text \<open>\<open>sn_write\<close> of vsnprintf.c: what does not fit is dropped.\<close>

definition to_cookie :: "u8 list \<Rightarrow> 'k world \<Rightarrow> 'k world" where
  "to_cookie bs w =
     (let k = min (unat (cookie_n w)) (length bs)
      in w\<lparr>user_mem := put (user_mem w) (cookie_s w) (take k bs),
           cookie_s := cookie_s w + of_nat k, cookie_n := cookie_n w - of_nat k\<rparr>)"

definition sn_write :: "u8 list \<Rightarrow> 'k stream \<Rightarrow> nat \<times> 'k stream" where
  "sn_write s = (\<lambda>(f, w).
     let w = to_cookie s (to_cookie (pending f) w)
     in (length s, f\<lparr>pending := []\<rparr>, w\<lparr>user_mem := (user_mem w)(cookie_s w := 0)\<rparr>))"

text \<open>
  The loop of \<open>__stdio_write\<close> over partial writes, with the buffers that are left. When \<open>writev\<close> keeps
  writing nothing it does not end; when \<open>writev\<close> claims more bytes than it was given, the code goes on
  behind the buffers. Both are \<open>None\<close>.
\<close>

partial_function (option) stdio_loop ::
    "'k os \<Rightarrow> u8 list list \<Rightarrow> nat \<Rightarrow> nat \<Rightarrow> 'k stream \<Rightarrow> (nat \<times> 'k stream) option" where
  "stdio_loop os iov rem len fw =
     (let (f, w) = fw;
          (r, k) = os_writev os (fd f) iov (sys w);
          (cnt, e) = syscall_ret r (errno w);
          w = w\<lparr>sys := k, errno := e\<rparr>
      in if cnt = of_nat rem then Some (len, f\<lparr>writing := True, pending := []\<rparr>, w)
         else if sint cnt < 0
         then Some (if length iov = 2 then 0 else len - length (hd iov),
                    f\<lparr>writing := False, pending := [], flags := flags f OR F_ERR\<rparr>, w)
         else if unat cnt > rem then None
         else (let rem = rem - unat cnt;
                   (n, iov) = (if unat cnt > length (hd iov) then (unat cnt - length (hd iov), tl iov)
                               else (unat cnt, iov))
               in stdio_loop os (drop n (hd iov) # tl iov) rem len (f, w)))"

declare stdio_loop.simps [code]

definition stdio_write :: "'k os \<Rightarrow> u8 list \<Rightarrow> 'k stream \<Rightarrow> (nat \<times> 'k stream) option" where
  "stdio_write os buf fw =
     (let iov = [pending (fst fw), buf]
      in stdio_loop os iov (length (iov ! 0) + length (iov ! 1)) (length buf) fw)"

definition stdout_write :: "'k os \<Rightarrow> u8 list \<Rightarrow> 'k stream \<Rightarrow> (nat \<times> 'k stream) option" where
  "stdout_write os buf = (\<lambda>(f, w).
     let f = f\<lparr>f_write := Stdio_write\<rparr>;
         (f, w) = (if \<not> has_flag f F_SVB
                   then (let (no, k) = os_no_window os (fd f) (sys w)
                         in (if no then f\<lparr>lbf := - 1\<rparr> else f, w\<lparr>sys := k\<rparr>))
                   else (f, w))
     in stdio_write os buf (f, w))"

text \<open>The call \<open>f->write(f, s, l)\<close>.\<close>

definition file_write :: "'k os \<Rightarrow> u8 list \<Rightarrow> 'k stream \<Rightarrow> (nat \<times> 'k stream) option" where
  "file_write os s fw =
     (case f_write (fst fw) of
        Sn_write \<Rightarrow> Some (sn_write s fw)
      | Stdio_write \<Rightarrow> stdio_write os s fw
      | Stdout_write \<Rightarrow> stdout_write os s fw)"

section \<open>Buffered output\<close>

text \<open>The number of bytes up to the last newline.\<close>

fun line_length :: "u8 list \<Rightarrow> nat \<Rightarrow> nat" where
  "line_length s 0 = 0"
| "line_length s (Suc i) = (if s ! i \<noteq> 10 then line_length s i else Suc i)"

definition fwritex :: "'k os \<Rightarrow> u8 list \<Rightarrow> 'k stream \<Rightarrow> (nat \<times> 'k stream) option" where
  "fwritex os s = (\<lambda>(f, w).
     let (eof, f) = (if \<not> writing f then towrite f else (False, f))
     in if eof then Some (0, f, w)
        else if length s > room f then file_write os s (f, w)
        else (let i = (if lbf f \<ge> 0 then line_length s (length s) else 0)
              in if i \<noteq> 0
                 then do { (n, f, w) \<leftarrow> file_write os (take i s) (f, w);
                           if n < i then Some (n, f, w)
                           else Some (length s, f\<lparr>pending := pending f @ drop i s\<rparr>, w) }
                 else Some (length s, f\<lparr>pending := pending f @ s\<rparr>, w)))"

definition bytes_at :: "memory \<Rightarrow> u64 \<Rightarrow> nat \<Rightarrow> u8 list" where
  "bytes_at m a n = map (\<lambda>i. m (a + of_nat i)) [0..<n]"

definition fwrite :: "'k os \<Rightarrow> u64 \<Rightarrow> u64 \<Rightarrow> u64 \<Rightarrow> 'k stream \<Rightarrow> (u64 \<times> 'k stream) option" where
  "fwrite os src sz nmemb fw =
     (let l = sz * nmemb; nmemb = (if sz = 0 then 0 else nmemb)
      in do { (k, fw) \<leftarrow> fwritex os (bytes_at (user_mem (snd fw)) src (unat l)) fw;
              Some (if of_nat k = l then nmemb else of_nat k div sz, fw) })"

definition BUFSIZ :: nat where "BUFSIZ = 1024"

definition stdout_FILE :: FILE where
  "stdout_FILE = \<lparr>flags = F_PERM OR F_NORD, f_mode = 0, lbf = 10, buf_size = BUFSIZ, writing = False, pending = [],
     fd = 1, f_write = Stdout_write\<rparr>"

section \<open>The contract of a stream\<close>

text \<open>
  What formatted output relies on: the stream \<open>holds\<close> the bytes written so far, writing appends to them,
  and of the memory of the program only the bytes \<open>own\<close>ed by the stream change.
\<close>

locale output_stream =
  fixes os :: "'k os"
    and own :: "u64 \<Rightarrow> bool"
    and holds :: "u8 list \<Rightarrow> 'k stream \<Rightarrow> bool"
  assumes no_error: "holds bs fw \<Longrightarrow> \<not> has_flag (fst fw) F_ERR"
    and appends: "holds bs fw \<Longrightarrow> length s < 2 ^ 31 \<Longrightarrow>
      \<exists>fw'. fwritex os s fw = Some (length s, fw') \<and> holds (bs @ s) fw'"
    and frame: "holds bs fw \<Longrightarrow> length s < 2 ^ 31 \<Longrightarrow> fwritex os s fw = Some (k, fw') \<Longrightarrow> \<not> own a \<Longrightarrow>
      user_mem (snd fw') a = user_mem (snd fw) a"
    and errno_apart: "holds bs (f, w) \<Longrightarrow> holds bs (f, w\<lparr>errno := e\<rparr>)"

section \<open>The stream of vsnprintf\<close>

lemma to_cookie_eq:
  "min (unat (cookie_n w)) (length bs) = k \<Longrightarrow> to_cookie bs w =
     w\<lparr>user_mem := put (user_mem w) (cookie_s w) (take k bs),
       cookie_s := cookie_s w + of_nat k, cookie_n := cookie_n w - of_nat k\<rparr>"
  by (simp add: to_cookie_def Let_def)

lemma to_cookie_append: "to_cookie b (to_cookie a w) = to_cookie (a @ b) w"
proof -
  define k where "k = min (unat (cookie_n w)) (length a)"
  define l where "l = min (unat (cookie_n w) - k) (length b)"
  have u: "unat (of_nat k :: u64) = k"
    unfolding k_def by (rule unat64_of_nat) (use unat64_lt [of "cookie_n w"] in linarith)
  have le: "of_nat k \<le> cookie_n w" by (simp add: word_le_nat_alt u) (simp add: k_def)
  have rest: "unat (cookie_n w - of_nat k) = unat (cookie_n w) - k" using le u by (simp only: unat_sub)
  have both: "min (unat (cookie_n w)) (length (a @ b)) = k + l" by (auto simp: k_def l_def)
  have t: "take (k + l) (a @ b) = take k a @ take l b" by (auto simp: k_def l_def min_def)
  have t': "length (take k a) = k" by (simp add: k_def)
  have 1: "to_cookie a w = w\<lparr>user_mem := put (user_mem w) (cookie_s w) (take k a),
       cookie_s := cookie_s w + of_nat k, cookie_n := cookie_n w - of_nat k\<rparr>"
    by (rule to_cookie_eq) (simp add: k_def)
  have 2: "min (unat (cookie_n (to_cookie a w))) (length b) = l" by (simp add: 1 rest l_def)
  show ?thesis
    by (simp only: to_cookie_eq [OF 2] to_cookie_eq [OF both] t put_append t') (simp add: 1 algebra_simps)
qed

lemma sn_write_put:
  assumes "min (unat (cookie_n w)) (length (pending f @ s)) = k"
  shows "sn_write s (f, w) =
    (length s, f\<lparr>pending := []\<rparr>,
     w\<lparr>user_mem := put (user_mem w) (cookie_s w) (take k (pending f @ s) @ [0]),
       cookie_s := cookie_s w + of_nat k, cookie_n := cookie_n w - of_nat k\<rparr>)"
proof -
  have "length (take k (pending f @ s)) = k" using assms by auto
  then show ?thesis
    unfolding sn_write_def by (simp add: to_cookie_append to_cookie_eq [OF assms] put_append del: take_append length_take)
qed

text \<open>
  A stream of \<open>vsnprintf\<close> on \<open>n\<close> bytes at \<open>s\<close> after \<open>flushed\<close> bytes have gone to the cookie: the cookie
  points behind those of them that fit.
\<close>

definition sn_stream :: "u64 \<Rightarrow> nat \<Rightarrow> nat \<Rightarrow> 'k stream \<Rightarrow> bool" where
  "sn_stream s n flushed fw \<longleftrightarrow> 0 < n \<and> n < 2 ^ 64 \<and>
     f_write (fst fw) = Sn_write \<and> writing (fst fw) \<and> lbf (fst fw) < 0 \<and> \<not> has_flag (fst fw) F_ERR
     \<and> cookie_s (snd fw) = s + of_nat (min (n - 1) flushed) \<and> unat (cookie_n (snd fw)) = n - 1 - flushed"

lemma fwritex_sn:
  assumes "sn_stream s n d fw"
  shows "fwritex os bs fw =
    (if length bs > room (fst fw) then Some (sn_write bs fw)
     else Some (length bs, (fst fw)\<lparr>pending := pending (fst fw) @ bs\<rparr>, snd fw))"
  using assms by (cases fw) (auto simp: sn_stream_def fwritex_def file_write_def)

lemma sn_stream_write:
  assumes "sn_stream s n d (f, w)" "sn_write bs (f, w) = (k, fw')"
  shows "k = length bs \<and> pending (fst fw') = [] \<and> sn_stream s n (d + length (pending f @ bs)) fw'
    \<and> user_mem (snd fw') = put (user_mem w) (s + of_nat (min (n - 1) d)) (take (n - 1 - d) (pending f @ bs) @ [0])"
proof -
  define all where "all = pending f @ bs"
  define q where "q = min (n - 1 - d) (length all)"
  note h = assms(1) [unfolded sn_stream_def fst_conv snd_conv]
  have w: "cookie_s w = s + of_nat (min (n - 1) d)" "unat (cookie_n w) = n - 1 - d" using h by blast+
  have u: "unat (of_nat q :: u64) = q"
    unfolding q_def by (rule unat64_of_nat) (use unat64_lt [of "cookie_n w"] w(2) in linarith)
  have "of_nat q \<le> cookie_n w" by (simp only: word_le_nat_alt u w(2)) (simp add: q_def)
  then have rest: "unat (cookie_n w - of_nat q) = n - 1 - (d + length all)"
    using u w(2) by (simp only: unat_sub) (simp add: q_def)
  have c: "cookie_s w + of_nat q = s + of_nat (min (n - 1) (d + length all))"
  proof -
    have "min (n - 1) d + q = min (n - 1) (d + length all)" by (auto simp: q_def)
    moreover have "cookie_s w + of_nat q = s + of_nat (min (n - 1) d + q)" by (simp only: w(1) of_nat_add add.assoc)
    ultimately show ?thesis by (simp only:)
  qed
  have t: "take q all = take (n - 1 - d) all" by (simp add: q_def min_def)
  have e: "sn_write bs (f, w) = (length bs, f\<lparr>pending := []\<rparr>,
     w\<lparr>user_mem := put (user_mem w) (cookie_s w) (take q all @ [0]),
       cookie_s := cookie_s w + of_nat q, cookie_n := cookie_n w - of_nat q\<rparr>)"
    unfolding all_def by (rule sn_write_put) (simp only: w q_def all_def)
  have fw: "k = length bs" "fst fw' = f\<lparr>pending := []\<rparr>"
    "snd fw' = w\<lparr>user_mem := put (user_mem w) (cookie_s w) (take q all @ [0]),
       cookie_s := cookie_s w + of_nat q, cookie_n := cookie_n w - of_nat q\<rparr>"
    using assms(2) unfolding e by auto
  have s: "sn_stream s n (d + length all) fw'"
    unfolding sn_stream_def fw by (simp add: c rest) (use h in \<open>simp add: has_flag_def\<close>)
  show ?thesis using s unfolding all_def [symmetric] fw t by (simp add: w(1))
qed

text \<open>The stream with the text it has written, and the stream when the destination may change otherwise.\<close>

definition sn_holds :: "memory \<Rightarrow> u64 \<Rightarrow> nat \<Rightarrow> u8 list \<Rightarrow> 'k stream \<Rightarrow> bool" where
  "sn_holds m s n bs fw \<longleftrightarrow>
     (\<exists>old. bs = old @ pending (fst fw) \<and> sn_stream s n (length old) fw
        \<and> user_mem (snd fw) = put m s (take (n - 1) old @ [0]))"

definition sn_safe :: "memory \<Rightarrow> (u64 \<Rightarrow> bool) \<Rightarrow> u64 \<Rightarrow> nat \<Rightarrow> u8 list \<Rightarrow> 'k stream \<Rightarrow> bool" where
  "sn_safe m T s n bs fw \<longleftrightarrow>
     (\<forall>a. \<not> in_range s n a \<longrightarrow> \<not> T a \<longrightarrow> user_mem (snd fw) a = m a)
     \<and> (\<exists>d. length bs = d + length (pending (fst fw)) \<and> sn_stream s n d fw)"

lemma put_flush:
  "put (put m s (take c old @ [0])) (s + of_nat (min c (length old))) (take (c - length old) new @ [0])
     = put m s (take c (old @ new) @ [0])"
proof -
  have l: "length (take c old) = min c (length old)" by simp
  have "take (c - length old) new @ [0] = hd (take (c - length old) new @ [0]) # tl (take (c - length old) new @ [0])"
    by simp
  then show ?thesis
    using put_overwrite [of m s "take c old" 0 "hd (take (c - length old) new @ [0])" "tl (take (c - length old) new @ [0])"]
    by (simp only: l) (simp add: min.commute)
qed

lemma sn_holds_write:
  assumes "sn_holds m s n bs (f, w)" "sn_write x (f, w) = (k, fw')"
  shows "k = length x \<and> pending (fst fw') = [] \<and> sn_holds m s n (bs @ x) fw'"
proof -
  obtain old where o: "bs = old @ pending f" "sn_stream s n (length old) (f, w)"
    "user_mem w = put m s (take (n - 1) old @ [0])" using assms(1) by (auto simp: sn_holds_def)
  note r = sn_stream_write [OF o(2) assms(2)]
  have "user_mem (snd fw') = put m s (take (n - 1) (old @ pending f @ x) @ [0])"
    using r by (simp only: o(3) put_flush)
  then show ?thesis using r o(1) unfolding sn_holds_def by auto
qed

text \<open>Outside of the destination a flush changes nothing.\<close>

lemma sn_write_frame:
  assumes "sn_stream s n d (f, w)" "sn_write x (f, w) = (k, fw')" "\<not> in_range s n a"
  shows "user_mem (snd fw') a = user_mem w a"
proof -
  let ?c = "min (n - 1) d" and ?b = "take (n - 1 - d) (pending f @ x) @ [0]"
  have n: "0 < n" "n < 2 ^ 64" using assms(1) by (simp_all add: sn_stream_def)
  have len: "?c + length ?b \<le> n" using n(1) by auto
  have "\<not> in_range (s + of_nat ?c) (length ?b) a"
  proof
    assume r: "in_range (s + of_nat ?c) (length ?b) a"
    have c: "unat (of_nat ?c :: u64) = ?c" by (rule unat64_of_nat) (use n(2) in linarith)
    have "a - s = (a - (s + of_nat ?c)) + of_nat ?c" by simp
    moreover have "unat ((a - (s + of_nat ?c)) + of_nat ?c) = unat (a - (s + of_nat ?c)) + ?c"
      using r len n(2) c unat64_add [of "a - (s + of_nat ?c)" "of_nat ?c"] unfolding in_range_def by linarith
    ultimately have "unat (a - s) = unat (a - (s + of_nat ?c)) + ?c" by (simp only:)
    then have "unat (a - s) < n" using r len unfolding in_range_def by linarith
    then show False using assms(3) by (simp add: in_range_def)
  qed
  moreover have "length ?b < 2 ^ 64" using len n(2) by linarith
  ultimately show ?thesis using sn_stream_write [OF assms(1,2)] put_other by auto
qed

lemma sn_stream_append:
  "sn_stream s n d fw \<Longrightarrow> sn_stream s n d ((fst fw)\<lparr>pending := x\<rparr>, snd fw)"
  by (simp add: sn_stream_def has_flag_def)

interpretation sn: output_stream os "in_range s n" "sn_holds m s n" for os :: "'k os" and s n m
proof
  fix bs x k a e f and w :: "'k world" and fw fw' :: "'k stream"
  show "sn_holds m s n bs (f, w\<lparr>errno := e\<rparr>)" if "sn_holds m s n bs (f, w)"
    using that by (simp add: sn_holds_def sn_stream_def)
  assume h: "sn_holds m s n bs fw"
  then obtain old where o: "bs = old @ pending (fst fw)" "sn_stream s n (length old) fw"
    "user_mem (snd fw) = put m s (take (n - 1) old @ [0])" by (auto simp: sn_holds_def)
  show "\<not> has_flag (fst fw) F_ERR" using o(2) by (simp add: sn_stream_def)
  show "\<exists>fw'. fwritex os x fw = Some (length x, fw') \<and> sn_holds m s n (bs @ x) fw'"
  proof (cases "length x > room (fst fw)")
    case True
    then show ?thesis using sn_holds_write [of m s n bs "fst fw" "snd fw" x] h o(2)
      by (cases "sn_write x fw") (simp add: fwritex_sn)
  next
    case False
    have "sn_holds m s n (bs @ x) ((fst fw)\<lparr>pending := pending (fst fw) @ x\<rparr>, snd fw)"
      using o by (auto simp: sn_holds_def sn_stream_append)
    then show ?thesis using False o(2) by (simp add: fwritex_sn)
  qed
  show "user_mem (snd fw') a = user_mem (snd fw) a" if "fwritex os x fw = Some (k, fw')" "\<not> in_range s n a"
    using that o(2) sn_write_frame [of s n "length old" "fst fw" "snd fw" x k fw' a]
    by (auto simp: fwritex_sn split: if_splits)
qed

lemma sn_safe_write:
  assumes "sn_safe m T s n bs (f, w)" "sn_write x (f, w) = (k, fw')"
  shows "k = length x \<and> pending (fst fw') = [] \<and> sn_safe m T s n (bs @ x) fw'"
proof -
  obtain d where d: "length bs = d + length (pending f)" "sn_stream s n d (f, w)"
    "\<And>a. \<not> in_range s n a \<Longrightarrow> \<not> T a \<Longrightarrow> user_mem w a = m a" using assms(1) by (auto simp: sn_safe_def)
  show ?thesis using sn_stream_write [OF d(2) assms(2)] sn_write_frame [OF d(2) assms(2)] d
    by (auto simp: sn_safe_def add.assoc)
qed

interpretation sns: output_stream os "in_range s n" "sn_safe m T s n" for os :: "'k os" and s n m T
proof
  fix bs x k a e f and w :: "'k world" and fw fw' :: "'k stream"
  show "sn_safe m T s n bs (f, w\<lparr>errno := e\<rparr>)" if "sn_safe m T s n bs (f, w)"
    using that by (simp add: sn_safe_def sn_stream_def)
  assume h: "sn_safe m T s n bs fw"
  then obtain d where d: "length bs = d + length (pending (fst fw))" "sn_stream s n d fw"
    "\<And>a. \<not> in_range s n a \<Longrightarrow> \<not> T a \<Longrightarrow> user_mem (snd fw) a = m a" by (auto simp: sn_safe_def)
  show "\<not> has_flag (fst fw) F_ERR" using d(2) by (simp add: sn_stream_def)
  show "\<exists>fw'. fwritex os x fw = Some (length x, fw') \<and> sn_safe m T s n (bs @ x) fw'"
  proof (cases "length x > room (fst fw)")
    case True
    then show ?thesis using sn_safe_write [of m T s n bs "fst fw" "snd fw" x] h d(2)
      by (cases "sn_write x fw") (simp add: fwritex_sn)
  next
    case False
    have "sn_safe m T s n (bs @ x) ((fst fw)\<lparr>pending := pending (fst fw) @ x\<rparr>, snd fw)"
      using d by (auto simp: sn_safe_def sn_stream_append)
    then show ?thesis using False d(2) by (simp add: fwritex_sn)
  qed
  show "user_mem (snd fw') a = user_mem (snd fw) a" if "fwritex os x fw = Some (k, fw')" "\<not> in_range s n a"
    using that d(2) sn_write_frame [of s n d "fst fw" "snd fw" x k fw' a] by (auto simp: fwritex_sn split: if_splits)
qed

section \<open>Streams to a file descriptor\<close>

text \<open>
  What the streams need of the system: \<open>writev\<close> takes a prefix of the bytes it is given, not nothing unless
  there is nothing, and returns its length. \<open>sent bs k\<close> says that \<open>bs\<close> has been written in state \<open>k\<close>.
\<close>

definition obeys :: "'k os \<Rightarrow> (u8 list \<Rightarrow> 'k \<Rightarrow> bool) \<Rightarrow> bool" where
  "obeys os sent \<longleftrightarrow>
     (\<forall>d iov k bs. sent bs k \<and> length (concat iov) < 2 ^ 32 \<longrightarrow>
        (\<exists>n k'. os_writev os d iov k = (of_nat n, k') \<and> n \<le> length (concat iov) \<and> (n = 0 \<longrightarrow> concat iov = [])
           \<and> sent (bs @ take n (concat iov)) k'))
     \<and> (\<forall>d k bs. sent bs k \<longrightarrow> sent bs (snd (os_no_window os d k)))"

lemma syscall_ret_small: "n < 2 ^ 32 \<Longrightarrow> syscall_ret (of_nat n) e = (of_nat n, e)"
proof -
  assume n: "n < 2 ^ 32"
  then have "unat (of_nat n :: u64) = n" by (intro unat64_of_nat) simp
  then have "\<not> (of_nat n :: u64) > - 4096" using n by (simp add: word_less_nat_alt)
  then show ?thesis by (simp add: syscall_ret_def)
qed

lemma small_not_negative: "unat (x :: u64) < 2 ^ 32 \<Longrightarrow> \<not> sint x < 0"
proof
  assume x: "unat x < 2 ^ 32" "sint x < 0"
  have "int (unat x) = sint x + 2 ^ 64" using sint_unat [of x] x(2) by (simp only: if_True)
  moreover have "- (2 ^ 63) \<le> sint x" using sint_range_size [of x] by (simp add: word_size)
  moreover have "int (unat x) < 2 ^ 32" by (metis of_nat_less_iff of_nat_numeral of_nat_power x(1))
  ultimately show False by simp
qed

text \<open>The loop over partial writes ends with everything written; one buffer is left, or both.\<close>

lemma stdio_loop_writes:
  assumes "obeys os sent" "sent bs (sys w)" "length (concat iov) < 2 ^ 32" "length iov = 1 \<or> length iov = 2"
  shows "\<exists>w'. stdio_loop os iov (length (concat iov)) len (f, w) = Some (len, f\<lparr>writing := True, pending := []\<rparr>, w')
    \<and> sent (bs @ concat iov) (sys w') \<and> user_mem w' = user_mem w"
  using assms(2-)
proof (induction "length (concat iov)" arbitrary: iov bs w rule: less_induct)
  case less
  obtain n k where n: "os_writev os (fd f) iov (sys w) = (of_nat n, k)" "n \<le> length (concat iov)"
    "n = 0 \<longrightarrow> concat iov = []" "sent (bs @ take n (concat iov)) k"
    using assms(1) less.prems(1,2) unfolding obeys_def by metis
  have u: "unat (of_nat n :: u64) = n" using n(2) less.prems(2) by (intro unat64_of_nat) simp
  have r: "syscall_ret (of_nat n) (errno w) = (of_nat n, errno w)" using n(2) less.prems(2) by (intro syscall_ret_small) simp
  have v: "unat (of_nat (length (concat iov)) :: u64) = length (concat iov)" using less.prems(2) by (intro unat64_of_nat) simp
  have eq: "(of_nat n :: u64) = of_nat (length (concat iov)) \<longleftrightarrow> n = length (concat iov)" using u v by metis
  have pos: "\<not> sint (of_nat n :: u64) < 0"
    using small_not_negative [of "of_nat n"] u n(2) less.prems(2) by simp
  let ?w = "w\<lparr>sys := k, errno := errno w\<rparr>"
  let ?rest = "if n > length (hd iov) then drop (n - length (hd iov)) (hd (tl iov)) # tl (tl iov) else drop n (hd iov) # tl iov"
  note loop = stdio_loop.simps [of os iov "length (concat iov)" len "(f, w)"]
  show ?case
  proof (cases "n = length (concat iov)")
    case True
    then show ?thesis using n r eq by (simp add: loop)
  next
    case False
    have c: "concat ?rest = drop n (concat iov)" "length ?rest = 1 \<or> length ?rest = 2"
      using less.prems(3) n(2) False by (auto simp: length_Suc_conv numeral_2_eq_2)
    have l: "length (concat ?rest) = length (concat iov) - n" unfolding c(1) by simp
    have "\<exists>w'. stdio_loop os ?rest (length (concat ?rest)) len (f, ?w) = Some (len, f\<lparr>writing := True, pending := []\<rparr>, w')
      \<and> sent ((bs @ take n (concat iov)) @ concat ?rest) (sys w') \<and> user_mem w' = user_mem ?w"
    proof (rule less.hyps)
      have "n \<noteq> 0" using False n(3) by (metis list.size(3))
      then show "length (concat ?rest) < length (concat iov)" using False n(2) unfolding l by linarith
      show "sent (bs @ take n (concat iov)) (sys ?w)" using n(4) by simp
      show "length (concat ?rest) < 2 ^ 32" using less.prems(2) unfolding l by linarith
    qed (rule c(2))
    moreover have "stdio_loop os iov (length (concat iov)) len (f, w) = stdio_loop os ?rest (length (concat ?rest)) len (f, ?w)"
      unfolding l using n(1,2) False eq pos u r by (simp add: loop Let_def)
    ultimately show ?thesis using c(1) by (simp del: concat.simps)
  qed
qed

definition stdio_holds :: "'k os \<Rightarrow> (u8 list \<Rightarrow> 'k \<Rightarrow> bool) \<Rightarrow> u8 list \<Rightarrow> 'k stream \<Rightarrow> bool" where
  "stdio_holds os sent bs fw \<longleftrightarrow>
     obeys os sent \<and> f_write (fst fw) \<noteq> Sn_write \<and> \<not> has_flag (fst fw) F_ERR \<and> \<not> has_flag (fst fw) F_NOWR
     \<and> length (pending (fst fw)) \<le> buf_size (fst fw) \<and> buf_size (fst fw) < 2 ^ 31
     \<and> (\<not> writing (fst fw) \<longrightarrow> pending (fst fw) = [])
     \<and> (\<exists>old. bs = old @ pending (fst fw) \<and> sent old (sys (snd fw)))"

text \<open>The stream \<open>fw'\<close> after a flush.\<close>

definition flushed :: "'k os \<Rightarrow> (u8 list \<Rightarrow> 'k \<Rightarrow> bool) \<Rightarrow> u8 list \<Rightarrow> 'k stream \<Rightarrow> 'k stream \<Rightarrow> bool" where
  "flushed os sent bs fw fw' \<longleftrightarrow> stdio_holds os sent bs fw' \<and> pending (fst fw') = [] \<and> writing (fst fw')
     \<and> buf_size (fst fw') = buf_size (fst fw) \<and> user_mem (snd fw') = user_mem (snd fw)"

lemma stdio_write_flushes:
  assumes "stdio_holds os sent bs fw" "length x < 2 ^ 31"
  shows "\<exists>fw'. stdio_write os x fw = Some (length x, fw') \<and> flushed os sent (bs @ x) fw fw'"
proof -
  obtain f w where fw: "fw = (f, w)" by fastforce
  note h = assms(1) [unfolded stdio_holds_def fw fst_conv snd_conv]
  obtain old where old: "bs = old @ pending f" "sent old (sys w)" using h by blast
  have "length (concat [pending f, x]) < 2 ^ 32" using h assms(2) by simp
  then obtain w' where w': "stdio_loop os [pending f, x] (length (concat [pending f, x])) (length x) (f, w)
      = Some (length x, f\<lparr>writing := True, pending := []\<rparr>, w')" "sent (old @ concat [pending f, x]) (sys w')"
    "user_mem w' = user_mem w"
    using stdio_loop_writes [of os sent old w "[pending f, x]" "length x" f] h old(2) by auto
  then show ?thesis using h old(1) fw by (auto simp: stdio_write_def flushed_def stdio_holds_def has_flag_def)
qed

lemma file_write_flushes:
  assumes "stdio_holds os sent bs fw" "length x < 2 ^ 31"
  shows "\<exists>fw'. file_write os x fw = Some (length x, fw') \<and> flushed os sent (bs @ x) fw fw'"
proof (cases "f_write (fst fw)")
  case Stdio_write
  then show ?thesis using stdio_write_flushes [OF assms] by (simp add: file_write_def)
next
  case Stdout_write
  obtain f w where fw: "fw = (f, w)" by fastforce
  note h = assms(1) [unfolded stdio_holds_def fw fst_conv snd_conv]
  obtain no k where k: "os_no_window os (fd f) (sys w) = (no, k)" by fastforce
  have "sent old (sys w) \<Longrightarrow> sent old k" for old using h k unfolding obeys_def by (metis snd_conv)
  then have 1: "stdio_holds os sent bs (f\<lparr>f_write := Stdio_write, lbf := l\<rparr>, w\<lparr>sys := k\<rparr>)" for l
    using h by (auto simp: stdio_holds_def has_flag_def)
  have 2: "stdio_holds os sent bs (f\<lparr>f_write := Stdio_write\<rparr>, w)" using h by (auto simp: stdio_holds_def has_flag_def)
  have 3: "stdio_holds os sent bs (f\<lparr>f_write := Stdio_write\<rparr>, w\<lparr>sys := k\<rparr>)" using 1 [of "lbf f"] by simp
  define g where "g = (if has_flag f F_SVB then (f\<lparr>f_write := Stdio_write\<rparr>, w)
    else if no then (f\<lparr>f_write := Stdio_write, lbf := - 1\<rparr>, w\<lparr>sys := k\<rparr>) else (f\<lparr>f_write := Stdio_write\<rparr>, w\<lparr>sys := k\<rparr>))"
  have g: "stdio_holds os sent bs g" "buf_size (fst g) = buf_size f" "user_mem (snd g) = user_mem w"
    using 1 2 3 by (simp_all add: g_def)
  have "file_write os x fw = stdio_write os x g"
    using Stdout_write fw k by (simp add: file_write_def stdout_write_def g_def has_flag_def Let_def)
  then show ?thesis using stdio_write_flushes [OF g(1) assms(2)] g(2,3) fw by (simp add: flushed_def)
qed (use assms in \<open>simp add: stdio_holds_def\<close>)

lemma line_length_le: "line_length s i \<le> i"
  by (induction s i rule: line_length.induct) auto

lemma towrite_holds:
  assumes "stdio_holds os sent bs (f, w)" "\<not> writing f"
  shows "\<exists>f'. towrite f = (False, f') \<and> stdio_holds os sent bs (f', w) \<and> writing f'"
  using assms by (auto simp: towrite_def stdio_holds_def has_flag_def Let_def)

lemma fwritex_writing:
  assumes "stdio_holds os sent bs (f, w)" "writing f" "length s < 2 ^ 31"
  shows "\<exists>fw'. fwritex os s (f, w) = Some (length s, fw') \<and> stdio_holds os sent (bs @ s) fw' \<and> user_mem (snd fw') = user_mem w"
proof -
  define i where "i = (if lbf f \<ge> 0 then line_length s (length s) else 0)"
  have i: "i \<le> length s" using line_length_le [of s "length s"] by (simp add: i_def)
  show ?thesis
  proof (cases "length s > room f")
    case True
    then show ?thesis using file_write_flushes [OF assms(1,3)] assms(2) by (auto simp: fwritex_def flushed_def)
  next
    case fits: False
    have "length (pending f) \<le> buf_size f" using assms(1) by (simp add: stdio_holds_def)
    then have r: "length (pending f) + length s \<le> buf_size f" using fits by (simp add: room_def)
    show ?thesis
    proof (cases "i = 0")
      case True
      then have e: "fwritex os s (f, w) = Some (length s, f\<lparr>pending := pending f @ s\<rparr>, w)"
        using fits assms(2) by (simp add: fwritex_def i_def Let_def split: if_splits)
      have "stdio_holds os sent (bs @ s) (f\<lparr>pending := pending f @ s\<rparr>, w)"
        using assms r by (auto simp: stdio_holds_def has_flag_def)
      then show ?thesis using e by auto
    next
      case False
      obtain fw1 where fw1: "file_write os (take i s) (f, w) = Some (length (take i s), fw1)"
        "flushed os sent (bs @ take i s) (f, w) fw1"
        using file_write_flushes [OF assms(1), of "take i s"] assms(3) i by fastforce
      obtain f1 w1 where f1: "fw1 = (f1, w1)" by fastforce
      have e: "fwritex os s (f, w) = Some (length s, f1\<lparr>pending := pending f1 @ drop i s\<rparr>, w1)"
        using fits assms(2) False fw1(1) i f1 by (simp add: fwritex_def i_def [symmetric] Let_def)
      have "stdio_holds os sent (bs @ s) (f1\<lparr>pending := pending f1 @ drop i s\<rparr>, w1)"
        using fw1(2) f1 r by (auto simp: flushed_def stdio_holds_def has_flag_def intro!: exI [of _ "bs @ take i s"])
      then show ?thesis using e fw1(2) f1 by (auto simp: flushed_def)
    qed
  qed
qed

interpretation so: output_stream os "\<lambda>_. False" "stdio_holds os sent" for os :: "'k os" and sent
proof
  fix bs x :: "u8 list" and k a e f and w :: "'k world" and fw fw' :: "'k stream"
  show "stdio_holds os sent bs (f, w\<lparr>errno := e\<rparr>)" if "stdio_holds os sent bs (f, w)"
    using that by (simp add: stdio_holds_def)
  assume h: "stdio_holds os sent bs fw"
  then show "\<not> has_flag (fst fw) F_ERR" by (simp add: stdio_holds_def)
  assume x: "length x < 2 ^ 31"
  have all: "\<exists>fw'. fwritex os x fw = Some (length x, fw') \<and> stdio_holds os sent (bs @ x) fw' \<and> user_mem (snd fw') = user_mem (snd fw)"
  proof (cases "writing (fst fw)")
    case False
    obtain f1 where f1: "towrite (fst fw) = (False, f1)" "stdio_holds os sent bs (f1, snd fw)" "writing f1"
      using towrite_holds [of os sent bs "fst fw" "snd fw"] h False by auto
    have "fwritex os x fw = fwritex os x (f1, snd fw)" using False f1 by (cases fw) (simp add: fwritex_def)
    then show ?thesis using fwritex_writing [OF f1(2,3) x] by simp
  qed (use fwritex_writing [of os sent bs "fst fw" "snd fw" x] h x in simp)
  then show "\<exists>fw'. fwritex os x fw = Some (length x, fw') \<and> stdio_holds os sent (bs @ x) fw'" by blast
  show "user_mem (snd fw') a = user_mem (snd fw) a" if "fwritex os x fw = Some (k, fw')" using that all by auto
qed

section \<open>Properties\<close>

text \<open>
  C37: \<open>__stdio_write\<close> returns, however small the pieces are that \<open>writev\<close> takes, as long as it takes something:
  it then has sent the buffered bytes and those of the caller, in order, and the buffer is empty.
\<close>

theorem stdio_write_all:
  assumes "obeys os sent" "sent bs (sys w)" "length (pending f) + length buf < 2 ^ 32"
  shows "\<exists>w'. stdio_write os buf (f, w) = Some (length buf, f\<lparr>writing := True, pending := []\<rparr>, w')
    \<and> sent (bs @ pending f @ buf) (sys w') \<and> user_mem w' = user_mem w"
  using stdio_loop_writes [OF assms(1,2), of "[pending f, buf]" "length buf" f] assms(3) by (simp add: stdio_write_def)

text \<open>A system that takes one byte at a time and keeps what it took.\<close>

definition slow_os :: "u8 list os" where
  "slow_os = \<lparr>os_writev = (\<lambda>_ iov k. (of_nat (min 1 (length (concat iov))), k @ take 1 (concat iov))),
     os_no_window = (\<lambda>_ k. (True, k))\<rparr>"

lemma slow_os_obeys: "obeys slow_os (\<lambda>bs k. k = bs)"
  unfolding obeys_def
proof (intro conjI allI impI)
  fix d and iov :: "u8 list list" and k bs :: "u8 list"
  assume "k = bs \<and> length (concat iov) < 2 ^ 32"
  then show "\<exists>n k'. os_writev slow_os d iov k = (of_nat n, k') \<and> n \<le> length (concat iov) \<and> (n = 0 \<longrightarrow> concat iov = [])
      \<and> k' = bs @ take n (concat iov)"
    by (intro exI [of _ "min 1 (length (concat iov))"]) (auto simp: slow_os_def min_def)
qed (simp add: slow_os_def)

theorem stdio_write_all_witness:
  "\<exists>w'. stdio_write slow_os [3, 4] (stdout_FILE\<lparr>writing := True, pending := [1, 2]\<rparr>,
      \<lparr>user_mem = (\<lambda>_. 0), cookie_s = 0, cookie_n = 0, errno = 0, sys = [9]\<rparr>)
    = Some (2, stdout_FILE\<lparr>writing := True, pending := []\<rparr>, w') \<and> sys w' = [9, 1, 2, 3, 4]"
  using stdio_write_all [OF slow_os_obeys refl, where f = "stdout_FILE\<lparr>writing := True, pending := [1, 2]\<rparr>" and buf = "[3, 4]"
      and w = "\<lparr>user_mem = (\<lambda>_. 0), cookie_s = 0, cookie_n = 0, errno = 0, sys = [9]\<rparr>"] by auto

end
