(* ===== verification/Printf.thy ===== *)
theory Printf
  imports Stdio
begin

text \<open>
  Formatted output of the C library (vfprintf.c, vsnprintf.c, snprintf.c, printf.c, vprintf.c).

  A format is the list of its bytes before the terminating NUL. The signed variables of the code are
  integers; where the C arithmetic is unsigned or may overflow this is written out. An argument of the
  caller is its 64-bit slot or its floating point value; a \<open>double\<close> stands for the \<open>long double\<close> it
  widens to. Asking for an argument of the wrong type, or for one that is not there, is undefined
  behaviour and is \<open>Undef\<close>. The conversion of floating point
  numbers is the argument \<open>conv_fp\<close> (it is \<open>fmt_fp\<close> of the theory Fmt_Fp); \<open>strerror\<close> and the locale are parameters.
\<close>

section \<open>Flags and types of conversions\<close>

definition INT_MAX :: int where "INT_MAX = 2147483647"
definition EINVAL :: u32 where "EINVAL = 22"
definition EOVERFLOW :: u32 where "EOVERFLOW = 75"
definition EILSEQ :: u32 where "EILSEQ = 84"

definition ALT_FORM :: u32 where "ALT_FORM = push_bit (0x23 - 0x20) 1"
definition ZERO_PAD :: u32 where "ZERO_PAD = push_bit (0x30 - 0x20) 1"
definition LEFT_ADJ :: u32 where "LEFT_ADJ = push_bit (0x2d - 0x20) 1"
definition PAD_POS :: u32 where "PAD_POS = push_bit (0x20 - 0x20) 1"
definition MARK_POS :: u32 where "MARK_POS = push_bit (0x2b - 0x20) 1"
definition GROUPED :: u32 where "GROUPED = push_bit (0x27 - 0x20) 1"

definition FLAGMASK :: u32 where
  "FLAGMASK = ALT_FORM OR ZERO_PAD OR LEFT_ADJ OR PAD_POS OR MARK_POS OR GROUPED"

datatype arg_type =
    BARE | LPRE | LLPRE | HPRE | HHPRE | BIGLPRE
  | ZTPRE | JPRE
  | STOP
  | PTR | INT_t | UINT | ULLONG
  | LONG | ULONG
  | SHORT | USHORT | CHAR_t | UCHAR
  | LLONG | SIZET | IMAX | UMAX | PDIFF | UIPTR
  | DBL | LDBL
  | NOARG

text \<open>The rows of \<open>states\<close>, with characters that have the same entry in one group; no entry is \<open>BARE\<close>.\<close>

fun states :: "arg_type \<Rightarrow> (string \<times> arg_type) list" where
  "states BARE =
     [(''di'', INT_t), (''ouxX'', UINT), (''efgaEFGA'', DBL), (''c'', CHAR_t), (''C'', INT_t), (''sSn'', PTR), (''p'', UIPTR),
      (''m'', NOARG), (''l'', LPRE), (''h'', HPRE), (''L'', BIGLPRE), (''zt'', ZTPRE), (''j'', JPRE)]"
| "states LPRE =
     [(''di'', LONG), (''ouxX'', ULONG), (''efgaEFGA'', DBL), (''c'', INT_t), (''sn'', PTR), (''l'', LLPRE)]"
| "states LLPRE = [(''di'', LLONG), (''ouxX'', ULLONG), (''n'', PTR)]"
| "states HPRE = [(''di'', SHORT), (''ouxX'', USHORT), (''n'', PTR), (''h'', HHPRE)]"
| "states HHPRE = [(''di'', CHAR_t), (''ouxX'', UCHAR), (''n'', PTR)]"
| "states BIGLPRE = [(''efgaEFGA'', LDBL), (''n'', PTR)]"
| "states ZTPRE = [(''di'', PDIFF), (''ouxX'', SIZET), (''n'', PTR)]"
| "states JPRE = [(''di'', IMAX), (''ouxX'', UMAX), (''n'', PTR)]"
| "states _ = []"

definition is_in :: "u8 \<Rightarrow> string \<Rightarrow> bool" where
  "is_in c cs \<longleftrightarrow> c \<in> set (map of_char cs)"

fun entry_of :: "(string \<times> arg_type) list \<Rightarrow> u8 \<Rightarrow> arg_type" where
  "entry_of [] c = BARE"
| "entry_of ((cs, st) # row) c = (if is_in c cs then st else entry_of row c)"

definition out_of_table :: "u8 \<Rightarrow> bool" where
  "out_of_table c \<longleftrightarrow> (scast c :: u32) - 0x41 > 0x7a - 0x41"

text \<open>The test \<open>st - 1 < STOP\<close>, true of the states from \<open>LPRE\<close> to \<open>STOP\<close>.\<close>

fun is_prefix :: "arg_type \<Rightarrow> bool" where
  "is_prefix st = (st \<in> {LPRE, LLPRE, HPRE, HHPRE, BIGLPRE, ZTPRE, JPRE, STOP})"

section \<open>Arguments\<close>

datatype 'f arg = Arg_i u64 | Arg_f 'f

datatype 'f c_arg = C_int u64 | C_double 'f | C_long_double 'f

type_synonym 'f args = "'f c_arg list"

fun next_int :: "'f args \<Rightarrow> (u64 \<times> 'f args) option" where
  "next_int (C_int x # ap) = Some (x, ap)"
| "next_int _ = None"

fun next_double :: "'f args \<Rightarrow> ('f \<times> 'f args) option" where
  "next_double (C_double x # ap) = Some (x, ap)"
| "next_double _ = None"

fun next_long_double :: "'f args \<Rightarrow> ('f \<times> 'f args) option" where
  "next_long_double (C_long_double x # ap) = Some (x, ap)"
| "next_long_double _ = None"

text \<open>The conversion of a slot to \<open>uintmax_t\<close> by way of the type that is read.\<close>

fun slot_value :: "arg_type \<Rightarrow> u64 \<Rightarrow> u64" where
  "slot_value INT_t x = scast (ucast x :: u32)"
| "slot_value UINT x = ucast (ucast x :: u32)"
| "slot_value SHORT x = scast (ucast x :: u16)"
| "slot_value USHORT x = ucast (ucast x :: u16)"
| "slot_value CHAR_t x = scast (ucast x :: u8)"
| "slot_value UCHAR x = ucast (ucast x :: u8)"
| "slot_value _ x = x"

text \<open>\<open>pop_arg\<close>; a type of no case leaves the union as it was.\<close>

definition pop_arg :: "'f arg option \<Rightarrow> arg_type \<Rightarrow> 'f args \<Rightarrow> ('f arg option \<times> 'f args) option" where
  "pop_arg old st ap =
     (if st = DBL then map_option (\<lambda>(x, ap). (Some (Arg_f x), ap)) (next_double ap)
      else if st = LDBL then map_option (\<lambda>(x, ap). (Some (Arg_f x), ap)) (next_long_double ap)
      else if st = BARE \<or> is_prefix st \<or> st = NOARG then Some (old, ap)
      else map_option (\<lambda>(x, ap). (Some (Arg_i (slot_value st x)), ap)) (next_int ap))"

section \<open>Output of pieces\<close>

text \<open>\<open>out\<close> and \<open>pad\<close>; \<open>None\<close> when the write function does not return.\<close>

definition out :: "'k os \<Rightarrow> u8 list \<Rightarrow> 'k stream \<Rightarrow> 'k stream option" where
  "out os s fw = (if \<not> has_flag (fst fw) F_ERR then map_option snd (fwritex os s fw) else Some fw)"

fun pad_loop :: "'k os \<Rightarrow> u8 \<Rightarrow> nat \<Rightarrow> 'k stream \<Rightarrow> 'k stream option" where
  "pad_loop os c l fw =
     (if l \<ge> 256 then do { fw \<leftarrow> out os (replicate 256 c) fw; pad_loop os c (l - 256) fw }
      else out os (replicate l c) fw)"

declare pad_loop.simps [simp del]

definition pad :: "'k os \<Rightarrow> u8 \<Rightarrow> int \<Rightarrow> int \<Rightarrow> u32 \<Rightarrow> 'k stream \<Rightarrow> 'k stream option" where
  "pad os c w l fl fw =
     (if fl AND (LEFT_ADJ OR ZERO_PAD) \<noteq> 0 \<or> l \<ge> w then Some fw else pad_loop os c (nat (w - l)) fw)"

section \<open>Digits\<close>

definition xdigits :: "u8 list" where
  "xdigits = map of_char ''0123456789ABCDEF''"

text \<open>The loops that fill a buffer from its end, with the bytes that are there already.\<close>

function fmt_x :: "u64 \<Rightarrow> u8 list \<Rightarrow> u8 \<Rightarrow> u8 list" where
  "fmt_x x s lower = (if x = 0 then s else fmt_x (drop_bit 4 x) ((xdigits ! unat (x AND 15) OR lower) # s) lower)"
  by auto
termination
  by (relation "measure (\<lambda>(x, _). unat x)") (auto simp: drop_bit_eq_div unat_div unat_gt_0)

function fmt_o :: "u64 \<Rightarrow> u8 list \<Rightarrow> u8 list" where
  "fmt_o x s = (if x = 0 then s else fmt_o (drop_bit 3 x) ((0x30 + ucast (x AND 7)) # s))"
  by auto
termination
  by (relation "measure (\<lambda>(x, _). unat x)") (auto simp: drop_bit_eq_div unat_div unat_gt_0)

text \<open>\<open>uintmax_t\<close> and \<open>unsigned long\<close> have the same width, so the first loop of \<open>fmt_u\<close> does nothing.\<close>

function fmt_u :: "u64 \<Rightarrow> u8 list \<Rightarrow> u8 list" where
  "fmt_u y s = (if y = 0 then s else fmt_u (y div 10) ((0x30 + ucast (y mod 10)) # s))"
  by auto
termination
  by (relation "measure (\<lambda>(x, _). unat x)") (auto simp: unat_div unat_gt_0)

declare fmt_x.simps [simp del] fmt_o.simps [simp del] fmt_u.simps [simp del]

definition isdigit :: "u8 \<Rightarrow> bool" where
  "isdigit c \<longleftrightarrow> (scast c :: u32) - 0x30 < 10"

definition digit :: "u8 \<Rightarrow> nat" where
  "digit c = unat c - 0x30"

text \<open>\<open>getint\<close> with the value so far; -1 once it has overflowed.\<close>

fun getint_loop :: "int \<Rightarrow> u8 list \<Rightarrow> int \<times> u8 list" where
  "getint_loop i [] = (i, [])"
| "getint_loop i (c # s) =
     (if isdigit c
      then getint_loop (if i mod 2 ^ 32 > INT_MAX div 10 \<or> int (digit c) > INT_MAX - 10 * i then - 1
                        else 10 * i + int (digit c)) s
      else (i, c # s))"

definition getint :: "u8 list \<Rightarrow> int \<times> u8 list" where
  "getint s = getint_loop 0 s"

section \<open>The state of printf\_core\<close>

text \<open>What the code calls outside the files of the model.\<close>

record ('f, 'k) printf_env =
  os_calls :: "'k os"
  conv_fp :: "'f \<Rightarrow> int \<Rightarrow> int \<Rightarrow> u32 \<Rightarrow> u8 \<Rightarrow> 'k stream \<Rightarrow> (int \<times> 'k stream) option"
  strerror :: "u32 \<Rightarrow> u64"
  mb_cur_max :: nat

text \<open>
  The variables of \<open>printf_core\<close> that live longer than a directive, and the arrays and the argument list
  of its caller. An element of \<open>nl_arg\<close> that was never set is \<open>None\<close>.
\<close>

record ('f, 'k) printf_state =
  strm :: "'k stream"
  ap :: "'f args"
  nl_arg :: "nat \<Rightarrow> 'f arg option"
  nl_type :: "nat \<Rightarrow> arg_type"
  l10n :: bool
  cnt :: int
  outlen :: int

text \<open>A step of the loop body goes on, returns from the function, or is undefined.\<close>

datatype ('a, 's) flow = Next 'a 's | Return int 's | Undef

fun andthen :: "('a, 's) flow \<Rightarrow> ('a \<Rightarrow> 's \<Rightarrow> ('b, 's) flow) \<Rightarrow> ('b, 's) flow" where
  "andthen (Next x s) k = k x s"
| "andthen (Return r s) k = Return r s"
| "andthen Undef k = Undef"

definition set_errno :: "u32 \<Rightarrow> ('f, 'k) printf_state \<Rightarrow> ('f, 'k) printf_state" where
  "set_errno e s = s\<lparr>strm := (fst (strm s), (snd (strm s))\<lparr>errno := e\<rparr>)\<rparr>"

definition inval :: "('f, 'k) printf_state \<Rightarrow> ('a, ('f, 'k) printf_state) flow" where
  "inval s = Return (- 1) (set_errno EINVAL s)"

definition overflow :: "('f, 'k) printf_state \<Rightarrow> ('a, ('f, 'k) printf_state) flow" where
  "overflow s = Return (- 1) (set_errno EOVERFLOW s)"

text \<open>An action on the stream.\<close>

definition on_strm :: "('k stream \<Rightarrow> 'k stream option) \<Rightarrow> ('f, 'k) printf_state \<Rightarrow> (unit, ('f, 'k) printf_state) flow" where
  "on_strm g s = (case g (strm s) of None \<Rightarrow> Undef | Some fw \<Rightarrow> Next () (s\<lparr>strm := fw\<rparr>))"

section \<open>Parsing a directive\<close>

text \<open>The byte \<open>s[i]\<close> of a format; behind the last one is the NUL.\<close>

definition at :: "u8 list \<Rightarrow> nat \<Rightarrow> u8" where
  "at s i = (if i < length s then s ! i else 0)"

definition positional :: "u8 list \<Rightarrow> bool" where
  "positional s \<longleftrightarrow> isdigit (at s 0) \<and> at s 1 = 0x24"

text \<open>The two loops over literal text: the bytes from \<open>a\<close> to \<open>z\<close> and the rest of the format.\<close>

fun percents :: "u8 list \<Rightarrow> u8 list \<times> u8 list" where
  "percents (c # d # s) = (if c = 0x25 \<and> d = 0x25 then (let (z, r) = percents s in (0x25 # z, r)) else ([], c # d # s))"
| "percents s = ([], s)"

definition literal :: "u8 list \<Rightarrow> u8 list \<times> u8 list" where
  "literal s = (let (z, r) = percents (dropWhile (\<lambda>c. c \<noteq> 0x25) s) in (takeWhile (\<lambda>c. c \<noteq> 0x25) s @ z, r))"

fun read_flags :: "u32 \<Rightarrow> u8 list \<Rightarrow> u32 \<times> u8 list" where
  "read_flags fl [] = (fl, [])"
| "read_flags fl (c # s) =
     (if (scast c :: u32) - 0x20 < 32 \<and> FLAGMASK AND push_bit (unat c - 0x20) 1 \<noteq> 0
      then read_flags (fl OR push_bit (unat c - 0x20) 1) s
      else (fl, c # s))"

text \<open>The assignment of an argument to an \<open>int\<close>.\<close>

definition to_int :: "u64 \<Rightarrow> int" where
  "to_int x = sint (ucast x :: u32)"

text \<open>
  A number from argument \<open>n\<close> of the numbered ones. The first pass uses no value, so it may read an element
  that is not set yet.
\<close>

definition nl_int :: "bool \<Rightarrow> nat \<Rightarrow> ('f, 'k) printf_state \<Rightarrow> (int, ('f, 'k) printf_state) flow" where
  "nl_int f n s =
     (let s = s\<lparr>nl_type := (nl_type s)(n := INT_t)\<rparr>
      in case nl_arg s n of
           Some (Arg_i x) \<Rightarrow> Next (to_int x) s
         | _ \<Rightarrow> if f then Undef else Next 0 s)"

text \<open>A number from the next argument; the first pass leaves it alone.\<close>

definition ap_int :: "bool \<Rightarrow> ('f, 'k) printf_state \<Rightarrow> (int, ('f, 'k) printf_state) flow" where
  "ap_int f s =
     (if \<not> f then Next 0 s
      else case next_int (ap s) of None \<Rightarrow> Undef | Some (x, r) \<Rightarrow> Next (to_int x) (s\<lparr>ap := r\<rparr>))"

text \<open>The field width: flags, width and rest of the format.\<close>

definition read_width ::
    "bool \<Rightarrow> u32 \<Rightarrow> u8 list \<Rightarrow> ('f, 'k) printf_state \<Rightarrow> (u32 \<times> int \<times> u8 list, ('f, 'k) printf_state) flow" where
  "read_width f fl fmt s =
     (if at fmt 0 = 0x2a
      then andthen (if positional (drop 1 fmt)
                    then andthen (nl_int f (digit (at fmt 1)) (s\<lparr>l10n := True\<rparr>)) (\<lambda>w s. Next (w, drop 3 fmt) s)
                    else if \<not> l10n s then andthen (ap_int f s) (\<lambda>w s. Next (w, drop 1 fmt) s)
                    else inval s)
             (\<lambda>(w, fmt) s. if w = - INT_MAX - 1 then Undef
                           else if w < 0 then Next (fl OR LEFT_ADJ, - w, fmt) s else Next (fl, w, fmt) s)
      else (let (w, fmt) = getint fmt in if w < 0 then overflow s else Next (fl, w, fmt) s))"

text \<open>The precision: \<open>p\<close>, \<open>xp\<close> and the rest of the format.\<close>

definition read_precision ::
    "bool \<Rightarrow> u8 list \<Rightarrow> ('f, 'k) printf_state \<Rightarrow> (int \<times> bool \<times> u8 list, ('f, 'k) printf_state) flow" where
  "read_precision f fmt s =
     (if at fmt 0 = 0x2e \<and> at fmt 1 = 0x2a
      then andthen (if positional (drop 2 fmt)
                    then andthen (nl_int f (digit (at fmt 2)) s) (\<lambda>p s. Next (p, drop 4 fmt) s)
                    else if \<not> l10n s then andthen (ap_int f s) (\<lambda>p s. Next (p, drop 2 fmt) s)
                    else inval s)
             (\<lambda>(p, fmt) s. Next (p, p \<ge> 0, fmt) s)
      else if at fmt 0 = 0x2e
      then (let (p, fmt) = getint (drop 1 fmt) in Next (p, True, fmt) s)
      else Next (- 1, False, fmt) s)"

text \<open>The state machine for length modifiers: \<open>ps\<close>, \<open>st\<close>, the conversion character and the rest of the format.\<close>

fun read_type :: "arg_type \<Rightarrow> u8 list \<Rightarrow> (arg_type \<times> arg_type \<times> u8 \<times> u8 list) option" where
  "read_type st [] = None"
| "read_type st (c # fmt) =
     (if out_of_table c then None
      else (let st' = entry_of (states st) c
            in if is_prefix st' then read_type st' fmt
               else if st' = BARE then None
               else Some (st, st', c, fmt)))"

text \<open>The argument of a directive. In the first pass an argument without a number ends the pass with 0.\<close>

definition get_arg ::
    "bool \<Rightarrow> int \<Rightarrow> arg_type \<Rightarrow> ('f, 'k) printf_state \<Rightarrow> ('f arg option, ('f, 'k) printf_state) flow" where
  "get_arg f argpos st s =
     (if st = NOARG then (if argpos \<ge> 0 then inval s else Next None s)
      else if argpos \<ge> 0 then Next (nl_arg s (nat argpos)) (s\<lparr>nl_type := (nl_type s)(nat argpos := st)\<rparr>)
      else if f then (case pop_arg None st (ap s) of None \<Rightarrow> Undef | Some (arg, r) \<Rightarrow> Next arg (s\<lparr>ap := r\<rparr>))
      else Return 0 s)"

section \<open>Conversions\<close>

text \<open>
  What a conversion leaves for the output of its field: the part of \<open>prefix\<close> that is used (\<open>pl\<close> bytes of
  it), the bytes from \<open>a\<close> to \<open>z\<close>, the precision and the flags.
\<close>

record field =
  fprefix :: "u8 list"
  body :: "u8 list"
  fprec :: int
  fflags :: u32

definition prefixes :: "u8 list" where
  "prefixes = map of_char ''-+   0X0x''"

definition without :: "u32 \<Rightarrow> u32 \<Rightarrow> u32" where
  "without fl x = fl AND NOT x"

text \<open>The common end of the integer conversions, on the argument, the prefix and the digits; \<open>None\<close> is overflow.\<close>

definition int_field :: "u64 \<Rightarrow> u8 list \<Rightarrow> u8 list \<Rightarrow> bool \<Rightarrow> int \<Rightarrow> u32 \<Rightarrow> field option" where
  "int_field i pre a xp p fl =
     (if xp \<and> p < 0 then None
      else let fl = (if xp then without fl ZERO_PAD else fl)
           in if i = 0 \<and> p = 0 then Some \<lparr>fprefix = pre, body = [], fprec = p, fflags = fl\<rparr>
              else Some \<lparr>fprefix = pre, body = a, fprec = max p (int (length a) + (if i = 0 then 1 else 0)), fflags = fl\<rparr>)"

definition hex_field :: "u8 \<Rightarrow> u64 \<Rightarrow> bool \<Rightarrow> int \<Rightarrow> u32 \<Rightarrow> field option" where
  "hex_field t i xp p fl =
     int_field i (if i \<noteq> 0 \<and> fl AND ALT_FORM \<noteq> 0 then take 2 (drop (unat (drop_bit 4 t)) prefixes) else [])
       (fmt_x i [] (t AND 32)) xp p fl"

text \<open>The comparison \<open>MAX(p, 2*sizeof(void*))\<close> is unsigned: a negative \<open>p\<close> stays.\<close>

definition ptr_field :: "u64 \<Rightarrow> bool \<Rightarrow> int \<Rightarrow> u32 \<Rightarrow> field option" where
  "ptr_field i xp p fl = hex_field 0x78 i xp (if (of_int p :: u64) > 16 then p else 16) (fl OR ALT_FORM)"

definition octal_field :: "u64 \<Rightarrow> bool \<Rightarrow> int \<Rightarrow> u32 \<Rightarrow> field option" where
  "octal_field i xp p fl =
     (let a = fmt_o i []
      in int_field i [] a xp (if fl AND ALT_FORM \<noteq> 0 \<and> p < int (length a) + 1 then int (length a) + 1 else p) fl)"

definition signed_field :: "u64 \<Rightarrow> bool \<Rightarrow> int \<Rightarrow> u32 \<Rightarrow> field option" where
  "signed_field i xp p fl =
     (let (i, pre) = (if i > 0x7fffffffffffffff then (- i, take 1 prefixes)
                      else if fl AND MARK_POS \<noteq> 0 then (i, take 1 (drop 1 prefixes))
                      else if fl AND PAD_POS \<noteq> 0 then (i, take 1 (drop 2 prefixes))
                      else (i, []))
      in int_field i pre (fmt_u i []) xp p fl)"

definition unsigned_field :: "u64 \<Rightarrow> bool \<Rightarrow> int \<Rightarrow> u32 \<Rightarrow> field option" where
  "unsigned_field i xp p fl = int_field i [] (fmt_u i []) xp p fl"

definition char_field :: "u64 \<Rightarrow> u32 \<Rightarrow> field" where
  "char_field i fl = \<lparr>fprefix = [], body = [ucast i], fprec = 1, fflags = without fl ZERO_PAD\<rparr>"

text \<open>
  A string: its bytes up to the precision, and the overflow of a string without a precision that does not
  end. The text \<open>(null)\<close> is in read-only memory of the library.
\<close>

definition string_field :: "memory \<Rightarrow> u64 \<Rightarrow> int \<Rightarrow> u32 \<Rightarrow> field option" where
  "string_field m a p fl =
     (let n = nat (if p < 0 then INT_MAX else p);
          (s, more) = (if a = NULL
                       then (let null = map of_char ''(null)'' in (take n null, n < length null))
                       else (let z = strnlen m a (of_nat n) in (bytes_at m a (unat z), m (a + z) \<noteq> 0)))
      in if p < 0 \<and> more then None
         else Some \<lparr>fprefix = [], body = s, fprec = int (length s), fflags = without fl ZERO_PAD\<rparr>)"

text \<open>The output of a field, and the number of its bytes.\<close>

definition emit_field ::
    "'k os \<Rightarrow> int \<Rightarrow> field \<Rightarrow> ('f, 'k) printf_state \<Rightarrow> (unit, ('f, 'k) printf_state) flow" where
  "emit_field os w x s =
     (let fl = fflags x; n = int (length (body x)); pl = int (length (fprefix x));
          p = (if fprec x < n then n else fprec x)
      in if p > INT_MAX - pl then overflow s
         else let w = (if w < pl + p then pl + p else w)
              in if w > INT_MAX - cnt s then overflow s
                 else andthen (on_strm (\<lambda>fw. do {
                        fw \<leftarrow> pad os 0x20 w (pl + p) fl fw;
                        fw \<leftarrow> out os (fprefix x) fw;
                        fw \<leftarrow> pad os 0x30 w (pl + p) (fl XOR ZERO_PAD) fw;
                        fw \<leftarrow> pad os 0x30 p n 0 fw;
                        fw \<leftarrow> out os (body x) fw;
                        pad os 0x20 w (pl + p) (fl XOR LEFT_ADJ) fw }) s)
                      (\<lambda>_ s. Next () (s\<lparr>outlen := w\<rparr>)))"

text \<open>\<open>%n\<close> stores the count with the width of the length modifier; \<open>%Ln\<close> stores nothing.\<close>

fun store_count :: "arg_type \<Rightarrow> memory \<Rightarrow> u64 \<Rightarrow> int \<Rightarrow> memory" where
  "store_count BARE m a n = store_le 4 m a (nat n)"
| "store_count LPRE m a n = store_le 8 m a (nat n)"
| "store_count LLPRE m a n = store_le 8 m a (nat n)"
| "store_count HPRE m a n = store_le 2 m a (nat n)"
| "store_count HHPRE m a n = store_le 1 m a (nat n)"
| "store_count ZTPRE m a n = store_le 8 m a (nat n)"
| "store_count JPRE m a n = store_le 8 m a (nat n)"
| "store_count _ m a n = m"

section \<open>Wide strings\<close>

text \<open>A wide string is read through a function, either from memory or from the array \<open>wc\<close>.\<close>

type_synonym wide = "memory \<Rightarrow> nat \<Rightarrow> u32"

definition wide_at :: "u64 \<Rightarrow> wide" where
  "wide_at ws m j = load32 m (ws + 4 * of_nat j)"

definition wide_char :: "u64 \<Rightarrow> wide" where
  "wide_char i m j = (if j = 0 then ucast i else 0)"

lemma wc_bytes_length: "wc_bytes mb wc = Some bs \<Longrightarrow> 0 < length bs \<and> length bs \<le> 4"
  by (auto simp: wc_bytes_def split: if_splits)

lemmas wc_bytes_nonempty = wc_bytes_length [THEN conjunct1]

text \<open>The first loop: the number of bytes of the characters that fit; \<open>None\<close> when a character has no encoding.\<close>

function wide_length :: "nat \<Rightarrow> memory \<Rightarrow> wide \<Rightarrow> u64 \<Rightarrow> nat \<Rightarrow> u64 \<Rightarrow> u64 option" where
  "wide_length mb m ws p j i =
     (if i < p \<and> ws m j \<noteq> 0
      then (case wc_bytes mb (ws m j) of
              None \<Rightarrow> None
            | Some bs \<Rightarrow> if of_nat (length bs) \<le> p - i then wide_length mb m ws p (Suc j) (i + of_nat (length bs))
                         else Some i)
      else Some i)"
  by auto

termination
proof (relation "measure (\<lambda>(mb, m, ws, p, j, i). unat (p - i))", goal_cases)
  case 1
  then show ?case by simp
next
  case (2 mb m ws p j i bs)
  have n: "unat (of_nat (length bs) :: u64) = length bs" "0 < length bs"
    using wc_bytes_length [OF 2(2)] by (auto intro: unat64_of_nat)
  have "p - (i + of_nat (length bs)) = (p - i) - of_nat (length bs)" by simp
  then have "unat (p - (i + of_nat (length bs))) = unat (p - i) - length bs"
    using 2(3) n(1) by (simp only: unat_sub)
  moreover have "length bs \<le> unat (p - i)" using 2(3) n(1) by (simp add: word_le_nat_alt)
  ultimately have "unat (p - (i + of_nat (length bs))) < unat (p - i)" using n(2) by linarith
  then show ?case by simp
qed

text \<open>
  The second loop writes them. A character that had an encoding in the first loop and has none now makes
  the code write with a huge length, unless it is the first one.
\<close>

function wide_out :: "nat \<Rightarrow> 'k os \<Rightarrow> wide \<Rightarrow> nat \<Rightarrow> nat \<Rightarrow> nat \<Rightarrow> 'k stream \<Rightarrow> 'k stream option" where
  "wide_out mb os ws p j i fw =
     (let wc = ws (user_mem (snd fw)) j
      in if i < p \<and> wc \<noteq> 0
         then (case wc_bytes mb wc of
                 None \<Rightarrow> if i = 0 then Some fw else None
               | Some bs \<Rightarrow> if i + length bs \<le> p
                            then do { fw \<leftarrow> out os bs fw; wide_out mb os ws p (Suc j) (i + length bs) fw }
                            else Some fw)
         else Some fw)"
  by auto
termination
  by (relation "measure (\<lambda>(mb, os, ws, p, j, i, fw). p - i)") (auto dest: wc_bytes_nonempty intro!: diff_less_mono2)

declare wide_length.simps [simp del] wide_out.simps [simp del]

definition wide_field ::
    "('f, 'k) printf_env \<Rightarrow> wide \<Rightarrow> int \<Rightarrow> int \<Rightarrow> u32 \<Rightarrow> ('f, 'k) printf_state \<Rightarrow> (unit, ('f, 'k) printf_state) flow" where
  "wide_field e ws w p fl s =
     (case wide_length (mb_cur_max e) (user_mem (snd (strm s))) ws (of_int p) 0 0 of
        None \<Rightarrow> Return (- 1) (set_errno EILSEQ s)
      | Some i \<Rightarrow>
          if uint i > INT_MAX then overflow s
          else (let p = uint i
                in andthen (on_strm (\<lambda>fw. do {
                     fw \<leftarrow> pad (os_calls e) 0x20 w p fl fw;
                     fw \<leftarrow> wide_out (mb_cur_max e) (os_calls e) ws (nat p) 0 0 fw;
                     pad (os_calls e) 0x20 w p (fl XOR LEFT_ADJ) fw }) s)
                   (\<lambda>_ s. Next () (s\<lparr>outlen := (if w > p then w else p)\<rparr>))))"

section \<open>The loop over the format\<close>

text \<open>
  The conversion of a directive in the second pass. \<open>t\<close> is the conversion character, with \<open>ls\<close> and \<open>lc\<close>
  turned into \<open>S\<close> and \<open>C\<close>; a union that was never set or holds a value of the other kind is undefined.
\<close>

definition on_field ::
    "('f, 'k) printf_env \<Rightarrow> int \<Rightarrow> field option \<Rightarrow> ('f, 'k) printf_state \<Rightarrow> (unit, ('f, 'k) printf_state) flow" where
  "on_field e w x s = (case x of None \<Rightarrow> overflow s | Some x \<Rightarrow> emit_field (os_calls e) w x s)"

definition convert_int ::
    "('f, 'k) printf_env \<Rightarrow> u8 \<Rightarrow> arg_type \<Rightarrow> u64 \<Rightarrow> int \<Rightarrow> int \<Rightarrow> bool \<Rightarrow> u32 \<Rightarrow> ('f, 'k) printf_state
       \<Rightarrow> (unit, ('f, 'k) printf_state) flow" where
  "convert_int e t ps i w p xp fl s =
     (let m = user_mem (snd (strm s))
      in if is_in t ''n''
         then Next () (s\<lparr>strm := (fst (strm s), (snd (strm s))\<lparr>user_mem := store_count ps m i (cnt s)\<rparr>)\<rparr>)
         else if is_in t ''p'' then on_field e w (ptr_field i xp p fl) s
         else if is_in t ''xX'' then on_field e w (hex_field t i xp p fl) s
         else if is_in t ''o'' then on_field e w (octal_field i xp p fl) s
         else if is_in t ''di'' then on_field e w (signed_field i xp p fl) s
         else if is_in t ''u'' then on_field e w (unsigned_field i xp p fl) s
         else if is_in t ''c'' then on_field e w (Some (char_field i fl)) s
         else if is_in t ''s'' then on_field e w (string_field m i p fl) s
         else if is_in t ''C'' then wide_field e (wide_char i) w (- 1) fl s
         else wide_field e (wide_at i) w p fl s)"

definition convert_fp ::
    "('f, 'k) printf_env \<Rightarrow> u8 \<Rightarrow> 'f \<Rightarrow> int \<Rightarrow> int \<Rightarrow> bool \<Rightarrow> u32 \<Rightarrow> ('f, 'k) printf_state
       \<Rightarrow> (unit, ('f, 'k) printf_state) flow" where
  "convert_fp e t y w p xp fl s =
     (if xp \<and> p < 0 then overflow s
      else case conv_fp e y w p fl t (strm s) of
             None \<Rightarrow> Undef
           | Some (l, fw) \<Rightarrow> let s = s\<lparr>strm := fw, outlen := l\<rparr> in if l < 0 then overflow s else Next () s)"

definition convert ::
    "('f, 'k) printf_env \<Rightarrow> u8 \<Rightarrow> arg_type \<Rightarrow> 'f arg option \<Rightarrow> int \<Rightarrow> int \<Rightarrow> bool \<Rightarrow> u32 \<Rightarrow> ('f, 'k) printf_state
       \<Rightarrow> (unit, ('f, 'k) printf_state) flow" where
  "convert e c ps arg w p xp fl s =
     (let t = (if ps \<noteq> BARE \<and> c AND 15 = 3 then c AND NOT 32 else c);
          fl = (if fl AND LEFT_ADJ \<noteq> 0 then without fl ZERO_PAD else fl)
      in if is_in t ''m''
         then on_field e w (string_field (user_mem (snd (strm s))) (strerror e (errno (snd (strm s)))) p fl) s
         else case arg of
                None \<Rightarrow> Undef
              | Some (Arg_i i) \<Rightarrow> if is_in t ''efgaEFGA'' then Undef else convert_int e t ps i w p xp fl s
              | Some (Arg_f y) \<Rightarrow> if is_in t ''efgaEFGA'' then convert_fp e t y w p xp fl s else Undef)"

text \<open>A directive from its per cent sign on; the value is the rest of the format.\<close>

definition directive_body ::
    "('f, 'k) printf_env \<Rightarrow> bool \<Rightarrow> int \<Rightarrow> u8 list \<Rightarrow> ('f, 'k) printf_state \<Rightarrow> (u8 list, ('f, 'k) printf_state) flow" where
  "directive_body e f argpos fmt s =
     (let (fl, fmt) = read_flags 0 fmt
      in andthen (read_width f fl fmt s) (\<lambda>(fl, w, fmt) s.
         andthen (read_precision f fmt s) (\<lambda>(p, xp, fmt) s.
         case read_type BARE fmt of
           None \<Rightarrow> inval s
         | Some (ps, st, c, fmt) \<Rightarrow>
             andthen (get_arg f argpos st s) (\<lambda>arg s.
             if \<not> f then Next fmt s
             else andthen (convert e c ps arg w p xp fl s) (\<lambda>_ s. Next fmt s)))))"

definition directive_step ::
    "('f, 'k) printf_env \<Rightarrow> bool \<Rightarrow> u8 list \<Rightarrow> ('f, 'k) printf_state \<Rightarrow> (u8 list, ('f, 'k) printf_state) flow" where
  "directive_step e f fmt s =
     (if positional (drop 1 fmt)
      then directive_body e f (int (digit (at fmt 1))) (drop 3 fmt) (s\<lparr>l10n := True\<rparr>)
      else directive_body e f (- 1) (drop 1 fmt) s)"

text \<open>The body of the loop, after the check for the end of the format.\<close>

definition round_body ::
    "('f, 'k) printf_env \<Rightarrow> bool \<Rightarrow> u8 list \<Rightarrow> ('f, 'k) printf_state \<Rightarrow> (u8 list, ('f, 'k) printf_state) flow" where
  "round_body e f fmt s =
     (let (txt, fmt) = literal fmt; l = int (length txt)
      in if l > INT_MAX - cnt s then overflow s
         else andthen (if f then on_strm (out (os_calls e) txt) (s\<lparr>outlen := l\<rparr>) else Next () (s\<lparr>outlen := l\<rparr>)) (\<lambda>_ s.
              if l \<noteq> 0 then Next fmt s else directive_step e f fmt s))"

text \<open>Every round consumes a part of the format, so the loop ends.\<close>

lemma andthen_Next:
  "andthen x k = Next y s' \<longleftrightarrow> (\<exists>a s. x = Next a s \<and> k a s = Next y s')"
  by (cases x) auto

lemma not_Next [simp]: "inval s \<noteq> Next x s'" "overflow s \<noteq> Next x s'"
  by (simp_all add: inval_def overflow_def)

lemma read_flags_length: "read_flags fl s = (fl', r) \<Longrightarrow> length r \<le> length s"
  by (induction fl s rule: read_flags.induct) (auto split: if_splits)

lemma getint_loop_length: "getint_loop i s = (n, r) \<Longrightarrow> length r \<le> length s"
  by (induction i s rule: getint_loop.induct) (fastforce split: if_splits)+

lemma read_type_length: "read_type st s = Some (ps, st', c, r) \<Longrightarrow> length r < length s"
  by (induction st s rule: read_type.induct) (auto simp: Let_def split: if_splits)

lemma read_width_length: "read_width f fl s st = Next (fl', w, r) st' \<Longrightarrow> length r \<le> length s"
  by (auto simp: read_width_def getint_def andthen_Next Let_def split: if_splits prod.splits dest: getint_loop_length)

lemma read_precision_length: "read_precision f s st = Next (p, xp, r) st' \<Longrightarrow> length r \<le> length s"
  by (auto simp: read_precision_def getint_def andthen_Next Let_def split: if_splits prod.splits dest: getint_loop_length)

lemma directive_body_length: "directive_body e f argpos s st = Next r st' \<Longrightarrow> length r < length s"
  by (auto simp: directive_body_def andthen_Next split: if_splits prod.splits option.splits
           dest!: read_flags_length read_width_length read_precision_length read_type_length)

lemma directive_step_length: "directive_step e f s st = Next r st' \<Longrightarrow> length r < length s"
  by (auto simp: directive_step_def split: if_splits dest!: directive_body_length)

lemma percents_length: "percents s = (z, r) \<Longrightarrow> length r + 2 * length z = length s"
  by (induction s arbitrary: z r rule: percents.induct) (auto simp: Let_def split: if_splits prod.splits)

lemma literal_length: "literal s = (t, r) \<Longrightarrow> length t + length r \<le> length s"
proof -
  assume h: "literal s = (t, r)"
  obtain z where z: "percents (dropWhile (\<lambda>c. c \<noteq> 0x25) s) = (z, r)" "t = takeWhile (\<lambda>c. c \<noteq> 0x25) s @ z"
    using h by (auto simp: literal_def split: prod.splits)
  have "length (takeWhile (\<lambda>c. c \<noteq> 0x25) s @ dropWhile (\<lambda>c. c \<noteq> 0x25) s) = length s" by simp
  then show ?thesis using percents_length [OF z(1)] z(2) by (simp del: takeWhile_dropWhile_id)
qed

lemma literal_shorter: "literal s = (t, r) \<Longrightarrow> t \<noteq> [] \<Longrightarrow> length r < length s"
  using literal_length [of s t r] length_greater_0_conv [of t] by linarith

lemma round_body_length: "round_body e f s st = Next r st' \<Longrightarrow> length r < length s"
  by (auto simp: round_body_def Let_def andthen_Next split: if_splits prod.splits
           dest!: directive_step_length dest: literal_shorter literal_length)

text \<open>
  The end of the first pass with numbered arguments: pop them in order, up to the first number that is
  not used, and refuse a number behind it.
\<close>

definition NL_ARGMAX :: nat where "NL_ARGMAX = 9"

function pop_numbered :: "nat \<Rightarrow> ('f, 'k) printf_state \<Rightarrow> (nat \<times> ('f, 'k) printf_state) option" where
  "pop_numbered i s =
     (if i \<le> NL_ARGMAX \<and> nl_type s i \<noteq> BARE
      then (case pop_arg (nl_arg s i) (nl_type s i) (ap s) of
              None \<Rightarrow> None
            | Some (arg, r) \<Rightarrow> pop_numbered (Suc i) (s\<lparr>nl_arg := (nl_arg s)(i := arg), ap := r\<rparr>))
      else Some (i, s))"
  by auto
termination
  by (relation "measure (\<lambda>(i, s). Suc NL_ARGMAX - i)") auto

declare pop_numbered.simps [simp del]

definition finish_core :: "bool \<Rightarrow> ('f, 'k) printf_state \<Rightarrow> (unit, ('f, 'k) printf_state) flow" where
  "finish_core f s =
     (if f then Return (cnt s) s
      else if \<not> l10n s then Return 0 s
      else case pop_numbered 1 s of
             None \<Rightarrow> Undef
           | Some (i, s) \<Rightarrow> if \<exists>j \<in> set [i..<Suc NL_ARGMAX]. nl_type s j \<noteq> BARE then inval s else Return 1 s)"

text \<open>\<open>printf_core\<close> for the null stream (\<open>f\<close> false) and for the stream of the state.\<close>

function printf_core ::
    "('f, 'k) printf_env \<Rightarrow> bool \<Rightarrow> u8 list \<Rightarrow> ('f, 'k) printf_state \<Rightarrow> (unit, ('f, 'k) printf_state) flow" where
  "printf_core e f fmt s =
     (if outlen s > INT_MAX - cnt s then overflow s
      else let s = s\<lparr>cnt := cnt s + outlen s\<rparr>
           in if fmt = [] then finish_core f s
              else case round_body e f fmt s of
                     Next fmt' s' \<Rightarrow> printf_core e f fmt' s'
                   | Return r s' \<Rightarrow> Return r s'
                   | Undef \<Rightarrow> Undef)"
  by auto
termination
  by (relation "measure (\<lambda>(e, f, fmt, s). length fmt)") (auto dest: round_body_length)

declare printf_core.simps [simp del]

section \<open>The functions of the interface\<close>

definition call_core ::
    "('f, 'k) printf_env \<Rightarrow> bool \<Rightarrow> u8 list \<Rightarrow> ('f, 'k) printf_state \<Rightarrow> (int \<times> ('f, 'k) printf_state) option" where
  "call_core e f fmt s =
     (case printf_core e f fmt (s\<lparr>cnt := 0, outlen := 0, l10n := False\<rparr>) of Return r s \<Rightarrow> Some (r, s) | _ \<Rightarrow> None)"

definition start_state :: "'f args \<Rightarrow> 'k stream \<Rightarrow> ('f, 'k) printf_state" where
  "start_state args fw = \<lparr>strm = fw, ap = args, nl_arg = (\<lambda>_. None), nl_type = (\<lambda>_. BARE), l10n = False, cnt = 0, outlen = 0\<rparr>"

text \<open>
  \<open>vfprintf\<close>, without the lock of the stream. The pointer \<open>buf\<close> is not part of the model, so borrowing
  \<open>internal_buf\<close> is its size and giving it back is the size 0; \<open>saved_buf\<close> is null unless it was borrowed,
  provided that a stream with no buffer has a pointer to one, as the streams of the library do.
\<close>

definition vfprintf ::
    "('f, 'k) printf_env \<Rightarrow> u8 list \<Rightarrow> 'f args \<Rightarrow> 'k stream \<Rightarrow> (int \<times> 'k stream) option" where
  "vfprintf e fmt args fw =
     do { (r, s) \<leftarrow> call_core e False fmt (start_state args fw);
          if r < 0 then Some (- 1, strm s)
          else do {
            let f = fst (strm s); let w = snd (strm s);
            let olderr = flags f AND F_ERR;
            let f = (if sint (f_mode f) < 1 then f\<lparr>flags := without (flags f) F_ERR\<rparr> else f);
            let borrow = (buf_size f = 0);
            let f = (if borrow then f\<lparr>buf_size := 80, writing := False, pending := []\<rparr> else f);
            let (eof, f) = (if \<not> writing f then towrite f else (False, f));
            (r, fw) \<leftarrow> (if eof then Some (- 1, f, w)
                       else map_option (\<lambda>(r, s). (r, strm s)) (call_core e True fmt (s\<lparr>strm := (f, w)\<rparr>)));
            (r, f, w) \<leftarrow> (if borrow
                          then do { (_, f, w) \<leftarrow> file_write (os_calls e) [] fw;
                                    Some (if \<not> writing f then - 1 else r,
                                          f\<lparr>buf_size := 0, writing := False, pending := []\<rparr>, w) }
                          else Some (r, fst fw, snd fw));
            let r = (if has_flag f F_ERR then - 1 else r);
            Some (r, f\<lparr>flags := flags f OR olderr\<rparr>, w) } }"

definition vprintf :: "('f, 'k) printf_env \<Rightarrow> u8 list \<Rightarrow> 'f args \<Rightarrow> 'k stream \<Rightarrow> (int \<times> 'k stream) option" where
  "vprintf e fmt args stdout = vfprintf e fmt args stdout"

definition printf :: "('f, 'k) printf_env \<Rightarrow> u8 list \<Rightarrow> 'f args \<Rightarrow> 'k stream \<Rightarrow> (int \<times> 'k stream) option" where
  "printf e fmt args stdout = vfprintf e fmt args stdout"

text \<open>\<open>vsnprintf\<close> with its stream; \<open>dummy\<close> is the address of the local array.\<close>

definition sn_FILE :: FILE where
  "sn_FILE = \<lparr>flags = 0, f_mode = 0, lbf = - 1, buf_size = 0, writing = False, pending = [], fd = 0, f_write = Sn_write\<rparr>"

definition vsnprintf ::
    "('f, 'k) printf_env \<Rightarrow> u64 \<Rightarrow> u64 \<Rightarrow> u64 \<Rightarrow> u8 list \<Rightarrow> 'f args \<Rightarrow> 'k world \<Rightarrow> (int \<times> 'k world) option" where
  "vsnprintf e dummy s n fmt args w =
     (let c = (if n \<noteq> 0 then s else dummy);
          w = w\<lparr>cookie_s := c, cookie_n := (if n \<noteq> 0 then n - 1 else 0)\<rparr>
      in if uint n > INT_MAX then Some (- 1, w\<lparr>errno := EOVERFLOW\<rparr>)
         else map_option (\<lambda>(r, fw). (r, snd fw)) (vfprintf e fmt args (sn_FILE, w\<lparr>user_mem := (user_mem w)(c := 0)\<rparr>)))"

definition snprintf ::
    "('f, 'k) printf_env \<Rightarrow> u64 \<Rightarrow> u64 \<Rightarrow> u64 \<Rightarrow> u8 list \<Rightarrow> 'f args \<Rightarrow> 'k world \<Rightarrow> (int \<times> 'k world) option" where
  "snprintf e dummy s n fmt args w = vsnprintf e dummy s n fmt args w"

end
