(* ===== verification/Printf_Text.thy ===== *)
theory Printf_Text
  imports Printf
begin

text \<open>
  What formatted output writes to a stream that keeps its contract: the text of padding, fields and wide
  strings, the digits of numbers, and the text of whole formats.
\<close>

section \<open>Output to a stream that keeps its contract\<close>

context output_stream
begin

text \<open>An action has written \<open>x\<close> to a stream that held \<open>bs\<close> and left the memory of others alone.\<close>

definition wrote :: "'k stream \<Rightarrow> u8 list \<Rightarrow> u8 list \<Rightarrow> 'k stream option \<Rightarrow> bool" where
  "wrote fw bs x r \<longleftrightarrow>
     (\<exists>fw'. r = Some fw' \<and> holds (bs @ x) fw' \<and> (\<forall>a. \<not> own a \<longrightarrow> user_mem (snd fw') a = user_mem (snd fw) a))"

lemma wrote_nothing: "holds bs fw \<Longrightarrow> wrote fw bs [] (Some fw)"
  by (simp add: wrote_def)

lemma wrote_bind:
  assumes "wrote fw bs x r"
    and "\<And>fw'. holds (bs @ x) fw' \<Longrightarrow> (\<And>a. \<not> own a \<Longrightarrow> user_mem (snd fw') a = user_mem (snd fw) a)
           \<Longrightarrow> wrote fw' (bs @ x) y (k fw')"
  shows "wrote fw bs (x @ y) (Option.bind r k)"
proof -
  obtain fw' where 1: "r = Some fw'" "holds (bs @ x) fw'" "\<And>a. \<not> own a \<Longrightarrow> user_mem (snd fw') a = user_mem (snd fw) a"
    using assms(1) by (auto simp: wrote_def)
  then show ?thesis using assms(2) [OF 1(2) 1(3)] by (auto simp: wrote_def)
qed

lemma out_wrote: "holds bs fw \<Longrightarrow> length s < 2 ^ 31 \<Longrightarrow> wrote fw bs s (out os s fw)"
  using appends [of bs fw s] frame [of bs fw s] no_error [of bs fw] by (fastforce simp: wrote_def out_def)

lemma pad_loop_wrote: "holds bs fw \<Longrightarrow> wrote fw bs (replicate l c) (pad_loop os c l fw)"
proof (induction l arbitrary: bs fw rule: less_induct)
  case (less l)
  show ?case
  proof (cases "l \<ge> 256")
    case True
    have "wrote fw bs (replicate 256 c @ replicate (l - 256) c) (Option.bind (out os (replicate 256 c) fw) (pad_loop os c (l - 256)))"
      by (rule wrote_bind [OF out_wrote [OF less.prems]]) (use less.IH [of "l - 256"] True in simp_all)
    then show ?thesis using True by (simp add: pad_loop.simps [of os c l fw] replicate_add [symmetric])
  next
    case False
    then show ?thesis using out_wrote [OF less.prems, of "replicate l c"] by (simp add: pad_loop.simps [of os c l fw])
  qed
qed

end

definition pad_text :: "u8 \<Rightarrow> int \<Rightarrow> int \<Rightarrow> u32 \<Rightarrow> u8 list" where
  "pad_text c w l fl = (if fl AND (LEFT_ADJ OR ZERO_PAD) \<noteq> 0 then [] else replicate (nat (w - l)) c)"

text \<open>The text of a field that is at least \<open>w\<close> wide.\<close>

definition field_prec :: "field \<Rightarrow> int" where
  "field_prec x = max (fprec x) (int (length (body x)))"

definition field_width :: "int \<Rightarrow> field \<Rightarrow> int" where
  "field_width w x = max w (int (length (fprefix x)) + field_prec x)"

definition field_text :: "int \<Rightarrow> field \<Rightarrow> u8 list" where
  "field_text w x =
     (let fl = fflags x; p = field_prec x; l = int (length (fprefix x)) + p; w = field_width w x
      in pad_text 0x20 w l fl @ fprefix x @ pad_text 0x30 w l (fl XOR ZERO_PAD)
         @ replicate (nat (p - int (length (body x)))) 0x30 @ body x @ pad_text 0x20 w l (fl XOR LEFT_ADJ))"

context output_stream
begin

lemma pad_wrote: "holds bs fw \<Longrightarrow> wrote fw bs (pad_text c w l fl) (pad os c w l fl fw)"
  using pad_loop_wrote [of bs fw "nat (w - l)" c] wrote_nothing [of bs fw] by (auto simp: pad_def pad_text_def)

lemma emit_field_wrote:
  assumes "holds bs (strm s)" "length (fprefix x) < 2 ^ 31" "length (body x) < 2 ^ 31"
    and "int (length (fprefix x)) + field_prec x \<le> INT_MAX" "field_width w x \<le> INT_MAX - cnt s"
  shows "\<exists>fw. emit_field os w x s = Next () (s\<lparr>strm := fw, outlen := field_width w x\<rparr>) \<and> holds (bs @ field_text w x) fw
    \<and> (\<forall>a. \<not> own a \<longrightarrow> user_mem (snd fw) a = user_mem (snd (strm s)) a)"
proof -
  let ?p = "field_prec x" and ?l = "int (length (fprefix x)) + field_prec x" and ?w = "field_width w x" and ?fl = "fflags x"
  have p: "(if fprec x < int (length (body x)) then int (length (body x)) else fprec x) = ?p"
    by (simp add: field_prec_def max_def)
  have w: "(if w < ?l then ?l else w) = ?w" by (simp add: field_width_def max_def)
  have body: "replicate (nat (?p - int (length (body x)))) 0x30 = pad_text 0x30 ?p (int (length (body x))) 0"
    by (simp add: pad_text_def)
  have wr: "wrote (strm s) bs (field_text w x) (do {
      fw \<leftarrow> pad os 0x20 ?w ?l ?fl (strm s); fw \<leftarrow> out os (fprefix x) fw; fw \<leftarrow> pad os 0x30 ?w ?l (?fl XOR ZERO_PAD) fw;
      fw \<leftarrow> pad os 0x30 ?p (int (length (body x))) 0 fw; fw \<leftarrow> out os (body x) fw; pad os 0x20 ?w ?l (?fl XOR LEFT_ADJ) fw })"
    unfolding field_text_def Let_def body
    by (intro wrote_bind pad_wrote out_wrote assms(1-3)) assumption+
  then obtain fw where fw: "(do {
      fw \<leftarrow> pad os 0x20 ?w ?l ?fl (strm s); fw \<leftarrow> out os (fprefix x) fw; fw \<leftarrow> pad os 0x30 ?w ?l (?fl XOR ZERO_PAD) fw;
      fw \<leftarrow> pad os 0x30 ?p (int (length (body x))) 0 fw; fw \<leftarrow> out os (body x) fw; pad os 0x20 ?w ?l (?fl XOR LEFT_ADJ) fw })
      = Some fw" "holds (bs @ field_text w x) fw" "\<forall>a. \<not> own a \<longrightarrow> user_mem (snd fw) a = user_mem (snd (strm s)) a"
    unfolding wrote_def by blast
  show ?thesis
    using fw assms(4,5) unfolding emit_field_def Let_def p w on_strm_def by (intro exI [of _ fw]) simp
qed

end

section \<open>Digits\<close>

lemma digits_bound: "2 \<le> b \<Longrightarrow> n < b ^ k \<Longrightarrow> length (digits b n) \<le> k"
proof (induction b n arbitrary: k rule: digits.induct)
  case (1 b n)
  show ?case
  proof (cases "n = 0")
    case False
    then obtain j where j: "k = Suc j" using 1(3) by (cases k) auto
    have "n div b < b ^ j" using 1(3) j by (simp add: less_mult_imp_div_less mult.commute)
    then show ?thesis using 1(1) 1(2) False j by (simp add: digits.simps [of b n])
  qed (simp add: digits.simps)
qed

definition upcase :: "u8 \<Rightarrow> u8" where
  "upcase c = (if c \<ge> 0x61 then c - 0x20 else c)"

lemma decimal_table: "list_all (\<lambda>d. (0x30 + of_nat d :: u8) = digit_char (of_nat d)) [0..<10]"
  by code_simp

lemma hex_table:
  "list_all (\<lambda>d. xdigits ! d OR 32 = digit_char (of_nat d) \<and> xdigits ! d OR 0 = upcase (digit_char (of_nat d))) [0..<16]"
  by code_simp

lemma decimal_char: "unat (y :: u64) = d \<Longrightarrow> d < 10 \<Longrightarrow> (0x30 + ucast y :: u8) = digit_char (of_nat d)"
proof -
  assume y: "unat y = d" "d < 10"
  then have "(0x30 + of_nat (unat y) :: u8) = digit_char (of_nat d)" using decimal_table by (simp add: list_all_iff)
  then show ?thesis by (simp only: of_nat_unat)
qed

lemma hex_char:
  assumes "d < 16" "lower = 0 \<or> lower = 32"
  shows "xdigits ! d OR lower = (if lower = 0 then upcase else id) (digit_char (of_nat d))"
proof -
  have t: "xdigits ! d OR 32 = digit_char (of_nat d)" "xdigits ! d = upcase (digit_char (of_nat d))"
    using hex_table [unfolded list_all_iff, rule_format, of d] assms(1) by auto
  show ?thesis
  proof (cases "lower = 0")
    case False
    then have "lower = 32" using assms(2) by simp
    then show ?thesis by (simp add: t(1))
  qed (simp add: t(2))
qed

text \<open>The loops produce the digits that \<open>itoa\<close> of the kernel produces, for \<open>%X\<close> in upper case.\<close>

lemma fmt_u_digits: "fmt_u x s = digits 10 (unat x) @ s"
proof (induction x s rule: fmt_u.induct)
  case (1 x s)
  show ?case
  proof (cases "x = 0")
    case False
    have "(0x30 + ucast (x mod 10) :: u8) = digit_char (of_nat (unat x mod 10))"
      by (rule decimal_char) (simp_all add: unat_mod)
    then show ?thesis
      using False 1 by (simp add: fmt_u.simps [of x s] digits.simps [of 10 "unat x"] unat_div unat_eq_0)
  qed (simp add: fmt_u.simps digits.simps)
qed

lemma fmt_o_digits: "fmt_o x s = digits 8 (unat x) @ s"
proof (induction x s rule: fmt_o.induct)
  case (1 x s)
  show ?case
  proof (cases "x = 0")
    case False
    have "(0x30 + ucast (x AND 7) :: u8) = digit_char (of_nat (unat x mod 8))"
      by (rule decimal_char) (simp_all add: unsigned_and_eq and_7_nat order.strict_trans [OF mod_less_divisor])
    then show ?thesis
      using False 1 by (simp add: fmt_o.simps [of x s] digits.simps [of 8 "unat x"] drop_bit_eq_div unat_div unat_eq_0)
  qed (simp add: fmt_o.simps digits.simps)
qed

lemma and_15_nat: "(n :: nat) AND 15 = n mod 16"
  using take_bit_eq_mask [of 4 n] by (simp add: take_bit_eq_mod mask_eq_exp_minus_1)

lemma fmt_x_digits:
  "lower = 0 \<or> lower = 32 \<Longrightarrow> fmt_x x s lower = map (if lower = 0 then upcase else id) (digits 16 (unat x)) @ s"
proof (induction x s lower rule: fmt_x.induct)
  case (1 x s lower)
  show ?case
  proof (cases "x = 0")
    case False
    have m: "unat (x AND 15) = unat x mod 16"
      by (simp add: unsigned_and_eq and_15_nat)
    have "xdigits ! unat (x AND 15) OR lower = (if lower = 0 then upcase else id) (digit_char (of_nat (unat x mod 16)))"
      unfolding m by (rule hex_char) (simp_all add: 1(2))
    then show ?thesis
      using False 1 by (simp add: fmt_x.simps [of x s] digits.simps [of 16 "unat x"] drop_bit_eq_div unat_div unat_eq_0)
  qed (simp add: fmt_x.simps digits.simps)
qed

lemma digits_64: "length (digits 10 (unat (x :: u64))) \<le> 20" "length (digits 8 (unat x)) \<le> 22" "length (digits 16 (unat x)) \<le> 16"
  by (rule digits_bound; use unat64_lt [of x] in simp)+

section \<open>Properties\<close>

text \<open>The size of \<open>buf\<close> in \<open>printf_core\<close>, with 8 bytes in a \<open>uintmax_t\<close> and 64 bits in the mantissa of a \<open>long double\<close>.\<close>

definition buf_bytes :: nat where
  "buf_bytes = 8 * 3 + 3 + 64 div 4"

lemma fmt_x_length: "length (fmt_x x s lower) = length (digits 16 (unat x)) + length s"
proof (induction x s lower rule: fmt_x.induct)
  case (1 x s lower)
  then show ?case
    by (cases "x = 0") (simp add: fmt_x.simps [of 0] digits.simps [of 16 0],
      simp add: fmt_x.simps [of x s] digits.simps [of 16 "unat x"] drop_bit_eq_div unat_div unat_eq_0)
qed

text \<open>
  C38: The digits that the number conversions write from the end of \<open>buf\<close> towards its start stay inside it, for
  every value and base, and reading them back gives the value.
\<close>

theorem number_buffer:
  "length (fmt_x x [] lower) \<le> buf_bytes \<and> length (fmt_o x []) \<le> buf_bytes \<and> length (fmt_u x []) \<le> buf_bytes
    \<and> read_digits 16 (fmt_x x [] 32) = unat x \<and> read_digits 8 (fmt_o x []) = unat x \<and> read_digits 10 (fmt_u x []) = unat x"
  using digits_64 [of x] read_digits_digits [of 16 "unat x"] read_digits_digits [of 8 "unat x"] read_digits_digits [of 10 "unat x"]
  by (simp add: buf_bytes_def fmt_x_length fmt_x_digits fmt_o_digits fmt_u_digits)

text \<open>The entries of the table, by the kind of argument they stand for.\<close>

definition kind_ok :: "arg_type \<Rightarrow> u8 \<Rightarrow> bool" where
  "kind_ok st c \<longleftrightarrow> (st = DBL \<or> st = LDBL) = is_in c ''efgaEFGA'' \<and> (st = NOARG) = is_in c ''m''"

lemma states_kinds:
  "list_all (\<lambda>row. list_all (\<lambda>(cs, st). is_prefix st \<or> list_all (\<lambda>c. kind_ok st (of_char c)) cs) row)
     (map states [BARE, LPRE, LLPRE, HPRE, HHPRE, BIGLPRE, ZTPRE, JPRE])"
  by code_simp

lemma entry_of_in: "entry_of row c = st \<Longrightarrow> st \<noteq> BARE \<Longrightarrow> \<exists>cs. (cs, st) \<in> set row \<and> is_in c cs"
  by (induction row c rule: entry_of.induct) (auto split: if_splits)

lemma entry_table:
  assumes "list_all (\<lambda>row. list_all (\<lambda>(cs, st). is_prefix st \<or> list_all (\<lambda>c. P st (of_char c)) cs) row)
      (map states [BARE, LPRE, LLPRE, HPRE, HHPRE, BIGLPRE, ZTPRE, JPRE])"
    and "entry_of (states st) c = st'" "st' \<noteq> BARE" "\<not> is_prefix st'"
  shows "P st' c"
proof -
  obtain cs where cs: "(cs, st') \<in> set (states st)" "is_in c cs" using entry_of_in [OF assms(2,3)] by blast
  then have "states st \<noteq> []" by auto
  then have "states st \<in> set (map states [BARE, LPRE, LLPRE, HPRE, HHPRE, BIGLPRE, ZTPRE, JPRE])"
    by (cases st) (simp_all only: list.set_map list.set(1) states.simps, auto)
  then have "list_all (\<lambda>c. P st' (of_char c)) cs" using assms(1,4) cs(1) unfolding list_all_iff by fastforce
  then show ?thesis using cs(2) by (auto simp: is_in_def list_all_iff)
qed

lemmas entry_kind = entry_table [OF states_kinds]

lemma read_type_kind:
  "read_type st fmt = Some (ps, st', c, r) \<Longrightarrow> st' \<noteq> BARE \<and> \<not> is_prefix st' \<and> entry_of (states ps) c = st'"
  by (induction st fmt rule: read_type.induct) (auto simp: Let_def split: if_splits)

text \<open>
  C39: The argument that is popped for a directive is of the kind that its conversion reads: a floating point
  value for e, f, g and a in either case, nothing for m, and an integer or pointer for every other conversion
  that the table accepts.
\<close>

theorem popped_type:
  assumes "read_type BARE fmt = Some (ps, st, c, r)" "pop_arg None st as = Some (arg, as')"
  shows "if is_in c ''efgaEFGA'' then \<exists>y. arg = Some (Arg_f y) else if is_in c ''m'' then arg = None else \<exists>i. arg = Some (Arg_i i)"
  using entry_kind [of ps c st] read_type_kind [OF assms(1)] assms(2) by (auto simp: kind_ok_def pop_arg_def split: if_splits)

theorem popped_type_witness:
  "\<exists>i. fst (the (pop_arg None ULONG [C_int 5, C_double ()])) = Some (Arg_i i)"
proof -
  have r: "read_type BARE [0x6c, 0x75] = Some (LPRE, ULONG, 0x75, [])" by (simp add: is_in_def out_of_table_def Let_def)
  have p: "pop_arg None ULONG [C_int 5, C_double ()] = Some (Some (Arg_i 5), [C_double ()])" by (simp add: pop_arg_def)
  show ?thesis using popped_type [OF r p] p by (simp add: is_in_def)
qed

end
