(* ===== verification/Printf_Safety.thy ===== *)
theory Printf_Safety
  imports Printf_Text
begin

text \<open>
  Memory safety of formatted output. The arguments that a format takes are a list of slots, read off the format
  alone. When the arguments fit the slots, \<open>vsnprintf\<close> returns, whatever else the format contains; it changes
  nothing but its destination and what \<open>%n\<close> stores to, and the destination contains a NUL.
\<close>

section \<open>The arguments that a format takes\<close>

text \<open>
  A slot is the number for an asterisk or the argument of a conversion, with its length modifier. Formats with
  numbered arguments, floating point conversions and wide strings have no slots here.
\<close>

datatype slot = Star | Conv arg_type u8

definition width_slots :: "u8 list \<Rightarrow> (slot list \<times> u8 list) option" where
  "width_slots fmt =
     (if at fmt 0 = 0x2a then (if positional (drop 1 fmt) then None else Some ([Star], drop 1 fmt))
      else Some ([], snd (getint fmt)))"

definition precision_slots :: "u8 list \<Rightarrow> (slot list \<times> u8 list) option" where
  "precision_slots fmt =
     (if at fmt 0 = 0x2e \<and> at fmt 1 = 0x2a then (if positional (drop 2 fmt) then None else Some ([Star], drop 2 fmt))
      else if at fmt 0 = 0x2e then Some ([], snd (getint (drop 1 fmt)))
      else Some ([], fmt))"

definition plain_conversion :: "arg_type \<Rightarrow> u8 \<Rightarrow> bool" where
  "plain_conversion ps c \<longleftrightarrow> \<not> is_in c ''efgaEFGAS'' \<and> (is_in c ''s'' \<longrightarrow> ps = BARE)"

text \<open>The slots of a directive and the rest of the format, which is missing when the directive is refused.\<close>

definition directive_slots :: "u8 list \<Rightarrow> (slot list \<times> u8 list option) option" where
  "directive_slots fmt =
     (case width_slots (snd (read_flags 0 fmt)) of
        None \<Rightarrow> None
      | Some (ws, fmt) \<Rightarrow>
          (case precision_slots fmt of
             None \<Rightarrow> None
           | Some (qs, fmt) \<Rightarrow>
               (case read_type BARE fmt of
                  None \<Rightarrow> Some (ws @ qs, None)
                | Some (ps, st, c, fmt) \<Rightarrow>
                    if plain_conversion ps c then Some (ws @ qs @ (if st = NOARG then [] else [Conv ps c]), Some fmt) else None)))"

lemma width_slots_length: "width_slots fmt = Some (ws, r) \<Longrightarrow> length r \<le> length fmt"
  using getint_loop_length [of 0 fmt] by (cases "getint fmt") (auto simp: width_slots_def getint_def split: if_splits)

lemma precision_slots_length: "precision_slots fmt = Some (qs, r) \<Longrightarrow> length r \<le> length fmt"
  using getint_loop_length [of 0 "drop 1 fmt"]
  by (cases "getint (drop 1 fmt)") (auto simp: precision_slots_def getint_def split: if_splits)

lemma directive_slots_length: "directive_slots fmt = Some (ks, Some r) \<Longrightarrow> length r < length fmt"
  using read_flags_length [of 0 fmt]
  by (cases "read_flags 0 fmt")
    (fastforce simp: directive_slots_def split: option.splits if_splits prod.splits
       dest: width_slots_length precision_slots_length read_type_length)

function format_slots :: "u8 list \<Rightarrow> slot list option" where
  "format_slots fmt =
     (if fmt = [] then Some []
      else if fst (literal fmt) \<noteq> [] then format_slots (snd (literal fmt))
      else if positional (drop 1 (snd (literal fmt))) then None
      else (case directive_slots (drop 1 (snd (literal fmt))) of
              None \<Rightarrow> None
            | Some (ks, None) \<Rightarrow> Some ks
            | Some (ks, Some r) \<Rightarrow> map_option (append ks) (format_slots r)))"
  by auto
termination
proof (relation "measure length", goal_cases)
  case (2 fmt)
  then show ?case using literal_shorter [of fmt "fst (literal fmt)" "snd (literal fmt)"] by simp
next
  case (3 fmt a ks r r')
  then have "length r' < length (drop 1 (snd (literal fmt)))" by (intro directive_slots_length [of _ ks]) simp
  then show ?case using literal_length [of fmt "fst (literal fmt)" "snd (literal fmt)"] by simp
qed simp

declare format_slots.simps [simp del]

text \<open>
  An argument fits a slot when it is an integer or a pointer; a width of \<open>INT_MIN\<close> cannot be negated, and
  what \<open>%n\<close> stores to has to be a target.
\<close>

fun fits :: "(arg_type \<Rightarrow> u64 \<Rightarrow> bool) \<Rightarrow> slot \<Rightarrow> 'f c_arg \<Rightarrow> bool" where
  "fits target Star (C_int x) \<longleftrightarrow> to_int x \<noteq> - INT_MAX - 1"
| "fits target (Conv ps c) (C_int x) \<longleftrightarrow> (is_in c ''n'' \<longrightarrow> target ps x)"
| "fits target _ _ \<longleftrightarrow> False"

fun suits :: "(arg_type \<Rightarrow> u64 \<Rightarrow> bool) \<Rightarrow> slot list \<Rightarrow> 'f args \<Rightarrow> bool" where
  "suits target [] as \<longleftrightarrow> True"
| "suits target (k # ks) [] \<longleftrightarrow> False"
| "suits target (k # ks) (a # as) \<longleftrightarrow> fits target k a \<and> suits target ks as"

definition well_typed :: "slot list \<Rightarrow> 'f args \<Rightarrow> bool" where
  "well_typed ks as \<longleftrightarrow> suits (\<lambda>_ _. True) ks as"

text \<open>The number of bytes that \<open>%n\<close> stores, and all the bytes that the directives of a format store to.\<close>

fun count_bytes :: "arg_type \<Rightarrow> nat" where
  "count_bytes BARE = 4"
| "count_bytes LPRE = 8"
| "count_bytes LLPRE = 8"
| "count_bytes HPRE = 2"
| "count_bytes HHPRE = 1"
| "count_bytes ZTPRE = 8"
| "count_bytes JPRE = 8"
| "count_bytes _ = 0"

definition count_targets :: "slot list \<Rightarrow> 'f args \<Rightarrow> u64 set" where
  "count_targets ks as = {a. \<exists>ps c x. (Conv ps c, C_int x) \<in> set (zip ks as) \<and> is_in c ''n'' \<and> in_range x (count_bytes ps) a}"

lemma store_count_other: "\<not> in_range x (count_bytes ps) a \<Longrightarrow> store_count ps m x n a = m a"
  by (cases ps) (auto intro!: store_le_other simp del: store_le.simps)

lemma suits_targets:
  assumes "well_typed ks as" "\<And>ps c x. (Conv ps c, C_int x) \<in> set (zip ks as) \<Longrightarrow> is_in c ''n'' \<Longrightarrow> target ps x"
  shows "suits target ks as"
  using assms
proof (induction ks arbitrary: as)
  case (Cons k ks)
  obtain a bs where as: "as = a # bs" using Cons.prems(1) by (cases as) (auto simp: well_typed_def)
  have "suits target ks bs" by (rule Cons.IH) (use Cons.prems as in \<open>auto simp: well_typed_def\<close>)
  then show ?case using Cons.prems as by (cases k; cases a) (auto simp: well_typed_def)
qed simp

lemma suits_Star: "suits t (Star # ks) as \<Longrightarrow> \<exists>x r. as = C_int x # r \<and> to_int x \<noteq> - INT_MAX - 1 \<and> suits t ks r"
  by (cases as; cases "hd as") auto

lemma suits_Conv: "suits t (Conv ps c # ks) as \<Longrightarrow> \<exists>x r. as = C_int x # r \<and> (is_in c ''n'' \<longrightarrow> t ps x) \<and> suits t ks r"
  by (cases as; cases "hd as") auto

text \<open>The letters that the table accepts; the pointer of \<open>%n\<close> is taken as it is.\<close>

definition letter_ok :: "arg_type \<Rightarrow> u8 \<Rightarrow> bool" where
  "letter_ok st c \<longleftrightarrow> is_in c ''diouxXefgaEFGAcCsSpnm'' \<and> (is_in c ''n'' \<longrightarrow> st = PTR)"

lemma states_letters:
  "list_all (\<lambda>row. list_all (\<lambda>(cs, st). is_prefix st \<or> list_all (\<lambda>c. letter_ok st (of_char c)) cs) row)
     (map states [BARE, LPRE, LLPRE, HPRE, HHPRE, BIGLPRE, ZTPRE, JPRE])"
  by code_simp

lemmas entry_letter = entry_table [OF states_letters]

section \<open>The parts of a directive\<close>

text \<open>The precision of a directive is an \<open>int\<close>.\<close>

lemma to_int_le: "to_int x \<le> INT_MAX"
  using sint_lt [of "ucast x :: u32"] by (simp add: to_int_def INT_MAX_def)

lemma getint_loop_le: "getint_loop i s = (n, r) \<Longrightarrow> i \<le> INT_MAX \<Longrightarrow> n \<le> INT_MAX"
proof (induction i s rule: getint_loop.induct)
  case (2 i c s)
  have "(if i mod 2 ^ 32 > INT_MAX div 10 \<or> int (digit c) > INT_MAX - 10 * i then - 1 else 10 * i + int (digit c)) \<le> INT_MAX"
    using INT_MAX_def by (auto simp del: linorder_not_less)
  then show ?case using 2 by (cases "isdigit c") (simp_all only: getint_loop.simps if_True if_False prod.inject)
qed simp

lemma strnlen_le: "unat (strnlen m s n) \<le> unat n"
proof (cases "\<exists>j < unat n. m (s + of_nat j) = 0")
  case True
  then obtain j where j: "j < unat n" "m (s + of_nat j) = 0" by blast
  define L where "L = (LEAST j. m (s + of_nat j) = 0)"
  have "L \<le> j" unfolding L_def using j(2) by (rule Least_le)
  then have "unat (of_nat L :: u64) < unat n" using j(1) unat64_lt [of n] by (simp add: unat64_of_nat)
  then show ?thesis using True memchr_correct [of m s 0 n] by (auto simp: strnlen_def L_def Let_def)
next
  case False
  then have "memchr m s 0 n = NULL" unfolding memchr_correct by (intro if_not_P) auto
  then show ?thesis by (simp add: strnlen_def)
qed

lemma string_field_length:
  assumes "string_field m a p fl = Some x" "p \<le> INT_MAX"
  shows "length (body x) < 2 ^ 31"
proof -
  define n where "n = nat (if p < 0 then INT_MAX else p)"
  have n: "n < 2 ^ 31" using assms(2) by (simp add: n_def INT_MAX_def nat_less_iff)
  then have "unat (strnlen m a (of_nat n)) < 2 ^ 31" using strnlen_le [of m a "of_nat n"] by (simp add: unat64_of_nat)
  then show ?thesis using assms(1) n unfolding string_field_def n_def [symmetric]
    by (auto simp: Let_def bytes_at_def split: if_splits)
qed

text \<open>The prefix and the digits of a number are short.\<close>

lemma int_field_parts:
  "int_field i pre a xp p fl = Some x \<Longrightarrow> fprefix x = pre \<and> (body x = a \<or> body x = [])"
  by (auto simp: int_field_def Let_def split: if_splits)

lemma prefixes_length: "length prefixes = 9"
  by (simp add: prefixes_def)

lemma number_fields_length:
  "hex_field t i xp p fl = Some x \<Longrightarrow> length (fprefix x) \<le> 9 \<and> length (body x) \<le> 22"
  "octal_field i xp p fl = Some x \<Longrightarrow> length (fprefix x) \<le> 9 \<and> length (body x) \<le> 22"
  "signed_field i xp p fl = Some x \<Longrightarrow> length (fprefix x) \<le> 9 \<and> length (body x) \<le> 22"
  "unsigned_field i xp p fl = Some x \<Longrightarrow> length (fprefix x) \<le> 9 \<and> length (body x) \<le> 22"
  using digits_64 [of i] digits_64(1) [of "- i"] prefixes_length
  by (auto simp: hex_field_def octal_field_def signed_field_def unsigned_field_def fmt_x_length fmt_o_digits fmt_u_digits Let_def
      dest!: int_field_parts split: if_splits)

section \<open>A stream that keeps its contract\<close>

text \<open>Pieces written one after the other.\<close>

definition outs :: "'k os \<Rightarrow> u8 list list \<Rightarrow> 'k stream \<Rightarrow> 'k stream option" where
  "outs os xs fw = foldl (\<lambda>r x. Option.bind r (out os x)) (Some fw) xs"

lemma outs_simps [simp]: "outs os [] fw = Some fw" "outs os (x # xs) fw = Option.bind (out os x fw) (outs os xs)"
proof -
  have none: "foldl (\<lambda>r x. Option.bind r (out os x)) None xs = None" for xs :: "u8 list list"
    by (induction xs) simp_all
  show "outs os [] fw = Some fw" "outs os (x # xs) fw = Option.bind (out os x fw) (outs os xs)"
    by (cases "out os x fw"; simp add: outs_def none)+
qed

locale formatted_stream = output_stream os own holds
  for os :: "'k os" and own :: "u64 \<Rightarrow> bool" and holds :: "u8 list \<Rightarrow> 'k stream \<Rightarrow> bool" +
  fixes target :: "arg_type \<Rightarrow> u64 \<Rightarrow> bool"
  assumes count_store: "holds bs (f, w) \<Longrightarrow> target ps x \<Longrightarrow> holds bs (f, w\<lparr>user_mem := store_count ps (user_mem w) x n\<rparr>)"
begin

definition live :: "('f, 'k) printf_state \<Rightarrow> bool" where
  "live s \<longleftrightarrow> (\<exists>bs. holds bs (strm s)) \<and> 0 \<le> cnt s \<and> 0 \<le> outlen s \<and> \<not> l10n s"

text \<open>The step is defined; if it goes on, then with \<open>P\<close>, and if it returns, the stream is still in order.\<close>

definition goes :: "('a, ('f, 'k) printf_state) flow \<Rightarrow> ('a \<Rightarrow> ('f, 'k) printf_state \<Rightarrow> bool) \<Rightarrow> bool" where
  "goes r P \<longleftrightarrow> (case r of Next x s \<Rightarrow> P x s | Return v s \<Rightarrow> \<exists>bs. holds bs (strm s) | Undef \<Rightarrow> False)"

lemma goes_simps [simp]:
  "goes (Next x s) P \<longleftrightarrow> P x s" "goes (Return v s) P \<longleftrightarrow> (\<exists>bs. holds bs (strm s))" "\<not> goes Undef P"
  by (simp_all add: goes_def)

lemma goes_andthen: "goes r P \<Longrightarrow> (\<And>x s. P x s \<Longrightarrow> goes (k x s) Q) \<Longrightarrow> goes (andthen r k) Q"
  by (cases r) auto

lemma goes_errno: "live s \<Longrightarrow> goes (Return v (set_errno e s)) P"
  using errno_apart by (cases "strm s") (fastforce simp: live_def set_errno_def)

lemma goes_refused: "live s \<Longrightarrow> goes (inval s) P" "live s \<Longrightarrow> goes (overflow s) P"
  unfolding inval_def overflow_def by (rule goes_errno, assumption)+

lemma live_ap [simp]: "live (s\<lparr>ap := r\<rparr>) = live s"
  by (simp add: live_def)

lemma goes_ap_int:
  assumes "live s" "suits target (Star # ks) (ap s)"
  shows "goes (ap_int True s) (\<lambda>w s'. live s' \<and> suits target ks (ap s') \<and> w \<noteq> - INT_MAX - 1 \<and> w \<le> INT_MAX)"
  using suits_Star [OF assms(2)] assms(1) to_int_le by (auto simp: ap_int_def)

lemma goes_read_width:
  assumes "live s" "width_slots fmt = Some (ws, r)" "suits target (ws @ ks) (ap s)"
  shows "goes (read_width True fl fmt s) (\<lambda>(fl', w, r') s'. r' = r \<and> live s' \<and> suits target ks (ap s'))"
proof (cases "at fmt 0 = 0x2a")
  case True
  then have w: "\<not> positional (drop 1 fmt)" "ws = [Star]" "r = drop 1 fmt" using assms(2) by (auto simp: width_slots_def split: if_splits)
  have l: "\<not> l10n s" using assms(1) by (simp add: live_def)
  have "goes (andthen (ap_int True s) (\<lambda>w s. Next (w, drop 1 fmt) s))
      (\<lambda>(w, r') s'. r' = r \<and> live s' \<and> suits target ks (ap s') \<and> w \<noteq> - INT_MAX - 1)"
    by (rule goes_andthen [OF goes_ap_int]) (use assms w in auto)
  then have "goes (andthen (andthen (ap_int True s) (\<lambda>w s. Next (w, drop 1 fmt) s))
      (\<lambda>(w, fmt) s. if w = - INT_MAX - 1 then Undef else if w < 0 then Next (fl OR LEFT_ADJ, - w, fmt) s else Next (fl, w, fmt) s))
      (\<lambda>(fl', w, r') s'. r' = r \<and> live s' \<and> suits target ks (ap s'))"
    by (rule goes_andthen) auto
  then show ?thesis using True w(1) l by (simp add: read_width_def)
next
  case False
  then have "ws = []" "r = snd (getint fmt)" using assms(2) by (simp_all add: width_slots_def)
  then show ?thesis using False assms(1,3) by (cases "getint fmt") (auto simp: read_width_def intro: goes_refused(2))
qed

lemma goes_read_precision:
  assumes "live s" "precision_slots fmt = Some (qs, r)" "suits target (qs @ ks) (ap s)"
  shows "goes (read_precision True fmt s) (\<lambda>(p, xp, r') s'. r' = r \<and> live s' \<and> suits target ks (ap s') \<and> p \<le> INT_MAX)"
proof (cases "at fmt 0 = 0x2e \<and> at fmt 1 = 0x2a")
  case True
  then have w: "\<not> positional (drop 2 fmt)" "qs = [Star]" "r = drop 2 fmt" using assms(2) by (auto simp: precision_slots_def split: if_splits)
  have l: "\<not> l10n s" using assms(1) by (simp add: live_def)
  have "goes (andthen (andthen (ap_int True s) (\<lambda>p s. Next (p, drop 2 fmt) s)) (\<lambda>(p, fmt) s. Next (p, p \<ge> 0, fmt) s))
      (\<lambda>(p, xp, r') s'. r' = r \<and> live s' \<and> suits target ks (ap s') \<and> p \<le> INT_MAX)"
    by (rule goes_andthen [OF goes_andthen [OF goes_ap_int]]) (use assms w in auto)
  then show ?thesis using True w(1) l by (simp add: read_precision_def)
next
  case False
  have "fst (getint (drop 1 fmt)) \<le> INT_MAX"
    using getint_loop_le [of 0 "drop 1 fmt"] by (cases "getint (drop 1 fmt)") (simp add: getint_def INT_MAX_def)
  then show ?thesis using False assms
    by (cases "getint (drop 1 fmt)") (auto simp: read_precision_def precision_slots_def INT_MAX_def)
qed

end

text \<open>The character that selects the conversion is the one of the format, or that of a wide character.\<close>

lemma plain_letter:
  assumes "plain_conversion ps c" "letter_ok st c"
  shows "is_in (if ps \<noteq> BARE \<and> c AND 15 = 3 then c AND NOT 32 else c) ''diouxXcCspm'' \<or> is_in c ''n'' \<and> \<not> c AND 15 = 3"
  using assms by (auto simp: plain_conversion_def letter_ok_def is_in_def)

text \<open>A wide character has the same bytes in both loops.\<close>

lemma wide_char_length:
  "wide_length mb m (wide_char i) (- 1) 0 0 =
     (if (ucast i :: u32) = 0 then Some 0 else map_option (\<lambda>bs. of_nat (length bs)) (wc_bytes mb (ucast i)))"
proof -
  have gt: "(0 :: u64) < - 1" by (simp only: word_gt_0) simp
  show ?thesis
  proof (cases "wc_bytes mb (ucast i)")
    case (Some bs)
    have "unat (of_nat (length bs) :: u64) = length bs" using wc_bytes_length [OF Some] by (intro unat64_of_nat) simp
    then have "(of_nat (length bs) :: u64) \<le> - 1" by simp
    then show ?thesis
      using Some gt by (simp add: wide_length.simps [of mb m "wide_char i" "- 1" 0 0] wide_length.simps [of mb m "wide_char i" "- 1" "Suc 0"] wide_char_def)
  qed (use gt in \<open>simp add: wide_length.simps [of mb m "wide_char i" "- 1" 0 0] wide_char_def\<close>)
qed

lemma wide_char_out:
  "wide_out mb os (wide_char i) 0 0 0 fw = Some fw"
  "wc_bytes mb (ucast i) = Some bs \<Longrightarrow> (ucast i :: u32) \<noteq> 0 \<Longrightarrow> wide_out mb os (wide_char i) (length bs) 0 0 fw = out os bs fw"
proof -
  show "wide_out mb os (wide_char i) 0 0 0 fw = Some fw" by (simp add: wide_out.simps)
  assume bs: "wc_bytes mb (ucast i) = Some bs" "(ucast i :: u32) \<noteq> 0"
  have end_: "wide_out mb os (wide_char i) (length bs) (Suc 0) (length bs) fw = Some fw" for fw
    by (simp add: wide_out.simps [of mb os "wide_char i" "length bs" "Suc 0"])
  have "Option.bind (out os bs fw) (wide_out mb os (wide_char i) (length bs) (Suc 0) (length bs)) = out os bs fw"
    by (cases "out os bs fw") (simp_all add: end_)
  then show "wide_out mb os (wide_char i) (length bs) 0 0 fw = out os bs fw"
    using bs wc_bytes_length [OF bs(1)] by (simp add: wide_out.simps [of mb os "wide_char i" "length bs" 0 0] wide_char_def Let_def)
qed

context formatted_stream
begin

definition unread :: "('f, 'k) printf_state \<Rightarrow> 'a \<Rightarrow> ('f, 'k) printf_state \<Rightarrow> bool" where
  "unread s _ s' \<longleftrightarrow> live s' \<and> ap s' = ap s"

lemma goes_emit_field:
  assumes "live s" "length (fprefix x) < 2 ^ 31" "length (body x) < 2 ^ 31"
  shows "goes (emit_field os w x s) (unread s)"
proof -
  obtain bs where bs: "holds bs (strm s)" using assms(1) by (auto simp: live_def)
  have p: "(if fprec x < int (length (body x)) then int (length (body x)) else fprec x) = field_prec x"
    by (simp add: field_prec_def max_def)
  have w: "(if w < int (length (fprefix x)) + field_prec x then int (length (fprefix x)) + field_prec x else w) = field_width w x"
    by (simp add: field_width_def max_def)
  show ?thesis
  proof (cases "int (length (fprefix x)) + field_prec x \<le> INT_MAX \<and> field_width w x \<le> INT_MAX - cnt s")
    case True
    then obtain fw where fw: "emit_field os w x s = Next () (s\<lparr>strm := fw, outlen := field_width w x\<rparr>)"
      "holds (bs @ field_text w x) fw" using emit_field_wrote [OF bs assms(2,3)] by blast
    have "0 \<le> field_width w x" by (simp add: field_width_def field_prec_def)
    then show ?thesis using fw assms(1) by (auto simp: unread_def live_def)
  next
    case False
    then have "emit_field os w x s = overflow s" unfolding emit_field_def Let_def p w by auto
    then show ?thesis using goes_refused(2) [OF assms(1)] by simp
  qed
qed

lemma goes_on_field:
  assumes "live s" "os_calls e = os" "\<And>x. r = Some x \<Longrightarrow> length (fprefix x) < 2 ^ 31 \<and> length (body x) < 2 ^ 31"
  shows "goes (on_field e w r s) (unread s)"
  using assms goes_refused(2) [OF assms(1)] goes_emit_field [OF assms(1)] by (auto simp: on_field_def split: option.splits)

lemma goes_number:
  assumes "live s" "os_calls e = os"
  shows "goes (on_field e w (hex_field t i xp p fl) s) (unread s)" "goes (on_field e w (octal_field i xp p fl) s) (unread s)"
    "goes (on_field e w (signed_field i xp p fl) s) (unread s)" "goes (on_field e w (unsigned_field i xp p fl) s) (unread s)"
    "goes (on_field e w (ptr_field i xp p fl) s) (unread s)" "goes (on_field e w (Some (char_field i fl)) s) (unread s)"
  by (rule goes_on_field [OF assms]; use number_fields_length in \<open>fastforce simp: ptr_field_def char_field_def\<close>)+

lemma goes_string: "live s \<Longrightarrow> os_calls e = os \<Longrightarrow> p \<le> INT_MAX \<Longrightarrow> goes (on_field e w (string_field m a p fl) s) (unread s)"
  by (rule goes_on_field; use string_field_length in \<open>fastforce simp: string_field_def Let_def split: if_splits prod.splits\<close>)

lemma goes_wide_char:
  assumes "live s" "os_calls e = os"
  shows "goes (wide_field e (wide_char i) w (- 1) fl s) (unread s)"
proof (cases "wide_length (mb_cur_max e) (user_mem (snd (strm s))) (wide_char i) (- 1) 0 0")
  case (Some n)
  obtain bs where bs: "holds bs (strm s)" using assms(1) by (auto simp: live_def)
  obtain x where x: "n = of_nat (length x)" "length x \<le> 4"
      "\<And>fw. wide_out (mb_cur_max e) os (wide_char i) (length x) 0 0 fw = (if x = [] then Some fw else out os x fw)"
  proof (cases "(ucast i :: u32) = 0")
    case True
    then show ?thesis using that [of "[]"] Some by (simp add: wide_char_length wide_char_out(1))
  next
    case False
    then obtain x where x: "wc_bytes (mb_cur_max e) (ucast i) = Some x" "n = of_nat (length x)"
      using Some by (auto simp: wide_char_length)
    then show ?thesis using that [of x] wide_char_out(2) [OF x(1) False] wc_bytes_length [OF x(1)] by auto
  qed
  have "unat n = length x" using x(1,2) by (simp add: unat64_of_nat)
  then have u: "uint n = int (length x)" by (metis uint_nat)
  have o: "wrote fw bs' x (if x = [] then Some fw else out os x fw)" if "holds bs' fw" for fw bs'
    using out_wrote [OF that, of x] wrote_nothing [OF that] x(2) by auto
  have "wrote (strm s) bs (pad_text 0x20 w (int (length x)) fl @ x @ pad_text 0x20 w (int (length x)) (fl XOR LEFT_ADJ)) (do {
      fw \<leftarrow> pad os 0x20 w (int (length x)) fl (strm s); fw \<leftarrow> (if x = [] then Some fw else out os x fw);
      pad os 0x20 w (int (length x)) (fl XOR LEFT_ADJ) fw })"
    by (intro wrote_bind pad_wrote o bs) assumption+
  then obtain fw where "do {
      fw \<leftarrow> pad os 0x20 w (int (length x)) fl (strm s); fw \<leftarrow> (if x = [] then Some fw else out os x fw);
      pad os 0x20 w (int (length x)) (fl XOR LEFT_ADJ) fw } = Some fw" "\<exists>bs. holds bs fw" by (auto simp: wrote_def)
  then have "wide_field e (wide_char i) w (- 1) fl s = Next () (s\<lparr>strm := fw, outlen := (if w > int (length x) then w else int (length x))\<rparr>)"
    using Some x assms(2) u unfolding wide_field_def by (simp add: Let_def on_strm_def INT_MAX_def)
  then show ?thesis using assms(1) \<open>\<exists>bs. holds bs fw\<close> by (auto simp: unread_def live_def)
qed (use goes_errno [OF assms(1)] in \<open>simp add: wide_field_def\<close>)

lemma goes_convert:
  assumes "live s" "os_calls e = os" "p \<le> INT_MAX" "plain_conversion ps c" "letter_ok st c"
    and "is_in c ''m'' \<or> arg = Some (Arg_i i)" "is_in c ''n'' \<longrightarrow> target ps i"
  shows "goes (convert e c ps arg w p xp fl s) (unread s)"
proof -
  define t where "t = (if ps \<noteq> BARE \<and> c AND 15 = 3 then c AND NOT 32 else c)"
  have t: "is_in t ''diouxXcCspm'' \<or> is_in t ''n'' \<and> target ps i" "is_in c ''m'' \<longrightarrow> is_in t ''m''"
    using plain_letter [OF assms(4,5)] assms(7) by (auto simp: t_def is_in_def)
  have fp: "\<not> is_in t ''efgaEFGA''" using t(1) by (auto simp: is_in_def)
  have store: "live (s\<lparr>strm := (fst (strm s), (snd (strm s))\<lparr>user_mem := store_count ps (user_mem (snd (strm s))) i (cnt s)\<rparr>)\<rparr>)"
    if "target ps i"
    using assms(1) count_store [OF _ that] by (cases "strm s") (fastforce simp: live_def)
  have "goes (convert_int e t ps i w p xp fl s) (unread s)" if "\<not> is_in t ''m''" for fl
  proof -
    have n: "is_in t ''n'' \<Longrightarrow> target ps i" using t(1) by (auto simp: is_in_def)
    have last: "is_in t ''n'' \<or> is_in t ''p'' \<or> is_in t ''xX'' \<or> is_in t ''o'' \<or> is_in t ''di'' \<or> is_in t ''u'' \<or> is_in t ''c''
        \<or> is_in t ''s'' \<or> is_in t ''C''"
      using t(1) that by (auto simp: is_in_def)
    show ?thesis unfolding convert_int_def Let_def
      using last n store goes_number [OF assms(1,2)] goes_string [OF assms(1-3)] goes_wide_char [OF assms(1,2)]
      by (auto simp: unread_def split: if_splits)
  qed
  then show ?thesis
    using goes_string [OF assms(1-3)] fp t(2) assms(6) unfolding convert_def t_def [symmetric] Let_def by (auto split: if_splits)
qed

end

section \<open>The second pass\<close>

context formatted_stream
begin

lemma goes_get_arg:
  assumes "live s" "read_type BARE fmt = Some (ps, st, c, r)" "plain_conversion ps c"
    and "suits target ((if st = NOARG then [] else [Conv ps c]) @ ks) (ap s)"
  shows "goes (get_arg True (- 1) st s) (\<lambda>arg s'. live s' \<and> suits target ks (ap s') \<and> letter_ok st c
    \<and> (\<exists>i. (is_in c ''m'' \<or> arg = Some (Arg_i i)) \<and> (is_in c ''n'' \<longrightarrow> target ps i)))"
proof -
  note k = read_type_kind [OF assms(2)]
  have ok: "letter_ok st c" "kind_ok st c" using entry_letter [of ps c st] entry_kind [of ps c st] k by blast+
  show ?thesis
  proof (cases "st = NOARG")
    case True
    then have "is_in c ''m''" "\<not> is_in c ''n''" using ok by (auto simp: kind_ok_def letter_ok_def)
    then show ?thesis using True assms(1,4) ok(1) by (simp add: get_arg_def)
  next
    case False
    then obtain x r where x: "ap s = C_int x # r" "is_in c ''n'' \<longrightarrow> target ps x" "suits target ks r"
      using suits_Conv assms(4) by fastforce
    have "st \<noteq> DBL" "st \<noteq> LDBL" using ok(2) assms(3) by (auto simp: kind_ok_def plain_conversion_def is_in_def)
    then have "pop_arg None st (ap s) = Some (Some (Arg_i (slot_value st x)), r)" using False k x(1) by (simp add: pop_arg_def)
    moreover have "is_in c ''n'' \<longrightarrow> target ps (slot_value st x)" using x(2) ok(1) by (auto simp: letter_ok_def)
    ultimately show ?thesis using False assms(1) x(3) ok(1) by (auto simp: get_arg_def intro: exI [of _ "slot_value st x"])
  qed
qed

lemma goes_directive_body:
  fixes s :: "('f, 'k) printf_state"
  assumes "live s" "os_calls e = os" "directive_slots fmt = Some (ss, rest)"
    and "suits target (ss @ ks) (ap s)"
  shows "goes (directive_body e True (- 1) fmt s) (\<lambda>r s'. rest = Some r \<and> live s' \<and> suits target ks (ap s'))"
proof -
  obtain fl f1 where fl: "read_flags 0 fmt = (fl, f1)" by fastforce
  obtain ws f2 where ws: "width_slots f1 = Some (ws, f2)" using assms(3) fl by (auto simp: directive_slots_def split: option.splits)
  obtain qs f3 where qs: "precision_slots f2 = Some (qs, f3)" using assms(3) fl ws by (auto simp: directive_slots_def split: option.splits)
  define us where "us = (case read_type BARE f3 of None \<Rightarrow> [] | Some (ps, st, c, f4) \<Rightarrow> if st = NOARG then [] else [Conv ps c])"
  have ss: "ss = ws @ qs @ us" "rest = map_option (\<lambda>(ps, st, c, f4). f4) (read_type BARE f3)"
      "\<And>ps st c f4. read_type BARE f3 = Some (ps, st, c, f4) \<Longrightarrow> plain_conversion ps c"
    using assms(3) fl ws qs by (auto simp: directive_slots_def us_def split: option.splits if_splits)
  have body: "goes (case read_type BARE f3 of
           None \<Rightarrow> inval s
         | Some (ps, st, c, fmt) \<Rightarrow> andthen (get_arg True (- 1) st s) (\<lambda>arg s.
             if \<not> True then Next fmt s else andthen (convert e c ps arg w p xp fl s) (\<lambda>_ s. Next fmt s)))
      (\<lambda>r s'. rest = Some r \<and> live s' \<and> suits target ks (ap s'))"
    if "live s" "suits target (us @ ks) (ap s)" "p \<le> INT_MAX" for s :: "('f, 'k) printf_state" and w p xp fl
  proof (cases "read_type BARE f3")
    case None
    then show ?thesis using goes_refused(1) [OF that(1)] by simp
  next
    case (Some y)
    obtain ps st c f4 where y: "read_type BARE f3 = Some (ps, st, c, f4)" using Some by (cases y) auto
    have pl: "plain_conversion ps c" by (rule ss(3) [OF y])
    have "goes (andthen (get_arg True (- 1) st s) (\<lambda>arg s. andthen (convert e c ps arg w p xp fl s) (\<lambda>_ s. Next f4 s)))
        (\<lambda>r s'. rest = Some r \<and> live s' \<and> suits target ks (ap s'))"
    proof (rule goes_andthen [OF goes_get_arg [OF that(1) y pl]])
      show "suits target ((if st = NOARG then [] else [Conv ps c]) @ ks) (ap s)" using that(2) y by (simp add: us_def)
      fix arg :: "'f arg option" and s' :: "('f, 'k) printf_state"
      assume a: "live s' \<and> suits target ks (ap s') \<and> letter_ok st c
        \<and> (\<exists>i. (is_in c ''m'' \<or> arg = Some (Arg_i i)) \<and> (is_in c ''n'' \<longrightarrow> target ps i))"
      then obtain i where i: "is_in c ''m'' \<or> arg = Some (Arg_i i)" "is_in c ''n'' \<longrightarrow> target ps i" by blast
      have "goes (convert e c ps arg w p xp fl s') (unread s')"
        using a i by (intro goes_convert [OF _ assms(2) that(3) pl, of s' st]) auto
      then show "goes (andthen (convert e c ps arg w p xp fl s') (\<lambda>_ s. Next f4 s)) (\<lambda>r s'. rest = Some r \<and> live s' \<and> suits target ks (ap s'))"
        by (rule goes_andthen) (use a ss(2) y in \<open>simp add: unread_def\<close>)
    qed
    then show ?thesis using y by simp
  qed
  have w: "goes (read_width True fl f1 s) (\<lambda>(fl', w, r') s'. r' = f2 \<and> live s' \<and> suits target (qs @ us @ ks) (ap s'))"
    by (rule goes_read_width [OF assms(1) ws]) (use assms(4) ss(1) in simp)
  have q: "goes (read_precision True f2 s') (\<lambda>(p, xp, r') s'. r' = f3 \<and> live s' \<and> suits target (us @ ks) (ap s') \<and> p \<le> INT_MAX)"
    if "live s'" "suits target (qs @ us @ ks) (ap s')" for s' :: "('f, 'k) printf_state"
    by (rule goes_read_precision [OF that(1) qs]) (use that in simp)
  show ?thesis unfolding directive_body_def fl Let_def prod.case
    by (rule goes_andthen [OF w], clarify, rule goes_andthen [OF q], assumption+, clarify, rule body)
qed

lemma goes_round_body:
  assumes "live s" "os_calls e = os" "fmt \<noteq> []" "format_slots fmt = Some ks" "suits target ks (ap s)"
  shows "goes (round_body e True fmt s) (\<lambda>r s'. live s' \<and> (\<exists>ks'. format_slots r = Some ks' \<and> suits target ks' (ap s')))"
proof -
  obtain lt r where lit: "literal fmt = (lt, r)" by fastforce
  let ?s = "s\<lparr>outlen := int (length lt)\<rparr>"
  show ?thesis
  proof (cases "int (length lt) > INT_MAX - cnt s")
    case True
    then show ?thesis using goes_refused(2) [OF assms(1)] by (simp add: round_body_def lit)
  next
    case False
    have len: "length lt < 2 ^ 31" using False assms(1) by (simp add: live_def INT_MAX_def)
    have l: "live ?s" using assms(1) by (simp add: live_def)
    obtain bs where bs: "holds bs (strm s)" using assms(1) by (auto simp: live_def)
    obtain fw where fw: "out os lt (strm s) = Some fw" "holds (bs @ lt) fw" using out_wrote [OF bs len] by (auto simp: wrote_def)
    have l': "live (?s\<lparr>strm := fw\<rparr>)" using l fw(2) by (auto simp: live_def)
    show ?thesis
    proof (cases "lt = []")
      case True
      have p: "\<not> positional (drop 1 r)" using assms(3,4) lit True by (simp add: format_slots.simps [of fmt] split: if_splits)
      obtain ss rest where d: "directive_slots (drop 1 r) = Some (ss, rest)"
          "case rest of None \<Rightarrow> ks = ss | Some f \<Rightarrow> \<exists>k'. format_slots f = Some k' \<and> ks = ss @ k'"
        using assms(3,4) lit True p by (auto simp: format_slots.simps [of fmt] split: option.splits)
      define k' where "k' = drop (length ss) ks"
      have k': "ks = ss @ k'" "\<And>f. rest = Some f \<Longrightarrow> format_slots f = Some k'" using d(2) by (auto simp: k'_def split: option.splits)
      have "goes (directive_body e True (- 1) (drop 1 r) (?s\<lparr>strm := fw\<rparr>)) (\<lambda>f s'. rest = Some f \<and> live s' \<and> suits target k' (ap s'))"
        by (rule goes_directive_body [OF l' assms(2) d(1)]) (use assms(5) k' in simp)
      then have "goes (directive_step e True r (?s\<lparr>strm := fw\<rparr>)) (\<lambda>f s'. live s' \<and> (\<exists>ks'. format_slots f = Some ks' \<and> suits target ks' (ap s')))"
        unfolding directive_step_def using p k'(2) by (simp add: goes_def split: flow.splits)
      then show ?thesis using False True fw(1) assms(2) by (simp add: round_body_def lit on_strm_def)
    next
      case some: False
      then have "format_slots r = Some ks" using assms(3,4) lit by (simp add: format_slots.simps [of fmt])
      then show ?thesis using False some fw(1) assms(2,5) l' by (simp add: round_body_def lit on_strm_def)
    qed
  qed
qed

lemma second_pass:
  assumes "live s" "os_calls e = os" "format_slots fmt = Some ks" "suits target ks (ap s)"
  shows "\<exists>v s'. printf_core e True fmt s = Return v s' \<and> (\<exists>bs. holds bs (strm s'))"
  using assms
proof (induction fmt arbitrary: s ks rule: length_induct)
  case (1 fmt)
  let ?s = "s\<lparr>cnt := cnt s + outlen s\<rparr>"
  have l: "live ?s" using 1(2) by (simp add: live_def)
  consider (over) "outlen s > INT_MAX - cnt s" | (finish) "\<not> outlen s > INT_MAX - cnt s" "fmt = []"
    | (more) "\<not> outlen s > INT_MAX - cnt s" "fmt \<noteq> []" by blast
  then show ?case
  proof cases
    case over
    then show ?thesis using goes_refused(2) [OF 1(2)] by (auto simp: printf_core.simps [of e True fmt s] overflow_def)
  next
    case finish
    then have "printf_core e True fmt s = Return (cnt ?s) ?s" by (simp add: printf_core.simps [of e True "[]" s] finish_core_def)
    then show ?thesis using l by (auto simp: live_def)
  next
    case more
    have g: "goes (round_body e True fmt ?s) (\<lambda>r s'. live s' \<and> (\<exists>ks'. format_slots r = Some ks' \<and> suits target ks' (ap s')))"
      by (rule goes_round_body [OF l 1(3) more(2) 1(4)]) (use 1(5) in simp)
    show ?thesis
    proof (cases "round_body e True fmt ?s")
      case (Next r s')
      then obtain ks' where "live s'" "format_slots r = Some ks'" "suits target ks' (ap s')" using g by auto
      then show ?thesis using 1(1) round_body_length [OF Next] 1(3) more Next by (auto simp: printf_core.simps [of e True fmt s])
    qed (use g more in \<open>auto simp: printf_core.simps [of e True fmt s]\<close>)
  qed
qed

end

section \<open>The first pass\<close>

text \<open>The first pass leaves stream and arguments alone and ends at the first conversion that takes an argument.\<close>

definition untouched :: "'k stream \<Rightarrow> 'k stream \<Rightarrow> bool" where
  "untouched fw fw' \<longleftrightarrow> fst fw' = fst fw \<and> (\<exists>e. snd fw' = (snd fw)\<lparr>errno := e\<rparr>)"

definition unmoved :: "('f, 'k) printf_state \<Rightarrow> ('f, 'k) printf_state \<Rightarrow> bool" where
  "unmoved s s' \<longleftrightarrow> untouched (strm s) (strm s') \<and> ap s' = ap s \<and> \<not> l10n s'"

definition scans :: "('f, 'k) printf_state \<Rightarrow> ('a, ('f, 'k) printf_state) flow \<Rightarrow> ('a \<Rightarrow> bool) \<Rightarrow> bool" where
  "scans s r P \<longleftrightarrow> (case r of Next x s' \<Rightarrow> unmoved s s' \<and> P x | Return v s' \<Rightarrow> unmoved s s' | Undef \<Rightarrow> False)"

lemma scans_simps [simp]:
  "scans s (Next x s') P \<longleftrightarrow> unmoved s s' \<and> P x" "scans s (Return v s') P \<longleftrightarrow> unmoved s s'" "\<not> scans s Undef P"
  by (simp_all add: scans_def)

lemma unmoved_refl: "\<not> l10n s \<Longrightarrow> unmoved s s"
  by (auto simp: unmoved_def untouched_def intro: exI [of _ "errno (snd (strm s))"])

lemma unmoved_trans: "unmoved s t \<Longrightarrow> unmoved t u \<Longrightarrow> unmoved s u"
  by (auto simp: unmoved_def untouched_def)

lemma scans_from: "unmoved s t \<Longrightarrow> scans t r P \<Longrightarrow> scans s r P"
  using unmoved_trans [of s t] by (cases r) auto

lemma scans_andthen:
  assumes "scans s r P" "\<And>x t. unmoved s t \<Longrightarrow> P x \<Longrightarrow> scans t (k x t) Q"
  shows "scans s (andthen r k) Q"
  using assms by (cases r) (auto intro: scans_from)

lemma scans_refused: "\<not> l10n s \<Longrightarrow> scans s (inval s) P" "\<not> l10n s \<Longrightarrow> scans s (overflow s) P"
  by (auto simp: inval_def overflow_def set_errno_def unmoved_def untouched_def)

lemma scans_directive:
  fixes s :: "('f, 'k) printf_state"
  assumes "\<not> l10n s" "directive_slots fmt = Some (ss, rest)"
  shows "scans s (directive_body e False (- 1) fmt s) (\<lambda>r. rest = Some r)"
proof -
  obtain fl f1 where fl: "read_flags 0 fmt = (fl, f1)" by fastforce
  obtain ws f2 where ws: "width_slots f1 = Some (ws, f2)" using assms(2) fl by (auto simp: directive_slots_def split: option.splits)
  obtain qs f3 where qs: "precision_slots f2 = Some (qs, f3)" using assms(2) fl ws by (auto simp: directive_slots_def split: option.splits)
  have rest: "rest = map_option (\<lambda>(ps, st, c, f4). f4) (read_type BARE f3)"
    using assms(2) fl ws qs by (auto simp: directive_slots_def split: option.splits if_splits)
  have w: "scans s (read_width False fl f1 s) (\<lambda>(fl', w, r). r = f2)"
  proof (cases "at f1 0 = 0x2a")
    case True
    then show ?thesis using ws assms(1) unmoved_refl [OF assms(1)]
      by (simp add: read_width_def width_slots_def ap_int_def INT_MAX_def split: if_splits)
  next
    case False
    then show ?thesis using ws unmoved_refl [OF assms(1)]
      by (cases "getint f1") (auto simp: read_width_def width_slots_def intro: scans_refused(2) [OF assms(1)])
  qed
  have q: "scans t (read_precision False f2 t) (\<lambda>(p, xp, r). r = f3)" if "\<not> l10n t" for t :: "('f, 'k) printf_state"
  proof (cases "at f2 0 = 0x2e \<and> at f2 1 = 0x2a")
    case True
    then show ?thesis using qs that unmoved_refl [OF that]
      by (simp add: read_precision_def precision_slots_def ap_int_def split: if_splits)
  next
    case False
    then show ?thesis using qs unmoved_refl [OF that]
      by (cases "getint (drop 1 f2)") (auto simp: read_precision_def precision_slots_def split: if_splits)
  qed
  have b: "scans t (case read_type BARE f3 of
           None \<Rightarrow> inval t
         | Some (ps, st, c, fmt) \<Rightarrow> andthen (get_arg False (- 1) st t) (\<lambda>arg s.
             if \<not> False then Next fmt s else andthen (convert e c ps arg w p xp fl s) (\<lambda>_ s. Next fmt s))) (\<lambda>r. rest = Some r)"
    if "\<not> l10n t" for t :: "('f, 'k) printf_state" and w p xp fl
  proof (cases "read_type BARE f3")
    case None
    then show ?thesis using scans_refused(1) [OF that] by simp
  next
    case (Some y)
    then show ?thesis using unmoved_refl [OF that] rest by (cases y) (simp add: get_arg_def)
  qed
  have nl: "\<not> l10n t" if "unmoved u t" for t u :: "('f, 'k) printf_state" using that by (simp add: unmoved_def)
  show ?thesis unfolding directive_body_def fl Let_def prod.case
    by (rule scans_andthen [OF w], clarify, rule scans_andthen [OF q], erule nl, clarify, rule b, erule nl)
qed

lemma first_pass:
  assumes "\<not> l10n s" "format_slots fmt = Some ks"
  shows "\<exists>v s'. printf_core e False fmt s = Return v s' \<and> unmoved s s'"
  using assms
proof (induction fmt arbitrary: s ks rule: length_induct)
  case (1 fmt)
  let ?s = "s\<lparr>cnt := cnt s + outlen s\<rparr>"
  have nl: "\<not> l10n ?s" using 1(2) by simp
  have start: "unmoved s s'" if "unmoved ?s s'" for s' using that by (simp add: unmoved_def)
  consider (over) "outlen s > INT_MAX - cnt s" | (finish) "\<not> outlen s > INT_MAX - cnt s" "fmt = []"
    | (more) "\<not> outlen s > INT_MAX - cnt s" "fmt \<noteq> []" by blast
  then show ?case
  proof cases
    case over
    then show ?thesis using scans_refused(2) [OF 1(2)] by (auto simp: printf_core.simps [of e False fmt s] overflow_def)
  next
    case finish
    then have "printf_core e False fmt s = Return 0 ?s" using 1(2) by (simp add: printf_core.simps [of e False "[]" s] finish_core_def)
    then show ?thesis using start [OF unmoved_refl [OF nl]] by blast
  next
    case more
    obtain lt r where lit: "literal fmt = (lt, r)" by fastforce
    have sc: "scans ?s (round_body e False fmt ?s) (\<lambda>r. format_slots r \<noteq> None)"
    proof (cases "lt = [] \<and> int (length lt) \<le> INT_MAX - cnt ?s")
      case True
      let ?t = "?s\<lparr>outlen := 0\<rparr>"
      have p: "\<not> positional (drop 1 r)" using 1(3) more(2) lit True by (simp add: format_slots.simps [of fmt] split: if_splits)
      obtain ss rest where d: "directive_slots (drop 1 r) = Some (ss, rest)" "\<And>f. rest = Some f \<Longrightarrow> format_slots f \<noteq> None"
        using 1(3) more(2) lit True p by (auto simp: format_slots.simps [of fmt] split: option.splits)
      have "scans ?t (directive_body e False (- 1) (drop 1 r) ?t) (\<lambda>f. rest = Some f)"
        by (rule scans_directive [OF _ d(1)]) (use nl in simp)
      then have "scans ?s (directive_body e False (- 1) (drop 1 r) ?t) (\<lambda>f. format_slots f \<noteq> None)"
        using d(2) by (auto simp: scans_def unmoved_def split: flow.splits)
      then show ?thesis using True p by (simp add: round_body_def lit directive_step_def)
    next
      case False
      have "lt \<noteq> [] \<Longrightarrow> format_slots r = Some ks" using 1(3) more(2) lit by (simp add: format_slots.simps [of fmt])
      moreover have "unmoved ?s (?s\<lparr>outlen := n\<rparr>)" for n using unmoved_refl [OF nl] by (simp add: unmoved_def)
      ultimately show ?thesis using False scans_refused(2) [OF nl] by (auto simp: round_body_def lit Let_def)
    qed
    show ?thesis
    proof (cases "round_body e False fmt ?s")
      case (Next f s')
      then obtain ks' where f: "unmoved ?s s'" "format_slots f = Some ks'" using sc by auto
      then have "\<not> l10n s'" by (simp add: unmoved_def)
      then obtain v s2 where "printf_core e False f s' = Return v s2" "unmoved s' s2"
        using 1(1) round_body_length [OF Next] f(2) by blast
      then show ?thesis using unmoved_trans [OF f(1)] start more Next by (auto simp: printf_core.simps [of e False fmt s])
    qed (use sc start more in \<open>auto simp: printf_core.simps [of e False fmt s]\<close>)
  qed
qed

section \<open>vsnprintf\<close>

text \<open>The stream while \<open>printf_core\<close> writes to it.\<close>

definition sn_open :: FILE where
  "sn_open = sn_FILE\<lparr>f_mode := - 1, buf_size := 80, writing := True\<rparr>"

lemma sn_open_safe:
  assumes "0 < n" "n < 2 ^ 64" "cookie_s w = s" "unat (cookie_n w) = n - 1"
    and "\<And>a. \<not> in_range s n a \<Longrightarrow> user_mem w a = m a"
  shows "sn_safe m T s n [] (sn_open, w)"
  using assms by (auto simp: sn_safe_def sn_stream_def sn_open_def sn_FILE_def has_flag_def)

lemma sn_write_nul:
  assumes "sn_stream s n d (f, w)" "sn_write x (f, w) = (k, fw')"
  shows "\<exists>k < n. user_mem (snd fw') (s + of_nat k) = 0"
proof -
  let ?c = "min (n - 1) d" and ?b = "take (n - 1 - d) (pending f @ x)"
  have n: "0 < n" "n < 2 ^ 64" using assms(1) by (simp_all add: sn_stream_def)
  have le: "?c + length ?b \<le> n - 1" by auto
  have len: "length (?b @ [0]) < 2 ^ 64" unfolding length_append_singleton using le n by linarith
  have "put (user_mem w) (s + of_nat ?c) (?b @ [0]) (s + of_nat ?c + of_nat (length ?b)) = (?b @ [0]) ! length ?b"
    using len by (rule put_same) (simp only: length_append_singleton lessI)
  then have "user_mem (snd fw') (s + of_nat (?c + length ?b)) = 0"
    using sn_stream_write [OF assms] by (simp add: add.assoc del: take_append length_take)
  then show ?thesis using le n(1) by (intro exI [of _ "?c + length ?b"]) (simp del: length_take)
qed

text \<open>What \<open>%n\<close> may store to, for a set of bytes.\<close>

definition within :: "u64 set \<Rightarrow> arg_type \<Rightarrow> u64 \<Rightarrow> bool" where
  "within T ps x \<longleftrightarrow> (\<forall>a. in_range x (count_bytes ps) a \<longrightarrow> a \<in> T)"

interpretation sn_formatted: formatted_stream os "in_range s n" "sn_safe m (\<lambda>a. a \<in> T) s n" "within T"
  for os :: "'k os" and m s n T
proof unfold_locales
  fix bs f ps x k and w :: "'k world"
  assume h: "sn_safe m (\<lambda>a. a \<in> T) s n bs (f, w)" "within T ps x"
  have "store_count ps (user_mem w) x k a = user_mem w a" if "a \<notin> T" for a
    using h(2) that by (intro store_count_other) (auto simp: within_def)
  then show "sn_safe m (\<lambda>a. a \<in> T) s n bs (f, w\<lparr>user_mem := store_count ps (user_mem w) x k\<rparr>)"
    using h(1) by (auto simp: sn_safe_def sn_stream_def)
qed

lemma vfprintf_sn_safe:
  fixes e :: "('f, 'k) printf_env"
  assumes "format_slots fmt = Some ks" "suits (within T) ks args" "0 < n" "n < 2 ^ 64"
    and "cookie_s w = s" "unat (cookie_n w) = n - 1" "\<And>a. \<not> in_range s n a \<Longrightarrow> user_mem w a = m a" "user_mem w s = 0"
  shows "\<exists>r f w'. vfprintf e fmt args (sn_FILE, w) = Some (r, f, w')
    \<and> (\<forall>a. \<not> in_range s n a \<longrightarrow> a \<notin> T \<longrightarrow> user_mem w' a = m a) \<and> (\<exists>k < n. user_mem w' (s + of_nat k) = 0)"
proof -
  let ?s0 = "start_state args (sn_FILE, w) :: ('f, 'k) printf_state"
  obtain r1 s1 where 1: "call_core e False fmt ?s0 = Some (r1, s1)" "unmoved ?s0 s1"
    using first_pass [of ?s0 fmt ks e] assms(1) by (auto simp: start_state_def call_core_def)
  obtain er where s1: "strm s1 = (sn_FILE, w\<lparr>errno := er\<rparr>)" "ap s1 = args"
    using 1(2) by (cases "strm s1") (auto simp: unmoved_def untouched_def start_state_def)
  show ?thesis
  proof (cases "r1 < 0")
    case True
    then have "vfprintf e fmt args (sn_FILE, w) = Some (- 1, sn_FILE, w\<lparr>errno := er\<rparr>)" using 1(1) s1(1) by (simp add: vfprintf_def)
    then show ?thesis using assms(3,7,8) by (auto intro: exI [of _ 0])
  next
    case False
    let ?s2 = "s1\<lparr>strm := (sn_open, w\<lparr>errno := er\<rparr>), cnt := 0, outlen := 0, l10n := False\<rparr>"
    have "sn_safe m (\<lambda>a. a \<in> T) s n [] (sn_open, w\<lparr>errno := er\<rparr>)" by (rule sn_open_safe) (use assms in auto)
    then have "sn_formatted.live m T s n ?s2" by (auto simp: sn_formatted.live_def)
    then have "\<exists>v t. printf_core e True fmt ?s2 = Return v t \<and> (\<exists>bs. sn_safe m (\<lambda>a. a \<in> T) s n bs (strm t))"
      by (rule sn_formatted.second_pass [OF _ refl assms(1)]) (use assms(2) s1(2) in simp)
    then obtain r2 s3 bs where 2: "printf_core e True fmt ?s2 = Return r2 s3" "sn_safe m (\<lambda>a. a \<in> T) s n bs (strm s3)" by blast
    obtain d where d: "sn_stream s n d (strm s3)" using 2(2) by (auto simp: sn_safe_def)
    obtain k f w' where fl: "sn_write [] (fst (strm s3), snd (strm s3)) = (k, f, w')" by (rule prod_cases3)
    have "sn_safe m (\<lambda>a. a \<in> T) s n (bs @ []) (f, w')" using sn_safe_write [OF _ fl] 2(2) by simp
    then have mem: "\<forall>a. \<not> in_range s n a \<longrightarrow> a \<notin> T \<longrightarrow> user_mem w' a = m a" by (simp add: sn_safe_def)
    have nul: "\<exists>k < n. user_mem w' (s + of_nat k) = 0" using sn_write_nul [OF _ fl] d by simp
    have sn: "sint (f_mode sn_FILE) < 1" "without (flags sn_FILE) F_ERR = 0" "buf_size sn_FILE = 0" "\<not> writing sn_FILE"
      by (simp_all add: sn_FILE_def without_def)
    have op: "towrite (sn_FILE\<lparr>flags := 0, buf_size := 80, writing := False, pending := []\<rparr>) = (False, sn_open)"
      by (simp add: towrite_def sn_open_def sn_FILE_def has_flag_def Let_def)
    have "file_write (os_calls e) [] (strm s3) = Some (k, f, w')" using fl d by (simp add: file_write_def sn_stream_def)
    moreover have "call_core e True fmt (s1\<lparr>strm := (sn_open, w\<lparr>errno := er\<rparr>)\<rparr>) = Some (r2, s3)" using 2(1) by (simp add: call_core_def)
    ultimately have "\<exists>r f. vfprintf e fmt args (sn_FILE, w) = Some (r, f, w')"
      using 1(1) s1(1) False by (simp add: vfprintf_def sn op Let_def)
    then show ?thesis using mem nul by blast
  qed
qed

section \<open>Properties\<close>

text \<open>
  C10: Memory safety of \<open>vsnprintf\<close>, for every format without numbered arguments, floating point conversions and wide
  strings, correct or not, whose arguments are there and are integers or pointers (an asterisk with
  \<open>INT_MIN\<close> excepted). A size above \<open>INT_MAX\<close> is refused with \<open>EOVERFLOW\<close> and memory stays as it is. Otherwise
  \<open>vsnprintf\<close> returns; no byte has changed outside of the destination of \<open>n\<close> bytes (for \<open>n = 0\<close> a local byte)
  but those that a \<open>%n\<close> of the format stores through its pointer, as many as its length modifier says; and
  the destination contains a terminating NUL.
\<close>

theorem vsnprintf_safe:
  assumes "format_slots fmt = Some ks" "well_typed ks args"
  shows "if uint n > INT_MAX
    then \<exists>w'. vsnprintf e dummy s n fmt args w = Some (- 1, w') \<and> errno w' = EOVERFLOW \<and> user_mem w' = user_mem w
    else \<exists>r w'. vsnprintf e dummy s n fmt args w = Some (r, w')
      \<and> (\<forall>a. \<not> in_range (if n = 0 then dummy else s) (max 1 (unat n)) a \<longrightarrow> a \<notin> count_targets ks args
           \<longrightarrow> user_mem w' a = user_mem w a)
      \<and> (\<exists>k < max 1 (unat n). user_mem w' ((if n = 0 then dummy else s) + of_nat k) = 0)"
proof (cases "uint n > INT_MAX")
  case True
  then show ?thesis by (simp add: vsnprintf_def Let_def)
next
  case False
  define b N where "b = (if n = 0 then dummy else s)" and "N = max 1 (unat n)"
  define w0 where "w0 = w\<lparr>cookie_s := b, cookie_n := (if n \<noteq> 0 then n - 1 else 0), user_mem := (user_mem w)(b := 0)\<rparr>"
  have N: "0 < N" "N < 2 ^ 64" using unat64_lt [of n] by (auto simp: N_def)
  have c: "unat (cookie_n w0) = N - 1" by (cases "n = 0") (simp_all add: w0_def N_def unat_minus_one Suc_le_eq unat_gt_0)
  have out: "user_mem w0 a = user_mem w a" if "\<not> in_range b N a" for a
    using that in_range_self [OF N(1), of b] by (auto simp: w0_def)
  have "suits (within (count_targets ks args)) ks args"
    by (rule suits_targets [OF assms(2)]) (auto simp: within_def count_targets_def)
  from vfprintf_sn_safe [OF assms(1) this N _ c out, of b e] obtain r f w' where w':
      "vfprintf e fmt args (sn_FILE, w0) = Some (r, f, w')"
      "\<forall>a. \<not> in_range b N a \<longrightarrow> a \<notin> count_targets ks args \<longrightarrow> user_mem w' a = user_mem w a"
      "\<exists>k < N. user_mem w' (b + of_nat k) = 0"
    by (auto simp: w0_def)
  have "vsnprintf e dummy s n fmt args w = map_option (\<lambda>(r, fw). (r, snd fw)) (vfprintf e fmt args (sn_FILE, w0))"
    using False by (simp add: vsnprintf_def Let_def w0_def b_def)
  then show ?thesis using w' False unfolding b_def N_def by auto
qed

text \<open>A format that cuts its text and stores one byte through the second argument.\<close>

lemma sample_slots: "format_slots (map of_char ''x%04d%hhn'') = Some [Conv BARE 0x64, Conv HHPRE 0x6e]"
  by code_simp

theorem vsnprintf_safe_witness:
  "\<forall>e w. \<exists>r w'. vsnprintf (e :: (unit, unit) printf_env) 0x900 0x100 4 (map of_char ''x%04d%hhn'') [C_int (- 7), C_int 0x300] w = Some (r, w')
    \<and> user_mem w' 0x104 = user_mem w 0x104 \<and> user_mem w' 0x301 = user_mem w 0x301"
proof (intro allI)
  let ?args = "[C_int (- 7), C_int 0x300] :: unit args" and ?ks = "[Conv BARE 0x64, Conv HHPRE 0x6e]"
  fix e :: "(unit, unit) printf_env" and w :: "unit world"
  have w: "well_typed ?ks ?args" by (simp add: well_typed_def)
  obtain r w' where r: "vsnprintf e 0x900 0x100 4 (map of_char ''x%04d%hhn'') ?args w = Some (r, w')"
      "\<forall>a. \<not> in_range 0x100 4 a \<longrightarrow> a \<notin> count_targets ?ks ?args \<longrightarrow> user_mem w' a = user_mem w a"
    using vsnprintf_safe [OF sample_slots w, of 4 e "0x900" "0x100" w] by (auto simp: INT_MAX_def)
  have "a \<notin> count_targets ?ks ?args" if "a \<noteq> 0x300" for a
    using that by (auto simp: count_targets_def is_in_def in_range_def unat_eq_0)
  then have "user_mem w' 0x104 = user_mem w 0x104" "user_mem w' 0x301 = user_mem w 0x301"
    using r(2) by (simp_all add: in_range_def)
  then show "\<exists>r w'. vsnprintf e 0x900 0x100 4 (map of_char ''x%04d%hhn'') ?args w = Some (r, w')
      \<and> user_mem w' 0x104 = user_mem w 0x104 \<and> user_mem w' 0x301 = user_mem w 0x301"
    using r(1) by blast
qed

end
