(* ===== verification/Fmt_Fp.thy ===== *)
theory Fmt_Fp
  imports Long_Double Printf_Safety
begin

text \<open>
  The conversion of floating point numbers (\<open>fmt_fp\<close> of vfprintf.c) for the directives a, e, f and g in
  either case.

  Pointers into the array \<open>big\<close> are integers, counted in elements from its start. An access outside of an
  array, a read of an element that was never written and an \<open>int\<close> out of range are undefined and give
  \<open>None\<close>. The digits of a number in \<open>buf\<close> and \<open>ebuf0\<close> are the list of the bytes from \<open>s\<close> to the end.
\<close>

section \<open>The array of limbs\<close>

definition big_size :: int where
  "big_size = (LDBL_MANT_DIG + 28) div 29 + 1 + (LDBL_MAX_EXP + LDBL_MANT_DIG + 28 + 8) div 9"

type_synonym big = "int \<Rightarrow> u32 option"

definition put_limb :: "int \<Rightarrow> u32 \<Rightarrow> big \<Rightarrow> big option" where
  "put_limb d v b = (if 0 \<le> d \<and> d < big_size then Some (b(d := Some v)) else None)"

definition in_int :: "int \<Rightarrow> bool" where
  "in_int x \<longleftrightarrow> - INT_MAX - 1 \<le> x \<and> x \<le> INT_MAX"

text \<open>The first loop: the number in limbs of nine decimal digits, the first one before the radix point.\<close>

function expand :: "int \<Rightarrow> ldshape \<Rightarrow> big \<Rightarrow> (int \<times> big) option" where
  "expand z y b =
     (let v = of_int (ld_trunc y)
      in case put_limb z v b of
           None \<Rightarrow> None
         | Some b \<Rightarrow> let y = ld_mul (ld_of_int 1000000000) (ld_sub y (ld_of_int (uint v)))
                     in if ld_true y then expand (z + 1) y b else Some (z + 1, b))"
  by auto
termination
  by (relation "measure (\<lambda>(z, y, b). nat (big_size - z))") (auto simp: put_limb_def split: if_splits)

text \<open>The multiplication of the limbs from \<open>a\<close> to \<open>d\<close> by \<open>2 ^ sh\<close>, and the carry.\<close>

function mul_limbs :: "nat \<Rightarrow> int \<Rightarrow> int \<Rightarrow> u32 \<Rightarrow> big \<Rightarrow> (u32 \<times> big) option" where
  "mul_limbs sh a d carry b =
     (if d \<ge> a
      then do { v \<leftarrow> b d;
                let x = push_bit sh (ucast v :: u64) + ucast carry;
                b \<leftarrow> put_limb d (ucast (x mod 1000000000)) b;
                mul_limbs sh a (d - 1) (ucast (x div 1000000000)) b }
      else Some (carry, b))"
  by auto
termination
  by (relation "measure (\<lambda>(sh, a, d, carry, b). nat (d - a + 1))") auto

text \<open>The end without the zero limbs before it.\<close>

function trim :: "int \<Rightarrow> int \<Rightarrow> big \<Rightarrow> int option" where
  "trim a z b =
     (if z > a then (case b (z - 1) of None \<Rightarrow> None | Some v \<Rightarrow> if v = 0 then trim a (z - 1) b else Some z)
      else Some z)"
  by auto
termination
  by (relation "measure (\<lambda>(a, z, b). nat (z - a))") auto

function scale_up :: "int \<Rightarrow> int \<Rightarrow> int \<Rightarrow> big \<Rightarrow> (int \<times> int \<times> big) option" where
  "scale_up e2 a z b =
     (if e2 > 0
      then do { let sh = min 29 e2;
                (carry, b) \<leftarrow> mul_limbs (nat sh) a (z - 1) 0 b;
                (a, b) \<leftarrow> (if carry \<noteq> 0 then map_option (Pair (a - 1)) (put_limb (a - 1) carry b) else Some (a, b));
                z \<leftarrow> trim a z b;
                scale_up (e2 - sh) a z b }
      else Some (a, z, b))"
  by auto
termination
  by (relation "measure (\<lambda>(e2, a, z, b). nat e2)") auto

text \<open>The division of the limbs from \<open>d\<close> on by \<open>2 ^ sh\<close>.\<close>

function div_limbs :: "nat \<Rightarrow> int \<Rightarrow> int \<Rightarrow> u32 \<Rightarrow> big \<Rightarrow> (u32 \<times> big) option" where
  "div_limbs sh d z carry b =
     (if d < z
      then do { v \<leftarrow> b d;
                let rm = v AND (push_bit sh 1 - 1);
                b \<leftarrow> put_limb d (drop_bit sh v + carry) b;
                div_limbs sh (d + 1) z (drop_bit sh 1000000000 * rm) b }
      else Some (carry, b))"
  by auto
termination
  by (relation "measure (\<lambda>(sh, d, z, carry, b). nat (z - d))") auto

function scale_down :: "bool \<Rightarrow> int \<Rightarrow> int \<Rightarrow> int \<Rightarrow> int \<Rightarrow> int \<Rightarrow> big \<Rightarrow> (int \<times> int \<times> big) option" where
  "scale_down is_f p r e2 a z b =
     (if e2 < 0
      then do { let sh = min 9 (- e2); let need = 1 + (p + LDBL_MANT_DIG div 3 + 8) div 9;
                (carry, b) \<leftarrow> div_limbs (nat sh) a z 0 b;
                v \<leftarrow> b a;
                let a = (if v = 0 then a + 1 else a);
                (z, b) \<leftarrow> (if carry \<noteq> 0 then map_option (Pair (z + 1)) (put_limb z carry b) else Some (z, b));
                let s = (if is_f then r else a);
                let z = (if z - s > need then s + need else z);
                scale_down is_f p r (e2 + sh) a z b }
      else Some (a, z, b))"
  by auto
termination
  by (relation "measure (\<lambda>(is_f, p, r, e2, a, z, b). nat (- e2))") auto

text \<open>
  The decimal exponent: the loop \<open>for (i=10; *a>=i; i*=10, e++)\<close>, and the number of zeros at the end of a limb.
  The variable \<open>i\<close> is never zero; it does not leave its range as long as limbs are below \<open>10 ^ 9\<close>.
\<close>

function count_digits :: "u32 \<Rightarrow> nat \<Rightarrow> int \<Rightarrow> int option" where
  "count_digits v i e =
     (if unat v \<ge> i then (if i = 0 \<or> int (10 * i) > INT_MAX then None else count_digits v (10 * i) (e + 1)) else Some e)"
  by auto
termination
  by (relation "measure (\<lambda>(v, i, e). nat INT_MAX - i)") auto

function count_zeros :: "u32 \<Rightarrow> nat \<Rightarrow> int \<Rightarrow> int option" where
  "count_zeros v i j =
     (if unat v mod i = 0 then (if i = 0 \<or> int (10 * i) > INT_MAX then None else count_zeros v (10 * i) (j + 1)) else Some j)"
  by auto
termination
  by (relation "measure (\<lambda>(v, i, j). nat INT_MAX - i)") auto

definition limb_exponent :: "int \<Rightarrow> int \<Rightarrow> big \<Rightarrow> int option" where
  "limb_exponent r a b = do { v \<leftarrow> b a; count_digits v 10 (9 * (r - a)) }"

section \<open>Rounding\<close>

text \<open>The carry of a limb that was rounded up.\<close>

function carry_up :: "int \<Rightarrow> int \<Rightarrow> big \<Rightarrow> (int \<times> int \<times> big) option" where
  "carry_up d a b =
     (case b d of
        None \<Rightarrow> None
      | Some v \<Rightarrow>
          if v > 999999999
          then (case put_limb d 0 b of
                  None \<Rightarrow> None
                | Some b \<Rightarrow>
                    do { let d = d - 1;
                         (a, b) \<leftarrow> (if d < a then map_option (Pair (a - 1)) (put_limb (a - 1) 0 b) else Some (a, b));
                         v \<leftarrow> b d;
                         b \<leftarrow> put_limb d (v + 1) b;
                         carry_up d a b })
          else Some (d, a, b))"
  by auto
termination
  by (relation "measure (\<lambda>(d, a, b). nat (d + 1))") (auto simp: put_limb_def split: if_splits)

declare expand.simps [simp del] mul_limbs.simps [simp del] trim.simps [simp del] scale_up.simps [simp del]
  div_limbs.simps [simp del] scale_down.simps [simp del] count_digits.simps [simp del] count_zeros.simps [simp del]
  carry_up.simps [simp del]

text \<open>
  Rounding the limb \<open>d\<close> to a multiple of \<open>i\<close>, where \<open>neg\<close> is the sign of the number: the decision is left to
  the processor by adding a number that is too small to be exact.
\<close>

definition round_limb ::
    "bool \<Rightarrow> int \<Rightarrow> u32 \<Rightarrow> int \<Rightarrow> (int \<times> int \<times> int \<times> big) \<Rightarrow> (int \<times> int \<times> int \<times> int \<times> big) option" where
  "round_limb neg r i d = (\<lambda>(a, z, e, b). do {
     v \<leftarrow> b d;
     let x = v mod i;
     if x \<noteq> 0 \<or> d + 1 \<noteq> z
     then do {
       odd_before \<leftarrow> (if (v div i) AND 1 \<noteq> 0 then Some True
                     else if i = 1000000000 \<and> d > a then map_option (\<lambda>v. v AND 1 \<noteq> 0) (b (d - 1)) else Some False);
       let round = ld_const 1 64;
       let round = (if odd_before then ld_add round (ld_of_int 2) else round);
       let small = (if x < i div 2 then ld_const 1 (- 1)
                    else if x = i div 2 \<and> d + 1 = z then ld_of_int 1 else ld_const 3 (- 1));
       let round = (if neg then ld_mul round (ld_of_int (- 1)) else round);
       let small = (if neg then ld_mul small (ld_of_int (- 1)) else small);
       b \<leftarrow> put_limb d (v - x) b;
       if ld_ne (ld_add round small) round
       then do { b \<leftarrow> put_limb d (v - x + i) b;
                 (d, a, b) \<leftarrow> carry_up d a b;
                 e \<leftarrow> limb_exponent r a b;
                 Some (d, a, z, e, b) }
       else Some (d, a, z, e, b) }
     else Some (d, a, z, e, b) })"

text \<open>
  The precision \<open>j\<close> after the radix point selects the limb and the unit in it; the loop that computes
  \<open>i\<close> yields a power of ten. The sum \<open>j + 9 * LDBL_MAX_EXP\<close> is positive.
\<close>

definition fp_round ::
    "bool \<Rightarrow> u8 \<Rightarrow> int \<Rightarrow> int \<Rightarrow> (int \<times> int \<times> int \<times> big) \<Rightarrow> (int \<times> int \<times> int \<times> big) option" where
  "fp_round neg t p r = (\<lambda>(a, z, e, b).
     let j = p - (if t OR 32 \<noteq> 0x66 then e else 0) - (if t OR 32 = 0x67 \<and> p \<noteq> 0 then 1 else 0)
     in if \<not> in_int j then None
        else if j < 9 * (z - r - 1)
        then (let d = r + 1 + ((j + 9 * LDBL_MAX_EXP) div 9 - LDBL_MAX_EXP);
                  k = (j + 9 * LDBL_MAX_EXP) mod 9
              in do { (d, a, z, e, b) \<leftarrow> round_limb neg r (10 ^ nat (9 - k)) d (a, z, e, b);
                      Some (a, if z > d + 1 then d + 1 else z, e, b) })
        else Some (a, z, e, b))"

section \<open>Sign, exponent and length\<close>

definition fp_prefixes :: "u8 list" where
  "fp_prefixes = map of_char ''-0X+0X 0X-0x+0x 0x''"

text \<open>The number without its sign, the position of \<open>prefix\<close> in its string and the length \<open>pl\<close>.\<close>

definition fp_sign :: "ldshape \<Rightarrow> u32 \<Rightarrow> ldshape \<times> nat \<times> nat" where
  "fp_sign y fl =
     (if signbit y then (ld_neg y, 0, 1)
      else if fl AND MARK_POS \<noteq> 0 then (y, 3, 1)
      else if fl AND PAD_POS \<noteq> 0 then (y, 6, 1)
      else (y, 1, 0))"

definition exp_sign :: "int \<Rightarrow> u8" where
  "exp_sign e = (if e < 0 then of_char CHR ''-'' else of_char CHR ''+'')"

text \<open>The exponent in \<open>ebuf0\<close>: at least \<open>n\<close> digits, the sign and the letter.\<close>

definition exp_digits :: "nat \<Rightarrow> u8 \<Rightarrow> int \<Rightarrow> u8 list" where
  "exp_digits n c e =
     (let s = fmt_u (of_int \<bar>e\<bar>) [] in c # exp_sign e # replicate (n - length s) (of_char CHR ''0'') @ s)"

section \<open>Infinities and hexadecimal numbers\<close>

definition fp_special ::
    "'k os \<Rightarrow> ldshape \<Rightarrow> nat \<Rightarrow> nat \<Rightarrow> int \<Rightarrow> u32 \<Rightarrow> u8 \<Rightarrow> 'k stream \<Rightarrow> (int \<times> 'k stream) option" where
  "fp_special os y pre pl w fl t fw =
     do { let s = (if t AND 32 \<noteq> 0 then ''inf'' else ''INF'');
          let s = (if ld_ne y y then (if t AND 32 \<noteq> 0 then ''nan'' else ''NAN'') else s);
          fw \<leftarrow> pad os 0x20 w (3 + int pl) (without fl ZERO_PAD) fw;
          fw \<leftarrow> out os (take pl (drop pre fp_prefixes)) fw;
          fw \<leftarrow> out os (map of_char s) fw;
          fw \<leftarrow> pad os 0x20 w (3 + int pl) (fl XOR LEFT_ADJ) fw;
          Some (max w (3 + int pl), fw) }"

text \<open>Rounding to \<open>p\<close> digits after the radix point by adding a large number and taking it away again.\<close>

definition hex_round :: "ldshape \<Rightarrow> int \<Rightarrow> nat \<Rightarrow> ldshape" where
  "hex_round y p pre =
     (let re = (if p < 0 \<or> p \<ge> LDBL_MANT_DIG div 4 - 1 then 0 else nat (LDBL_MANT_DIG div 4 - 1 - p))
      in if re = 0 then y
         else let round = ld_mul (ld_of_int 8) (ld_of_int (2 ^ nat (LDBL_MANT_DIG mod 4)));
                  round = ((\<lambda>x. ld_mul x (ld_of_int 16)) ^^ re) round
              in if fp_prefixes ! pre = of_char CHR ''-''
                 then ld_neg (ld_add (ld_sub (ld_neg y) round) round)
                 else ld_sub (ld_add y round) round)"

definition buf_size_fp :: nat where
  "buf_size_fp = 9 + nat LDBL_MANT_DIG div 4"

text \<open>The loop over the digits, which are appended to \<open>s\<close>.\<close>

function hex_digits :: "u8 \<Rightarrow> int \<Rightarrow> u32 \<Rightarrow> ldshape \<Rightarrow> u8 list \<Rightarrow> u8 list option" where
  "hex_digits t p fl y s =
     (let x = ld_trunc y; y = ld_mul (ld_of_int 16) (ld_sub y (ld_of_int x));
          s' = s @ [xdigits ! nat x OR (t AND 32)];
          s' = (if length s' = 1 \<and> (ld_true y \<or> p > 0 \<or> fl AND ALT_FORM \<noteq> 0) then s' @ [of_char CHR ''.''] else s')
      in if x < 0 \<or> x > 15 \<or> length s \<ge> buf_size_fp then None
         else if ld_true y then hex_digits t p fl y s' else Some s')"
  by auto
termination
  by (relation "measure (\<lambda>(t, p, fl, y, s). buf_size_fp - length s)") (auto simp: Let_def)

declare hex_digits.simps [simp del]

definition fp_hex ::
    "'k os \<Rightarrow> ldshape \<Rightarrow> int \<Rightarrow> nat \<Rightarrow> nat \<Rightarrow> int \<Rightarrow> int \<Rightarrow> u32 \<Rightarrow> u8 \<Rightarrow> 'k stream \<Rightarrow> (int \<times> 'k stream) option" where
  "fp_hex os y e2 pre pl w p fl t fw =
     do { let pre = (if t AND 32 \<noteq> 0 then pre + 9 else pre);
          let pl = pl + 2;
          let y = hex_round y p pre;
          let estr = exp_digits 1 (t + 15) e2;
          s \<leftarrow> hex_digits t p fl y [];
          if p > INT_MAX - 2 - int (length estr) - int pl then Some (- 1, fw)
          else do {
            let l = (if p \<noteq> 0 \<and> int (length s) - 2 < p then p + 2 + int (length estr) else int (length s + length estr));
            fw \<leftarrow> pad os 0x20 w (int pl + l) fl fw;
            fw \<leftarrow> out os (take pl (drop pre fp_prefixes)) fw;
            fw \<leftarrow> pad os 0x30 w (int pl + l) (fl XOR ZERO_PAD) fw;
            fw \<leftarrow> out os s fw;
            fw \<leftarrow> pad os 0x30 (l - int (length estr) - int (length s)) 0 0 fw;
            fw \<leftarrow> out os estr fw;
            fw \<leftarrow> pad os 0x20 w (int pl + l) (fl XOR LEFT_ADJ) fw;
            Some (max w (int pl + l), fw) } }"

section \<open>Decimal numbers\<close>

text \<open>The digits of a limb, which have nine bytes of \<open>buf\<close>, and with zeros in front.\<close>

definition limb_digits :: "int \<Rightarrow> big \<Rightarrow> u8 list option" where
  "limb_digits d b = do { v \<leftarrow> b d; let s = fmt_u (ucast v) []; if length s \<le> 9 then Some s else None }"

definition fill_zeros :: "nat \<Rightarrow> u8 list \<Rightarrow> u8 list" where
  "fill_zeros n s = replicate (n - length s) (of_char CHR ''0'') @ s"

text \<open>The limbs before the radix point.\<close>

function integer_limbs :: "'k os \<Rightarrow> int \<Rightarrow> int \<Rightarrow> int \<Rightarrow> big \<Rightarrow> 'k stream \<Rightarrow> 'k stream option" where
  "integer_limbs os a d r b fw =
     (if d \<le> r
      then do { s \<leftarrow> limb_digits d b;
                fw \<leftarrow> out os (fill_zeros (if d \<noteq> a then 9 else 1) s) fw;
                integer_limbs os a (d + 1) r b fw }
      else Some fw)"
  by auto
termination
  by (relation "measure (\<lambda>(os, a, d, r, b, fw). nat (r - d + 1))") auto

text \<open>The limbs behind it, up to the precision; the value is what is left of it.\<close>

function fraction_limbs :: "'k os \<Rightarrow> int \<Rightarrow> int \<Rightarrow> int \<Rightarrow> big \<Rightarrow> 'k stream \<Rightarrow> (int \<times> 'k stream) option" where
  "fraction_limbs os d z p b fw =
     (if d < z \<and> p > 0
      then do { s \<leftarrow> limb_digits d b;
                fw \<leftarrow> out os (take (nat (min 9 p)) (fill_zeros 9 s)) fw;
                fraction_limbs os (d + 1) z (p - 9) b fw }
      else Some (p, fw))"
  by auto
termination
  by (relation "measure (\<lambda>(os, d, z, p, b, fw). nat (z - d))") auto

text \<open>The limbs of a number with an exponent: one digit stands before the radix point.\<close>

function exponent_limbs :: "'k os \<Rightarrow> u32 \<Rightarrow> int \<Rightarrow> int \<Rightarrow> int \<Rightarrow> int \<Rightarrow> big \<Rightarrow> 'k stream \<Rightarrow> (int \<times> 'k stream) option" where
  "exponent_limbs os fl a d z p b fw =
     (if d < z \<and> p \<ge> 0
      then do { s \<leftarrow> limb_digits d b;
                let s = fill_zeros (if d \<noteq> a then 9 else 1) s;
                (s, fw) \<leftarrow>
                  (if d \<noteq> a then Some (s, fw)
                   else do { fw \<leftarrow> out os (take 1 s) fw;
                             fw \<leftarrow> (if p > 0 \<or> fl AND ALT_FORM \<noteq> 0 then out os [of_char CHR ''.''] fw else Some fw);
                             Some (drop 1 s, fw) });
                fw \<leftarrow> out os (take (nat (min (int (length s)) p)) s) fw;
                exponent_limbs os fl a (d + 1) z (p - int (length s)) b fw }
      else Some (p, fw))"
  by auto
termination
  by (relation "measure (\<lambda>(os, fl, a, d, z, p, b, fw). nat (z - d))") auto

declare integer_limbs.simps [simp del] fraction_limbs.simps [simp del] exponent_limbs.simps [simp del]

text \<open>The limbs \<open>a\<close> to \<open>z\<close> of a number, its decimal exponent and the position \<open>r\<close> of the limb before the radix point.\<close>

definition fp_limbs :: "ldshape \<Rightarrow> int \<Rightarrow> u8 \<Rightarrow> int \<Rightarrow> (int \<times> int \<times> int \<times> int \<times> big) option" where
  "fp_limbs y e2 t p =
     do { let (y, e2) = (if ld_true y then (ld_mul y (ld_const 1 28), e2 - 28) else (y, e2));
          let r = (if e2 < 0 then 0 else big_size - LDBL_MANT_DIG - 1);
          (z, b) \<leftarrow> expand r y (\<lambda>_. None);
          (a, z, b) \<leftarrow> scale_up e2 r z b;
          (a, z, b) \<leftarrow> scale_down (t OR 32 = 0x66) p r e2 a z b;
          e \<leftarrow> (if a < z then limb_exponent r a b else Some 0);
          Some (r, a, z, e, b) }"

text \<open>The choice that g makes: the conversion character and the precision.\<close>

definition fp_general :: "u8 \<Rightarrow> int \<Rightarrow> u32 \<Rightarrow> int \<Rightarrow> (int \<times> int \<times> int \<times> big) \<Rightarrow> (u8 \<times> int) option" where
  "fp_general t p fl r = (\<lambda>(a, z, e, b).
     if t OR 32 \<noteq> 0x67 then Some (t, p)
     else do { let p = (if p = 0 then 1 else p);
               let (t, p) = (if p > e \<and> e \<ge> - 4 then (t - 1, p - (e + 1)) else (t - 2, p - 1));
               if \<not> in_int p then None
               else if fl AND ALT_FORM \<noteq> 0 then Some (t, p)
               else do { v \<leftarrow> (if z > a then b (z - 1) else Some 0);
                         j \<leftarrow> (if v \<noteq> 0 then count_zeros v 10 0 else Some 9);
                         Some (t, if t OR 32 = 0x66 then min p (max 0 (9 * (z - r - 1) - j))
                                  else min p (max 0 (9 * (z - r - 1) + e - j))) } })"

text \<open>The length of the number without its prefix, and its exponent; no length is an overflow.\<close>

definition fp_length :: "u8 \<Rightarrow> int \<Rightarrow> u32 \<Rightarrow> int \<Rightarrow> nat \<Rightarrow> (int \<times> u8 list) option" where
  "fp_length t p fl e pl =
     (let point = (if p \<noteq> 0 \<or> fl AND ALT_FORM \<noteq> 0 then 1 else 0)
      in if p > INT_MAX - 1 - point then None
         else let l = 1 + p + point
              in if t OR 32 = 0x66
                 then (if e > INT_MAX - l then None
                       else let l = (if e > 0 then l + e else l) in if l > INT_MAX - int pl then None else Some (l, []))
                 else let estr = exp_digits 2 t e
                      in if int (length estr) > INT_MAX - l then None
                         else let l = l + int (length estr) in if l > INT_MAX - int pl then None else Some (l, estr))"

definition fp_output ::
    "'k os \<Rightarrow> nat \<Rightarrow> nat \<Rightarrow> int \<Rightarrow> int \<Rightarrow> u32 \<Rightarrow> u8 \<Rightarrow> int \<Rightarrow> u8 list \<Rightarrow> int \<Rightarrow> int \<Rightarrow> int \<Rightarrow> big \<Rightarrow> 'k stream
       \<Rightarrow> (int \<times> 'k stream) option" where
  "fp_output os pre pl w p fl t l estr r a z b fw =
     do { fw \<leftarrow> pad os 0x20 w (int pl + l) fl fw;
          fw \<leftarrow> out os (take pl (drop pre fp_prefixes)) fw;
          fw \<leftarrow> pad os 0x30 w (int pl + l) (fl XOR ZERO_PAD) fw;
          fw \<leftarrow> (if t OR 32 = 0x66
                then do { let a = (if a > r then r else a);
                          fw \<leftarrow> integer_limbs os a a r b fw;
                          fw \<leftarrow> (if p \<noteq> 0 \<or> fl AND ALT_FORM \<noteq> 0 then out os [of_char CHR ''.''] fw else Some fw);
                          (p, fw) \<leftarrow> fraction_limbs os (r + 1) z p b fw;
                          if \<not> in_int (p + 9) then None else pad os 0x30 (p + 9) 9 0 fw }
                else do { let z = (if z \<le> a then a + 1 else z);
                          (p, fw) \<leftarrow> exponent_limbs os fl a a z p b fw;
                          if \<not> in_int (p + 18) then None
                          else do { fw \<leftarrow> pad os 0x30 (p + 18) 18 0 fw; out os estr fw } });
          fw \<leftarrow> pad os 0x20 w (int pl + l) (fl XOR LEFT_ADJ) fw;
          Some (max w (int pl + l), fw) }"

definition fp_decimal ::
    "'k os \<Rightarrow> ldshape \<Rightarrow> int \<Rightarrow> nat \<Rightarrow> nat \<Rightarrow> int \<Rightarrow> int \<Rightarrow> u32 \<Rightarrow> u8 \<Rightarrow> 'k stream \<Rightarrow> (int \<times> 'k stream) option" where
  "fp_decimal os y e2 pre pl w p fl t fw =
     do { let p = (if p < 0 then 6 else p);
          (r, a, z, e, b) \<leftarrow> fp_limbs y e2 t p;
          (a, z, e, b) \<leftarrow> fp_round (pl \<noteq> 0 \<and> fp_prefixes ! pre = of_char CHR ''-'') t p r (a, z, e, b);
          z \<leftarrow> trim a z b;
          (t, p) \<leftarrow> fp_general t p fl r (a, z, e, b);
          case fp_length t p fl e pl of
            None \<Rightarrow> Some (- 1, fw)
          | Some (l, estr) \<Rightarrow> fp_output os pre pl w p fl t l estr r a z b fw }"

definition fmt_fp :: "'k os \<Rightarrow> ldshape \<Rightarrow> int \<Rightarrow> int \<Rightarrow> u32 \<Rightarrow> u8 \<Rightarrow> 'k stream \<Rightarrow> (int \<times> 'k stream) option" where
  "fmt_fp os y w p fl t fw =
     (let (y, pre, pl) = fp_sign y fl
      in if \<not> isfinite y then fp_special os y pre pl w fl t fw
         else do { (y, e2) \<leftarrow> frexpl 1 y 0;
                   let y = ld_mul y (ld_of_int 2);
                   let e2 = (if ld_true y then e2 - 1 else e2);
                   if t OR 32 = 0x61 then fp_hex os y e2 pre pl w p fl t fw
                   else fp_decimal os y e2 pre pl w p fl t fw })"

end
