(* ===== verification/Long_Double_Exact.thy ===== *)
theory Long_Double_Exact
  imports Long_Double
begin

text \<open>
  Exact results of the arithmetic on \<open>long double\<close>: powers of two and products with them, and \<open>frexpl\<close>, which
  always returns.
\<close>

section \<open>Exact arithmetic\<close>

lemma bit_length_bounds: "0 < n \<Longrightarrow> 1 \<le> bit_length n \<and> 2 ^ nat (bit_length n - 1) \<le> n \<and> n < 2 ^ nat (bit_length n)"
proof (induction n rule: bit_length.induct)
  case (1 n)
  show ?case
  proof (cases "n = 1")
    case True
    then show ?thesis by (simp add: bit_length.simps)
  next
    case False
    then have h: "0 < n div 2" using 1(2) by simp
    define L where "L = bit_length (n div 2)"
    have L: "1 \<le> L" "2 ^ nat (L - 1) \<le> n div 2" "n div 2 < 2 ^ nat L" using 1(1) h 1(2) by (auto simp: L_def)
    have "bit_length n = 1 + L" using 1(2) by (simp add: bit_length.simps [of n] L_def)
    moreover have "nat (1 + L) = Suc (nat L)" "nat L = Suc (nat (L - 1))" using L(1) by auto
    ultimately show ?thesis using L by (auto simp: power_Suc)
  qed
qed

lemma bit_length_unique:
  assumes "2 ^ k \<le> n" "n < 2 ^ Suc k"
  shows "bit_length n = int k + 1"
proof -
  have n: "0 < n" using assms(1) zero_less_power [of "2 :: int" k] by linarith
  note b = bit_length_bounds [OF n]
  have "(2 :: int) ^ nat (bit_length n - 1) < 2 ^ Suc k" "(2 :: int) ^ k < 2 ^ nat (bit_length n)" using b assms by linarith+
  then have "nat (bit_length n - 1) < Suc k" "k < nat (bit_length n)" by (simp_all only: power_strict_increasing_iff [of "2 :: int"] one_less_numeral_iff semiring_norm)
  then show ?thesis using b by linarith
qed

lemma ld_round_exact:
  assumes "bit_length n = L" "0 < n" "- 16381 \<le> x + L" "x + L < 16385" "2 ^ nat (L - 64) dvd n"
  obtains q where "ld_round neg n x = \<lparr>ld_m = of_int q, ld_se = ld_sign neg OR of_int (x + L + 16382)\<rparr>"
    "2 ^ 63 \<le> q" "q < 2 ^ 64" "q * 2 ^ nat (L - 64) = n * 2 ^ nat (64 - L)"
proof -
  have b: "1 \<le> L" "2 ^ nat (L - 1) \<le> n" "n < 2 ^ nat L" using bit_length_bounds [OF assms(2)] assms(1) by auto
  define q where "q = (if L \<le> 64 then n * 2 ^ nat (64 - L) else n div 2 ^ nat (L - 64))"
  have e: "q * 2 ^ nat (L - 64) = n * 2 ^ nat (64 - L)"
    using assms(5) by (auto simp: q_def)
  have r: "2 ^ 63 \<le> q" "q < 2 ^ 64"
  proof -
    have p: "nat L + nat (64 - L) = 64 + nat (L - 64)" "nat (L - 1) + nat (64 - L) = 63 + nat (L - 64)" using b(1) by auto
    have "2 ^ nat (L - 1) * 2 ^ nat (64 - L) \<le> n * 2 ^ nat (64 - L)" "n * 2 ^ nat (64 - L) < 2 ^ nat L * 2 ^ nat (64 - L)"
      using b by simp_all
    then have "2 ^ 63 * 2 ^ nat (L - 64) \<le> q * 2 ^ nat (L - 64)" "q * 2 ^ nat (L - 64) < 2 ^ 64 * 2 ^ nat (L - 64)"
      unfolding e power_add [symmetric] p by simp_all
    then show "2 ^ 63 \<le> q" "q < 2 ^ 64" by simp_all
  qed
  have y: "max (x + bit_length n - 64) (- 16445) = x + L - 64" using assms(1,3) by simp
  have q': "(if x + L - 64 \<le> x then n * 2 ^ nat (x - (x + L - 64)) else div_nearest n (nat (x + L - 64 - x))) = q"
    using assms(5) by (auto simp: q_def div_nearest_def)
  have "ld_round neg n x = \<lparr>ld_m = of_int q, ld_se = ld_sign neg OR of_int (x + L + 16382)\<rparr>"
    unfolding ld_round_def y Let_def q' using assms(2,4) r by (simp add: algebra_simps)
  then show ?thesis using that r e by blast
qed

text \<open>Numbers without a sign, by their mantissa and the number in the exponent field.\<close>

definition ld_pos :: "int \<Rightarrow> int \<Rightarrow> ldshape" where
  "ld_pos m s = \<lparr>ld_m = of_int m, ld_se = of_int s\<rparr>"

lemma exponent_field: "0 \<le> s \<Longrightarrow> s < 2 ^ 15 \<Longrightarrow> uint ((of_int s :: u16) AND 0x7fff) = s"
proof -
  assume s: "0 \<le> s" "s < 2 ^ 15"
  have "(0x7fff :: u16) = mask 15" by (simp add: mask_eq_exp_minus_1)
  then have "uint ((of_int s :: u16) AND 0x7fff) = take_bit 15 (uint (of_int s :: u16))"
    by (simp only: take_bit_eq_mask [symmetric] unsigned_take_bit_eq)
  also have "\<dots> = s" using s by (simp add: take_bit_eq_mod uint_word_of_int)
  finally show ?thesis .
qed

lemma exponent_field_eq:
  assumes "0 \<le> s" "s < 2 ^ 15" "0 \<le> t" "t < 2 ^ 15"
  shows "(of_int s :: u16) AND 0x7fff = of_int t \<longleftrightarrow> s = t"
proof -
  have "uint (of_int t :: u16) = t" using assms(3,4) by (simp add: uint_word_of_int)
  then show ?thesis using exponent_field [OF assms(1,2)] by (simp only: word_uint_eq_iff)
qed

lemma msb_field: "0 \<le> m \<Longrightarrow> m < 2 ^ 64 \<Longrightarrow> drop_bit 63 (of_int m :: u64) = 0 \<longleftrightarrow> m < 2 ^ 63"
proof -
  assume m: "0 \<le> m" "m < 2 ^ 64"
  have "uint (drop_bit 63 (of_int m :: u64)) = m div 2 ^ 63"
    using m by (simp only: unsigned_drop_bit_eq) (simp add: drop_bit_eq_div uint_word_of_int take_bit_eq_mod)
  then have "drop_bit 63 (of_int m :: u64) = 0 \<longleftrightarrow> m div 2 ^ 63 = 0" by (simp only: uint_0_iff [symmetric])
  also have "\<dots> \<longleftrightarrow> m < 2 ^ 63" using m(1) by auto
  finally show ?thesis .
qed

lemma signbit_pos: "0 \<le> s \<Longrightarrow> s < 2 ^ 15 \<Longrightarrow> \<not> signbit (ld_pos m s)"
proof -
  assume s: "0 \<le> s" "s < 2 ^ 15"
  have "uint (drop_bit 15 (of_int s :: u16)) = s div 2 ^ 15"
    using s by (simp only: unsigned_drop_bit_eq) (simp add: drop_bit_eq_div uint_word_of_int take_bit_eq_mod)
  then have "drop_bit 15 (of_int s :: u16) = 0" using s by (simp add: uint_0_iff)
  then show ?thesis by (simp add: signbit_def ld_pos_def)
qed

lemma class_pos:
  assumes "0 \<le> m" "m < 2 ^ 64" "0 \<le> s" "s < 2 ^ 15"
  shows "s = 0x7fff \<Longrightarrow> fpclassifyl (ld_pos m s) \<in> {FP_NAN, FP_INFINITE}"
    and "s \<noteq> 0x7fff \<Longrightarrow> fpclassifyl (ld_pos m s) =
      (if s = 0 \<and> m < 2 ^ 63 then (if m \<noteq> 0 then FP_SUBNORMAL else FP_ZERO) else if m < 2 ^ 63 then FP_NAN else FP_NORMAL)"
proof -
  have m: "(of_int m :: u64) = 0 \<longleftrightarrow> m = 0"
    using assms(1,2) by (simp add: uint_0_iff [symmetric] uint_word_of_int)
  have e: "(of_int s :: u16) AND 0x7fff = 0 \<longleftrightarrow> s = 0" "(of_int s :: u16) AND 0x7fff = 0x7fff \<longleftrightarrow> s = 0x7fff"
    using exponent_field_eq [OF assms(3,4), where t = 0] exponent_field_eq [OF assms(3,4), where t = "0x7fff"] by simp_all
  show "s = 0x7fff \<Longrightarrow> fpclassifyl (ld_pos m s) \<in> {FP_NAN, FP_INFINITE}"
    using e by (simp add: fpclassifyl_def ld_pos_def Let_def)
  show "s \<noteq> 0x7fff \<Longrightarrow> fpclassifyl (ld_pos m s) =
      (if s = 0 \<and> m < 2 ^ 63 then (if m \<noteq> 0 then FP_SUBNORMAL else FP_ZERO) else if m < 2 ^ 63 then FP_NAN else FP_NORMAL)"
    using m e msb_field [OF assms(1,2)] by (simp add: fpclassifyl_def ld_pos_def Let_def)
qed

lemma mantissa_pos [simp]: "0 \<le> m \<Longrightarrow> m < 2 ^ 64 \<Longrightarrow> mantissa (ld_pos m s) = m"
  by (simp add: mantissa_def ld_pos_def uint_word_of_int)

lemma exponent_pos [simp]: "0 \<le> s \<Longrightarrow> s < 2 ^ 15 \<Longrightarrow> exponent (ld_pos m s) = max 1 s - 16446"
  using exponent_field [of s] by (simp add: exponent_def ld_pos_def)

lemma ld_pow2:
  assumes "- 16382 \<le> x + int j" "x + int j < 16384"
  shows "ld_round False (2 ^ j) x = ld_pos (2 ^ 63) (x + int j + 16383)"
proof -
  have L: "bit_length (2 ^ j) = int j + 1" by (rule bit_length_unique) simp_all
  obtain q where q: "ld_round False (2 ^ j) x = \<lparr>ld_m = of_int q, ld_se = ld_sign False OR of_int (x + (int j + 1) + 16382)\<rparr>"
    "2 ^ 63 \<le> q" "q < 2 ^ 64" "q * 2 ^ nat (int j + 1 - 64) = 2 ^ j * 2 ^ nat (64 - (int j + 1))"
    by (rule ld_round_exact [OF L, of x False]) (use assms in \<open>auto intro!: le_imp_power_dvd\<close>)
  have "j + nat (64 - (int j + 1)) = 63 + nat (int j + 1 - 64)" by linarith
  then have "q * 2 ^ nat (int j + 1 - 64) = 2 ^ 63 * 2 ^ nat (int j + 1 - 64)" using q(4) by (simp only: power_add [symmetric])
  then have "q = 2 ^ 63" by simp
  moreover have "x + (int j + 1) + 16382 = x + int j + 16383" by simp
  ultimately show ?thesis using q(1) by (simp only: ld_pos_def ld_sign_def if_False or.left_neutral)
qed

text \<open>Multiplication by a power of two is exact.\<close>

lemma ld_mul_pow2:
  assumes "0 < m" "m < 2 ^ 64" "0 \<le> s" "s < 0x7fff" "s = 0 \<or> 2 ^ 63 \<le> m" "0 < k + 16383" "k + 16383 < 0x7fff"
    and "64 < max 1 s + k + bit_length m" "max 1 s + k + bit_length m - 64 < 0x7fff"
  obtains q where "ld_mul (ld_pos m s) (ld_pos (2 ^ 63) (k + 16383)) = ld_pos q (max 1 s + k + bit_length m - 64)"
    "2 ^ 63 \<le> q" "q < 2 ^ 64" "q * 2 ^ nat (bit_length m - 1) = m * 2 ^ 63"
proof -
  define L where "L = bit_length m"
  have Lm: "1 \<le> L" "2 ^ nat (L - 1) \<le> m" "m < 2 ^ nat L" using bit_length_bounds [OF assms(1)] by (auto simp: L_def)
  have "(2 :: int) ^ nat (L - 1) < 2 ^ 64" using Lm(2) assms(2) by linarith
  then have "nat (L - 1) < 64" by (simp only: power_strict_increasing_iff [of "2 :: int"] one_less_numeral_iff semiring_norm)
  then have L64: "L \<le> 64" by linarith
  have n1: "nat (L + 62) = nat (L - 1) + 63" "nat (L + 63) = nat L + 63" using Lm(1) by linarith+
  have L': "bit_length (m * 2 ^ 63) = L + 63"
  proof -
    have "bit_length (m * 2 ^ 63) = int (nat (L + 62)) + 1"
    proof (rule bit_length_unique)
      show "2 ^ nat (L + 62) \<le> m * 2 ^ 63" unfolding n1(1) power_add using Lm(2) by simp
      have "Suc (nat (L + 62)) = nat L + 63" using Lm(1) by linarith
      then show "m * 2 ^ 63 < 2 ^ Suc (nat (L + 62))" using Lm(3) by (simp only: power_add) simp
    qed
    then show ?thesis using Lm(1) by simp
  qed
  have cl: "fpclassifyl (ld_pos m s) \<in> {FP_SUBNORMAL, FP_NORMAL}" "fpclassifyl (ld_pos (2 ^ 63) (k + 16383)) = FP_NORMAL"
    using class_pos(2) [of m s] class_pos(2) [of "2 ^ 63" "k + 16383"] assms(1-7) by auto
  have neg: "\<not> signbit (ld_pos m s)" "\<not> signbit (ld_pos (2 ^ 63) (k + 16383))" using assms(3,4,6,7) signbit_pos [of s m] signbit_pos [of "k + 16383" "2 ^ 63"] by simp_all
  define x where "x = max 1 s - 16446 + (k + 16383 - 16446)"
  have mul: "ld_mul (ld_pos m s) (ld_pos (2 ^ 63) (k + 16383)) = ld_round False (m * 2 ^ 63) x"
    using cl neg assms(1-4,6,7) by (auto simp: ld_mul_def Let_def x_def)
  have h: "0 < m * 2 ^ 63" "- 16381 \<le> x + (L + 63)" "x + (L + 63) < 16385"
    using assms(1,8,9) by (auto simp: x_def L_def)
  have dv: "(2 :: int) ^ nat (L + 63 - 64) dvd m * 2 ^ 63"
    using L64 by (intro dvd_mult le_imp_power_dvd) linarith
  obtain q where q: "ld_round False (m * 2 ^ 63) x = \<lparr>ld_m = of_int q, ld_se = ld_sign False OR of_int (x + (L + 63) + 16382)\<rparr>"
    "2 ^ 63 \<le> q" "q < 2 ^ 64" "q * 2 ^ nat (L + 63 - 64) = m * 2 ^ 63 * 2 ^ nat (64 - (L + 63))"
    by (rule ld_round_exact [OF L' h dv, of False])
  have e: "x + (L + 63) + 16382 = max 1 s + k + bit_length m - 64" by (simp add: x_def L_def)
  have "ld_mul (ld_pos m s) (ld_pos (2 ^ 63) (k + 16383)) = ld_pos q (max 1 s + k + bit_length m - 64)"
    by (rule trans [OF mul]) (simp only: q(1) e ld_pos_def ld_sign_def if_False or.left_neutral)
  moreover have "nat (64 - (L + 63)) = 0" "L + 63 - 64 = bit_length m - 1" using Lm(1) by (auto simp: L_def)
  ultimately show ?thesis using that [of q] q(2-4) by (simp only: power_0 mult_1_right)
qed

section \<open>The fraction of a number\<close>

lemma uint_lt_64k: "uint (x :: u16) < 65536"
  using uint_bounded [of x] by simp

lemma ld_pos_bits: "\<not> signbit y \<Longrightarrow> y = ld_pos (uint (ld_m y)) (uint (ld_se y)) \<and> uint (ld_se y) < 2 ^ 15"
proof
  assume s: "\<not> signbit y"
  show "y = ld_pos (uint (ld_m y)) (uint (ld_se y))" by (simp add: ld_pos_def)
  have "drop_bit 15 (ld_se y) = 0" using s by (simp add: signbit_def)
  then have "uint (ld_se y) div 2 ^ 15 = 0" using uint_lt_64k [of "ld_se y"]
    by (simp only: uint_0_iff [symmetric] unsigned_drop_bit_eq) (simp add: drop_bit_eq_div take_bit_eq_mod mod_pos_pos_trivial)
  then show "uint (ld_se y) < 2 ^ 15" using unsigned_greater_eq [of "ld_se y"] by auto
qed

text \<open>\<open>frexpl\<close> of a finite number that is not zero: it returns, and the fraction is at least one half and below one.\<close>

lemma frexpl_normal:
  assumes "2 ^ 63 \<le> m" "m < 2 ^ 64" "0 < s" "s < 0x7fff"
  shows "frexpl fuel (ld_pos m s) e = Some (ld_pos m 0x3ffe, s - 0x3ffe)"
proof -
  have f: "(of_int s :: u16) AND 0x7fff \<noteq> 0" "(of_int s :: u16) AND 0x7fff \<noteq> 0x7fff" "uint ((of_int s :: u16) AND 0x7fff) = s"
    using assms(3,4) exponent_field_eq [of s 0] exponent_field_eq [of s "0x7fff"] exponent_field [of s] by simp_all
  have "\<not> bit (of_int s :: u16) 15" using assms(3,4) by (simp only: bit_word_of_int_iff) (simp add: bit_iff_odd)
  then have "(of_int s :: u16) AND 2 ^ 15 = 0" by (simp only: and_exp_eq_0_iff_not_bit not_False_eq_True)
  then have "(of_int s :: u16) AND 0x8000 = 0" by simp
  then show ?thesis using f by (simp add: frexpl.simps [of fuel] ld_pos_def Let_def)
qed

lemma frexpl_pos:
  assumes "\<not> signbit y" "isfinite y" "ld_true y"
  obtains m e' where "frexpl 1 y e = Some (ld_pos m 0x3ffe, e')" "2 ^ 63 \<le> m" "m < 2 ^ 64"
proof -
  obtain m s where y: "y = ld_pos m s" "0 \<le> m" "m < 2 ^ 64" "0 \<le> s" "s < 2 ^ 15"
    using ld_pos_bits [OF assms(1)] unsigned_less [of "ld_m y"] by fastforce
  have s: "s \<noteq> 0x7fff" using class_pos(1) [OF y(2-5)] assms(2) y(1) by auto
  have cl: "fpclassifyl y = (if s = 0 \<and> m < 2 ^ 63 then (if m \<noteq> 0 then FP_SUBNORMAL else FP_ZERO) else if m < 2 ^ 63 then FP_NAN else FP_NORMAL)"
    using class_pos(2) [OF y(2-5) s] y(1) by simp
  then have m: "0 < m" "s = 0 \<or> 2 ^ 63 \<le> m" using assms(2,3) y(2) by (auto simp: ld_true_def split: if_splits)
  show ?thesis
  proof (cases "s = 0")
    case False
    then show ?thesis using frexpl_normal [of m s 1 e] that [of m "s - 0x3ffe"] y m s by auto
  next
    case True
    have b: "1 \<le> bit_length m" using bit_length_bounds [OF m(1)] by simp
    have "(2 :: int) ^ nat (bit_length m - 1) < 2 ^ 64" using bit_length_bounds [OF m(1)] y(3) by linarith
    then have "nat (bit_length m - 1) < 64" by (simp only: power_strict_increasing_iff [of "2 :: int"] one_less_numeral_iff semiring_norm)
    then have L: "bit_length m \<le> 64" by linarith
    have c: "ld_const 1 120 = ld_pos (2 ^ 63) (120 + 16383)" using ld_pow2 [of 120 0] by (simp add: ld_const_def)
    obtain q where q: "ld_mul (ld_pos m s) (ld_pos (2 ^ 63) (120 + 16383)) = ld_pos q (max 1 s + 120 + bit_length m - 64)"
      "2 ^ 63 \<le> q" "q < 2 ^ 64"
      by (rule ld_mul_pow2 [of m s 120]) (use m y b L True in auto)
    have "ld_se y AND 0x7fff = 0" using True y(1) by (simp add: ld_pos_def)
    then have "frexpl 1 y e = map_option (\<lambda>(y, e). (y, e - 120)) (frexpl 0 (ld_pos q (max 1 s + 120 + bit_length m - 64)) e)"
      using assms(3) q(1) c y(1) by (simp add: frexpl.simps [of "Suc 0" "ld_pos m s"])
    moreover have "frexpl 0 (ld_pos q (max 1 s + 120 + bit_length m - 64)) e = Some (ld_pos q 0x3ffe, max 1 s + 120 + bit_length m - 64 - 0x3ffe)"
      by (rule frexpl_normal [OF q(2,3)]) (use b L True in auto)
    ultimately show ?thesis using that q(2,3) by simp
  qed
qed

lemma ld_mul_normal:
  assumes "2 ^ 63 \<le> m" "m < 2 ^ 64" "0 < s" "s < 0x7fff" "0 < k + 16383" "k + 16383 < 0x7fff" "0 < s + k" "s + k < 0x7fff"
  shows "ld_mul (ld_pos m s) (ld_pos (2 ^ 63) (k + 16383)) = ld_pos m (s + k)"
proof -
  have L: "bit_length m = 64" using bit_length_unique [of 63 m] assms(1,2) by simp
  obtain q where "ld_mul (ld_pos m s) (ld_pos (2 ^ 63) (k + 16383)) = ld_pos q (max 1 s + k + bit_length m - 64)"
    "q * 2 ^ nat (bit_length m - 1) = m * 2 ^ 63"
    by (rule ld_mul_pow2 [of m s k]) (use assms L in auto)
  then show ?thesis using L assms(3) by simp
qed

lemma fraction_limb:
  assumes "2 ^ 63 \<le> m" "m < 2 ^ 64"
  shows "ld_mul (ld_pos m 0x3ffe) (ld_of_int 2) = ld_pos m 0x3fff" "ld_true (ld_pos m 0x3fff)"
    and "2 ^ 28 \<le> ld_trunc (ld_mul (ld_pos m 0x3fff) (ld_const 1 28))" "ld_trunc (ld_mul (ld_pos m 0x3fff) (ld_const 1 28)) < 2 ^ 29"
proof -
  have c: "ld_of_int 2 = ld_pos (2 ^ 63) (1 + 16383)" "ld_const 1 28 = ld_pos (2 ^ 63) (28 + 16383)"
    using ld_pow2 [of 0 1] ld_pow2 [of 28 0] by (simp_all add: ld_of_int_def ld_const_def)
  show "ld_mul (ld_pos m 0x3ffe) (ld_of_int 2) = ld_pos m 0x3fff"
    unfolding c using ld_mul_normal [of m "0x3ffe" 1] assms by simp
  show "ld_true (ld_pos m 0x3fff)" using class_pos(2) [of m "0x3fff"] assms by (simp add: ld_true_def)
  have y: "ld_mul (ld_pos m 0x3fff) (ld_const 1 28) = ld_pos m 16411"
    unfolding c using ld_mul_normal [of m "0x3fff" 28] assms by simp
  have t: "ld_trunc (ld_pos m 16411) = m div 2 ^ 35"
    using assms signbit_pos [of 16411 m] by (simp add: ld_trunc_def)
  show "2 ^ 28 \<le> ld_trunc (ld_mul (ld_pos m 0x3fff) (ld_const 1 28))" "ld_trunc (ld_mul (ld_pos m 0x3fff) (ld_const 1 28)) < 2 ^ 29"
    unfolding y t using assms by auto
qed

section \<open>Signs and zero\<close>

lemma signbit_bit: "signbit u \<longleftrightarrow> bit (ld_se u) 15"
proof -
  have "drop_bit 15 (ld_se u) = 0 \<longleftrightarrow> \<not> bit (ld_se u) 15"
  proof
    assume "drop_bit 15 (ld_se u) = 0"
    then have "\<not> bit (drop_bit 15 (ld_se u)) 0" by simp
    then show "\<not> bit (ld_se u) 15" by (simp add: bit_drop_bit_eq)
  next
    assume n: "\<not> bit (ld_se u) 15"
    have "\<not> bit (ld_se u) (15 + k)" for k using n by (cases k) (auto dest: bit_imp_le_length)
    then show "drop_bit 15 (ld_se u) = 0" by (intro bit_eqI) (simp add: bit_drop_bit_eq add.commute)
  qed
  then show ?thesis by (simp add: signbit_def)
qed

lemma signbit_neg: "signbit (ld_neg u) \<longleftrightarrow> \<not> signbit u"
proof -
  have "bit (0x8000 :: u16) 15" by simp
  then show ?thesis by (simp add: signbit_bit ld_neg_def bit_xor_iff)
qed

lemma class_zero: "fpclassifyl u = FP_ZERO \<Longrightarrow> ld_m u = 0 \<and> ld_se u AND 0x7fff = 0"
  by (auto simp: fpclassifyl_def Let_def split: if_splits)

lemma frexpl_zero: "\<not> ld_true u \<Longrightarrow> frexpl fuel u e = Some (u, 0)"
  using class_zero [of u] by (simp add: frexpl.simps [of fuel u] ld_true_def)

lemma ld_mul_zero:
  assumes "\<not> ld_true u" "isfinite v"
  shows "\<not> ld_true (ld_mul u v)"
proof -
  have u: "fpclassifyl u = FP_ZERO" "mantissa u = 0" using assms(1) class_zero [of u] by (simp_all add: ld_true_def mantissa_def)
  have "ld_mul u v = \<lparr>ld_m = 0, ld_se = ld_sign (signbit u \<noteq> signbit v)\<rparr>"
    using u assms(2) by (auto simp: ld_mul_def Let_def ld_round_def)
  then show ?thesis by (simp add: ld_true_def fpclassifyl_def ld_sign_def Let_def)
qed

text \<open>The number that \<open>fmt_fp\<close> works on: between one and two, or zero with the exponent zero.\<close>

lemma frexpl_scaled:
  assumes "\<not> signbit y" "isfinite y"
  obtains f e where "frexpl 1 y 0 = Some (f, e)"
    "(\<exists>m. ld_mul f (ld_of_int 2) = ld_pos m 0x3fff \<and> 2 ^ 63 \<le> m \<and> m < 2 ^ 64) \<or> \<not> ld_true (ld_mul f (ld_of_int 2)) \<and> e = 0"
proof (cases "ld_true y")
  case True
  obtain m e where "frexpl 1 y 0 = Some (ld_pos m 0x3ffe, e)" "2 ^ 63 \<le> m" "m < 2 ^ 64"
    using frexpl_pos [OF assms True] by blast
  then show ?thesis using that fraction_limb(1) [of m] by blast
next
  case False
  have "ld_of_int 2 = ld_pos (2 ^ 63) (1 + 16383)" using ld_pow2 [of 0 1] by (simp add: ld_of_int_def ld_const_def)
  then have "isfinite (ld_of_int 2)" using class_pos(2) [of "2 ^ 63" "1 + 16383"] by simp
  then show ?thesis using that [OF frexpl_zero [OF False]] ld_mul_zero [OF False] by blast
qed

end
