(* ===== verification/Fmt_Fp_Limbs.thy ===== *)
theory Fmt_Fp_Limbs
  imports Fmt_Fp Long_Double_Exact
begin

text \<open>
  The array of limbs of \<open>fmt_fp\<close>: the decimal exponent counts the digits before the radix point, from the
  expansion of the number through scaling and rounding.
\<close>

section \<open>Digits of a limb\<close>

definition limb_length :: "u32 \<Rightarrow> int" where
  "limb_length v = max 1 (int (length (fmt_u (ucast v) [])))"

lemma limb_length_digits: "limb_length v = max 1 (int (length (digits 10 (unat v))))"
  by (simp add: limb_length_def fmt_u_digits unat_ucast64)

lemma digits_lower: "length (digits 10 n) \<le> k \<Longrightarrow> n < 10 ^ k"
proof (induction k arbitrary: n)
  case 0
  then show ?case by (cases "n = 0") (simp_all add: digits.simps [of 10 n])
next
  case (Suc k)
  show ?case
  proof (cases "n = 0")
    case False
    then have "n div 10 < 10 ^ k" using Suc by (simp add: digits.simps [of 10 n])
    then show ?thesis by (simp add: div_less_iff_less_mult)
  qed simp
qed

lemma digits_length_le: "length (digits 10 n) \<le> k \<longleftrightarrow> n < 10 ^ k"
  using digits_lower [of n k] digits_bound [of 10 n k] by auto

lemma limb_length_0 [simp]: "limb_length 0 = 1"
  by (simp add: limb_length_digits digits.simps)

lemma limb_length_pos: "1 \<le> limb_length v"
  by (simp add: limb_length_digits)

lemma limb_length_le_9: "unat v < 10 ^ 9 \<Longrightarrow> limb_length v \<le> 9"
  using digits_length_le [of "unat v" 9] by (simp add: limb_length_digits)

lemma limb_length_mono: "u \<le> v \<Longrightarrow> limb_length u \<le> limb_length v"
proof -
  assume "u \<le> v"
  moreover have "unat v < 10 ^ length (digits 10 (unat v))" using digits_length_le [of "unat v"] by blast
  ultimately have "unat u < 10 ^ length (digits 10 (unat v))" by (simp add: word_le_nat_alt)
  then have "length (digits 10 (unat u)) \<le> length (digits 10 (unat v))" unfolding digits_length_le .
  then show ?thesis by (simp add: limb_length_digits)
qed

text \<open>The loop that counts the digits of the first limb; its result bounds the limb.\<close>

lemma count_digits_step:
  "count_digits v i e = Some e' \<Longrightarrow> i \<le> unat v \<Longrightarrow> int (10 * i) \<le> INT_MAX \<and> count_digits v (10 * i) (e + 1) = Some e'"
  "count_digits v i e = Some e' \<Longrightarrow> \<not> i \<le> unat v \<Longrightarrow> e' = e"
  by (simp_all add: count_digits.simps [of v i e] split: if_splits)

lemma count_digits_value:
  assumes "count_digits v (10 ^ Suc k) e = Some e'"
  shows "e' = e + max 0 (int (length (digits 10 (unat v))) - int (Suc k)) \<and> (k < 9 \<longrightarrow> unat v < 10 ^ 9)"
  using assms
proof (induction "9 - k" arbitrary: k e rule: less_induct)
  case less
  show ?case
  proof (cases "unat v \<ge> 10 ^ Suc k")
    case True
    then have i: "int (10 * 10 ^ Suc k) \<le> INT_MAX" "count_digits v (10 ^ Suc (Suc k)) (e + 1) = Some e'"
      using count_digits_step(1) [OF less.prems True] by simp_all
    have k: "k < 8"
    proof (rule ccontr)
      assume "\<not> k < 8"
      then have "(10 :: int) ^ 10 \<le> 10 ^ Suc (Suc k)" by (intro power_increasing) auto
      then show False using i(1) by (simp add: INT_MAX_def)
    qed
    then have r: "e' = e + 1 + max 0 (int (length (digits 10 (unat v))) - int (Suc (Suc k)))" "unat v < 10 ^ 9"
      using less.hyps [OF _ i(2)] by auto
    moreover have "\<not> length (digits 10 (unat v)) \<le> Suc k" using True unfolding digits_length_le by simp
    ultimately show ?thesis by auto
  next
    case False
    then have "e' = e" by (rule count_digits_step(2) [OF less.prems])
    moreover have "length (digits 10 (unat v)) \<le> Suc k" using False unfolding digits_length_le by simp
    moreover have "unat v < 10 ^ 9" if "k < 9"
    proof -
      have "(10 :: nat) ^ Suc k \<le> 10 ^ 9" using that by (intro power_increasing) auto
      then show ?thesis using False by linarith
    qed
    ultimately show ?thesis by auto
  qed
qed

lemma limb_exponent_value:
  assumes "limb_exponent r a b = Some e"
  obtains v where "b a = Some v" "unat v < 10 ^ 9" "e = 9 * (r - a) + limb_length v - 1"
proof -
  obtain v where v: "b a = Some v" "count_digits v 10 (9 * (r - a)) = Some e"
    using assms by (auto simp: limb_exponent_def bind_eq_Some_conv)
  then show ?thesis
    using that [of v] count_digits_value [of v 0 "9 * (r - a)" e] by (auto simp: limb_length_digits)
qed

section \<open>The invariant\<close>

text \<open>
  The first limb holds the first digit and the exponent counts from there; below it there are only zeros;
  a number without digits before the radix point has the limb 0 there.
\<close>

definition first_limb :: "int \<Rightarrow> int \<Rightarrow> int \<Rightarrow> big \<Rightarrow> bool" where
  "first_limb r a e b \<longleftrightarrow> (\<exists>v. b a = Some v \<and> unat v < 10 ^ 9 \<and> e = 9 * (r - a) + limb_length v - 1)"

definition zeros_below :: "int \<Rightarrow> big \<Rightarrow> bool" where
  "zeros_below a b \<longleftrightarrow> (\<forall>d < a. b d \<in> {None, Some 0})"

definition limbs_ok :: "int \<Rightarrow> int \<Rightarrow> int \<Rightarrow> big \<Rightarrow> bool" where
  "limbs_ok r a e b \<longleftrightarrow> (if a \<le> r then first_limb r a e b else b r = Some 0 \<and> e \<le> 0)"

lemma limb_exponent_first: "limb_exponent r a b = Some e \<Longrightarrow> first_limb r a e b"
  by (erule limb_exponent_value) (auto simp: first_limb_def)

lemma first_limb_ok:
  assumes "first_limb r a e b" "a > r \<Longrightarrow> b r = Some 0"
  shows "limbs_ok r a e b"
proof -
  obtain v where v: "unat v < 10 ^ 9" "e = 9 * (r - a) + limb_length v - 1" using assms(1) by (auto simp: first_limb_def)
  then show ?thesis using limb_length_le_9 [OF v(1)] assms by (auto simp: limbs_ok_def)
qed

section \<open>Expansion and scaling\<close>

lemma put_limb_Some: "put_limb d v b = Some b' \<longleftrightarrow> 0 \<le> d \<and> d < big_size \<and> b' = b(d := Some v)"
  by (auto simp: put_limb_def)

lemma expand_below: "expand z y b = Some (z', b') \<Longrightarrow> z < z' \<and> (\<forall>d < z. b' d = b d) \<and> b' z = Some (of_int (ld_trunc y))"
proof (induction z y b rule: expand.induct)
  case (1 z y b)
  let ?v = "of_int (ld_trunc y) :: u32"
  let ?y = "ld_mul (ld_of_int 1000000000) (ld_sub y (ld_of_int (uint ?v)))"
  obtain b1 where b1: "put_limb z ?v b = Some b1" using "1.prems" by (auto simp: expand.simps [of z y b] Let_def split: option.splits)
  show ?case
  proof (cases "ld_true ?y")
    case True
    then have "expand (z + 1) ?y b1 = Some (z', b')" using "1.prems" b1 by (simp add: expand.simps [of z y b] Let_def)
    from "1.IH" [OF refl b1 refl True this] show ?thesis using b1 by (auto simp: put_limb_Some)
  next
    case False
    then show ?thesis using "1.prems" b1 by (auto simp: expand.simps [of z y b] Let_def put_limb_Some)
  qed
qed

text \<open>A pass of the multiplication leaves the first limb and the carry as the product of the first limb.\<close>

lemma mul_limbs_below:
  "mul_limbs sh a d carry b = Some (c, b') \<Longrightarrow> (\<forall>k. k < a \<or> d < k \<longrightarrow> b' k = b k)"
proof (induction sh a d carry b rule: mul_limbs.induct)
  case (1 sh a d carry b)
  show ?case
  proof (cases "d \<ge> a")
    case True
    then obtain v b1 where v: "b d = Some v" "put_limb d (ucast ((push_bit sh (ucast v :: u64) + ucast carry) mod 1000000000)) b = Some b1"
      "mul_limbs sh a (d - 1) (ucast ((push_bit sh (ucast v :: u64) + ucast carry) div 1000000000)) b1 = Some (c, b')"
      using "1.prems" by (auto simp: mul_limbs.simps [of sh a d carry b] Let_def bind_eq_Some_conv)
    from "1.IH" [OF True v(1) refl v(2,3)] show ?thesis using v(2) True by (auto simp: put_limb_Some)
  qed (use "1.prems" in \<open>simp add: mul_limbs.simps [of sh a d carry b]\<close>)
qed

lemma mul_limbs_end: "d < a \<Longrightarrow> mul_limbs sh a d carry b = Some (carry, b)"
  by (simp add: mul_limbs.simps [of sh a d])

lemma mul_limbs_first:
  "mul_limbs sh a d carry b = Some (c, b') \<Longrightarrow> a \<le> d \<Longrightarrow> \<exists>v x. b a = Some v \<and> b' a = Some (ucast (x mod 1000000000))
     \<and> c = ucast (x div 1000000000) \<and> (\<exists>cy :: u32. x = push_bit sh (ucast v :: u64) + ucast cy)"
proof (induction sh a d carry b rule: mul_limbs.induct)
  case (1 sh a d carry b)
  obtain v b1 where v: "b d = Some v" "put_limb d (ucast ((push_bit sh (ucast v :: u64) + ucast carry) mod 1000000000)) b = Some b1"
    "mul_limbs sh a (d - 1) (ucast ((push_bit sh (ucast v :: u64) + ucast carry) div 1000000000)) b1 = Some (c, b')"
    using "1.prems" by (auto simp: mul_limbs.simps [of sh a d carry b] Let_def bind_eq_Some_conv)
  show ?case
  proof (cases "a = d")
    case True
    then have "c = ucast ((push_bit sh (ucast v :: u64) + ucast carry) div 1000000000)" "b' = b1"
      using v(3) by (simp_all add: mul_limbs_end)
    then show ?thesis using v(1,2) True by (auto simp: put_limb_Some)
  next
    case False
    then have "a \<le> d - 1" using "1.prems"(2) by simp
    from "1.IH" [OF "1.prems"(2) v(1) refl v(2,3) this] show ?thesis using v(2) False by (auto simp: put_limb_Some)
  qed
qed

text \<open>A first limb that is not zero stays so, and below \<open>10 ^ 9\<close>.\<close>

definition top_limb :: "int \<Rightarrow> big \<Rightarrow> bool" where
  "top_limb a b \<longleftrightarrow> (\<exists>v. b a = Some v \<and> v \<noteq> 0 \<and> unat v < 10 ^ 9)"

lemma top_product:
  fixes v carry :: u32
  assumes "unat v < 10 ^ 9" "v \<noteq> 0" "sh \<le> 29"
  defines "x \<equiv> push_bit sh (ucast v :: u64) + ucast carry"
  shows "ucast (x div 1000000000) = (0 :: u32) \<Longrightarrow> (ucast (x mod 1000000000) :: u32) \<noteq> 0 \<and> unat (ucast (x mod 1000000000) :: u32) < 10 ^ 9"
    and "unat (ucast (x div 1000000000) :: u32) < 10 ^ 9"
proof -
  have p: "unat v * 2 ^ sh < 10 ^ 9 * 2 ^ 29"
    using assms(1,3) power_increasing [of sh 29 "2 :: nat"] by (intro mult_less_le_imp_less) auto
  have "unat (push_bit sh (ucast v :: u64)) = unat v * 2 ^ sh"
    using p by (simp only: unsigned_push_bit_eq unat_ucast64) (simp add: take_bit_eq_mod push_bit_eq_mult)
  then have u: "unat x = unat v * 2 ^ sh + unat carry"
    using p unat32_lt [of carry] by (simp add: x_def unat_word_ariths unat_ucast64)
  have b: "unat x < 10 ^ 9 * 2 ^ 29 + 2 ^ 32" using u p unat32_lt [of carry] by simp
  have d: "unat (ucast (x div 1000000000) :: u32) = unat x div 10 ^ 9" "unat (ucast (x mod 1000000000) :: u32) = unat x mod 10 ^ 9"
    using b by (subst unat_ucast32; simp add: unat_div unat_mod)+
  show "unat (ucast (x div 1000000000) :: u32) < 10 ^ 9" unfolding d using b by simp
  assume "ucast (x div 1000000000) = (0 :: u32)"
  then have "unat x div 10 ^ 9 = 0" using d(1) by simp
  then have "unat x mod 10 ^ 9 = unat x" by simp
  moreover have "0 < unat x" using u assms(2) by (simp add: unat_gt_0)
  ultimately show "(ucast (x mod 1000000000) :: u32) \<noteq> 0 \<and> unat (ucast (x mod 1000000000) :: u32) < 10 ^ 9"
    using d(2) by (metis less_irrefl mod_less_divisor unat_0 zero_less_numeral zero_less_power)
qed

lemma trim_le: "trim a z b = Some z' \<Longrightarrow> z' \<le> z"
proof (induction a z b rule: trim.induct)
  case (1 a z b)
  then show ?case by (fastforce simp: trim.simps [of a z b] split: if_splits option.splits)
qed

lemma trim_top: "trim a z b = Some z' \<Longrightarrow> a < z \<Longrightarrow> top_limb a b \<Longrightarrow> a < z'"
proof (induction a z b rule: trim.induct)
  case (1 a z b)
  obtain v where v: "b (z - 1) = Some v" using 1(2,3) by (auto simp: trim.simps [of a z b] split: option.splits)
  show ?case
  proof (cases "v = 0")
    case True
    then have "a < z - 1" using v 1(3,4) by (cases "a = z - 1") (auto simp: top_limb_def)
    moreover have "trim a (z - 1) b = Some z'" using 1(2,3) v True by (simp add: trim.simps [of a z b])
    ultimately show ?thesis using 1(1) [OF 1(3) v True] 1(4) by blast
  next
    case False
    then show ?thesis using 1(2,3) v by (simp add: trim.simps [of a z b])
  qed
qed

lemma mul_limbs_top:
  assumes "mul_limbs (nat sh) a d 0 b = Some (c, b')" "a \<le> d" "top_limb a b" "0 \<le> sh" "sh \<le> 29"
  shows "if c = 0 then top_limb a b' else unat c < 10 ^ 9"
proof -
  obtain v x and cy :: u32 where v: "b a = Some v" "b' a = Some (ucast (x mod 1000000000))" "c = ucast (x div 1000000000)"
    "x = push_bit (nat sh) (ucast v :: u64) + ucast cy"
    using mul_limbs_first [OF assms(1,2)] by blast
  have "unat v < 10 ^ 9" "v \<noteq> 0" "nat sh \<le> 29" using assms(3-5) v(1) by (auto simp: top_limb_def)
  from top_product [OF this, of cy] show ?thesis using v by (auto simp: top_limb_def)
qed

lemma scale_up_top:
  "scale_up e2 a z b = Some (a', z', b') \<Longrightarrow> a < z \<Longrightarrow> top_limb a b \<Longrightarrow> \<forall>d < a. b d = None
     \<Longrightarrow> a' \<le> a \<and> a' < z' \<and> top_limb a' b' \<and> (\<forall>d < a'. b' d = None)"
proof (induction "nat e2" arbitrary: e2 a z b rule: less_induct)
  case less
  show ?case
  proof (cases "e2 > 0")
    case True
    define sh where "sh = min 29 e2"
    obtain c b1 a2 b2 z2 where s: "mul_limbs (nat sh) a (z - 1) 0 b = Some (c, b1)"
      "(if c \<noteq> 0 then map_option (Pair (a - 1)) (put_limb (a - 1) c b1) else Some (a, b1)) = Some (a2, b2)"
      "trim a2 z b2 = Some z2" "scale_up (e2 - sh) a2 z2 b2 = Some (a', z', b')"
      using less.prems(1) True by (auto simp: scale_up.simps [of e2 a z b] Let_def bind_eq_Some_conv sh_def)
    have sh: "0 \<le> sh" "sh \<le> 29" "nat (e2 - sh) < nat e2" using True by (auto simp: sh_def min_def)
    have 1: "if c = 0 then top_limb a b1 else unat c < 10 ^ 9"
      by (rule mul_limbs_top [OF s(1) _ less.prems(3) sh(1,2)]) (use less.prems(2) in simp)
    have 2: "\<forall>d < a. b1 d = None" using mul_limbs_below [OF s(1)] less.prems(4) by auto
    have 3: "a2 \<le> a" "top_limb a2 b2" "\<forall>d < a2. b2 d = None"
      using s(2) 1 2 by (auto simp: top_limb_def put_limb_Some split: if_splits)
    have "a2 < z2" using trim_top [OF s(3) _ 3(2)] 3(1) less.prems(2) by simp
    from less.hyps [OF sh(3) s(4) this 3(2,3)] show ?thesis using 3(1) by auto
  qed (use less.prems in \<open>simp add: scale_up.simps [of e2 a z b]\<close>)
qed

lemma div_limbs_below: "div_limbs sh d z carry b = Some (c, b') \<Longrightarrow> (\<forall>k < d. b' k = b k)"
proof (induction sh d z carry b rule: div_limbs.induct)
  case (1 sh d z carry b)
  show ?case
  proof (cases "d < z")
    case True
    then obtain v b1 where v: "b d = Some v" "put_limb d (drop_bit sh v + carry) b = Some b1"
      "div_limbs sh (d + 1) z (drop_bit sh 1000000000 * (v AND (push_bit sh 1 - 1))) b1 = Some (c, b')"
      using "1.prems" by (auto simp: div_limbs.simps [of sh d z carry b] Let_def bind_eq_Some_conv)
    from "1.IH" [OF True v(1) refl v(2,3)] show ?thesis using v(2) by (auto simp: put_limb_Some)
  qed (use "1.prems" in \<open>simp add: div_limbs.simps [of sh d z carry b]\<close>)
qed

text \<open>The division keeps the zeros that it leaves behind.\<close>

lemma scale_down_zeros:
  "scale_down is_f p r e2 a z b = Some (a', z', b') \<Longrightarrow> 0 \<le> p \<Longrightarrow> r \<le> a \<Longrightarrow> r < z
     \<Longrightarrow> (\<forall>d < r. b d = None) \<Longrightarrow> (\<forall>d. r \<le> d \<and> d < a \<longrightarrow> b d = Some 0)
     \<Longrightarrow> r \<le> a' \<and> r < z' \<and> (\<forall>d < r. b' d = None) \<and> (\<forall>d. r \<le> d \<and> d < a' \<longrightarrow> b' d = Some 0)"
proof (induction "nat (- e2)" arbitrary: e2 a z b rule: less_induct)
  case less
  show ?case
  proof (cases "e2 < 0")
    case True
    define sh need where "sh = min 9 (- e2)" and "need = 1 + (p + LDBL_MANT_DIG div 3 + 8) div 9"
    obtain c b1 v z2 b2 where s: "div_limbs (nat sh) a z 0 b = Some (c, b1)" "b1 a = Some v"
      "(if c \<noteq> 0 then map_option (Pair (z + 1)) (put_limb z c b1) else Some (z, b1)) = Some (z2, b2)"
      "scale_down is_f p r (e2 + sh) (if v = 0 then a + 1 else a)
         (if z2 - (if is_f then r else if v = 0 then a + 1 else a) > need
          then (if is_f then r else if v = 0 then a + 1 else a) + need else z2) b2 = Some (a', z', b')"
      using less.prems(1) True unfolding sh_def need_def
      by (auto simp: scale_down.simps [of is_f p r e2 a z b] Let_def bind_eq_Some_conv split del: if_split)
    have n: "1 \<le> need" using less.prems(2) by (simp add: need_def LDBL_MANT_DIG_def)
    have below: "\<forall>k < a. b1 k = b k" by (rule div_limbs_below [OF s(1)])
    have "c = 0" if "z \<le> a" using s(1) that by (simp add: div_limbs.simps [of _ a z])
    then have b2: "\<forall>k \<le> a. b2 k = b1 k" "z \<le> z2" using s(3) by (auto simp: put_limb_Some split: if_splits)
    let ?a = "if v = 0 then a + 1 else a"
    have "\<forall>d < r. b2 d = None" using below b2(1) less.prems(3,5) by auto
    moreover have "\<forall>d. r \<le> d \<and> d < ?a \<longrightarrow> b2 d = Some 0"
    proof (intro allI impI)
      fix d assume d: "r \<le> d \<and> d < ?a"
      then have "b2 d = b1 d" using b2(1) by (auto split: if_splits)
      moreover have "b1 d = Some 0" using d below s(2) less.prems(6) by (cases "d = a") (auto split: if_splits)
      ultimately show "b2 d = Some 0" by simp
    qed
    moreover have "nat (- (e2 + sh)) < nat (- e2)" using True by (auto simp: sh_def min_def)
    ultimately show ?thesis
      using less.hyps [OF _ s(4) less.prems(2)] n b2(2) less.prems(3,4) by auto
  qed (use less.prems in \<open>simp add: scale_down.simps [of is_f p r e2 a z b]\<close>)
qed

text \<open>The limbs of the fraction that \<open>frexpl\<close> yields, and those of zero.\<close>

lemma fp_limbs_ok:
  assumes "fp_limbs y e2 t p = Some (r, a, z, e, b)" "0 \<le> p"
    and "(\<exists>m. y = ld_pos m 0x3fff \<and> 2 ^ 63 \<le> m \<and> m < 2 ^ 64) \<or> \<not> ld_true y \<and> e2 = 0"
  shows "limbs_ok r a e b \<and> zeros_below a b \<and> (a < z \<longrightarrow> first_limb r a e b)"
proof -
  define y1 e3 where "y1 = (if ld_true y then ld_mul y (ld_const 1 28) else y)" and "e3 = (if ld_true y then e2 - 28 else e2)"
  obtain z1 b1 a2 z2 b2 where s: "expand r y1 (\<lambda>_. None) = Some (z1, b1)" "scale_up e3 r z1 b1 = Some (a2, z2, b2)"
    "scale_down (t OR 32 = 0x66) p r e3 a2 z2 b2 = Some (a, z, b)" "(if a < z then limb_exponent r a b else Some 0) = Some e"
    using assms(1) unfolding y1_def e3_def
    by (cases "ld_true y") (auto simp: fp_limbs_def Let_def bind_eq_Some_conv split del: if_split cong: if_cong)
  have 1: "r < z1" "\<forall>d < r. b1 d = None" "b1 r = Some (of_int (ld_trunc y1))" using expand_below [OF s(1)] by auto
  have first: "a < z \<Longrightarrow> first_limb r a e b" using s(4) by (auto intro: limb_exponent_first)
  show ?thesis
  proof (cases "e3 > 0")
    case True
    then have y: "ld_true y" using assms(3) fraction_limb(2) by (auto simp: e3_def)
    then obtain m where m: "y = ld_pos m 0x3fff" "2 ^ 63 \<le> m" "m < 2 ^ 64" using assms(3) by auto
    have v: "2 ^ 28 \<le> ld_trunc y1" "ld_trunc y1 < 2 ^ 29" using fraction_limb(3,4) [OF m(2,3)] y m(1) by (simp_all add: y1_def)
    then have "unat (of_int (ld_trunc y1) :: u32) = nat (ld_trunc y1)" by (simp add: unat_eq_nat_uint uint_word_of_int)
    then have "top_limb r b1" using v 1(3) by (auto simp: top_limb_def unat_gt_0 [symmetric])
    from scale_up_top [OF s(2) 1(1) this 1(2)] have 2: "a2 \<le> r" "a2 < z2" "\<forall>d < a2. b2 d = None" by auto
    have "a = a2 \<and> z = z2 \<and> b = b2" using s(3) True by (simp add: scale_down.simps [of _ p r e3])
    then show ?thesis using 2 first by (auto simp: zeros_below_def intro!: first_limb_ok)
  next
    case False
    then have "a2 = r \<and> z2 = z1 \<and> b2 = b1" using s(2) by (simp add: scale_up.simps [of e3])
    then have 2: "r \<le> a" "r < z" "\<forall>d < r. b d = None" "\<forall>d. r \<le> d \<and> d < a \<longrightarrow> b d = Some 0"
      using scale_down_zeros [OF s(3) assms(2)] 1 by auto
    have zb: "zeros_below a b" unfolding zeros_below_def using 2(3,4) by (metis insertCI not_less)
    show ?thesis
    proof (cases "a < z")
      case True
      then show ?thesis using first zb 2(1,4) by (auto intro!: first_limb_ok)
    next
      case z: False
      then have "e = 0" using s(4) by simp
      then show ?thesis using z zb 2 by (auto simp: limbs_ok_def)
    qed
  qed
qed

section \<open>Rounding\<close>

text \<open>The carry leaves the limbs below alone and the first limb does not get smaller.\<close>

lemma carry_up_below:
  "carry_up d a b = Some (d', a', b') \<Longrightarrow> a \<le> d \<Longrightarrow> b a = Some u \<Longrightarrow> (a < d \<longrightarrow> unat u < 10 ^ 9)
     \<Longrightarrow> (\<forall>k < a'. b' k = b k) \<and> (a' = a \<and> (\<exists>u'. b' a = Some u' \<and> u \<le> u') \<or> a' = a - 1 \<and> b' a' = Some 1)"
proof (induction d a b arbitrary: u rule: carry_up.induct)
  case (1 d a b)
  obtain v where v: "b d = Some v" using "1.prems"(1) by (auto simp: carry_up.simps [of d a b] split: option.splits)
  show ?case
  proof (cases "v > 999999999")
    case False
    then show ?thesis using "1.prems"(1,3) v by (auto simp: carry_up.simps [of d a b])
  next
    case True
    obtain b1 a2 b2 v2 b3 where s: "put_limb d 0 b = Some b1"
      "(if d - 1 < a then map_option (Pair (a - 1)) (put_limb (a - 1) 0 b1) else Some (a, b1)) = Some (a2, b2)"
      "b2 (d - 1) = Some v2" "put_limb (d - 1) (v2 + 1) b2 = Some b3" "carry_up (d - 1) a2 b3 = Some (d', a', b')"
      using "1.prems"(1) v True
      by (auto simp: carry_up.simps [of d a b] Let_def bind_eq_Some_conv split: option.splits split del: if_split)
    show ?thesis
    proof (cases "a = d")
      case eq: True
      then have "a2 = a - 1" "b3 = b(d := Some 0, a - 1 := Some 1)" using s(1-4) by (auto simp: put_limb_Some)
      then have "a' = a - 1" "b' = b(d := Some 0, a - 1 := Some 1)"
        using s(5) eq by (auto simp: carry_up.simps [of "d - 1"])
      then show ?thesis using eq by auto
    next
      case False
      then have ad: "a \<le> d - 1" "a2 = a" "b2 = b1" using "1.prems"(2) s(2) by auto
      have b3: "b3 = b(d := Some 0, d - 1 := Some (v2 + 1))" using s(1,4) ad by (auto simp: put_limb_Some)
      obtain u1 where u1: "b3 a = Some u1" "u \<le> u1" "a < d - 1 \<longrightarrow> unat u1 < 10 ^ 9"
      proof (cases "a = d - 1")
        case eq: True
        then have "v2 = u" using s(1,3) ad False "1.prems"(3) by (auto simp: put_limb_Some)
        moreover have "u \<le> u + 1"
        proof -
          have "unat u + 1 < 2 ^ 32" using "1.prems"(2,4) False by auto
          then show ?thesis by (simp add: word_le_nat_alt unat_word_ariths)
        qed
        ultimately show ?thesis using that [of "u + 1"] b3 eq by simp
      next
        case neq: False
        then show ?thesis using that [of u] b3 False "1.prems"(3,4) ad by auto
      qed
      have ih: "(\<forall>k < a'. b' k = b3 k) \<and> (a' = a \<and> (\<exists>u'. b' a = Some u' \<and> u1 \<le> u') \<or> a' = a - 1 \<and> b' a' = Some 1)"
        by (rule "1.IH" [OF v True s(1) refl s(2) refl s(3,4), unfolded ad(2)])
          (use s(5) ad u1 in simp_all)
      then have "a' \<le> a" by auto
      then have "\<forall>k < a'. b3 k = b k" using ad False b3 by auto
      then show ?thesis using ih u1(2) by (auto intro: order_trans)
    qed
  qed
qed

text \<open>Adding one half to \<open>2 ^ 64\<close> does not change it.\<close>

lemma round_down:
  "\<not> ld_ne (ld_add (ld_const 1 64) (ld_const 1 (- 1))) (ld_const 1 64)"
  "\<not> ld_ne (ld_add (ld_mul (ld_const 1 64) (ld_of_int (- 1))) (ld_mul (ld_const 1 (- 1)) (ld_of_int (- 1)))) (ld_mul (ld_const 1 64) (ld_of_int (- 1)))"
  by code_simp+

lemma unit_value: "n \<le> 9 \<Longrightarrow> unat ((10 :: u32) ^ n) = 10 ^ n"
proof -
  assume "n \<le> 9"
  then have "(10 :: nat) ^ n \<le> 10 ^ 9" by (intro power_increasing) auto
  moreover have "(10 :: u32) ^ n = of_nat (10 ^ n)" by simp
  ultimately show ?thesis by (simp only: unat_of_nat) simp
qed

text \<open>
  Rounding at a limb \<open>d\<close>: the exponent does not get smaller, and when the limb lies behind the radix point the
  invariant is kept.
\<close>

lemma round_limb_ok:
  assumes "round_limb neg r i d (a, z, e, b) = Some (d', a', z', e', b')" "d < z" "2 \<le> unat i" "unat i \<le> 10 ^ 9"
    and "limbs_ok r a e b" "zeros_below a b" "a < z \<longrightarrow> first_limb r a e b"
  shows "e \<le> e' \<and> (r < d \<longrightarrow> limbs_ok r a' e' b')"
proof -
  obtain v where v: "b d = Some v" using assms(1) by (auto simp: round_limb_def bind_eq_Some_conv)
  define x where "x = v mod i"
  consider (exact) "x = 0" "d + 1 = z" | (inexact) "x \<noteq> 0 \<or> d + 1 \<noteq> z" by blast
  then show ?thesis
  proof cases
    case exact
    then show ?thesis using assms(1,5) v by (simp add: round_limb_def x_def)
  next
    case inexact
    have down: ?thesis if "a' = a" "e' = e" "b' = b(d := Some w)" for w
    proof -
      have "limbs_ok r a e (b(d := Some w))" if "r < d"
        using assms(5) that by (auto simp: limbs_ok_def first_limb_def)
      then show ?thesis using that by auto
    qed
    obtain o' b1 where o: "(if (v div i) AND 1 \<noteq> 0 then Some True
        else if i = 1000000000 \<and> d > a then map_option (\<lambda>v. v AND 1 \<noteq> 0) (b (d - 1)) else Some False) = Some o'"
      "put_limb d (v - x) b = Some b1"
      using assms(1) v inexact by (auto simp: round_limb_def x_def Let_def bind_eq_Some_conv split del: if_split)
    define R0 where "R0 = (if o' then ld_add (ld_const 1 64) (ld_of_int 2) else ld_const 1 64)"
    define S0 where "S0 = (if x < i div 2 then ld_const 1 (- 1) else if x = i div 2 \<and> d + 1 = z then ld_of_int 1 else ld_const 3 (- 1))"
    define R where "R = (if neg then ld_mul R0 (ld_of_int (- 1)) else R0)"
    define S where "S = (if neg then ld_mul S0 (ld_of_int (- 1)) else S0)"
    have step: "(if ld_ne (ld_add R S) R
        then do { b \<leftarrow> put_limb d (v - x + i) b1; (d, a, b) \<leftarrow> carry_up d a b; e \<leftarrow> limb_exponent r a b; Some (d, a, z, e, b) }
        else Some (d, a, z, e, b1)) = Some (d', a', z', e', b')"
      using assms(1)
      unfolding round_limb_def prod.case v Option.bind_lunit Let_def x_def [symmetric] if_P [OF inexact] o
        R0_def [symmetric] S0_def [symmetric] R_def [symmetric] S_def [symmetric] .
    have b1: "b1 = b(d := Some (v - x))" using o(2) by (simp add: put_limb_Some)
    show ?thesis
    proof (cases "ld_ne (ld_add R S) R")
      case False
      then show ?thesis using step b1 by (intro down [of "v - x"]) auto
    next
      case up: True
      have "a \<le> d"
      proof (rule ccontr)
        assume "\<not> a \<le> d"
        then have "b d \<in> {None, Some 0}" using assms(6) by (simp add: zeros_below_def)
        then have "v = 0" using v by simp
        then have "x = 0" "\<not> o'" using o(1) \<open>\<not> a \<le> d\<close> by (auto simp: x_def split: if_splits)
        moreover have "0 < i div 2" using assms(3) by (simp add: word_less_nat_alt unat_div)
        ultimately have "R0 = ld_const 1 64" "S0 = ld_const 1 (- 1)" by (simp_all add: R0_def S0_def)
        then show False using up round_down by (simp add: R_def S_def split: if_splits)
      qed
      then obtain u where u: "b a = Some u" "unat u < 10 ^ 9" "e = 9 * (r - a) + limb_length u - 1"
        using assms(2,7) by (auto simp: first_limb_def)
      define b2 where "b2 = b(d := Some (v - x + i))"
      have c: "carry_up d a b2 = Some (d', a', b')" "limb_exponent r a' b' = Some e'"
        using step up b1 by (auto simp: put_limb_Some bind_eq_Some_conv b2_def)
      obtain u1 where u1: "b2 a = Some u1" "u \<le> u1" "a < d \<longrightarrow> unat u1 < 10 ^ 9"
      proof (cases "a = d")
        case True
        have "x \<le> v" "x < i" using assms(3) by (auto simp: x_def word_le_nat_alt word_less_nat_alt unat_mod)
        then have "unat (v - x + i) = unat v - unat x + unat i"
          using u v True assms(4) by (simp add: unat_word_ariths unat_sub word_le_nat_alt)
        then have "v \<le> v - x + i" using \<open>x < i\<close> by (simp add: word_le_nat_alt word_less_nat_alt)
        then show ?thesis using that [of "v - x + i"] u v True by (simp add: b2_def)
      next
        case False
        then show ?thesis using that [of u] u by (simp add: b2_def)
      qed
      have below: "(\<forall>k < a'. b' k = b2 k) \<and> (a' = a \<and> (\<exists>u'. b' a = Some u' \<and> u1 \<le> u') \<or> a' = a - 1 \<and> b' a' = Some 1)"
        by (rule carry_up_below [OF c(1) \<open>a \<le> d\<close> u1(1,3)])
      obtain w where w: "b' a' = Some w" "e' = 9 * (r - a') + limb_length w - 1" by (rule limb_exponent_value [OF c(2)])
      have "e \<le> e'" using below w u(3) limb_length_le_9 [OF u(2)] limb_length_pos [of w] limb_length_mono [of u w] u1(2)
        by (auto dest: order_trans)
      moreover have "limbs_ok r a' e' b'" if "r < d"
      proof (rule first_limb_ok [OF limb_exponent_first [OF c(2)]])
        assume "r < a'"
        moreover have "a' \<le> a" using below by auto
        ultimately show "b' r = Some 0" using below assms(5) that by (auto simp: limbs_ok_def b2_def)
      qed
      ultimately show ?thesis by blast
    qed
  qed
qed

lemma fp_round_ok:
  assumes "fp_round neg t p r (a, z, e, b) = Some (a', z', e', b')"
    and "limbs_ok r a e b" "zeros_below a b" "a < z \<longrightarrow> first_limb r a e b"
  defines "j \<equiv> p - (if t OR 32 \<noteq> 0x66 then e else 0) - (if t OR 32 = 0x67 \<and> p \<noteq> 0 then 1 else 0)"
  shows "e \<le> e' \<and> (0 \<le> j \<longrightarrow> limbs_ok r a' e' b')"
proof (cases "j < 9 * (z - r - 1)")
  case True
  define k d where "k = (j + 9 * LDBL_MAX_EXP) mod 9" and "d = r + 1 + ((j + 9 * LDBL_MAX_EXP) div 9 - LDBL_MAX_EXP)"
  obtain d' z2 where s: "round_limb neg r (10 ^ nat (9 - k)) d (a, z, e, b) = Some (d', a', z2, e', b')"
    using assms(1) True unfolding fp_round_def prod.case Let_def j_def [symmetric] k_def [symmetric] d_def [symmetric]
    by (auto simp: bind_eq_Some_conv split: if_splits)
  have d: "d = r + 1 + j div 9" by (simp add: d_def)
  have "d < z" unfolding d using True by presburger
  moreover have "nat (9 - k) \<le> 9" "1 \<le> nat (9 - k)" by (simp_all add: k_def)
  then have "unat ((10 :: u32) ^ nat (9 - k)) = 10 ^ nat (9 - k)" "(10 :: nat) ^ 1 \<le> 10 ^ nat (9 - k)" "(10 :: nat) ^ nat (9 - k) \<le> 10 ^ 9"
    by (intro unit_value power_increasing; simp)+
  ultimately have "e \<le> e' \<and> (r < d \<longrightarrow> limbs_ok r a' e' b')"
    by (intro round_limb_ok [OF s]) (use assms(2-4) in auto)
  moreover have "r < d" if "0 \<le> j" unfolding d using that by simp
  ultimately show ?thesis by blast
next
  case False
  then show ?thesis using assms(1,2) unfolding fp_round_def prod.case Let_def j_def [symmetric] by (auto split: if_splits)
qed

text \<open>What \<open>g\<close> chooses: a number without an exponent only if it is rounded behind the radix point.\<close>

lemma letter_table: "list_all (\<lambda>n. (of_nat n :: u8) OR 32 = 0x67 \<longrightarrow> n = 0x67 \<or> n = 0x47) [0..<256]"
  by code_simp

lemma letter_case: "(t :: u8) OR 32 = 0x67 \<Longrightarrow> (t - 1) OR 32 = 0x66 \<and> (t - 2) OR 32 = 0x65"
proof -
  assume "t OR 32 = 0x67"
  then have "unat t = 0x67 \<or> unat t = 0x47"
    using letter_table unat8_lt [of t] by (auto simp: list_all_iff)
  then have "t = 0x67 \<or> t = 0x47" by (simp add: word_unat_eq_iff)
  then show ?thesis by auto
qed

lemma fp_general_ok:
  assumes "fp_general t p fl r (a, z, e, b) = Some (t', p')" "0 \<le> p"
  shows "0 \<le> p' \<and> (t' OR 32 = 0x66 \<longrightarrow> t OR 32 = 0x66 \<or> t OR 32 = 0x67 \<and> max 1 p > e)"
proof (cases "t OR 32 = 0x67")
  case True
  define q where "q = (if p = 0 then 1 else p)"
  have q: "q = max 1 p" "0 < q" using assms(2) by (auto simp: q_def)
  note l = letter_case [OF True]
  show ?thesis
  proof (cases "q > e \<and> e \<ge> - 4")
    case c: True
    then show ?thesis using assms(1) True q l unfolding fp_general_def Let_def q_def [symmetric]
      by (auto simp: bind_eq_Some_conv split: if_splits)
  next
    case c: False
    then show ?thesis using assms(1) True q l unfolding fp_general_def Let_def q_def [symmetric]
      by (auto simp: bind_eq_Some_conv split: if_splits)
  qed
qed (use assms in \<open>simp add: fp_general_def\<close>)

end
