(* ===== verification/Printf_Format.thy ===== *)
theory Printf_Format
  imports Printf_Safety
begin

text \<open>
  Formats as lists of pieces, the text they stand for, and that \<open>printf_core\<close> writes that text.
\<close>

section \<open>Formats\<close>

datatype flag = Alt | Zero | Left | Space | Plus | Group

datatype modifier = M_none | M_hh | M_h | M_l | M_ll | M_z | M_t | M_j

datatype conv = Cd | Ci | Cu | Co | Cx | CX | Cp | Cc | Cs

record dspec =
  d_flags :: "flag list"
  d_width :: nat
  d_prec :: "nat option"
  d_mod :: modifier
  d_conv :: conv

datatype piece = Ch u8 | Dir dspec

fun flag_char :: "flag \<Rightarrow> u8" where
  "flag_char Alt = 0x23" | "flag_char Zero = 0x30" | "flag_char Left = 0x2d"
| "flag_char Space = 0x20" | "flag_char Plus = 0x2b" | "flag_char Group = 0x27"

fun mod_chars :: "modifier \<Rightarrow> u8 list" where
  "mod_chars M_none = []" | "mod_chars M_hh = [0x68, 0x68]" | "mod_chars M_h = [0x68]" | "mod_chars M_l = [0x6c]"
| "mod_chars M_ll = [0x6c, 0x6c]" | "mod_chars M_z = [0x7a]" | "mod_chars M_t = [0x74]" | "mod_chars M_j = [0x6a]"

fun conv_char :: "conv \<Rightarrow> u8" where
  "conv_char Cd = 0x64" | "conv_char Ci = 0x69" | "conv_char Cu = 0x75" | "conv_char Co = 0x6f" | "conv_char Cx = 0x78"
| "conv_char CX = 0x58" | "conv_char Cp = 0x70" | "conv_char Cc = 0x63" | "conv_char Cs = 0x73"

text \<open>A directive as it is written; width 0 is no width.\<close>

definition tail_chars :: "dspec \<Rightarrow> u8 list" where
  "tail_chars d = mod_chars (d_mod d) @ [conv_char (d_conv d)]"

definition prec_chars :: "nat option \<Rightarrow> u8 list" where
  "prec_chars p = (case p of None \<Rightarrow> [] | Some p \<Rightarrow> 0x2e # digits 10 p)"

definition dir_chars :: "dspec \<Rightarrow> u8 list" where
  "dir_chars d = map flag_char (d_flags d) @ digits 10 (d_width d) @ prec_chars (d_prec d) @ tail_chars d"

fun piece_chars :: "piece \<Rightarrow> u8 list" where
  "piece_chars (Ch c) = (if c = 0x25 then [0x25, 0x25] else [c])"
| "piece_chars (Dir d) = 0x25 # dir_chars d"

definition format :: "piece list \<Rightarrow> u8 list" where
  "format ps = concat (map piece_chars ps)"

text \<open>Only integers take length modifiers.\<close>

definition dir_ok :: "dspec \<Rightarrow> bool" where
  "dir_ok d \<longleftrightarrow> (d_conv d \<in> {Cp, Cc, Cs} \<longrightarrow> d_mod d = M_none)
     \<and> int (d_width d) \<le> INT_MAX \<and> (\<forall>p. d_prec d = Some p \<longrightarrow> int p \<le> INT_MAX)"

fun piece_ok :: "piece \<Rightarrow> bool" where
  "piece_ok (Ch c) \<longleftrightarrow> c \<noteq> 0"
| "piece_ok (Dir d) \<longleftrightarrow> dir_ok d"

section \<open>Parsing them back\<close>

subsection \<open>Flags\<close>

fun flag_index :: "flag \<Rightarrow> nat" where
  "flag_index Alt = 3" | "flag_index Zero = 16" | "flag_index Left = 13"
| "flag_index Space = 0" | "flag_index Plus = 11" | "flag_index Group = 7"

definition flag_bits :: "flag list \<Rightarrow> u32" where
  "flag_bits fs = foldl (\<lambda>fl f. fl OR 2 ^ flag_index f) 0 fs"

lemma flag_masks: "ALT_FORM = 2 ^ 3" "ZERO_PAD = 2 ^ 16" "LEFT_ADJ = 2 ^ 13" "PAD_POS = 2 ^ 0" "MARK_POS = 2 ^ 11"
  by (simp_all add: ALT_FORM_def ZERO_PAD_def LEFT_ADJ_def PAD_POS_def MARK_POS_def push_bit_eq_mult)

lemma bit_flags: "bit (foldl (\<lambda>fl f. fl OR (2 :: u32) ^ flag_index f) x fs) k \<longleftrightarrow> bit x k \<or> (\<exists>f \<in> set fs. flag_index f = k)"
proof (induction fs arbitrary: x)
  case (Cons f fs)
  have "flag_index f < 32" by (cases f) simp_all
  then have "bit ((2 :: u32) ^ flag_index f) k \<longleftrightarrow> flag_index f = k" by (auto simp: bit_exp_iff)
  then show ?case using Cons by (auto simp: bit_simps)
qed simp

lemma flag_index_inject [simp]: "flag_index f = flag_index g \<longleftrightarrow> f = g"
  by (cases f; cases g) simp_all

lemma bit_flag_bits: "bit (flag_bits fs) (flag_index f) \<longleftrightarrow> f \<in> set fs"
  by (auto simp: flag_bits_def bit_flags)

definition not_flag :: "u8 list \<Rightarrow> bool" where
  "not_flag s \<longleftrightarrow> (s \<noteq> [] \<longrightarrow> hd s \<notin> flag_char ` UNIV)"

lemma flag_chars: "flag_char ` UNIV = set [0x23, 0x30, 0x2d, 0x20, 0x2b, 0x27]"
proof -
  have U: "(UNIV :: flag set) = set [Alt, Zero, Left, Space, Plus, Group]" using flag.exhaust by auto
  show ?thesis unfolding U by simp
qed

lemma flag_table:
  "list_all (\<lambda>c. ((scast c :: u32) - 0x20 < 32 \<and> FLAGMASK AND push_bit (unat c - 0x20) 1 \<noteq> 0)
     = (c \<in> set [0x23, 0x30, 0x2d, 0x20, 0x2b, 0x27])) (map word_of_nat [0..<256] :: u8 list)"
  by code_simp

lemma all_bytes: "list_all P (map word_of_nat [0..<256]) \<Longrightarrow> P (c :: u8)"
  using unat8_lt [of c] by (auto simp: list_all_iff dest!: bspec [of _ _ "unat c"])

lemma flag_test:
  "(scast c :: u32) - 0x20 < 32 \<and> FLAGMASK AND push_bit (unat c - 0x20) 1 \<noteq> 0 \<longleftrightarrow> c \<in> flag_char ` UNIV"
  unfolding flag_chars by (rule all_bytes [OF flag_table])

lemma read_flags_back:
  "not_flag s \<Longrightarrow> read_flags fl (map flag_char fs @ s) = (foldl (\<lambda>fl f. fl OR 2 ^ flag_index f) fl fs, s)"
proof (induction fs arbitrary: fl)
  case Nil
  then show ?case by (cases s) (use flag_test in \<open>auto simp: not_flag_def\<close>)
next
  case (Cons f fs)
  have "unat (flag_char f) - 0x20 = flag_index f" by (cases f) simp_all
  then show ?case using Cons flag_test [of "flag_char f"] by simp
qed

subsection \<open>Numbers\<close>

lemma digits_elem: "2 \<le> b \<Longrightarrow> c \<in> set (digits b n) \<Longrightarrow> \<exists>d < b. c = digit_char (of_nat d)"
proof (induction b n rule: digits.induct)
  case (1 b n)
  show ?case
  proof (cases "n = 0")
    case False
    then have "c \<in> set (digits b (n div b)) \<or> c = digit_char (of_nat (n mod b))"
      using 1(2,3) by (auto simp: digits.simps [of b n])
    then show ?thesis
    proof
      assume "c = digit_char (of_nat (n mod b))"
      then show ?thesis using 1(2) by (intro exI [of _ "n mod b"]) simp
    qed (use 1(1,2) False in auto)
  qed (use 1(3) in \<open>simp add: digits.simps\<close>)
qed

lemma decimal_digit_table:
  "list_all (\<lambda>d. isdigit (digit_char (of_nat d)) \<and> digit (digit_char (of_nat d)) = d) [0..<10]"
  by code_simp

lemma decimal_digit: "d < 10 \<Longrightarrow> isdigit (digit_char (of_nat d)) \<and> digit (digit_char (of_nat d)) = d"
  using decimal_digit_table by (simp add: list_all_iff)

lemma isdigit_digits: "c \<in> set (digits 10 n) \<Longrightarrow> isdigit c"
  using digits_elem [of 10 c n] decimal_digit by auto

lemma getint_loop_digits: "int n \<le> INT_MAX \<Longrightarrow> getint_loop 0 (digits 10 n @ t) = getint_loop (int n) t"
proof (induction n arbitrary: t rule: less_induct)
  case (less n)
  show ?case
  proof (cases "n = 0")
    case False
    let ?c = "digit_char (of_nat (n mod 10))"
    have c: "isdigit ?c" "digit ?c = n mod 10" using decimal_digit [of "n mod 10"] by simp_all
    have v: "10 * int (n div 10) + int (n mod 10) = int n" by (metis mult_div_mod_eq of_nat_add of_nat_mult of_nat_numeral)
    have small: "int (n div 10) mod 2 ^ 32 = int (n div 10)" "int (n div 10) \<le> INT_MAX div 10"
      "int (n mod 10) \<le> INT_MAX - 10 * int (n div 10)"
      using less.prems v by (auto simp: INT_MAX_def zdiv_int intro!: mod_pos_pos_trivial zdiv_mono1)
    have "getint_loop 0 (digits 10 (n div 10) @ ?c # t) = getint_loop (int (n div 10)) (?c # t)"
      using False less.prems by (intro less.IH) (auto simp: INT_MAX_def)
    also have "\<dots> = getint_loop (int n) t"
      using c small v by (simp only: getint_loop.simps if_True c) auto
    finally show ?thesis using False by (simp add: digits.simps [of 10 n])
  qed (simp add: digits.simps)
qed

lemma getint_back:
  assumes "int n \<le> INT_MAX" "s \<noteq> [] \<Longrightarrow> \<not> isdigit (hd s)"
  shows "getint (digits 10 n @ s) = (int n, s)"
  using assms getint_loop_digits [OF assms(1), of s] by (cases s) (simp_all add: getint_def)

subsection \<open>Types\<close>

text \<open>The state and the type of an argument.\<close>

fun mod_state :: "modifier \<Rightarrow> arg_type" where
  "mod_state M_none = BARE" | "mod_state M_hh = HHPRE" | "mod_state M_h = HPRE" | "mod_state M_l = LPRE"
| "mod_state M_ll = LLPRE" | "mod_state M_z = ZTPRE" | "mod_state M_t = ZTPRE" | "mod_state M_j = JPRE"

definition dir_type :: "dspec \<Rightarrow> arg_type" where
  "dir_type d = entry_of (states (mod_state (d_mod d))) (conv_char (d_conv d))"

lemmas type_eval = tail_chars_def is_in_def out_of_table_def Let_def dir_type_def

lemma read_type_back:
  assumes "dir_ok d"
  shows "read_type BARE (tail_chars d @ s) = Some (mod_state (d_mod d), dir_type d, conv_char (d_conv d), s)
    \<and> dir_type d \<notin> {BARE, NOARG, DBL, LDBL} \<and> \<not> is_prefix (dir_type d)"
  using assms unfolding dir_ok_def
  by (cases "d_mod d"; cases "d_conv d"; simp add: type_eval)

subsection \<open>Directives\<close>

definition dir_prec :: "dspec \<Rightarrow> int" where
  "dir_prec d = (case d_prec d of None \<Rightarrow> - 1 | Some p \<Rightarrow> int p)"

lemma digits_hd: "n \<noteq> 0 \<Longrightarrow> hd (digits 10 n) \<noteq> 0x30"
proof (induction n rule: less_induct)
  case (less n)
  have d: "digits 10 n = digits 10 (n div 10) @ [digit_char (of_nat (n mod 10))]"
    using less.prems by (simp add: digits.simps [of 10 n])
  show ?case
  proof (cases "n div 10 = 0")
    case True
    then have "digit (digit_char (of_nat (n mod 10))) \<noteq> 0" using decimal_digit [of "n mod 10"] less.prems by auto
    then show ?thesis using True d by (auto simp: digits.simps [of 10 0] digit_def)
  next
    case False
    then show ?thesis using less.IH [of "n div 10"] d less.prems digits_eq_Nil [of 10 "n div 10"] by simp
  qed
qed

definition starts :: "u8 list \<Rightarrow> u8 list \<Rightarrow> bool" where
  "starts cs s \<longleftrightarrow> s \<noteq> [] \<and> hd s \<in> set cs"

lemma tail_starts: "starts [0x68, 0x6c, 0x7a, 0x74, 0x6a, 0x64, 0x69, 0x75, 0x6f, 0x78, 0x58, 0x70, 0x63, 0x73] (tail_chars d @ r)"
  by (cases "d_mod d"; cases "d_conv d") (simp_all add: starts_def tail_chars_def)

lemma prec_starts:
  "starts [0x2e, 0x68, 0x6c, 0x7a, 0x74, 0x6a, 0x64, 0x69, 0x75, 0x6f, 0x78, 0x58, 0x70, 0x63, 0x73]
     (prec_chars p @ tail_chars d @ r)"
  using tail_starts [of d r] by (cases p) (auto simp: starts_def prec_chars_def)

lemma starts_not_digit: "starts [0x2e, 0x68, 0x6c, 0x7a, 0x74, 0x6a, 0x64, 0x69, 0x75, 0x6f, 0x78, 0x58, 0x70, 0x63, 0x73] s \<Longrightarrow> \<not> isdigit (hd s)"
  by (auto simp: starts_def isdigit_def)

lemma width_not_flag: "not_flag (digits 10 w @ prec_chars p @ tail_chars d @ r)"
proof (cases "w = 0")
  case True
  then show ?thesis using prec_starts [of p d r] by (auto simp: digits.simps not_flag_def flag_chars starts_def)
next
  case False
  then have ne: "digits 10 w \<noteq> []" by (simp add: digits_eq_Nil)
  then have "isdigit (hd (digits 10 w))" by (intro isdigit_digits [of _ w]) simp
  then show ?thesis using digits_hd [OF False] ne unfolding not_flag_def flag_chars by (auto simp: isdigit_def)
qed

lemma at_Cons [simp]: "at (x # s) 0 = x" "at (x # s) (Suc n) = at s n"
  by (simp_all add: at_def)

lemma at_hd: "s \<noteq> [] \<Longrightarrow> at s 0 = hd s"
  by (cases s) simp_all

lemma digits_not_star: "s \<noteq> [] \<Longrightarrow> hd s \<noteq> 0x2a \<Longrightarrow> at (digits 10 n @ s) 0 \<noteq> 0x2a"
proof (cases "n = 0")
  case False
  then have ne: "digits 10 n \<noteq> []" by (simp add: digits_eq_Nil)
  then have "isdigit (hd (digits 10 n))" by (intro isdigit_digits [of _ n]) simp
  then show ?thesis using ne at_hd [of "digits 10 n @ s"] by (auto simp: isdigit_def)
qed (simp add: digits.simps at_hd)

lemma read_width_back:
  assumes "dir_ok d"
  shows "read_width f fl (digits 10 (d_width d) @ prec_chars (d_prec d) @ tail_chars d @ r) s =
    Next (fl, int (d_width d), prec_chars (d_prec d) @ tail_chars d @ r) s"
proof -
  let ?t = "prec_chars (d_prec d) @ tail_chars d @ r"
  note st = prec_starts [of "d_prec d" d r]
  have g: "getint (digits 10 (d_width d) @ ?t) = (int (d_width d), ?t)"
    by (rule getint_back) (use assms starts_not_digit [OF st] in \<open>simp_all add: dir_ok_def\<close>)
  have "at (digits 10 (d_width d) @ ?t) 0 \<noteq> 0x2a" by (rule digits_not_star) (use st in \<open>auto simp: starts_def\<close>)
  then show ?thesis unfolding read_width_def g by simp
qed

lemma read_precision_back:
  assumes "dir_ok d"
  shows "read_precision f (prec_chars (d_prec d) @ tail_chars d @ r) s = Next (dir_prec d, d_prec d \<noteq> None, tail_chars d @ r) s"
proof (cases "d_prec d")
  case None
  have "at (tail_chars d @ r) 0 \<noteq> 0x2e" using tail_starts [of d r] at_hd [of "tail_chars d @ r"] by (auto simp: starts_def)
  then show ?thesis using None by (simp add: read_precision_def prec_chars_def dir_prec_def)
next
  case (Some p)
  have nd: "\<not> isdigit (hd (tail_chars d @ r))" using tail_starts [of d r] by (auto simp: starts_def isdigit_def)
  have g: "getint (digits 10 p @ tail_chars d @ r) = (int p, tail_chars d @ r)"
    by (rule getint_back) (use assms nd Some in \<open>simp_all add: dir_ok_def\<close>)
  have "at (digits 10 p @ tail_chars d @ r) 0 \<noteq> 0x2a"
    by (rule digits_not_star) (use tail_starts [of d r] in \<open>auto simp: starts_def\<close>)
  then show ?thesis using Some g by (simp add: read_precision_def prec_chars_def dir_prec_def)
qed

lemma no_dollar: "c \<in> set (dir_chars d) \<Longrightarrow> c \<noteq> 0x24"
proof -
  have t: "0x24 \<notin> set (tail_chars d)" by (cases "d_mod d"; cases "d_conv d") (simp_all add: tail_chars_def)
  have "0x24 \<notin> flag_char ` UNIV" by (simp add: flag_chars)
  moreover have "0x24 \<notin> set (digits 10 n)" for n using isdigit_digits [of "0x24" n] by (auto simp: isdigit_def)
  ultimately show "c \<in> set (dir_chars d) \<Longrightarrow> c \<noteq> 0x24"
    using t by (auto simp: dir_chars_def prec_chars_def split: option.splits)
qed

lemma not_positional: "\<not> positional (dir_chars d @ r)"
proof (cases "dir_chars d")
  case Nil
  then show ?thesis by (simp add: dir_chars_def tail_chars_def)
next
  case (Cons c cs)
  show ?thesis
  proof (cases cs)
    case Nil
    have "last (dir_chars d) = conv_char (d_conv d)" by (simp add: dir_chars_def tail_chars_def)
    then have "c = conv_char (d_conv d)" using Cons Nil by simp
    then have "\<not> isdigit c" by (cases "d_conv d") (simp_all add: isdigit_def)
    then show ?thesis using Cons by (simp add: positional_def)
  next
    case (Cons c' cs')
    then have "c' \<noteq> 0x24" using no_dollar [of c' d] \<open>dir_chars d = c # cs\<close> by simp
    then show ?thesis using Cons \<open>dir_chars d = c # cs\<close> by (simp add: positional_def)
  qed
qed

lemma directive_step_back:
  assumes "dir_ok d"
  shows "directive_step e f (0x25 # dir_chars d @ r) s =
    andthen (get_arg f (- 1) (dir_type d) s) (\<lambda>arg s.
      if \<not> f then Next r s
      else andthen (convert e (conv_char (d_conv d)) (mod_state (d_mod d)) arg (int (d_width d)) (dir_prec d) (d_prec d \<noteq> None)
             (flag_bits (d_flags d)) s) (\<lambda>_ s. Next r s))"
proof -
  have fl: "read_flags 0 (dir_chars d @ r)
      = (flag_bits (d_flags d), digits 10 (d_width d) @ prec_chars (d_prec d) @ tail_chars d @ r)"
    using read_flags_back [OF width_not_flag] by (simp add: dir_chars_def flag_bits_def)
  show ?thesis
    using not_positional [of d r] read_type_back [OF assms, of r]
    by (simp add: directive_step_def directive_body_def fl read_width_back [OF assms] read_precision_back [OF assms] del: not_None_eq)
qed

subsection \<open>Literal text\<close>

lemma dir_not_percent: "\<exists>c cs. dir_chars d @ r = c # cs \<and> c \<noteq> 0x25"
proof -
  have t: "0x25 \<notin> set (tail_chars d)" by (cases "d_mod d"; cases "d_conv d") (simp_all add: tail_chars_def)
  have "0x25 \<notin> flag_char ` UNIV" by (simp add: flag_chars)
  moreover have "0x25 \<notin> set (digits 10 n)" for n using isdigit_digits [of "0x25" n] by (auto simp: isdigit_def)
  ultimately have "0x25 \<notin> set (dir_chars d)"
    using t by (auto simp: dir_chars_def prec_chars_def split: option.splits)
  moreover have "dir_chars d \<noteq> []" by (simp add: dir_chars_def tail_chars_def)
  ultimately show ?thesis by (cases "dir_chars d") auto
qed

lemma format_simps [simp]: "format [] = []" "format (p # ps) = piece_chars p @ format ps"
  by (simp_all add: format_def)

lemma percents_back:
  "\<exists>cs ps'. ps = map Ch cs @ ps' \<and> percents (format ps) = (cs, format ps') \<and> (cs = [] \<longrightarrow> ps' = [] \<or> hd ps' \<noteq> Ch 0x25)"
proof (induction ps)
  case (Cons p ps)
  show ?case
  proof (cases "p = Ch 0x25")
    case True
    obtain cs ps' where c: "ps = map Ch cs @ ps'" "percents (format ps) = (cs, format ps')" using Cons by blast
    show ?thesis by (rule exI [of _ "0x25 # cs"], rule exI [of _ ps']) (simp add: True c(1), simp add: c(1) [symmetric] c(2))
  next
    case False
    have "percents (format (p # ps)) = ([], format (p # ps))"
    proof (cases p)
      case (Ch c)
      then show ?thesis using False by (cases "format ps") simp_all
    next
      case (Dir d)
      then show ?thesis using dir_not_percent [of d "format ps"] by auto
    qed
    then show ?thesis using False by (intro exI [of _ "[]"] exI [of _ "p # ps"]) simp
  qed
qed simp

lemma literal_back:
  "\<exists>cs ps'. ps = map Ch cs @ ps' \<and> literal (format ps) = (cs, format ps') \<and> (cs = [] \<longrightarrow> ps' = [] \<or> (\<exists>d qs. ps' = Dir d # qs))"
proof (induction ps)
  case (Cons p ps)
  show ?case
  proof (cases "\<exists>c. p = Ch c \<and> c \<noteq> 0x25")
    case True
    then obtain c where c: "p = Ch c" "c \<noteq> 0x25" by blast
    obtain cs ps' where r: "ps = map Ch cs @ ps'" "literal (format ps) = (cs, format ps')" using Cons by blast
    have "literal (format (p # ps)) = (c # cs, format ps')" using r(2) c by (simp add: literal_def split: prod.splits)
    then show ?thesis using c r(1) by (intro exI [of _ "c # cs"] exI [of _ ps']) simp
  next
    case False
    obtain xs where "format (p # ps) = 0x25 # xs" using False by (cases p) auto
    then have "literal (format (p # ps)) = percents (format (p # ps))" by (simp add: literal_def)
    moreover obtain cs ps' where "p # ps = map Ch cs @ ps'" "percents (format (p # ps)) = (cs, format ps')"
      "cs = [] \<longrightarrow> ps' = [] \<or> hd ps' \<noteq> Ch 0x25" using percents_back [of "p # ps"] by blast
    ultimately show ?thesis using False by (intro exI [of _ cs] exI [of _ ps']) (cases ps'; cases "hd ps'"; auto)
  qed
qed (simp add: literal_def)

end
