(* ===== verification/Printf_Spec.thy ===== *)
theory Printf_Spec
  imports Printf_Format Fmt_Fp
begin

text \<open>
  The text that a format stands for, following the C standard: values by length modifier, digits by
  conversion, precision, sign and prefix, and the padding of a field. The theorems at the end say that
  \<open>vsnprintf\<close> stores that text, cut to the size of the destination, and returns its full length.
\<close>

section \<open>The text of a directive\<close>

fun mod_bits :: "modifier \<Rightarrow> nat" where
  "mod_bits M_hh = 8" | "mod_bits M_h = 16" | "mod_bits M_none = 32" | "mod_bits _ = 64"

definition unsigned_value :: "modifier \<Rightarrow> u64 \<Rightarrow> nat" where
  "unsigned_value md x = unat x mod 2 ^ mod_bits md"

definition signed_value :: "modifier \<Rightarrow> u64 \<Rightarrow> int" where
  "signed_value md x = (let u = unsigned_value md x in if u < 2 ^ (mod_bits md - 1) then int u else int u - 2 ^ mod_bits md)"

text \<open>A field at least \<open>w\<close> wide: to the left with spaces behind, with zeros behind the prefix, or with spaces in front.\<close>

definition pad_to :: "bool \<Rightarrow> bool \<Rightarrow> nat \<Rightarrow> u8 list \<Rightarrow> u8 list \<Rightarrow> u8 list" where
  "pad_to left zero w pre t =
     (let k = w - (length pre + length t)
      in if left then pre @ t @ replicate k 0x20
         else if zero then pre @ replicate k 0x30 @ t
         else replicate k 0x20 @ pre @ t)"

text \<open>At least \<open>p\<close> digits; the number 0 has none of its own.\<close>

definition at_least :: "nat \<Rightarrow> u8 list \<Rightarrow> u8 list" where
  "at_least p ds = replicate (p - length ds) 0x30 @ ds"

definition has :: "dspec \<Rightarrow> flag \<Rightarrow> bool" where
  "has d f \<longleftrightarrow> f \<in> set (d_flags d)"

definition digit_count :: "dspec \<Rightarrow> nat" where
  "digit_count d = (case d_prec d of None \<Rightarrow> 1 | Some p \<Rightarrow> p)"

definition number_text :: "dspec \<Rightarrow> u8 list \<Rightarrow> nat \<Rightarrow> u8 list \<Rightarrow> u8 list" where
  "number_text d pre p ds = pad_to (has d Left) (has d Zero \<and> d_prec d = None) (d_width d) pre (at_least p ds)"

definition sign_text :: "dspec \<Rightarrow> int \<Rightarrow> u8 list" where
  "sign_text d v = (if v < 0 then [0x2d] else if has d Plus then [0x2b] else if has d Space then [0x20] else [])"

definition hex_prefix :: "u8 \<Rightarrow> bool \<Rightarrow> nat \<Rightarrow> u8 list" where
  "hex_prefix x alt v = (if alt \<and> v \<noteq> 0 then [0x30, x] else [])"

text \<open>The text for the argument \<open>x\<close>; \<open>str\<close> gives the strings that pointers point to.\<close>

definition dir_text :: "(u64 \<Rightarrow> u8 list) \<Rightarrow> dspec \<Rightarrow> u64 \<Rightarrow> u8 list" where
  "dir_text str d x =
     (let u = unsigned_value (d_mod d) x; v = signed_value (d_mod d) x; p = digit_count d
      in case d_conv d of
           Cd \<Rightarrow> number_text d (sign_text d v) p (digits 10 (nat \<bar>v\<bar>))
         | Ci \<Rightarrow> number_text d (sign_text d v) p (digits 10 (nat \<bar>v\<bar>))
         | Cu \<Rightarrow> number_text d [] p (digits 10 u)
         | Co \<Rightarrow> number_text d [] (if has d Alt then max p (length (digits 8 u) + 1) else p) (digits 8 u)
         | Cx \<Rightarrow> number_text d (hex_prefix 0x78 (has d Alt) u) p (digits 16 u)
         | CX \<Rightarrow> number_text d (hex_prefix 0x58 (has d Alt) u) p (map upcase (digits 16 u))
         | Cp \<Rightarrow> number_text d (hex_prefix 0x78 True (unat x))
                   (case d_prec d of None \<Rightarrow> 1 | Some p \<Rightarrow> max 16 p) (digits 16 (unat x))
         | Cc \<Rightarrow> pad_to (has d Left) False (d_width d) [] [ucast x]
         | Cs \<Rightarrow> (let t = (if x = NULL then map of_char ''(null)'' else str x)
                  in pad_to (has d Left) False (d_width d) [] (case d_prec d of None \<Rightarrow> t | Some p \<Rightarrow> take p t)))"

section \<open>The text of a field\<close>

lemma flag_zero: "(x :: u32) AND 2 ^ k = 0 \<longleftrightarrow> \<not> bit x k"
  by (rule and_exp_eq_0_iff_not_bit)

lemma adjust_zero: "fl AND (LEFT_ADJ OR ZERO_PAD) = 0 \<longleftrightarrow> \<not> bit fl 13 \<and> \<not> bit fl 16"
proof -
  have "fl AND (LEFT_ADJ OR ZERO_PAD) = (fl AND 2 ^ 13) OR (fl AND 2 ^ 16)"
    unfolding flag_masks by (rule bit.conj_disj_distrib)
  then show ?thesis using flag_zero [of fl 13] flag_zero [of fl 16] by (simp add: or_eq_0_iff del: and_exp_eq_0_iff_not_bit)
qed

lemma bit_toggle: "bit ((fl :: u32) XOR 2 ^ j) k \<longleftrightarrow> bit fl k \<noteq> (j = k \<and> k < 32)"
  by (auto simp: bit_xor_iff bit_exp_iff dest: bit_imp_le_length)

lemma field_text_pad:
  assumes "\<not> (bit (fflags x) 13 \<and> bit (fflags x) 16)" "0 \<le> w"
  shows "field_text w x = pad_to (bit (fflags x) 13) (bit (fflags x) 16) (nat w) (fprefix x)
      (replicate (nat (fprec x - int (length (body x)))) 0x30 @ body x)"
proof -
  let ?t = "replicate (nat (fprec x - int (length (body x)))) (0x30 :: u8) @ body x" and ?l = "int (length (fprefix x)) + field_prec x"
  have t: "int (length ?t) = field_prec x" by (auto simp: field_prec_def)
  have k: "nat (field_width w x - ?l) = nat w - (length (fprefix x) + length ?t)"
    using assms(2) t by (simp add: field_width_def del: length_append length_replicate)
  have r: "nat (field_prec x - int (length (body x))) = nat (fprec x - int (length (body x)))" by (simp add: field_prec_def)
  have pads: "pad_text c (field_width w x) ?l fl = (if bit fl 13 \<or> bit fl 16 then [] else replicate (nat w - (length (fprefix x) + length ?t)) c)"
    for c fl unfolding pad_text_def k using adjust_zero [of fl] by auto
  have z: "bit (fl XOR ZERO_PAD) 13 = bit fl 13" "bit (fl XOR ZERO_PAD) 16 = (\<not> bit fl 16)"
    "bit (fl XOR LEFT_ADJ) 13 = (\<not> bit fl 13)" "bit (fl XOR LEFT_ADJ) 16 = bit fl 16" for fl
    unfolding flag_masks bit_toggle by simp_all
  show ?thesis
    unfolding field_text_def Let_def pads r z pad_to_def using assms(1) by (auto simp del: length_append length_replicate)
qed

lemma bit_without: "bit (without fl ZERO_PAD) j \<longleftrightarrow> bit fl j \<and> j \<noteq> 16"
  unfolding flag_masks without_def
  by (simp only: bit_and_iff bit_not_iff bit_exp_iff possible_bit_word) (auto dest: bit_imp_le_length)

text \<open>The flags of a directive after \<open>-\<close> has switched off \<open>0\<close>.\<close>

definition dir_bits :: "dspec \<Rightarrow> u32" where
  "dir_bits d = (if flag_bits (d_flags d) AND LEFT_ADJ \<noteq> 0 then without (flag_bits (d_flags d)) ZERO_PAD else flag_bits (d_flags d))"

lemma flag_bit: "bit (flag_bits (d_flags d)) 3 = has d Alt" "bit (flag_bits (d_flags d)) 16 = has d Zero"
  "bit (flag_bits (d_flags d)) 13 = has d Left" "bit (flag_bits (d_flags d)) 0 = has d Space"
  "bit (flag_bits (d_flags d)) 11 = has d Plus"
  unfolding has_def by (simp_all only: bit_flag_bits [symmetric] flag_index.simps)

lemma dir_bit: "bit (dir_bits d) 3 = has d Alt" "bit (dir_bits d) 16 = (has d Zero \<and> \<not> has d Left)"
  "bit (dir_bits d) 13 = has d Left" "bit (dir_bits d) 0 = has d Space" "bit (dir_bits d) 11 = has d Plus"
  unfolding dir_bits_def flag_masks(3) flag_zero by (auto simp: bit_without flag_bit)

lemma dir_mask: "dir_bits d AND ALT_FORM = 0 \<longleftrightarrow> \<not> has d Alt" "dir_bits d AND PAD_POS = 0 \<longleftrightarrow> \<not> has d Space"
  "dir_bits d AND MARK_POS = 0 \<longleftrightarrow> \<not> has d Plus"
  unfolding flag_masks flag_zero dir_bit by simp_all

lemma int_field_text:
  assumes "xp = (d_prec d \<noteq> None)" "xp \<Longrightarrow> 0 \<le> p" "P = (if p < 0 then 1 else nat p)" "a = [] \<longleftrightarrow> i = 0"
    and "\<And>k. k \<in> {13, 16} \<Longrightarrow> bit fl k = bit (dir_bits d) k"
  shows "\<exists>x. int_field i pre a xp p fl = Some x \<and> fprefix x = pre \<and> field_text (int (d_width d)) x = number_text d pre P a
    \<and> \<not> (bit (fflags x) 13 \<and> bit (fflags x) 16)"
proof -
  define ff where "ff = (if xp then without fl ZERO_PAD else fl)"
  have fl: "bit ff 13 = has d Left" "bit ff 16 = (has d Zero \<and> \<not> has d Left \<and> \<not> xp)"
    using assms(5) [of 13] assms(5) [of 16] by (auto simp: ff_def bit_without dir_bit)
  define x where "x = (if i = 0 \<and> p = 0 then \<lparr>fprefix = pre, body = [], fprec = p, fflags = ff\<rparr>
    else \<lparr>fprefix = pre, body = a, fprec = max p (int (length a) + (if i = 0 then 1 else 0)), fflags = ff\<rparr>)"
  have x: "int_field i pre a xp p fl = Some x" using assms(2) by (auto simp: int_field_def x_def ff_def Let_def)
  have f: "fflags x = ff" "fprefix x = pre" by (simp_all add: x_def)
  have len: "a \<noteq> [] \<Longrightarrow> 1 \<le> length a" by (cases a) simp_all
  have b: "replicate (nat (fprec x - int (length (body x)))) 0x30 @ body x = at_least P a"
    using assms(3,4) len by (auto simp: x_def at_least_def max_def nat_diff_distrib)
  have "field_text (int (d_width d)) x = number_text d pre P a"
  proof -
    have "field_text (int (d_width d)) x = pad_to (has d Left) (has d Zero \<and> \<not> has d Left \<and> \<not> xp) (d_width d) pre (at_least P a)"
      using field_text_pad [of x "int (d_width d)"] fl f b by auto
    then show ?thesis using assms(1) by (auto simp: number_text_def pad_to_def Let_def)
  qed
  moreover have "\<not> (bit (fflags x) 13 \<and> bit (fflags x) 16)" using fl f by auto
  ultimately show ?thesis using x f by auto
qed

section \<open>Values\<close>

lemma signed_take_bit_cases:
  "signed_take_bit n (k :: int) = (let u = take_bit (Suc n) k in if u < 2 ^ n then u else u - 2 ^ Suc n)"
proof -
  have "take_bit (Suc n) k = 2 ^ n * of_bool (bit k n) + take_bit n k" by (rule take_bit_Suc_from_most)
  moreover have "0 \<le> take_bit n k" "take_bit n k < 2 ^ n" by simp_all
  ultimately show ?thesis unfolding signed_take_bit_eq_take_bit_minus Let_def by (cases "bit k n") simp_all
qed

lemma signed_value_take_bit:
  assumes "mod_bits md = Suc n"
  shows "signed_value md x = signed_take_bit n (uint x)"
proof -
  have u: "int (unsigned_value md x) = take_bit (Suc n) (uint x)"
    unfolding unsigned_value_def take_bit_eq_mod assms by (simp only: zmod_int of_nat_power of_nat_numeral uint_nat)
  have "unsigned_value md x < 2 ^ n \<longleftrightarrow> int (unsigned_value md x) < 2 ^ n"
    by (metis of_nat_less_iff of_nat_numeral of_nat_power)
  then show ?thesis unfolding signed_value_def signed_take_bit_cases Let_def u [symmetric] assms by simp
qed

lemma signed_take_bit_63: "n \<le> 63 \<Longrightarrow> signed_take_bit 63 (uint (signed_take_bit n (x :: u64))) = signed_take_bit n (uint x)"
  by transfer (simp add: signed_take_bit_take_bit min_absorb2)

lemma unsigned_slot_value:
  assumes "d_conv d \<in> {Cu, Co, Cx, CX}"
  shows "unat (slot_value (dir_type d) x) = unsigned_value (d_mod d) x"
  using assms unat64_lt [of x]
  by (cases "d_mod d"; cases "d_conv d")
    (simp_all add: type_eval unsigned_value_def unsigned_ucast_eq take_bit_eq_mod unat_mod)

lemma signed_slot_value:
  assumes "d_conv d \<in> {Cd, Ci}"
  shows "sint (slot_value (dir_type d) x) = signed_value (d_mod d) x"
proof -
  obtain n where n: "mod_bits (d_mod d) = Suc n" by (cases "d_mod d") (auto simp: eval_nat_numeral)
  show ?thesis unfolding signed_value_take_bit [OF n] using assms n
    by (cases "d_mod d"; cases "d_conv d")
      (auto simp: type_eval signed_scast_eq signed_ucast_eq sint_uint signed_take_bit_63)
qed

section \<open>Conversions give the fields of the text\<close>

text \<open>The field \<open>x\<close> has the text \<open>t\<close>.\<close>

definition shows_text :: "dspec \<Rightarrow> field option \<Rightarrow> u8 list \<Rightarrow> bool" where
  "shows_text d r t \<longleftrightarrow>
     (\<exists>x. r = Some x \<and> field_text (int (d_width d)) x = t \<and> \<not> (bit (fflags x) 13 \<and> bit (fflags x) 16))"

lemma digit_count_prec: "digit_count d = (if dir_prec d < 0 then 1 else nat (dir_prec d))"
  by (simp add: digit_count_def dir_prec_def split: option.splits)

lemma dir_prec_nonneg: "d_prec d \<noteq> None \<Longrightarrow> 0 \<le> dir_prec d"
  by (auto simp: dir_prec_def)

lemma shows_number:
  assumes "d_prec d \<noteq> None \<Longrightarrow> 0 \<le> p" "P = (if p < 0 then 1 else nat p)" "a = [] \<longleftrightarrow> i = 0"
    and "\<And>k. k \<in> {13, 16} \<Longrightarrow> bit fl k = bit (dir_bits d) k"
  shows "shows_text d (int_field i pre a (d_prec d \<noteq> None) p fl) (number_text d pre P a)"
  using int_field_text [OF refl assms, of pre] unfolding shows_text_def by blast

lemma word_zero: "unat (i :: u64) = n \<Longrightarrow> i = 0 \<longleftrightarrow> n = 0"
  by (auto simp: unat_eq_0)

lemma shows_unsigned:
  "shows_text d (unsigned_field i (d_prec d \<noteq> None) (dir_prec d) (dir_bits d)) (number_text d [] (digit_count d) (digits 10 (unat i)))"
  unfolding unsigned_field_def fmt_u_digits append_Nil2
  by (rule shows_number) (simp_all add: dir_prec_nonneg digit_count_prec digits_eq_Nil unat_eq_0)

lemma above_max: "(i :: u64) > 0x7fffffffffffffff \<longleftrightarrow> sint i < 0"
proof -
  have u: "i > 0x7fffffffffffffff \<longleftrightarrow> 2 ^ 63 \<le> unat i" by (simp add: word_less_nat_alt Suc_le_eq [symmetric])
  have "sint i < 2 ^ 63" "- (2 ^ 63) \<le> sint i" using sint_range_size [of i] by (auto simp: word_size)
  moreover have "2 ^ 63 \<le> unat i \<longleftrightarrow> 2 ^ 63 \<le> uint i" using zle_int [of "2 ^ 63" "unat i"] by simp
  ultimately show ?thesis unfolding u using sint_unat [of i] by (simp split: if_splits)
qed

lemma shows_signed:
  assumes "sint i = v"
  shows "shows_text d (signed_field i (d_prec d \<noteq> None) (dir_prec d) (dir_bits d))
    (number_text d (sign_text d v) (digit_count d) (digits 10 (nat \<bar>v\<bar>)))"
proof -
  define j where "j = (if v < 0 then - i else i)"
  have "int (unat j) = \<bar>v\<bar>"
    using assms unat_neg_sint [of i] sint_unat [of i] unfolding j_def by (simp split: if_splits)
  then have j: "unat j = nat \<bar>v\<bar>" by linarith
  have pre: "(if i > 0x7fffffffffffffff then (- i, take 1 prefixes)
      else if dir_bits d AND MARK_POS \<noteq> 0 then (i, take 1 (drop 1 prefixes))
      else if dir_bits d AND PAD_POS \<noteq> 0 then (i, take 1 (drop 2 prefixes)) else (i, [])) = (j, sign_text d v)"
    unfolding above_max assms dir_mask by (simp add: j_def sign_text_def prefixes_def)
  show ?thesis
    unfolding signed_field_def pre prod.case Let_def fmt_u_digits append_Nil2 j
    by (rule shows_number) (simp_all add: dir_prec_nonneg digit_count_prec digits_eq_Nil word_zero [OF j])
qed

lemma shows_octal:
  "shows_text d (octal_field i (d_prec d \<noteq> None) (dir_prec d) (dir_bits d))
    (number_text d [] (if has d Alt then max (digit_count d) (length (digits 8 (unat i)) + 1) else digit_count d) (digits 8 (unat i)))"
proof -
  have "(if has d Alt then max (digit_count d) (length (digits 8 (unat i)) + 1) else digit_count d)
     = (let p = (if dir_bits d AND ALT_FORM \<noteq> 0 \<and> dir_prec d < int (length (digits 8 (unat i))) + 1
                 then int (length (digits 8 (unat i))) + 1 else dir_prec d) in if p < 0 then 1 else nat p)"
    by (auto simp: dir_mask digit_count_prec Let_def)
  then show ?thesis
    unfolding octal_field_def Let_def fmt_o_digits append_Nil2
    by (intro shows_number) (auto simp: dir_prec_nonneg digits_eq_Nil unat_eq_0 Let_def dest: dir_prec_nonneg)
qed

lemma shows_hex:
  assumes "t = 0x78 \<and> x = 0x78 \<and> g = id \<or> t = 0x58 \<and> x = 0x58 \<and> g = upcase"
    and "d_prec d \<noteq> None \<Longrightarrow> 0 \<le> p" "\<And>k. k \<in> {13, 16} \<Longrightarrow> bit fl k = bit (dir_bits d) k" "bit fl 3 = alt"
  shows "shows_text d (hex_field t i (d_prec d \<noteq> None) p fl)
    (number_text d (hex_prefix x alt (unat i)) (if p < 0 then 1 else nat p) (map g (digits 16 (unat i))))"
proof -
  have a: "fmt_x i [] (t AND 32) = map g (digits 16 (unat i))"
    using assms(1) fmt_x_digits [of "t AND 32" i "[]"] by (elim disjE conjE) (simp_all add: id_def)
  have pre: "(if i \<noteq> 0 \<and> fl AND ALT_FORM \<noteq> 0 then take 2 (drop (unat (drop_bit 4 t)) prefixes) else []) = hex_prefix x alt (unat i)"
    using assms(1) assms(4) unfolding flag_masks flag_zero
    by (elim disjE conjE) (simp_all add: hex_prefix_def prefixes_def unat_eq_0)
  show ?thesis
    unfolding hex_field_def a pre
    by (rule shows_number) (use assms in \<open>simp_all add: digits_eq_Nil unat_eq_0\<close>)
qed

lemma shows_pointer:
  assumes "dir_ok d"
  shows "shows_text d (ptr_field i (d_prec d \<noteq> None) (dir_prec d) (dir_bits d))
    (number_text d (hex_prefix 0x78 True (unat i)) (case d_prec d of None \<Rightarrow> 1 | Some p \<Rightarrow> max 16 p) (digits 16 (unat i)))"
proof -
  define p where "p = (if (of_int (dir_prec d) :: u64) > 16 then dir_prec d else 16)"
  have p: "p = (case d_prec d of None \<Rightarrow> - 1 | Some q \<Rightarrow> max 16 (int q))"
  proof (cases "d_prec d")
    case (Some q)
    have "int q \<le> INT_MAX" using assms Some by (simp add: dir_ok_def)
    then have "q < 2 ^ 64" by (simp add: INT_MAX_def)
    then have "unat (of_nat q :: u64) = q" by (rule unat64_of_nat)
    then have "(of_nat q :: u64) > 16 \<longleftrightarrow> q > 16" by (simp add: word_less_nat_alt)
    then show ?thesis using Some by (simp add: p_def dir_prec_def)
  qed (simp add: p_def dir_prec_def)
  have P: "(case d_prec d of None \<Rightarrow> 1 | Some p \<Rightarrow> max 16 p) = (if p < 0 then 1 else nat p)"
    unfolding p by (auto split: option.splits)
  have b: "bit (dir_bits d OR ALT_FORM) k = (bit (dir_bits d) k \<or> k = 3)" for k
    unfolding flag_masks by (simp only: bit_or_iff bit_exp_iff possible_bit_word) auto
  have "shows_text d (hex_field 0x78 i (d_prec d \<noteq> None) p (dir_bits d OR ALT_FORM))
    (number_text d (hex_prefix 0x78 True (unat i)) (if p < 0 then 1 else nat p) (map id (digits 16 (unat i))))"
    by (rule shows_hex) (use p b in \<open>auto split: option.splits\<close>)
  then show ?thesis by (simp only: ptr_field_def p_def [symmetric] P list.map_id)
qed

lemma shows_plain:
  assumes "0 \<le> int (d_width d)"
  shows "shows_text d (Some \<lparr>fprefix = [], body = t, fprec = int (length t), fflags = without (dir_bits d) ZERO_PAD\<rparr>)
    (pad_to (has d Left) False (d_width d) [] t)"
proof -
  let ?x = "\<lparr>fprefix = [], body = t, fprec = int (length t), fflags = without (dir_bits d) ZERO_PAD\<rparr>"
  have fl: "bit (without (dir_bits d) ZERO_PAD) 13 = has d Left" "\<not> bit (without (dir_bits d) ZERO_PAD) 16"
    by (simp_all add: bit_without dir_bit)
  then have "field_text (int (d_width d)) ?x = pad_to (has d Left) False (d_width d) [] t"
    using field_text_pad [of ?x "int (d_width d)"] by simp
  then show ?thesis using fl(2) by (auto simp: shows_text_def)
qed

text \<open>The string at \<open>a\<close> is \<open>t\<close>; it does not run into the end of the address space.\<close>

definition string_at :: "memory \<Rightarrow> u64 \<Rightarrow> u8 list \<Rightarrow> bool" where
  "string_at m a t \<longleftrightarrow> cstr m a t \<and> int (length t) \<le> INT_MAX \<and> (\<forall>j \<le> length t. a + of_nat j \<noteq> NULL)"

lemma bytes_at_cstr: "cstr m a t \<Longrightarrow> n \<le> length t \<Longrightarrow> bytes_at m a n = take n t"
  by (rule nth_equalityI) (auto simp: bytes_at_def cstr_iff_nth)

lemma string_field_reads:
  assumes "dir_ok d" "a \<noteq> NULL \<Longrightarrow> string_at m a t" "a = NULL \<Longrightarrow> t = map of_char ''(null)''"
  shows "string_field m a (dir_prec d) fl =
    (let t = (case d_prec d of None \<Rightarrow> t | Some p \<Rightarrow> take p t)
     in Some \<lparr>fprefix = [], body = t, fprec = int (length t), fflags = without fl ZERO_PAD\<rparr>)"
proof -
  define n where "n = nat (if dir_prec d < 0 then INT_MAX else dir_prec d)"
  have n: "n < 2 ^ 64" "d_prec d = None \<Longrightarrow> n = nat INT_MAX" "d_prec d = Some p \<Longrightarrow> n = p" for p
    using assms(1) by (auto simp: n_def dir_prec_def dir_ok_def INT_MAX_def split: option.splits)
  have all: "d_prec d = None \<Longrightarrow> length t \<le> n"
    using assms(2,3) n(2) by (cases "a = NULL") (auto simp: string_at_def INT_MAX_def)
  have neg: "dir_prec d < 0 \<longleftrightarrow> d_prec d = None" by (simp add: dir_prec_def split: option.splits)
  have t: "(case d_prec d of None \<Rightarrow> t | Some p \<Rightarrow> take p t) = take n t" using all n(3) by (auto split: option.splits)
  show ?thesis
  proof (cases "a = NULL")
    case True
    then show ?thesis using assms(3) all unfolding string_field_def n_def [symmetric] unfolding t neg Let_def by auto
  next
    case False
    have st: "cstr m a t" "\<forall>j \<le> length t. a + of_nat j \<noteq> NULL" using assms(2) False by (simp_all add: string_at_def)
    have "strnlen m a (of_nat n) = (if length t < n then of_nat (length t) else of_nat n)"
      using strnlen_ends [OF ends_at_cstr [OF st(1)]] st(2) n(1) by (simp add: unat64_of_nat)
    then have z: "strnlen m a (of_nat n) = of_nat (min (length t) n)" by (simp add: min_def)
    have u: "unat (of_nat (min (length t) n) :: u64) = min (length t) n" by (rule unat64_of_nat) (use n(1) in linarith)
    have b: "bytes_at m a (min (length t) n) = take n t" using bytes_at_cstr [OF st(1)] by (simp add: min_def)
    have e: "d_prec d = None \<Longrightarrow> m (a + of_nat (min (length t) n)) = 0" using all st(1) by (simp add: min_absorb1 cstr_iff_nth)
    show ?thesis using False e unfolding string_field_def n_def [symmetric] unfolding t neg Let_def z u b by auto
  qed
qed

lemma shows_string:
  assumes "dir_ok d" "a \<noteq> NULL \<Longrightarrow> string_at m a (str a)"
  shows "shows_text d (string_field m a (dir_prec d) (dir_bits d))
    (let t = (if a = NULL then map of_char ''(null)'' else str a)
     in pad_to (has d Left) False (d_width d) [] (case d_prec d of None \<Rightarrow> t | Some p \<Rightarrow> take p t))"
  using string_field_reads [of d a m "if a = NULL then map of_char ''(null)'' else str a" "dir_bits d"] assms shows_plain [of d]
  by (simp only: Let_def) simp

text \<open>The value that the argument of a directive becomes.\<close>

lemma slot_value_other: "dir_ok d \<Longrightarrow> d_conv d \<in> {Cp, Cs} \<Longrightarrow> slot_value (dir_type d) x = x"
  by (auto simp: dir_ok_def type_eval)

lemma char_back: "(ucast (scast (b :: u8) :: u64) :: u8) = b"
proof (rule bit_word_eqI)
  fix n
  assume "n < LENGTH(8)"
  then have "n < 7 \<or> n = 7" by auto
  then show "bit (ucast (scast b :: u64) :: u8) n = bit b n" by (auto simp: bit_simps)
qed

lemma slot_value_char: "dir_ok d \<Longrightarrow> d_conv d = Cc \<Longrightarrow> (ucast (slot_value (dir_type d) x) :: u8) = ucast x"
  by (simp add: dir_ok_def type_eval char_back)

definition dir_field :: "memory \<Rightarrow> dspec \<Rightarrow> u64 \<Rightarrow> field option" where
  "dir_field m d i =
     (let xp = (d_prec d \<noteq> None); p = dir_prec d; fl = dir_bits d
      in case d_conv d of
           Cd \<Rightarrow> signed_field i xp p fl
         | Ci \<Rightarrow> signed_field i xp p fl
         | Cu \<Rightarrow> unsigned_field i xp p fl
         | Co \<Rightarrow> octal_field i xp p fl
         | Cx \<Rightarrow> hex_field 0x78 i xp p fl
         | CX \<Rightarrow> hex_field 0x58 i xp p fl
         | Cp \<Rightarrow> ptr_field i xp p fl
         | Cc \<Rightarrow> Some (char_field i fl)
         | Cs \<Rightarrow> string_field m i p fl)"

lemma convert_dir:
  assumes "dir_ok d"
  shows "convert e (conv_char (d_conv d)) (mod_state (d_mod d)) (Some (Arg_i i)) w (dir_prec d) (d_prec d \<noteq> None)
      (flag_bits (d_flags d)) s = on_field e w (dir_field (user_mem (snd (strm s))) d i) s"
  using assms unfolding convert_def Let_def dir_bits_def [symmetric]
  by (cases "d_conv d") (auto simp: dir_ok_def convert_int_def dir_field_def is_in_def Let_def)

lemma dir_field_text:
  assumes "dir_ok d" "d_conv d = Cs \<Longrightarrow> x \<noteq> NULL \<Longrightarrow> string_at m x (str x)"
  shows "shows_text d (dir_field m d (slot_value (dir_type d) x)) (dir_text str d x)"
proof -
  let ?i = "slot_value (dir_type d) x"
  have hex: "shows_text d (hex_field t ?i (d_prec d \<noteq> None) (dir_prec d) (dir_bits d))
      (number_text d (hex_prefix c (has d Alt) (unat ?i)) (digit_count d) (map g (digits 16 (unat ?i))))"
    if "t = 0x78 \<and> c = 0x78 \<and> g = id \<or> t = 0x58 \<and> c = 0x58 \<and> g = upcase" for t c g
    unfolding digit_count_prec by (rule shows_hex [OF that]) (simp_all add: dir_prec_nonneg dir_bit)
  have chr: "shows_text d (Some (char_field ?i (dir_bits d))) (pad_to (has d Left) False (d_width d) [] [ucast ?i])"
    using shows_plain [of d "[ucast ?i]"] by (simp add: char_field_def)
  have oct: "shows_text d (octal_field ?i (d_prec d \<noteq> None) (dir_prec d) (dir_bits d))
      (number_text d [] (if has d Alt then max (digit_count d) (length (digits 8 u) + 1) else digit_count d) (digits 8 u))"
    if "unat ?i = u" for u using shows_octal [of d ?i] unfolding that .
  show ?thesis
    using shows_signed [OF signed_slot_value [of d x]] shows_unsigned [of d ?i] oct [OF unsigned_slot_value] hex [of "0x78" "0x78" id]
      hex [of "0x58" "0x58" upcase] shows_pointer [OF assms(1), of ?i] chr shows_string [OF assms(1), of x m str] assms(2)
      unsigned_slot_value [of d x] slot_value_other [OF assms(1), of x] slot_value_char [OF assms(1), of x]
    unfolding dir_text_def dir_field_def Let_def by (cases "d_conv d") simp_all
qed

section \<open>The text of a format\<close>

fun pieces_text :: "(u64 \<Rightarrow> u8 list) \<Rightarrow> piece list \<Rightarrow> 'f args \<Rightarrow> u8 list" where
  "pieces_text str (Ch c # ps) as = c # pieces_text str ps as"
| "pieces_text str (Dir d # ps) (C_int x # as) = dir_text str d x @ pieces_text str ps as"
| "pieces_text str _ as = []"

text \<open>
  The arguments fit the format: one for every directive, in order, and a string that is not null lies in
  memory \<open>m\<close>, where \<open>own\<close> does not hold.
\<close>

fun args_fit :: "(u64 \<Rightarrow> bool) \<Rightarrow> memory \<Rightarrow> (u64 \<Rightarrow> u8 list) \<Rightarrow> piece list \<Rightarrow> 'f args \<Rightarrow> bool" where
  "args_fit own m str [] as \<longleftrightarrow> True"
| "args_fit own m str (Ch c # ps) as \<longleftrightarrow> args_fit own m str ps as"
| "args_fit own m str (Dir d # ps) (C_int x # as) \<longleftrightarrow>
     (d_conv d = Cs \<and> x \<noteq> NULL \<longrightarrow> string_at m x (str x) \<and> (\<forall>j \<le> length (str x). \<not> own (x + of_nat j)))
     \<and> args_fit own m str ps as"
| "args_fit own m str (Dir d # ps) as \<longleftrightarrow> False"

lemma pieces_text_literal: "pieces_text str (map Ch cs @ ps) as = cs @ pieces_text str ps as"
  by (induction cs) simp_all

lemma args_fit_literal: "args_fit own m str (map Ch cs @ ps) as = args_fit own m str ps as"
  by (induction cs) simp_all

lemma args_fit_Dir:
  assumes "args_fit own m str (Dir d # ps) as"
  obtains x r where "as = C_int x # r" "args_fit own m str ps r"
    "d_conv d = Cs \<Longrightarrow> x \<noteq> NULL \<Longrightarrow> string_at m x (str x) \<and> (\<forall>j \<le> length (str x). \<not> own (x + of_nat j))"
proof -
  obtain x r where "as = C_int x # r" using assms by (cases as rule: next_int.cases) auto
  then show thesis using assms that by auto
qed

lemma string_at_same:
  "string_at m x t \<Longrightarrow> (\<And>j. j \<le> length t \<Longrightarrow> m' (x + of_nat j) = m (x + of_nat j)) \<Longrightarrow> string_at m' x t"
  unfolding string_at_def using cstr_unchanged [of m x t m'] by blast

lemma get_arg_next:
  assumes "dir_ok d" "ap s = C_int x # r"
  shows "get_arg True (- 1) (dir_type d) s = Next (Some (Arg_i (slot_value (dir_type d) x))) (s\<lparr>ap := r\<rparr>)"
  using read_type_back [OF assms(1), of "[]"] assms(2) by (auto simp: get_arg_def pop_arg_def)

lemma field_text_length:
  assumes "\<not> (bit (fflags x) 13 \<and> bit (fflags x) 16)" "0 \<le> w"
  shows "int (length (field_text w x)) = field_width w x"
  unfolding field_text_pad [OF assms] using assms(2) by (auto simp: pad_to_def Let_def field_width_def field_prec_def)

context output_stream
begin

lemma dir_writes:
  assumes "dir_ok d" "holds bs (strm s)" "ap s = C_int x # r" "os_calls e = os" "0 \<le> cnt s"
    and "d_conv d = Cs \<Longrightarrow> x \<noteq> NULL \<Longrightarrow> string_at (user_mem (snd (strm s))) x (str x)"
    and "int (length (dir_text str d x)) \<le> INT_MAX - cnt s"
  shows "\<exists>fw. directive_step e True (0x25 # dir_chars d @ rest) s
      = Next rest (s\<lparr>ap := r, strm := fw, outlen := int (length (dir_text str d x))\<rparr>)
    \<and> holds (bs @ dir_text str d x) fw \<and> (\<forall>a. \<not> own a \<longrightarrow> user_mem (snd fw) a = user_mem (snd (strm s)) a)"
proof -
  let ?w = "int (d_width d)" and ?s = "s\<lparr>ap := r\<rparr>"
  obtain f where f: "dir_field (user_mem (snd (strm s))) d (slot_value (dir_type d) x) = Some f"
    "field_text ?w f = dir_text str d x" "\<not> (bit (fflags f) 13 \<and> bit (fflags f) 16)"
    using dir_field_text [OF assms(1), of x "user_mem (snd (strm s))" str] assms(6) unfolding shows_text_def by blast
  have w: "field_width ?w f = int (length (dir_text str d x))" using field_text_length [OF f(3), of ?w] f(2) by simp
  have p: "int (length (fprefix f)) + field_prec f \<le> INT_MAX" using assms(5,7) w by (simp add: field_width_def)
  then have l: "length (fprefix f) < 2 ^ 31" "length (body f) < 2 ^ 31" by (auto simp: field_prec_def INT_MAX_def)
  obtain fw where fw: "emit_field os ?w f ?s = Next () (?s\<lparr>strm := fw, outlen := field_width ?w f\<rparr>)"
    "holds (bs @ field_text ?w f) fw" "\<forall>a. \<not> own a \<longrightarrow> user_mem (snd fw) a = user_mem (snd (strm ?s)) a"
    using emit_field_wrote [of bs ?s f ?w] assms(2,7) l p w by auto
  show ?thesis
    unfolding directive_step_back [OF assms(1)] get_arg_next [OF assms(1,3)] andthen.simps convert_dir [OF assms(1)]
    using fw f(1,2) w assms(4) by (intro exI [of _ fw]) (simp add: on_field_def)
qed

lemma format_writes:
  assumes "os_calls e = os" "holds bs (strm s)" "\<forall>p \<in> set ps. piece_ok p" "args_fit own m str ps (ap s)"
    and "\<forall>a. \<not> own a \<longrightarrow> user_mem (snd (strm s)) a = m a" "0 \<le> cnt s" "0 \<le> outlen s"
    and "cnt s + outlen s + int (length (pieces_text str ps (ap s))) \<le> INT_MAX"
  shows "\<exists>s'. printf_core e True (format ps) s = Return (cnt s + outlen s + int (length (pieces_text str ps (ap s)))) s'
    \<and> holds (bs @ pieces_text str ps (ap s)) (strm s') \<and> (\<forall>a. \<not> own a \<longrightarrow> user_mem (snd (strm s')) a = m a)"
  using assms(2-)
proof (induction ps arbitrary: bs s rule: length_induct)
  case (1 ps)
  let ?s = "s\<lparr>cnt := cnt s + outlen s\<rparr>" and ?t = "pieces_text str ps (ap s)"
  note core = printf_core.simps [of e True "format ps" s]
  show ?case
  proof (cases "ps = []")
    case True
    then show ?thesis using 1 by (simp add: printf_core.simps [of e True "[]"] finish_core_def)
  next
    case False
    obtain cs ps' where lit: "ps = map Ch cs @ ps'" "literal (format ps) = (cs, format ps')"
      "cs = [] \<longrightarrow> ps' = [] \<or> (\<exists>d qs. ps' = Dir d # qs)" using literal_back [of ps] by blast
    have ne: "format ps \<noteq> []" using False by (cases ps; cases "hd ps") auto
    have t: "?t = cs @ pieces_text str ps' (ap s)" by (simp only: lit(1) pieces_text_literal)
    have len: "length cs < 2 ^ 31" "int (length cs) \<le> INT_MAX - cnt ?s" using 1(6,7,8) t by (auto simp: INT_MAX_def)
    obtain fw where fw: "out os cs (strm s) = Some fw" "holds (bs @ cs) fw"
      "\<forall>a. \<not> own a \<longrightarrow> user_mem (snd fw) a = user_mem (snd (strm s)) a" using out_wrote [OF 1(2) len(1)] by (auto simp: wrote_def)
    let ?s1 = "?s\<lparr>outlen := int (length cs), strm := fw\<rparr>"
    have round: "round_body e True (format ps) ?s = (if cs \<noteq> [] then Next (format ps') ?s1 else directive_step e True (format ps') ?s1)"
      using len(2) fw(1) assms(1) by (simp add: round_body_def lit(2) on_strm_def)
    have step: "printf_core e True (format ps) s = (case round_body e True (format ps) ?s of
        Next fmt' s' \<Rightarrow> printf_core e True fmt' s' | Return r s' \<Rightarrow> Return r s' | Undef \<Rightarrow> Undef)"
      using 1(8) ne by (auto simp: core Let_def)
    have mem: "\<forall>a. \<not> own a \<longrightarrow> user_mem (snd fw) a = m a" using fw(3) 1(5) by simp
    show ?thesis
    proof (cases "cs = []")
      case False
      have "length ps' < length ps" using False lit(1) by (cases cs) simp_all
      moreover have "args_fit own m str ps' (ap s)" using 1(4) unfolding lit(1) args_fit_literal .
      ultimately have "\<exists>s'. printf_core e True (format ps') ?s1
          = Return (cnt ?s1 + outlen ?s1 + int (length (pieces_text str ps' (ap ?s1)))) s'
        \<and> holds ((bs @ cs) @ pieces_text str ps' (ap ?s1)) (strm s') \<and> (\<forall>a. \<not> own a \<longrightarrow> user_mem (snd (strm s')) a = m a)"
        using 1(1,3,6,7,8) fw(2) mem lit(1) t by (intro 1(1) [rule_format]) auto
      then show ?thesis using False by (simp add: step round t algebra_simps)
    next
      case True
      then obtain d qs where d: "ps' = Dir d # qs" "ps = Dir d # qs" using lit \<open>ps \<noteq> []\<close> by auto
      obtain x r where x: "ap s = C_int x # r" "args_fit own m str qs r"
        "d_conv d = Cs \<Longrightarrow> x \<noteq> NULL \<Longrightarrow> string_at m x (str x) \<and> (\<forall>j \<le> length (str x). \<not> own (x + of_nat j))"
        using args_fit_Dir 1(4) d(2) by metis
      have tx: "?t = dir_text str d x @ pieces_text str qs r" by (simp add: d(2) x(1))
      have ok: "dir_ok d" using 1(3) d(2) by simp
      obtain fw2 where fw2: "directive_step e True (format ps') ?s1
          = Next (format qs) (?s1\<lparr>ap := r, strm := fw2, outlen := int (length (dir_text str d x))\<rparr>)"
        "holds (bs @ dir_text str d x) fw2" "\<forall>a. \<not> own a \<longrightarrow> user_mem (snd fw2) a = user_mem (snd fw) a"
        using dir_writes [OF ok, of bs ?s1 x r e str "format qs"] fw(2) True x(1) assms(1) 1(6,7,8) mem x(3) tx d(1)
          string_at_same [of m x "str x" "user_mem (snd fw)"] by auto
      let ?s2 = "?s1\<lparr>ap := r, strm := fw2, outlen := int (length (dir_text str d x))\<rparr>"
      have "\<exists>s'. printf_core e True (format qs) ?s2
          = Return (cnt ?s2 + outlen ?s2 + int (length (pieces_text str qs (ap ?s2)))) s'
        \<and> holds ((bs @ dir_text str d x) @ pieces_text str qs (ap ?s2)) (strm s') \<and> (\<forall>a. \<not> own a \<longrightarrow> user_mem (snd (strm s')) a = m a)"
        using 1(3,6,7,8) fw2(2,3) mem d(2) tx x(2) by (intro 1(1) [rule_format]) auto
      then show ?thesis using True fw2(1) tx by (simp add: step round algebra_simps)
    qed
  qed
qed

end

text \<open>The first pass ends at the first directive.\<close>

lemma format_first_pass:
  assumes "\<forall>p \<in> set ps. piece_ok p" "\<not> l10n s" "0 \<le> cnt s" "0 \<le> outlen s"
    and "cnt s + outlen s + int (length (pieces_text str ps as)) \<le> INT_MAX"
  shows "\<exists>s'. printf_core e False (format ps) s = Return 0 s' \<and> strm s' = strm s \<and> ap s' = ap s"
  using assms
proof (induction ps arbitrary: s rule: length_induct)
  case (1 ps)
  let ?s = "s\<lparr>cnt := cnt s + outlen s\<rparr>"
  show ?case
  proof (cases "ps = []")
    case True
    then show ?thesis using 1 by (simp add: printf_core.simps [of e False "[]"] finish_core_def)
  next
    case False
    obtain cs ps' where lit: "ps = map Ch cs @ ps'" "literal (format ps) = (cs, format ps')"
      "cs = [] \<longrightarrow> ps' = [] \<or> (\<exists>d qs. ps' = Dir d # qs)" using literal_back [of ps] by blast
    have ne: "format ps \<noteq> []" using False by (cases ps; cases "hd ps") auto
    have t: "pieces_text str ps as = cs @ pieces_text str ps' as" by (simp only: lit(1) pieces_text_literal)
    have step: "printf_core e False (format ps) s = (case round_body e False (format ps) ?s of
        Next fmt' s' \<Rightarrow> printf_core e False fmt' s' | Return r s' \<Rightarrow> Return r s' | Undef \<Rightarrow> Undef)"
      using 1(6) ne by (auto simp: printf_core.simps [of e False "format ps"] Let_def)
    have round: "round_body e False (format ps) ?s = (if cs \<noteq> [] then Next (format ps') (?s\<lparr>outlen := int (length cs)\<rparr>)
        else directive_step e False (format ps') (?s\<lparr>outlen := int (length cs)\<rparr>))"
      using 1(6) t by (simp add: round_body_def lit(2))
    show ?thesis
    proof (cases "cs = []")
      case False
      have "length ps' < length ps" using False lit(1) by (cases cs) simp_all
      then have "\<exists>s'. printf_core e False (format ps') (?s\<lparr>outlen := int (length cs)\<rparr>) = Return 0 s'
          \<and> strm s' = strm (?s\<lparr>outlen := int (length cs)\<rparr>) \<and> ap s' = ap (?s\<lparr>outlen := int (length cs)\<rparr>)"
        using 1(2-6) lit(1) t by (intro 1(1) [rule_format]) auto
      then show ?thesis using False by (simp add: step round)
    next
      case True
      then obtain d qs where d: "ps' = Dir d # qs" "ps = Dir d # qs" using lit \<open>ps \<noteq> []\<close> by auto
      then have ok: "dir_ok d" using 1(2) by simp
      have "dir_type d \<noteq> NOARG" using read_type_back [OF ok, of "[]"] by simp
      then show ?thesis using True d(1) directive_step_back [OF ok, of e False "format qs"]
        by (simp add: step round get_arg_def)
    qed
  qed
qed

section \<open>vsnprintf stores the text\<close>

lemma call_core_Return: "printf_core e f fmt (s\<lparr>cnt := 0, outlen := 0, l10n := False\<rparr>) = Return r s' \<Longrightarrow> call_core e f fmt s = Some (r, s')"
  by (simp add: call_core_def)

lemma sn_open_holds:
  assumes "0 < n" "n < 2 ^ 64" "cookie_s w = s" "unat (cookie_n w) = n - 1" "user_mem w = put m s [0]"
  shows "sn_holds m s n [] (sn_open, w)"
  using assms by (auto simp: sn_holds_def sn_stream_def sn_open_def sn_FILE_def has_flag_def)

lemma vfprintf_sn_writes:
  assumes "0 < n" "n < 2 ^ 64" "cookie_s w = s" "unat (cookie_n w) = n - 1" "user_mem w = put m s [0]"
    and "\<forall>p \<in> set ps. piece_ok p" "args_fit (in_range s n) m str ps as" "int (length (pieces_text str ps as)) \<le> INT_MAX"
  shows "\<exists>f w'. vfprintf e (format ps) as (sn_FILE, w) = Some (int (length (pieces_text str ps as)), f, w')
    \<and> user_mem w' = put m s (take (n - 1) (pieces_text str ps as) @ [0])"
proof -
  let ?t = "pieces_text str ps as" and ?s0 = "start_state as (sn_FILE, w)"
  obtain s1 where 1: "call_core e False (format ps) ?s0 = Some (0, s1)" "strm s1 = (sn_FILE, w)" "ap s1 = as"
    using format_first_pass [OF assms(6), of "?s0\<lparr>cnt := 0, outlen := 0, l10n := False\<rparr>" str as e] assms(8)
      call_core_Return [of e False "format ps" ?s0] by (auto simp: start_state_def)
  let ?s1 = "s1\<lparr>strm := (sn_open, w)\<rparr>"
  have "\<not> in_range s n a \<Longrightarrow> user_mem w a = m a" for a
    using assms(1,5) in_range_self [OF assms(1), of s] by auto
  then have "\<exists>s'. printf_core e True (format ps) (?s1\<lparr>cnt := 0, outlen := 0, l10n := False\<rparr>) = Return (int (length ?t)) s'
      \<and> sn_holds m s n ([] @ ?t) (strm s') \<and> (\<forall>a. \<not> in_range s n a \<longrightarrow> user_mem (snd (strm s')) a = m a)"
    using sn.format_writes [of e "os_calls e" m s n "[]" "?s1\<lparr>cnt := 0, outlen := 0, l10n := False\<rparr>" ps m str]
      sn_open_holds [OF assms(1-5)] assms(6-8) 1(3) by simp
  then obtain s2 where 2: "call_core e True (format ps) ?s1 = Some (int (length ?t), s2)" "sn_holds m s n ?t (strm s2)"
    using call_core_Return [of e True "format ps" ?s1] by auto
  obtain f2 w2 where fw: "strm s2 = (f2, w2)" by fastforce
  obtain k f3 w3 where flush: "sn_write [] (f2, w2) = (k, f3, w3)" by (metis prod_cases3)
  have h: "sn_holds m s n (?t @ []) (f3, w3)" "pending f3 = []" using sn_holds_write [OF _ flush] 2(2) fw by auto
  then have f3: "writing f3" "\<not> has_flag f3 F_ERR" "user_mem w3 = put m s (take (n - 1) ?t @ [0])"
    by (auto simp: sn_holds_def sn_stream_def)
  have "f_write f2 = Sn_write" using 2(2) fw by (auto simp: sn_holds_def sn_stream_def)
  then have fl: "file_write (os_calls e) [] (strm s2) = Some (k, f3, w3)" using fw flush by (simp add: file_write_def)
  have "towrite (sn_FILE\<lparr>flags := 0, buf_size := 80, writing := False, pending := []\<rparr>) = (False, sn_open)"
    by (simp add: towrite_def sn_open_def sn_FILE_def has_flag_def Let_def)
  moreover have "sint (f_mode sn_FILE) < 1" "without (flags sn_FILE) F_ERR = 0" "buf_size sn_FILE = 0"
    by (simp_all add: sn_FILE_def without_def)
  ultimately have "vfprintf e (format ps) as (sn_FILE, w) =
      Some (int (length ?t), f3\<lparr>buf_size := 0, writing := False, pending := [], flags := flags f3 OR (flags sn_FILE AND F_ERR)\<rparr>, w3)"
    using 1 2(1) fl f3(1,2) by (simp add: vfprintf_def Let_def has_flag_def)
  then show ?thesis using f3(3) by blast
qed

section \<open>printf appends the text to its stream\<close>

lemma without_unset: "fl AND x = 0 \<Longrightarrow> without fl x = fl"
  unfolding without_def by (auto simp: bit_eq_iff bit_and_iff bit_not_iff dest: bit_imp_le_length)

lemma vfprintf_stream_writes:
  assumes "stdio_holds (os_calls e) sent bs (f, w)" "buf_size f \<noteq> 0"
    and "\<forall>p \<in> set ps. piece_ok p" "args_fit (\<lambda>_. False) (user_mem w) str ps as" "int (length (pieces_text str ps as)) \<le> INT_MAX"
  shows "\<exists>fw. vfprintf e (format ps) as (f, w) = Some (int (length (pieces_text str ps as)), fw)
    \<and> stdio_holds (os_calls e) sent (bs @ pieces_text str ps as) fw"
proof -
  let ?t = "pieces_text str ps as" and ?s0 = "start_state as (f, w)"
  obtain s1 where 1: "call_core e False (format ps) ?s0 = Some (0, s1)" "strm s1 = (f, w)" "ap s1 = as"
    using format_first_pass [OF assms(3), of "?s0\<lparr>cnt := 0, outlen := 0, l10n := False\<rparr>" str as e] assms(5)
      call_core_Return [of e False "format ps" ?s0] by (auto simp: start_state_def)
  have err: "flags f AND F_ERR = 0" using assms(1) by (simp add: stdio_holds_def has_flag_def)
  have fl: "flags g AND F_ERR = 0 \<Longrightarrow> g\<lparr>flags := without (flags g) F_ERR\<rparr> = g" for g :: FILE by (simp add: without_unset)
  obtain f1 where f1: "(if \<not> writing f then towrite f else (False, f)) = (False, f1)"
    "stdio_holds (os_calls e) sent bs (f1, w)" "writing f1"
    using towrite_holds [OF assms(1)] assms(1) by (cases "writing f") auto
  let ?s1 = "s1\<lparr>strm := (f1, w)\<rparr>"
  have "\<exists>s'. printf_core e True (format ps) (?s1\<lparr>cnt := 0, outlen := 0, l10n := False\<rparr>) = Return (int (length ?t)) s'
      \<and> stdio_holds (os_calls e) sent (bs @ ?t) (strm s') \<and> (\<forall>a. \<not> False \<longrightarrow> user_mem (snd (strm s')) a = user_mem w a)"
    using so.format_writes [of e "os_calls e" sent bs "?s1\<lparr>cnt := 0, outlen := 0, l10n := False\<rparr>" ps "user_mem w" str]
      f1(2) assms(3-5) 1(3) by simp
  then obtain s2 where 2: "call_core e True (format ps) ?s1 = Some (int (length ?t), s2)"
    "stdio_holds (os_calls e) sent (bs @ ?t) (strm s2)"
    using call_core_Return [of e True "format ps" ?s1] by auto
  obtain f2 w2 where fw: "strm s2 = (f2, w2)" by fastforce
  have e2: "\<not> has_flag f2 F_ERR" using 2(2) fw by (simp add: stdio_holds_def)
  have "vfprintf e (format ps) as (f, w) = Some (int (length ?t), f2, w2)"
    using 1 2(1) fw e2 assms(2) err f1(1) by (cases "writing f") (simp_all add: vfprintf_def Let_def fl)
  then show ?thesis using 2(2) fw by auto
qed

section \<open>Properties\<close>

text \<open>A call to compute with; the system calls do nothing.\<close>

definition sample_os :: "unit os" where
  "sample_os = \<lparr>os_writev = (\<lambda>_ iov k. (of_nat (length (concat iov)), k)), os_no_window = (\<lambda>_ k. (True, k))\<rparr>"

definition sample_env :: "(ldshape, unit) printf_env" where
  "sample_env = \<lparr>os_calls = sample_os, conv_fp = fmt_fp sample_os, strerror = (\<lambda>_. 0), mb_cur_max = 4\<rparr>"

definition sample_world :: "unit world" where
  "sample_world = \<lparr>user_mem = (\<lambda>_. 7), cookie_s = 0, cookie_n = 0, errno = 0, sys = ()\<rparr>"

text \<open>The format \<open>x%04d\<close>.\<close>

definition sample_pieces :: "piece list" where
  "sample_pieces = [Ch 0x78, Dir \<lparr>d_flags = [Zero], d_width = 4, d_prec = None, d_mod = M_none, d_conv = Cd\<rparr>]"

definition sample_args :: "ldshape args" where
  "sample_args = [C_int (- 7)]"

lemma sample_format: "format sample_pieces = map of_char ''x%04d''"
  by code_simp

lemma sample_text: "pieces_text (\<lambda>_. []) sample_pieces sample_args = map of_char ''x-007''"
proof -
  have v: "signed_value M_none (- 7) = - 7" by (simp add: signed_value_def unsigned_value_def)
  have d: "digits 10 7 = [0x37]" by (simp add: digits.simps [of 10 7] digits.simps [of 10 0] digit_char_def)
  show ?thesis
    by (simp add: sample_pieces_def sample_args_def dir_text_def v d number_text_def sign_text_def pad_to_def at_least_def has_def
        digit_count_def numeral_2_eq_2)
qed

lemma sample_ok: "\<forall>p \<in> set sample_pieces. piece_ok p" "args_fit own m str sample_pieces sample_args"
  by (simp_all add: sample_pieces_def sample_args_def dir_ok_def INT_MAX_def)

text \<open>
  C9: For formats of literal text and the conversions d, i, u, o, x, X, p, c and s with any flags, widths, precisions
  and length modifiers, and arguments that fit them, \<open>vsnprintf\<close> returns the length of the text that the
  format stands for, and stores that text, cut to \<open>n - 1\<close> bytes and terminated, and nothing else.
\<close>

theorem vsnprintf_text:
  assumes "\<forall>p \<in> set ps. piece_ok p" "uint n \<le> INT_MAX" "int (length (pieces_text str ps as)) \<le> INT_MAX"
    and "args_fit (in_range (if n = 0 then dummy else s) (max 1 (unat n))) (user_mem w) str ps as"
  shows "\<exists>w'. vsnprintf e dummy s n (format ps) as w = Some (int (length (pieces_text str ps as)), w')
    \<and> user_mem w' = put (user_mem w) (if n = 0 then dummy else s) (take (max 1 (unat n) - 1) (pieces_text str ps as) @ [0])"
proof -
  define b N where "b = (if n = 0 then dummy else s)" and "N = max 1 (unat n)"
  let ?w = "w\<lparr>cookie_s := b, cookie_n := (if n \<noteq> 0 then n - 1 else 0), user_mem := (user_mem w)(b := 0)\<rparr>"
  have N: "0 < N" "N < 2 ^ 64" using unat64_lt [of n] by (auto simp: N_def)
  have c: "unat (cookie_n ?w) = N - 1" by (cases "n = 0") (simp_all add: N_def unat_minus_one Suc_le_eq unat_gt_0)
  obtain f w' where "vfprintf e (format ps) as (sn_FILE, ?w) = Some (int (length (pieces_text str ps as)), f, w')"
    "user_mem w' = put (user_mem w) b (take (N - 1) (pieces_text str ps as) @ [0])"
    using vfprintf_sn_writes [OF N, of ?w b "user_mem w" ps str as e] c assms unfolding b_def N_def by auto
  then show ?thesis using assms(2) unfolding b_def N_def by (auto simp: vsnprintf_def Let_def)
qed

theorem vsnprintf_text_witness:
  "\<exists>w'. vsnprintf sample_env 0x900 0x100 4 (map of_char ''x%04d'') sample_args sample_world = Some (5, w')
    \<and> map (\<lambda>a. user_mem w' a) [0x100, 0x101, 0x102, 0x103, 0x104] = [0x78, 0x2d, 0x30, 0, 7]"
proof -
  have "\<exists>w'. vsnprintf sample_env 0x900 0x100 4 (format sample_pieces) sample_args sample_world
      = Some (int (length (pieces_text (\<lambda>_. []) sample_pieces sample_args)), w')
    \<and> user_mem w' = put (user_mem sample_world) (if (4 :: u64) = 0 then 0x900 else 0x100)
        (take (max 1 (unat (4 :: u64)) - 1) (pieces_text (\<lambda>_. []) sample_pieces sample_args) @ [0])"
    by (rule vsnprintf_text) (simp_all add: sample_ok sample_text INT_MAX_def)
  then show ?thesis unfolding sample_text sample_format by (auto simp: sample_world_def)
qed

text \<open>
  C11: \<open>printf\<close> on a buffered stream to a file descriptor whose \<open>writev\<close> makes progress returns the length of the
  text of the format and appends exactly that text to what the stream has sent and still holds in its buffer.
\<close>

theorem printf_text:
  assumes "stdio_holds (os_calls e) sent bs (f, w)" "buf_size f \<noteq> 0" "\<forall>p \<in> set ps. piece_ok p"
    and "args_fit (\<lambda>_. False) (user_mem w) str ps as" "int (length (pieces_text str ps as)) \<le> INT_MAX"
  shows "\<exists>fw. printf e (format ps) as (f, w) = Some (int (length (pieces_text str ps as)), fw)
    \<and> stdio_holds (os_calls e) sent (bs @ pieces_text str ps as) fw"
  unfolding printf_def by (rule vfprintf_stream_writes [OF assms])

definition slow_env :: "(ldshape, u8 list) printf_env" where
  "slow_env = \<lparr>os_calls = slow_os, conv_fp = fmt_fp slow_os, strerror = (\<lambda>_. 0), mb_cur_max = 4\<rparr>"

theorem printf_text_witness:
  "\<exists>fw. printf slow_env (map of_char ''x%04d'') sample_args
      (stdout_FILE, \<lparr>user_mem = (\<lambda>_. 0), cookie_s = 0, cookie_n = 0, errno = 0, sys = [9]\<rparr>) = Some (5, fw)
    \<and> sys (snd fw) @ pending (fst fw) = 9 # map of_char ''x-007''"
proof -
  let ?w = "\<lparr>user_mem = (\<lambda>_. 0), cookie_s = 0, cookie_n = 0, errno = 0, sys = [9 :: u8]\<rparr>"
  have h: "stdio_holds (os_calls slow_env) (\<lambda>bs k. k = bs) [9] (stdout_FILE, ?w)"
    using slow_os_obeys
    by (simp add: stdio_holds_def slow_env_def stdout_FILE_def BUFSIZ_def has_flag_def F_PERM_def F_NORD_def F_ERR_def F_NOWR_def)
  have "\<exists>fw. printf slow_env (format sample_pieces) sample_args (stdout_FILE, ?w)
      = Some (int (length (pieces_text (\<lambda>_. []) sample_pieces sample_args)), fw)
    \<and> stdio_holds (os_calls slow_env) (\<lambda>bs k. k = bs) ([9] @ pieces_text (\<lambda>_. []) sample_pieces sample_args) fw"
    by (rule printf_text [OF h]) (simp_all add: sample_ok sample_text INT_MAX_def stdout_FILE_def BUFSIZ_def)
  then show ?thesis unfolding sample_text sample_format by (auto simp: stdio_holds_def)
qed

end
