(* ===== verification/Fmt_Fp_Count.thy ===== *)
theory Fmt_Fp_Count
  imports Fmt_Fp_Limbs Printf_Spec
begin

text \<open>
  What \<open>fmt_fp\<close> writes: it touches the stream by \<open>out\<close> alone, with pieces of bounded length, and the value
  it returns is the number of bytes it has written.
\<close>

section \<open>Counting what is written\<close>

text \<open>If the action returns, it has written \<open>n\<close> bytes in pieces of bounded length.\<close>

definition sends :: "'k os \<Rightarrow> 'k stream \<Rightarrow> int \<Rightarrow> 'k stream option \<Rightarrow> bool" where
  "sends os fw n r \<longleftrightarrow> (\<forall>fw'. r = Some fw' \<longrightarrow>
     (\<exists>xs. outs os xs fw = Some fw' \<and> (\<forall>x \<in> set xs. length x < 2 ^ 31) \<and> int (length (concat xs)) = n))"

lemma outs_append: "outs os (xs @ ys) fw = Option.bind (outs os xs fw) (outs os ys)"
proof (induction xs arbitrary: fw)
  case (Cons x xs)
  then show ?case by (cases "out os x fw") simp_all
qed simp

lemma sends_nothing [simp]: "sends os fw 0 (Some fw)" "sends os fw n None"
  by (auto simp: sends_def intro!: exI [of _ "[]"])

lemma sends_out: "length s < 2 ^ 31 \<Longrightarrow> sends os fw (int (length s)) (out os s fw)"
  by (auto simp: sends_def intro!: exI [of _ "[s]"])

lemma sends_bind:
  assumes "sends os fw n r" "\<And>fw'. r = Some fw' \<Longrightarrow> sends os fw' m (k fw')"
  shows "sends os fw (n + m) (Option.bind r k)"
  unfolding sends_def
proof (intro allI impI)
  fix fw' assume "Option.bind r k = Some fw'"
  then obtain fw1 where 1: "r = Some fw1" "k fw1 = Some fw'" by (auto simp: bind_eq_Some_conv)
  obtain xs where xs: "outs os xs fw = Some fw1" "\<forall>x \<in> set xs. length x < 2 ^ 31" "int (length (concat xs)) = n"
    using assms(1) 1(1) by (auto simp: sends_def)
  obtain ys where ys: "outs os ys fw1 = Some fw'" "\<forall>x \<in> set ys. length x < 2 ^ 31" "int (length (concat ys)) = m"
    using assms(2) [OF 1(1)] 1(2) by (auto simp: sends_def)
  show "\<exists>xs. outs os xs fw = Some fw' \<and> (\<forall>x \<in> set xs. length x < 2 ^ 31) \<and> int (length (concat xs)) = n + m"
    using xs ys by (intro exI [of _ "xs @ ys"]) (auto simp: outs_append)
qed

lemma sends_pad_loop: "sends os fw (int l) (pad_loop os c l fw)"
proof (induction l arbitrary: fw rule: less_induct)
  case (less l)
  show ?case
  proof (cases "l \<ge> 256")
    case True
    have "sends os fw (int (length (replicate 256 c)) + int (l - 256)) (Option.bind (out os (replicate 256 c) fw) (pad_loop os c (l - 256)))"
      by (intro sends_bind sends_out less) (use True in simp_all)
    then show ?thesis using True by (simp add: pad_loop.simps [of os c l fw] of_nat_diff)
  next
    case False
    then show ?thesis using sends_out [of "replicate l c" os fw] by (simp add: pad_loop.simps [of os c l fw])
  qed
qed

lemma sends_pad: "sends os fw (if fl AND (LEFT_ADJ OR ZERO_PAD) \<noteq> 0 then 0 else max 0 (w - l)) (pad os c w l fl fw)"
  using sends_pad_loop [of os fw "nat (w - l)" c] by (auto simp: pad_def max_def)

lemma sends_guard: "(c \<Longrightarrow> sends os fw n r) \<Longrightarrow> sends os fw n (if c then r else None)"
  by simp

text \<open>An action with a further result, of which the number of bytes depends.\<close>

definition sends_ret :: "'k os \<Rightarrow> 'k stream \<Rightarrow> ('a \<Rightarrow> int) \<Rightarrow> ('a \<times> 'k stream) option \<Rightarrow> bool" where
  "sends_ret os fw n r \<longleftrightarrow> (\<forall>x fw'. r = Some (x, fw') \<longrightarrow> sends os fw (n x) (Some fw'))"

lemma sends_ret_simps [simp]:
  "sends_ret os fw n None" "sends_ret os fw n (Some (x, fw')) \<longleftrightarrow> sends os fw (n x) (Some fw')"
  by (auto simp only: sends_ret_def option.simps prod.inject)

lemma sends_ret_bind:
  assumes "sends_ret os fw n r" "\<And>x fw'. sends os fw' (m x) (k (x, fw'))" "\<And>x. n x + m x = t"
  shows "sends os fw t (Option.bind r k)"
proof (cases r)
  case (Some y)
  obtain x fw' where y: "y = (x, fw')" by (cases y)
  have "sends os fw (n x) (Some fw')" using assms(1) Some y by (simp only: sends_ret_simps)
  then have "sends os fw (n x + m x) (Option.bind (Some fw') (\<lambda>fw. k (x, fw)))" by (rule sends_bind) (rule assms(2))
  then show ?thesis using Some y assms(3) by simp
qed simp

lemma sends_then_ret:
  assumes "sends os fw n r" "\<And>fw'. r = Some fw' \<Longrightarrow> sends_ret os fw' m (k fw')"
  shows "sends_ret os fw (\<lambda>x. n + m x) (Option.bind r k)"
proof (cases r)
  case (Some fw')
  show ?thesis
  proof (cases "k fw'")
    case 1: (Some y)
    obtain x fw2 where y: "y = (x, fw2)" by (cases y)
    have "sends os fw' (m x) (Some fw2)" using assms(2) [OF Some] 1 y by (simp only: sends_ret_simps)
    then have "sends os fw (n + m x) (Option.bind (Some fw') (\<lambda>_. Some fw2))"
      using assms(1) Some by (intro sends_bind) simp_all
    then show ?thesis using Some 1 y by simp
  qed (use Some in simp)
qed simp

section \<open>The frame of a field\<close>

lemma flag_toggle:
  "bit (fl XOR ZERO_PAD) 13 = bit fl 13" "bit (fl XOR ZERO_PAD) 16 = (\<not> bit fl 16)"
  "bit (fl XOR LEFT_ADJ) 13 = (\<not> bit fl 13)" "bit (fl XOR LEFT_ADJ) 16 = bit fl 16"
  unfolding flag_masks bit_toggle by simp_all

lemma sends_pad_bits: "sends os fw (if bit fl 13 \<or> bit fl 16 then 0 else max 0 (w - l)) (pad os c w l fl fw)"
  using sends_pad [of os fw fl w l c] by (cases "bit fl 13"; cases "bit fl 16") (simp_all add: adjust_zero)

text \<open>A prefix and a body that fill a field of width \<open>w\<close>, which is the number of bytes if it is larger.\<close>

lemma sends_field:
  assumes "\<not> (bit fl 13 \<and> bit fl 16)" "length pre < 2 ^ 31" "\<And>fw. sends os fw (l - int (length pre)) (act fw)"
  shows "sends os fw (max w l) (do {
    fw \<leftarrow> pad os 0x20 w l fl fw; fw \<leftarrow> out os pre fw; fw \<leftarrow> pad os 0x30 w l (fl XOR ZERO_PAD) fw;
    fw \<leftarrow> act fw; pad os 0x20 w l (fl XOR LEFT_ADJ) fw })"
proof -
  let ?m = "\<lambda>fl. if bit fl 13 \<or> bit fl 16 then 0 else max 0 (w - l)"
  have "sends os fw (?m fl + (int (length pre) + (?m (fl XOR ZERO_PAD) + (l - int (length pre) + ?m (fl XOR LEFT_ADJ))))) (do {
    fw \<leftarrow> pad os 0x20 w l fl fw; fw \<leftarrow> out os pre fw; fw \<leftarrow> pad os 0x30 w l (fl XOR ZERO_PAD) fw;
    fw \<leftarrow> act fw; pad os 0x20 w l (fl XOR LEFT_ADJ) fw })"
    by (intro sends_bind sends_pad_bits sends_out assms(2,3))
  moreover have "?m fl + (int (length pre) + (?m (fl XOR ZERO_PAD) + (l - int (length pre) + ?m (fl XOR LEFT_ADJ)))) = max w l"
    unfolding flag_toggle using assms(1) by auto
  ultimately show ?thesis by simp
qed

lemma sends_field_ret:
  assumes "do { fw \<leftarrow> pad os 0x20 w l fl fw; fw \<leftarrow> out os pre fw; fw \<leftarrow> pad os 0x30 w l (fl XOR ZERO_PAD) fw;
      fw \<leftarrow> act fw; fw \<leftarrow> pad os 0x20 w l (fl XOR LEFT_ADJ) fw; Some (max w l, fw) } = Some (x, fw')"
    and "\<not> (bit fl 13 \<and> bit fl 16)" "length pre < 2 ^ 31" "\<And>fw. sends os fw (l - int (length pre)) (act fw)"
  shows "x = max w l \<and> sends os fw (max w l) (Some fw')"
proof -
  have "do { fw \<leftarrow> pad os 0x20 w l fl fw; fw \<leftarrow> out os pre fw; fw \<leftarrow> pad os 0x30 w l (fl XOR ZERO_PAD) fw;
      fw \<leftarrow> act fw; pad os 0x20 w l (fl XOR LEFT_ADJ) fw } = Some fw'" "x = max w l"
    using assms(1) by (auto simp: bind_eq_Some_conv)
  then show ?thesis using sends_field [OF assms(2-4), of fw w] by simp
qed

section \<open>The limbs that are written\<close>

lemma limb_digits_length: "limb_digits d b = Some s \<Longrightarrow> length s \<le> 9"
  by (auto simp: limb_digits_def Let_def bind_eq_Some_conv split: if_splits)

lemma fill_zeros_length: "length (fill_zeros n s) = max n (length s)"
  by (simp add: fill_zeros_def)

lemma sends_integer_rest: "a < d \<Longrightarrow> d \<le> r + 1 \<Longrightarrow> sends os fw (9 * (r + 1 - d)) (integer_limbs os a d r b fw)"
proof (induction "nat (r + 1 - d)" arbitrary: d fw)
  case (Suc n)
  show ?case
  proof (cases "limb_digits d b")
    case (Some s)
    have l: "length (fill_zeros 9 s) = 9" using limb_digits_length [OF Some] by (simp add: fill_zeros_length)
    have "sends os fw (int (length (fill_zeros 9 s)) + 9 * (r + 1 - (d + 1)))
        (Option.bind (out os (fill_zeros 9 s) fw) (integer_limbs os a (d + 1) r b))"
      by (intro sends_bind sends_out Suc.hyps(1)) (use Suc l in simp_all)
    moreover have "d \<le> r" using Suc.hyps(2) by simp
    ultimately show ?thesis using Suc.prems Some unfolding l by (simp add: integer_limbs.simps [of os a d r b fw] algebra_simps)
  qed (use Suc in \<open>auto simp: integer_limbs.simps [of os a d r b fw]\<close>)
qed (simp add: integer_limbs.simps)

lemma sends_integer:
  assumes "a \<le> r" "b a = Some v"
  shows "sends os fw (limb_length v + 9 * (r - a)) (integer_limbs os a a r b fw)"
proof (cases "limb_digits a b")
  case (Some s)
  have s: "s = fmt_u (ucast v) []" using Some assms(2) by (simp add: limb_digits_def Let_def split: if_splits)
  have l: "int (length (fill_zeros 1 s)) = limb_length v" "length (fill_zeros 1 s) < 2 ^ 31"
    using limb_digits_length [OF Some] by (auto simp: fill_zeros_length limb_length_def s)
  have "sends os fw (int (length (fill_zeros 1 s)) + 9 * (r + 1 - (a + 1)))
      (Option.bind (out os (fill_zeros 1 s) fw) (integer_limbs os a (a + 1) r b))"
    by (intro sends_bind sends_out sends_integer_rest) (use assms(1) l(2) in simp_all)
  then show ?thesis using assms(1) Some unfolding l(1) by (simp add: integer_limbs.simps [of os a a r b fw])
qed (simp add: integer_limbs.simps assms(1))

lemma take_length: "0 \<le> k \<Longrightarrow> int (length (take (nat k) s)) = min (int (length s)) k"
  by simp

lemma sends_fraction: "sends_ret os fw (\<lambda>p'. max 0 p - max 0 p') (fraction_limbs os d z p b fw)"
proof (induction "nat (z - d)" arbitrary: d p fw)
  case 0
  then show ?case by (simp add: fraction_limbs.simps [of os d z p b fw])
next
  case (Suc n)
  show ?case
  proof (cases "p > 0 \<and> limb_digits d b \<noteq> None")
    case True
    then obtain s where s: "limb_digits d b = Some s" by auto
    let ?s = "take (nat (min 9 p)) (fill_zeros 9 s)"
    have l: "int (length ?s) = min 9 p" "length ?s < 2 ^ 31"
      using limb_digits_length [OF s] True by (simp_all add: fill_zeros_length)
    have "sends_ret os fw (\<lambda>p'. int (length ?s) + (max 0 (p - 9) - max 0 p'))
        (Option.bind (out os ?s fw) (fraction_limbs os (d + 1) z (p - 9) b))"
      by (intro sends_then_ret sends_out Suc.hyps(1)) (use Suc.hyps(2) l(2) in simp_all)
    moreover have "(\<lambda>p'. int (length ?s) + (max 0 (p - 9) - max 0 p')) = (\<lambda>p'. max 0 p - max 0 p')"
      unfolding l(1) using True by auto
    moreover have "d < z" using Suc.hyps(2) by simp
    ultimately show ?thesis
      using s True by (simp add: fraction_limbs.simps [of os d z p b fw])
  qed (use Suc.hyps(2) in \<open>auto simp: fraction_limbs.simps [of os d z p b fw]\<close>)
qed

lemma sends_exponent_rest: "a < d \<Longrightarrow> sends_ret os fw (\<lambda>p'. max 0 p - max 0 p') (exponent_limbs os fl a d z p b fw)"
proof (induction "nat (z - d)" arbitrary: d p fw)
  case 0
  then show ?case by (simp add: exponent_limbs.simps [of os fl a d z p b fw])
next
  case (Suc n)
  show ?case
  proof (cases "p \<ge> 0 \<and> limb_digits d b \<noteq> None")
    case True
    then obtain s where s: "limb_digits d b = Some s" by auto
    have f: "length (fill_zeros 9 s) = 9" using limb_digits_length [OF s] by (simp add: fill_zeros_length)
    let ?s = "take (nat (min (int (length (fill_zeros 9 s))) p)) (fill_zeros 9 s)"
    have l: "int (length ?s) = min 9 p" "length ?s < 2 ^ 31" using True f by simp_all
    have "sends_ret os fw (\<lambda>p'. int (length ?s) + (max 0 (p - 9) - max 0 p'))
        (Option.bind (out os ?s fw) (exponent_limbs os fl a (d + 1) z (p - 9) b))"
      by (intro sends_then_ret sends_out Suc.hyps(1)) (use Suc l(2) in simp_all)
    moreover have "(\<lambda>p'. int (length ?s) + (max 0 (p - 9) - max 0 p')) = (\<lambda>p'. max 0 p - max 0 p')"
      unfolding l(1) using True by auto
    moreover have "d < z" using Suc.hyps(2) by simp
    ultimately show ?thesis
      using s True Suc.prems f by (simp add: exponent_limbs.simps [of os fl a d z p b fw] Let_def)
  qed (use Suc.hyps(2) in \<open>auto simp: exponent_limbs.simps [of os fl a d z p b fw]\<close>)
qed

definition point :: "int \<Rightarrow> u32 \<Rightarrow> int" where
  "point p fl = (if p \<noteq> 0 \<or> fl AND ALT_FORM \<noteq> 0 then 1 else 0)"

lemma sends_point: "sends os fw (point p fl) (if p \<noteq> 0 \<or> fl AND ALT_FORM \<noteq> 0 then out os [c] fw else Some fw)"
  using sends_out [of "[c]" os fw] by (simp add: point_def)

lemma sends_exponent:
  assumes "a < z" "0 \<le> p"
  shows "sends_ret os fw (\<lambda>p'. 1 + point p fl + p - max 0 p') (exponent_limbs os fl a a z p b fw)"
proof (cases "limb_digits a b")
  case (Some s)
  have "0 < length (fill_zeros 1 s)" "length (fill_zeros 1 s) \<le> 9"
    using limb_digits_length [OF Some] by (simp_all add: fill_zeros_length)
  then obtain c t where t: "fill_zeros 1 s = c # t" "length t \<le> 8" by (cases "fill_zeros 1 s") auto
  let ?s = "take (nat (min (int (length t)) p)) t"
  have l: "int (length ?s) = min (int (length t)) p" "length ?s < 2 ^ 31" using assms(2) t by simp_all
  have "sends_ret os fw (\<lambda>p'. int (length [c]) + (point p fl + (int (length ?s) + (max 0 (p - int (length t)) - max 0 p'))))
      (do { fw \<leftarrow> out os [c] fw; fw \<leftarrow> (if p \<noteq> 0 \<or> fl AND ALT_FORM \<noteq> 0 then out os [of_char CHR ''.''] fw else Some fw);
            fw \<leftarrow> out os ?s fw; exponent_limbs os fl a (a + 1) z (p - int (length t)) b fw })"
    by (intro sends_then_ret sends_out sends_point sends_exponent_rest) (use l(2) in simp_all)
  moreover have "(\<lambda>p'. int (length [c]) + (point p fl + (int (length ?s) + (max 0 (p - int (length t)) - max 0 p'))))
      = (\<lambda>p'. 1 + point p fl + p - max 0 p')"
    unfolding l(1) using assms(2) by (auto simp: fun_eq_iff min_def max_def)
  moreover have "p > 0 \<longleftrightarrow> p \<noteq> 0" using assms(2) by auto
  ultimately show ?thesis
    using Some assms t(1) by (simp add: exponent_limbs.simps [of os fl a a z p b fw])
qed (use assms in \<open>simp add: exponent_limbs.simps [of os fl a a z p b fw]\<close>)

section \<open>The length of what is written\<close>

text \<open>The number of bytes is the value that is returned, or the value is -1 and nothing is written.\<close>

definition counts :: "'k os \<Rightarrow> 'k stream \<Rightarrow> (int \<times> 'k stream) option \<Rightarrow> bool" where
  "counts os fw r \<longleftrightarrow> (\<forall>x fw'. r = Some (x, fw') \<longrightarrow> x = - 1 \<and> fw' = fw \<or> 0 \<le> x \<and> sends os fw x (Some fw'))"

lemma counts_refused: "counts os fw (Some (- 1, fw))" "counts os fw None"
  unfolding counts_def by auto

lemma counts_field:
  assumes "\<not> (bit fl 13 \<and> bit fl 16)" "length pre < 2 ^ 31" "\<And>fw. sends os fw (l - int (length pre)) (act fw)" "0 \<le> l"
  shows "counts os fw (do { fw \<leftarrow> pad os 0x20 w l fl fw; fw \<leftarrow> out os pre fw; fw \<leftarrow> pad os 0x30 w l (fl XOR ZERO_PAD) fw;
      fw \<leftarrow> act fw; fw \<leftarrow> pad os 0x20 w l (fl XOR LEFT_ADJ) fw; Some (max w l, fw) })"
  unfolding counts_def
proof (intro allI impI disjI2)
  fix x fw' assume "do { fw \<leftarrow> pad os 0x20 w l fl fw; fw \<leftarrow> out os pre fw; fw \<leftarrow> pad os 0x30 w l (fl XOR ZERO_PAD) fw;
      fw \<leftarrow> act fw; fw \<leftarrow> pad os 0x20 w l (fl XOR LEFT_ADJ) fw; Some (max w l, fw) } = Some (x, fw')"
  from sends_field_ret [OF this assms(1-3)] show "0 \<le> x \<and> sends os fw x (Some fw')" using assms(4) by simp
qed

lemma prefix_length:
  "fp_sign y fl = (y', pre, pl) \<Longrightarrow> pl \<le> 1 \<and> length (take pl (drop pre fp_prefixes)) = pl
     \<and> length (take (pl + 2) (drop (if c then pre + 9 else pre) fp_prefixes)) = pl + 2"
  by (auto simp: fp_sign_def fp_prefixes_def split: if_splits)

lemma counts_special:
  assumes "\<not> (bit fl 13 \<and> bit fl 16)" "fp_sign y0 fl = (y, pre, pl)"
  shows "counts os fw (fp_special os y pre pl w fl t fw)"
proof -
  define s :: "u8 list" where "s = map of_char (if ld_ne y y then (if t AND 32 \<noteq> 0 then ''nan'' else ''NAN'') else if t AND 32 \<noteq> 0 then ''inf'' else ''INF'')"
  let ?p = "take pl (drop pre fp_prefixes)" and ?m = "\<lambda>fl. if bit fl 13 \<or> bit fl 16 then 0 else max 0 (w - (3 + int pl))"
  have l: "length s = 3" "length ?p = pl" "pl \<le> 1" using prefix_length [OF assms(2)] by (simp_all add: s_def)
  have "sends os fw (?m (without fl ZERO_PAD) + (int (length ?p) + (int (length s) + ?m (fl XOR LEFT_ADJ))))
      (do { fw \<leftarrow> pad os 0x20 w (3 + int pl) (without fl ZERO_PAD) fw; fw \<leftarrow> out os ?p fw; fw \<leftarrow> out os s fw;
            pad os 0x20 w (3 + int pl) (fl XOR LEFT_ADJ) fw })"
    by (intro sends_bind sends_pad_bits sends_out) (use l in simp_all)
  moreover have "?m (without fl ZERO_PAD) + (int (length ?p) + (int (length s) + ?m (fl XOR LEFT_ADJ))) = max w (3 + int pl)"
    unfolding flag_toggle bit_without l using assms(1) by auto
  ultimately have c: "sends os fw (max w (3 + int pl))
      (do { fw \<leftarrow> pad os 0x20 w (3 + int pl) (without fl ZERO_PAD) fw; fw \<leftarrow> out os ?p fw; fw \<leftarrow> out os s fw;
            pad os 0x20 w (3 + int pl) (fl XOR LEFT_ADJ) fw })" by simp
  have "(do { fw \<leftarrow> pad os 0x20 w (3 + int pl) (without fl ZERO_PAD) fw; fw \<leftarrow> out os ?p fw; fw \<leftarrow> out os s fw;
        pad os 0x20 w (3 + int pl) (fl XOR LEFT_ADJ) fw }) = Some fw' \<and> x = max w (3 + int pl)"
    if "fp_special os y pre pl w fl t fw = Some (x, fw')" for x fw'
    using that unfolding fp_special_def Let_def s_def by (auto simp: bind_eq_Some_conv split: if_splits)
  then show ?thesis using c unfolding counts_def by fastforce
qed

lemma exp_digits_length: "length (exp_digits n c e) \<le> n + 22"
  using digits_64(1) [of "of_int \<bar>e\<bar>"] by (simp add: exp_digits_def Let_def fmt_u_digits)

lemma hex_digits_length: "hex_digits t p fl y s = Some s' \<Longrightarrow> length s' \<le> buf_size_fp + 1"
proof (induction t p fl y s rule: hex_digits.induct)
  case (1 t p fl y s)
  then show ?case
    by (simp only: hex_digits.simps [of t p fl y s]) (auto simp: Let_def split: if_splits)
qed

lemma counts_hex:
  assumes "\<not> (bit fl 13 \<and> bit fl 16)" "fp_sign y0 fl = (y1, pre, pl)"
  shows "counts os fw (fp_hex os y e2 pre pl w p fl t fw)"
proof -
  define pre' where "pre' = (if t AND 32 \<noteq> 0 then pre + 9 else pre)"
  define q where "q = take (pl + 2) (drop pre' fp_prefixes)"
  define estr where "estr = exp_digits 1 (t + 15) e2"
  have q: "length q = pl + 2" "pl \<le> 1" using prefix_length [OF assms(2), of "t AND 32 \<noteq> 0"] by (simp_all add: q_def pre'_def)
  have e: "length estr \<le> 23" using exp_digits_length [of 1] by (simp add: estr_def)
  show ?thesis
  proof (cases "hex_digits t p fl (hex_round y p pre') []")
    case (Some s)
    define l where "l = (if p \<noteq> 0 \<and> int (length s) - 2 < p then p + 2 + int (length estr) else int (length s + length estr))"
    have s: "length s \<le> 26" using hex_digits_length [OF Some] by (simp add: buf_size_fp_def LDBL_MANT_DIG_def)
    have act: "sends os fw (int (pl + 2) + l - int (length q)) (do {
        fw \<leftarrow> out os s fw; fw \<leftarrow> pad os 0x30 (l - int (length estr) - int (length s)) 0 0 fw; out os estr fw })" for fw
    proof -
      have "sends os fw (int (length s) + ((if bit (0 :: u32) 13 \<or> bit (0 :: u32) 16 then 0 else max 0 (l - int (length estr) - int (length s) - 0)) + int (length estr)))
          (do { fw \<leftarrow> out os s fw; fw \<leftarrow> pad os 0x30 (l - int (length estr) - int (length s)) 0 0 fw; out os estr fw })"
        by (intro sends_bind sends_out sends_pad_bits) (use s e in simp_all)
      moreover have "0 \<le> l - int (length estr) - int (length s)" by (auto simp: l_def)
      ultimately show ?thesis using q(1) by simp
    qed
    have "fp_hex os y e2 pre pl w p fl t fw = Some (- 1, fw) \<or> fp_hex os y e2 pre pl w p fl t fw =
        do { fw \<leftarrow> pad os 0x20 w (int (pl + 2) + l) fl fw; fw \<leftarrow> out os q fw; fw \<leftarrow> pad os 0x30 w (int (pl + 2) + l) (fl XOR ZERO_PAD) fw;
          fw \<leftarrow> (do { fw \<leftarrow> out os s fw; fw \<leftarrow> pad os 0x30 (l - int (length estr) - int (length s)) 0 0 fw; out os estr fw });
          fw \<leftarrow> pad os 0x20 w (int (pl + 2) + l) (fl XOR LEFT_ADJ) fw; Some (max w (int (pl + 2) + l), fw) }"
      unfolding fp_hex_def Let_def pre'_def [symmetric] q_def [symmetric] estr_def [symmetric] Some Option.bind_lunit l_def [symmetric]
      by (simp add: Option.bind_assoc)
    moreover have "0 \<le> int (pl + 2) + l" by (auto simp: l_def)
    then have "counts os fw (do {
        fw \<leftarrow> pad os 0x20 w (int (pl + 2) + l) fl fw; fw \<leftarrow> out os q fw; fw \<leftarrow> pad os 0x30 w (int (pl + 2) + l) (fl XOR ZERO_PAD) fw;
          fw \<leftarrow> (do { fw \<leftarrow> out os s fw; fw \<leftarrow> pad os 0x30 (l - int (length estr) - int (length s)) 0 0 fw; out os estr fw });
          fw \<leftarrow> pad os 0x20 w (int (pl + 2) + l) (fl XOR LEFT_ADJ) fw; Some (max w (int (pl + 2) + l), fw) })"
      by (intro counts_field [OF assms(1)] act) (use q in simp_all)
    ultimately show ?thesis by (elim disjE) (simp_all only: counts_refused)
  qed (simp add: fp_hex_def Let_def pre'_def counts_refused)
qed

lemma if_not_swap: "(if \<not> c then x else y) = (if c then y else x)"
  by simp

lemma fp_length_Some:
  assumes "fp_length t p fl e pl = Some (l, estr)"
  shows "l = 1 + p + point p fl + (if t OR 32 = 0x66 then max 0 e else int (length estr))" "length estr \<le> 24"
proof -
  have "length (exp_digits 2 t e) \<le> 24" using exp_digits_length [of 2 t e] by simp
  then show "l = 1 + p + point p fl + (if t OR 32 = 0x66 then max 0 e else int (length estr))" "length estr \<le> 24"
    using assms by (auto simp: fp_length_def Let_def point_def split: if_splits)
qed

lemma sends_zeros: "sends os fw (max 0 p) (if in_int (p + n) then pad os c (p + n) n 0 fw else None)"
  using sends_pad_bits [of os fw 0 "p + n" n c] by simp

lemma sends_decimal_f:
  assumes "a \<le> r" "b a = Some v" "0 \<le> p"
  shows "sends os fw (limb_length v + 9 * (r - a) + (point p fl + p)) (do {
    fw \<leftarrow> integer_limbs os a a r b fw;
    fw \<leftarrow> (if p \<noteq> 0 \<or> fl AND ALT_FORM \<noteq> 0 then out os [c] fw else Some fw);
    (p, fw) \<leftarrow> fraction_limbs os (r + 1) z p b fw;
    if in_int (p + 9) then pad os 0x30 (p + 9) 9 0 fw else None })"
  by (intro sends_bind sends_integer assms(1,2) sends_point
      sends_ret_bind [where n = "\<lambda>p'. max 0 p - max 0 p'" and m = "max 0"])
    (simp_all only: prod.case sends_fraction sends_zeros, use assms(3) in simp)

lemma sends_decimal_e:
  assumes "a < z" "0 \<le> p" "length estr < 2 ^ 31"
  shows "sends os fw (1 + point p fl + p + int (length estr)) (do {
    (p, fw) \<leftarrow> exponent_limbs os fl a a z p b fw;
    if in_int (p + 18) then do { fw \<leftarrow> pad os 0x30 (p + 18) 18 0 fw; out os estr fw } else None })"
proof (rule sends_ret_bind [where m = "\<lambda>p'. max 0 p' + int (length estr)"])
  show "sends_ret os fw (\<lambda>p'. 1 + point p fl + p - max 0 p') (exponent_limbs os fl a a z p b fw)"
    by (rule sends_exponent [OF assms(1,2)])
next
  fix x and fw' :: "'a stream"
  have "sends os fw' (max 0 x + int (length estr)) (do { fw \<leftarrow> (if in_int (x + 18) then pad os 0x30 (x + 18) 18 0 fw' else None); out os estr fw })"
    by (intro sends_bind sends_zeros sends_out assms(3))
  then show "sends os fw' (max 0 x + int (length estr)) (case (x, fw') of (p, fw) \<Rightarrow>
      if in_int (p + 18) then do { fw \<leftarrow> pad os 0x30 (p + 18) 18 0 fw; out os estr fw } else None)"
    by (cases "in_int (x + 18)") simp_all
qed simp

text \<open>The digits before the radix point are as many as the exponent says.\<close>

definition int_part :: "int \<Rightarrow> int \<Rightarrow> int \<Rightarrow> big \<Rightarrow> bool" where
  "int_part r a e b \<longleftrightarrow> (\<exists>v. b (min a r) = Some v \<and> limb_length v + 9 * (r - min a r) = 1 + max 0 e)"

lemma counts_output:
  assumes "\<not> (bit fl 13 \<and> bit fl 16)" "fp_sign y0 fl = (y1, pre, pl)" "0 \<le> p" "fp_length t p fl e pl = Some (l, estr)"
    and "t OR 32 = 0x66 \<Longrightarrow> int_part r a e b"
  shows "counts os fw (fp_output os pre pl w p fl t l estr r a z b fw)"
proof -
  define q where "q = take pl (drop pre fp_prefixes)"
  have q: "length q = pl" "pl \<le> 1" using prefix_length [OF assms(2)] by (simp_all add: q_def)
  define a' where "a' = (if a > r then r else a)"
  define z' where "z' = (if z \<le> a then a + 1 else z)"
  define act where "act fw = (if t OR 32 = 0x66
      then do { fw \<leftarrow> integer_limbs os a' a' r b fw;
                fw \<leftarrow> (if p \<noteq> 0 \<or> fl AND ALT_FORM \<noteq> 0 then out os [of_char CHR ''.''] fw else Some fw);
                (p, fw) \<leftarrow> fraction_limbs os (r + 1) z p b fw;
                if in_int (p + 9) then pad os 0x30 (p + 9) 9 0 fw else None }
      else do { (p, fw) \<leftarrow> exponent_limbs os fl a a z' p b fw;
                if in_int (p + 18) then do { fw \<leftarrow> pad os 0x30 (p + 18) 18 0 fw; out os estr fw } else None })" for fw
  have act: "sends os fw (int pl + l - int (length q)) (act fw)" for fw
  proof (cases "t OR 32 = 0x66")
    case True
    obtain v where v: "b a' = Some v" "limb_length v + 9 * (r - a') = 1 + max 0 e"
      using assms(5) [OF True] by (auto simp: int_part_def a'_def min_def split: if_splits)
    have n: "int pl + l - int (length q) = limb_length v + 9 * (r - a') + (point p fl + p)"
      using v(2) q(1) True fp_length_Some(1) [OF assms(4)] by simp
    have "a' \<le> r" by (simp add: a'_def)
    then show ?thesis unfolding act_def n if_P [OF True] by (intro sends_decimal_f v(1) assms(3))
  next
    case False
    have n: "int pl + l - int (length q) = 1 + point p fl + p + int (length estr)"
      using q(1) False fp_length_Some(1) [OF assms(4)] by simp
    have "a < z'" "length estr < 2 ^ 31" using fp_length_Some(2) [OF assms(4)] by (simp_all add: z'_def)
    then show ?thesis unfolding act_def n if_not_P [OF False] by (intro sends_decimal_e assms(3))
  qed
  have "fp_output os pre pl w p fl t l estr r a z b fw =
      do { fw \<leftarrow> pad os 0x20 w (int pl + l) fl fw; fw \<leftarrow> out os q fw; fw \<leftarrow> pad os 0x30 w (int pl + l) (fl XOR ZERO_PAD) fw;
        fw \<leftarrow> act fw; fw \<leftarrow> pad os 0x20 w (int pl + l) (fl XOR LEFT_ADJ) fw; Some (max w (int pl + l), fw) }"
    unfolding fp_output_def Let_def q_def [symmetric] a'_def [symmetric] z'_def [symmetric] act_def by (simp only: if_not_swap)
  moreover have "0 \<le> l" using fp_length_Some(1) [OF assms(4)] assms(3) by (simp add: point_def)
  ultimately show ?thesis using counts_field [OF assms(1), of q os "int pl + l" act fw w] act q by simp
qed

lemma int_part_ok:
  assumes "limbs_ok r a e b"
  shows "int_part r a e b"
proof (cases "a \<le> r")
  case True
  then obtain v where v: "b a = Some v" "e = 9 * (r - a) + limb_length v - 1"
    using assms by (auto simp: limbs_ok_def first_limb_def)
  then show ?thesis using True limb_length_pos [of v] by (simp add: int_part_def)
next
  case False
  then show ?thesis using assms by (simp add: int_part_def limbs_ok_def)
qed

lemma counts_decimal:
  assumes "\<not> (bit fl 13 \<and> bit fl 16)" "fp_sign y0 fl = (y1, pre, pl)"
    and "(\<exists>m. y = ld_pos m 0x3fff \<and> 2 ^ 63 \<le> m \<and> m < 2 ^ 64) \<or> \<not> ld_true y \<and> e2 = 0"
  shows "counts os fw (fp_decimal os y e2 pre pl w p fl t fw)"
proof (cases "fp_decimal os y e2 pre pl w p fl t fw")
  case (Some res)
  define q where "q = (if p < 0 then 6 else p)"
  obtain r a z e b a2 z2 e2' b2 z3 t2 p2 where s: "fp_limbs y e2 t q = Some (r, a, z, e, b)"
    "fp_round (pl \<noteq> 0 \<and> fp_prefixes ! pre = of_char CHR ''-'') t q r (a, z, e, b) = Some (a2, z2, e2', b2)"
    "trim a2 z2 b2 = Some z3" "fp_general t q fl r (a2, z3, e2', b2) = Some (t2, p2)"
    "fp_decimal os y e2 pre pl w p fl t fw = (case fp_length t2 p2 fl e2' pl of
        None \<Rightarrow> Some (- 1, fw) | Some (l, estr) \<Rightarrow> fp_output os pre pl w p2 fl t2 l estr r a2 z3 b2 fw)"
    using Some unfolding fp_decimal_def Let_def q_def [symmetric] by (auto simp: bind_eq_Some_conv)
  have q: "0 \<le> q" by (simp add: q_def)
  have 1: "limbs_ok r a e b" "zeros_below a b" "a < z \<longrightarrow> first_limb r a e b" using fp_limbs_ok [OF s(1) q assms(3)] by auto
  have 2: "e \<le> e2'" "0 \<le> q - (if t OR 32 \<noteq> 0x66 then e else 0) - (if t OR 32 = 0x67 \<and> q \<noteq> 0 then 1 else 0) \<Longrightarrow> limbs_ok r a2 e2' b2"
    using fp_round_ok [OF s(2) 1] by auto
  have 3: "0 \<le> p2" "t2 OR 32 = 0x66 \<Longrightarrow> t OR 32 = 0x66 \<or> t OR 32 = 0x67 \<and> max 1 q > e2'" using fp_general_ok [OF s(4) q] by auto
  have "int_part r a2 e2' b2" if "t2 OR 32 = 0x66"
    by (rule int_part_ok, rule 2(2)) (use 3(2) [OF that] 2(1) q in auto)
  then show ?thesis
    unfolding s(5) using counts_output [OF assms(1,2) 3(1), of t2 e2' _ _ r a2 b2 os fw w z3] counts_refused(1) [of os fw]
    by (cases "fp_length t2 p2 fl e2' pl") auto
qed (simp add: counts_refused)

text \<open>The flags that the caller passes exclude each other.\<close>

lemma counts_fmt_fp:
  assumes "\<not> (bit fl 13 \<and> bit fl 16)"
  shows "counts os fw (fmt_fp os y w p fl t fw)"
proof -
  obtain y1 pre pl where s: "fp_sign y fl = (y1, pre, pl)" by (cases "fp_sign y fl") auto
  show ?thesis
  proof (cases "isfinite y1")
    case True
    have "\<not> signbit y1" using s by (auto simp: fp_sign_def signbit_neg split: if_splits)
    then obtain f e where f: "frexpl 1 y1 0 = Some (f, e)"
      "(\<exists>m. ld_mul f (ld_of_int 2) = ld_pos m 0x3fff \<and> 2 ^ 63 \<le> m \<and> m < 2 ^ 64) \<or> \<not> ld_true (ld_mul f (ld_of_int 2)) \<and> e = 0"
      using True by (rule frexpl_scaled)
    let ?y = "ld_mul f (ld_of_int 2)" and ?e = "if ld_true (ld_mul f (ld_of_int 2)) then e - 1 else e"
    have eq: "fmt_fp os y w p fl t fw = (if t OR 32 = 0x61 then fp_hex os ?y ?e pre pl w p fl t fw else fp_decimal os ?y ?e pre pl w p fl t fw)"
      unfolding fmt_fp_def s Let_def prod.case f(1) Option.bind_lunit using True by (simp only: not_True_eq_False if_False)
    have "counts os fw (fp_decimal os ?y ?e pre pl w p fl t fw)"
      by (rule counts_decimal [OF assms s]) (use f(2) in auto)
    then show ?thesis unfolding eq using counts_hex [OF assms s, of os fw ?y ?e w p t] by (simp only: split: if_split) blast
  next
    case False
    then show ?thesis using counts_special [OF assms s, of os fw w t] by (simp add: fmt_fp_def s del: isfinite.simps)
  qed
qed

lemma exclusive_flags: "(fl AND LEFT_ADJ \<noteq> 0 \<longrightarrow> fl AND ZERO_PAD = 0) \<longleftrightarrow> \<not> (bit fl 13 \<and> bit fl 16)"
  unfolding flag_masks using flag_zero [of fl 13] flag_zero [of fl 16] by (simp del: and_exp_eq_0_iff_not_bit)

end
