(* ===== verification/Kernel.thy ===== *)
theory Kernel
  imports Interrupts
begin

text \<open>
  The start of the kernel: \<open>vga_init\<close> (VGA.c), the task state segment and the switch to user mode (Ring3.c,
  ring3.asm) and \<open>kmain\<close> (Kernel.c), which calls the start-up routines of all components in turn.
\<close>

section \<open>Starting the console\<close>

definition on_console :: "(console \<Rightarrow> console) \<Rightarrow> mm \<Rightarrow> mm" where
  "on_console f s = s\<lparr>console := f (console s)\<rparr>"

text \<open>
  \<open>height * bytes_per_line\<close> is a product of \<open>int\<close>s, converted to \<open>size_t\<close>. \<open>fuel\<close> bounds the calls of the memory
  management; \<open>None\<close> means that it ran out.
\<close>

definition vga_init :: "nat \<Rightarrow> (u64 \<Rightarrow> bool) \<Rightarrow> mm \<Rightarrow> mm option" where
  "vga_init fuel sin_positive s = do {
     let vbe = vbe_info (console s);
     let sz = scast (ucast (height vbe) * ucast (bytes_per_line vbe) :: u32);
     let s = on_console (\<lambda>c. c\<lparr>fb_size := sz\<rparr>) s;
     let page = ucast (physical_buffer vbe AND NOT 0xfff);
     (fb, s) \<leftarrow> vmm_mmap fuel page (sz div PAGE_SIZE) True s;
     let s = on_console (\<lambda>c. c\<lparr>FRAMEBUFFER := fb\<rparr>) s;
     let s = on_console (\<lambda>c. c\<lparr>vga := \<lparr>rowMax = ucast (height vbe) div of_nat FONT_HEIGHT,
               colMax = ucast (width vbe) div of_nat FONT_WIDTH, cursorX = 0, cursorY = 0\<rparr>\<rparr>) s;
     (bb, s) \<leftarrow> kmalloc fuel sz s;
     let s = on_console (\<lambda>c. c\<lparr>BACKBUFFER := bb\<rparr>) s;
     (bg, s) \<leftarrow> kmalloc fuel sz s;
     let s = on_console (\<lambda>c. c\<lparr>BACKGROUND := bg\<rparr>) s;
     let s = on_console (fill_background sin_positive) s;
     Some (on_console (\<lambda>c. c\<lparr>vga_ready := True\<rparr>) s) }"

section \<open>User mode\<close>

text \<open>
  The processor state that Ring3.c and ring3.asm touch: the model specific registers of the system call
  instructions, the segment registers, the task register, and the saved stack pointers of the assembly.
  \<open>rflags\<close> holds the flags besides the interrupt flag, which is in the state of the memory management.
\<close>

record cpu =
  efer :: u64
  star :: u64
  lstar :: u64
  cstar :: u64
  sfmask :: u64
  seg_cs :: u16
  seg_ss :: u16
  seg_ds :: u16
  seg_es :: u16
  seg_fs :: u16
  seg_gs :: u16
  task_register :: u16
  rip :: u64
  rsp_reg :: u64
  rflags :: u64
  cpl :: nat
  kernel_stack_save :: u64
  user_stack_save :: u64

record machine = kernel +
  idt_tables :: idt
  gdt_tss :: tss_entry_t
  tss :: tss_t
  cpu :: cpu

text \<open>The selectors (gdt.asm) and the entry points of the assembly.\<close>

record ring3_symbols =
  sel_Code :: u32
  sel_Data :: u32
  sel_Data_User :: u16
  sel_TSS :: u16
  syscall_handler :: u64
  os_entry :: u64

definition flush_tss :: "ring3_symbols \<Rightarrow> machine \<Rightarrow> machine" where
  "flush_tss R k = k\<lparr>cpu := (cpu k)\<lparr>task_register := sel_TSS R\<rparr>\<rparr>"

definition setup_tss :: "symbols \<Rightarrow> ring3_symbols \<Rightarrow> machine \<Rightarrow> machine" where
  "setup_tss Y R k =
     (let k = k\<lparr>gdt_tss := tss_descriptor Y\<rparr>;
          new_stack = tss_stack_top Y;
          k = k\<lparr>tss := setup_tss_segment Y (tss k)\<rparr>;
          k = kprint (''TSS stack at: %lx'' @ nl) [Num new_stack] k
      in flush_tss R k)"

text \<open>
  \<open>wrmsr\<close> takes the register from \<open>edx:eax\<close>. \<open>sysret\<close> jumps to \<open>rcx\<close> in ring 3 with the flags from \<open>r11\<close> (the
  bits that cannot be set are masked out, bit 1 is set) and derives its segments from \<open>STAR\<close>.
\<close>

definition wrmsr :: "u32 \<Rightarrow> u32 \<Rightarrow> u64" where
  "wrmsr edx eax = push_bit 32 (ucast edx) OR ucast eax"

definition sysret :: "u64 \<Rightarrow> u64 \<Rightarrow> cpu \<Rightarrow> cpu" where
  "sysret rcx r11 c =
     (let sel = ucast (drop_bit 48 (star c))
      in c\<lparr>rip := rcx, rflags := (r11 AND 0x3c7fd7) OR 2, seg_cs := (sel + 16) OR 3, seg_ss := (sel + 8) OR 3, cpl := 3\<rparr>)"

definition jump_usermode :: "ring3_symbols \<Rightarrow> machine \<Rightarrow> machine" where
  "jump_usermode R k =
     (let c = cpu k;
          c = c\<lparr>efer := efer c OR 1\<rparr>;
          edx = push_bit 16 (sel_Data R OR 3) OR sel_Code R;
          c = c\<lparr>star := wrmsr edx (ucast (syscall_handler R))\<rparr>;
          eax = ucast (syscall_handler R);
          edx = ucast (drop_bit 32 (syscall_handler R));
          c = c\<lparr>lstar := wrmsr edx eax\<rparr>;
          c = c\<lparr>cstar := wrmsr edx eax\<rparr>;
          c = c\<lparr>sfmask := wrmsr 0 0x200\<rparr>;
          ax = sel_Data_User R OR 3;
          c = c\<lparr>seg_ds := ax, seg_es := ax, seg_fs := ax, seg_gs := ax\<rparr>;
          r11 = (if intr (paging (mem k)) then rflags c OR 0x200 else rflags c AND NOT 0x200);
          c = c\<lparr>kernel_stack_save := rsp_reg c\<rparr>;
          c = c\<lparr>rsp_reg := user_stack_save c\<rparr>
      in k\<lparr>cpu := sysret (os_entry R) r11 c\<rparr>)"

definition enter_user_mode :: "symbols \<Rightarrow> ring3_symbols \<Rightarrow> machine \<Rightarrow> machine" where
  "enter_user_mode Y R k = jump_usermode R (setup_tss Y R k)"

section \<open>kmain\<close>

text \<open>
  \<open>print_key\<close> is the address of \<open>printKey\<close>, \<open>first_free\<close> that of the linker symbol \<open>_FIRST_FREE_PAGE_\<close>. The switch to
  user mode ends in \<open>sysret\<close> and does not come back: the result is the state in which the user program
  starts, and the statements after it in \<open>kmain\<close> are not reached.
\<close>

definition on_mm :: "(mm \<Rightarrow> mm) \<Rightarrow> 'a kernel_scheme \<Rightarrow> 'a kernel_scheme" where
  "on_mm f k = k\<lparr>mem := f (mem k)\<rparr>"

definition kmain :: "nat \<Rightarrow> (u64 \<Rightarrow> bool) \<Rightarrow> environment \<Rightarrow> symbols \<Rightarrow> ring3_symbols \<Rightarrow> layout \<Rightarrow> u64 \<Rightarrow> u64 \<Rightarrow> machine \<Rightarrow> machine option" where
  "kmain fuel sin_positive env Y R L first_free print_key k = do {
     s \<leftarrow> vga_init fuel sin_positive (mem k);
     let k = k\<lparr>mem := s\<rparr>;
     let k = on_ports (PIC_remap env 0x20 0x28) k;
     let k = k\<lparr>idt_tables := IDT_init Y (idt_tables k)\<rparr>;
     let k = on_mm (on_console clearScreen) k;
     let k = on_mm (on_console vga_info) k;
     let k = kprint nl [] k;
     let k = section_info L first_free k;
     p \<leftarrow> vmm_set_page_permissions L (paging (mem k));
     let k = on_mm (\<lambda>s. s\<lparr>paging := p\<rparr>) k;
     let (ok, k) = subscribePress print_key k;
     let k = on_ports (IRQ_set_mask env 0) k;
     let k = on_mm (\<lambda>s. s\<lparr>paging := enable_interrupts (paging s)\<rparr>) k;
     let k = kprint (nl @ ''Entering user space...'' @ nl) [] k;
     Some (enter_user_mode Y R k) }"

end
