(* ===== verification/Kernel_Start.thy ===== *)
theory Kernel_Start
  imports Kernel
begin

text \<open>
  \<open>vga_init\<close> as the first user of the memory management. Printing leaves the set-up of the console alone; the
  allocations run from the state at power-on, step by step, and give the addresses of the three buffers;
  the pages that are mapped on the way keep every translation there was.
\<close>

section \<open>What printing leaves alone\<close>

lemma same_setup_refl [simp]: "same_setup c c"
  by (simp add: same_setup_def)

lemma same_setup_trans: "same_setup c d \<Longrightarrow> same_setup d e \<Longrightarrow> same_setup c e"
  by (simp add: same_setup_def)

lemma loop_setup: "(\<And>i d. same_setup d (f i d)) \<Longrightarrow> same_setup c (for_upto n f c)"
  by (rule for_upto_invariant [where P = "same_setup c"]) (auto intro: same_setup_trans)

lemma pixel_setup:
  "same_setup c (render_pixel ch x y c)" "same_setup c (scroll_pixel y x c)" "same_setup c (clear_pixel y x c)"
  by (simp_all add: same_setup_def render_pixel_def scroll_pixel_def clear_pixel_def set_backbuffer_def Let_def)

lemma render_setup: "same_setup c (render ch c)"
  unfolding render_def by (intro loop_setup pixel_setup)

lemma scrollUp_setup: "same_setup c (scrollUp c)"
  unfolding scrollUp_def Let_def
  by (rule same_setup_trans [OF loop_setup [OF loop_setup [OF pixel_setup(2)]] loop_setup [OF loop_setup [OF pixel_setup(3)]]])

lemma cursor_setup: "same_setup c (d\<lparr>vga := (vga d)\<lparr>cursorX := x, cursorY := y\<rparr>\<rparr>) \<longleftrightarrow> same_setup c d"
  "same_setup c (d\<lparr>vga := (vga d)\<lparr>cursorY := y, cursorX := x\<rparr>\<rparr>) \<longleftrightarrow> same_setup c d"
  "same_setup c (d\<lparr>vga := (vga d)\<lparr>cursorX := x\<rparr>\<rparr>) \<longleftrightarrow> same_setup c d"
  "same_setup c (d\<lparr>port_log := l\<rparr>) \<longleftrightarrow> same_setup c d"
  "same_setup c (d\<lparr>pixels := p\<rparr>) \<longleftrightarrow> same_setup c d"
  by (simp_all add: same_setup_def)

lemma ensureCursorInRange_setup: "same_setup c d \<Longrightarrow> same_setup c (ensureCursorInRange d)"
  by (simp add: ensureCursorInRange_def Let_def cursor_setup same_setup_trans [OF _ scrollUp_setup])

lemma putChar_body_setup:
  assumes "\<And>ch d. same_setup d (f ch d)"
  shows "same_setup c (putChar_body f ch c)"
proof -
  have t: "same_setup c (for_upto n (\<lambda>_. f v) d)" if "same_setup c d" for n v d
    by (rule same_setup_trans [OF that loop_setup]) (rule assms)
  have v: "same_setup c (c\<lparr>port_log := l, vga := v\<rparr>)" if "rowMax v = rowMax (vga c)" "colMax v = colMax (vga c)" for l v
    using that by (simp add: same_setup_def)
  show ?thesis
    by (simp add: putChar_body_def Let_def cursor_setup ensureCursorInRange_setup t v same_setup_trans [OF _ render_setup])
qed

lemma putChar_setup: "same_setup c (putChar ch c)"
  unfolding putChar_def by (intro putChar_body_setup) simp

lemma log_setup: "same_setup c (log fmt as c)"
proof -
  have "same_setup c (fold putChar t c)" for t
    by (rule fold_inv [where P = "same_setup c"]) (auto intro: same_setup_trans putChar_setup)
  then show ?thesis by (simp add: log_def print_text_def swapBuffers_def cursor_setup split: option.split)
qed

section \<open>The first allocations\<close>

lemmas heap_run = kmalloc_body_def kmalloc_nonzero_def start_block_def allocate_new_page_def append_block_def try_block_def case2_def
  count_usage_def ALIGN_def ALIGN_INFO_def ALIGNMENT_def new_page_count_def block_room_def upd_major_def upd_minor_def
  sizeof_major_def sizeof_minor_def l_pageSize_def l_pageCount_def

text \<open>\<open>d\<close> is \<open>c\<close> after some printing; before \<open>vga_init\<close> is done, the cursor does not move.\<close>

definition prints :: "console \<Rightarrow> console \<Rightarrow> bool" where
  "prints c d \<longleftrightarrow> same_setup c d \<and> serial_only (port_log c) (port_log d) \<and> (\<not> vga_ready c \<longrightarrow> vga d = vga c)"

lemma fold_putChar_not_ready: "\<not> vga_ready c \<Longrightarrow> vga (fold putChar t c) = vga c \<and> \<not> vga_ready (fold putChar t c)"
  by (induction t arbitrary: c) (simp_all add: not_ready_putChar)

lemma log_prints: "prints c (log fmt as c)"
proof -
  have "vga (log fmt as c) = vga c" if "\<not> vga_ready c"
    using fold_putChar_not_ready [OF that] by (simp add: log_def print_text_def swapBuffers_def split: option.split)
  then show ?thesis by (simp add: prints_def log_setup log_serial_only)
qed

lemma prints_trans: "prints c d \<Longrightarrow> prints d e \<Longrightarrow> prints c e"
  unfolding prints_def by (metis same_setup_trans serial_only_trans same_setup_def)

lemma first_kmalloc:
  assumes "l_memRoot s = 0" "alloc 16 s = Some (0x200000, t)" "l_bestBet t = 0"
  shows "\<exists>t'. kmalloc_body (Suc (Suc n)) alloc 32 s = Some (0x200060, t')
    \<and> l_memRoot t' = 0x200000 \<and> l_bestBet t' = 0x200000
    \<and> majors t' 0x200000 = \<lparr>maj_prev = 0, maj_next = 0, maj_pages = 16, maj_size = 65536, maj_usage = 144, maj_first = 0x200028\<rparr>
    \<and> liballoc.more t' = liballoc.more t"
  using assms by (simp add: heap_run Let_def)

abbreviation big_block :: "u64 \<Rightarrow> liballoc_major" where
  "big_block b \<equiv> \<lparr>maj_prev = 0x200000, maj_next = 0, maj_pages = 469, maj_size = 1921024, maj_usage = 1920112, maj_first = b + 40\<rparr>"

lemma second_kmalloc:
  assumes "l_memRoot s = 0x200000" "l_bestBet s = 0x200000"
    and "majors s 0x200000 = \<lparr>maj_prev = 0, maj_next = 0, maj_pages = 16, maj_size = 65536, maj_usage = 144, maj_first = 0x200028\<rparr>"
    and "alloc 469 s = Some (0x3e4000, t)" "liballoc.truncate t = liballoc.truncate s"
  shows "\<exists>t'. kmalloc_body (Suc (Suc n)) alloc 1920000 s = Some (0x3e4060, t')
    \<and> l_memRoot t' = 0x200000 \<and> l_bestBet t' = 0x200000
    \<and> majors t' 0x200000 = \<lparr>maj_prev = 0, maj_next = 0x3e4000, maj_pages = 16, maj_size = 65536, maj_usage = 144, maj_first = 0x200028\<rparr>
    \<and> majors t' 0x3e4000 = big_block 0x3e4000
    \<and> liballoc.more t' = liballoc.more t"
proof -
  have t: "majors t = majors s" "l_memRoot t = l_memRoot s" "l_bestBet t = l_bestBet s"
    using assms(5) by (simp_all add: liballoc.truncate_def)
  show ?thesis using assms(1-4) t by (simp add: heap_run Let_def)
qed

lemma third_kmalloc:
  assumes "l_memRoot s = 0x200000" "l_bestBet s = 0x200000"
    and "majors s 0x200000 = \<lparr>maj_prev = 0, maj_next = 0x3e4000, maj_pages = 16, maj_size = 65536, maj_usage = 144, maj_first = 0x200028\<rparr>"
    and "majors s 0x3e4000 = big_block 0x3e4000"
    and "alloc 469 s = Some (0x5b9000, t)" "liballoc.truncate t = liballoc.truncate s"
  shows "\<exists>t'. kmalloc_body (Suc (Suc (Suc n))) alloc 1920000 s = Some (0x5b9060, t') \<and> l_memRoot t' = 0x200000
    \<and> maj_next (majors t' 0x200000) = 0x3e4000 \<and> liballoc.more t' = liballoc.more t"
proof -
  have t: "majors t = majors s" "l_memRoot t = l_memRoot s" "l_bestBet t = l_bestBet s"
    using assms(6) by (simp_all add: liballoc.truncate_def)
  show ?thesis using assms(1-5) t by (simp add: heap_run Let_def)
qed

lemma mmap_first_span:
  assumes "blockchain s = x" "x \<noteq> 0" "blocks s x = \<lparr>fb_start = a, fb_pages = p, fb_prev = 0, fb_next = 0\<rparr>" "pages < p"
  shows "\<exists>t. exec (Suc (Suc n)) (Mmap physical pages True) s = Some (a, t) \<and> liballoc.truncate t = liballoc.truncate s
    \<and> blockchain t = x \<and> blocks t x = \<lparr>fb_start = a + pages * 4096, fb_pages = p - pages, fb_prev = 0, fb_next = 0\<rparr>
    \<and> prints (console s) (console t)
    \<and> paging t = snd (map_loop (unat pages) 0 physical a (span_flags True) (paging s))"
proof -
  have "\<not> p < pages" "p \<noteq> pages" using assms(4) by auto
  then have "p - pages \<noteq> 0" by simp
  then show ?thesis
    unfolding exec_Mmap using assms(1-3) \<open>\<not> p < pages\<close>
    by (simp add: vmm_mmap_body_def mmap_init_def take_span_def ensure_pages_mapped_def upd_block_def klog_def PAGE_SIZE_def Let_def
       log_prints prints_trans [OF log_prints log_prints] liballoc.truncate_def span_flags_def del: exec.simps split: prod.split)
qed

lemma mmap_boot_pages:
  assumes "boot_ready k s"
  shows "\<exists>t. liballoc_alloc (exec (Suc n)) k s = Some (0x200000, t) \<and> liballoc.truncate t = liballoc.truncate s
    \<and> pages_allocated_for_blockchain t = 16 \<and> prints (console s) (console t)
    \<and> paging t = snd (map_loop 16 0 0 0x200000 DIRECTORY_DEFAULTS (paging s))"
  using assms
  by (simp add: liballoc_alloc_def boot_ready_def vmm_mmap_body_def mmap_init_def Let_def ensure_pages_mapped_def
      klog_def liballoc.truncate_def HEAP_START_def log_prints split: prod.splits)

section \<open>Mapping a span\<close>

lemma bit_index: "bit (x AND 0x1ff :: u64) n \<longleftrightarrow> bit x n \<and> n < 9"
proof -
  have "(0x1ff :: u64) = mask 9" by (simp add: mask_eq_exp_minus_1)
  then have "bit (x AND 0x1ff) n = bit (x AND mask 9) n" by (simp only:)
  also have "\<dots> \<longleftrightarrow> bit x n \<and> n < 9" by (auto simp: bit_simps)
  finally show ?thesis .
qed

lemma indices_bit:
  assumes "indices v = indices w" "12 \<le> n" "n < 48"
  shows "bit v n = bit w n"
proof -
  have e: "pt4_index v = pt4_index w" "pt3_index v = pt3_index w" "pt2_index v = pt2_index w" "page_index v = page_index w"
    using assms(1) by (simp_all add: indices_def)
  consider "39 \<le> n" | "30 \<le> n" "n < 39" | "21 \<le> n" "n < 30" | "n < 21" by linarith
  then show ?thesis
  proof cases
    case 1
    then show ?thesis using arg_cong [OF e(1), of "\<lambda>x. bit x (n - 39)"] assms less_diff_conv2 [of 39 n 9] by (simp add: pt4_index_def bit_index bit_drop_bit_eq)
  next
    case 2
    then show ?thesis using arg_cong [OF e(2), of "\<lambda>x. bit x (n - 30)"] assms less_diff_conv2 [of 30 n 9] by (simp add: pt3_index_def bit_index bit_drop_bit_eq)
  next
    case 3
    then show ?thesis using arg_cong [OF e(3), of "\<lambda>x. bit x (n - 21)"] assms less_diff_conv2 [of 21 n 9] by (simp add: pt2_index_def bit_index bit_drop_bit_eq)
  next
    case 4
    then show ?thesis using arg_cong [OF e(4), of "\<lambda>x. bit x (n - 12)"] assms less_diff_conv2 [of 12 n 9] by (simp add: page_index_def bit_index bit_drop_bit_eq)
  qed
qed

lemma indices_inj:
  assumes "indices v = indices w" "page_aligned v" "page_aligned w" "unat v < 2 ^ 48" "unat w < 2 ^ 48"
  shows "v = w"
proof (rule bit_eqI)
  fix n
  have h: "\<not> bit u n" if "unat u < 2 ^ 48" "48 \<le> n" for u :: u64
    using bit_less_2p [of u n 48] that by auto
  consider "n < 12" | "12 \<le> n" "n < 48" | "48 \<le> n" by linarith
  then show "bit v n = bit w n"
  proof cases
    case 1
    then show ?thesis using assms(2,3) page_aligned_bit by blast
  next
    case 2
    then show ?thesis using indices_bit [OF assms(1)] by blast
  next
    case 3
    then show ?thesis using h [OF assms(4)] h [OF assms(5)] by blast
  qed
qed

lemma translate_cong: "indices v = indices w \<Longrightarrow> translate s v = translate s w"
  by (simp add: translate_walks)

text \<open>Enough frames for \<open>n\<close> pages with the tables above them.\<close>

definition frames_for :: "nat \<Rightarrow> paging \<Rightarrow> bool" where
  "frames_for n s \<longleftrightarrow> RESERVED_START (phys s) \<le> MEM_START \<and> 4 * n \<le> card {a \<in> free_frames (phys s). MEM_START \<le> a}"

lemma frames_for_takes: "frames_for (Suc n) s \<Longrightarrow> takes 4 (phys s) (phys t) \<Longrightarrow> frames_for n t"
  using takes_card [of 4 "phys s" "phys t" "\<lambda>a. MEM_START \<le> a"] by (auto simp: frames_for_def takes_def)

lemma takes_subset: "takes n p p' \<Longrightarrow> free_frames p' \<subseteq> free_frames p"
  by (auto simp: takes_def)

lemma map_page:
  assumes "tree_inv s" "good_flags flags" "frames_for (Suc n) s" "page_aligned physical" "unat physical < 2 ^ 52"
  shows "tree_inv (vmm_map_memory physical v flags s) \<and> frames_for n (vmm_map_memory physical v flags s)
    \<and> (\<forall>w a. translate s w = Some a \<longrightarrow> translate (vmm_map_memory physical v flags s) w = Some a)
    \<and> (\<forall>w. indices w \<noteq> indices v \<longrightarrow> translate (vmm_map_memory physical v flags s) w = translate s w)
    \<and> (physical \<noteq> 0 \<longrightarrow> translate s v = None \<longrightarrow> translate (vmm_map_memory physical v flags s) v = Some physical)
    \<and> (physical = 0 \<longrightarrow> translate s v = None \<longrightarrow>
          (\<exists>a \<in> free_frames (phys s). translate (vmm_map_memory physical v flags s) v = Some a))
    \<and> free_frames (phys (vmm_map_memory physical v flags s)) \<subseteq> free_frames (phys s)"
proof -
  have "card {a \<in> free_frames (phys s). MEM_START \<le> a} \<le> card (free_frames (phys s))" by (rule card_mono) auto
  then have c: "3 \<le> card (free_frames (phys s))" using assms(3) by (simp add: frames_for_def)
  show ?thesis
  proof (cases "translate s v")
    case None
    have "frame_request s physical" using assms(3-5) by (simp add: frame_request_def frames_for_def)
    from vmm_map_memory_new [OF assms(1,2) c None this] obtain a
      where a: "if physical = 0 then a \<in> free_frames (phys s) \<and> a \<notin> free_frames (phys (vmm_map_memory physical v flags s)) else a = physical"
        "\<forall>w. translate (vmm_map_memory physical v flags s) w = (if indices w = indices v then Some a else translate s w)"
        "takes 4 (phys s) (phys (vmm_map_memory physical v flags s))" "tree_inv (vmm_map_memory physical v flags s)"
      by (elim exE conjE) (rule that)
    have "indices w \<noteq> indices v" if "translate s w = Some b" for w b using that None translate_cong [of w v s] by auto
    then show ?thesis using a frames_for_takes [OF assms(3) a(3)] takes_subset [OF a(3)] by auto
  next
    case (Some a)
    then have "translate s v \<noteq> None" by simp
    note old = vmm_map_memory_old [OF assms(1,2) c this, of physical]
    then have "takes 4 (phys s) (phys (vmm_map_memory physical v flags s))" using takes_mono [of 3 _ _ 4] by simp
    then show ?thesis using old frames_for_takes [OF assms(3)] takes_subset Some by simp
  qed
qed

definition next_frame :: "u64 \<Rightarrow> u64" where
  "next_frame physical = (if physical \<noteq> 0 then physical + PAGE_SIZE else physical)"

lemma next_frame:
  assumes "page_aligned physical" "unat physical + 4096 * Suc n < 2 ^ 52"
  shows "page_aligned (next_frame physical)" "unat (next_frame physical) + 4096 * n < 2 ^ 52"
    "physical \<noteq> 0 \<Longrightarrow> next_frame physical \<noteq> 0"
proof -
  have u: "unat (physical + 4096) = unat physical + 4096" using assms(2) by (subst unat64_add) simp_all
  show "unat (next_frame physical) + 4096 * n < 2 ^ 52" using assms(2) u by (simp add: next_frame_def PAGE_SIZE_def)
  show "page_aligned (next_frame physical)" using assms(1) u by (simp add: next_frame_def PAGE_SIZE_def page_aligned_iff_dvd)
  show "physical \<noteq> 0 \<Longrightarrow> next_frame physical \<noteq> 0" using u by (auto simp: next_frame_def PAGE_SIZE_def)
qed

lemma map_loop_step: "map_loop (Suc n) i physical vstart flags p =
    map_loop n (i + 1) (next_frame physical) vstart flags (vmm_map_memory physical (vstart + i * PAGE_SIZE) flags p)"
  by (simp add: next_frame_def)

lemma map_loop_keeps:
  assumes "tree_inv s" "good_flags flags" "frames_for (n + k) s" "page_aligned physical" "unat physical + 4096 * n < 2 ^ 52"
  shows "tree_inv (snd (map_loop n i physical vstart flags s)) \<and> frames_for k (snd (map_loop n i physical vstart flags s))
    \<and> (\<forall>w a. translate s w = Some a \<longrightarrow> translate (snd (map_loop n i physical vstart flags s)) w = Some a)
    \<and> free_frames (phys (snd (map_loop n i physical vstart flags s))) \<subseteq> free_frames (phys s)"
  using assms
proof (induction n arbitrary: i physical s)
  case (Suc n)
  define t where "t = vmm_map_memory physical (vstart + i * PAGE_SIZE) flags s"
  have m: "tree_inv t" "frames_for (n + k) t" "\<forall>w a. translate s w = Some a \<longrightarrow> translate t w = Some a"
      "free_frames (phys t) \<subseteq> free_frames (phys s)"
    using map_page [OF Suc.prems(1,2) _ Suc.prems(4), of "n + k"] Suc.prems by (simp_all add: t_def)
  show ?case
    using Suc.IH [OF m(1) Suc.prems(2) m(2) next_frame(1,2) [OF Suc.prems(4,5)], of "i + 1"] m(3,4)
    unfolding map_loop_step t_def [symmetric] by blast
qed simp

lemma map_loop_maps:
  assumes "tree_inv s" "good_flags flags" "frames_for (n + k) s" "page_aligned physical" "unat physical + 4096 * n < 2 ^ 52" "physical \<noteq> 0"
    and "page_aligned vstart" "unat vstart + 4096 * (m + n) < 2 ^ 48"
    and "\<forall>j. m \<le> j \<and> j < m + n \<longrightarrow> translate s (vstart + of_nat j * PAGE_SIZE) = None" "j < n"
  shows "translate (snd (map_loop n (of_nat m) physical vstart flags s)) (vstart + of_nat (m + j) * PAGE_SIZE) = Some (physical + of_nat j * PAGE_SIZE)"
  using assms
proof (induction n arbitrary: m j physical s)
  case (Suc n)
  define v where "v j = vstart + of_nat j * PAGE_SIZE" for j
  define t where "t = vmm_map_memory physical (v m) flags s"
  have v: "unat (v j) = unat vstart + j * 4096" if "j < m + Suc n" for j
  proof -
    have o: "unat (of_nat j :: u64) = j" using that Suc.prems(8) by (intro unat64_of_nat) simp
    have "unat (of_nat j * PAGE_SIZE :: u64) = j * 4096"
      using that Suc.prems(8) unat64_mult [of "of_nat j" PAGE_SIZE] o by (simp add: PAGE_SIZE_def)
    then show ?thesis using that Suc.prems(8) unat64_add [of vstart "of_nat j * PAGE_SIZE"] by (simp add: v_def)
  qed
  have al: "page_aligned (v j)" "unat (v j) < 2 ^ 48" if "j < m + Suc n" for j
    using v [OF that] that Suc.prems(7,8) by (simp_all add: page_aligned_iff_dvd)
  have apart: "indices (v j) \<noteq> indices (v m)" if "j \<noteq> m" "j < m + Suc n" for j
    using indices_inj [of "v j" "v m"] al [OF that(2)] al [of m] v [OF that(2)] v [of m] that(1) by auto
  have m: "tree_inv t" "frames_for (n + k) t" "translate t (v m) = Some physical"
      "\<forall>w. indices w \<noteq> indices (v m) \<longrightarrow> translate t w = translate s w"
    using map_page [OF Suc.prems(1,2) _ Suc.prems(4), of "n + k" "v m"] Suc.prems by (simp_all add: t_def v_def)
  have none: "translate s (v j) = None" if "m \<le> j" "j < m + Suc n" for j using Suc.prems(9) that by (simp add: v_def)
  note nf = next_frame [OF Suc.prems(4,5)]
  have run: "snd (map_loop (Suc n) (of_nat m) physical vstart flags s) = snd (map_loop n (of_nat (Suc m)) (next_frame physical) vstart flags t)"
    unfolding map_loop_step by (simp add: t_def v_def add.commute)
  show ?case
  proof (cases j)
    case 0
    then show ?thesis
      using map_loop_keeps [OF m(1) Suc.prems(2) m(2) nf(1,2), of "of_nat (Suc m)" vstart] m(3) unfolding run by (simp add: v_def)
  next
    case (Suc i)
    have "translate (snd (map_loop n (of_nat (Suc m)) (next_frame physical) vstart flags t)) (vstart + of_nat (Suc m + i) * PAGE_SIZE)
        = Some (next_frame physical + of_nat i * PAGE_SIZE)"
    proof (rule Suc.IH [OF m(1) Suc.prems(2) m(2) nf(1,2)])
      show "next_frame physical \<noteq> 0" using nf(3) Suc.prems(6) .
      show "\<forall>j. Suc m \<le> j \<and> j < Suc m + n \<longrightarrow> translate t (vstart + of_nat j * PAGE_SIZE) = None"
        using m(4) apart none by (simp add: v_def)
    qed (use Suc.prems Suc in simp_all)
    then show ?thesis using Suc.prems(6) unfolding run Suc by (simp add: next_frame_def algebra_simps)
  qed
qed simp

lemma map_loop_other:
  assumes "tree_inv s" "good_flags flags" "frames_for (n + k) s" "page_aligned physical" "unat physical + 4096 * n < 2 ^ 52"
    and "\<forall>j. m \<le> j \<and> j < m + n \<longrightarrow> indices w \<noteq> indices (vstart + of_nat j * PAGE_SIZE)"
  shows "translate (snd (map_loop n (of_nat m) physical vstart flags s)) w = translate s w"
  using assms
proof (induction n arbitrary: m physical s)
  case (Suc n)
  define t where "t = vmm_map_memory physical (vstart + of_nat m * PAGE_SIZE) flags s"
  have m: "tree_inv t" "frames_for (n + k) t" "translate t w = translate s w"
    using map_page [OF Suc.prems(1,2) _ Suc.prems(4), of "n + k"] Suc.prems by (simp_all add: t_def)
  have "translate (snd (map_loop n (of_nat (Suc m)) (next_frame physical) vstart flags t)) w = translate t w"
    by (rule Suc.IH [OF m(1) Suc.prems(2) m(2) next_frame(1,2) [OF Suc.prems(4,5)]]) (use Suc.prems(6) in simp)
  then show ?case using m(3) unfolding map_loop_step t_def [symmetric] by (simp add: add.commute)
qed simp

lemma span_indices:
  assumes "page_aligned v" "unat v < 2 ^ 48" "page_aligned a" "unat a + 4096 * n < 2 ^ 48" "j < n"
    and "unat v < unat a \<or> unat a + 4096 * n \<le> unat v"
  shows "indices v \<noteq> indices (a + of_nat j * PAGE_SIZE)"
proof
  assume e: "indices v = indices (a + of_nat j * PAGE_SIZE)"
  have o: "unat (of_nat j :: u64) = j" using assms(4,5) by (intro unat64_of_nat) simp
  have "unat (of_nat j * PAGE_SIZE :: u64) = j * 4096"
    using assms(4,5) unat64_mult [of "of_nat j" PAGE_SIZE] o by (simp add: PAGE_SIZE_def)
  then have u: "unat (a + of_nat j * PAGE_SIZE) = unat a + j * 4096"
    using assms(4,5) unat64_add [of a "of_nat j * PAGE_SIZE"] by simp
  have "v = a + of_nat j * PAGE_SIZE"
    by (rule indices_inj [OF e assms(1) _ assms(2)]) (use u assms in \<open>simp_all add: page_aligned_iff_dvd\<close>)
  then show False using u assms(5,6) by simp
qed

text \<open>The pages that \<open>vga_init\<close> maps in an 800 by 600 mode: the first heap block, the frame buffer and the two buffers.\<close>

definition boot_maps :: "u64 \<Rightarrow> paging \<Rightarrow> paging" where
  "boot_maps page p =
     (let p = snd (map_loop 16 0 0 0x200000 DIRECTORY_DEFAULTS p);
          p = snd (map_loop 468 0 page 0x210000 (span_flags True) p);
          p = snd (map_loop 469 0 0 0x3e4000 (span_flags True) p)
      in snd (map_loop 469 0 0 0x5b9000 (span_flags True) p))"

definition boot_memory :: "paging \<Rightarrow> bool" where
  "boot_memory p \<longleftrightarrow> low_mapped p \<and> frames_for 1422 p
     \<and> (\<forall>i < 468. translate p (0x210000 + of_nat i * PAGE_SIZE) = None)"

lemma flags_good: "good_flags DIRECTORY_DEFAULTS" "good_flags (span_flags True)"
  using good_flags_small by (simp_all add: span_flags_def DIRECTORY_DEFAULTS_def PRESENT_BIT_def READ_WRITE_BIT_def)

lemma boot_maps_memory:
  assumes "boot_memory p" "page_aligned page" "unat page < 2 ^ 32" "page \<noteq> 0"
  shows "low_mapped (boot_maps page p)"
    and "i < 468 \<Longrightarrow> translate (boot_maps page p) (0x210000 + of_nat i * PAGE_SIZE) = Some (page + of_nat i * PAGE_SIZE)"
proof -
  have z: "page_aligned 0" by (simp add: page_aligned_def)
  have p: "tree_inv p" "frames_for (16 + 1406) p" using assms(1) by (simp_all add: boot_memory_def low_mapped_def)
  define q where "q = snd (map_loop 16 0 0 0x200000 DIRECTORY_DEFAULTS p)"
  have q: "tree_inv q" "frames_for (468 + 938) q" "\<And>w a. translate p w = Some a \<Longrightarrow> translate q w = Some a"
    using map_loop_keeps [OF p(1) flags_good(1) p(2) z, of 0 "0x200000"] by (simp_all add: q_def)
  define r where "r = snd (map_loop 468 0 page 0x210000 (span_flags True) q)"
  have pg: "unat page + 4096 * 468 < 2 ^ 52" using assms(3) by simp
  have r: "tree_inv r" "frames_for (469 + 469) r" "\<And>w a. translate q w = Some a \<Longrightarrow> translate r w = Some a"
    using map_loop_keeps [OF q(1) flags_good(2) q(2) assms(2) pg, of 0 "0x210000"] by (simp_all add: r_def)
  define u where "u = snd (map_loop 469 0 0 0x3e4000 (span_flags True) r)"
  have u: "tree_inv u" "frames_for (469 + 0) u" "\<And>w a. translate r w = Some a \<Longrightarrow> translate u w = Some a"
    using map_loop_keeps [OF r(1) flags_good(2) r(2) z, of 0 "0x3e4000"] by (simp_all add: u_def)
  have b: "boot_maps page p = snd (map_loop 469 0 0 0x5b9000 (span_flags True) u)"
    by (simp add: boot_maps_def q_def r_def u_def)
  have t: "tree_inv (boot_maps page p)" "\<And>w a. translate u w = Some a \<Longrightarrow> translate (boot_maps page p) w = Some a"
    using map_loop_keeps [OF u(1) flags_good(2) u(2) z, of 0 "0x5b9000"] by (simp_all add: b)
  show "low_mapped (boot_maps page p)"
    using assms(1) t q(3) r(3) u(3) by (simp add: boot_memory_def low_mapped_def)
  have ind: "indices (0x210000 + of_nat i * PAGE_SIZE :: u64) \<noteq> indices (0x200000 + of_nat j * PAGE_SIZE)" if "i < 468" "j < 16" for i j
  proof
    assume e: "indices (0x210000 + of_nat i * PAGE_SIZE :: u64) = indices (0x200000 + of_nat j * PAGE_SIZE)"
    have ui: "unat (0x210000 + of_nat i * PAGE_SIZE :: u64) = 0x210000 + i * 4096"
      using that(1) by (simp add: PAGE_SIZE_def unat_word_ariths unat_of_nat)
    have uj: "unat (0x200000 + of_nat j * PAGE_SIZE :: u64) = 0x200000 + j * 4096"
      using that(2) by (simp add: PAGE_SIZE_def unat_word_ariths unat_of_nat)
    have "(0x210000 + of_nat i * PAGE_SIZE :: u64) = 0x200000 + of_nat j * PAGE_SIZE"
      by (rule indices_inj [OF e]) (use ui uj that in \<open>simp_all add: page_aligned_iff_dvd\<close>)
    from arg_cong [OF this, of unat] show False unfolding ui uj using that(2) by linarith
  qed
  have none: "translate q (0x210000 + of_nat i * PAGE_SIZE) = None" if "i < 468" for i
    using map_loop_other [OF p(1) flags_good(1) p(2) z, of 0 "0x210000 + of_nat i * PAGE_SIZE" "0x200000"] ind [OF that] that assms(1)
    by (simp add: q_def boot_memory_def)
  show "translate (boot_maps page p) (0x210000 + of_nat i * PAGE_SIZE) = Some (page + of_nat i * PAGE_SIZE)" if "i < 468"
  proof -
    have "translate (snd (map_loop 468 (of_nat 0) page 0x210000 (span_flags True) q)) (0x210000 + of_nat (0 + i) * PAGE_SIZE)
        = Some (page + of_nat i * PAGE_SIZE)"
      by (rule map_loop_maps [OF q(1) flags_good(2) q(2) assms(2) pg assms(4)])
        (use that none in \<open>simp_all add: page_aligned_def\<close>)
    then show ?thesis using t(2) u(3) by (simp add: r_def)
  qed
qed

text \<open>The page behind the frame buffer is the first page of the next heap block, on a frame of ordinary memory.\<close>

lemma boot_maps_heap_page:
  assumes "boot_memory p" "page_aligned page" "unat page < 2 ^ 32" "translate p 0x3e4000 = None"
  shows "\<exists>a \<in> free_frames (phys p). translate (boot_maps page p) 0x3e4000 = Some a"
proof -
  have z: "page_aligned 0" "page_aligned 0x3e4000" "page_aligned 0x200000" "page_aligned 0x210000" by (simp_all add: page_aligned_def)
  have pg: "unat page + 4096 * 468 < 2 ^ 52" using assms(3) by simp
  have p: "tree_inv p" "frames_for (16 + 1406) p" using assms(1) by (simp_all add: boot_memory_def low_mapped_def)
  define q where "q = snd (map_loop 16 0 0 0x200000 DIRECTORY_DEFAULTS p)"
  have q: "tree_inv q" "frames_for (468 + 938) q" "free_frames (phys q) \<subseteq> free_frames (phys p)"
    using map_loop_keeps [OF p(1) flags_good(1) p(2) z(1), of 0 "0x200000"] by (simp_all add: q_def)
  have "translate q 0x3e4000 = translate p 0x3e4000"
    using map_loop_other [OF p(1) flags_good(1) p(2) z(1), of 0 "0x3e4000" "0x200000"] span_indices [OF z(2) _ z(3), of 16]
    by (simp add: q_def)
  note nq = this
  define r where "r = snd (map_loop 468 0 page 0x210000 (span_flags True) q)"
  have r: "tree_inv r" "frames_for (469 + 469) r" "free_frames (phys r) \<subseteq> free_frames (phys q)"
    using map_loop_keeps [OF q(1) flags_good(2) q(2) assms(2) pg, of 0 "0x210000"] by (simp_all add: r_def)
  have none: "translate r 0x3e4000 = None"
    using map_loop_other [OF q(1) flags_good(2) q(2) assms(2) pg, of 0 "0x3e4000" "0x210000"] span_indices [OF z(2) _ z(4), of 468] nq assms(4)
    by (simp add: r_def)
  define m where "m = vmm_map_memory 0 0x3e4000 (span_flags True) r"
  obtain a where m: "tree_inv m" "frames_for (468 + 469) m" "a \<in> free_frames (phys r)" "translate m 0x3e4000 = Some a"
    using map_page [OF r(1) flags_good(2) _ z(1), of "468 + 469" "0x3e4000"] r(2) none by (auto simp: m_def)
  define u where "u = snd (map_loop 469 0 0 0x3e4000 (span_flags True) r)"
  have run: "u = snd (map_loop 468 1 0 0x3e4000 (span_flags True) m)"
    using map_loop_step [of 468 0 0 "0x3e4000" "span_flags True" r] by (simp add: u_def m_def next_frame_def)
  have u: "tree_inv u" "frames_for (469 + 0) u" "translate u 0x3e4000 = Some a"
    using map_loop_keeps [OF m(1) flags_good(2) m(2) z(1), of 1 "0x3e4000"] m(4) by (simp_all add: run)
  have "boot_maps page p = snd (map_loop 469 0 0 0x5b9000 (span_flags True) u)"
    by (simp add: boot_maps_def q_def r_def u_def)
  then have "translate (boot_maps page p) 0x3e4000 = Some a"
    using map_loop_keeps [OF u(1) flags_good(2) u(2) z(1), of 0 "0x5b9000"] u(3) by simp
  then show ?thesis using m(3) r(3) q(3) by blast
qed

section \<open>vga\_init\<close>

text \<open>Filling the background changes pixels only.\<close>

lemma fill_background_pixels: "\<exists>p. fill_background f c = c\<lparr>pixels := p\<rparr>"
proof -
  have row: "\<exists>p. snd (for_upto n (background_pixel f y) (b, d)) = c\<lparr>pixels := p\<rparr>" if "\<exists>p. d = c\<lparr>pixels := p\<rparr>" for n y b d
    by (rule for_upto_invariant [where P = "\<lambda>r. \<exists>p. snd r = c\<lparr>pixels := p\<rparr>"])
      (use that in \<open>auto simp: background_pixel_def set_background_def Let_def split: prod.splits\<close>)
  have "\<exists>p. c = c\<lparr>pixels := p\<rparr>" by (rule exI [of _ "pixels c"]) simp
  then show ?thesis unfolding fill_background_def
    by (intro for_upto_invariant [where P = "\<lambda>d. \<exists>p. d = c\<lparr>pixels := p\<rparr>"] row)
qed

lemma on_console_fields [simp]:
  "console (on_console f s) = f (console s)" "paging (on_console f s) = paging s" "blocks (on_console f s) = blocks s"
  "blockchain (on_console f s) = blockchain s" "first_alloc (on_console f s) = first_alloc s"
  "allocating_base (on_console f s) = allocating_base s" "majors (on_console f s) = majors s"
  "l_memRoot (on_console f s) = l_memRoot s" "l_bestBet (on_console f s) = l_bestBet s"
  "pages_allocated_for_blockchain (on_console f s) = pages_allocated_for_blockchain s"
  by (simp_all add: on_console_def)

definition at_power_on :: "mm \<Rightarrow> bool" where
  "at_power_on s \<longleftrightarrow> \<not> vga_ready (console s) \<and> l_memRoot s = 0 \<and> l_bestBet s = 0 \<and> blockchain s = 0 \<and> first_alloc s \<and> \<not> allocating_base s"

lemma more_console: "liballoc.more t = liballoc.more s \<Longrightarrow> console t = console s"
  by (cases s; cases t) simp

lemma start_mmap:
  assumes "at_power_on s" "pages < 32240"
  shows "\<exists>t. vmm_mmap (Suc (Suc (Suc (Suc (Suc n))))) physical pages True s = Some (0x210000, t)
    \<and> l_memRoot t = 0x200000 \<and> l_bestBet t = 0x200000
    \<and> majors t 0x200000 = \<lparr>maj_prev = 0, maj_next = 0, maj_pages = 16, maj_size = 65536, maj_usage = 144, maj_first = 0x200028\<rparr>
    \<and> blockchain t = 0x200060
    \<and> blocks t 0x200060 = \<lparr>fb_start = 0x210000 + pages * 4096, fb_pages = 32240 - pages, fb_prev = 0, fb_next = 0\<rparr>
    \<and> prints (console s) (console t)
    \<and> paging t = snd (map_loop (unat pages) 0 physical 0x210000 (span_flags True)
        (snd (map_loop 16 0 0 0x200000 DIRECTORY_DEFAULTS (paging s))))"
proof -
  let ?n = "Suc (Suc (Suc n))"
  have s: "blockchain s = 0" "first_alloc s" "\<not> allocating_base s" "l_memRoot s = 0" "l_bestBet s = 0"
    using assms(1) by (simp_all add: at_power_on_def)
  define s1 where "s1 = s\<lparr>allocating_base := True\<rparr>"
  have "boot_ready 16 s1" using s by (simp add: boot_ready_def s1_def)
  from mmap_boot_pages [OF this, of "Suc (Suc n)"] obtain t where t: "liballoc_alloc (exec ?n) 16 s1 = Some (0x200000, t)"
      "liballoc.truncate t = liballoc.truncate s1" "pages_allocated_for_blockchain t = 16" "prints (console s1) (console t)"
      "paging t = snd (map_loop 16 0 0 0x200000 DIRECTORY_DEFAULTS (paging s1))" by blast
  have "l_memRoot s1 = 0" "l_bestBet t = 0" using s t(2) by (simp_all add: s1_def liballoc.truncate_def)
  from first_kmalloc [of s1 "liballoc_alloc (exec ?n)", OF this(1) t(1) this(2), of "Suc n"]
  obtain t' where t': "exec (Suc ?n) (Kmalloc 32) s1 = Some (0x200060, t')" "l_memRoot t' = 0x200000" "l_bestBet t' = 0x200000"
      "majors t' 0x200000 = \<lparr>maj_prev = 0, maj_next = 0, maj_pages = 16, maj_size = 65536, maj_usage = 144, maj_first = 0x200028\<rparr>"
      "liballoc.more t' = liballoc.more t" unfolding exec_Kmalloc by blast
  define v where "v = first_node 0x200060 t'"
  have pt': "pages_allocated_for_blockchain t' = 16" "console t' = console t" "paging t' = paging t"
    using t(3) pages_allocated_more [OF t'(5)] more_console [OF t'(5)] more_fields [OF t'(5)] by simp_all
  have v: "blockchain v = 0x200060" "blocks v 0x200060 = \<lparr>fb_start = 0x210000, fb_pages = 32240, fb_prev = 0, fb_next = 0\<rparr>"
      "console v = console t" "paging v = paging t" "l_memRoot v = 0x200000" "l_bestBet v = 0x200000" "majors v = majors t'"
    using pt' t'(2,3) by (simp_all add: v_def first_node_def upd_block_def HEAP_START_def MAX_HEAP_SIZE_def PAGE_SIZE_def)
  have "mmap_init (\<lambda>sz. exec (Suc ?n) (Kmalloc sz)) pages s = Some (Continue, v)"
    "mmap_init (\<lambda>sz. exec (Suc ?n) (Kmalloc sz)) pages v = Some (Continue, v)"
    using s t'(1) v(1) by (simp_all add: mmap_init_def first_node_def v_def Let_def sizeof_free_block_def s1_def del: exec.simps)
  then have run: "vmm_mmap (Suc (Suc ?n)) physical pages True s = exec (Suc (Suc ?n)) (Mmap physical pages True) v"
    unfolding vmm_mmap_def exec_Mmap vmm_mmap_body_def by simp
  from mmap_first_span [OF v(1) _ v(2) assms(2), of ?n physical]
  obtain w where w: "exec (Suc (Suc ?n)) (Mmap physical pages True) v = Some (0x210000, w)" "liballoc.truncate w = liballoc.truncate v"
      "blockchain w = 0x200060" "blocks w 0x200060 = \<lparr>fb_start = 0x210000 + pages * 4096, fb_pages = 32240 - pages, fb_prev = 0, fb_next = 0\<rparr>"
      "prints (console v) (console w)" "paging w = snd (map_loop (unat pages) 0 physical 0x210000 (span_flags True) (paging v))"
    by (auto simp del: exec.simps)
  have "l_memRoot w = l_memRoot v" "l_bestBet w = l_bestBet v" "majors w = majors v" using w(2) by (simp_all add: liballoc.truncate_def)
  moreover have "prints (console s) (console w)" using t(4) w(5) v(3) by (simp add: s1_def) (rule prints_trans)
  ultimately show ?thesis using run w v t'(4) t(5) by (intro exI [of _ w]) (simp add: s1_def)
qed

lemma grow_mmap:
  assumes "blockchain s = 0x200060" "blocks s 0x200060 = \<lparr>fb_start = a, fb_pages = p, fb_prev = 0, fb_next = 0\<rparr>" "469 < p"
  shows "\<exists>t. liballoc_alloc (exec (Suc (Suc n))) 469 s = Some (a, t) \<and> liballoc.truncate t = liballoc.truncate s
    \<and> blockchain t = 0x200060 \<and> blocks t 0x200060 = \<lparr>fb_start = a + 0x1d5000, fb_pages = p - 469, fb_prev = 0, fb_next = 0\<rparr>
    \<and> prints (console s) (console t)
    \<and> paging t = snd (map_loop 469 0 0 a (span_flags True) (paging s))"
  using mmap_first_span [OF assms(1) _ assms(2,3), of n 0] by (simp add: liballoc_alloc_def del: exec.simps)

definition mode_800_600 :: "vbe_screen_info \<Rightarrow> bool" where
  "mode_800_600 v \<longleftrightarrow> width v = 800 \<and> height v = 600 \<and> bytes_per_line v = 3200"

definition display_page :: "vbe_screen_info \<Rightarrow> u64" where
  "display_page v = ucast (physical_buffer v AND NOT 0xfff)"

lemma start_console:
  assumes "\<not> vga_ready c" "prints (c\<lparr>fb_size := n\<rparr>) d" "prints (d\<lparr>FRAMEBUFFER := a, vga := v\<rparr>) e" "prints (e\<lparr>BACKBUFFER := b\<rparr>) g"
  shows "FRAMEBUFFER g = a" "BACKBUFFER g = b" "fb_size g = n" "vbe_info g = vbe_info c" "vga g = v" "serial_only (port_log c) (port_log g)"
proof -
  have s: "serial_only (port_log c) (port_log d)" "serial_only (port_log d) (port_log e)" "serial_only (port_log e) (port_log g)"
    using assms(2-4) by (simp_all add: prints_def)
  show "serial_only (port_log c) (port_log g)" by (rule serial_only_trans [OF s(1) serial_only_trans [OF s(2,3)]])
qed (use assms in \<open>simp_all add: prints_def same_setup_def\<close>)

lemma vga_init_runs:
  assumes "at_power_on s" "mode_800_600 (vbe_info (console s))"
  shows "\<exists>t. vga_init (Suc (Suc (Suc (Suc (Suc n))))) f s = Some t
    \<and> FRAMEBUFFER (console t) = 0x210000 \<and> BACKBUFFER (console t) = 0x3e4060 \<and> BACKGROUND (console t) = 0x5b9060
    \<and> fb_size (console t) = 1920000 \<and> l_memRoot t = 0x200000 \<and> maj_next (majors t 0x200000) = 0x3e4000
    \<and> vga_ready (console t) \<and> console_inv (console t) \<and> serial_only (port_log (console s)) (port_log (console t))
    \<and> vbe_info (console t) = vbe_info (console s)
    \<and> paging t = boot_maps (display_page (vbe_info (console s))) (paging s)"
proof -
  let ?k = "Suc (Suc (Suc n))" and ?page = "display_page (vbe_info (console s))"
  let ?vga = "\<lparr>rowMax = 46, colMax = 88, cursorX = 0, cursorY = 0\<rparr>"
  have m: "width (vbe_info (console s)) = 800" "height (vbe_info (console s)) = 600" "bytes_per_line (vbe_info (console s)) = 3200"
    using assms(2) by (simp_all add: mode_800_600_def)
  define s1 where "s1 = on_console (\<lambda>c. c\<lparr>fb_size := 1920000\<rparr>) s"
  have "at_power_on s1" using assms(1) by (simp add: s1_def at_power_on_def)
  from start_mmap [OF this, of 468 n ?page] obtain s2 where s2: "vmm_mmap (Suc (Suc ?k)) ?page 468 True s1 = Some (0x210000, s2)"
      "l_memRoot s2 = 0x200000" "l_bestBet s2 = 0x200000"
      "majors s2 0x200000 = \<lparr>maj_prev = 0, maj_next = 0, maj_pages = 16, maj_size = 65536, maj_usage = 144, maj_first = 0x200028\<rparr>"
      "blockchain s2 = 0x200060"
      "blocks s2 0x200060 = \<lparr>fb_start = 0x3e4000, fb_pages = 31772, fb_prev = 0, fb_next = 0\<rparr>"
      "prints (console s1) (console s2)"
      "paging s2 = snd (map_loop 468 0 ?page 0x210000 (span_flags True) (snd (map_loop 16 0 0 0x200000 DIRECTORY_DEFAULTS (paging s1))))"
    by auto
  define s3 where "s3 = on_console (\<lambda>c. c\<lparr>FRAMEBUFFER := 0x210000, vga := ?vga\<rparr>) s2"
  have "blockchain s3 = 0x200060" "blocks s3 0x200060 = \<lparr>fb_start = 0x3e4000, fb_pages = 31772, fb_prev = 0, fb_next = 0\<rparr>"
    using s2 by (simp_all add: s3_def)
  from grow_mmap [OF this, of "Suc (Suc n)"] obtain t3 where t3: "liballoc_alloc (exec (Suc ?k)) 469 s3 = Some (0x3e4000, t3)"
      "liballoc.truncate t3 = liballoc.truncate s3" "blockchain t3 = 0x200060"
      "blocks t3 0x200060 = \<lparr>fb_start = 0x5b9000, fb_pages = 31303, fb_prev = 0, fb_next = 0\<rparr>" "prints (console s3) (console t3)"
      "paging t3 = snd (map_loop 469 0 0 0x3e4000 (span_flags True) (paging s3))" by auto
  from second_kmalloc [of s3 "liballoc_alloc (exec (Suc ?k))", OF _ _ _ t3(1,2), of "Suc (Suc n)"]
  obtain s4 where s4: "kmalloc (Suc (Suc ?k)) 1920000 s3 = Some (0x3e4060, s4)" "l_memRoot s4 = 0x200000" "l_bestBet s4 = 0x200000"
      "majors s4 0x200000 = \<lparr>maj_prev = 0, maj_next = 0x3e4000, maj_pages = 16, maj_size = 65536, maj_usage = 144, maj_first = 0x200028\<rparr>"
      "majors s4 0x3e4000 = big_block 0x3e4000" "liballoc.more s4 = liballoc.more t3"
    using s2 unfolding kmalloc_def exec_Kmalloc by (auto simp: s3_def simp del: exec.simps)
  define s5 where "s5 = on_console (\<lambda>c. c\<lparr>BACKBUFFER := 0x3e4060\<rparr>) s4"
  note f4 = more_fields [OF s4(6)] more_console [OF s4(6)]
  have "blockchain s5 = 0x200060" "blocks s5 0x200060 = \<lparr>fb_start = 0x5b9000, fb_pages = 31303, fb_prev = 0, fb_next = 0\<rparr>"
    using t3 f4 by (simp_all add: s5_def)
  from grow_mmap [OF this, of "Suc (Suc n)"] obtain t5 where t5: "liballoc_alloc (exec (Suc ?k)) 469 s5 = Some (0x5b9000, t5)"
      "liballoc.truncate t5 = liballoc.truncate s5" "prints (console s5) (console t5)"
      "paging t5 = snd (map_loop 469 0 0 0x5b9000 (span_flags True) (paging s5))" by auto
  from third_kmalloc [of s5 "liballoc_alloc (exec (Suc ?k))", OF _ _ _ _ t5(1,2), of "Suc n"]
  obtain s6 where s6: "kmalloc (Suc (Suc ?k)) 1920000 s5 = Some (0x5b9060, s6)" "l_memRoot s6 = 0x200000"
      "maj_next (majors s6 0x200000) = 0x3e4000" "liballoc.more s6 = liballoc.more t5"
    using s4 unfolding kmalloc_def exec_Kmalloc by (auto simp: s5_def simp del: exec.simps)
  note f6 = more_fields [OF s6(4)] more_console [OF s6(4)]
  define c6 where "c6 = (console s6)\<lparr>BACKGROUND := 0x5b9060\<rparr>"
  obtain p where p: "fill_background f c6 = c6\<lparr>pixels := p\<rparr>" using fill_background_pixels by blast
  define t where "t = on_console (\<lambda>_. c6\<lparr>pixels := p, vga_ready := True\<rparr>) s6"
  have s3': "on_console (\<lambda>c. c\<lparr>vga := ?vga\<rparr>) (on_console (\<lambda>c. c\<lparr>FRAMEBUFFER := 0x210000\<rparr>) s2) = s3"
    by (simp add: s3_def on_console_def)
  have t': "on_console (\<lambda>c. c\<lparr>vga_ready := True\<rparr>) (on_console (fill_background f) (on_console (\<lambda>c. c\<lparr>BACKGROUND := 0x5b9060\<rparr>) s6)) = t"
    by (simp add: t_def on_console_def c6_def [symmetric] p)
  have run: "vga_init (Suc (Suc ?k)) f s = Some t"
    unfolding vga_init_def Let_def m display_page_def [symmetric]
    using s2(1) s4(1) s6(1) s3' t' by (simp add: s1_def [symmetric] s5_def [symmetric] PAGE_SIZE_def FONT_WIDTH_def FONT_HEIGHT_def)
  define c where "c = console s"
  have c2: "prints (c\<lparr>fb_size := 1920000\<rparr>) (console s2)" using s2(7) by (simp add: s1_def c_def)
  have c4: "prints ((console s2)\<lparr>FRAMEBUFFER := 0x210000, vga := ?vga\<rparr>) (console s4)" using t3(5) f4 by (simp add: s3_def)
  have c6: "prints ((console s4)\<lparr>BACKBUFFER := 0x3e4060\<rparr>) (console s6)" using t5(3) f6 by (simp add: s5_def)
  have fields: "FRAMEBUFFER (console s6) = 0x210000" "BACKBUFFER (console s6) = 0x3e4060" "fb_size (console s6) = 1920000"
      "vbe_info (console s6) = vbe_info c" "vga (console s6) = ?vga" "serial_only (port_log c) (port_log (console s6))"
    using start_console [OF _ c2 c4 c6] assms(1) by (simp_all add: at_power_on_def c_def)
  have "console_inv (console t)"
    using fields m by (simp add: t_def c6_def console_inv_def screen_ok_def FONT_WIDTH_def FONT_HEIGHT_def c_def)
  moreover have "paging t = boot_maps ?page (paging s)"
    using s2(8) t3(6) t5(4) f4 f6 by (simp add: t_def s1_def s3_def s5_def boot_maps_def)
  ultimately show ?thesis using run fields s6(2,3) by (intro exI [of _ t]) (simp add: t_def c6_def c_def)
qed

end
