(* ===== verification/Kernel_Boot.thy ===== *)
theory Kernel_Boot
  imports Kernel_Start
begin

text \<open>
  The start of the kernel as a whole: what \<open>kmain\<close> has set up when the user program begins to run.
\<close>

section \<open>The console during start-up\<close>

definition stays :: "console \<Rightarrow> console \<Rightarrow> bool" where
  "stays c d \<longleftrightarrow> same_setup c d \<and> serial_only (port_log c) (port_log d) \<and> (console_inv c \<longrightarrow> console_inv d)"

lemma stays_refl [simp]: "stays c c"
  by (simp add: stays_def)

lemma stays_trans: "stays c d \<Longrightarrow> stays d e \<Longrightarrow> stays c e"
  unfolding stays_def by (blast intro: same_setup_trans serial_only_trans)

lemma stays_putChar: "stays c (putChar ch c)"
  using putChar_keeps [of c ch] by (simp add: stays_def putChar_setup putChar_serial_only keeps_def)

lemma stays_swap: "stays c (swapBuffers c)"
  by (simp add: stays_def swapBuffers_def cursor_setup console_inv_def screen_ok_def)

lemma stays_fold: "stays c d \<Longrightarrow> stays c (fold (\<lambda>x. putChar (f x)) xs d)"
  by (rule fold_inv [where P = "stays c"]) (auto intro: stays_trans stays_putChar)

lemma stays_log: "stays c d \<Longrightarrow> stays c (log fmt as d)"
  using stays_trans [OF _ stays_swap] stays_fold [of c d "\<lambda>x. x"] by (simp add: log_def print_text_def split: option.split)

lemma stays_vga_info: "stays c d \<Longrightarrow> stays c (vga_info d)"
  unfolding vga_info_def Let_def by (intro stays_log stays_fold)

lemma stays_clear: "stays c (clearScreen c)"
  by (auto simp: stays_def clearScreen_def swapBuffers_def Let_def same_setup_def console_inv_def screen_ok_def word_less_nat_alt unat_gt_0)

text \<open>Kernel states that differ in what is on the console only.\<close>

definition talks :: "'a kernel_scheme \<Rightarrow> 'a kernel_scheme \<Rightarrow> bool" where
  "talks k k' \<longleftrightarrow> (\<exists>d. stays (console (mem k)) d \<and> k' = k\<lparr>mem := (mem k)\<lparr>console := d\<rparr>\<rparr>)"

lemma talks_refl [simp]: "talks k k"
  unfolding talks_def by (intro exI [of _ "console (mem k)"]) simp

lemma talks_console: "talks k l \<Longrightarrow> (\<And>c. stays c (f c)) \<Longrightarrow> talks k (on_mm (on_console f) l)"
proof -
  assume "talks k l" and f: "\<And>c. stays c (f c)"
  then obtain d where d: "stays (console (mem k)) d" "l = k\<lparr>mem := (mem k)\<lparr>console := d\<rparr>\<rparr>" by (auto simp: talks_def)
  show ?thesis unfolding talks_def
    by (rule exI [of _ "f d"]) (use stays_trans [OF d(1) f] in \<open>simp add: d(2) on_mm_def on_console_def\<close>)
qed

lemma kprint_console: "kprint fmt as k = on_mm (on_console (log fmt as)) k"
  by (simp add: kprint_def klog_def on_mm_def on_console_def)

lemma talks_kprint: "talks k l \<Longrightarrow> talks k (kprint fmt as l)"
  unfolding kprint_console by (erule talks_console) (rule stays_log [OF stays_refl])

lemma talks_section_info: "talks k l \<Longrightarrow> talks k (section_info L a l)"
  unfolding section_info_def PRINT_SECTION_def Let_def by (intro talks_kprint)

lemma pics_stays: "stays c d \<Longrightarrow> pics P (port_log d) = pics P (port_log c)"
  by (auto simp: stays_def serial_only_def)

definition welcomed :: "layout \<Rightarrow> u64 \<Rightarrow> machine \<Rightarrow> machine" where
  "welcomed L a k = section_info L a (kprint nl [] (on_mm (on_console vga_info) (on_mm (on_console clearScreen) k)))"

lemma talks_welcomed: "talks k (welcomed L a k)"
  unfolding welcomed_def by (intro talks_section_info talks_kprint talks_console talks_refl stays_clear stays_vga_info stays_refl)

lemma permissions_run:
  assumes "low_mapped s" "low_layout L"
  obtains s' where "vmm_set_page_permissions L s = Some s'" "\<forall>v. translate s' v = translate s v"
    "\<forall>v u w x. unat v < 0x200000 \<longrightarrow> granted (permission_plan L) v = Some (u, w, x) \<longrightarrow>
       leaf s' (indices v) = Some ((v AND FRAME_MASK) OR permission_flags u w x)"
  using that vmm_set_page_permissions_fold [OF assms(2)] set_rights_fold [OF assms(1) permission_plan_low [OF assms(2)]]
  by (simp add: translate_walks)

text \<open>The controllers after the two calls of \<open>kmain\<close>, with printing in between.\<close>

lemma pics_started:
  assumes "reads_masks P env" "expect (fst (pics P h)) = 0" "expect (snd (pics P h)) = 0"
    and "serial_only (PIC_remap env 0x20 0x28 h) h'"
  defines "q \<equiv> pics P (IRQ_set_mask env 0 h')"
  shows "vector_base (fst q) = 0x20" "vector_base (snd q) = 0x28" "expect (fst q) = 0" "expect (snd q) = 0"
    "imr (fst q) = imr (fst (pics P h)) OR 1" "imr (snd q) = imr (snd (pics P h))"
proof -
  define r where "r = pics P (PIC_remap env 0x20 0x28 h)"
  have h': "pics P h' = r" using assms(4) by (auto simp: serial_only_def r_def)
  have r: "vector_base (fst r) = 0x20" "vector_base (snd r) = 0x28" "expect (fst r) = 0" "expect (snd r) = 0"
      "imr (fst r) = imr (fst (pics P h))" "imr (snd r) = imr (snd (pics P h))"
    using PIC_remap_correct [OF assms(1-3), of "0x20" "0x28"] by (simp_all add: r_def split: prod.splits)
  have "env h' 0x21 = imr (fst r)" using assms(1) h' by (simp add: reads_masks_def)
  then have "q = ((fst r)\<lparr>imr := imr (fst r) OR 1\<rparr>, snd r)"
    using r(3) h' by (cases r) (simp add: q_def IRQ_set_mask_def line_of_def line_bit_def inb_def pics_out pic_ports pic_data_def Let_def)
  then show "vector_base (fst q) = 0x20" "vector_base (snd q) = 0x28" "expect (fst q) = 0" "expect (snd q) = 0"
    "imr (fst q) = imr (fst (pics P h)) OR 1" "imr (snd q) = imr (snd (pics P h))"
    using r by simp_all
qed

text \<open>The processor after the switch.\<close>

definition gdt_layout :: "ring3_symbols \<Rightarrow> bool" where
  "gdt_layout R \<longleftrightarrow> sel_Code R = 0x08 \<and> sel_Data R = 0x10 \<and> sel_Data_User R = 0x18 \<and> sel_TSS R = 0x28"

definition in_user_mode :: "ring3_symbols \<Rightarrow> cpu \<Rightarrow> bool" where
  "in_user_mode R c \<longleftrightarrow> cpl c = 3 \<and> rip c = os_entry R \<and> seg_cs c = 0x23 \<and> seg_ss c = 0x1b
     \<and> seg_ds c = 0x1b \<and> seg_es c = 0x1b \<and> seg_fs c = 0x1b \<and> seg_gs c = 0x1b \<and> task_register c = 0x28
     \<and> bit (efer c) 0 \<and> lstar c = syscall_handler R \<and> sfmask c = 0x200"

lemma wrmsr_halves: "wrmsr (ucast (drop_bit 32 a)) (ucast a) = a"
proof (rule bit_word_eqI)
  show "bit (wrmsr (ucast (drop_bit 32 a)) (ucast a)) n = bit a n" if "n < LENGTH(64)" for n
    using that by (cases "n < 32") (auto simp: wrmsr_def bit_simps)
qed

lemma star_selector: "(ucast (drop_bit 48 (wrmsr 0x130008 eax)) :: u16) = 0x13"
proof -
  have "drop_bit 48 (ucast eax :: u64) = 0" by (rule bit_word_eqI) (auto simp: bit_simps dest: bit_imp_le_length)
  then show ?thesis by (simp add: wrmsr_def)
qed

lemma wrmsr_mask: "wrmsr 0 0x200 = 0x200"
  by (simp add: wrmsr_def)

lemma enter_user_mode_cpu:
  assumes "gdt_layout R"
  shows "in_user_mode R (cpu (enter_user_mode Y R k))"
  using assms star_selector wrmsr_halves wrmsr_mask
  by (simp add: enter_user_mode_def setup_tss_def flush_tss_def jump_usermode_def sysret_def in_user_mode_def gdt_layout_def Let_def bit_or_iff)

lemma enter_user_mode_flags: "intr (paging (mem k)) \<Longrightarrow> bit (rflags (cpu (enter_user_mode Y R k))) 9"
  by (simp add: enter_user_mode_def setup_tss_def flush_tss_def jump_usermode_def sysret_def Let_def bit_or_iff bit_and_iff bit_numeral_rec)

lemma enter_user_mode_tss:
  "gdt_tss (enter_user_mode Y R k) = tss_descriptor Y" "tss (enter_user_mode Y R k) = setup_tss_segment Y (tss k)"
  "idt_tables (enter_user_mode Y R k) = idt_tables k" "mem (enter_user_mode Y R k) = mem (kprint (''TSS stack at: %lx'' @ nl) [Num (tss_stack_top Y)] k)"
  "pressHandlers (enter_user_mode Y R k) = pressHandlers k" "releaseHandlers (enter_user_mode Y R k) = releaseHandlers k"
  by (simp_all add: enter_user_mode_def setup_tss_def flush_tss_def jump_usermode_def kprint_def Let_def)

lemma talks_fields:
  assumes "talks k l"
  shows "idt_tables l = idt_tables (k :: machine)" "pressHandlers l = pressHandlers k" "releaseHandlers l = releaseHandlers k"
    "paging (mem l) = paging (mem k)" "stays (console (mem k)) (console (mem l))" "tss l = tss k"
  using assms by (auto simp: talks_def)

text \<open>\<open>kmain\<close> after \<open>vga_init\<close>.\<close>

lemma kmain_runs:
  fixes k :: machine
  assumes init: "vga_init fuel f (mem k) = Some s" "console_inv (console s)" "vga_ready (console s)"
      "serial_only (kports k) (port_log (console s))"
    and p: "vmm_set_page_permissions L (paging s) = Some p"
    and keys: "pressHandlers k = table_of []" and R: "gdt_layout R"
    and pic: "reads_masks P env" "expect (fst (pics P (kports k))) = 0" "expect (snd (pics P (kports k))) = 0"
  shows "\<exists>k'. kmain fuel f env Y R L a print_key k = Some k' \<and> in_user_mode R (cpu k') \<and> bit (rflags (cpu k')) 9
    \<and> gdt_tss k' = tss_descriptor Y \<and> tss k' = setup_tss_segment Y (tss k) \<and> idt_tables k' = IDT_init Y (idt_tables k)
    \<and> pressHandlers k' = table_of [print_key] \<and> releaseHandlers k' = releaseHandlers k
    \<and> vga_ready (console (mem k')) \<and> console_inv (console (mem k')) \<and> paging (mem k') = enable_interrupts p
    \<and> vector_base (fst (pics P (kports k'))) = 0x20 \<and> vector_base (snd (pics P (kports k'))) = 0x28
    \<and> expect (fst (pics P (kports k'))) = 0 \<and> expect (snd (pics P (kports k'))) = 0
    \<and> imr (fst (pics P (kports k'))) = imr (fst (pics P (kports k))) OR 1
    \<and> imr (snd (pics P (kports k'))) = imr (snd (pics P (kports k)))"
proof -
  define k3 where "k3 = (on_ports (PIC_remap env 0x20 0x28) (k\<lparr>mem := s\<rparr>))\<lparr>idt_tables := IDT_init Y (idt_tables k)\<rparr>"
  define k4 where "k4 = welcomed L a k3"
  define k5 where "k5 = on_mm (\<lambda>s. s\<lparr>paging := p\<rparr>) k4"
  define k6 where "k6 = k5\<lparr>pressHandlers := table_of [print_key]\<rparr>"
  define k8 where "k8 = on_mm (\<lambda>s. s\<lparr>paging := enable_interrupts (paging s)\<rparr>) (on_ports (IRQ_set_mask env 0) k6)"
  define k9 where "k9 = kprint (nl @ ''Entering user space...'' @ nl) [] k8"
  define k' where "k' = enter_user_mode Y R k9"
  have k3: "paging (mem k3) = paging s" "pressHandlers k3 = table_of []" "releaseHandlers k3 = releaseHandlers k" "tss k3 = tss k"
      "idt_tables k3 = IDT_init Y (idt_tables k)" "console (mem k3) = (console s)\<lparr>port_log := PIC_remap env 0x20 0x28 (port_log (console s))\<rparr>"
    using keys by (simp_all add: k3_def on_ports_def)
  note k4 = talks_fields [OF talks_welcomed [of k3 L a, folded k4_def]]
  have sub: "subscribePress print_key k5 = (True, k6)"
    using subscribe_table [of "[]" print_key] k4 k3 by (simp add: subscribePress_def k5_def k6_def on_mm_def MAX_HANDLERS_def)
  have k3': "(on_ports (PIC_remap env 0x20 0x28) (k\<lparr>mem := s\<rparr>))\<lparr>idt_tables := IDT_init Y (idt_tables (on_ports (PIC_remap env 0x20 0x28) (k\<lparr>mem := s\<rparr>)))\<rparr> = k3"
    by (simp add: k3_def on_ports_def)
  have run: "kmain fuel f env Y R L a print_key k = Some k'"
    unfolding kmain_def Let_def
    using init(1) p sub k4(4) k3(1)
    by (simp add: k3' welcomed_def [symmetric] k4_def [symmetric] k5_def [symmetric] k8_def k9_def k'_def)
  have k8: "console (mem k8) = (console (mem k4))\<lparr>port_log := IRQ_set_mask env 0 (kports k4)\<rparr>" "paging (mem k8) = enable_interrupts p"
      "pressHandlers k8 = table_of [print_key]" "releaseHandlers k8 = releaseHandlers k" "tss k8 = tss k" "idt_tables k8 = IDT_init Y (idt_tables k)"
    using k3 k4 by (simp_all add: k8_def k6_def k5_def on_mm_def on_ports_def)
  have t9: "talks k8 k9" unfolding k9_def by (rule talks_kprint [OF talks_refl])
  note k9 = talks_fields [OF t9]
  have t': "talks k8 (kprint (''TSS stack at: %lx'' @ nl) [Num (tss_stack_top Y)] k9)" by (rule talks_kprint [OF t9])
  note e = talks_fields [OF t'] enter_user_mode_tss [of Y R k9, folded k'_def]
  have ser: "serial_only (PIC_remap env 0x20 0x28 (port_log (console s))) (kports k4)"
    using k4(5) k3(6) by (simp add: stays_def)
  have pk: "pics P (port_log (console s)) = pics P (kports k)" using init(4) by (auto simp: serial_only_def)
  have pk': "pics P (kports k') = pics P (IRQ_set_mask env 0 (kports k4))"
    using pics_stays [OF e(5), of P] k8(1) by (simp add: e(10))
  have "console_inv (console (mem k3))" "vga_ready (console (mem k3))"
    using init(2,3) k3(6) by (simp_all add: console_inv_def screen_ok_def)
  then have "console_inv (console (mem k4))" "vga_ready (console (mem k4))"
    using k4(5) by (simp_all add: stays_def same_setup_def)
  then have "console_inv (console (mem k8))" "vga_ready (console (mem k8))"
    using k8(1) by (simp_all add: console_inv_def screen_ok_def)
  then have con: "console_inv (console (mem k'))" "vga_ready (console (mem k'))"
    using e(5,10) by (simp_all add: stays_def same_setup_def)
  have "intr (paging (mem k9))" using k9(4) k8(2) by (simp add: enable_interrupts_def)
  then have cpu: "in_user_mode R (cpu k')" "bit (rflags (cpu k')) 9"
    using enter_user_mode_cpu [OF R] enter_user_mode_flags by (simp_all add: k'_def)
  have k': "gdt_tss k' = tss_descriptor Y" "tss k' = setup_tss_segment Y (tss k)" "idt_tables k' = IDT_init Y (idt_tables k)"
      "pressHandlers k' = table_of [print_key]" "releaseHandlers k' = releaseHandlers k"
    using e(7-9,11,12) k9 k8 by simp_all
  have "paging (mem k') = enable_interrupts p" unfolding e(10) using e(4) k8(2) by (rule trans)
  moreover have "expect (fst (pics P (port_log (console s)))) = 0" "expect (snd (pics P (port_log (console s)))) = 0"
    using pic(2,3) pk by simp_all
  note pp = pics_started [OF pic(1) this ser, folded pk', unfolded pk]
  ultimately show ?thesis using run cpu con k' pp by (intro exI [of _ k'] conjI)
qed

section \<open>Conditions at boot\<close>

lemma display_page_props:
  "page_aligned (display_page v)" "unat (display_page v) < 2 ^ 32" "4096 \<le> unat (physical_buffer v) \<Longrightarrow> display_page v \<noteq> 0"
proof -
  have m: "(0xfff :: u32) = mask 12" by (simp add: mask_eq_exp_minus_1)
  have d: "display_page v = ucast (physical_buffer v AND NOT (mask 12))" unfolding display_page_def m by simp
  have "bit (display_page v) n \<longleftrightarrow> bit (physical_buffer v) n \<and> 12 \<le> n" for n
    unfolding d using bit_imp_le_length [of "physical_buffer v" n] by (auto simp: bit_simps)
  note b = this
  have "display_page v AND mask 12 = 0" by (rule bit_word_eqI) (auto simp: bit_simps b)
  then show "page_aligned (display_page v)" by (simp add: page_aligned_def low12_mask)
  show "unat (display_page v) < 2 ^ 32" unfolding d using unsigned_less [of "physical_buffer v AND NOT (mask 12)", where 'a = nat] by (simp add: unat_ucast64)
  show "display_page v \<noteq> 0" if "4096 \<le> unat (physical_buffer v)"
  proof
    assume z: "display_page v = 0"
    have "physical_buffer v = take_bit 12 (physical_buffer v)"
    proof (rule bit_word_eqI)
      show "bit (physical_buffer v) n = bit (take_bit 12 (physical_buffer v)) n" for n
        using b [of n] z by (auto simp: bit_simps)
    qed
    then have "physical_buffer v = physical_buffer v mod 2 ^ 12" by (simp only: take_bit_eq_mod)
    then have "unat (physical_buffer v) = unat (physical_buffer v mod 4096)" by simp
    also have "\<dots> < 4096" by (simp add: unat_mod_distrib)
    finally show False using that by simp
  qed
qed

text \<open>The machine after the boot loader, for the statements below.\<close>

lemma frames_boot: "frames_for 1422 boot_paging"
proof -
  let ?K = "{256..<5944 :: nat}"
  have sub: "?K \<subseteq> {..<64 * PAGES}" by (auto simp: PAGES_def)
  have "MEM_START \<le> page_addr pmm_boot k" if "k \<in> ?K" for k
    using unat_page_addr [OF pmm_inv_boot, of k] that by (simp add: word_le_nat_alt MEM_START_def PAGES_def)
  then have "page_addr pmm_boot ` ?K \<subseteq> {a \<in> free_frames (phys boot_paging). MEM_START \<le> a}"
    using sub by (auto simp: boot_paging_def free_frames_boot)
  then have "card (page_addr pmm_boot ` ?K) \<le> card {a \<in> free_frames (phys boot_paging). MEM_START \<le> a}"
    by (intro card_mono) auto
  moreover have "card (page_addr pmm_boot ` ?K) = card ?K"
    using inj_on_subset [OF page_addr_inj [OF pmm_inv_boot] sub] by (rule card_image)
  ultimately show ?thesis by (simp add: frames_for_def boot_paging_def MEM_START_def)
qed

lemma boot_unmapped: "i < 469 \<Longrightarrow> translate boot_paging (0x210000 + of_nat i * PAGE_SIZE) = None"
proof -
  assume i: "i < 469"
  define v :: u64 where "v = 0x210000 + of_nat i * PAGE_SIZE"
  have "unat v = 0x210000 + i * 4096" using i by (simp add: v_def PAGE_SIZE_def unat_word_ariths unat_of_nat)
  then have "unat (drop_bit 21 v) = 1" using i by (simp add: drop_bit_eq_div unat_div_distrib)
  then have "drop_bit 21 v = 1" by (simp add: word_unat_eq_iff)
  then have "pt2_index v = 1" by (simp add: pt2_index_def)
  then have "translate boot_paging v = None"
    by (simp add: translate_def boot_paging_def indices_def boot_step split: option.split)
  then show ?thesis by (simp only: v_def)
qed

definition boot_console :: console where
  "boot_console = sample_console\<lparr>vga_ready := False, vbe_info := \<lparr>width = 800, height = 600, bpp = 32, physical_buffer = 0xfd000000,
     bytes_per_pixel = 4, bytes_per_line = 3200, x_cur_max = 88, y_cur_max = 46\<rparr>\<rparr>"

definition boot_state :: mm where
  "boot_state = boot_mm\<lparr>paging := boot_paging, console := boot_console\<rparr>"

definition blank_cpu :: cpu where
  "blank_cpu = \<lparr>efer = 0x500, star = 0, lstar = 0, cstar = 0, sfmask = 0, seg_cs = 8, seg_ss = 0x10, seg_ds = 0x10, seg_es = 0x10,
     seg_fs = 0x10, seg_gs = 0x10, task_register = 0, rip = 0x9000, rsp_reg = 0x18000, rflags = 2, cpl = 0, kernel_stack_save = 0, user_stack_save = 0\<rparr>"

definition boot_machine :: machine where
  "boot_machine = \<lparr>pressHandlers = table_of [], releaseHandlers = table_of [], mem = boot_state, clock = 0, ram = (\<lambda>_. 0),
     idt_tables = blank_idt, gdt_tss = tss_descriptor sample_symbols,
     tss = \<lparr>reserved0 = 0, rsp = [0, 0, 0], reserved1 = 0, tss_ist = replicate 7 0, reserved2 = 0, reserved3 = 0, reserved4 = 0, iopb_offset = 0\<rparr>,
     cpu = blank_cpu\<rparr>"

definition sample_ring3 :: ring3_symbols where
  "sample_ring3 = \<lparr>sel_Code = 0x08, sel_Data = 0x10, sel_Data_User = 0x18, sel_TSS = 0x28, syscall_handler = 0x9100, os_entry = 0x12000\<rparr>"

lemma boot_state_ready: "at_power_on boot_state" "mode_800_600 (vbe_info (console boot_state))" "boot_memory (paging boot_state)"
  "physical_buffer (vbe_info (console boot_state)) = 0xfd000000" "port_log (console boot_state) = []"
  using low_mapped_boot frames_boot boot_unmapped
  by (simp_all add: at_power_on_def mode_800_600_def boot_memory_def boot_state_def boot_mm_def boot_console_def sample_console_def)

section \<open>Properties\<close>

text \<open>
  C14: In the 800 by 600 mode of the boot loader, \<open>vga_init\<close> as the first user of the memory management returns
  with a console that is ready and in order (five levels of fuel are enough). The whole pages of the
  frame buffer are mapped to the display memory, and the linear mapping of low memory is still there.
\<close>

theorem vga_init_boot:
  assumes "at_power_on s" "mode_800_600 (vbe_info (console s))" "4096 \<le> unat (physical_buffer (vbe_info (console s)))"
    and "boot_memory (paging s)"
  shows "\<exists>t. vga_init (Suc (Suc (Suc (Suc (Suc n))))) f s = Some t \<and> vga_ready (console t) \<and> console_inv (console t)
    \<and> (\<forall>i < 468. translate (paging t) (FRAMEBUFFER (console t) + of_nat i * PAGE_SIZE)
         = Some (display_page (vbe_info (console s)) + of_nat i * PAGE_SIZE))
    \<and> (\<forall>v. unat v < 0x200000 \<longrightarrow> translate (paging t) v = Some (v AND FRAME_MASK))"
proof -
  obtain t where t: "vga_init (Suc (Suc (Suc (Suc (Suc n))))) f s = Some t" "FRAMEBUFFER (console t) = 0x210000" "vga_ready (console t)"
      "console_inv (console t)" "paging t = boot_maps (display_page (vbe_info (console s))) (paging s)"
    using vga_init_runs [OF assms(1,2), of n f] by blast
  note m = boot_maps_memory [OF assms(4) display_page_props(1,2) display_page_props(3) [OF assms(3)]]
  show ?thesis using t m by (intro exI [of _ t]) (simp add: low_mapped_def)
qed

theorem vga_init_boot_witness:
  "\<exists>t. vga_init (Suc (Suc (Suc (Suc (Suc 0))))) (\<lambda>_. True) boot_state = Some t
    \<and> translate (paging t) (FRAMEBUFFER (console t) + of_nat 467 * PAGE_SIZE) = Some (display_page (vbe_info (console boot_state)) + of_nat 467 * PAGE_SIZE)"
proof -
  have "4096 \<le> unat (physical_buffer (vbe_info (console boot_state)))" unfolding boot_state_ready(4) by simp
  from vga_init_boot [OF boot_state_ready(1,2) this boot_state_ready(3), of 0 "\<lambda>_. True"]
  obtain t where t: "vga_init (Suc (Suc (Suc (Suc (Suc 0))))) (\<lambda>_. True) boot_state = Some t"
      "\<forall>i < 468. translate (paging t) (FRAMEBUFFER (console t) + of_nat i * PAGE_SIZE)
         = Some (display_page (vbe_info (console boot_state)) + of_nat i * PAGE_SIZE)"
    by (elim exE conjE) (rule that)
  have "translate (paging t) (FRAMEBUFFER (console t) + of_nat 467 * PAGE_SIZE) = Some (display_page (vbe_info (console boot_state)) + of_nat 467 * PAGE_SIZE)"
    by (rule t(2) [rule_format]) simp
  with t(1) show ?thesis by blast
qed

text \<open>
  C13: The frame buffer needs 468 whole pages and 3072 bytes of one more, and \<open>vga_init\<close> asks for \<open>fb_size / PAGE_SIZE\<close>
  pages: the first 468 pages of the range are mapped to the display. When the address behind them
  was unmapped before, that page belongs to the next block of the heap, on a frame that the page allocator had
  free: the header of that block and the first pixels of the back buffer, which is allocated in it, lie
  inside the range that \<open>swapBuffers\<close> overwrites.
\<close>

theorem vga_init_overlap:
  assumes "at_power_on s" "mode_800_600 (vbe_info (console s))" "4096 \<le> unat (physical_buffer (vbe_info (console s)))"
    and "boot_memory (paging s)" "translate (paging s) 0x3e4000 = None"
  shows "\<exists>t. vga_init (Suc (Suc (Suc (Suc (Suc n))))) f s = Some t
    \<and> (let c = console t; behind = FRAMEBUFFER c + 468 * PAGE_SIZE;
          frame = {unat (FRAMEBUFFER c)..<unat (FRAMEBUFFER c) + unat (fb_size c)}
       in unat (fb_size c) = 468 * 4096 + 3072
        \<and> (\<forall>i < 468. translate (paging t) (FRAMEBUFFER c + of_nat i * PAGE_SIZE)
             = Some (display_page (vbe_info (console s)) + of_nat i * PAGE_SIZE))
        \<and> (\<exists>a \<in> free_frames (phys (paging s)). translate (paging t) behind = Some a)
        \<and> maj_next (majors t (l_memRoot t)) = behind \<and> unat behind \<in> frame
        \<and> BACKBUFFER c = behind + 96 \<and> unat (BACKBUFFER c) \<in> frame)"
proof -
  let ?page = "display_page (vbe_info (console s))"
  obtain t where t: "vga_init (Suc (Suc (Suc (Suc (Suc n))))) f s = Some t" "FRAMEBUFFER (console t) = 0x210000" "fb_size (console t) = 1920000"
      "BACKBUFFER (console t) = 0x3e4060" "l_memRoot t = 0x200000" "maj_next (majors t 0x200000) = 0x3e4000"
      "paging t = boot_maps ?page (paging s)"
    using vga_init_runs [OF assms(1,2), of n f] by blast
  note m = boot_maps_memory(2) [OF assms(4) display_page_props(1,2) display_page_props(3) [OF assms(3)]]
    boot_maps_heap_page [OF assms(4) display_page_props(1,2) assms(5), of "vbe_info (console s)"]
  have b: "(0x210000 :: u64) + 468 * PAGE_SIZE = 0x3e4000" by (simp add: PAGE_SIZE_def)
  show ?thesis
    by (intro exI [of _ t] conjI t(1)) (unfold Let_def t(2-7) b, use m in \<open>simp add: t(7)\<close>)
qed

theorem vga_init_overlap_witness:
  "\<exists>t. vga_init (Suc (Suc (Suc (Suc (Suc 0))))) (\<lambda>_. True) boot_state = Some t
    \<and> (let behind = FRAMEBUFFER (console t) + 468 * PAGE_SIZE
       in (\<exists>a \<in> free_frames (phys (paging boot_state)). translate (paging t) behind = Some a)
        \<and> maj_next (majors t (l_memRoot t)) = behind \<and> BACKBUFFER (console t) = behind + 96)"
proof -
  have "4096 \<le> unat (physical_buffer (vbe_info (console boot_state)))" unfolding boot_state_ready(4) by simp
  moreover have "translate (paging boot_state) 0x3e4000 = None"
    using boot_unmapped [of 468] by (simp add: boot_state_def PAGE_SIZE_def)
  ultimately show ?thesis
    using vga_init_overlap [OF boot_state_ready(1,2) _ boot_state_ready(3), of 0 "\<lambda>_. True"] unfolding Let_def by blast
qed

text \<open>
  C12: The start of the kernel. From the state the boot loader leaves, with the segments of gdt.asm, \<open>kmain\<close>
  reaches user mode at \<open>os_entry\<close> with user segments, system calls enabled and interrupts on. The interrupt
  table is loaded, both controllers have their new vectors with the clock masked and no other mask
  changed, \<open>printKey\<close> is the only key handler, the task state segment holds the kernel stack, the console is
  ready, and every page of a section has exactly the rights of that section.
\<close>

theorem kmain_boot:
  assumes "at_power_on (mem k)" "mode_800_600 (vbe_info (console (mem k)))" "boot_memory (paging (mem k))"
    and "4096 \<le> unat (physical_buffer (vbe_info (console (mem k))))"
    and "low_layout L" "gdt_layout R" "length (rsp (tss k)) = 3"
    and "pressHandlers k = table_of []" "releaseHandlers k = table_of []"
    and "reads_masks P env" "expect (fst (pics P (kports k))) = 0" "expect (snd (pics P (kports k))) = 0"
  shows "\<exists>k'. kmain (Suc (Suc (Suc (Suc (Suc n))))) f env Y R L a print_key k = Some k'
    \<and> in_user_mode R (cpu k') \<and> intr (paging (mem k')) \<and> bit (rflags (cpu k')) 9
    \<and> idt_tables k' = IDT_init Y (idt_tables k)
    \<and> (let (p1, p2) = pics P (kports k); (q1, q2) = pics P (kports k')
       in vector_base q1 = 0x20 \<and> vector_base q2 = 0x28 \<and> imr q1 = imr p1 OR 1 \<and> imr q2 = imr p2 \<and> expect q1 = 0 \<and> expect q2 = 0)
    \<and> pressHandlers k' = table_of [print_key] \<and> releaseHandlers k' = table_of []
    \<and> descriptor_base (gdt_tss k') = tss_address Y \<and> rsp (tss k') ! 0 = tss_stack_top Y
    \<and> vga_ready (console (mem k')) \<and> console_inv (console (mem k'))
    \<and> (\<forall>v is_os w x. unat v < 0x200000 \<longrightarrow> granted (permission_plan L) v = Some (is_os, w, x) \<longrightarrow>
         leaf (paging (mem k')) (indices v) = Some ((v AND FRAME_MASK) OR permission_flags is_os w x))"
proof -
  let ?page = "display_page (vbe_info (console (mem k)))"
  obtain s where s: "vga_init (Suc (Suc (Suc (Suc (Suc n))))) f (mem k) = Some s" "console_inv (console s)" "vga_ready (console s)"
      "serial_only (kports k) (port_log (console s))" "paging s = boot_maps ?page (paging (mem k))"
    using vga_init_runs [OF assms(1,2), of n f] by blast
  have low: "low_mapped (paging s)"
    using boot_maps_memory(1) [OF assms(3) display_page_props(1,2) display_page_props(3) [OF assms(4)]] s(5) by simp
  obtain p where p: "vmm_set_page_permissions L (paging s) = Some p"
      "\<forall>v u w x. unat v < 0x200000 \<longrightarrow> granted (permission_plan L) v = Some (u, w, x) \<longrightarrow>
         leaf p (indices v) = Some ((v AND FRAME_MASK) OR permission_flags u w x)"
    by (rule permissions_run [OF low assms(5)])
  have "leaf (enable_interrupts p) q = leaf p q" for q by (simp add: leaf_def enable_interrupts_def entry_def walks_def split: option.split)
  moreover have "rsp (setup_tss_segment Y (tss k)) ! 0 = tss_stack_top Y" using assms(7) by (simp add: setup_tss_segment_def)
  moreover have "descriptor_base (tss_descriptor Y) = tss_address Y" using tss_descriptor_base_limit by blast
  moreover from kmain_runs [OF s(1-4) p(1) assms(8,6,10-12), of Y a print_key]
  obtain k' where "kmain (Suc (Suc (Suc (Suc (Suc n))))) f env Y R L a print_key k = Some k'" "in_user_mode R (cpu k')" "bit (rflags (cpu k')) 9"
      "gdt_tss k' = tss_descriptor Y" "tss k' = setup_tss_segment Y (tss k)" "idt_tables k' = IDT_init Y (idt_tables k)"
      "pressHandlers k' = table_of [print_key]" "releaseHandlers k' = releaseHandlers k"
      "vga_ready (console (mem k'))" "console_inv (console (mem k'))" "paging (mem k') = enable_interrupts p"
      "vector_base (fst (pics P (kports k'))) = 0x20" "vector_base (snd (pics P (kports k'))) = 0x28"
      "expect (fst (pics P (kports k'))) = 0" "expect (snd (pics P (kports k'))) = 0"
      "imr (fst (pics P (kports k'))) = imr (fst (pics P (kports k))) OR 1"
      "imr (snd (pics P (kports k'))) = imr (snd (pics P (kports k)))"
    by (elim exE conjE) (rule that)
  moreover have "intr (enable_interrupts p)" by (simp add: enable_interrupts_def)
  ultimately show ?thesis using p(2) assms(9) by (intro exI [of _ k']) (simp add: Let_def split_beta)
qed

theorem kmain_boot_witness:
  "\<exists>k'. kmain (Suc (Suc (Suc (Suc (Suc 0))))) (\<lambda>_. True) (pic_env pics_at_boot) sample_symbols sample_ring3 sample_layout 0x1b000 0x9200 boot_machine = Some k'
    \<and> in_user_mode sample_ring3 (cpu k') \<and> intr (paging (mem k')) \<and> pressHandlers k' = table_of [0x9200]"
proof -
  have m: "mem boot_machine = boot_state" "kports boot_machine = []" by (simp_all add: boot_machine_def boot_state_ready)
  have "4096 \<le> unat (physical_buffer (vbe_info (console (mem boot_machine))))" unfolding m boot_state_ready(4) by simp
  moreover have "gdt_layout sample_ring3" by (simp add: gdt_layout_def sample_ring3_def)
  moreover have "length (rsp (tss boot_machine)) = 3" "pressHandlers boot_machine = table_of []" "releaseHandlers boot_machine = table_of []"
    by (simp_all add: boot_machine_def)
  moreover have "expect (fst (pics pics_at_boot (kports boot_machine))) = 0" "expect (snd (pics pics_at_boot (kports boot_machine))) = 0"
    unfolding m boot_state_ready(5) by (simp_all add: pics_at_boot_def)
  ultimately show ?thesis
    using kmain_boot [of boot_machine sample_layout sample_ring3 pics_at_boot "pic_env pics_at_boot" 0 "\<lambda>_. True" sample_symbols "0x1b000" "0x9200"]
      boot_state_ready(1-3) low_layout_sample reads_masks_pic_env unfolding m by blast
qed

end
