(* ===== verification/Spec2Isabelle.thy ===== *)
theory Spec2Isabelle
  imports Syscalls Os_Main Fmt_Fp_Count Kernel_Boot
begin

text \<open>
  \<^bold>\<open>A verification library for an x86-64 kernel with its heap, its user program and its C library\<close>

  \<^bold>\<open>The program.\<close> A boot loader in assembly (src/src/boot) loads the image, sets up four page tables that map the
  first two megabytes, switches to long mode and calls \<open>kmain\<close> (src/src/kernel/src/Kernel.c). The kernel keeps a
  bitmap of physical pages (PMM.c), builds page tables from them (VMM.c), hands out virtual spans from a
  chain of free blocks (VMM.c) and small pieces from a heap (ports/liballoc/liballoc\_1\_1.c). Chain and heap
  need each other: the nodes of the chain are pieces of the heap, and the heap gets its blocks as spans.
  A text console (VGA.c) draws into a back buffer from that heap and copies every byte to the serial port;
  \<open>log\<close> formats with the kernel's own \<open>vsprintf\<close> (lib/string). Interrupts arrive through the two 8259 controllers
  (PIC.c) and the gates of the interrupt table (IDT.h); the keyboard (KbController.c) calls subscribed
  handlers. \<open>kmain\<close> sets all of this up, gives every section of the image its access rights and enters the
  user program (src/src/os/src/Main.c) in ring 3, which talks to the kernel by six system calls (syscalls.c)
  and prints through musl (src/ports/musl-1.2.2).

  \<^bold>\<open>Conventions.\<close> Machine integers are words of their width (Prelude: \<open>u8\<close> to \<open>u64\<close>), so that wrap-around, sign extension
  and truncation are those of the code; signed variables that the code keeps in range are \<open>int\<close> with the range
  written out where it matters. Raw memory is a function from addresses to bytes. State is passed
  explicitly in records that extend each other: \<open>liballoc\<close> (the heap), \<open>mm\<close> (with chain, page tables and console),
  \<open>keyboard\<close>, \<open>kernel\<close>, \<open>machine\<close>. Port input and output is a history of accesses, and what a read returns is an
  environment, a function of the history. A loop that may not end is a \<open>partial_function\<close> or runs on fuel; both
  give \<open>None\<close> when there is no result, and the theorems state that there is one.

  \<^bold>\<open>Theories and sources\<close> (kernel sources under src/src/kernel).
  \<^item> Prelude: words, bit facts, loads and stores of wider integers. Kmemory: lib/memory/kmemset.c.
  \<^item> Pmm: memory/PMM.c. The bit scan finds the lowest free page from a start, and pages are never handed out twice.
  \<^item> Paging: the first half of memory/VMM.c. A page is mapped to the frame asked for, nothing else changes, and the
    tables stay a tree. Permissions: the end of VMM.c. Exactly the pages of the user sections are accessible to user
    code in the whole address space, none of them writable and executable; mapping a kernel page later takes user access away again.
  \<^item> Klib: lib/string and lib/math; \<open>vsprintf\<close> refines a formatting function on lists, numbers read back.
  \<^item> Ports: PortIO.c and PIC.c against a model of the 8259. Descriptors: IDT.h and the task state segment of Ring3.c.
  \<^item> Font, Vga, Screen: VGA/Font.c and VGA/VGA.c. The cursor stays on the screen, all drawing stays in the back buffer,
    and glyphs, scrolling and \<open>log\<close> are what they should be.
  \<^item> Liballoc, Vmm: the four mutually recursive routines \<open>kmalloc\<close>, \<open>kfree\<close>, \<open>vmm_mmap\<close> and \<open>vmm_free_pages\<close>, each with its
    callees as parameters; \<open>exec\<close> ties the knot on fuel. Chain: doubly linked lists and sorted lists of spans. Heap,
    Heap\_Alloc, Heap\_Free: the invariant of the heap and its routines. Spans, Spans\_Free: the chain refines taking the
    first fitting span and giving a span back. Memory: both together from the first request of the boot on.
  \<^item> Keyboard, Interrupts: KbController.c, Interrupts.c, Diagnostics.c, ubsan\_handlers.c and \<open>printKey\<close> of Kernel.c. Every
    interrupt is acknowledged exactly once; what a key does.
  \<^item> Syscalls: syscalls.c. \<open>writev\<close> prints all buffers in order; small mappings alias each other.
  \<^item> Kernel, Kernel\_Start, Kernel\_Boot: \<open>vga_init\<close>, the rest of Ring3.c with ring3.asm, and \<open>kmain\<close>, which reaches the user
    program with every component in the state that the theorems about it assume; of the frame buffer
    468 whole pages are mapped, and the copy to the screen runs on into the heap block behind them.
  \<^item> Os\_Main: os/src/Main.c on byte memory. The square stays inside the back buffer, every round shows the saved image
    with the square, and the square reaches two of the four corners, again and again.
  \<^item> Multibyte, Libc\_String: UTF-8 and memory routines of musl, with their word-wise fast paths, against simple
    specifications. Stdio: buffered streams with partial writes and errors. Printf: the whole of \<open>printf_core\<close>.
    Printf\_Text, Printf\_Format, Printf\_Spec: formats as pieces and the text they stand for by the C standard, which
    \<open>vsnprintf\<close> and \<open>printf\<close> produce. Printf\_Safety: a format is read as the list of arguments it takes; whatever it says, \<open>vsnprintf\<close> returns and
    changes nothing but its destination and the bytes that a \<open>%n\<close> of the format stores. Long\_Double, Long\_Double\_Exact, Fmt\_Fp, Fmt\_Fp\_Limbs, Fmt\_Fp\_Count:
    the 80-bit format with its arithmetic, the conversion \<open>fmt_fp\<close>, and that it returns the number of bytes it writes.

  \<^bold>\<open>Interfaces.\<close> \<open>frame_allocator\<close> (Pmm) is what the page tables need of the physical manager. \<open>page_source\<close> (Heap\_Alloc) is what
  the heap needs of the page allocator and \<open>node_allocator\<close> (Spans) what the chain needs of the heap; Memory
  interprets each with the other's routines. \<open>key_handlers\<close> (Keyboard) is interpreted with \<open>printKey\<close>. \<open>output_stream\<close>
  (Stdio) is the contract of a stream, interpreted with string streams and file streams; \<open>formatted_stream\<close>
  (Printf\_Safety) extends it by what \<open>%n\<close> may store, interpreted with the stream of \<open>vsnprintf\<close>.

  \<^bold>\<open>Bounds and fuel.\<close> \<open>exec\<close> bounds the nesting of the memory routines and the lengths of their loops: \<open>heap_fuel\<close> says how much a
  search of the heap needs, the length of the chain bounds the rest, and five levels are enough for
  \<open>vga_init\<close> and \<open>kmain\<close>. \<open>print_blocks\<close>, \<open>find_left\<close> and the like take the same fuel. The recursion of \<open>frexpl\<close> is one deep, and its
  fuel is one. \<open>strlen\<close> and its kind have no bound: their theorems assume a terminator and show that they
  return. The loop of the user program has no end and is a reachability relation.

  \<^bold>\<open>Assumptions about what is not under src.\<close> The processor: \<open>cpuid\<close>, \<open>fsin\<close> and the control registers are parameters, \<open>sysret\<close>, \<open>bsr\<close>
  and the page walk are written out as documented. The devices: \<open>reads_masks\<close> says that the data port of a
  controller reads as its mask. The linker: \<open>layout\<close>, \<open>symbols\<close> and \<open>ring3_symbols\<close> hold its addresses. Each
  theorem with such a hypothesis has an instance with concrete values.

  \<^bold>\<open>Not modelled.\<close> The boot loader and the entry stubs of interrupts and system calls are assembly without a C part; the
  user program's start before its loop needs the allocator of musl. Of musl only the part that the user
  program's output passes through is modelled: the other libraries (regular expressions, locale tables,
  encryption, the dynamic linker, threads, sockets, the allocator, most of the mathematics) are vendored and
  unused here. ports/liballoc/liballoc.c is an older version of the heap that is not built. Pixels, heap
  headers and file buffers live in separate memories of the model, so that a write out of one object is
  seen as an address out of range and not as the damage it does to another object.
\<close>

end
